(* ===== verification/Prelude.thy ===== *)
theory Prelude
  imports Main "HOL-Library.Word" "HOL-Library.Char_ord" "HOL-Library.List_Lexorder"
    "HOL-Library.Sublist" "HOL-Library.AList"
begin

text \<open>
  Shared vocabulary of the development.

  A Go \<open>string\<close> and a Go \<open>[]byte\<close> are both sequences of bytes, so both are the type
  \<open>bytes\<close> (a list of \<^typ>\<open>char\<close>, which is exactly an 8-bit value). The byte order Go uses to
  compare them is the lexicographic order of \<^verbatim>\<open>HOL-Library.List_Lexorder\<close> over
  \<^verbatim>\<open>HOL-Library.Char_ord\<close>. An \<open>int64\<close> or \<open>uint64\<close> that is stored is a \<open>64 word\<close>;
  a Go \<open>int\<close> used as a table id, a counter or a length is an \<^typ>\<open>int\<close>, with the 64-bit range
  written out (\<open>is_int64\<close>) where the code converts it to text and back.
  A call that returns an error is a sum, the error on the left. A Go \<open>map\<close> that is iterated is
  an association list: its order stands for the iteration order, which Go leaves open, and the
  theorems quantify over every such list.
\<close>

type_synonym bytes = "char list"
type_synonym error = "char list"
type_synonym 'a result = "error + 'a"
type_synonym docid = "64 word"

named_theorems go_simps \<open>equations of the Go standard library functions the code calls\<close>
named_theorems kv_simps \<open>effect of key-value operations on the abstract map of the store\<close>

definition is_int64 :: "int \<Rightarrow> bool" where
  "is_int64 i \<longleftrightarrow> - (2 ^ 63) \<le> i \<and> i < 2 ^ 63"

subsection \<open>Lists\<close>

lemma fold_union_image:
  "fold (\<lambda>x A. A \<union> f x) xs A = A \<union> (\<Union>x\<in>set xs. f x)"
  by (induction xs arbitrary: A) auto

lemma split_at_first:
  assumes "c \<notin> set xs" "c \<notin> set xs'" "xs @ c # ys = xs' @ c # ys'"
  shows "xs = xs' \<and> ys = ys'"
  using assms
proof (induction xs arbitrary: xs')
  case Nil
  then show ?case by (cases xs') auto
next
  case (Cons x xs)
  then show ?case by (cases xs') auto
qed

lemma split_at_last:
  assumes "c \<notin> set ys" "c \<notin> set ys'" "xs @ c # ys = xs' @ c # ys'"
  shows "xs = xs' \<and> ys = ys'"
proof -
  have "rev ys @ c # rev xs = rev ys' @ c # rev xs'"
    using arg_cong [OF assms(3), of rev] by simp
  then have "rev ys = rev ys' \<and> rev xs = rev xs'"
    using assms(1,2) by (intro split_at_first [of c]) auto
  then show ?thesis by simp
qed

lemma prefix_snoc_charD:
  "prefix (xs @ [c]) (ys @ c # zs) \<Longrightarrow> c \<notin> set xs \<Longrightarrow> c \<notin> set ys \<Longrightarrow> xs = ys"
  by (auto simp: prefix_def dest: split_at_first)

subsection \<open>The byte order\<close>

lemma prefix_le: "prefix p (k :: bytes) \<Longrightarrow> p \<le> k"
proof (induction p arbitrary: k)
  case Nil
  then show ?case by simp
next
  case (Cons c p)
  then show ?case by (cases k) auto
qed

subsection \<open>Association lists as Go maps\<close>

lemma map_of_distinct_in_set:
  "distinct (map fst al) \<Longrightarrow> (k, v) \<in> set al \<longleftrightarrow> map_of al k = Some v"
  by (auto dest: map_of_SomeD)

lemma map_of_filter_key:
  "map_of (filter (\<lambda>(k, v). P k) al) k = (if P k then map_of al k else None)"
  by (induction al) auto

end
