(* ===== verification/GoStd.thy ===== *)
theory GoStd
  imports Prelude
begin

text \<open>
  The functions of Go's standard library the modelled packages call: \<open>strconv\<close>
  (\<open>Itoa\<close>, \<open>AppendInt\<close>, \<open>Atoi\<close>), \<open>strings\<close> (\<open>IndexByte\<close>, \<open>LastIndexByte\<close>,
  \<open>HasPrefix\<close>, \<open>HasSuffix\<close>, \<open>Split\<close>, \<open>SplitN\<close>,
  \<open>TrimSpace\<close>), \<open>slices.Compact\<close> and \<open>encoding/binary\<close> (unsigned varints and big-endian
  64-bit integers), with the round-trip facts the codecs of the other theories rest on.
\<close>

subsection \<open>strconv\<close>

fun natStr :: "nat \<Rightarrow> bytes" where
  "natStr n = (if n < 10 then [char_of (48 + n)] else natStr (n div 10) @ [char_of (48 + n mod 10)])"

declare natStr.simps [simp del]

definition itoa :: "int \<Rightarrow> bytes" where
  "itoa i = (if i < 0 then CHR ''-'' # natStr (nat (- i)) else natStr (nat i))"

definition digitVal :: "char \<Rightarrow> nat option" where
  "digitVal c = (let n = of_char c in if 48 \<le> n \<and> n \<le> 57 then Some (n - 48) else None)"

text \<open>\<open>strconv\<close> reads digits from the left; a non-digit is a syntax error.\<close>

fun parseDigits :: "nat \<Rightarrow> bytes \<Rightarrow> nat option" where
  "parseDigits acc [] = Some acc"
| "parseDigits acc (c # cs) =
     (case digitVal c of None \<Rightarrow> None | Some d \<Rightarrow> parseDigits (10 * acc + d) cs)"

definition parseUnsigned :: "bytes \<Rightarrow> nat option" where
  "parseUnsigned s = (if s = [] then None else parseDigits 0 s)"

text \<open>\<open>strconv.Atoi\<close> (and \<open>ParseInt\<close> to base 10, 64 bits): an optional sign, at least one digit,
  and a value in the \<open>int64\<close> range; every other input is an error.\<close>

definition atoi :: "bytes \<Rightarrow> int option" where
  "atoi s =
     (let (neg, body) = (case s of [] \<Rightarrow> (False, [])
                         | c # cs \<Rightarrow> if c = CHR ''-'' then (True, cs)
                                    else if c = CHR ''+'' then (False, cs) else (False, s))
      in case parseUnsigned body of
           None \<Rightarrow> None
         | Some n \<Rightarrow> let i = (if neg then - int n else int n)
                     in if is_int64 i then Some i else None)"

lemma digitVal_char_of: "d < 10 \<Longrightarrow> digitVal (char_of (48 + d)) = Some d"
  by (simp add: digitVal_def Let_def)

lemma parseDigits_append:
  "parseDigits acc (xs @ ys) = (case parseDigits acc xs of None \<Rightarrow> None | Some a \<Rightarrow> parseDigits a ys)"
  by (induction acc xs rule: parseDigits.induct) (auto split: option.splits)

lemma natStr_not_Nil [simp]: "natStr n \<noteq> []"
  by (subst natStr.simps) simp

lemma parseDigits_natStr: "parseDigits 0 (natStr n) = Some n"
proof (induction n rule: natStr.induct)
  case (1 n)
  show ?case
  proof (cases "n < 10")
    case True
    then show ?thesis by (subst natStr.simps) (simp add: digitVal_char_of)
  next
    case False
    with 1 have "parseDigits 0 (natStr (n div 10)) = Some (n div 10)" by simp
    with False show ?thesis
      by (subst natStr.simps) (simp add: parseDigits_append digitVal_char_of)
  qed
qed

lemma parseUnsigned_natStr: "parseUnsigned (natStr n) = Some n"
  by (simp add: parseUnsigned_def parseDigits_natStr)

definition isDigit :: "char \<Rightarrow> bool" where
  "isDigit c \<longleftrightarrow> digitVal c \<noteq> None"

lemma natStr_digits: "c \<in> set (natStr n) \<Longrightarrow> isDigit c"
proof (induction n rule: natStr.induct)
  case (1 n)
  then show ?case
    by (subst (asm) (2) natStr.simps) (auto simp: isDigit_def digitVal_char_of split: if_splits)
qed

lemma isDigit_simps [simp]:
  "\<not> isDigit CHR ''-''" "\<not> isDigit CHR ''+''" "\<not> isDigit CHR ''|''" "\<not> isDigit CHR ''.''"
  by (simp_all add: isDigit_def digitVal_def)

lemma bar_notin_natStr [simp]: "CHR ''|'' \<notin> set (natStr n)"
  and dot_notin_natStr [simp]: "CHR ''.'' \<notin> set (natStr n)"
  using natStr_digits by fastforce+

lemma bar_notin_itoa [simp]: "CHR ''|'' \<notin> set (itoa i)"
  and dot_notin_itoa [simp]: "CHR ''.'' \<notin> set (itoa i)"
  by (simp_all add: itoa_def)

lemma itoa_not_Nil [simp]: "itoa i \<noteq> []"
  by (simp add: itoa_def)

theorem atoi_itoa: "is_int64 i \<Longrightarrow> atoi (itoa i) = Some i"
proof (cases "i < 0")
  case True
  assume "is_int64 i"
  with True show ?thesis
    by (simp add: atoi_def itoa_def parseUnsigned_natStr)
next
  case False
  assume i: "is_int64 i"
  obtain c cs where cs: "natStr (nat i) = c # cs"
    by (cases "natStr (nat i)") auto
  then have "isDigit c" using natStr_digits [of c "nat i"] by simp
  then have "c \<noteq> CHR ''-''" "c \<noteq> CHR ''+''" by auto
  with False i cs show ?thesis
    using parseUnsigned_natStr [of "nat i"] by (simp add: atoi_def itoa_def)
qed

lemma natStr_inj: "natStr m = natStr n \<longleftrightarrow> m = n"
  by (metis parseDigits_natStr option.inject)

lemma itoa_inj [simp]: "itoa i = itoa j \<longleftrightarrow> i = j"
proof -
  have "hd (natStr n) \<noteq> CHR ''-''" for n
    using natStr_digits [of "hd (natStr n)" n] by (metis hd_in_set natStr_not_Nil isDigit_simps(1))
  then have "natStr n \<noteq> CHR ''-'' # xs" for n xs
    by (metis list.sel(1))
  then show ?thesis
    by (auto simp: itoa_def natStr_inj dest: sym)
qed

subsection \<open>strings\<close>

abbreviation bar :: char where "bar \<equiv> CHR ''|''"

fun IndexByte :: "bytes \<Rightarrow> char \<Rightarrow> int" where
  "IndexByte [] c = -1"
| "IndexByte (x # xs) c =
     (if x = c then 0 else let r = IndexByte xs c in if r < 0 then -1 else r + 1)"

fun LastIndexByte :: "bytes \<Rightarrow> char \<Rightarrow> int" where
  "LastIndexByte [] c = -1"
| "LastIndexByte (x # xs) c =
     (let r = LastIndexByte xs c in if 0 \<le> r then r + 1 else if x = c then 0 else -1)"

lemma IndexByte_none [go_simps]: "c \<notin> set xs \<Longrightarrow> IndexByte xs c = -1"
  by (induction xs) auto

lemma IndexByte_append [go_simps]: "c \<notin> set xs \<Longrightarrow> IndexByte (xs @ c # ys) c = int (length xs)"
  by (induction xs) (auto simp: Let_def)

lemma LastIndexByte_none [go_simps]: "c \<notin> set xs \<Longrightarrow> LastIndexByte xs c = -1"
  by (induction xs) auto

lemma LastIndexByte_append [go_simps]:
  "c \<notin> set ys \<Longrightarrow> LastIndexByte (xs @ c # ys) c = int (length xs)"
  by (induction xs) (auto simp: Let_def LastIndexByte_none)

lemma IndexByte_bounds: "- 1 \<le> IndexByte xs c \<and> IndexByte xs c < int (length xs)"
  by (induction xs) (auto simp: Let_def)

lemma LastIndexByte_bounds: "- 1 \<le> LastIndexByte xs c \<and> LastIndexByte xs c < int (length xs)"
  by (induction xs) (auto simp: Let_def)

lemma IndexByte_someD:
  "0 \<le> IndexByte xs c \<Longrightarrow>
   xs = take (nat (IndexByte xs c)) xs @ c # drop (Suc (nat (IndexByte xs c))) xs \<and>
   c \<notin> set (take (nat (IndexByte xs c)) xs)"
proof (induction xs)
  case Nil
  then show ?case by simp
next
  case (Cons x xs)
  show ?case
  proof (cases "x = c")
    case True
    then show ?thesis by simp
  next
    case False
    with Cons.prems have r: "0 \<le> IndexByte xs c" by (auto simp: Let_def split: if_splits)
    with False have "nat (IndexByte (x # xs) c) = Suc (nat (IndexByte xs c))" by (simp add: Let_def nat_add_distrib)
    with Cons.IH [OF r] False show ?thesis by simp
  qed
qed

lemma LastIndexByte_someD:
  "0 \<le> LastIndexByte xs c \<Longrightarrow>
   xs = take (nat (LastIndexByte xs c)) xs @ c # drop (Suc (nat (LastIndexByte xs c))) xs \<and>
   c \<notin> set (drop (Suc (nat (LastIndexByte xs c))) xs)"
proof (induction xs)
  case Nil
  then show ?case by simp
next
  case (Cons x xs)
  show ?case
  proof (cases "0 \<le> LastIndexByte xs c")
    case True
    then have "nat (LastIndexByte (x # xs) c) = Suc (nat (LastIndexByte xs c))" by (simp add: Let_def nat_add_distrib)
    with Cons.IH [OF True] show ?thesis by simp
  next
    case False
    then have "c \<notin> set xs"
      by (metis LastIndexByte_append of_nat_0_le_iff split_list_last)
    with Cons.prems False show ?thesis by (auto simp: Let_def split: if_splits)
  qed
qed

text \<open>\<open>strings.HasPrefix\<close> and \<open>strings.HasSuffix\<close> are \<^const>\<open>prefix\<close> and \<^const>\<open>suffix\<close> of
  the library with the arguments swapped.\<close>

abbreviation HasPrefix :: "bytes \<Rightarrow> bytes \<Rightarrow> bool" where "HasPrefix s p \<equiv> prefix p s"
abbreviation HasSuffix :: "bytes \<Rightarrow> bytes \<Rightarrow> bool" where "HasSuffix s p \<equiv> suffix p s"

text \<open>\<open>strings.Split\<close> with a one-byte separator; the empty string splits into one empty part.\<close>

fun SplitByte :: "char \<Rightarrow> bytes \<Rightarrow> bytes list" where
  "SplitByte c [] = [[]]"
| "SplitByte c (x # xs) =
     (if x = c then [] # SplitByte c xs
      else case SplitByte c xs of [] \<Rightarrow> [[x]] | p # ps \<Rightarrow> (x # p) # ps)"

fun JoinByte :: "char \<Rightarrow> bytes list \<Rightarrow> bytes" where
  "JoinByte c [] = []"
| "JoinByte c [p] = p"
| "JoinByte c (p # q # ps) = p @ c # JoinByte c (q # ps)"

lemma SplitByte_not_Nil [simp]: "SplitByte c xs \<noteq> []"
  by (induction xs) (auto split: list.splits)

lemma SplitByte_no_sep: "c \<notin> set xs \<Longrightarrow> SplitByte c xs = [xs]"
  by (induction xs) auto

lemma SplitByte_append:
  "c \<notin> set xs \<Longrightarrow> SplitByte c (xs @ c # ys) = xs # SplitByte c ys"
  by (induction xs) auto

lemma SplitByte_JoinByte:
  "ps \<noteq> [] \<Longrightarrow> \<forall>p\<in>set ps. c \<notin> set p \<Longrightarrow> SplitByte c (JoinByte c ps) = ps"
  by (induction c ps rule: JoinByte.induct) (auto simp: SplitByte_append SplitByte_no_sep)

text \<open>\<open>strings.SplitN(s, sep, 2)\<close> with a one-byte separator.\<close>

definition SplitByte2 :: "char \<Rightarrow> bytes \<Rightarrow> bytes list" where
  "SplitByte2 c s =
     (let i = IndexByte s c in if i < 0 then [s] else [take (nat i) s, drop (nat i + 1) s])"

lemma SplitByte2_append [go_simps]: "c \<notin> set xs \<Longrightarrow> SplitByte2 c (xs @ c # ys) = [xs, ys]"
  by (simp add: SplitByte2_def IndexByte_append)

subsection \<open>encoding/binary\<close>

fun AppendUvarint :: "nat \<Rightarrow> bytes" where
  "AppendUvarint n =
     (if n < 128 then [char_of n] else char_of (n mod 128 + 128) # AppendUvarint (n div 128))"

declare AppendUvarint.simps [simp del]

text \<open>\<open>binary.Uvarint\<close>: the value and the number of bytes read; 0 bytes for a truncated input, a
  negative count for a value that does not fit in 64 bits.\<close>

fun uvarintFrom :: "nat \<Rightarrow> nat \<Rightarrow> bytes \<Rightarrow> nat \<times> int" where
  "uvarintFrom i x [] = (0, 0)"
| "uvarintFrom i x (b # bs) =
     (if i = 10 then (0, - int (i + 1))
      else if of_char b < (128 :: nat)
      then if i = 9 \<and> 1 < (of_char b :: nat) then (0, - int (i + 1))
           else (x + of_char b * 2 ^ (7 * i), int (i + 1))
      else uvarintFrom (i + 1) (x + (of_char b - 128) * 2 ^ (7 * i)) bs)"

definition Uvarint :: "bytes \<Rightarrow> nat \<times> int" where
  "Uvarint bs = uvarintFrom 0 0 bs"

lemma AppendUvarint_not_Nil [simp]: "AppendUvarint n \<noteq> []"
  by (subst AppendUvarint.simps) simp

lemma uvarintFrom_AppendUvarint:
  "n < 2 ^ (64 - 7 * i) \<Longrightarrow> i \<le> 9 \<Longrightarrow>
   uvarintFrom i x (AppendUvarint n @ rest) = (x + n * 2 ^ (7 * i), int (i + length (AppendUvarint n)))"
proof (induction n arbitrary: i x rule: AppendUvarint.induct)
  case (1 n)
  show ?case
  proof (cases "n < 128")
    case True
    moreover have "i = 9 \<Longrightarrow> n \<le> 1" using 1(2) by simp
    ultimately show ?thesis
      using 1(3) by (subst (1 2) AppendUvarint.simps) auto
  next
    case False
    have i: "i \<noteq> 9" using 1(2) False by auto
    with 1(3) have i9: "i + 1 \<le> 9" by simp
    have "n div 128 < 2 ^ (64 - 7 * (i + 1))"
    proof -
      have "64 - 7 * i = 7 + (64 - 7 * (i + 1))" using i9 by simp
      then have "(2::nat) ^ (64 - 7 * i) = 2 ^ (7 + (64 - 7 * (i + 1)))" by (rule arg_cong)
      also have "\<dots> = 128 * 2 ^ (64 - 7 * (i + 1))" by (simp only: power_add) simp
      finally have "n < 128 * 2 ^ (64 - 7 * (i + 1))" using 1(2) by linarith
      then show ?thesis by (simp add: less_mult_imp_div_less mult.commute)
    qed
    from 1(1) [OF False this i9]
    have IH: "uvarintFrom (i + 1) x' (AppendUvarint (n div 128) @ rest) =
      (x' + n div 128 * 2 ^ (7 * (i + 1)), int (i + 1 + length (AppendUvarint (n div 128))))" for x' .
    have m: "n mod 128 + 128 < 256" by (simp add: trans_less_add1)
    have "n * 2 ^ (7 * i) = (n div 128 * 128 + n mod 128) * 2 ^ (7 * i)" by simp
    also have "\<dots> = n mod 128 * 2 ^ (7 * i) + n div 128 * (2 ^ 7 * 2 ^ (7 * i))"
      by (simp only: add_mult_distrib) simp
    also have "(2::nat) ^ 7 * 2 ^ (7 * i) = 2 ^ (7 * (i + 1))"
      by (simp only: distrib_left power_add) simp
    finally have "x + n mod 128 * 2 ^ (7 * i) + n div 128 * 2 ^ (7 * (i + 1)) = x + n * 2 ^ (7 * i)"
      by linarith
    then show ?thesis
      using i 1(3) IH m False by (subst (1 2) AppendUvarint.simps) simp
  qed
qed

theorem Uvarint_AppendUvarint:
  "n < 2 ^ 64 \<Longrightarrow> Uvarint (AppendUvarint n @ rest) = (n, int (length (AppendUvarint n)))"
  using uvarintFrom_AppendUvarint [of n 0 0 rest] by (simp add: Uvarint_def)

lemma uvarintFrom_count: "snd (uvarintFrom i x bs) \<le> int (i + length bs)"
  by (induction i x bs rule: uvarintFrom.induct) auto

lemma Uvarint_count: "snd (Uvarint bs) \<le> int (length bs)"
  using uvarintFrom_count [of 0 0 bs] by (simp add: Uvarint_def)

text \<open>\<open>binary.BigEndian.PutUint64\<close> and \<open>Uint64\<close>. Reading fewer than eight bytes panics in Go.\<close>

fun beBytes :: "nat \<Rightarrow> nat \<Rightarrow> bytes" where
  "beBytes 0 n = []"
| "beBytes (Suc k) n = beBytes k (n div 256) @ [char_of (n mod 256)]"

definition PutUint64 :: "64 word \<Rightarrow> bytes" where
  "PutUint64 w = beBytes 8 (unat w)"

definition beNat :: "bytes \<Rightarrow> nat" where
  "beNat bs = foldl (\<lambda>a b. 256 * a + of_char b) 0 bs"

definition Uint64 :: "bytes \<Rightarrow> 64 word option" where
  "Uint64 bs = (if length bs < 8 then None else Some (word_of_nat (beNat (take 8 bs))))"

lemma length_beBytes [simp]: "length (beBytes k n) = k"
  by (induction k n rule: beBytes.induct) auto

lemma length_PutUint64 [simp]: "length (PutUint64 w) = 8"
  by (simp add: PutUint64_def)

lemma beNat_beBytes: "n < 256 ^ k \<Longrightarrow> beNat (beBytes k n) = n"
proof (induction k arbitrary: n)
  case 0
  then show ?case by (simp add: beNat_def)
next
  case (Suc k)
  then have "beNat (beBytes k (n div 256)) = n div 256"
    by (simp add: less_mult_imp_div_less mult.commute)
  then show ?case by (simp add: beNat_def)
qed

theorem Uint64_PutUint64: "Uint64 (PutUint64 w @ rest) = Some w"
proof -
  have "unat w < 256 ^ 8" using unsigned_less [of w, where ?'a = nat] by simp
  then have "beNat (beBytes 8 (unat w)) = unat w" by (rule beNat_beBytes)
  then show ?thesis by (simp add: Uint64_def PutUint64_def)
qed

lemma PutUint64_inj [simp]: "PutUint64 v = PutUint64 w \<longleftrightarrow> v = w"
  by (metis Uint64_PutUint64 option.inject)

text \<open>The signed reading of a stored 64-bit value, \<open>int64(x)\<close>.\<close>

definition int64_of :: "64 word \<Rightarrow> int" where
  "int64_of w = (if uint w < 9223372036854775808 then uint w else uint w - 18446744073709551616)"

lemma int64_of_sint: "int64_of w = sint w"
proof -
  have u: "0 \<le> uint w" "uint w < 18446744073709551616" using uint_lt2p [of w] by simp_all
  have "take_bit 64 (uint w + 9223372036854775808) = uint w - 9223372036854775808"
    if "9223372036854775808 \<le> uint w"
  proof -
    have "take_bit 64 (uint w + 9223372036854775808) =
        (uint w + 9223372036854775808 - 18446744073709551616) mod 18446744073709551616"
      by (simp only: minus_mod_self2 take_bit_eq_mod) simp
    also have "\<dots> = uint w - 9223372036854775808" using u that by (subst mod_pos_pos_trivial) simp_all
    finally show ?thesis .
  qed
  with u show ?thesis
    by (auto simp: int64_of_def sint_uint signed_take_bit_eq_take_bit_shift take_bit_int_eq_self not_less)
qed
end
