(* ===== verification/KV.thy ===== *)
theory KV
  imports GoStd
begin

text \<open>
  The key-value layer: package \<open>kv\<close> (the interfaces \<open>Store\<close>, \<open>Batch\<close>, \<open>Reader\<close>) and
  its implementation \<open>kv/pebblekv\<close> (files \<open>db.go\<close> and \<open>batch.go\<close>).

  The vendored storage engine below \<open>pebblekv\<close> is not modelled line by line: what the wrapper
  relies on is its documented contract, an ordered map from byte strings to byte strings whose
  batches apply atomically and whose iterators are frozen when they are created. That state is the
  record \<open>pebble\<close>; its field \<open>p_fault\<close> is a parameter, the error (if any) the engine returns
  for a given call, so that every error branch of the wrapper is a branch of the model. The
  hypothesis \<open>kv_ok\<close> says that a handle is open, that the engine reports no error and that its
  keys are in order.
\<close>

subsection \<open>The storage engine's contract\<close>

datatype batch_op = BSet bytes bytes | BDelete bytes | BDeleteRange bytes bytes

datatype pebble_op =
    PSet bytes bytes | PGet bytes | PDelete bytes | PNewIter bytes "bytes option"
  | PBatch batch_op | PCommit "batch_op list" | PClose

record pebble =
  p_data :: "(bytes \<times> bytes) list"
  p_fault :: "pebble_op \<Rightarrow> error option"

fun ordInsert :: "bytes \<Rightarrow> bytes \<Rightarrow> (bytes \<times> bytes) list \<Rightarrow> (bytes \<times> bytes) list" where
  "ordInsert k v [] = [(k, v)]"
| "ordInsert k v ((a, b) # ps) =
     (if k < a then (k, v) # (a, b) # ps
      else if k = a then (k, v) # ps else (a, b) # ordInsert k v ps)"

fun applyOp :: "batch_op \<Rightarrow> (bytes \<times> bytes) list \<Rightarrow> (bytes \<times> bytes) list" where
  "applyOp (BSet k v) kvs = ordInsert k v kvs"
| "applyOp (BDelete k) kvs = filter (\<lambda>(a, b). a \<noteq> k) kvs"
| "applyOp (BDeleteRange s e) kvs = filter (\<lambda>(a, b). \<not> (s \<le> a \<and> a < e)) kvs"

definition iterate :: "bytes \<Rightarrow> bytes option \<Rightarrow> (bytes \<times> bytes) list \<Rightarrow> (bytes \<times> bytes) list" where
  "iterate lo hi kvs =
     filter (\<lambda>(k, v). lo \<le> k \<and> (case hi of None \<Rightarrow> True | Some h \<Rightarrow> k < h)) kvs"

text \<open>The same operations on the abstract map.\<close>

fun applyOpM :: "batch_op \<Rightarrow> (bytes \<rightharpoonup> bytes) \<Rightarrow> (bytes \<rightharpoonup> bytes)" where
  "applyOpM (BSet k v) m = m(k \<mapsto> v)"
| "applyOpM (BDelete k) m = m(k := None)"
| "applyOpM (BDeleteRange s e) m = (\<lambda>a. if s \<le> a \<and> a < e then None else m a)"

abbreviation ordered :: "(bytes \<times> bytes) list \<Rightarrow> bool" where
  "ordered kvs \<equiv> sorted_wrt (<) (map fst kvs)"

subsection \<open>pebblekv: the database handle\<close>

text \<open>The fields \<open>closed\<close> and \<open>db\<close> of \<open>PebbleDB\<close> take three joint values: open; closed with
  the engine's \<open>Close\<close> having failed; closed with \<open>db\<close> set to nil.\<close>

datatype pebble_handle = Opened pebble | CloseFailed pebble | ClosedNil

record PebbleDB =
  pdb_path :: bytes
  pdb_st :: pebble_handle
  pdb_sync :: bool

record OpenOptions =
  oo_CacheSize :: int
  oo_DisableWAL :: bool
  oo_Sync :: bool
  oo_MemTableSize :: nat
  oo_MemTableStopWritesThreshold :: int

text \<open>What \<open>OpenWithOptions\<close> hands to the engine: the memtable size, the number of queued
  memtables at which writes stop, and whether the write-ahead log is off.\<close>

record pebble_options =
  po_CacheSize :: int
  po_DisableWAL :: bool
  po_MemTableSize :: nat
  po_MemTableStopWritesThreshold :: int

definition OpenWithOptions ::
  "(bytes \<Rightarrow> bytes result) \<Rightarrow> (bytes \<Rightarrow> pebble_options \<Rightarrow> pebble result) \<Rightarrow>
   bytes \<Rightarrow> OpenOptions \<Rightarrow> PebbleDB result" where
  "OpenWithOptions filepathAbs pebbleOpen path o' =
     (case filepathAbs path of
        Inl e \<Rightarrow> Inl (''failed to get absolute path: '' @ e)
      | Inr absPath \<Rightarrow>
          let memTableSize = (if oo_MemTableSize o' = 0 then 4 * 1024 * 1024 else oo_MemTableSize o');
              memTableStop = (if oo_MemTableStopWritesThreshold o' < 2 then 2
                              else oo_MemTableStopWritesThreshold o');
              opts = \<lparr>po_CacheSize = oo_CacheSize o', po_DisableWAL = oo_DisableWAL o',
                      po_MemTableSize = memTableSize,
                      po_MemTableStopWritesThreshold = memTableStop\<rparr>
          in case pebbleOpen absPath opts of
               Inl e \<Rightarrow> Inl (''failed to open pebble: '' @ e)
             | Inr p \<Rightarrow> Inr \<lparr>pdb_path = absPath, pdb_st = Opened p,
                              pdb_sync = oo_Sync o' \<and> \<not> oo_DisableWAL o'\<rparr>)"

definition IsClosed :: "PebbleDB \<Rightarrow> bool" where
  "IsClosed d = (case pdb_st d of Opened p \<Rightarrow> False | _ \<Rightarrow> True)"

abbreviation errClosed :: error where
  "errClosed \<equiv> ''database is closed''"

definition kvClose :: "PebbleDB \<Rightarrow> PebbleDB \<times> error option" where
  "kvClose d =
     (case pdb_st d of
        Opened p \<Rightarrow>
          (case p_fault p PClose of
             Some e \<Rightarrow> (d\<lparr>pdb_st := CloseFailed p\<rparr>, Some (''failed to close pebble: '' @ e))
           | None \<Rightarrow> (d\<lparr>pdb_st := ClosedNil\<rparr>, None))
      | _ \<Rightarrow> (d, Some errClosed))"

definition kvPut :: "bytes \<Rightarrow> bytes \<Rightarrow> PebbleDB \<Rightarrow> PebbleDB \<times> error option" where
  "kvPut key value d =
     (case pdb_st d of
        Opened p \<Rightarrow>
          (case p_fault p (PSet key value) of
             Some e \<Rightarrow> (d, Some (''failed to put data: '' @ e))
           | None \<Rightarrow> (d\<lparr>pdb_st := Opened (p\<lparr>p_data := ordInsert key value (p_data p)\<rparr>)\<rparr>, None))
      | _ \<Rightarrow> (d, Some errClosed))"

definition getCopy :: "pebble \<Rightarrow> bytes \<Rightarrow> bytes option result" where
  "getCopy p key =
     (case p_fault p (PGet key) of
        Some e \<Rightarrow> Inl (''failed to get data: '' @ e)
      | None \<Rightarrow> Inr (map_of (p_data p) key))"

definition kvGet :: "bytes \<Rightarrow> PebbleDB \<Rightarrow> bytes option result" where
  "kvGet key d = (case pdb_st d of Opened p \<Rightarrow> getCopy p key | _ \<Rightarrow> Inl errClosed)"

definition kvDelete :: "bytes \<Rightarrow> PebbleDB \<Rightarrow> PebbleDB \<times> error option" where
  "kvDelete key d =
     (case pdb_st d of
        Opened p \<Rightarrow>
          (case p_fault p (PDelete key) of
             Some e \<Rightarrow> (d, Some (''failed to delete data: '' @ e))
           | None \<Rightarrow> (d\<lparr>pdb_st := Opened (p\<lparr>p_data := applyOp (BDelete key) (p_data p)\<rparr>)\<rparr>, None))
      | _ \<Rightarrow> (d, Some errClosed))"

text \<open>\<open>keyUpperBound\<close> walks from the last byte to the first; \<open>upperFromEnd\<close> is that loop, on the
  reversed prefix.\<close>

abbreviation xFF :: char where "xFF \<equiv> CHR 0xFF"

definition byteInc :: "char \<Rightarrow> char" where
  "byteInc c = char_of ((of_char c + 1) mod 256 :: nat)"

fun upperFromEnd :: "bytes \<Rightarrow> bytes option" where
  "upperFromEnd [] = None"
| "upperFromEnd (c # cs) =
     (if c \<noteq> xFF then Some (rev cs @ [byteInc c]) else upperFromEnd cs)"

definition keyUpperBound :: "bytes \<Rightarrow> bytes option" where
  "keyUpperBound p = upperFromEnd (rev p)"

text \<open>A scan calls back for every pair in turn; the callback's state is explicit and its boolean
  says whether to go on.\<close>

type_synonym 's callback = "'s \<Rightarrow> bytes \<Rightarrow> bytes \<Rightarrow> 's \<times> bool"

fun scanPrefixLoop :: "bytes \<Rightarrow> 's callback \<Rightarrow> 's \<Rightarrow> (bytes \<times> bytes) list \<Rightarrow> 's" where
  "scanPrefixLoop pre cb s [] = s"
| "scanPrefixLoop pre cb s ((k, v) # kvs) =
     (if \<not> HasPrefix k pre then s
      else case cb s k v of (s', cont) \<Rightarrow> if cont then scanPrefixLoop pre cb s' kvs else s')"

definition scanPrefix :: "pebble \<Rightarrow> bytes \<Rightarrow> 's callback \<Rightarrow> 's \<Rightarrow> 's \<times> error option" where
  "scanPrefix p pre cb s =
     (case p_fault p (PNewIter pre (keyUpperBound pre)) of
        Some e \<Rightarrow> (s, Some (''failed to create iterator: '' @ e))
      | None \<Rightarrow> (scanPrefixLoop pre cb s (iterate pre (keyUpperBound pre) (p_data p)), None))"

fun scanRangeLoop :: "'s callback \<Rightarrow> 's \<Rightarrow> (bytes \<times> bytes) list \<Rightarrow> 's" where
  "scanRangeLoop cb s [] = s"
| "scanRangeLoop cb s ((k, v) # kvs) =
     (case cb s k v of (s', cont) \<Rightarrow> if cont then scanRangeLoop cb s' kvs else s')"

definition scanRange :: "pebble \<Rightarrow> bytes \<Rightarrow> bytes \<Rightarrow> 's callback \<Rightarrow> 's \<Rightarrow> 's \<times> error option" where
  "scanRange p b e cb s =
     (case p_fault p (PNewIter b (Some e)) of
        Some err \<Rightarrow> (s, Some (''failed to create iterator: '' @ err))
      | None \<Rightarrow> (scanRangeLoop cb s (iterate b (Some e) (p_data p)), None))"

definition kvScan :: "bytes \<Rightarrow> 's callback \<Rightarrow> 's \<Rightarrow> PebbleDB \<Rightarrow> 's \<times> error option" where
  "kvScan pre cb s d =
     (case pdb_st d of Opened p \<Rightarrow> scanPrefix p pre cb s | _ \<Rightarrow> (s, Some errClosed))"

definition kvScanRange :: "bytes \<Rightarrow> bytes \<Rightarrow> 's callback \<Rightarrow> 's \<Rightarrow> PebbleDB \<Rightarrow> 's \<times> error option" where
  "kvScanRange b e cb s d =
     (case pdb_st d of Opened p \<Rightarrow> scanRange p b e cb s | _ \<Rightarrow> (s, Some errClosed))"

text \<open>Go's \<open>int\<close> addition wraps at 64 bits.\<close>

definition wrap64 :: "int \<Rightarrow> int" where
  "wrap64 i = (i + 2 ^ 63) mod 2 ^ 64 - 2 ^ 63"

definition GetIncrementalId :: "bytes \<Rightarrow> PebbleDB \<Rightarrow> PebbleDB \<times> int result" where
  "GetIncrementalId key d =
     (if IsClosed d then (d, Inl errClosed)
      else case kvGet key d of
        Inl e \<Rightarrow> (d, Inl e)
      | Inr None \<Rightarrow> (fst (kvPut key (itoa (wrap64 (0 + 1))) d), Inr 0)
      | Inr (Some str) \<Rightarrow>
          (case atoi str of
             None \<Rightarrow> (d, Inl (''strconv.Atoi: parsing: '' @ str))
           | Some i \<Rightarrow> (fst (kvPut key (itoa (wrap64 (i + 1))) d), Inr i)))"

subsection \<open>pebblekv: snapshots\<close>

record pebbleSnapshot =
  snap :: "pebble option"

definition Snapshot :: "PebbleDB \<Rightarrow> pebbleSnapshot result" where
  "Snapshot d = (case pdb_st d of Opened p \<Rightarrow> Inr \<lparr>snap = Some p\<rparr> | _ \<Rightarrow> Inl errClosed)"

text \<open>A read through a closed snapshot dereferences nil: \<open>None\<close> here.\<close>

definition snapGet :: "bytes \<Rightarrow> pebbleSnapshot \<Rightarrow> bytes option result option" where
  "snapGet key s = map_option (\<lambda>p. getCopy p key) (snap s)"

definition snapScan :: "bytes \<Rightarrow> 's callback \<Rightarrow> 's \<Rightarrow> pebbleSnapshot \<Rightarrow> ('s \<times> error option) option" where
  "snapScan pre cb s sn = map_option (\<lambda>p. scanPrefix p pre cb s) (snap sn)"

definition snapScanRange ::
  "bytes \<Rightarrow> bytes \<Rightarrow> 's callback \<Rightarrow> 's \<Rightarrow> pebbleSnapshot \<Rightarrow> ('s \<times> error option) option" where
  "snapScanRange b e cb s sn = map_option (\<lambda>p. scanRange p b e cb s) (snap sn)"

definition snapClose :: "(pebble \<Rightarrow> error option) \<Rightarrow> pebbleSnapshot \<Rightarrow> pebbleSnapshot \<times> error option" where
  "snapClose engineClose s =
     (case snap s of None \<Rightarrow> (s\<lparr>snap := None\<rparr>, None)
      | Some p \<Rightarrow> (s\<lparr>snap := None\<rparr>, engineClose p))"

subsection \<open>pebblekv: write batches\<close>

text \<open>A batch writes through to its database when it commits, so every batch operation takes and
  returns the pair of both. Creating a batch on a closed handle dereferences nil: \<open>None\<close>.\<close>

record PebbleBatch =
  pb_ops :: "batch_op list"
  pb_maxBatchSize :: int
  pb_count :: int

definition NewBatch :: "int \<Rightarrow> PebbleDB \<Rightarrow> PebbleBatch option" where
  "NewBatch maxBatchSize d =
     (if IsClosed d then None else Some \<lparr>pb_ops = [], pb_maxBatchSize = maxBatchSize, pb_count = 0\<rparr>)"

definition batchCommit :: "PebbleDB \<times> PebbleBatch \<Rightarrow> (PebbleDB \<times> PebbleBatch) \<times> error option" where
  "batchCommit s =
     (case s of (d, b) \<Rightarrow>
        (case pdb_st d of
           Opened p \<Rightarrow>
             (case p_fault p (PCommit (pb_ops b)) of
                Some e \<Rightarrow> ((d, b\<lparr>pb_count := 0\<rparr>), Some e)
              | None \<Rightarrow> ((d\<lparr>pdb_st := Opened (p\<lparr>p_data := fold applyOp (pb_ops b) (p_data p)\<rparr>)\<rparr>,
                          b\<lparr>pb_count := 0\<rparr>), None))
         | _ \<Rightarrow> ((d, b\<lparr>pb_count := 0\<rparr>), Some ''pebble: closed'')))"

definition batchReset :: "PebbleBatch \<Rightarrow> PebbleBatch" where
  "batchReset b = b\<lparr>pb_ops := [], pb_count := 0\<rparr>"

definition increaseAndTryCommit ::
  "PebbleDB \<times> PebbleBatch \<Rightarrow> (PebbleDB \<times> PebbleBatch) \<times> error option" where
  "increaseAndTryCommit s =
     (case s of (d, b) \<Rightarrow>
        if pb_maxBatchSize b \<le> 0 then (s, None)
        else let b' = b\<lparr>pb_count := pb_count b + 1\<rparr>
             in if pb_maxBatchSize b' \<le> pb_count b'
                then (case batchCommit (d, b') of
                        (s'', Some e) \<Rightarrow> (s'', Some (''failed to commit batch: '' @ e))
                      | ((d'', b''), None) \<Rightarrow> ((d'', batchReset b''), None))
                else ((d, b'), None))"

definition batchAppend ::
  "batch_op \<Rightarrow> PebbleDB \<times> PebbleBatch \<Rightarrow> (PebbleDB \<times> PebbleBatch) \<times> error option" where
  "batchAppend op s =
     (case s of (d, b) \<Rightarrow>
        (case (case pdb_st d of Opened p \<Rightarrow> p_fault p (PBatch op) | _ \<Rightarrow> None) of
           Some e \<Rightarrow> (s, Some e)
         | None \<Rightarrow> increaseAndTryCommit (d, b\<lparr>pb_ops := pb_ops b @ [op]\<rparr>)))"

definition batchPut :: "bytes \<Rightarrow> bytes \<Rightarrow> PebbleDB \<times> PebbleBatch \<Rightarrow> (PebbleDB \<times> PebbleBatch) \<times> error option" where
  "batchPut key value s = batchAppend (BSet key value) s"

definition batchDelete :: "bytes \<Rightarrow> PebbleDB \<times> PebbleBatch \<Rightarrow> (PebbleDB \<times> PebbleBatch) \<times> error option" where
  "batchDelete key s = batchAppend (BDelete key) s"

definition batchDeleteRange ::
  "bytes \<Rightarrow> bytes \<Rightarrow> PebbleDB \<times> PebbleBatch \<Rightarrow> (PebbleDB \<times> PebbleBatch) \<times> error option" where
  "batchDeleteRange b e s = batchAppend (BDeleteRange b e) s"

definition batchDeletePrefix :: "bytes \<Rightarrow> PebbleDB \<times> PebbleBatch \<Rightarrow> (PebbleDB \<times> PebbleBatch) \<times> error option" where
  "batchDeletePrefix pre s =
     batchAppend (BDeleteRange pre (case keyUpperBound pre of None \<Rightarrow> pre @ [xFF] | Some e \<Rightarrow> e)) s"

definition batchCount :: "PebbleBatch \<Rightarrow> int" where
  "batchCount b = pb_count b"

subsection \<open>The engine's contract as an abstract map\<close>

lemma map_of_ordInsert [simp]: "map_of (ordInsert k v kvs) = (map_of kvs)(k \<mapsto> v)"
  by (induction k v kvs rule: ordInsert.induct) auto

lemma fst_set_ordInsert: "fst ` set (ordInsert k v kvs) = insert k (fst ` set kvs)"
  by (induction k v kvs rule: ordInsert.induct) auto

lemma ordered_ordInsert: "ordered kvs \<Longrightarrow> ordered (ordInsert k v kvs)"
proof (induction k v kvs rule: ordInsert.induct)
  case (2 k v a b ps)
  have "\<forall>x\<in>fst ` set (ordInsert k v ps). a < x" if "a < k"
    using 2(2) that by (auto simp: fst_set_ordInsert)
  with 2 show ?case by (auto dest: order.strict_trans)
qed simp

lemma ordered_filter: "ordered kvs \<Longrightarrow> ordered (filter P kvs)"
  by (induction kvs) auto

lemma ordered_applyOp: "ordered kvs \<Longrightarrow> ordered (applyOp op kvs)"
  by (cases op) (auto intro: ordered_ordInsert ordered_filter)

lemma ordered_distinct: "ordered kvs \<Longrightarrow> distinct (map fst kvs)"
  by (induction kvs) auto

lemma map_of_applyOp [simp]: "map_of (applyOp op kvs) = applyOpM op (map_of kvs)"
proof (cases op)
  case (BDelete k)
  then show ?thesis by (auto simp: map_of_filter_key fun_eq_iff)
next
  case (BDeleteRange s e)
  then show ?thesis by (auto simp: map_of_filter_key fun_eq_iff)
qed simp

lemma ordered_fold_applyOp: "ordered kvs \<Longrightarrow> ordered (fold applyOp ops kvs)"
  by (induction ops arbitrary: kvs) (auto intro: ordered_applyOp)

lemma map_of_fold_applyOp: "map_of (fold applyOp ops kvs) = fold applyOpM ops (map_of kvs)"
  by (induction ops arbitrary: kvs) auto

subsection \<open>Handles that work: open, without engine errors, keys in order\<close>

definition kv_ok :: "PebbleDB \<Rightarrow> bool" where
  "kv_ok d \<longleftrightarrow>
     (case pdb_st d of Opened p \<Rightarrow> (\<forall>op. p_fault p op = None) \<and> ordered (p_data p) | _ \<Rightarrow> False)"

definition kv_map :: "PebbleDB \<Rightarrow> (bytes \<rightharpoonup> bytes)" where
  "kv_map d = (case pdb_st d of Opened p \<Rightarrow> map_of (p_data p) | _ \<Rightarrow> Map.empty)"

lemma kv_okE:
  assumes "kv_ok d"
  obtains p where "pdb_st d = Opened p" "\<And>op. p_fault p op = None" "ordered (p_data p)"
  using assms by (auto simp: kv_ok_def split: pebble_handle.splits)

lemma kv_ok_not_closed [kv_simps]: "kv_ok d \<Longrightarrow> \<not> IsClosed d"
  by (auto simp: kv_ok_def IsClosed_def split: pebble_handle.splits)

lemma kvGet_ok [kv_simps]: "kv_ok d \<Longrightarrow> kvGet k d = Inr (kv_map d k)"
  by (erule kv_okE) (simp add: kvGet_def getCopy_def kv_map_def)

lemma kv_ok_upd [simp]:
  "kv_ok (d\<lparr>pdb_st := Opened p\<rparr>) \<longleftrightarrow> (\<forall>op. p_fault p op = None) \<and> ordered (p_data p)"
  by (simp add: kv_ok_def)

lemma kv_map_upd [simp]: "kv_map (d\<lparr>pdb_st := Opened p\<rparr>) = map_of (p_data p)"
  by (simp add: kv_map_def)

lemma kv_map_Opened: "pdb_st d = Opened p \<Longrightarrow> kv_map d = map_of (p_data p)"
  by (simp add: kv_map_def)

lemma kvPut_ok [kv_simps]:
  assumes "kv_ok d"
  shows "snd (kvPut k v d) = None" "kv_ok (fst (kvPut k v d))"
    "kv_map (fst (kvPut k v d)) = (kv_map d)(k \<mapsto> v)"
  using assms
  by (auto elim!: kv_okE simp: kvPut_def kv_map_Opened intro: ordered_ordInsert)

lemma kvDelete_ok [kv_simps]:
  assumes "kv_ok d"
  shows "snd (kvDelete k d) = None" "kv_ok (fst (kvDelete k d))"
    "kv_map (fst (kvDelete k d)) = (kv_map d)(k := None)"
  using assms
  by (auto elim!: kv_okE simp: kvDelete_def kv_map_Opened map_of_filter_key fun_eq_iff
      intro: ordered_filter)

lemma kv_map_finite: "finite (dom (kv_map d))"
  by (auto simp: kv_map_def finite_dom_map_of split: pebble_handle.splits)

subsection \<open>Prefixes and their upper bound\<close>

lemma less_append_char:
  fixes c :: char
  shows "xs @ c # ys < xs @ d # zs \<longleftrightarrow> c < d \<or> c = d \<and> ys < zs"
  by (induction xs) auto

lemma le_xFF: "(c :: char) \<le> xFF"
proof -
  have "of_char c < (256 :: nat)" by (rule nat_of_char_less_256)
  then have "of_char c \<le> (255 :: nat)" by linarith
  then show ?thesis by (simp add: less_eq_char_def)
qed

lemma le_iff_prefix_all_ff:
  "\<forall>c\<in>set p. c = xFF \<Longrightarrow> p \<le> k \<longleftrightarrow> prefix p k"
proof (induction p arbitrary: k)
  case Nil
  then show ?case by simp
next
  case (Cons c p)
  have "\<not> c < d" for d using Cons.prems le_xFF [of d] by auto
  with Cons show ?case by (cases k) auto
qed

lemma upperFromEnd_None: "upperFromEnd p = None \<longleftrightarrow> (\<forall>c\<in>set p. c = xFF)"
  by (induction p) auto

lemma upperFromEnd_Some:
  "upperFromEnd p = Some u \<Longrightarrow>
   \<exists>q c n. p = replicate n xFF @ c # q \<and> c \<noteq> xFF \<and> u = rev q @ [byteInc c]"
proof (induction p)
  case Nil
  then show ?case by simp
next
  case (Cons a p)
  show ?case
  proof (cases "a = xFF")
    case True
    with Cons obtain q c n where
      "p = replicate n xFF @ c # q \<and> c \<noteq> xFF \<and> u = rev q @ [byteInc c]"
      by auto
    then have "a # p = replicate (Suc n) xFF @ c # q \<and> c \<noteq> xFF \<and>
      u = rev q @ [byteInc c]" using True by simp
    then show ?thesis by blast
  next
    case False
    with Cons.prems have "a # p = replicate 0 xFF @ a # p \<and> a \<noteq> xFF \<and>
      u = rev p @ [byteInc a]" by simp
    then show ?thesis by blast
  qed
qed

lemma less_byteInc: "c \<noteq> xFF \<Longrightarrow> d < byteInc c \<longleftrightarrow> d \<le> (c :: char)"
proof -
  assume "c \<noteq> xFF"
  moreover have "of_char xFF = (255 :: nat)" by simp
  ultimately have "of_char c \<noteq> (255 :: nat)" by (metis char_of_char)
  moreover have "of_char c < (256 :: nat)" by (rule nat_of_char_less_256)
  ultimately have "of_char c + 1 < (256 :: nat)" by linarith
  then have "of_char (byteInc c) = (of_char c + 1 :: nat)" by (simp add: byteInc_def)
  then show ?thesis by (simp add: less_char_def less_eq_char_def less_Suc_eq_le)
qed

lemma keyUpperBound_Some:
  assumes "keyUpperBound p = Some u"
  shows "prefix p k \<longleftrightarrow> p \<le> k \<and> k < u"
proof -
  from upperFromEnd_Some [OF assms [unfolded keyUpperBound_def]] obtain q c n where
    r: "rev p = replicate n xFF @ c # q" and c: "c \<noteq> xFF" and
    u: "u = rev q @ [byteInc c]" by blast
  have p: "p = rev q @ c # replicate n xFF" using arg_cong [OF r, of rev] by simp
  show ?thesis
  proof
    assume "prefix p k"
    then obtain z where "k = rev q @ c # (replicate n xFF @ z)" by (auto simp: prefix_def p)
    then have "k < u" using c by (simp add: u less_append_char less_byteInc)
    with prefix_le [OF \<open>prefix p k\<close>] show "p \<le> k \<and> k < u" by simp
  next
    assume b: "p \<le> k \<and> k < u"
    have "\<exists>z. k = rev q @ c # z \<and> replicate n xFF \<le> z"
      using b unfolding p u
    proof (induction "rev q" arbitrary: q k)
      case Nil
      then show ?case using c less_byteInc [OF c] by (cases k) (auto simp add: less_byteInc)
    next
      case (Cons a r)
      then obtain k' where k: "k = a # k'" by (cases k) (auto simp flip: Cons.hyps(2))
      have "r = rev (rev r)" by simp
      from Cons.hyps(1) [OF this, of k'] Cons.prems k
      show ?case by (auto simp flip: Cons.hyps(2))
    qed
    then obtain z where z: "k = rev q @ c # z" "replicate n xFF \<le> z" by blast
    then have "prefix (replicate n xFF) z" using le_iff_prefix_all_ff [of "replicate n xFF" z] by auto
    then show "prefix p k" by (auto simp: p z prefix_def)
  qed
qed

lemma keyUpperBound_None: "keyUpperBound p = None \<Longrightarrow> prefix p k \<longleftrightarrow> p \<le> k"
  using le_iff_prefix_all_ff [of p k] by (simp add: keyUpperBound_def upperFromEnd_None)

lemma iterate_prefix:
  "iterate p (keyUpperBound p) kvs = filter (\<lambda>(k, v). prefix p k) kvs"
proof (cases "keyUpperBound p")
  case None
  then show ?thesis by (simp add: iterate_def keyUpperBound_None [OF None])
next
  case (Some u)
  then show ?thesis by (simp add: iterate_def keyUpperBound_Some [OF Some])
qed

subsection \<open>The reader interface\<close>

text \<open>\<open>kv.Reader\<close> is the read surface shared by the store and its snapshots. The locale states what
  its clients rely on: a full scan of a prefix visits exactly the keys with that prefix, each once and
  in key order, with the value a \<open>Get\<close> returns.\<close>

locale kv_reader =
  fixes ok :: "'r \<Rightarrow> bool"
    and lookup :: "'r \<Rightarrow> bytes \<Rightarrow> bytes option"
    and entries :: "'r \<Rightarrow> bytes \<Rightarrow> (bytes \<times> bytes) list"
  assumes entries_iff: "ok r \<Longrightarrow> (k, v) \<in> set (entries r p) \<longleftrightarrow> prefix p k \<and> lookup r k = Some v"
    and entries_ordered: "ok r \<Longrightarrow> ordered (entries r p)"
begin

lemma entries_UN:
  "ok r \<Longrightarrow> (\<Union>(k, v)\<in>set (entries r p). f k v) = {x. \<exists>k v. prefix p k \<and> lookup r k = Some v \<and> x \<in> f k v}"
  using entries_iff [of r _ _ p] by fastforce

lemma entries_keys: "ok r \<Longrightarrow> fst ` set (entries r p) = {k. prefix p k \<and> lookup r k \<noteq> None}"
proof -
  assume r: "ok r"
  have "k \<in> fst ` set (entries r p) \<longleftrightarrow> (\<exists>v. (k, v) \<in> set (entries r p))" for k by force
  then show ?thesis using r by (auto simp: entries_iff)
qed

lemma length_entries: "ok r \<Longrightarrow> length (entries r p) = card {k. prefix p k \<and> lookup r k \<noteq> None}"
proof -
  assume r: "ok r"
  have "card (set (map fst (entries r p))) = length (map fst (entries r p))"
    by (rule distinct_card [OF ordered_distinct [OF entries_ordered [OF r]]])
  then show ?thesis using r by (simp add: entries_keys)
qed

lemma entries_Nil: "ok r \<Longrightarrow> (\<And>k. prefix p k \<Longrightarrow> lookup r k = None) \<Longrightarrow> entries r p = []"
proof -
  assume r: "ok r" and n: "\<And>k. prefix p k \<Longrightarrow> lookup r k = None"
  have "(k, v) \<notin> set (entries r p)" for k v using r n [of k] by (auto simp: entries_iff)
  then show ?thesis by (cases "entries r p") auto
qed

end

definition collect :: "(bytes \<times> bytes) list callback" where
  "collect acc k v = (acc @ [(k, v)], True)"

definition prefixEntries :: "PebbleDB \<Rightarrow> bytes \<Rightarrow> (bytes \<times> bytes) list" where
  "prefixEntries d p = fst (kvScan p collect [] d)"

definition kvLookup :: "PebbleDB \<Rightarrow> bytes \<Rightarrow> bytes option" where
  "kvLookup d k = (case kvGet k d of Inl e \<Rightarrow> None | Inr v \<Rightarrow> v)"

lemma kvLookup_ok [kv_simps]: "kv_ok d \<Longrightarrow> kvLookup d = kv_map d"
  by (simp add: kvLookup_def kvGet_ok fun_eq_iff)

lemma scanPrefixLoop_fold:
  "\<forall>(k, v)\<in>set kvs. prefix p k \<Longrightarrow>
   scanPrefixLoop p (\<lambda>s k v. (f k v s, True)) s kvs = fold (\<lambda>(k, v). f k v) kvs s"
  by (induction kvs arbitrary: s) auto

lemma scanPrefixLoop_collect:
  "\<forall>(k, v)\<in>set kvs. prefix p k \<Longrightarrow> scanPrefixLoop p collect s kvs = s @ kvs"
  by (induction kvs arbitrary: s) (auto simp: collect_def)

lemma scanPrefix_healthy:
  assumes "\<And>op. p_fault q op = None"
  shows "scanPrefix q p cb s = (scanPrefixLoop p cb s (filter (\<lambda>(k, v). prefix p k) (p_data q)), None)"
  using assms by (simp add: scanPrefix_def iterate_prefix)

lemma prefixEntries_filter:
  "kv_ok d \<Longrightarrow> pdb_st d = Opened q \<Longrightarrow> prefixEntries d p = filter (\<lambda>(k, v). prefix p k) (p_data q)"
  by (auto elim!: kv_okE simp: prefixEntries_def kvScan_def scanPrefix_healthy scanPrefixLoop_collect)

lemma kvScan_loop [kv_simps]:
  "kv_ok d \<Longrightarrow> kvScan p cb s d = (scanPrefixLoop p cb s (prefixEntries d p), None)"
  by (frule kv_okE) (auto elim!: kv_okE simp: kvScan_def scanPrefix_healthy prefixEntries_filter)

lemma prefixEntries_prefix: "kv_ok d \<Longrightarrow> \<forall>(k, v)\<in>set (prefixEntries d p). prefix p k"
  by (erule kv_okE) (auto simp: prefixEntries_filter kv_ok_def)

interpretation pdb: kv_reader kv_ok kvLookup prefixEntries
proof
  fix d p k v
  assume d: "kv_ok d"
  then obtain q where q: "pdb_st d = Opened q" "ordered (p_data q)" by (rule kv_okE)
  show "(k, v) \<in> set (prefixEntries d p) \<longleftrightarrow> prefix p k \<and> kvLookup d k = Some v"
    using d q map_of_distinct_in_set [OF ordered_distinct [OF q(2)], of k v]
    by (auto simp: prefixEntries_filter kvLookup_ok kv_map_Opened)
  show "ordered (prefixEntries d p)"
    using d q by (simp add: prefixEntries_filter ordered_filter)
qed

lemma prefixEntries_iff [kv_simps]:
  "kv_ok d \<Longrightarrow> (k, v) \<in> set (prefixEntries d p) \<longleftrightarrow> prefix p k \<and> kv_map d k = Some v"
  by (simp add: pdb.entries_iff kvLookup_ok)

lemma kvScan_fold:
  "kv_ok d \<Longrightarrow>
   kvScan p (\<lambda>s k v. (f k v s, True)) s d = (fold (\<lambda>(k, v). f k v) (prefixEntries d p) s, None)"
  using scanPrefixLoop_fold [OF prefixEntries_prefix] by (simp add: kvScan_loop)

text \<open>Snapshots are readers too, over the state frozen when they were taken.\<close>

definition snap_ok :: "pebbleSnapshot \<Rightarrow> bool" where
  "snap_ok s = (case snap s of None \<Rightarrow> False
     | Some p \<Rightarrow> (\<forall>op. p_fault p op = None) \<and> ordered (p_data p))"

definition snapLookup :: "pebbleSnapshot \<Rightarrow> bytes \<Rightarrow> bytes option" where
  "snapLookup s k = (case snapGet k s of Some (Inr v) \<Rightarrow> v | _ \<Rightarrow> None)"

definition snapEntries :: "pebbleSnapshot \<Rightarrow> bytes \<Rightarrow> (bytes \<times> bytes) list" where
  "snapEntries s p = (case snapScan p collect [] s of None \<Rightarrow> [] | Some (kvs, _) \<Rightarrow> kvs)"

lemma snap_as_db:
  assumes "snap s = Some p"
  defines "d \<equiv> \<lparr>pdb_path = [], pdb_st = Opened p, pdb_sync = False\<rparr>"
  shows "snap_ok s \<longleftrightarrow> kv_ok d" "snapLookup s = kvLookup d" "snapEntries s = prefixEntries d"
  using assms
  by (auto simp: snap_ok_def kv_ok_def snapLookup_def snapGet_def kvLookup_def kvGet_def
      snapEntries_def snapScan_def prefixEntries_def kvScan_def fun_eq_iff getCopy_def
      split: option.splits sum.splits prod.splits)

interpretation snapshot: kv_reader snap_ok snapLookup snapEntries
proof
  fix s p k v
  assume s: "snap_ok s"
  then obtain q where q: "snap s = Some q" by (auto simp: snap_ok_def split: option.splits)
  note eqs = snap_as_db [OF q]
  show "(k, v) \<in> set (snapEntries s p) \<longleftrightarrow> prefix p k \<and> snapLookup s k = Some v"
    using s pdb.entries_iff by (simp add: eqs)
  show "ordered (snapEntries s p)"
    using s pdb.entries_ordered by (simp add: eqs)
qed

subsection \<open>Batches\<close>

text \<open>What a batch stands for: the store's map with the operations still in the batch applied on top.\<close>

definition batch_view :: "PebbleDB \<times> PebbleBatch \<Rightarrow> (bytes \<rightharpoonup> bytes)" where
  "batch_view s = fold applyOpM (pb_ops (snd s)) (kv_map (fst s))"

lemma batchCommit_ok:
  assumes "kv_ok d"
  shows "snd (batchCommit (d, b)) = None" "kv_ok (fst (fst (batchCommit (d, b))))"
    "kv_map (fst (fst (batchCommit (d, b)))) = batch_view (d, b)"
    "snd (fst (batchCommit (d, b))) = b\<lparr>pb_count := 0\<rparr>"
  using assms
  by (auto elim!: kv_okE simp: batchCommit_def batch_view_def kv_map_Opened map_of_fold_applyOp
      intro: ordered_fold_applyOp)

lemma increaseAndTryCommit_ok:
  assumes "kv_ok d"
  shows "snd (increaseAndTryCommit (d, b)) = None \<and> kv_ok (fst (fst (increaseAndTryCommit (d, b)))) \<and>
    batch_view (fst (increaseAndTryCommit (d, b))) = batch_view (d, b)"
proof (cases "0 < pb_maxBatchSize b \<and> pb_maxBatchSize b \<le> pb_count b + 1")
  case False
  with assms show ?thesis by (auto simp: increaseAndTryCommit_def batch_view_def Let_def)
next
  case True
  let ?b = "b\<lparr>pb_count := pb_count b + 1\<rparr>"
  obtain d' b' where c: "batchCommit (d, ?b) = ((d', b'), None)"
    using batchCommit_ok(1) [OF assms, of ?b] by (metis prod.collapse)
  have "kv_ok d'" "kv_map d' = batch_view (d, b)"
    using batchCommit_ok [OF assms, of ?b] c by (auto simp: batch_view_def)
  with True c show ?thesis
    by (simp add: increaseAndTryCommit_def batch_view_def batchReset_def Let_def)
qed

lemma batchAppend_ok [kv_simps]:
  assumes "kv_ok (fst s)"
  shows "snd (batchAppend op s) = None" "kv_ok (fst (fst (batchAppend op s)))"
    "batch_view (fst (batchAppend op s)) = applyOpM op (batch_view s)"
proof -
  obtain d b where s: "s = (d, b)" by (cases s)
  let ?b = "b\<lparr>pb_ops := pb_ops b @ [op]\<rparr>"
  have a: "batchAppend op s = increaseAndTryCommit (d, ?b)"
    using assms by (auto elim!: kv_okE simp: s batchAppend_def)
  have "batch_view (d, ?b) = applyOpM op (batch_view s)" by (simp add: batch_view_def s)
  with increaseAndTryCommit_ok [of d ?b] assms
  show "snd (batchAppend op s) = None" "kv_ok (fst (fst (batchAppend op s)))"
    "batch_view (fst (batchAppend op s)) = applyOpM op (batch_view s)"
    by (simp_all add: a [unfolded s] s)
qed

lemma NewBatch_ok [kv_simps]:
  "kv_ok d \<Longrightarrow> NewBatch n d = Some \<lparr>pb_ops = [], pb_maxBatchSize = n, pb_count = 0\<rparr>"
  by (simp add: NewBatch_def kv_ok_not_closed)

lemma batch_view_new [simp]:
  "batch_view (d, \<lparr>pb_ops = [], pb_maxBatchSize = n, pb_count = c\<rparr>) = kv_map d"
  by (simp add: batch_view_def)

lemma batchAppend_cases:
  assumes "kv_ok d"
  obtains b' where "fst (batchAppend op (d, b)) = (d, b')" "pb_ops b' = pb_ops b @ [op]"
  | d' b' where "fst (batchAppend op (d, b)) = (d', b')" "pb_ops b' = []"
      "kv_map d' = applyOpM op (batch_view (d, b))"
proof -
  let ?b = "b\<lparr>pb_ops := pb_ops b @ [op]\<rparr>"
  let ?c = "?b\<lparr>pb_count := pb_count b + 1\<rparr>"
  have a: "batchAppend op (d, b) = increaseAndTryCommit (d, ?b)"
    using assms by (auto elim!: kv_okE simp: batchAppend_def)
  show ?thesis
  proof (cases "0 < pb_maxBatchSize b \<and> pb_maxBatchSize b \<le> pb_count b + 1")
    case False
    then show ?thesis
      using that(1) [of ?b] that(1) [of ?c]
      by (cases "pb_maxBatchSize b \<le> 0") (simp_all add: a increaseAndTryCommit_def)
  next
    case True
    obtain d' b' where c: "batchCommit (d, ?c) = ((d', b'), None)"
      using batchCommit_ok(1) [OF assms, of ?c] by (metis prod.collapse)
    have "kv_map d' = applyOpM op (batch_view (d, b))"
      using batchCommit_ok [OF assms, of ?c] c by (auto simp: batch_view_def)
    moreover have "fst (batchAppend op (d, b)) = (d', batchReset b')"
      using True c by (simp add: a increaseAndTryCommit_def Let_def)
    ultimately show ?thesis using that(2) [of d' "batchReset b'"] by (simp add: batchReset_def)
  qed
qed

text \<open>Where no pending operation touches it, the durable map already says what the batch will.\<close>

lemma batchAppend_agree:
  assumes "kv_ok (fst s)" "\<forall>x\<in>A. batch_view s x = kv_map (fst s) x" "\<And>m x. x \<in> A \<Longrightarrow> applyOpM op m x = m x"
  shows "\<forall>x\<in>A. batch_view (fst (batchAppend op s)) x = kv_map (fst (fst (batchAppend op s))) x"
proof -
  obtain d b where s: "s = (d, b)" by (cases s)
  have "kv_ok d" using assms(1) by (simp add: s)
  then show ?thesis
  proof (cases rule: batchAppend_cases [where op = op and b = b])
    case (1 b')
    then show ?thesis using assms(2,3) by (simp add: s batch_view_def)
  next
    case (2 d' b')
    then show ?thesis by (simp add: s batch_view_def)
  qed
qed

text \<open>A property of the durable map that holds whichever prefix of the pending operations has been
  written through: what a crash can leave behind.\<close>

definition batch_safe :: "((bytes \<rightharpoonup> bytes) \<Rightarrow> bool) \<Rightarrow> PebbleDB \<times> PebbleBatch \<Rightarrow> bool" where
  "batch_safe P s \<longleftrightarrow> (\<forall>n. P (fold applyOpM (take n (pb_ops (snd s))) (kv_map (fst s))))"

lemma batch_safe_view: "batch_safe P s \<Longrightarrow> P (batch_view s)"
  unfolding batch_safe_def batch_view_def by (drule spec [of _ "length (pb_ops (snd s))"]) simp

lemma batch_safe_durable: "batch_safe P s \<Longrightarrow> P (kv_map (fst s))"
  unfolding batch_safe_def by (drule spec [of _ 0]) simp

lemma batch_safe_append:
  assumes "kv_ok (fst s)" "batch_safe P s" "P (applyOpM op (batch_view s))"
  shows "batch_safe P (fst (batchAppend op s))"
proof -
  obtain d b where s: "s = (d, b)" by (cases s)
  have ok: "kv_ok d" using assms(1) by (simp add: s)
  from ok show ?thesis
  proof (cases rule: batchAppend_cases [where op = op and b = b])
    case (1 b')
    have "P (fold applyOpM (take n (pb_ops b @ [op])) (kv_map d))" for n
    proof (cases "n \<le> length (pb_ops b)")
      case True
      then show ?thesis using assms(2) by (simp add: s batch_safe_def)
    next
      case False
      then show ?thesis using assms(3) by (simp add: s batch_view_def)
    qed
    with 1 show ?thesis by (simp add: s batch_safe_def)
  next
    case (2 d' b')
    with assms(3) show ?thesis by (simp add: s batch_safe_def)
  qed
qed

lemma batch_safe_commit:
  assumes "kv_ok d" "batch_safe P (d, b)"
  shows "batch_safe P (fst (fst (batchCommit (d, b))), batchReset (snd (fst (batchCommit (d, b)))))"
  using batch_safe_view [OF assms(2)] batchCommit_ok [OF assms(1), of b]
  by (simp add: batch_safe_def batchReset_def)

text \<open>A run of batch operations, errors ignored as most callers do.\<close>

definition batchRun :: "batch_op list \<Rightarrow> PebbleDB \<times> PebbleBatch \<Rightarrow> PebbleDB \<times> PebbleBatch" where
  "batchRun ops s = fold (\<lambda>op s. fst (batchAppend op s)) ops s"

lemma batchRun_simps [simp]:
  "batchRun [] s = s"
  "batchRun (op # ops) s = batchRun ops (fst (batchAppend op s))"
  by (simp_all add: batchRun_def)

lemma batchRun_append: "batchRun (xs @ ys) s = batchRun ys (batchRun xs s)"
  by (simp add: batchRun_def)

lemma batchRun_ok [kv_simps]:
  "kv_ok (fst s) \<Longrightarrow> kv_ok (fst (batchRun ops s))"
  "kv_ok (fst s) \<Longrightarrow> batch_view (batchRun ops s) = fold applyOpM ops (batch_view s)"
  by (induction ops arbitrary: s) (simp_all add: batchAppend_ok)

lemma batchRun_commit [kv_simps]:
  assumes "kv_ok (fst s)"
  shows "kv_ok (fst (fst (batchCommit (batchRun ops s))))"
    "kv_map (fst (fst (batchCommit (batchRun ops s)))) = fold applyOpM ops (batch_view s)"
  using batchCommit_ok [of "fst (batchRun ops s)" "snd (batchRun ops s)"] batchRun_ok [OF assms]
  by simp_all

text \<open>
  (C12) Auto-commit is transparent and loses nothing: whatever the size limit of a batch, running a
  list of operations and committing leaves the store with exactly those operations applied in order.
\<close>

theorem batch_auto_commit_transparent:
  assumes "kv_ok d" and "NewBatch maxBatchSize d = Some b"
  shows "kv_map (fst (fst (batchCommit (batchRun ops (d, b))))) = fold applyOpM ops (kv_map d)"
  using batchRun_commit(2) [of "(d, b)" ops] assms by (auto simp: kv_simps)

definition freshDB :: PebbleDB where
  "freshDB = \<lparr>pdb_path = ''/db'', pdb_st = Opened \<lparr>p_data = [], p_fault = (\<lambda>_. None)\<rparr>, pdb_sync = False\<rparr>"

lemma freshDB_ok [simp]: "kv_ok freshDB" "kv_map freshDB = Map.empty"
  by (simp_all add: freshDB_def kv_ok_def kv_map_def)

theorem batch_auto_commit_transparent_witness:
  "kv_ok freshDB \<and> NewBatch 2 freshDB \<noteq> None \<and>
   kv_map (fst (fst (batchCommit (batchRun [BSet ''a'' ''1'', BSet ''b'' ''2'', BDelete ''a'']
     (freshDB, the (NewBatch 2 freshDB)))))) = [''b'' \<mapsto> ''2'']"
proof -
  have "NewBatch 2 freshDB = Some (the (NewBatch 2 freshDB))" by (simp add: kv_simps)
  from batch_auto_commit_transparent [OF freshDB_ok(1) this,
      of "[BSet ''a'' ''1'', BSet ''b'' ''2'', BDelete ''a'']"]
  show ?thesis by (auto simp: kv_simps fun_eq_iff)
qed

text \<open>
  (C13) What a batch has written through before its last commit is a prefix of the operations it was
  given, and what it still holds is the rest: a crash between two auto-commits can lose a tail, never
  an operation in the middle.
\<close>

theorem batch_durable_prefix:
  assumes "kv_ok d" and "NewBatch maxBatchSize d = Some b"
  shows "\<exists>n \<le> length ops. kv_map (fst (batchRun ops (d, b))) = fold applyOpM (take n ops) (kv_map d) \<and>
    pb_ops (snd (batchRun ops (d, b))) = drop n ops"
proof (induction ops rule: rev_induct)
  case Nil
  then show ?case using assms by (auto simp: kv_simps)
next
  case (snoc op ops)
  then obtain n where n: "n \<le> length ops"
    "kv_map (fst (batchRun ops (d, b))) = fold applyOpM (take n ops) (kv_map d)"
    "pb_ops (snd (batchRun ops (d, b))) = drop n ops" by blast
  obtain d1 b1 where r: "batchRun ops (d, b) = (d1, b1)" by (cases "batchRun ops (d, b)")
  have ok: "kv_ok d1" using batchRun_ok(1) [of "(d, b)" ops] assms(1) by (simp add: r)
  from ok show ?case
  proof (cases rule: batchAppend_cases [where op = op and b = b1])
    case (1 b')
    with n show ?thesis by (intro exI [of _ n]) (simp add: batchRun_append r)
  next
    case (2 d' b')
    have "batch_view (d1, b1) = fold applyOpM ops (kv_map d)"
      using batchRun_ok(2) [of "(d, b)" ops] assms r by (auto simp: kv_simps)
    with 2 show ?thesis by (intro exI [of _ "length (ops @ [op])"]) (simp add: batchRun_append r)
  qed
qed

theorem batch_durable_prefix_witness:
  "\<exists>n \<le> length [BSet ''a'' ''1'', BSet ''b'' ''2'', BDelete ''a''].
    kv_map (fst (batchRun [BSet ''a'' ''1'', BSet ''b'' ''2'', BDelete ''a'']
      (freshDB, the (NewBatch 2 freshDB))))
    = fold applyOpM (take n [BSet ''a'' ''1'', BSet ''b'' ''2'', BDelete ''a'']) (kv_map freshDB) \<and>
    pb_ops (snd (batchRun [BSet ''a'' ''1'', BSet ''b'' ''2'', BDelete ''a'']
      (freshDB, the (NewBatch 2 freshDB)))) = drop n [BSet ''a'' ''1'', BSet ''b'' ''2'', BDelete ''a'']"
proof (rule batch_durable_prefix)
  show "NewBatch 2 freshDB = Some (the (NewBatch 2 freshDB))" by (simp add: kv_simps)
qed simp

text \<open>
  (C14) A prefix scan of a working store visits exactly the pairs whose key starts with the prefix,
  in ascending key order and each once, whatever bytes the prefix ends in (0xff included).
\<close>

theorem kvScan_prefix_exact:
  assumes "kv_ok d"
  shows "\<exists>kvs. kvScan pre (\<lambda>acc k v. (acc @ [(k, v)], True)) [] d = (kvs, None) \<and>
    set kvs = {(k, v). prefix pre k \<and> kv_map d k = Some v} \<and> sorted_wrt (<) (map fst kvs)"
proof -
  have c: "(\<lambda>acc k v. (acc @ [(k, v)], True)) = collect" by (simp add: collect_def fun_eq_iff)
  have "kvScan pre collect [] d = (prefixEntries d pre, None)"
    using scanPrefixLoop_collect [OF prefixEntries_prefix [OF assms]] assms by (simp add: kvScan_loop)
  moreover have "set (prefixEntries d pre) = {(k, v). prefix pre k \<and> kv_map d k = Some v}"
    using assms by (auto simp: prefixEntries_iff)
  ultimately show ?thesis using pdb.entries_ordered [OF assms] by (simp add: c)
qed

theorem kvScan_prefix_exact_witness:
  "\<exists>kvs. kvScan [xFF] (\<lambda>acc k v. (acc @ [(k, v)], True)) [] (fst (kvPut [xFF, xFF] ''1'' freshDB)) = (kvs, None) \<and>
    set kvs = {(k, v). prefix [xFF] k \<and> kv_map (fst (kvPut [xFF, xFF] ''1'' freshDB)) k = Some v} \<and>
    sorted_wrt (<) (map fst kvs)"
  by (rule kvScan_prefix_exact) (simp add: kvPut_ok)

lemma batchDeletePrefix_view:
  assumes "kv_ok (fst s)" "\<exists>c\<in>set pre. c \<noteq> xFF"
  shows "kv_ok (fst (fst (batchDeletePrefix pre s)))"
    "batch_view (fst (batchDeletePrefix pre s)) = (\<lambda>k. if prefix pre k then None else batch_view s k)"
proof -
  have "keyUpperBound pre \<noteq> None" using assms(2) by (auto simp: keyUpperBound_def upperFromEnd_None)
  then obtain u where u: "keyUpperBound pre = Some u" by blast
  have e: "batchDeletePrefix pre s = batchAppend (BDeleteRange pre u) s" by (simp add: batchDeletePrefix_def u)
  show "kv_ok (fst (fst (batchDeletePrefix pre s)))" using batchAppend_ok [OF assms(1)] by (simp add: e)
  show "batch_view (fst (batchDeletePrefix pre s)) = (\<lambda>k. if prefix pre k then None else batch_view s k)"
    using batchAppend_ok(3) [OF assms(1)] keyUpperBound_Some [OF u] by (auto simp: e fun_eq_iff)
qed



fun takeIds :: "nat \<Rightarrow> bytes \<Rightarrow> PebbleDB \<Rightarrow> PebbleDB \<times> int result list" where
  "takeIds 0 key d = (d, [])"
| "takeIds (Suc n) key d =
     (case GetIncrementalId key d of (d', r) \<Rightarrow> case takeIds n key d' of (d'', rs) \<Rightarrow> (d'', r # rs))"

lemma wrap64_id: "is_int64 i \<Longrightarrow> wrap64 i = i"
  by (simp add: wrap64_def is_int64_def)

lemma GetIncrementalId_next:
  assumes "kv_ok d" "is_int64 (i + 1)" "is_int64 i"
    "kv_map d key = (if i = 0 then None else Some (itoa i)) \<or> kv_map d key = Some (itoa i)"
  shows "snd (GetIncrementalId key d) = Inr i" "kv_ok (fst (GetIncrementalId key d))"
    "kv_map (fst (GetIncrementalId key d)) = (kv_map d)(key \<mapsto> itoa (i + 1))"
  using assms
  by (auto simp: GetIncrementalId_def kv_simps atoi_itoa wrap64_id split: if_splits)

lemma takeIds_from:
  assumes "kv_ok d" "kv_map d key = (if i = 0 then None else Some (itoa i)) \<or> kv_map d key = Some (itoa i)"
    "0 \<le> i" "is_int64 (i + int n)"
  shows "snd (takeIds n key d) = map (\<lambda>k. Inr (i + int k)) [0..<n]"
  using assms
proof (induction n arbitrary: i d)
  case 0
  then show ?case by simp
next
  case (Suc n)
  then have r: "is_int64 (i + 1)" "is_int64 i" by (auto simp: is_int64_def)
  note g = GetIncrementalId_next [OF Suc.prems(1) r Suc.prems(2)]
  have "snd (takeIds n key (fst (GetIncrementalId key d))) = map (\<lambda>k. Inr (i + 1 + int k)) [0..<n]"
    using Suc.prems g by (intro Suc.IH) (auto simp: add.commute add.left_commute)
  moreover have "[0..<Suc n] = 0 # map Suc [0..<n]" by (simp add: upt_conv_Cons map_Suc_upt del: upt_Suc)
  ultimately show ?case using g by (auto split: prod.splits simp: add.assoc simp del: upt_Suc)
qed



end
