(* ===== verification/IdTable.thy ===== *)
theory IdTable
  imports KV
begin

text \<open>
  Package \<open>idtable\<close>: the fixed-capacity LRU cache (\<open>lru_cache.go\<close>) and the allocator of stable
  document ids (\<open>idtable.go\<close>).

  The cache's map holds pointers into its doubly linked list; here a list element has an address,
  the map holds addresses and the invariant \<open>lru_inv\<close> says the two agree. The mutexes
  serialise the operations, so an operation is one step. The background goroutine only calls
  \<open>tryCommit\<close> under the mutex: it is the operation \<open>tryCommit\<close>, at any point of a run.
  The store is owned by the caller, so every allocator operation takes and returns it beside the
  allocator; \<open>al_attached\<close> is \<open>store != nil\<close>.
\<close>

subsection \<open>lruCache\<close>

record cacheEntry =
  ce_key :: bytes
  ce_value :: "64 word"

record lruCache =
  lru_capacity :: int
  lru_cache :: "bytes \<rightharpoonup> nat"
  lru_list :: "(nat \<times> cacheEntry) list"
  lru_fresh :: nat

definition newLRUCache :: "int \<Rightarrow> lruCache" where
  "newLRUCache capacity =
     \<lparr>lru_capacity = (if capacity \<le> 0 then 0 else capacity), lru_cache = Map.empty, lru_list = [],
      lru_fresh = 0\<rparr>"

definition MoveToFront :: "nat \<Rightarrow> (nat \<times> cacheEntry) list \<Rightarrow> (nat \<times> cacheEntry) list" where
  "MoveToFront a l = filter (\<lambda>x. fst x = a) l @ filter (\<lambda>x. fst x \<noteq> a) l"

definition elemValue :: "nat \<Rightarrow> (nat \<times> cacheEntry) list \<Rightarrow> 64 word" where
  "elemValue a l = (case map_of l a of None \<Rightarrow> - 1 | Some e \<Rightarrow> ce_value e)"

definition setElemValue :: "nat \<Rightarrow> 64 word \<Rightarrow> (nat \<times> cacheEntry) list \<Rightarrow> (nat \<times> cacheEntry) list" where
  "setElemValue a v l = map (\<lambda>(x, e). if x = a then (x, e\<lparr>ce_value := v\<rparr>) else (x, e)) l"

definition lruGet :: "bytes \<Rightarrow> lruCache \<Rightarrow> lruCache \<times> 64 word \<times> bool" where
  "lruGet key c =
     (if lru_capacity c = 0 then (c, - 1, False)
      else case lru_cache c key of
        Some elem \<Rightarrow> let c' = c\<lparr>lru_list := MoveToFront elem (lru_list c)\<rparr>
                    in (c', elemValue elem (lru_list c'), True)
      | None \<Rightarrow> (c, - 1, False))"

definition lruPut :: "bytes \<Rightarrow> 64 word \<Rightarrow> lruCache \<Rightarrow> lruCache" where
  "lruPut key value c =
     (if lru_capacity c = 0 then c
      else case lru_cache c key of
        Some elem \<Rightarrow> c\<lparr>lru_list := setElemValue elem value (MoveToFront elem (lru_list c))\<rparr>
      | None \<Rightarrow>
          let c1 = (if lru_capacity c \<le> int (length (lru_list c)) \<and> lru_list c \<noteq> []
                    then c\<lparr>lru_cache := (lru_cache c)(ce_key (snd (last (lru_list c))) := None),
                           lru_list := butlast (lru_list c)\<rparr>
                    else c);
              a = lru_fresh c1
          in c1\<lparr>lru_list := (a, \<lparr>ce_key = key, ce_value = value\<rparr>) # lru_list c1,
                lru_cache := (lru_cache c1)(key \<mapsto> a), lru_fresh := a + 1\<rparr>)"

definition lruDelete :: "bytes \<Rightarrow> lruCache \<Rightarrow> lruCache" where
  "lruDelete key c =
     (case lru_cache c key of
        Some elem \<Rightarrow> c\<lparr>lru_cache := (lru_cache c)(key := None),
                        lru_list := filter (\<lambda>x. fst x \<noteq> elem) (lru_list c)\<rparr>
      | None \<Rightarrow> c)"

definition lruClear :: "lruCache \<Rightarrow> lruCache" where
  "lruClear c = c\<lparr>lru_cache := Map.empty, lru_list := []\<rparr>"

subsection \<open>Allocator\<close>

record idOptions =
  io_KeyTypeNextId :: char
  io_KeyTypeKey :: char
  io_LRUCacheSize :: int
  io_BatchSize :: int

record Allocator =
  al_attached :: bool
  al_batch :: "PebbleBatch option"
  al_lru :: lruCache
  al_nextId :: "64 word"
  al_keyTypeNextId :: char
  al_keyTypeKey :: char
  al_running :: bool

definition DefaultKeyTypeNextId :: char where "DefaultKeyTypeNextId = CHR 0x1C"
definition DefaultKeyTypeKey :: char where "DefaultKeyTypeKey = CHR 0x1D"

definition idOptionsDefaults :: "idOptions \<Rightarrow> idOptions" where
  "idOptionsDefaults o' =
     \<lparr>io_KeyTypeNextId = (if io_KeyTypeNextId o' = CHR 0x00 then DefaultKeyTypeNextId else io_KeyTypeNextId o'),
      io_KeyTypeKey = (if io_KeyTypeKey o' = CHR 0x00 then DefaultKeyTypeKey else io_KeyTypeKey o'),
      io_LRUCacheSize = (if io_LRUCacheSize o' = 0 then 200000 else io_LRUCacheSize o'),
      io_BatchSize = (if io_BatchSize o' = 0 then 100 else io_BatchSize o')\<rparr>"

definition encodeIncrIdKey :: "Allocator \<Rightarrow> bytes" where
  "encodeIncrIdKey a = [al_keyTypeNextId a]"

definition encodeIdKey :: "Allocator \<Rightarrow> bytes \<Rightarrow> bytes" where
  "encodeIdKey a key = al_keyTypeKey a # key"

definition parseId :: "bytes \<Rightarrow> int" where
  "parseId s = (case atoi s of None \<Rightarrow> - 1 | Some v \<Rightarrow> v)"

definition toBytes :: "64 word \<Rightarrow> bytes" where
  "toBytes v = PutUint64 v"

definition fromBytes :: "bytes \<Rightarrow> 64 word option" where
  "fromBytes buf = Uint64 buf"

definition EncodeId :: "64 word \<Rightarrow> bytes" where
  "EncodeId i = toBytes i"

definition DecodeId :: "bytes \<Rightarrow> 64 word" where
  "DecodeId s = (if length s < 8 then - 1 else case Uint64 (take 8 s) of None \<Rightarrow> - 1 | Some w \<Rightarrow> w)"

text \<open>\<open>New\<close>. \<open>NewBatch\<close> dereferences a nil store only on a closed handle, where the preceding
  \<open>Get\<close> has already failed.\<close>

definition newAllocator :: "PebbleDB \<Rightarrow> idOptions \<Rightarrow> Allocator result" where
  "newAllocator d opts0 =
     (let opts = idOptionsDefaults opts0 in
      case kvGet [io_KeyTypeNextId opts] d of
        Inl e \<Rightarrow> Inl e
      | Inr v \<Rightarrow>
          let nextId = (case v of None \<Rightarrow> 1 | Some s \<Rightarrow> parseId s) in
          if nextId < 0
          then Inl (''invalid nextId value: '' @ itoa nextId @ '', database malformed'')
          else Inr \<lparr>al_attached = True, al_batch = NewBatch (io_BatchSize opts) d,
                     al_lru = newLRUCache (io_LRUCacheSize opts), al_nextId = word_of_int nextId,
                     al_keyTypeNextId = io_KeyTypeNextId opts, al_keyTypeKey = io_KeyTypeKey opts,
                     al_running = True\<rparr>)"

text \<open>\<open>a.batch.Put\<close>, its error ignored. The batch is nil only after \<open>CrashRelease\<close>, which also
  detaches the store, so that \<open>GetId\<close> has returned before.\<close>

definition allocBatchPut :: "bytes \<Rightarrow> bytes \<Rightarrow> Allocator \<times> PebbleDB \<Rightarrow> Allocator \<times> PebbleDB" where
  "allocBatchPut k v s =
     (case s of (a, d) \<Rightarrow>
        (case al_batch a of
           None \<Rightarrow> s
         | Some b \<Rightarrow> (case fst (batchPut k v (d, b)) of (d', b') \<Rightarrow> (a\<lparr>al_batch := Some b'\<rparr>, d'))))"

text \<open>The part of \<open>GetId\<close> that allocates: the counter goes into the batch before the mapping.\<close>

definition allocFresh :: "bytes \<Rightarrow> Allocator \<times> PebbleDB \<Rightarrow> Allocator \<times> PebbleDB" where
  "allocFresh key s =
     (case s of (a, d) \<Rightarrow>
        allocBatchPut (encodeIdKey a key) (toBytes (al_nextId a))
          (allocBatchPut (encodeIncrIdKey a) (itoa (int64_of (al_nextId a + 1)))
             (a\<lparr>al_lru := lruPut key (al_nextId a) (al_lru a), al_nextId := al_nextId a + 1\<rparr>, d)))"

text \<open>\<open>GetId\<close>; the outer \<open>None\<close> is the panic of \<open>fromBytes\<close> on a stored value shorter than eight
  bytes.\<close>

definition GetId :: "bytes \<Rightarrow> Allocator \<times> PebbleDB \<Rightarrow> ((Allocator \<times> PebbleDB) \<times> bytes result) option" where
  "GetId key s =
     (case s of (a, d) \<Rightarrow>
        if \<not> al_attached a \<or> IsClosed d then Some (s, Inl ''database is closed'')
        else case lruGet key (al_lru a) of (lru, v, found) \<Rightarrow>
          if found then Some ((a\<lparr>al_lru := lru\<rparr>, d), Inr (toBytes v))
          else case kvGet (encodeIdKey a key) d of
            Inl e \<Rightarrow> Some (s, Inl (''failed to get id for key '' @ key @ '': '' @ e))
          | Inr r \<Rightarrow>
              (case r of
                 Some v \<Rightarrow>
                   (case fromBytes v of
                      None \<Rightarrow> None
                    | Some w \<Rightarrow> Some ((a\<lparr>al_lru := lruPut key w (al_lru a)\<rparr>, d), Inr v))
               | None \<Rightarrow> Some (allocFresh key s, Inr (toBytes (al_nextId a)))))"

definition Lookup ::
  "bytes \<Rightarrow> Allocator \<times> PebbleDB \<Rightarrow> ((Allocator \<times> PebbleDB) \<times> (64 word \<times> bool) result) option" where
  "Lookup key s =
     (case s of (a, d) \<Rightarrow>
        if \<not> al_attached a \<or> IsClosed d then Some (s, Inl ''database is closed'')
        else case lruGet key (al_lru a) of (lru, v, found) \<Rightarrow>
          if found then Some ((a\<lparr>al_lru := lru\<rparr>, d), Inr (v, True))
          else case kvGet (encodeIdKey a key) d of
            Inl e \<Rightarrow> Some (s, Inl (''failed to lookup id for key '' @ key @ '': '' @ e))
          | Inr r \<Rightarrow>
              (case r of
                 None \<Rightarrow> Some (s, Inr (0, False))
               | Some v \<Rightarrow>
                   (case fromBytes v of
                      None \<Rightarrow> None
                    | Some w \<Rightarrow> Some ((a\<lparr>al_lru := lruPut key w (al_lru a)\<rparr>, d), Inr (w, True)))))"

definition tryCommit :: "Allocator \<times> PebbleDB \<Rightarrow> (Allocator \<times> PebbleDB) \<times> error option" where
  "tryCommit s =
     (case s of (a, d) \<Rightarrow>
        if \<not> al_attached a \<or> IsClosed d then (s, Some ''database is closed'')
        else case al_batch a of
          None \<Rightarrow> (s, None)
        | Some b \<Rightarrow>
            if 0 < batchCount b
            then (case batchCommit (d, b) of
                    ((d', b'), Some e) \<Rightarrow> ((a\<lparr>al_batch := Some b'\<rparr>, d'), Some e)
                  | ((d', b'), None) \<Rightarrow> ((a\<lparr>al_batch := Some (batchReset b')\<rparr>, d'), None))
            else (s, None))"

definition allocCommit :: "Allocator \<times> PebbleDB \<Rightarrow> (Allocator \<times> PebbleDB) \<times> error option" where
  "allocCommit s =
     (case s of (a, d) \<Rightarrow>
        if \<not> al_attached a \<or> IsClosed d then (s, Some ''database is closed'') else tryCommit s)"

definition allocClose :: "Allocator \<times> PebbleDB \<Rightarrow> Allocator \<times> PebbleDB" where
  "allocClose s =
     (case s of (a, d) \<Rightarrow>
        if \<not> al_running a then s
        else (case fst (tryCommit (a\<lparr>al_running := False\<rparr>, d)) of
                (a', d') \<Rightarrow> (a'\<lparr>al_lru := lruClear (al_lru a'), al_attached := False\<rparr>, d')))"

definition CrashRelease :: "Allocator \<times> PebbleDB \<Rightarrow> Allocator \<times> PebbleDB" where
  "CrashRelease s =
     (case s of (a, d) \<Rightarrow>
        if \<not> al_running a then (a\<lparr>al_attached := False\<rparr>, d)
        else (a\<lparr>al_running := False, al_batch := None, al_attached := False\<rparr>, d))"

subsection \<open>The cache refines a bounded list, most recently used first\<close>

definition lru_abs :: "lruCache \<Rightarrow> (bytes \<times> 64 word) list" where
  "lru_abs c = map (\<lambda>x. (ce_key (snd x), ce_value (snd x))) (lru_list c)"

definition index_of :: "(nat \<times> cacheEntry) list \<Rightarrow> (bytes \<rightharpoonup> nat)" where
  "index_of l = map_of (map (\<lambda>x. (ce_key (snd x), fst x)) l)"

definition lru_inv :: "lruCache \<Rightarrow> bool" where
  "lru_inv c \<longleftrightarrow>
     distinct (map fst (lru_list c)) \<and> distinct (map (\<lambda>x. ce_key (snd x)) (lru_list c)) \<and>
     lru_cache c = index_of (lru_list c) \<and>
     (\<forall>x\<in>set (lru_list c). fst x < lru_fresh c) \<and>
     int (length (lru_list c)) \<le> lru_capacity c"

definition specTouch :: "bytes \<Rightarrow> (bytes \<times> 64 word) list \<Rightarrow> (bytes \<times> 64 word) list" where
  "specTouch k xs = (case map_of xs k of None \<Rightarrow> xs | Some v \<Rightarrow> (k, v) # filter (\<lambda>x. fst x \<noteq> k) xs)"

definition specPut :: "nat \<Rightarrow> bytes \<Rightarrow> 64 word \<Rightarrow> (bytes \<times> 64 word) list \<Rightarrow> (bytes \<times> 64 word) list" where
  "specPut cap k v xs = take cap ((k, v) # filter (\<lambda>x. fst x \<noteq> k) xs)"

lemma lru_inv_new: "lru_inv (newLRUCache n)"
  by (simp add: lru_inv_def newLRUCache_def lru_abs_def index_of_def)

lemma lru_inv_clear: "lru_inv c \<Longrightarrow> lru_inv (lruClear c)"
  by (simp add: lru_inv_def lruClear_def lru_abs_def index_of_def)

lemma index_of_simps [simp]:
  "index_of [] = Map.empty"
  "index_of ((a, e) # l) = (index_of l)(ce_key e \<mapsto> a)"
  by (simp_all add: index_of_def)

lemma index_of_append: "index_of (xs @ ys) = index_of ys ++ index_of xs"
  by (simp add: index_of_def)

lemma index_of_None: "index_of l k = None \<longleftrightarrow> k \<notin> (\<lambda>x. ce_key (snd x)) ` set l"
  by (simp add: index_of_def map_of_eq_None_iff comp_def image_image)

lemma index_of_Some: "index_of l k = Some a \<Longrightarrow> \<exists>e. (a, e) \<in> set l \<and> ce_key e = k"
  unfolding index_of_def by (drule map_of_SomeD) auto

lemma lru_hit:
  assumes "lru_inv c" "lru_cache c k = Some a"
  obtains e xs ys where "lru_list c = xs @ (a, e) # ys" "ce_key e = k"
    "\<forall>x\<in>set (xs @ ys). fst x \<noteq> a \<and> ce_key (snd x) \<noteq> k"
    "MoveToFront a (lru_list c) = (a, e) # xs @ ys"
    "map_of (lru_abs c) k = Some (ce_value e)"
    "filter (\<lambda>x. fst x \<noteq> k) (lru_abs c) = map (\<lambda>x. (ce_key (snd x), ce_value (snd x))) (xs @ ys)"
proof -
  from assms have "index_of (lru_list c) k = Some a" by (simp add: lru_inv_def)
  then obtain e where e: "(a, e) \<in> set (lru_list c)" "ce_key e = k" using index_of_Some by blast
  then obtain xs ys where l: "lru_list c = xs @ (a, e) # ys" by (meson split_list)
  have d: "distinct (map fst (lru_list c))" "distinct (map (\<lambda>x. ce_key (snd x)) (lru_list c))"
    using assms(1) by (simp_all add: lru_inv_def)
  have "k \<notin> (\<lambda>x. ce_key (snd x)) ` set (xs @ ys)" "a \<notin> fst ` set (xs @ ys)"
    using d e(2) by (simp_all add: l image_Un)
  then have na: "\<forall>x\<in>set (xs @ ys). fst x \<noteq> a \<and> ce_key (snd x) \<noteq> k" by blast
  have f1: "filter (\<lambda>x. fst x = a) (xs @ ys) = []" "filter (\<lambda>x. fst x \<noteq> a) (xs @ ys) = xs @ ys"
    using na by (auto intro!: filter_False filter_True)
  then have m: "MoveToFront a (lru_list c) = (a, e) # xs @ ys" by (simp add: MoveToFront_def l)
  have f2: "filter (\<lambda>x. fst x \<noteq> k) (map (\<lambda>x. (ce_key (snd x), ce_value (snd x))) (xs @ ys))
      = map (\<lambda>x. (ce_key (snd x), ce_value (snd x))) (xs @ ys)"
    using na by (intro filter_True) fastforce
  have "(k, ce_value e) \<in> set (lru_abs c)" using e by (force simp: lru_abs_def)
  moreover have "distinct (map fst (lru_abs c))" using d(2) by (simp add: lru_abs_def comp_def)
  ultimately have g: "map_of (lru_abs c) k = Some (ce_value e)" by simp
  show ?thesis
    by (rule that [of xs e ys]) (use l e(2) na m f2 g in \<open>simp_all add: lru_abs_def\<close>)
qed

lemma lru_miss: "lru_inv c \<Longrightarrow> lru_cache c k = None \<longleftrightarrow> k \<notin> fst ` set (lru_abs c)"
  by (simp add: lru_inv_def index_of_None lru_abs_def image_image)

lemma lru_zero: "lru_inv c \<Longrightarrow> lru_capacity c = 0 \<Longrightarrow> lru_list c = []"
  by (simp add: lru_inv_def)

text \<open>Moving the element to the front, with any value, keeps the invariant.\<close>

lemma lru_inv_front:
  assumes "lru_inv c" "lru_list c = xs @ (a, e) # ys" "ce_key e' = ce_key e"
  shows "lru_inv (c\<lparr>lru_list := (a, e') # xs @ ys\<rparr>)"
proof -
  have "ce_key e \<notin> (\<lambda>x. ce_key (snd x)) ` set xs" using assms(1,2) by (simp add: lru_inv_def)
  then have "index_of xs (ce_key e) = None" by (simp add: index_of_None)
  then have "index_of (xs @ (a, e) # ys) = index_of ((a, e') # xs @ ys)"
    using assms(3) by (auto simp: index_of_append fun_eq_iff map_add_def split: option.splits)
  with assms show ?thesis by (auto simp: lru_inv_def)
qed

lemma lruGet_refines:
  assumes inv: "lru_inv c" and get: "lruGet k c = (c', v, found)"
  shows "lru_inv c'" "lru_abs c' = specTouch k (lru_abs c)" "lru_capacity c' = lru_capacity c"
    "map_of (lru_abs c) k = (if found then Some v else None)"
proof -
  have "lru_inv c' \<and> lru_abs c' = specTouch k (lru_abs c) \<and> lru_capacity c' = lru_capacity c \<and>
    map_of (lru_abs c) k = (if found then Some v else None)"
  proof (cases "lru_capacity c = 0 \<or> lru_cache c k = None")
    case True
    then have "map_of (lru_abs c) k = None"
      using lru_miss [OF inv, of k] lru_zero [OF inv]
      by (auto simp: lru_abs_def map_of_eq_None_iff)
    with True inv get show ?thesis by (auto simp: lruGet_def specTouch_def split: if_splits)
  next
    case False
    then obtain a where a: "lru_cache c k = Some a" by blast
    from inv a obtain e xs ys where h: "lru_list c = xs @ (a, e) # ys" "ce_key e = k"
      "\<forall>x\<in>set (xs @ ys). fst x \<noteq> a \<and> ce_key (snd x) \<noteq> k"
      "MoveToFront a (lru_list c) = (a, e) # xs @ ys"
      "map_of (lru_abs c) k = Some (ce_value e)"
      "filter (\<lambda>x. fst x \<noteq> k) (lru_abs c) = map (\<lambda>x. (ce_key (snd x), ce_value (snd x))) (xs @ ys)"
      by (rule lru_hit)
    have g: "c' = c\<lparr>lru_list := (a, e) # xs @ ys\<rparr>" "v = ce_value e" "found"
      using False a get h(4) by (auto simp: lruGet_def Let_def elemValue_def)
    have "lru_inv c'" unfolding g(1) by (rule lru_inv_front [OF inv h(1)]) simp
    then show ?thesis using g h by (simp add: specTouch_def lru_abs_def)
  qed
  then show "lru_inv c'" "lru_abs c' = specTouch k (lru_abs c)" "lru_capacity c' = lru_capacity c"
    "map_of (lru_abs c) k = (if found then Some v else None)" by simp_all
qed

lemma setElemValue_notin: "\<forall>x\<in>set l. fst x \<noteq> a \<Longrightarrow> setElemValue a v l = l"
  unfolding setElemValue_def by (rule map_idI) auto

lemma lruPut_hit:
  assumes inv: "lru_inv c" and a: "lru_cache c k = Some a" and cap: "lru_capacity c \<noteq> 0"
  shows "lru_inv (lruPut k v c)" "lru_abs (lruPut k v c) = specPut (nat (lru_capacity c)) k v (lru_abs c)"
proof -
  from inv a obtain e xs ys where h: "lru_list c = xs @ (a, e) # ys" "ce_key e = k"
    "\<forall>x\<in>set (xs @ ys). fst x \<noteq> a \<and> ce_key (snd x) \<noteq> k"
    "MoveToFront a (lru_list c) = (a, e) # xs @ ys"
    "map_of (lru_abs c) k = Some (ce_value e)"
    "filter (\<lambda>x. fst x \<noteq> k) (lru_abs c) = map (\<lambda>x. (ce_key (snd x), ce_value (snd x))) (xs @ ys)"
    by (rule lru_hit)
  have "setElemValue a v ((a, e) # xs @ ys) = (a, e\<lparr>ce_value := v\<rparr>) # xs @ ys"
    using h(3) setElemValue_notin [of "xs @ ys" a v] by (simp add: setElemValue_def)
  then have p: "lruPut k v c = c\<lparr>lru_list := (a, e\<lparr>ce_value := v\<rparr>) # xs @ ys\<rparr>"
    using cap a h(4) by (simp add: lruPut_def)
  have "1 + int (length (xs @ ys)) \<le> lru_capacity c" using inv by (simp add: lru_inv_def h(1))
  then have len: "length (xs @ ys) < nat (lru_capacity c)" by linarith
  show "lru_inv (lruPut k v c)" unfolding p by (rule lru_inv_front [OF inv h(1)]) simp
  show "lru_abs (lruPut k v c) = specPut (nat (lru_capacity c)) k v (lru_abs c)"
    using len h(2,6) by (simp add: p lru_abs_def specPut_def)
qed

definition lruEvict :: "lruCache \<Rightarrow> lruCache" where
  "lruEvict c =
     (if lru_capacity c \<le> int (length (lru_list c)) \<and> lru_list c \<noteq> []
      then c\<lparr>lru_cache := (lru_cache c)(ce_key (snd (last (lru_list c))) := None),
             lru_list := butlast (lru_list c)\<rparr>
      else c)"

lemma lruEvict_inv:
  assumes inv: "lru_inv c" and cap: "lru_capacity c \<noteq> 0"
  shows "lru_inv (lruEvict c)" "int (length (lru_list (lruEvict c))) < lru_capacity c"
    "lru_abs (lruEvict c) = take (nat (lru_capacity c) - 1) (lru_abs c)"
    "lru_capacity (lruEvict c) = lru_capacity c" "lru_fresh (lruEvict c) = lru_fresh c"
proof -
  have len: "int (length (lru_list c)) \<le> lru_capacity c" using inv by (simp add: lru_inv_def)
  show "lru_inv (lruEvict c)"
  proof (cases "lru_list c" rule: rev_cases)
    case Nil
    then show ?thesis using inv by (simp add: lruEvict_def)
  next
    case (snoc ys x)
    obtain a e where x: "x = (a, e)" by (cases x)
    have "index_of ys (ce_key e) = None"
      using inv by (simp add: lru_inv_def snoc x index_of_None)
    then have "(index_of (ys @ [(a, e)]))(ce_key e := None) = index_of ys"
      by (auto simp: index_of_append fun_eq_iff map_add_def split: option.splits)
    with inv show ?thesis by (auto simp: lruEvict_def lru_inv_def snoc x)
  qed
  show "int (length (lru_list (lruEvict c))) < lru_capacity c"
    using len cap by (cases "lru_list c" rule: rev_cases) (auto simp: lruEvict_def)
  show "lru_abs (lruEvict c) = take (nat (lru_capacity c) - 1) (lru_abs c)"
    using len cap
    by (cases "lru_list c" rule: rev_cases) (auto simp: lruEvict_def lru_abs_def)
qed (simp_all add: lruEvict_def)

lemma lruPut_miss:
  assumes inv: "lru_inv c" and a: "lru_cache c k = None" and cap: "lru_capacity c \<noteq> 0"
  shows "lru_inv (lruPut k v c)" "lru_abs (lruPut k v c) = specPut (nat (lru_capacity c)) k v (lru_abs c)"
proof -
  let ?c = "lruEvict c"
  note ev = lruEvict_inv [OF inv cap]
  have p: "lruPut k v c = ?c\<lparr>lru_list := (lru_fresh ?c, \<lparr>ce_key = k, ce_value = v\<rparr>) # lru_list ?c,
      lru_cache := (lru_cache ?c)(k \<mapsto> lru_fresh ?c), lru_fresh := lru_fresh ?c + 1\<rparr>"
    using cap a by (simp add: lruPut_def lruEvict_def Let_def)
  have k: "k \<notin> fst ` set (lru_abs c)" using a lru_miss [OF inv] by simp
  have k': "k \<notin> fst ` set (lru_abs ?c)" using k ev(3) by (auto dest: in_set_takeD)
  have fr: "\<forall>x\<in>set (lru_list ?c). fst x < lru_fresh ?c" using ev(1) by (simp add: lru_inv_def)
  then have nf: "lru_fresh ?c \<notin> fst ` set (lru_list ?c)" by auto
  have "\<forall>x\<in>set (lru_list ?c). fst x < lru_fresh ?c + 1" using fr by auto
  with nf show "lru_inv (lruPut k v c)"
    using ev(1,2,4) k' by (simp add: p lru_inv_def lru_abs_def image_image)
  have f: "filter (\<lambda>x. fst x \<noteq> k) (lru_abs c) = lru_abs c" using k by (intro filter_True) force
  have "lru_capacity c \<ge> 0" using inv by (simp add: lru_inv_def)
  with cap have "nat (lru_capacity c) \<noteq> 0" by linarith
  then obtain m where m: "nat (lru_capacity c) = Suc m" by (meson not0_implies_Suc)
  have "lru_abs (lruPut k v c) = (k, v) # lru_abs ?c" by (simp add: p lru_abs_def)
  then show "lru_abs (lruPut k v c) = specPut (nat (lru_capacity c)) k v (lru_abs c)"
    by (simp only: ev(3) m specPut_def f) simp
qed

lemma lruPut_refines:
  assumes "lru_inv c"
  shows "lru_inv (lruPut k v c)" "lru_abs (lruPut k v c) = specPut (nat (lru_capacity c)) k v (lru_abs c)"
    "lru_capacity (lruPut k v c) = lru_capacity c"
proof -
  have "lru_inv (lruPut k v c) \<and> lru_abs (lruPut k v c) = specPut (nat (lru_capacity c)) k v (lru_abs c)"
  proof (cases "lru_capacity c = 0")
    case True
    then show ?thesis using assms by (simp add: lruPut_def specPut_def lru_abs_def lru_zero)
  next
    case False
    then show ?thesis using lruPut_hit [OF assms] lruPut_miss [OF assms] by (cases "lru_cache c k") auto
  qed
  then show "lru_inv (lruPut k v c)" "lru_abs (lruPut k v c) = specPut (nat (lru_capacity c)) k v (lru_abs c)"
    by simp_all
  show "lru_capacity (lruPut k v c) = lru_capacity c"
    by (simp add: lruPut_def Let_def split: option.splits)
qed

text \<open>
  (C17) The cache is a bounded most-recently-used list: \<open>Put\<close> and \<open>Get\<close>, with their hash map and
  linked list, keep the invariant and act on the list of entries as their specification does; \<open>Get\<close>
  returns exactly the entry of the key.
\<close>

theorem lru_refines_spec:
  assumes "lru_inv c"
  shows "lru_inv (lruPut k v c) \<and> lru_abs (lruPut k v c) = specPut (nat (lru_capacity c)) k v (lru_abs c) \<and>
    (case lruGet k c of (c', w, found) \<Rightarrow>
       lru_inv c' \<and> lru_abs c' = specTouch k (lru_abs c) \<and>
       map_of (lru_abs c) k = (if found then Some w else None))"
proof -
  obtain c' w f where g: "lruGet k c = (c', w, f)" by (cases "lruGet k c")
  show ?thesis using lruPut_refines [OF assms] lruGet_refines [OF assms g] by (simp add: g)
qed

theorem lru_refines_spec_witness:
  "lru_abs (lruPut ''b'' 2 (lruPut ''a'' 1 (newLRUCache 1))) = [(''b'', 2)]"
proof -
  let ?c = "lruPut ''a'' 1 (newLRUCache 1)"
  have "lru_inv ?c" using lruPut_refines(1) [OF lru_inv_new] by blast
  from lru_refines_spec [OF this, of "''b''" 2]
  have "lru_abs (lruPut ''b'' 2 ?c) = specPut (nat (lru_capacity ?c)) ''b'' 2 (lru_abs ?c)" by blast
  also have "\<dots> = [(''b'', 2)]" by code_simp
  finally show ?thesis .
qed

text \<open>
  (C18) Ids survive their text form: an encoded id is eight bytes, decodes to itself whatever follows
  it, and two ids have the same encoding only when they are equal.
\<close>

theorem EncodeId_DecodeId:
  "length (EncodeId i) = 8 \<and> DecodeId (EncodeId i @ rest) = i \<and> (EncodeId i = EncodeId j \<longleftrightarrow> i = j)"
  using Uint64_PutUint64 [of i "[]"] by (simp add: EncodeId_def DecodeId_def toBytes_def)

end
