(* ===== verification/IdAlloc.thy ===== *)
theory IdAlloc
  imports IdTable
begin

text \<open>
  The allocator of \<^verbatim>\<open>idtable/idtable.go\<close> over its store: what the ids it hands out promise. The
  central fact is that every state a crash can leave behind, that is the durable map under every
  prefix of the pending batch, gives each stored id to one key and keeps the stored counter above
  every stored id (\<open>owned\<close>). It is kept by \<open>GetId\<close>, \<open>Lookup\<close> and \<open>Commit\<close>, with no
  hypothesis on the cache size.
\<close>

subsection \<open>Crash-consistent stores\<close>

definition owned :: "char \<Rightarrow> char \<Rightarrow> (64 word \<Rightarrow> bytes) \<Rightarrow> int \<Rightarrow> (bytes \<rightharpoonup> bytes) \<Rightarrow> bool" where
  "owned kn kk ow N m \<longleftrightarrow>
     (\<exists>nx. (m [kn] = Some (itoa nx) \<or> m [kn] = None \<and> nx = 1) \<and> 0 < nx \<and> nx \<le> N \<and>
        (\<forall>k v. m (kk # k) = Some v \<longrightarrow>
           (\<exists>w. v = PutUint64 w \<and> 0 < sint w \<and> sint w < nx \<and> ow w = k)))"

definition idtable_store :: "char \<Rightarrow> char \<Rightarrow> (bytes \<rightharpoonup> bytes) \<Rightarrow> bool" where
  "idtable_store kn kk m \<longleftrightarrow> (\<exists>ow. owned kn kk ow (2 ^ 63 - 1) m)"

definition alloc_inv :: "(64 word \<Rightarrow> bytes) \<Rightarrow> Allocator \<times> PebbleDB \<Rightarrow> bool" where
  "alloc_inv ow s \<longleftrightarrow>
     (case s of (a, d) \<Rightarrow>
        kv_ok d \<and> al_attached a \<and> al_running a \<and> al_keyTypeNextId a \<noteq> al_keyTypeKey a \<and>
        lru_inv (al_lru a) \<and> 0 < sint (al_nextId a) \<and>
        (\<exists>b. al_batch a = Some b \<and>
           batch_safe (owned (al_keyTypeNextId a) (al_keyTypeKey a) ow (sint (al_nextId a))) (d, b)) \<and>
        (\<forall>(k, w)\<in>set (lru_abs (al_lru a)). 0 < sint w \<and> sint w < sint (al_nextId a) \<and> ow w = k))"

lemma owned_mono: "owned kn kk ow N m \<Longrightarrow> N \<le> N' \<Longrightarrow> owned kn kk ow N' m"
  unfolding owned_def by fastforce

lemma owned_owner:
  assumes "owned kn kk ow N m" "\<And>w. 0 < sint w \<Longrightarrow> sint w < N \<Longrightarrow> ow' w = ow w"
  shows "owned kn kk ow' N m"
proof -
  from assms(1) obtain nx where nx: "m [kn] = Some (itoa nx) \<or> m [kn] = None \<and> nx = 1" "0 < nx" "nx \<le> N"
    "\<forall>k v. m (kk # k) = Some v \<longrightarrow> (\<exists>w. v = PutUint64 w \<and> 0 < sint w \<and> sint w < nx \<and> ow w = k)"
    unfolding owned_def by blast
  then show ?thesis using assms(2) unfolding owned_def by (intro exI [of _ nx]) fastforce
qed

lemma owned_entry:
  "owned kn kk ow N m \<Longrightarrow> m (kk # k) = Some (PutUint64 w) \<Longrightarrow> 0 < sint w \<and> sint w < N \<and> ow w = k"
  unfolding owned_def by fastforce

lemma owned_counter:
  assumes "owned kn kk ow N m" "kn \<noteq> kk" "0 < N" "N \<le> N'"
  shows "owned kn kk ow N' (applyOpM (BSet [kn] (itoa N')) m)"
  using assms unfolding owned_def by (intro exI [of _ N']) fastforce

lemma owned_mapping:
  assumes "owned kn kk ow N m" "m [kn] = Some (itoa N)" "kn \<noteq> kk" "0 < sint w" "sint w < N" "ow w = k"
  shows "owned kn kk ow N (applyOpM (BSet (kk # k) (PutUint64 w)) m)"
proof -
  from assms(1,2) have "\<forall>k v. m (kk # k) = Some v \<longrightarrow>
      (\<exists>w. v = PutUint64 w \<and> 0 < sint w \<and> sint w < N \<and> ow w = k)" "0 < N"
    unfolding owned_def by auto
  then show ?thesis using assms(2-6) unfolding owned_def by (intro exI [of _ N]) auto
qed

lemma batch_safe_mono: "batch_safe P s \<Longrightarrow> (\<And>m. P m \<Longrightarrow> Q m) \<Longrightarrow> batch_safe Q s"
  by (simp add: batch_safe_def)

lemma sint_next: "sint (w :: 64 word) + 1 < 2 ^ 63 \<Longrightarrow> sint (w + 1) = sint w + 1"
  using sint_greater_eq [of w] by (simp add: sint_word_ariths signed_take_bit_int_eq_self)

subsection \<open>\<open>GetId\<close>\<close>

lemma allocBatchPut_Some:
  "al_batch a = Some b \<Longrightarrow>
   allocBatchPut k v (a, d) =
     (case fst (batchAppend (BSet k v) (d, b)) of (d', b') \<Rightarrow> (a\<lparr>al_batch := Some b'\<rparr>, d'))"
  by (simp add: allocBatchPut_def batchPut_def)

text \<open>The two writes of an allocation, the counter first: each of the two leaves a consistent state,
  so a crash between them only wastes the id.\<close>

lemma alloc_two_puts:
  assumes ok: "kv_ok d" and kn: "kn \<noteq> kk" and pos: "0 < sint w" and big: "sint w + 1 < 2 ^ 63"
    and safe: "batch_safe (owned kn kk ow (sint w)) (d, b)"
    and s1: "s1 = fst (batchAppend (BSet [kn] (itoa (sint (w + 1)))) (d, b))"
    and s2: "s2 = fst (batchAppend (BSet (kk # k) (PutUint64 w)) s1)"
  shows "kv_ok (fst s2)" "batch_safe (owned kn kk (ow(w := k)) (sint (w + 1))) s2"
    "batch_view s2 = (batch_view (d, b))([kn] \<mapsto> itoa (sint (w + 1)), kk # k \<mapsto> PutUint64 w)"
proof -
  let ?ow = "ow(w := k)"
  have nx: "sint (w + 1) = sint w + 1" using big by (rule sint_next)
  have ow: "owned kn kk ?ow (sint w) m" if "owned kn kk ow (sint w) m" for m
    using that by (rule owned_owner) auto
  have safe': "batch_safe (owned kn kk ?ow (sint (w + 1))) (d, b)"
    using safe by (rule batch_safe_mono) (auto intro: owned_mono [OF ow] simp: nx)
  have ok1: "kv_ok (fst s1)" "batch_view s1 = (batch_view (d, b))([kn] \<mapsto> itoa (sint (w + 1)))"
    using batchAppend_ok [of "(d, b)"] ok by (simp_all add: s1)
  have "owned kn kk ?ow (sint (w + 1)) (applyOpM (BSet [kn] (itoa (sint (w + 1)))) (batch_view (d, b)))"
    by (rule owned_counter [OF ow [OF batch_safe_view [OF safe]] kn pos]) (simp add: nx)
  then have safe1: "batch_safe (owned kn kk ?ow (sint (w + 1))) s1"
    unfolding s1 using ok safe' by (intro batch_safe_append) auto
  then have "owned kn kk ?ow (sint (w + 1)) (applyOpM (BSet (kk # k) (PutUint64 w)) (batch_view s1))"
    by (rule owned_mapping [OF batch_safe_view]) (use ok1 kn pos nx in simp_all)
  with safe1 ok1 show "batch_safe (owned kn kk ?ow (sint (w + 1))) s2"
    unfolding s2 by (intro batch_safe_append) auto
  show "kv_ok (fst s2)" using batchAppend_ok [of s1] ok1 by (simp add: s2)
  show "batch_view s2 = (batch_view (d, b))([kn] \<mapsto> itoa (sint (w + 1)), kk # k \<mapsto> PutUint64 w)"
    using batchAppend_ok [of s1] ok1 by (simp add: s2)
qed

lemma specPut_subset: "set (specPut n k v xs) \<subseteq> insert (k, v) (set xs)"
  unfolding specPut_def by (auto dest: in_set_takeD)

lemma specTouch_subset: "set (specTouch k xs) \<subseteq> set xs"
  unfolding specTouch_def by (auto split: option.splits dest: map_of_SomeD)

lemma lruPut_subset: "lru_inv c \<Longrightarrow> set (lru_abs (lruPut k v c)) \<subseteq> insert (k, v) (set (lru_abs c))"
  using specPut_subset by (simp add: lruPut_refines)

text \<open>What the three branches of \<open>GetId\<close> do under the invariant: cached, stored, fresh.\<close>

lemma alloc_inv_cached:
  assumes "alloc_inv ow (a, d)" "lruGet key (al_lru a) = (lru, v, True)"
  shows "alloc_inv ow (a\<lparr>al_lru := lru\<rparr>, d)" "0 < sint v \<and> sint v < sint (al_nextId a) \<and> ow v = key"
proof -
  have l: "lru_inv (al_lru a)" using assms(1) by (simp add: alloc_inv_def)
  note g = lruGet_refines [OF l assms(2)]
  have "(key, v) \<in> set (lru_abs (al_lru a))" using g(4) by (simp add: map_of_SomeD)
  then show "0 < sint v \<and> sint v < sint (al_nextId a) \<and> ow v = key"
    using assms(1) by (auto simp: alloc_inv_def)
  show "alloc_inv ow (a\<lparr>al_lru := lru\<rparr>, d)"
    using assms(1) g(1,2) specTouch_subset [of key "lru_abs (al_lru a)"] by (auto simp: alloc_inv_def)
qed

lemma alloc_inv_stored:
  assumes inv: "alloc_inv ow (a, d)" and v: "kv_map d (encodeIdKey a key) = Some v"
  obtains w where "v = PutUint64 w" "0 < sint w" "sint w < sint (al_nextId a)" "ow w = key"
    "alloc_inv ow (a\<lparr>al_lru := lruPut key w (al_lru a)\<rparr>, d)"
proof -
  obtain b where "batch_safe (owned (al_keyTypeNextId a) (al_keyTypeKey a) ow (sint (al_nextId a))) (d, b)"
    using inv by (auto simp: alloc_inv_def)
  then have "owned (al_keyTypeNextId a) (al_keyTypeKey a) ow (sint (al_nextId a)) (kv_map d)"
    using batch_safe_durable by fastforce
  then obtain w where w: "v = PutUint64 w" "0 < sint w" "sint w < sint (al_nextId a)" "ow w = key"
    using v unfolding owned_def encodeIdKey_def by fastforce
  have l: "lru_inv (al_lru a)" using inv by (simp add: alloc_inv_def)
  have "alloc_inv ow (a\<lparr>al_lru := lruPut key w (al_lru a)\<rparr>, d)"
    using inv w lruPut_subset [OF l, of key w] lruPut_refines(1) [OF l] by (auto simp: alloc_inv_def)
  with w that show ?thesis by blast
qed

lemma allocFresh_eq:
  assumes "al_batch a = Some b"
  shows "allocFresh key (a, d) =
    (case fst (batchAppend (BSet (encodeIdKey a key) (toBytes (al_nextId a)))
            (fst (batchAppend (BSet (encodeIncrIdKey a) (itoa (sint (al_nextId a + 1)))) (d, b)))) of
       (d', b') \<Rightarrow> (a\<lparr>al_lru := lruPut key (al_nextId a) (al_lru a), al_nextId := al_nextId a + 1,
                         al_batch := Some b'\<rparr>, d'))"
  using assms by (simp add: allocFresh_def allocBatchPut_Some int64_of_sint split: prod.splits)

lemma alloc_inv_fresh:
  assumes inv: "alloc_inv ow (a, d)" and big: "sint (al_nextId a) + 1 < 2 ^ 63" and b: "al_batch a = Some b"
  obtains d' b' where
    "allocFresh key (a, d) =
       (a\<lparr>al_lru := lruPut key (al_nextId a) (al_lru a), al_nextId := al_nextId a + 1, al_batch := Some b'\<rparr>, d')"
    "alloc_inv (ow(al_nextId a := key)) (allocFresh key (a, d))"
    "batch_view (d', b') = (batch_view (d, b))(encodeIncrIdKey a \<mapsto> itoa (sint (al_nextId a + 1)),
        encodeIdKey a key \<mapsto> PutUint64 (al_nextId a))"
    "fst (batchAppend (BSet (encodeIdKey a key) (toBytes (al_nextId a)))
       (fst (batchAppend (BSet (encodeIncrIdKey a) (itoa (sint (al_nextId a + 1)))) (d, b)))) = (d', b')"
proof -
  have i: "kv_ok d" "al_keyTypeNextId a \<noteq> al_keyTypeKey a" "0 < sint (al_nextId a)" "lru_inv (al_lru a)"
    "batch_safe (owned (al_keyTypeNextId a) (al_keyTypeKey a) ow (sint (al_nextId a))) (d, b)"
    "al_attached a" "al_running a"
    using inv b by (auto simp: alloc_inv_def)
  obtain d' b' where s2: "fst (batchAppend (BSet (encodeIdKey a key) (toBytes (al_nextId a)))
      (fst (batchAppend (BSet (encodeIncrIdKey a) (itoa (sint (al_nextId a + 1)))) (d, b)))) = (d', b')"
    by fastforce
  note t = alloc_two_puts [OF i(1-3) big i(5) refl, of _ key, OF s2 [symmetric, unfolded
        encodeIdKey_def encodeIncrIdKey_def toBytes_def]]
  have f: "allocFresh key (a, d) =
      (a\<lparr>al_lru := lruPut key (al_nextId a) (al_lru a), al_nextId := al_nextId a + 1, al_batch := Some b'\<rparr>, d')"
    by (simp add: allocFresh_eq [OF b] s2)
  have nx: "sint (al_nextId a + 1) = sint (al_nextId a) + 1" using big by (rule sint_next)
  have c: "0 < sint w \<and> sint w < sint (al_nextId a) + 1 \<and> (ow(al_nextId a := key)) w = k"
    if "(k, w) \<in> set (lru_abs (lruPut key (al_nextId a) (al_lru a)))" for k w
  proof -
    from that lruPut_subset [OF i(4), of key "al_nextId a"]
    have "(k, w) = (key, al_nextId a) \<or> (k, w) \<in> set (lru_abs (al_lru a))" by blast
    then show ?thesis
    proof
      assume "(k, w) \<in> set (lru_abs (al_lru a))"
      then have "0 < sint w" "sint w < sint (al_nextId a)" "ow w = k" using inv by (auto simp: alloc_inv_def)
      then show ?thesis by auto
    qed (use i(3) in auto)
  qed
  then have "\<forall>(k, w)\<in>set (lru_abs (lruPut key (al_nextId a) (al_lru a))).
      0 < sint w \<and> sint w < sint (al_nextId a) + 1 \<and> (ow(al_nextId a := key)) w = k" by blast
  then have "alloc_inv (ow(al_nextId a := key)) (allocFresh key (a, d))"
    using t(1,2) i lruPut_refines(1) [OF i(4)] by (simp add: alloc_inv_def f nx del: fun_upd_apply)
  with f t(3) s2 show ?thesis by (intro that) (simp_all add: encodeIdKey_def encodeIncrIdKey_def)
qed

lemma Uint64_Put: "Uint64 (PutUint64 w) = Some w"
  using Uint64_PutUint64 [of w "[]"] by simp

lemma GetId_eq:
  assumes "alloc_inv ow (a, d)"
  shows "GetId key (a, d) =
    (case lruGet key (al_lru a) of (lru, v, found) \<Rightarrow>
       if found then Some ((a\<lparr>al_lru := lru\<rparr>, d), Inr (PutUint64 v))
       else
         (case kv_map d (encodeIdKey a key) of
            Some v \<Rightarrow> (case Uint64 v of
                None \<Rightarrow> None
              | Some w \<Rightarrow> Some ((a\<lparr>al_lru := lruPut key w (al_lru a)\<rparr>, d), Inr v))
          | None \<Rightarrow> Some (allocFresh key (a, d), Inr (PutUint64 (al_nextId a)))))"
proof -
  have "al_attached a" "kv_ok d" using assms by (auto simp: alloc_inv_def)
  then show ?thesis
    by (cases "lruGet key (al_lru a)") (simp add: GetId_def kv_ok_not_closed kvGet_ok fromBytes_def toBytes_def split: option.split)
qed

text \<open>One \<open>GetId\<close>: it returns an id below the counter that belongs to the key, and no id changes its
  owner.\<close>

lemma GetId_step:
  assumes inv: "alloc_inv ow (a, d)" and big: "sint (al_nextId a) + 1 < 2 ^ 63"
  obtains a' d' w ow' where "GetId key (a, d) = Some ((a', d'), Inr (PutUint64 w))" "alloc_inv ow' (a', d')"
    "ow' w = key" "0 < sint w" "sint w < sint (al_nextId a')"
    "\<forall>v. 0 < sint v \<longrightarrow> sint v < sint (al_nextId a) \<longrightarrow> ow' v = ow v"
    "sint (al_nextId a) \<le> sint (al_nextId a')" "sint (al_nextId a') \<le> sint (al_nextId a) + 1"
    "al_keyTypeNextId a' = al_keyTypeNextId a" "al_keyTypeKey a' = al_keyTypeKey a"
proof -
  obtain lru v f where g: "lruGet key (al_lru a) = (lru, v, f)" by (cases "lruGet key (al_lru a)")
  obtain b where b: "al_batch a = Some b" using inv by (auto simp: alloc_inv_def)
  show ?thesis
  proof (cases f)
    case True
    with alloc_inv_cached [OF inv] g show ?thesis
      by (intro that [of "a\<lparr>al_lru := lru\<rparr>" d v ow]) (simp_all add: GetId_eq [OF inv])
  next
    case False
    show ?thesis
    proof (cases "kv_map d (encodeIdKey a key)")
      case (Some x)
      obtain w where w: "x = PutUint64 w" "0 < sint w" "sint w < sint (al_nextId a)" "ow w = key"
        "alloc_inv ow (a\<lparr>al_lru := lruPut key w (al_lru a)\<rparr>, d)"
        using alloc_inv_stored [OF inv Some] by blast
      then show ?thesis using False g Some
        by (intro that [of "a\<lparr>al_lru := lruPut key w (al_lru a)\<rparr>" d w ow])
          (simp_all add: GetId_eq [OF inv] Uint64_Put)
    next
      case None
      obtain d' b' where fr: "allocFresh key (a, d) =
          (a\<lparr>al_lru := lruPut key (al_nextId a) (al_lru a), al_nextId := al_nextId a + 1, al_batch := Some b'\<rparr>, d')"
        "alloc_inv (ow(al_nextId a := key)) (allocFresh key (a, d))"
        by (rule alloc_inv_fresh [OF inv big b])
      have "0 < sint (al_nextId a)" using inv by (simp add: alloc_inv_def)
      with fr None False g sint_next [OF big] show ?thesis
        by (intro that [of "a\<lparr>al_lru := lruPut key (al_nextId a) (al_lru a), al_nextId := al_nextId a + 1,
            al_batch := Some b'\<rparr>" d' "al_nextId a" "ow(al_nextId a := key)"]) (auto simp: GetId_eq [OF inv])
    qed
  qed
qed

lemma Lookup_step:
  assumes inv: "alloc_inv ow (a, d)"
  obtains lru r where "Lookup key (a, d) = Some ((a\<lparr>al_lru := lru\<rparr>, d), Inr r)" "alloc_inv ow (a\<lparr>al_lru := lru\<rparr>, d)"
    "snd r \<Longrightarrow> ow (fst r) = key"
    "\<not> snd r \<Longrightarrow> lru = al_lru a \<and> kv_map d (encodeIdKey a key) = None"
proof -
  have ok: "al_attached a" "kv_ok d" using inv by (auto simp: alloc_inv_def)
  obtain lru v f where g: "lruGet key (al_lru a) = (lru, v, f)" by (cases "lruGet key (al_lru a)")
  note L = Lookup_def kv_ok_not_closed [OF ok(2)] kvGet_ok [OF ok(2)] g ok fromBytes_def
  show ?thesis
  proof (cases f)
    case True
    then have "lruGet key (al_lru a) = (lru, v, True)" using g by simp
    from alloc_inv_cached [OF inv this] True show ?thesis
      by (intro that [of lru "(v, True)"]) (simp_all add: L)
  next
    case False
    show ?thesis
    proof (cases "kv_map d (encodeIdKey a key)")
      case (Some x)
      obtain w where w: "x = PutUint64 w" "0 < sint w" "sint w < sint (al_nextId a)" "ow w = key"
        "alloc_inv ow (a\<lparr>al_lru := lruPut key w (al_lru a)\<rparr>, d)"
        using alloc_inv_stored [OF inv Some] by blast
      then show ?thesis using False Some
        by (intro that [of "lruPut key w (al_lru a)" "(w, True)"]) (simp_all add: L Uint64_Put)
    next
      case None
      then show ?thesis using False inv by (intro that [of "al_lru a" "(0, False)"]) (simp_all add: L)
    qed
  qed
qed

lemma tryCommit_step:
  assumes inv: "alloc_inv ow (a, d)" and b: "al_batch a = Some b"
  obtains b' d' where "tryCommit (a, d) = ((a\<lparr>al_batch := Some b'\<rparr>, d'), None)"
    "alloc_inv ow (a\<lparr>al_batch := Some b'\<rparr>, d')" "batch_view (d', b') = batch_view (d, b)"
    "if 0 < batchCount b then pb_ops b' = [] else b' = b \<and> d' = d"
proof (cases "0 < batchCount b")
  case False
  with inv b show ?thesis
    by (intro that [of b d]) (auto simp: tryCommit_def alloc_inv_def kv_ok_not_closed)
next
  case True
  have ok: "kv_ok d" "al_attached a" using inv by (auto simp: alloc_inv_def)
  obtain d' b1 where c: "batchCommit (d, b) = ((d', b1), None)"
    using batchCommit_ok(1) [OF ok(1), of b] by (metis prod.collapse)
  have "kv_ok d'" "kv_map d' = batch_view (d, b)" using batchCommit_ok [OF ok(1), of b] c by auto
  then show ?thesis using inv ok True b c batch_safe_commit [OF ok(1), of _ b]
    by (intro that [of "batchReset b1" d'])
      (auto simp: tryCommit_def kv_ok_not_closed alloc_inv_def batch_view_def batchReset_def)
qed

subsection \<open>Runs\<close>

text \<open>A run of allocator calls; it records every id that \<open>GetId\<close> returned, with its key.\<close>

datatype alloc_op = AGet bytes | ALookup bytes | ACommit

fun allocRun :: "alloc_op list \<Rightarrow> Allocator \<times> PebbleDB \<Rightarrow> ((Allocator \<times> PebbleDB) \<times> (bytes \<times> bytes) list) option" where
  "allocRun [] s = Some (s, [])"
| "allocRun (AGet k # ops) s =
     (case GetId k s of
        None \<Rightarrow> None
      | Some (s', Inl _) \<Rightarrow> allocRun ops s'
      | Some (s', Inr i) \<Rightarrow> map_option (\<lambda>(t, rs). (t, (k, i) # rs)) (allocRun ops s'))"
| "allocRun (ALookup k # ops) s = (case Lookup k s of None \<Rightarrow> None | Some (s', _) \<Rightarrow> allocRun ops s')"
| "allocRun (ACommit # ops) s = allocRun ops (fst (allocCommit s))"

lemma allocCommit_ok: "alloc_inv ow (a, d) \<Longrightarrow> allocCommit (a, d) = tryCommit (a, d)"
  by (simp add: allocCommit_def alloc_inv_def kv_ok_not_closed)

text \<open>A run never fails under the invariant; every id it returned is owned by its key.\<close>

lemma allocRun_inv:
  assumes "alloc_inv ow (a, d)" "sint (al_nextId a) + int (length ops) < 2 ^ 63"
  shows "\<exists>a' d' rs ow'. allocRun ops (a, d) = Some ((a', d'), rs) \<and> alloc_inv ow' (a', d') \<and>
    (\<forall>(k, i)\<in>set rs. \<exists>w. i = PutUint64 w \<and> ow' w = k \<and> 0 < sint w \<and> sint w < sint (al_nextId a')) \<and>
    (\<forall>v. 0 < sint v \<longrightarrow> sint v < sint (al_nextId a) \<longrightarrow> ow' v = ow v) \<and>
    sint (al_nextId a) \<le> sint (al_nextId a') \<and>
    al_keyTypeNextId a' = al_keyTypeNextId a \<and> al_keyTypeKey a' = al_keyTypeKey a"
  using assms
proof (induction ops arbitrary: a d ow)
  case Nil
  then show ?case by auto
next
  case (Cons op ops)
  show ?case
  proof (cases op)
    case (AGet k)
    have "sint (al_nextId a) + 1 < 2 ^ 63" using Cons.prems(2) by simp
    then obtain a1 d1 w ow1 where g: "GetId k (a, d) = Some ((a1, d1), Inr (PutUint64 w))"
      "alloc_inv ow1 (a1, d1)" "ow1 w = k" "0 < sint w" "sint w < sint (al_nextId a1)"
      "\<forall>v. 0 < sint v \<longrightarrow> sint v < sint (al_nextId a) \<longrightarrow> ow1 v = ow v"
      "sint (al_nextId a) \<le> sint (al_nextId a1)" "sint (al_nextId a1) \<le> sint (al_nextId a) + 1"
      "al_keyTypeNextId a1 = al_keyTypeNextId a" "al_keyTypeKey a1 = al_keyTypeKey a"
      by (rule GetId_step [OF Cons.prems(1)])
    have "sint (al_nextId a1) + int (length ops) < 2 ^ 63" using Cons.prems(2) g(8) by simp
    from Cons.IH [OF g(2) this] obtain a' d' rs ow' where r: "allocRun ops (a1, d1) = Some ((a', d'), rs)"
      "alloc_inv ow' (a', d')"
      "\<forall>(k, i)\<in>set rs. \<exists>w. i = PutUint64 w \<and> ow' w = k \<and> 0 < sint w \<and> sint w < sint (al_nextId a')"
      "\<forall>v. 0 < sint v \<longrightarrow> sint v < sint (al_nextId a1) \<longrightarrow> ow' v = ow1 v" "sint (al_nextId a1) \<le> sint (al_nextId a')"
      "al_keyTypeNextId a' = al_keyTypeNextId a1" "al_keyTypeKey a' = al_keyTypeKey a1"
      by blast
    have "ow' w = k" "sint w < sint (al_nextId a')" using g(3-5) r(4,5) by auto
    with g r show ?thesis by (intro exI [of _ a'] exI [of _ d'] exI [of _ "(k, PutUint64 w) # rs"] exI [of _ ow'])
        (auto simp: AGet)
  next
    case (ALookup k)
    obtain lru r where l: "Lookup k (a, d) = Some ((a\<lparr>al_lru := lru\<rparr>, d), Inr r)"
      "alloc_inv ow (a\<lparr>al_lru := lru\<rparr>, d)" by (rule Lookup_step [OF Cons.prems(1)])
    from Cons.IH [OF l(2)] Cons.prems(2) l(1) show ?thesis by (simp add: ALookup)
  next
    case ACommit
    obtain b where b: "al_batch a = Some b" using Cons.prems(1) by (auto simp: alloc_inv_def)
    obtain b' d' where c: "tryCommit (a, d) = ((a\<lparr>al_batch := Some b'\<rparr>, d'), None)"
      "alloc_inv ow (a\<lparr>al_batch := Some b'\<rparr>, d')" by (rule tryCommit_step [OF Cons.prems(1) b])
    from Cons.IH [OF c(2)] Cons.prems(2) c(1) show ?thesis
      by (simp add: ACommit allocCommit_ok [OF Cons.prems(1)])
  qed
qed

lemma lru_abs_new: "lru_abs (newLRUCache n) = []"
  by (simp add: lru_abs_def newLRUCache_def)

lemma lru_capacity_new: "lru_capacity (newLRUCache n) = (if n \<le> 0 then 0 else n)"
  by (simp add: newLRUCache_def)

lemma newAllocator_ok:
  assumes ok: "kv_ok d" and opts: "o' = idOptionsDefaults opts" and ne: "io_KeyTypeNextId o' \<noteq> io_KeyTypeKey o'"
    and st: "owned (io_KeyTypeNextId o') (io_KeyTypeKey o') ow (2 ^ 63 - 1) (kv_map d)"
  obtains a where "newAllocator d opts = Inr a" "alloc_inv ow (a, d)"
    "al_keyTypeNextId a = io_KeyTypeNextId o'" "al_keyTypeKey a = io_KeyTypeKey o'"
    "al_lru a = newLRUCache (io_LRUCacheSize o')"
    "al_batch a = Some \<lparr>pb_ops = [], pb_maxBatchSize = io_BatchSize o', pb_count = 0\<rparr>"
    "\<forall>k w. kv_map d (io_KeyTypeKey o' # k) = Some (PutUint64 w) \<longrightarrow> sint w < sint (al_nextId a)"
proof -
  from st obtain nx where nx: "kv_map d [io_KeyTypeNextId o'] = Some (itoa nx) \<or>
      kv_map d [io_KeyTypeNextId o'] = None \<and> nx = 1" "0 < nx" "nx \<le> 2 ^ 63 - 1"
    "\<forall>k v. kv_map d (io_KeyTypeKey o' # k) = Some v \<longrightarrow>
       (\<exists>w. v = PutUint64 w \<and> 0 < sint w \<and> sint w < nx \<and> ow w = k)"
    unfolding owned_def by blast
  have p: "parseId (itoa nx) = nx" using nx(2,3) by (simp add: parseId_def atoi_itoa is_int64_def)
  have sn: "sint (word_of_int nx :: 64 word) = nx" using nx(2,3) by (simp add: sint_uint signed_take_bit_int_eq_self uint_word_of_int take_bit_int_eq_self)
  let ?a = "\<lparr>al_attached = True, al_batch = Some \<lparr>pb_ops = [], pb_maxBatchSize = io_BatchSize o', pb_count = 0\<rparr>,
    al_lru = newLRUCache (io_LRUCacheSize o'), al_nextId = word_of_int nx,
    al_keyTypeNextId = io_KeyTypeNextId o', al_keyTypeKey = io_KeyTypeKey o', al_running = True\<rparr>"
  have n: "newAllocator d opts = Inr ?a"
    using nx(1,2) by (auto simp: newAllocator_def opts [symmetric] kvGet_ok [OF ok] p NewBatch_ok [OF ok] Let_def)
  have "owned (io_KeyTypeNextId o') (io_KeyTypeKey o') ow nx (kv_map d)"
    unfolding owned_def using nx by (intro exI [of _ nx]) auto
  then have "alloc_inv ow (?a, d)"
    using ok ne nx(2) by (simp add: alloc_inv_def sn lru_inv_new lru_abs_new batch_safe_def)
  with n show ?thesis by (rule that) (use nx(4) sn in fastforce)+
qed

subsection \<open>Stability while the cache holds every key\<close>

definition cached :: "Allocator \<Rightarrow> (bytes \<rightharpoonup> 64 word)" where
  "cached a = map_of (lru_abs (al_lru a))"

text \<open>The cache has room for the keys of \<open>S\<close> and holds no other; what it says is what the store will
  say after a commit; only cached keys have pending writes.\<close>

definition alloc_stable :: "bytes set \<Rightarrow> Allocator \<times> PebbleDB \<Rightarrow> bool" where
  "alloc_stable S s \<longleftrightarrow>
     (case s of (a, d) \<Rightarrow>
        finite S \<and> dom (cached a) \<subseteq> S \<and> int (card S) \<le> lru_capacity (al_lru a) \<and>
        (\<exists>b. al_batch a = Some b \<and>
           (\<forall>k w. cached a k = Some w \<longrightarrow> batch_view (d, b) (encodeIdKey a k) = Some (PutUint64 w)) \<and>
           (\<forall>k. cached a k = None \<longrightarrow> batch_view (d, b) (encodeIdKey a k) = kv_map d (encodeIdKey a k))))"

lemma lru_distinct: "lru_inv c \<Longrightarrow> distinct (map fst (lru_abs c))"
  by (simp add: lru_inv_def lru_abs_def comp_def)

lemma lruGet_same:
  assumes "lru_inv c" "lruGet k c = (c', v, True)"
  shows "map_of (lru_abs c') = map_of (lru_abs c)" "map_of (lru_abs c) k = Some v"
proof -
  note g = lruGet_refines [OF assms]
  show "map_of (lru_abs c) k = Some v" using g(4) by simp
  then show "map_of (lru_abs c') = map_of (lru_abs c)"
    using map_of_filter_key [of "\<lambda>x. x \<noteq> k" "lru_abs c"]
    by (auto simp: g(2) specTouch_def fun_eq_iff case_prod_unfold)
qed

lemma lruPut_grow:
  assumes inv: "lru_inv c" and k: "map_of (lru_abs c) k = None" and len: "int (length (lru_abs c)) < lru_capacity c"
  shows "map_of (lru_abs (lruPut k v c)) = (map_of (lru_abs c))(k \<mapsto> v)"
proof -
  have "k \<notin> fst ` set (lru_abs c)" using k by (simp add: map_of_eq_None_iff)
  then have "filter (\<lambda>x. fst x \<noteq> k) (lru_abs c) = lru_abs c" by (intro filter_True) force
  moreover have "length (lru_abs c) < nat (lru_capacity c)" using len by linarith
  ultimately show ?thesis using inv by (simp add: lruPut_refines specPut_def)
qed

lemma stable_room:
  assumes "alloc_stable S (a, d)" "lru_inv (al_lru a)" "k \<in> S" "cached a k = None"
  shows "int (length (lru_abs (al_lru a))) < lru_capacity (al_lru a)"
proof -
  have "length (lru_abs (al_lru a)) = card (dom (cached a))"
    using distinct_card [OF lru_distinct [OF assms(2)]] by (simp add: cached_def dom_map_of_conv_image_fst)
  also have "\<dots> < card S"
    using assms by (intro psubset_card_mono) (auto simp: alloc_stable_def)
  finally show ?thesis using assms(1) by (simp add: alloc_stable_def)
qed

lemma append_pending:
  assumes "kv_ok (fst s)" "\<forall>x. x \<notin> K \<longrightarrow> batch_view s x = kv_map (fst s) x" "k \<in> K"
  shows "\<forall>x. x \<notin> K \<longrightarrow> batch_view (fst (batchAppend (BSet k v) s)) x = kv_map (fst (fst (batchAppend (BSet k v) s))) x"
proof -
  have "\<forall>x\<in>- K. batch_view (fst (batchAppend (BSet k v) s)) x = kv_map (fst (fst (batchAppend (BSet k v) s))) x"
    using assms by (intro batchAppend_agree) auto
  then show ?thesis by simp
qed

lemma encodeIdKey_upd [simp]:
  "encodeIdKey (a\<lparr>al_lru := l\<rparr>) = encodeIdKey a" "encodeIdKey (a\<lparr>al_batch := b\<rparr>) = encodeIdKey a"
  "encodeIdKey (a\<lparr>al_nextId := n\<rparr>) = encodeIdKey a"
  by (simp_all add: encodeIdKey_def fun_eq_iff)

lemma encodeIdKey_inj [simp]: "encodeIdKey a k = encodeIdKey a k' \<longleftrightarrow> k = k'"
  by (simp add: encodeIdKey_def)

text \<open>The cache picks up a stored id, the batch unchanged.\<close>

lemma stable_fill:
  assumes inv: "alloc_inv ow (a, d)" and st: "alloc_stable S (a, d)" and k: "k \<in> S" "cached a k = None"
    and x: "kv_map d (encodeIdKey a k) = Some (PutUint64 w)" and a': "a' = a\<lparr>al_lru := lruPut k w (al_lru a)\<rparr>"
  shows "alloc_stable S (a', d)" "cached a' = (cached a)(k \<mapsto> w)"
proof -
  have l: "lru_inv (al_lru a)" using inv by (simp add: alloc_inv_def)
  show c: "cached a' = (cached a)(k \<mapsto> w)"
    using lruPut_grow [OF l _ stable_room [OF st l k]] k(2) by (simp add: cached_def a')
  have cap: "lru_capacity (al_lru a') = lru_capacity (al_lru a)" using lruPut_refines(3) [OF l] by (simp add: a')
  from st obtain b where b: "finite S" "dom (cached a) \<subseteq> S" "int (card S) \<le> lru_capacity (al_lru a)"
    "al_batch a = Some b"
    "\<forall>k w. cached a k = Some w \<longrightarrow> batch_view (d, b) (encodeIdKey a k) = Some (PutUint64 w)"
    "\<forall>k. cached a k = None \<longrightarrow> batch_view (d, b) (encodeIdKey a k) = kv_map d (encodeIdKey a k)"
    by (auto simp: alloc_stable_def)
  have "batch_view (d, b) (encodeIdKey a k) = Some (PutUint64 w)" using b(6) k(2) x by simp
  moreover have "encodeIdKey a' = encodeIdKey a" "al_batch a' = al_batch a" by (simp_all add: a')
  ultimately show "alloc_stable S (a', d)" using b k by (auto simp: alloc_stable_def c cap split: if_splits)
qed

lemma stable_touch:
  assumes inv: "alloc_inv ow (a, d)" and st: "alloc_stable S (a, d)" and g: "lruGet k (al_lru a) = (lru, v, True)"
  shows "alloc_stable S (a\<lparr>al_lru := lru\<rparr>, d)" "cached (a\<lparr>al_lru := lru\<rparr>) = cached a" "cached a k = Some v"
proof -
  have l: "lru_inv (al_lru a)" using inv by (simp add: alloc_inv_def)
  show c: "cached (a\<lparr>al_lru := lru\<rparr>) = cached a" "cached a k = Some v"
    using lruGet_same [OF l g] by (simp_all add: cached_def)
  show "alloc_stable S (a\<lparr>al_lru := lru\<rparr>, d)"
    using st lruGet_refines(3) [OF l g] by (simp add: alloc_stable_def c)
qed

lemma stable_fresh:
  assumes inv: "alloc_inv ow (a, d)" and st: "alloc_stable S (a, d)" and k: "k \<in> S" "cached a k = None"
    and big: "sint (al_nextId a) + 1 < 2 ^ 63" and f: "allocFresh k (a, d) = (a', d')"
  shows "alloc_stable S (a', d')" "cached a' = (cached a)(k \<mapsto> al_nextId a)"
proof -
  have i: "lru_inv (al_lru a)" "kv_ok d" "al_keyTypeNextId a \<noteq> al_keyTypeKey a" using inv by (auto simp: alloc_inv_def)
  from st obtain b where b: "finite S" "dom (cached a) \<subseteq> S" "int (card S) \<le> lru_capacity (al_lru a)"
    "al_batch a = Some b"
    "\<forall>k w. cached a k = Some w \<longrightarrow> batch_view (d, b) (encodeIdKey a k) = Some (PutUint64 w)"
    "\<forall>k. cached a k = None \<longrightarrow> batch_view (d, b) (encodeIdKey a k) = kv_map d (encodeIdKey a k)"
    by (auto simp: alloc_stable_def)
  obtain d1 b1 where fr: "allocFresh k (a, d) = (a\<lparr>al_lru := lruPut k (al_nextId a) (al_lru a),
      al_nextId := al_nextId a + 1, al_batch := Some b1\<rparr>, d1)"
    "batch_view (d1, b1) = (batch_view (d, b))(encodeIncrIdKey a \<mapsto> itoa (sint (al_nextId a + 1)),
        encodeIdKey a k \<mapsto> PutUint64 (al_nextId a))"
    "fst (batchAppend (BSet (encodeIdKey a k) (toBytes (al_nextId a)))
       (fst (batchAppend (BSet (encodeIncrIdKey a) (itoa (sint (al_nextId a + 1)))) (d, b)))) = (d1, b1)"
    by (rule alloc_inv_fresh [OF inv big b(4)])
  show c: "cached a' = (cached a)(k \<mapsto> al_nextId a)"
    using lruPut_grow [OF i(1) _ stable_room [OF st i(1) k]] k(2) f fr(1) by (auto simp: cached_def)
  have cap: "lru_capacity (al_lru a') = lru_capacity (al_lru a)"
    using lruPut_refines(3) [OF i(1)] f fr(1) by auto
  let ?K = "- encodeIdKey a ` {k'. cached a' k' = None}"
  let ?s1 = "fst (batchAppend (BSet (encodeIncrIdKey a) (itoa (sint (al_nextId a + 1)))) (d, b))"
  have h: "encodeIncrIdKey a \<noteq> encodeIdKey a x" for x using i(3) by (simp add: encodeIncrIdKey_def encodeIdKey_def)
  have "\<forall>x. x \<notin> ?K \<longrightarrow> batch_view (d, b) x = kv_map (fst (d, b)) x" using b(6) by (auto simp: c)
  then have "\<forall>x. x \<notin> ?K \<longrightarrow> batch_view ?s1 x = kv_map (fst ?s1) x"
    using i(2) h by (intro append_pending) auto
  then have "\<forall>x. x \<notin> ?K \<longrightarrow> batch_view (d1, b1) x = kv_map (fst (d1, b1)) x"
    using append_pending [of ?s1 ?K "encodeIdKey a k" "toBytes (al_nextId a)"] batchAppend_ok(2) [of "(d, b)"] i(2)
    unfolding fr(3) by (simp add: c image_iff)
  then have "\<forall>k. cached a' k = None \<longrightarrow> batch_view (d1, b1) (encodeIdKey a k) = kv_map d1 (encodeIdKey a k)" by simp
  moreover have "\<forall>k' w. cached a' k' = Some w \<longrightarrow> batch_view (d1, b1) (encodeIdKey a k') = Some (PutUint64 w)"
    using b(5) h h [symmetric] by (auto simp: c fr(2))
  moreover have "encodeIdKey a' = encodeIdKey a" "al_batch a' = Some b1" "d' = d1" using f fr(1) by auto
  moreover have "dom (cached a') \<subseteq> S" using b(2) k(1) by (auto simp: c)
  ultimately show "alloc_stable S (a', d')" using b(1,3) by (simp add: alloc_stable_def cap del: fun_upd_apply)
qed

lemma GetId_stable:
  assumes inv: "alloc_inv ow (a, d)" and st: "alloc_stable S (a, d)" and k: "k \<in> S"
    and big: "sint (al_nextId a) + 1 < 2 ^ 63" and g: "GetId k (a, d) = Some ((a', d'), Inr (PutUint64 w))"
  shows "alloc_stable S (a', d') \<and> cached a' k = Some w \<and> cached a \<subseteq>\<^sub>m cached a'"
proof -
  obtain lru v f where r: "lruGet k (al_lru a) = (lru, v, f)" by (cases "lruGet k (al_lru a)")
  have l: "lru_inv (al_lru a)" using inv by (simp add: alloc_inv_def)
  show ?thesis
  proof (cases f)
    case True
    with r have "lruGet k (al_lru a) = (lru, v, True)" by simp
    from stable_touch [OF inv st this] this g show ?thesis by (auto simp: GetId_eq [OF inv])
  next
    case False
    have n: "cached a k = None" using lruGet_refines(4) [OF l r] False by (simp add: cached_def)
    show ?thesis
    proof (cases "kv_map d (encodeIdKey a k)")
      case (Some x)
      with g r False have e: "x = PutUint64 w" "a' = a\<lparr>al_lru := lruPut k w (al_lru a)\<rparr>" "d' = d"
        by (auto simp: GetId_eq [OF inv] Uint64_Put split: option.splits)
      from stable_fill [OF inv st k n Some [unfolded e(1)] e(2)] n e(3) show ?thesis by (auto simp: map_le_def)
    next
      case None
      with g r False have e: "allocFresh k (a, d) = (a', d')" "w = al_nextId a" by (auto simp: GetId_eq [OF inv])
      from stable_fresh [OF inv st k n big e(1)] n e(2) show ?thesis by (auto simp: map_le_def)
    qed
  qed
qed

lemma Lookup_stable:
  assumes inv: "alloc_inv ow (a, d)" and st: "alloc_stable S (a, d)" and k: "k \<in> S"
    and g: "Lookup k (a, d) = Some ((a', d'), r)"
  shows "alloc_stable S (a', d') \<and> cached a \<subseteq>\<^sub>m cached a'"
proof -
  have ok: "al_attached a" "kv_ok d" "lru_inv (al_lru a)" using inv by (auto simp: alloc_inv_def)
  obtain lru v f where r: "lruGet k (al_lru a) = (lru, v, f)" by (cases "lruGet k (al_lru a)")
  note L = Lookup_def kv_ok_not_closed [OF ok(2)] kvGet_ok [OF ok(2)] ok fromBytes_def
  show ?thesis
  proof (cases f)
    case True
    with r have "lruGet k (al_lru a) = (lru, v, True)" by simp
    from stable_touch [OF inv st this] this g show ?thesis by (auto simp: L)
  next
    case False
    have n: "cached a k = None" using lruGet_refines(4) [OF ok(3) r] False by (simp add: cached_def)
    show ?thesis
    proof (cases "kv_map d (encodeIdKey a k)")
      case (Some x)
      then obtain w where w: "x = PutUint64 w" using alloc_inv_stored [OF inv Some] by blast
      with g r False Some have e: "a' = a\<lparr>al_lru := lruPut k w (al_lru a)\<rparr>" "d' = d" by (auto simp: L Uint64_Put)
      from stable_fill [OF inv st k n Some [unfolded w] e(1)] n e(2) show ?thesis by (auto simp: map_le_def)
    next
      case None
      with g r False st show ?thesis by (auto simp: L)
    qed
  qed
qed

lemma tryCommit_stable:
  assumes inv: "alloc_inv ow (a, d)" and st: "alloc_stable S (a, d)" and c: "tryCommit (a, d) = ((a', d'), e)"
  shows "alloc_stable S (a', d') \<and> cached a' = cached a"
proof -
  obtain b where b: "al_batch a = Some b" using inv by (auto simp: alloc_inv_def)
  obtain b1 d1 where t: "tryCommit (a, d) = ((a\<lparr>al_batch := Some b1\<rparr>, d1), None)"
    "batch_view (d1, b1) = batch_view (d, b)"
    "if 0 < batchCount b then pb_ops b1 = [] else b1 = b \<and> d1 = d"
    by (rule tryCommit_step [OF inv b])
  have e: "a' = a\<lparr>al_batch := Some b1\<rparr>" "d' = d1" using t(1) c by auto
  have ca: "cached a' = cached a" by (simp add: e cached_def)
  have e': "encodeIdKey a' = encodeIdKey a" "al_batch a' = Some b1" "al_lru a' = al_lru a" by (simp_all add: e)
  have "\<forall>k. cached a k = None \<longrightarrow> batch_view (d1, b1) (encodeIdKey a k) = kv_map d1 (encodeIdKey a k)"
    using t(3) st b by (auto simp: batch_view_def alloc_stable_def split: if_splits)
  with st b show ?thesis by (simp add: alloc_stable_def ca e' e(2) t(2))
qed

fun op_key :: "alloc_op \<Rightarrow> bytes set" where
  "op_key (AGet k) = {k}"
| "op_key (ALookup k) = {k}"
| "op_key ACommit = {}"

lemma finite_op_key [simp]: "finite (op_key op)"
  by (cases op) simp_all

lemma allocRun_stable:
  assumes "alloc_inv ow (a, d)" "alloc_stable S (a, d)" "sint (al_nextId a) + int (length ops) < 2 ^ 63"
    "(\<Union>op\<in>set ops. op_key op) \<subseteq> S" "allocRun ops (a, d) = Some ((a', d'), rs)"
  shows "alloc_stable S (a', d') \<and> cached a \<subseteq>\<^sub>m cached a' \<and>
    (\<forall>(k, i)\<in>set rs. \<exists>w. i = PutUint64 w \<and> cached a' k = Some w)"
  using assms
proof (induction ops arbitrary: a d ow rs)
  case Nil
  then show ?case by simp
next
  case (Cons op ops)
  show ?case
  proof (cases op)
    case (AGet k)
    have big: "sint (al_nextId a) + 1 < 2 ^ 63" using Cons.prems(3) by simp
    then obtain a1 d1 w ow1 where g: "GetId k (a, d) = Some ((a1, d1), Inr (PutUint64 w))"
      "alloc_inv ow1 (a1, d1)" "ow1 w = k" "0 < sint w" "sint w < sint (al_nextId a1)"
      "\<forall>v. 0 < sint v \<longrightarrow> sint v < sint (al_nextId a) \<longrightarrow> ow1 v = ow v"
      "sint (al_nextId a) \<le> sint (al_nextId a1)" "sint (al_nextId a1) \<le> sint (al_nextId a) + 1"
      by (rule GetId_step [OF Cons.prems(1)])
    have s: "alloc_stable S (a1, d1)" "cached a1 k = Some w" "cached a \<subseteq>\<^sub>m cached a1"
      using GetId_stable [OF Cons.prems(1,2) _ big g(1)] Cons.prems(4) by (auto simp: AGet)
    obtain rs' where r: "allocRun ops (a1, d1) = Some ((a', d'), rs')" "rs = (k, PutUint64 w) # rs'"
      using Cons.prems(5) g(1) by (auto simp: AGet)
    have "sint (al_nextId a1) + int (length ops) < 2 ^ 63" using Cons.prems(3) g(8) by simp
    from Cons.IH [OF g(2) s(1) this _ r(1)] Cons.prems(4) s(2,3) show ?thesis
      by (auto simp: r(2) map_le_def dom_def)
  next
    case (ALookup k)
    obtain lru r where l: "Lookup k (a, d) = Some ((a\<lparr>al_lru := lru\<rparr>, d), Inr r)"
      "alloc_inv ow (a\<lparr>al_lru := lru\<rparr>, d)" by (rule Lookup_step [OF Cons.prems(1)])
    have s: "alloc_stable S (a\<lparr>al_lru := lru\<rparr>, d)" "cached a \<subseteq>\<^sub>m cached (a\<lparr>al_lru := lru\<rparr>)"
      using Lookup_stable [OF Cons.prems(1,2) _ l(1)] Cons.prems(4) by (auto simp: ALookup)
    from Cons.IH [OF l(2) s(1)] Cons.prems(3-5) l(1) s(2) show ?thesis
      by (auto simp: ALookup intro: map_le_trans)
  next
    case ACommit
    obtain b where b: "al_batch a = Some b" using Cons.prems(1) by (auto simp: alloc_inv_def)
    obtain b' d1 where c: "tryCommit (a, d) = ((a\<lparr>al_batch := Some b'\<rparr>, d1), None)"
      "alloc_inv ow (a\<lparr>al_batch := Some b'\<rparr>, d1)" by (rule tryCommit_step [OF Cons.prems(1) b])
    note s = tryCommit_stable [OF Cons.prems(1,2) c(1)]
    from Cons.IH [OF c(2) conjunct1 [OF s]] Cons.prems(3-5) c(1) s show ?thesis
      by (simp add: ACommit allocCommit_ok [OF Cons.prems(1)])
  qed
qed

subsection \<open>Closing and reopening\<close>

definition batch_counted :: "PebbleBatch \<Rightarrow> bool" where
  "batch_counted b \<longleftrightarrow> 0 < pb_maxBatchSize b \<and> 0 \<le> pb_count b \<and> (pb_ops b = [] \<or> 0 < pb_count b)"

definition alloc_counted :: "Allocator \<times> PebbleDB \<Rightarrow> bool" where
  "alloc_counted s \<longleftrightarrow> (\<forall>b. al_batch (fst s) = Some b \<longrightarrow> batch_counted b)"

lemma batchCommit_counted:
  "batch_counted b \<Longrightarrow> batchCommit (d, b) = ((d', b'), e) \<Longrightarrow> batch_counted (batchReset b')"
  by (auto simp: batchCommit_def batch_counted_def batchReset_def split: pebble_handle.splits option.splits prod.splits if_splits)

lemma batchAppend_counted:
  assumes "kv_ok (fst s)" "batch_counted (snd s)"
  shows "batch_counted (snd (fst (batchAppend op s)))"
proof -
  obtain d b where s: "s = (d, b)" by (cases s)
  let ?b = "b\<lparr>pb_ops := pb_ops b @ [op], pb_count := pb_count b + 1\<rparr>"
  have ok: "kv_ok d" using assms(1) by (simp add: s)
  obtain d' b' where c: "batchCommit (d, ?b) = ((d', b'), None)"
    using batchCommit_ok(1) [OF ok, of ?b] by (metis prod.collapse)
  have bc: "batch_counted ?b" "0 < pb_maxBatchSize b" using assms(2) by (simp_all add: s batch_counted_def)
  have "batchAppend op s =
      (if pb_maxBatchSize b \<le> pb_count b + 1 then ((d', batchReset b'), None) else ((d, ?b), None))"
    using ok bc(2) c by (auto elim!: kv_okE simp: s batchAppend_def increaseAndTryCommit_def Let_def)
  then show ?thesis using bc(1) batchCommit_counted [OF bc(1) c] by simp
qed

lemma allocFresh_counted:
  assumes "alloc_inv ow (a, d)" "alloc_counted (a, d)"
  shows "alloc_counted (allocFresh k (a, d))"
proof -
  have ok: "kv_ok d" using assms(1) by (auto simp: alloc_inv_def)
  obtain b where b: "al_batch a = Some b" using assms(1) by (auto simp: alloc_inv_def)
  let ?s1 = "fst (batchAppend (BSet (encodeIncrIdKey a) (itoa (sint (al_nextId a + 1)))) (d, b))"
  have "kv_ok (fst ?s1)" "batch_counted (snd ?s1)"
    using batchAppend_ok(2) [of "(d, b)"] batchAppend_counted [of "(d, b)"] ok assms(2) b
    by (auto simp: alloc_counted_def)
  then have "batch_counted (snd (fst (batchAppend (BSet (encodeIdKey a k) (toBytes (al_nextId a))) ?s1)))"
    by (rule batchAppend_counted)
  then show ?thesis by (auto simp: allocFresh_eq [OF b] alloc_counted_def split: prod.split)
qed

lemma GetId_counted:
  assumes "alloc_inv ow (a, d)" "alloc_counted (a, d)" "GetId k (a, d) = Some (s', r)"
  shows "alloc_counted s'"
  using assms(3) allocFresh_counted [OF assms(1,2)] assms(2) unfolding GetId_eq [OF assms(1)]
  by (auto simp: alloc_counted_def split: prod.splits if_splits option.splits)

lemma tryCommit_counted:
  assumes "kv_ok d" "alloc_counted (a, d)"
  shows "alloc_counted (fst (tryCommit (a, d)))"
proof (cases "al_batch a")
  case (Some b)
  obtain d' b' where c: "batchCommit (d, b) = ((d', b'), None)"
    using batchCommit_ok(1) [OF assms(1), of b] by (metis prod.collapse)
  with Some assms(2) batchCommit_counted [OF _ c] show ?thesis
    by (auto simp: tryCommit_def alloc_counted_def)
qed (simp add: tryCommit_def alloc_counted_def)

lemma allocRun_counted:
  assumes "alloc_inv ow (a, d)" "alloc_counted (a, d)" "sint (al_nextId a) + int (length ops) < 2 ^ 63"
    "allocRun ops (a, d) = Some (s', rs)"
  shows "alloc_counted s'"
  using assms
proof (induction ops arbitrary: a d ow rs)
  case (Cons op ops)
  show ?case
  proof (cases op)
    case (AGet k)
    have "sint (al_nextId a) + 1 < 2 ^ 63" using Cons.prems(3) by simp
    then obtain a1 d1 w ow1 where g: "GetId k (a, d) = Some ((a1, d1), Inr (PutUint64 w))"
      "alloc_inv ow1 (a1, d1)" "ow1 w = k" "0 < sint w" "sint w < sint (al_nextId a1)"
      "\<forall>v. 0 < sint v \<longrightarrow> sint v < sint (al_nextId a) \<longrightarrow> ow1 v = ow v"
      "sint (al_nextId a) \<le> sint (al_nextId a1)" "sint (al_nextId a1) \<le> sint (al_nextId a) + 1"
      by (rule GetId_step [OF Cons.prems(1)])
    have "sint (al_nextId a1) + int (length ops) < 2 ^ 63" using Cons.prems(3) g(8) by simp
    from Cons.IH [OF g(2) GetId_counted [OF Cons.prems(1,2) g(1)] this] Cons.prems(4) g(1) show ?thesis
      by (auto simp: AGet)
  next
    case (ALookup k)
    obtain lru r where l: "Lookup k (a, d) = Some ((a\<lparr>al_lru := lru\<rparr>, d), Inr r)"
      "alloc_inv ow (a\<lparr>al_lru := lru\<rparr>, d)" by (rule Lookup_step [OF Cons.prems(1)])
    have "alloc_counted (a\<lparr>al_lru := lru\<rparr>, d)" using Cons.prems(2) by (simp add: alloc_counted_def)
    from Cons.IH [OF l(2) this] Cons.prems(3,4) l(1) show ?thesis by (simp add: ALookup)
  next
    case ACommit
    obtain b where b: "al_batch a = Some b" using Cons.prems(1) by (auto simp: alloc_inv_def)
    obtain b' d1 where c: "tryCommit (a, d) = ((a\<lparr>al_batch := Some b'\<rparr>, d1), None)"
      "alloc_inv ow (a\<lparr>al_batch := Some b'\<rparr>, d1)" by (rule tryCommit_step [OF Cons.prems(1) b])
    have "kv_ok d" using Cons.prems(1) by (simp add: alloc_inv_def)
    from Cons.IH [OF c(2)] tryCommit_counted [OF this Cons.prems(2)] Cons.prems(3,4) c(1) show ?thesis
      by (simp add: ACommit allocCommit_ok [OF Cons.prems(1)])
  qed
qed simp

text \<open>Closing commits the whole batch.\<close>

lemma allocClose_ok:
  assumes inv: "alloc_inv ow (a, d)" and c: "alloc_counted (a, d)" and b: "al_batch a = Some b"
  shows "kv_ok (snd (allocClose (a, d)))" "kv_map (snd (allocClose (a, d))) = batch_view (d, b)"
proof -
  have ok: "kv_ok d" "al_attached a" "al_running a" using inv by (auto simp: alloc_inv_def)
  have "0 < batchCount b \<or> pb_ops b = []" using c b by (auto simp: alloc_counted_def batch_counted_def batchCount_def)
  moreover obtain d' b1 where k: "batchCommit (d, b) = ((d', b1), None)"
    using batchCommit_ok(1) [OF ok(1), of b] by (metis prod.collapse)
  moreover have "kv_ok d'" "kv_map d' = batch_view (d, b)" using batchCommit_ok [OF ok(1), of b] k by auto
  ultimately show "kv_ok (snd (allocClose (a, d)))" "kv_map (snd (allocClose (a, d))) = batch_view (d, b)"
    using ok b by (auto simp: allocClose_def tryCommit_def kv_ok_not_closed batch_view_def)
qed

lemma opened_run:
  assumes "kv_ok d" "o' = idOptionsDefaults opts" "io_KeyTypeNextId o' \<noteq> io_KeyTypeKey o'"
    "idtable_store (io_KeyTypeNextId o') (io_KeyTypeKey o') (kv_map d)"
    "newAllocator d opts = Inr a" "sint (al_nextId a) + int (length ops) < 2 ^ 63"
    "allocRun ops (a, d) = Some ((a', d'), rs)"
  obtains ow ow' where "alloc_inv ow (a, d)" "alloc_inv ow' (a', d')"
    "al_keyTypeNextId a' = io_KeyTypeNextId o'" "al_keyTypeKey a' = io_KeyTypeKey o'"
    "al_keyTypeNextId a = io_KeyTypeNextId o'" "al_keyTypeKey a = io_KeyTypeKey o'"
    "al_lru a = newLRUCache (io_LRUCacheSize o')"
    "al_batch a = Some \<lparr>pb_ops = [], pb_maxBatchSize = io_BatchSize o', pb_count = 0\<rparr>"
proof -
  obtain ow where ow: "owned (io_KeyTypeNextId o') (io_KeyTypeKey o') ow (2 ^ 63 - 1) (kv_map d)"
    using assms(4) by (auto simp: idtable_store_def)
  obtain a1 where a1: "newAllocator d opts = Inr a1" "alloc_inv ow (a1, d)"
    "al_keyTypeNextId a1 = io_KeyTypeNextId o'" "al_keyTypeKey a1 = io_KeyTypeKey o'"
    "al_lru a1 = newLRUCache (io_LRUCacheSize o')"
    "al_batch a1 = Some \<lparr>pb_ops = [], pb_maxBatchSize = io_BatchSize o', pb_count = 0\<rparr>"
    by (rule newAllocator_ok [OF assms(1-3) ow])
  have [simp]: "a1 = a" using a1(1) assms(5) by simp
  have "alloc_inv ow (a, d)" using a1(2) by simp
  from allocRun_inv [OF this assms(6)] assms(7) obtain ow' where "alloc_inv ow' (a', d')"
    "al_keyTypeNextId a' = al_keyTypeNextId a" "al_keyTypeKey a' = al_keyTypeKey a"
    by auto
  with a1(2-) show ?thesis by (intro that) simp_all
qed

lemma GetId_reopened:
  assumes "alloc_inv ow (a, d)" "al_lru a = newLRUCache n" "kv_map d (encodeIdKey a k) = Some v"
  shows "\<exists>s'. GetId k (a, d) = Some (s', Inr v)"
proof -
  obtain w where w: "v = PutUint64 w" using alloc_inv_stored [OF assms(1,3)] by blast
  obtain lru x f where g: "lruGet k (al_lru a) = (lru, x, f)" by (cases "lruGet k (al_lru a)")
  have "\<not> f" using lruGet_refines(4) [OF _ g] lru_inv_new by (auto simp: assms(2) lru_abs_new split: if_splits)
  with assms(3) g w show ?thesis by (simp add: GetId_eq [OF assms(1)] Uint64_Put)
qed

lemma owned_store:
  assumes "alloc_inv ow (a, d)" "al_batch a = Some b"
  shows "batch_safe (idtable_store (al_keyTypeNextId a) (al_keyTypeKey a)) (d, b)"
proof -
  have N: "sint (al_nextId a) \<le> 2 ^ 63 - 1" using sint_lt [of "al_nextId a"] by simp
  have "batch_safe (owned (al_keyTypeNextId a) (al_keyTypeKey a) ow (sint (al_nextId a))) (d, b)"
    using assms by (simp add: alloc_inv_def)
  then show ?thesis
    by (rule batch_safe_mono) (auto simp only: idtable_store_def intro: owned_mono [OF _ N])
qed

subsection \<open>Properties\<close>

definition exampleOpts :: idOptions where
  "exampleOpts = \<lparr>io_KeyTypeNextId = CHR 0x01, io_KeyTypeKey = CHR 0x02, io_LRUCacheSize = 2, io_BatchSize = 3\<rparr>"

lemma empty_store: "idtable_store kn kk Map.empty"
  by (simp add: idtable_store_def owned_def)


definition exampleAlloc :: Allocator where
  "exampleAlloc =
     \<lparr>al_attached = True, al_batch = Some \<lparr>pb_ops = [], pb_maxBatchSize = 3, pb_count = 0\<rparr>,
      al_lru = newLRUCache 2, al_nextId = 1, al_keyTypeNextId = CHR 0x01, al_keyTypeKey = CHR 0x02,
      al_running = True\<rparr>"

lemma example_opened:
  "newAllocator freshDB exampleOpts = Inr exampleAlloc" "idOptionsDefaults exampleOpts = exampleOpts"
  by (simp_all add: newAllocator_def idOptionsDefaults_def exampleOpts_def kvGet_ok NewBatch_ok exampleAlloc_def)

lemma example_runs:
  "map_option snd (allocRun [AGet ''a'', AGet ''b'', ACommit, AGet ''a''] (exampleAlloc, freshDB)) =
     Some [(''a'', PutUint64 1), (''b'', PutUint64 2), (''a'', PutUint64 1)]"
  by code_simp

text \<open>The hypothesis on the cache size in (C10) is needed: with room for one key and the batch still
  pending, a key evicted from the cache is not found in the store and gets a second id.\<close>

lemma evicted_pending_key_gets_second_id:
  "map_option snd (allocRun [AGet ''a'', AGet ''b'', AGet ''a'']
      (exampleAlloc\<lparr>al_lru := newLRUCache 1, al_batch := Some \<lparr>pb_ops = [], pb_maxBatchSize = 100, pb_count = 0\<rparr>\<rparr>, freshDB)) =
     Some [(''a'', PutUint64 1), (''b'', PutUint64 2), (''a'', PutUint64 3)]"
  by code_simp


text \<open>
  (C9) Every crash is survivable: the durable store after any run of calls, whatever is still pending
  in the batch, is consistent again, so that the allocator reopens on it with its counter above every
  stored id.
\<close>

theorem alloc_crash_consistent:
  assumes "kv_ok d" "o' = idOptionsDefaults opts" "io_KeyTypeNextId o' \<noteq> io_KeyTypeKey o'"
    "idtable_store (io_KeyTypeNextId o') (io_KeyTypeKey o') (kv_map d)"
    "newAllocator d opts = Inr a" "sint (al_nextId a) + int (length ops) < 2 ^ 63"
    "allocRun ops (a, d) = Some ((a', d'), rs)"
  shows "idtable_store (io_KeyTypeNextId o') (io_KeyTypeKey o') (kv_map d') \<and>
    (\<exists>a2. newAllocator d' opts = Inr a2 \<and>
       (\<forall>k w. kv_map d' (io_KeyTypeKey o' # k) = Some (PutUint64 w) \<longrightarrow> sint w < sint (al_nextId a2)))"
proof -
  obtain ow ow' where i: "alloc_inv ow (a, d)" "alloc_inv ow' (a', d')"
    "al_keyTypeNextId a' = io_KeyTypeNextId o'" "al_keyTypeKey a' = io_KeyTypeKey o'"
    by (rule opened_run [OF assms])
  obtain b where b: "al_batch a' = Some b" using i(2) by (auto simp: alloc_inv_def)
  have st: "idtable_store (io_KeyTypeNextId o') (io_KeyTypeKey o') (kv_map d')"
    using batch_safe_durable [OF owned_store [OF i(2) b]] i(3,4) by simp
  then obtain ow2 where "owned (io_KeyTypeNextId o') (io_KeyTypeKey o') ow2 (2 ^ 63 - 1) (kv_map d')"
    by (auto simp: idtable_store_def)
  moreover have "kv_ok d'" using i(2) by (simp add: alloc_inv_def)
  ultimately show ?thesis using st newAllocator_ok [OF _ assms(2,3)] by metis
qed

theorem alloc_crash_consistent_witness:
  "\<exists>a' d' rs. allocRun [AGet ''a'', AGet ''b'', ACommit, AGet ''a''] (exampleAlloc, freshDB) = Some ((a', d'), rs) \<and>
     idtable_store (CHR 0x01) (CHR 0x02) (kv_map d')"
proof -
  obtain a' d' rs where
    r: "allocRun [AGet ''a'', AGet ''b'', ACommit, AGet ''a''] (exampleAlloc, freshDB) = Some ((a', d'), rs)"
    using example_runs by (auto simp: map_option_eq_Some)
  have "idtable_store (CHR 0x01) (CHR 0x02) (kv_map d')"
    using alloc_crash_consistent [of freshDB exampleOpts exampleOpts exampleAlloc _ a' d' rs, OF _ _ _ _ _ _ r]
    by (simp add: example_opened empty_store) (simp add: exampleOpts_def exampleAlloc_def)
  with r show ?thesis by blast
qed

text \<open>
  (C19) Ids are stable and durable while the cache is large enough for the keys in use: the same key gets
  the same id every time, and after \<open>Close\<close> a new allocator on the store returns that id again.
\<close>

theorem alloc_ids_stable_across_reopen:
  assumes "kv_ok d" "o' = idOptionsDefaults opts" "io_KeyTypeNextId o' \<noteq> io_KeyTypeKey o'"
    "idtable_store (io_KeyTypeNextId o') (io_KeyTypeKey o') (kv_map d)"
    "newAllocator d opts = Inr a" "sint (al_nextId a) + int (length ops) < 2 ^ 63"
    "allocRun ops (a, d) = Some ((a', d'), rs)"
    "int (card (\<Union>op\<in>set ops. op_key op)) \<le> io_LRUCacheSize o'" "0 < io_BatchSize o'"
    "(k, i) \<in> set rs"
  shows "(\<forall>i'. (k, i') \<in> set rs \<longrightarrow> i' = i) \<and>
    (\<exists>a2 s2. newAllocator (snd (allocClose (a', d'))) opts = Inr a2 \<and>
       GetId k (a2, snd (allocClose (a', d'))) = Some (s2, Inr i))"
proof -
  let ?S = "\<Union>op\<in>set ops. op_key op"
  obtain ow ow' where i: "alloc_inv ow (a, d)" "alloc_inv ow' (a', d')"
    "al_keyTypeNextId a' = io_KeyTypeNextId o'" "al_keyTypeKey a' = io_KeyTypeKey o'"
    "al_keyTypeNextId a = io_KeyTypeNextId o'" "al_keyTypeKey a = io_KeyTypeKey o'"
    "al_lru a = newLRUCache (io_LRUCacheSize o')"
    "al_batch a = Some \<lparr>pb_ops = [], pb_maxBatchSize = io_BatchSize o', pb_count = 0\<rparr>"
    by (rule opened_run [OF assms(1-7)])
  have fin: "finite ?S" by (simp add: finite_op_key)
  have "int (card ?S) \<le> lru_capacity (newLRUCache (io_LRUCacheSize o'))"
    using assms(8) unfolding lru_capacity_new by (cases "io_LRUCacheSize o' \<le> 0") (simp_all only: if_True if_False)
  then have "alloc_stable ?S (a, d)" "alloc_counted (a, d)"
    using assms(9) fin i(7,8)
    by (auto simp: alloc_stable_def cached_def lru_abs_new alloc_counted_def batch_counted_def simp del: card_eq_0_iff)
  note st = allocRun_stable [OF i(1) this(1) assms(6) order_refl assms(7)]
    and ct = allocRun_counted [OF i(1) this(2) assms(6,7)]
  obtain w where w: "i = PutUint64 w" "cached a' k = Some w" using st assms(10) by blast
  have "\<forall>i'. (k, i') \<in> set rs \<longrightarrow> i' = i" using st w by fastforce
  moreover obtain b where b: "al_batch a' = Some b" using i(2) by (auto simp: alloc_inv_def)
  note cl = allocClose_ok [OF i(2) ct b]
  have "idtable_store (io_KeyTypeNextId o') (io_KeyTypeKey o') (kv_map (snd (allocClose (a', d'))))"
    using batch_safe_view [OF owned_store [OF i(2) b]] i(3,4) cl(2) by simp
  then obtain ow2 where ow2: "owned (io_KeyTypeNextId o') (io_KeyTypeKey o') ow2 (2 ^ 63 - 1) (kv_map (snd (allocClose (a', d'))))"
    by (auto simp: idtable_store_def)
  obtain a2 where a2: "newAllocator (snd (allocClose (a', d'))) opts = Inr a2"
    "alloc_inv ow2 (a2, snd (allocClose (a', d')))"
    "al_keyTypeNextId a2 = io_KeyTypeNextId o'" "al_keyTypeKey a2 = io_KeyTypeKey o'"
    "al_lru a2 = newLRUCache (io_LRUCacheSize o')"
    by (rule newAllocator_ok [OF cl(1) assms(2,3) ow2])
  have "kv_map (snd (allocClose (a', d'))) (encodeIdKey a2 k) = Some i"
    using st w b i(4) a2(4) cl(2) by (simp add: alloc_stable_def encodeIdKey_def)
  from GetId_reopened [OF a2(2,5) this] a2(1) show ?thesis using calculation by blast
qed

theorem alloc_ids_stable_across_reopen_witness:
  "\<exists>a' d' rs. allocRun [AGet ''a'', AGet ''b'', ACommit, AGet ''a''] (exampleAlloc, freshDB) = Some ((a', d'), rs) \<and>
     (\<exists>a2 s2. newAllocator (snd (allocClose (a', d'))) exampleOpts = Inr a2 \<and>
        GetId ''b'' (a2, snd (allocClose (a', d'))) = Some (s2, Inr (PutUint64 2)))"
proof -
  obtain a' d' where
    r: "allocRun [AGet ''a'', AGet ''b'', ACommit, AGet ''a''] (exampleAlloc, freshDB) =
      Some ((a', d'), [(''a'', PutUint64 1), (''b'', PutUint64 2), (''a'', PutUint64 1)])"
    using example_runs by (auto simp: map_option_eq_Some)
  have "\<exists>a2 s2. newAllocator (snd (allocClose (a', d'))) exampleOpts = Inr a2 \<and>
      GetId ''b'' (a2, snd (allocClose (a', d'))) = Some (s2, Inr (PutUint64 2))"
    using alloc_ids_stable_across_reopen [of freshDB exampleOpts exampleOpts exampleAlloc,
        OF _ _ _ _ _ _ r, of "''b''" "PutUint64 2"]
    by (simp add: example_opened empty_store) (simp add: exampleOpts_def exampleAlloc_def card_insert_if)
  with r show ?thesis by blast
qed

end
