(* ===== verification/InvCodec.thy ===== *)
theory InvCodec
  imports KV
begin

text \<open>
  Package \<open>invertedindex\<close>, the state (\<open>storage.go\<close>, \<open>pending_writes.go\<close>) and the on-disk codecs
  (\<open>codec.go\<close>): posting rows \<^verbatim>\<open><row><tableId>|<keyword>|<doccount>|<tick>.<seq>\<close> with a
  delta-varint value, and forward entries \<^verbatim>\<open><forward><tableId>|<docid>\<close> with the keywords joined
  by \<^verbatim>\<open>|\<close>. The store is passed beside the index. Go maps are association lists: their order
  stands for the unspecified iteration order. The sequence number of keys is a \<open>nat\<close>: it counts the
  rows written by one process and would need \<open>2\<^sup>6\<^sup>4\<close> of them to wrap.
\<close>

subsection \<open>State\<close>

record relatedDocs =
  rd_DocIds :: "docid list"
  rd_UpdatedAt :: int

record pendingTableWrites =
  ptw_TableId :: int
  ptw_InvertedIndex :: "(bytes \<times> relatedDocs) list"

record invOptions =
  iv_KeyTypeRow :: char
  iv_KeyTypeTable :: char
  iv_KeyTypeNextId :: char
  iv_KeyTypeForward :: char
  iv_FlushTicker :: int
  iv_FlushWaitTimeout :: int
  iv_FlushWaitBatchSize :: int
  iv_FlushDeleteWaitBatchSize :: int
  iv_FlushDeleteWaitTimeout :: int
  iv_FlushCooldown :: int
  iv_MaxInvertedIndexSize :: int
  iv_MaxPendingPostings :: int

record Index =
  idx_opts :: invOptions
  idx_keyTypeRow :: char
  idx_keyTypeTable :: char
  idx_keyTypeNextId :: char
  idx_keyTypeForward :: char
  idx_pendingWrites :: "(int \<times> pendingTableWrites) list"
  idx_lastFlushWriteTime :: int
  idx_pendingWritePostings :: int
  idx_pendingDeletePostings :: int
  idx_pendingDeletes :: "(int \<times> pendingTableWrites) list"
  idx_lastFlushDeleteTime :: int
  idx_keySeq :: nat

definition DefaultKeyTypeRow :: char where "DefaultKeyTypeRow = CHR 0x14"
definition DefaultKeyTypeTable :: char where "DefaultKeyTypeTable = CHR 0x15"
definition DefaultInvKeyTypeNextId :: char where "DefaultInvKeyTypeNextId = CHR 0x16"
definition DefaultKeyTypeForward :: char where "DefaultKeyTypeForward = CHR 0x0B"

definition MaxInvertedIndexSize :: int where "MaxInvertedIndexSize = 1000"

text \<open>Durations are nanoseconds.\<close>

definition flushTicker :: "invOptions \<Rightarrow> int" where
  "flushTicker o' = (if 0 < iv_FlushTicker o' then iv_FlushTicker o' else 1000000000)"

definition flushWaitTimeout :: "invOptions \<Rightarrow> int" where
  "flushWaitTimeout o' = (if 0 < iv_FlushWaitTimeout o' then iv_FlushWaitTimeout o' else 3000000000)"

definition flushWaitBatchSize :: "invOptions \<Rightarrow> int" where
  "flushWaitBatchSize o' = (if 0 < iv_FlushWaitBatchSize o' then iv_FlushWaitBatchSize o' else 200)"

definition flushDeleteWaitBatchSize :: "invOptions \<Rightarrow> int" where
  "flushDeleteWaitBatchSize o' =
     (if 0 < iv_FlushDeleteWaitBatchSize o' then iv_FlushDeleteWaitBatchSize o' else 50)"

definition flushDeleteWaitTimeout :: "invOptions \<Rightarrow> int" where
  "flushDeleteWaitTimeout o' =
     (if 0 < iv_FlushDeleteWaitTimeout o' then iv_FlushDeleteWaitTimeout o' else 5000000000)"

definition flushCooldown :: "invOptions \<Rightarrow> int" where
  "flushCooldown o' = (if 0 < iv_FlushCooldown o' then iv_FlushCooldown o' else 1000000000)"

definition maxInvertedIndexSize :: "invOptions \<Rightarrow> int" where
  "maxInvertedIndexSize o' =
     (if 0 < iv_MaxInvertedIndexSize o' then iv_MaxInvertedIndexSize o' else MaxInvertedIndexSize)"

definition maxPendingPostings :: "invOptions \<Rightarrow> int" where
  "maxPendingPostings o' = (if 0 < iv_MaxPendingPostings o' then iv_MaxPendingPostings o' else 0)"

definition invOptionsDefaults :: "invOptions \<Rightarrow> invOptions" where
  "invOptionsDefaults o' = o'\<lparr>
     iv_KeyTypeRow := (if iv_KeyTypeRow o' = CHR 0x00 then DefaultKeyTypeRow else iv_KeyTypeRow o'),
     iv_KeyTypeTable := (if iv_KeyTypeTable o' = CHR 0x00 then DefaultKeyTypeTable else iv_KeyTypeTable o'),
     iv_KeyTypeNextId :=
       (if iv_KeyTypeNextId o' = CHR 0x00 then DefaultInvKeyTypeNextId else iv_KeyTypeNextId o'),
     iv_KeyTypeForward :=
       (if iv_KeyTypeForward o' = CHR 0x00 then DefaultKeyTypeForward else iv_KeyTypeForward o')\<rparr>"

text \<open>\<open>New\<close>, with the two readings of the clock; the flush ticker and the merger goroutine it starts
  are steps of their own (theories \<open>InvIndex\<close> and \<open>InvMerger\<close>).\<close>

definition newIndex :: "invOptions \<Rightarrow> int \<Rightarrow> int \<Rightarrow> Index" where
  "newIndex opts0 now1 now2 =
     (let opts = invOptionsDefaults opts0 in
      \<lparr>idx_opts = opts, idx_keyTypeRow = iv_KeyTypeRow opts, idx_keyTypeTable = iv_KeyTypeTable opts,
       idx_keyTypeNextId = iv_KeyTypeNextId opts, idx_keyTypeForward = iv_KeyTypeForward opts,
       idx_pendingWrites = [], idx_lastFlushWriteTime = now1, idx_pendingWritePostings = 0,
       idx_pendingDeletePostings = 0, idx_pendingDeletes = [], idx_lastFlushDeleteTime = now2,
       idx_keySeq = 0\<rparr>)"

subsection \<open>Keys\<close>

abbreviation InvalidTableId :: int where "InvalidTableId \<equiv> - 1"

definition isKeyType :: "bytes \<Rightarrow> char \<Rightarrow> bool" where
  "isKeyType key keyType = (case key of [] \<Rightarrow> False | c # _ \<Rightarrow> c = keyType)"

definition parseTableId :: "bytes \<Rightarrow> int" where
  "parseTableId key = (case atoi key of None \<Rightarrow> InvalidTableId | Some v \<Rightarrow> v)"

definition appendInvertedKeyPrefix :: "Index \<Rightarrow> bytes \<Rightarrow> int \<Rightarrow> bytes \<Rightarrow> bytes" where
  "appendInvertedKeyPrefix idx b tableId keyword =
     b @ [idx_keyTypeRow idx] @ itoa tableId @ [bar] @ keyword @ [bar]"

definition encodeInvertedSearchKey :: "Index \<Rightarrow> int \<Rightarrow> bytes \<Rightarrow> bytes" where
  "encodeInvertedSearchKey idx tableId query = [idx_keyTypeRow idx] @ itoa tableId @ [bar] @ query"

definition encodeInvertedKeyPrefix :: "Index \<Rightarrow> int \<Rightarrow> bytes \<Rightarrow> bytes" where
  "encodeInvertedKeyPrefix idx tableId keyword = appendInvertedKeyPrefix idx [] tableId keyword"

definition encodeInvertedKey :: "Index \<Rightarrow> int \<Rightarrow> bytes \<Rightarrow> int \<Rightarrow> int \<Rightarrow> bytes \<times> Index" where
  "encodeInvertedKey idx tableId keyword doccount tick =
     (appendInvertedKeyPrefix idx [] tableId keyword @ itoa doccount @ [bar] @ itoa tick @ ''.'' @
        natStr (idx_keySeq idx + 1),
      idx\<lparr>idx_keySeq := idx_keySeq idx + 1\<rparr>)"

definition decodeInvertedKey :: "Index \<Rightarrow> bytes \<Rightarrow> int \<times> bytes \<times> int \<times> bytes" where
  "decodeInvertedKey idx key0 =
     (if \<not> isKeyType key0 (idx_keyTypeRow idx) then (InvalidTableId, [], 0, [])
      else
        let key = tl key0; first = IndexByte key bar; lst = LastIndexByte key bar in
        if first < 0 \<or> lst \<le> first then (InvalidTableId, [], 0, [])
        else
          let prev = LastIndexByte (take (nat lst) key) bar in
          if prev \<le> first then (InvalidTableId, [], 0, [])
          else
            let tableId = parseTableId (take (nat first) key);
                keyword = drop (nat first + 1) (take (nat prev) key)
            in case atoi (drop (nat prev + 1) (take (nat lst) key)) of
                 None \<Rightarrow> (InvalidTableId, [], 0, [])
               | Some doccount \<Rightarrow> (tableId, keyword, doccount, drop (nat lst + 1) key))"

definition encodeNextTableIdKey :: "Index \<Rightarrow> bytes" where
  "encodeNextTableIdKey idx = [idx_keyTypeNextId idx]"

definition encodeTableKey :: "Index \<Rightarrow> int \<Rightarrow> bytes" where
  "encodeTableKey idx tableId = [idx_keyTypeTable idx] @ itoa tableId"

definition encodeForwardKey :: "Index \<Rightarrow> int \<Rightarrow> docid \<Rightarrow> bytes" where
  "encodeForwardKey idx tableId docid = [idx_keyTypeForward idx] @ itoa tableId @ [bar] @ PutUint64 docid"

definition encodeForwardKeyPrefix :: "Index \<Rightarrow> int \<Rightarrow> bytes" where
  "encodeForwardKeyPrefix idx tableId = [idx_keyTypeForward idx] @ itoa tableId @ [bar]"

subsection \<open>Values\<close>

fun appendDeltas :: "docid \<Rightarrow> docid list \<Rightarrow> bytes" where
  "appendDeltas prev [] = []"
| "appendDeltas prev (u # us) = AppendUvarint (unat (u - prev)) @ appendDeltas u us"

definition encodeInvertedValueCounted :: "docid list \<Rightarrow> bytes \<times> int" where
  "encodeInvertedValueCounted docids =
     (if docids = [] then ([], 0)
      else let us = remdups_adj (sort docids) in (appendDeltas 0 us, int (length us)))"

definition encodeInvertedValue :: "docid list \<Rightarrow> bytes" where
  "encodeInvertedValue docids = fst (encodeInvertedValueCounted docids)"

text \<open>The loop shared by \<open>decodeInvertedValue\<close>, \<open>Search\<close> and \<open>GetDocs\<close>: running docid, rest of
  the value.\<close>

function decodeDeltas :: "docid \<Rightarrow> bytes \<Rightarrow> docid list" where
  "decodeDeltas cur data =
     (if data = [] then []
      else case Uvarint data of
        (delta, n) \<Rightarrow>
          if n \<le> 0 then []
          else (cur + of_nat delta) # decodeDeltas (cur + of_nat delta) (drop (nat n) data))"
  by pat_completeness auto

termination
  by (relation "measure (length \<circ> snd)") auto

declare decodeDeltas.simps [simp del]

definition decodeInvertedValue :: "bytes \<Rightarrow> docid list" where
  "decodeInvertedValue data = (if data = [] then [] else decodeDeltas 0 data)"

definition decodeInvertedValueStr :: "bytes \<Rightarrow> docid list" where
  "decodeInvertedValueStr data = decodeInvertedValue data"

definition encodeForwardValue :: "bytes list \<Rightarrow> bytes" where
  "encodeForwardValue keywords = (if keywords = [] then [] else JoinByte bar keywords)"

definition decodeForwardValue :: "bytes \<Rightarrow> bytes list" where
  "decodeForwardValue data = (if data = [] then [] else SplitByte bar data)"

subsection \<open>Round trips\<close>

text \<open>A posting row's key.\<close>

definition rowKey :: "char \<Rightarrow> int \<Rightarrow> bytes \<Rightarrow> int \<Rightarrow> int \<Rightarrow> nat \<Rightarrow> bytes" where
  "rowKey r tid kw c t n = r # itoa tid @ bar # kw @ bar # itoa c @ bar # itoa t @ ''.'' @ natStr n"

lemma encodeInvertedKey_row:
  "encodeInvertedKey idx tid kw c t =
     (rowKey (idx_keyTypeRow idx) tid kw c t (idx_keySeq idx + 1), idx\<lparr>idx_keySeq := idx_keySeq idx + 1\<rparr>)"
  by (simp add: encodeInvertedKey_def rowKey_def appendInvertedKeyPrefix_def)

lemma bar_notin_tail: "bar \<notin> set (itoa t @ ''.'' @ natStr n)"
  by simp

lemma decode_rowKey:
  assumes "is_int64 tid" "is_int64 c"
  shows "decodeInvertedKey idx (rowKey (idx_keyTypeRow idx) tid kw c t n) = (tid, kw, c, itoa t @ ''.'' @ natStr n)"
proof -
  let ?a = "itoa tid" and ?c = "itoa c" and ?z = "itoa t @ ''.'' @ natStr n"
  have k: "rowKey (idx_keyTypeRow idx) tid kw c t n = idx_keyTypeRow idx # (?a @ bar # kw @ bar # ?c @ bar # ?z)"
    by (simp add: rowKey_def)
  have f: "IndexByte (?a @ bar # kw @ bar # ?c @ bar # ?z) bar = int (length ?a)"
    by (rule IndexByte_append) simp
  have "LastIndexByte ((?a @ bar # kw @ bar # ?c) @ bar # ?z) bar = int (length (?a @ bar # kw @ bar # ?c))"
    by (rule LastIndexByte_append) simp
  then have l: "LastIndexByte (?a @ bar # kw @ bar # ?c @ bar # ?z) bar = int (length (?a @ bar # kw @ bar # ?c))"
    by simp
  have t: "take (length (?a @ bar # kw @ bar # ?c)) (?a @ bar # kw @ bar # ?c @ bar # ?z) = ?a @ bar # kw @ bar # ?c"
    by simp
  have "LastIndexByte ((?a @ bar # kw) @ bar # ?c) bar = int (length (?a @ bar # kw))"
    by (rule LastIndexByte_append) simp
  then have p: "LastIndexByte (?a @ bar # kw @ bar # ?c) bar = int (length (?a @ bar # kw))" by simp
  have d: "drop (length X + 1) (X @ bar # ?z) = ?z" for X by simp
  have "drop (length (?a @ bar # kw @ bar # ?c) + 1) (?a @ bar # kw @ bar # ?c @ bar # ?z) = ?z"
    using d [of "?a @ bar # kw @ bar # ?c"] by (simp only: append_assoc append_Cons)
  then show ?thesis
    unfolding decodeInvertedKey_def k list.sel Let_def f l nat_int t p
    by (simp only: isKeyType_def parseTableId_def atoi_itoa assms list.case) (simp add: atoi_itoa assms)
qed

lemma rowKey_inj:
  assumes "rowKey r tid kw c t n = rowKey r tid' kw' c' t' n'"
  shows "tid = tid' \<and> kw = kw' \<and> c = c' \<and> t = t' \<and> n = n'"
proof -
  have "itoa tid @ bar # (kw @ bar # itoa c @ bar # itoa t @ ''.'' @ natStr n) =
      itoa tid' @ bar # (kw' @ bar # itoa c' @ bar # itoa t' @ ''.'' @ natStr n')"
    using assms by (simp add: rowKey_def)
  from split_at_first [OF bar_notin_itoa bar_notin_itoa this]
  have 1: "tid = tid'" "(kw @ bar # itoa c) @ bar # (itoa t @ ''.'' @ natStr n) =
      (kw' @ bar # itoa c') @ bar # (itoa t' @ ''.'' @ natStr n')"
    by simp_all
  from split_at_last [OF bar_notin_tail bar_notin_tail 1(2)]
  have 2: "kw @ bar # itoa c = kw' @ bar # itoa c'" "itoa t @ CHR ''.'' # natStr n = itoa t' @ CHR ''.'' # natStr n'"
    by simp_all
  from split_at_last [OF bar_notin_itoa bar_notin_itoa 2(1)] split_at_first [OF dot_notin_itoa dot_notin_itoa 2(2)]
  show ?thesis using 1(1) by (simp add: natStr_inj)
qed

lemma isKeyType_rowKey [simp]: "isKeyType (rowKey r tid kw c t n) r' \<longleftrightarrow> r = r'"
  by (simp add: isKeyType_def rowKey_def)

text \<open>What the two prefix scans can see of the rows: \<open>GetDocs\<close> stays in its table, \<open>Search\<close> selects the
  keywords with the given prefix, as long as the query has no delimiter.\<close>

lemma itoa_bar_prefix: "prefix (itoa i @ bar # xs) (itoa j @ bar # ys) \<longleftrightarrow> i = j \<and> prefix xs ys"
proof
  assume "prefix (itoa i @ bar # xs) (itoa j @ bar # ys)"
  then obtain zs where "itoa j @ bar # ys = itoa i @ bar # (xs @ zs)" by (auto simp: prefix_def)
  from split_at_first [OF bar_notin_itoa bar_notin_itoa this] show "i = j \<and> prefix xs ys" by simp
qed simp

lemma keyPrefix_row:
  "prefix (encodeInvertedKeyPrefix idx tid kw) (rowKey (idx_keyTypeRow idx) tid' kw' c t n) \<longleftrightarrow>
   tid = tid' \<and> prefix (kw @ [bar]) (kw' @ bar # itoa c @ bar # itoa t @ ''.'' @ natStr n)"
  by (simp add: encodeInvertedKeyPrefix_def appendInvertedKeyPrefix_def rowKey_def itoa_bar_prefix)

lemma keyPrefix_own_row:
  "prefix (encodeInvertedKeyPrefix idx tid kw) (rowKey (idx_keyTypeRow idx) tid kw c t n)"
  by (simp add: keyPrefix_row)

lemma searchKey_row:
  assumes "bar \<notin> set q"
  shows "prefix (encodeInvertedSearchKey idx tid q) (rowKey (idx_keyTypeRow idx) tid' kw' c t n) \<longleftrightarrow>
    tid = tid' \<and> prefix q kw'"
proof -
  have "prefix q (kw' @ bar # z) \<longleftrightarrow> prefix q kw'" for z
    using assms by (auto simp: prefix_append prefix_Cons)
  then show ?thesis by (simp add: encodeInvertedSearchKey_def rowKey_def itoa_bar_prefix)
qed

lemma decodeDeltas_appendDeltas: "decodeDeltas prev (appendDeltas prev us) = us"
proof (induction us arbitrary: prev)
  case Nil
  then show ?case by (simp add: decodeDeltas.simps)
next
  case (Cons u us)
  have "unat (u - prev) < 2 ^ 64" using unsigned_less [of "u - prev", where ?'a = nat] by simp
  then have "Uvarint (appendDeltas prev (u # us)) = (unat (u - prev), int (length (AppendUvarint (unat (u - prev)))))"
    by (simp add: Uvarint_AppendUvarint)
  then show ?case using Cons.IH [of u] by (subst decodeDeltas.simps) simp
qed

lemma decode_encode_value: "decodeInvertedValue (encodeInvertedValue ids) = remdups_adj (sort ids)"
proof (cases ids)
  case (Cons a xs)
  then obtain u us where "remdups_adj (sort ids) = u # us"
    by (cases "remdups_adj (sort ids)") (auto simp: remdups_adj_Nil_iff)
  then show ?thesis using Cons
    by (simp add: decodeInvertedValue_def encodeInvertedValue_def encodeInvertedValueCounted_def Let_def
        decodeDeltas_appendDeltas del: appendDeltas.simps(2)) (simp add: decodeDeltas_appendDeltas)
qed (simp add: decodeInvertedValue_def encodeInvertedValue_def encodeInvertedValueCounted_def)

lemma set_decode_encode [simp]: "set (decodeInvertedValue (encodeInvertedValue ids)) = set ids"
  by (simp add: decode_encode_value)

lemma distinct_remdups_adj_sorted: "sorted xs \<Longrightarrow> distinct (remdups_adj xs)"
  by (induction xs rule: remdups_adj.induct) auto

lemma encodeInvertedValueCounted_count:
  "snd (encodeInvertedValueCounted ids) = int (card (set ids))"
proof -
  have "distinct (remdups_adj (sort ids))" by (simp add: distinct_remdups_adj_sorted)
  from distinct_card [OF this] show ?thesis
    by (simp add: encodeInvertedValueCounted_def Let_def)
qed

text \<open>
  (C23) Posting keys are unambiguous: the key of a row decodes to its table, keyword and count for
  every keyword, also one that contains the delimiter.
\<close>

theorem inverted_key_roundtrip:
  assumes "is_int64 tableId" "is_int64 doccount"
  shows "decodeInvertedKey idx (fst (encodeInvertedKey idx tableId keyword doccount tick)) =
    (tableId, keyword, doccount, itoa tick @ ''.'' @ natStr (idx_keySeq idx + 1))"
  using decode_rowKey [OF assms] by (simp add: encodeInvertedKey_row)

definition exampleIndex :: Index where
  "exampleIndex = newIndex
     \<lparr>iv_KeyTypeRow = CHR 0x00, iv_KeyTypeTable = CHR 0x00, iv_KeyTypeNextId = CHR 0x00, iv_KeyTypeForward = CHR 0x00,
      iv_FlushTicker = 0, iv_FlushWaitTimeout = 0, iv_FlushWaitBatchSize = 0, iv_FlushDeleteWaitBatchSize = 0,
      iv_FlushDeleteWaitTimeout = 0, iv_FlushCooldown = 0, iv_MaxInvertedIndexSize = 0, iv_MaxPendingPostings = 0\<rparr> 0 0"

theorem inverted_key_roundtrip_witness:
  "decodeInvertedKey exampleIndex (fst (encodeInvertedKey exampleIndex 7 ''a|b'' 2 99)) = (7, ''a|b'', 2, ''99.1'')"
proof -
  have "itoa 99 @ ''.'' @ natStr (idx_keySeq exampleIndex + 1) = ''99.1''" by code_simp
  then show ?thesis using inverted_key_roundtrip [of 7 2 exampleIndex "''a|b''" 99] by (simp add: is_int64_def)
qed

text \<open>
  (C24) Posting values are exact: decoding an encoded list of docids gives each of them once, in
  ascending order, and the count written into the key is their number. It holds for every list of
  64-bit ids, with duplicates and in any order.
\<close>

theorem inverted_value_roundtrip:
  "case encodeInvertedValueCounted docids of (content, unique) \<Rightarrow>
     set (decodeInvertedValue content) = set docids \<and> sorted (decodeInvertedValue content) \<and>
     distinct (decodeInvertedValue content) \<and> unique = int (length (decodeInvertedValue content))"
proof -
  have d: "decodeInvertedValue (fst (encodeInvertedValueCounted docids)) = remdups_adj (sort docids)"
    using decode_encode_value [of docids] by (simp add: encodeInvertedValue_def)
  have di: "distinct (remdups_adj (sort docids))" by (simp add: distinct_remdups_adj_sorted)
  have "snd (encodeInvertedValueCounted docids) = int (length (remdups_adj (sort docids)))"
    using encodeInvertedValueCounted_count [of docids] distinct_card [OF di] by simp
  then show ?thesis using d di by (simp add: case_prod_unfold sorted_remdups_adj)
qed

lemma decode_encode_forward:
  assumes "\<forall>k\<in>set kws. bar \<notin> set k" "kws \<noteq> [[]]"
  shows "decodeForwardValue (encodeForwardValue kws) = kws"
proof (cases "kws = []")
  case False
  have "JoinByte bar kws \<noteq> []"
    using False assms(2) by (cases kws; cases "tl kws") auto
  with False SplitByte_JoinByte [OF False assms(1)] show ?thesis
    by (simp add: decodeForwardValue_def encodeForwardValue_def)
qed (simp add: decodeForwardValue_def encodeForwardValue_def)

text \<open>
  (C25) Forward values are lossless for keywords without the delimiter, except that the list holding
  one empty keyword reads back as no keywords.
\<close>

theorem forward_value_roundtrip:
  assumes "\<forall>k\<in>set kws. bar \<notin> set k" "kws \<noteq> [[]]"
  shows "decodeForwardValue (encodeForwardValue kws) = kws"
  using assms by (rule decode_encode_forward)

theorem forward_value_roundtrip_witness:
  "decodeForwardValue (encodeForwardValue [''foo'', [], ''bar'']) = [''foo'', [], ''bar'']"
  using forward_value_roundtrip [of "[''foo'', [], ''bar'']"] by simp

end
