(* ===== verification/GoUtf8.thy ===== *)
theory GoUtf8
  imports GoStd
begin

text \<open>
  What the code uses of \<open>unicode/utf8\<close>, \<open>unicode\<close> and the rune functions of \<open>strings\<close>: decoding and
  encoding one rune, ranging over a string, case mapping and trimming. The tables of \<open>unicode\<close> are data of the
  Go distribution; they are the record \<open>unicode\<close>, an argument of the definitions that read them. Its
  entries are used for runes from 128 on, the ASCII part is written out.
\<close>

subsection \<open>Runes\<close>

abbreviation byteN :: "char \<Rightarrow> nat" where "byteN c \<equiv> of_char c"

definition isCont :: "char \<Rightarrow> bool" where
  "isCont c \<longleftrightarrow> 128 \<le> byteN c \<and> byteN c < 192"

definition RuneError :: nat where "RuneError = 65533"

text \<open>\<open>utf8.DecodeRune\<close>: the rune and its width; \<open>(RuneError, 1)\<close> for an invalid encoding and
  \<open>(RuneError, 0)\<close> for the empty string.\<close>

fun DecodeRune :: "bytes \<Rightarrow> nat \<times> nat" where
  "DecodeRune [] = (RuneError, 0)"
| "DecodeRune (a # rest) =
     (let x = byteN a in
      if x < 128 then (x, 1)
      else if x < 194 then (RuneError, 1)
      else if x < 224 then
        (case rest of
           b # _ \<Rightarrow> if isCont b then ((x - 192) * 64 + (byteN b - 128), 2) else (RuneError, 1)
         | _ \<Rightarrow> (RuneError, 1))
      else if x < 240 then
        (case rest of
           b # c # _ \<Rightarrow>
             if isCont b \<and> isCont c \<and> (x = 224 \<longrightarrow> 160 \<le> byteN b) \<and> (x = 237 \<longrightarrow> byteN b < 160)
             then ((x - 224) * 4096 + (byteN b - 128) * 64 + (byteN c - 128), 3) else (RuneError, 1)
         | _ \<Rightarrow> (RuneError, 1))
      else if x < 245 then
        (case rest of
           b # c # d # _ \<Rightarrow>
             if isCont b \<and> isCont c \<and> isCont d \<and> (x = 240 \<longrightarrow> 144 \<le> byteN b) \<and> (x = 244 \<longrightarrow> byteN b < 144)
             then ((x - 240) * 262144 + (byteN b - 128) * 4096 + (byteN c - 128) * 64 + (byteN d - 128), 4)
             else (RuneError, 1)
         | _ \<Rightarrow> (RuneError, 1))
      else (RuneError, 1))"

lemma DecodeRune_width: "s \<noteq> [] \<Longrightarrow> 1 \<le> snd (DecodeRune s) \<and> snd (DecodeRune s) \<le> length s"
  by (cases s rule: DecodeRune.cases) (auto simp: Let_def split: list.splits)

lemma DecodeRune_ascii [simp]: "byteN a < 128 \<Longrightarrow> DecodeRune (a # rest) = (byteN a, 1)"
  by simp

declare DecodeRune.simps(2) [simp del]

lemma DecodeRune_drop: "DecodeRune (b # bs) = (r, n) \<Longrightarrow> length (drop n (b # bs)) < length (b # bs)"
  using DecodeRune_width [of "b # bs"] by simp

text \<open>\<open>utf8.EncodeRune\<close> and \<open>string(rune)\<close>: surrogates and values out of range become the replacement
  character.\<close>

definition EncodeRune :: "nat \<Rightarrow> bytes" where
  "EncodeRune r =
     (if r < 128 then [char_of r]
      else if r < 2048 then [char_of (192 + r div 64), char_of (128 + r mod 64)]
      else if 1114111 < r \<or> 55296 \<le> r \<and> r < 57344
      then [char_of (239::nat), char_of (191::nat), char_of (189::nat)]
      else if r < 65536
      then [char_of (224 + r div 4096), char_of (128 + r div 64 mod 64), char_of (128 + r mod 64)]
      else [char_of (240 + r div 262144), char_of (128 + r div 4096 mod 64), char_of (128 + r div 64 mod 64),
            char_of (128 + r mod 64)])"

text \<open>\<open>for i, r := range s\<close> and \<open>[]rune(s)\<close>.\<close>

function rangeFrom :: "nat \<Rightarrow> bytes \<Rightarrow> (nat \<times> nat) list" where
  "rangeFrom i s =
     (if s = [] then []
      else (i, fst (DecodeRune s)) # rangeFrom (i + snd (DecodeRune s)) (drop (snd (DecodeRune s)) s))"
  by pat_completeness auto

termination
  by (relation "measure (\<lambda>(i, s). length s)") (use DecodeRune_width in fastforce)+

declare rangeFrom.simps [simp del]

definition Runes :: "bytes \<Rightarrow> nat list" where
  "Runes s = map snd (rangeFrom 0 s)"

definition runeString :: "nat list \<Rightarrow> bytes" where
  "runeString rs = concat (map EncodeRune rs)"

text \<open>\<open>utf8.DecodeLastRune\<close>: back to the nearest byte that starts a rune, at most four bytes.\<close>

fun lastStart :: "nat \<Rightarrow> bytes \<Rightarrow> nat \<Rightarrow> nat" where
  "lastStart 0 s i = i"
| "lastStart (Suc k) s i = (if i = 0 \<or> \<not> isCont (s ! i) then i else lastStart k s (i - 1))"

definition DecodeLastRune :: "bytes \<Rightarrow> nat \<times> nat" where
  "DecodeLastRune s =
     (if s = [] then (RuneError, 0)
      else if byteN (last s) < 128 then (byteN (last s), 1)
      else case lastStart 2 s (length s - 2) of i \<Rightarrow>
        if i + snd (DecodeRune (drop i s)) = length s then DecodeRune (drop i s) else (RuneError, 1))"

subsection \<open>unicode\<close>

record unicode =
  uc_lower :: "nat \<Rightarrow> nat"
  uc_upper :: "nat \<Rightarrow> bool"
  uc_lowercase :: "nat \<Rightarrow> bool"
  uc_space :: "nat \<Rightarrow> bool"
  uc_punct :: "nat \<Rightarrow> bool"
  uc_symbol :: "nat \<Rightarrow> bool"
  uc_letter :: "nat \<Rightarrow> bool"
  uc_number :: "nat \<Rightarrow> bool"
  uc_cjk :: "nat \<Rightarrow> bool"

definition IsUpper :: "unicode \<Rightarrow> nat \<Rightarrow> bool" where
  "IsUpper uc r \<longleftrightarrow> (if r < 128 then 65 \<le> r \<and> r \<le> 90 else uc_upper uc r)"

definition IsLower :: "unicode \<Rightarrow> nat \<Rightarrow> bool" where
  "IsLower uc r \<longleftrightarrow> (if r < 128 then 97 \<le> r \<and> r \<le> 122 else uc_lowercase uc r)"

definition IsSpace :: "unicode \<Rightarrow> nat \<Rightarrow> bool" where
  "IsSpace uc r \<longleftrightarrow> (if r < 128 then 9 \<le> r \<and> r \<le> 13 \<or> r = 32 else uc_space uc r)"

definition IsPunct :: "unicode \<Rightarrow> nat \<Rightarrow> bool" where
  "IsPunct uc r \<longleftrightarrow>
     (if r < 128
      then r \<in> set [33, 34, 35, 37, 38, 39, 40, 41, 42, 44, 45, 46, 47, 58, 59, 63, 64, 91, 92, 93, 95, 123, 125]
      else uc_punct uc r)"

definition IsSymbol :: "unicode \<Rightarrow> nat \<Rightarrow> bool" where
  "IsSymbol uc r \<longleftrightarrow> (if r < 128 then r \<in> set [36, 43, 60, 61, 62, 94, 96, 124, 126] else uc_symbol uc r)"

definition IsLetter :: "unicode \<Rightarrow> nat \<Rightarrow> bool" where
  "IsLetter uc r \<longleftrightarrow> (if r < 128 then 65 \<le> r \<and> r \<le> 90 \<or> 97 \<le> r \<and> r \<le> 122 else uc_letter uc r)"

definition IsNumber :: "unicode \<Rightarrow> nat \<Rightarrow> bool" where
  "IsNumber uc r \<longleftrightarrow> (if r < 128 then 48 \<le> r \<and> r \<le> 57 else uc_number uc r)"

definition lowerRune :: "unicode \<Rightarrow> nat \<Rightarrow> nat" where
  "lowerRune uc r = (if r < 128 then (if 65 \<le> r \<and> r \<le> 90 then r + 32 else r) else uc_lower uc r)"

text \<open>\<open>strings.ToLower\<close>: byte by byte for ASCII text, else rune by rune, where an invalid byte becomes the
  replacement character.\<close>

definition lowerByte :: "char \<Rightarrow> char" where
  "lowerByte c = (if 65 \<le> byteN c \<and> byteN c \<le> 90 then char_of (byteN c + 32) else c)"

definition isASCII :: "bytes \<Rightarrow> bool" where
  "isASCII s \<longleftrightarrow> list_all (\<lambda>c. byteN c < 128) s"

definition ToLower :: "unicode \<Rightarrow> bytes \<Rightarrow> bytes" where
  "ToLower uc s = (if isASCII s then map lowerByte s else runeString (map (lowerRune uc) (Runes s)))"

text \<open>\<open>strings.TrimSpace\<close>.\<close>

lemma DecodeLastRune_width: "s \<noteq> [] \<Longrightarrow> 1 \<le> snd (DecodeLastRune s)"
proof -
  assume s: "s \<noteq> []"
  have l: "lastStart k s i \<le> i" for k i
  proof (induction k arbitrary: i)
    case (Suc k)
    have "lastStart k s (i - 1) \<le> i" using le_trans [OF Suc [of "i - 1"]] by simp
    then show ?case by simp
  qed simp
  have "lastStart 2 s (length s - 2) \<le> length s - 2" by (rule l)
  moreover have "length s - 2 < length s" using s by simp
  ultimately have "drop (lastStart 2 s (length s - 2)) s \<noteq> []" by simp
  from DecodeRune_width [OF this] s show ?thesis by (simp add: DecodeLastRune_def)
qed

function trimLeft :: "unicode \<Rightarrow> bytes \<Rightarrow> bytes" where
  "trimLeft uc s =
     (if s \<noteq> [] \<and> IsSpace uc (fst (DecodeRune s)) then trimLeft uc (drop (snd (DecodeRune s)) s) else s)"
  by pat_completeness auto

termination
  by (relation "measure (\<lambda>(uc, s). length s)") (use DecodeRune_width in fastforce)+

function trimRight :: "unicode \<Rightarrow> bytes \<Rightarrow> bytes" where
  "trimRight uc s =
     (if s \<noteq> [] \<and> IsSpace uc (fst (DecodeLastRune s))
      then trimRight uc (take (length s - snd (DecodeLastRune s)) s) else s)"
  by pat_completeness auto

termination
  by (relation "measure (\<lambda>(uc, s). length s)") (use DecodeLastRune_width in fastforce)+

declare trimLeft.simps [simp del] trimRight.simps [simp del]

definition TrimSpace :: "unicode \<Rightarrow> bytes \<Rightarrow> bytes" where
  "TrimSpace uc s = trimRight uc (trimLeft uc s)"

subsection \<open>Round trips\<close>

definition validRune :: "nat \<Rightarrow> bool" where
  "validRune r \<longleftrightarrow> r \<le> 1114111 \<and> \<not> (55296 \<le> r \<and> r < 57344)"

lemma EncodeRune_not_Nil [simp]: "EncodeRune r \<noteq> []"
  by (simp add: EncodeRune_def)

lemma DecodeRune_EncodeRune:
  assumes "validRune r"
  shows "DecodeRune (EncodeRune r @ rest) = (r, length (EncodeRune r))"
proof -
  consider "r < 128" | "128 \<le> r" "r < 2048" | "2048 \<le> r" "r < 65536" | "65536 \<le> r" by linarith
  then show ?thesis
  proof cases
    case 1
    then show ?thesis by (simp add: EncodeRune_def)
  next
    case 2
    have "2 \<le> r div 64" "r div 64 < 32" using 2 by simp_all
    with 2 show ?thesis by (simp add: EncodeRune_def DecodeRune.simps(2) isCont_def Let_def)
  next
    case 3
    define a c where "a = r div 64" and "c = a div 64"
    have d: "r div 4096 = c" by (simp add: a_def c_def flip: div_mult2_eq)
    have x: "r = a * 64 + r mod 64" "r mod 64 < 64" "a = c * 64 + a mod 64" "a mod 64 < 64"
      by (simp_all add: a_def c_def)
    have "c < 16" "0 < c \<or> 32 \<le> a mod 64" using 3 x by linarith+
    moreover have "c \<noteq> 13 \<or> a mod 64 < 32" using 3 assms x unfolding validRune_def by linarith
    moreover have "c * 4096 + a mod 64 * 64 + r mod 64 = r" using x by linarith
    moreover have "\<not> (55296 \<le> r \<and> r < 57344)" using assms by (simp add: validRune_def)
    ultimately show ?thesis using 3 x(2,4)
      by (simp add: EncodeRune_def DecodeRune.simps(2) isCont_def Let_def d flip: a_def)
  next
    case 4
    define a c e where "a = r div 64" and "c = a div 64" and "e = c div 64"
    have d: "r div 4096 = c" "r div 262144 = e" by (simp_all add: a_def c_def e_def flip: div_mult2_eq)
    have x: "r = a * 64 + r mod 64" "r mod 64 < 64" "a = c * 64 + a mod 64" "a mod 64 < 64" "c = e * 64 + c mod 64" "c mod 64 < 64"
      by (simp_all add: a_def c_def e_def)
    have r: "r \<le> 1114111" using assms by (simp add: validRune_def)
    have "e < 5" "0 < e \<or> 16 \<le> c mod 64" "e \<noteq> 4 \<or> c mod 64 < 16" using 4 r x by linarith+
    moreover have "e * 262144 + c mod 64 * 4096 + a mod 64 * 64 + r mod 64 = r" using x by linarith
    ultimately show ?thesis using 4 r x(2,4,6)
      by (simp add: EncodeRune_def DecodeRune.simps(2) isCont_def Let_def d flip: a_def)
  qed
qed

lemma rangeFrom_runes: "map snd (rangeFrom i s) = map snd (rangeFrom j s)"
proof (induction i s arbitrary: j rule: rangeFrom.induct)
  case (1 i s)
  show ?case
    using 1 [of "j + snd (DecodeRune s)"] by (simp add: rangeFrom.simps [of i s] rangeFrom.simps [of j s])
qed

lemma Runes_Nil [simp]: "Runes [] = []"
  by (simp add: Runes_def rangeFrom.simps)

lemma Runes_rec: "s \<noteq> [] \<Longrightarrow> Runes s = fst (DecodeRune s) # Runes (drop (snd (DecodeRune s)) s)"
  using rangeFrom_runes [of "snd (DecodeRune s)" "drop (snd (DecodeRune s)) s" 0]
  by (simp add: Runes_def rangeFrom.simps [of 0 s])

lemma Runes_EncodeRune [simp]: "validRune r \<Longrightarrow> Runes (EncodeRune r @ s) = r # Runes s"
  by (subst Runes_rec) (simp_all add: DecodeRune_EncodeRune)

lemma Runes_runeString_append: "list_all validRune rs \<Longrightarrow> Runes (runeString rs @ s) = rs @ Runes s"
  by (induction rs) (simp_all add: runeString_def)

lemma Runes_runeString: "list_all validRune rs \<Longrightarrow> Runes (runeString rs) = rs"
  using Runes_runeString_append [of rs "[]"] by simp

lemma runeString_simps [simp]:
  "runeString [] = []" "runeString (r # rs) = EncodeRune r @ runeString rs"
  "runeString (rs @ rs') = runeString rs @ runeString rs'"
  by (simp_all add: runeString_def)

text \<open>Valid UTF-8: no byte is skipped as an error.\<close>

function utf8Valid :: "bytes \<Rightarrow> bool" where
  "utf8Valid s =
     (if s = [] then True else if DecodeRune s = (RuneError, 1) then False else utf8Valid (drop (snd (DecodeRune s)) s))"
  by pat_completeness auto

termination
  by (relation "measure length") (use DecodeRune_width in fastforce)+

declare utf8Valid.simps [simp del]

lemma digit64: "z < 64 \<Longrightarrow> (k * 64 + z) div 64 = k" "z < 64 \<Longrightarrow> (k * 64 + z) mod 64 = (z :: nat)"
  by simp_all

lemma EncodeRune_DecodeRune:
  assumes "s \<noteq> []" "DecodeRune s \<noteq> (RuneError, 1)"
  shows "validRune (fst (DecodeRune s))" "EncodeRune (fst (DecodeRune s)) = take (snd (DecodeRune s)) s"
proof -
  obtain a rest where s: "s = a # rest" using assms(1) by (cases s) auto
  have c: "char_of (byteN x) = x" for x by simp
  have lt: "byteN x < 256" for x by simp
  have "validRune (fst (DecodeRune s)) \<and> EncodeRune (fst (DecodeRune s)) = take (snd (DecodeRune s)) s"
  proof (cases "byteN a < 128")
    case True
    then show ?thesis by (simp add: s EncodeRune_def validRune_def)
  next
    case False
    consider b r2 where "rest = b # r2" "194 \<le> byteN a" "byteN a < 224" "isCont b"
        "DecodeRune s = ((byteN a - 192) * 64 + (byteN b - 128), 2)"
      | b c r3 where "rest = b # c # r3" "224 \<le> byteN a" "byteN a < 240" "isCont b" "isCont c"
        "byteN a = 224 \<longrightarrow> 160 \<le> byteN b" "byteN a = 237 \<longrightarrow> byteN b < 160"
        "DecodeRune s = ((byteN a - 224) * 4096 + (byteN b - 128) * 64 + (byteN c - 128), 3)"
      | b c d r4 where "rest = b # c # d # r4" "240 \<le> byteN a" "byteN a < 245" "isCont b" "isCont c" "isCont d"
        "byteN a = 240 \<longrightarrow> 144 \<le> byteN b" "byteN a = 244 \<longrightarrow> byteN b < 144"
        "DecodeRune s = ((byteN a - 240) * 262144 + (byteN b - 128) * 4096 + (byteN c - 128) * 64 + (byteN d - 128), 4)"
      using assms(2) False unfolding s DecodeRune.simps(2) Let_def
      by (auto split: if_splits list.splits)
    then show ?thesis
    proof cases
      case 1
      define x y where "x = byteN a - 192" and "y = byteN b - 128"
      have xy: "byteN a = x + 192" "byteN b = y + 128" "2 \<le> x" "x < 32" "y < 64"
        using 1 by (auto simp: x_def y_def isCont_def)
      have "(x * 64 + y) div 64 = x" "(x * 64 + y) mod 64 = y" using xy by simp_all
      moreover have "[char_of (192 + x), char_of (128 + y)] = [a, b]"
        using c [of a] c [of b] by (simp add: xy(1,2) add.commute)
      moreover have "take 2 s = [a, b]" by (simp add: s 1(1))
      ultimately show ?thesis using xy unfolding 1(5) fst_conv snd_conv
        by (simp add: EncodeRune_def validRune_def flip: x_def y_def)
    next
      case 2
      define x y z where "x = byteN a - 224" and "y = byteN b - 128" and "z = byteN c - 128"
      have xy: "byteN a = x + 224" "byteN b = y + 128" "byteN c = z + 128" "x < 16" "y < 64" "z < 64"
          "x = 0 \<longrightarrow> 32 \<le> y" "x = 13 \<longrightarrow> y < 32"
        using 2 by (auto simp: x_def y_def z_def isCont_def)
      let ?r = "x * 4096 + y * 64 + z"
      have q: "?r = (x * 64 + y) * 64 + z" by simp
      have "?r div 64 = x * 64 + y" "?r mod 64 = z" unfolding q using digit64 [OF xy(6)] by blast+
      moreover from this(1) have "?r div 4096 = x" using xy(5) div_mult2_eq [of ?r 64 64] by simp
      moreover have "[char_of (224 + x), char_of (128 + y), char_of (128 + z)] = [a, b, c]"
        using \<open>\<And>x. char_of (byteN x) = x\<close> [of a] \<open>\<And>x. char_of (byteN x) = x\<close> [of b] \<open>\<And>x. char_of (byteN x) = x\<close> [of c]
        by (simp add: xy(1,2,3) add.commute)
      moreover have "0 < x \<or> 32 \<le> y" "x < 13 \<or> x = 13 \<and> y < 32 \<or> 13 < x" using xy(7,8) by auto
      then have "2048 \<le> ?r" "?r < 65536" "\<not> (55296 \<le> ?r \<and> ?r < 57344)"
        using xy(4-6) by linarith+
      moreover have "take 3 s = [a, b, c]" by (simp add: s 2(1))
      ultimately show ?thesis using xy(5) unfolding 2(8) fst_conv snd_conv
        by (auto simp add: EncodeRune_def validRune_def simp flip: x_def y_def z_def)
    next
      case 3
      define x y z w where "x = byteN a - 240" and "y = byteN b - 128" and "z = byteN c - 128" and "w = byteN d - 128"
      have xy: "byteN a = x + 240" "byteN b = y + 128" "byteN c = z + 128" "byteN d = w + 128" "x < 5" "y < 64" "z < 64" "w < 64"
          "x = 0 \<longrightarrow> 16 \<le> y" "x = 4 \<longrightarrow> y < 16"
        using 3 by (auto simp: x_def y_def z_def w_def isCont_def)
      let ?r = "x * 262144 + y * 4096 + z * 64 + w"
      have q: "?r = ((x * 64 + y) * 64 + z) * 64 + w" by simp
      have "?r div 64 = (x * 64 + y) * 64 + z" "?r mod 64 = w" unfolding q using digit64 [OF xy(8)] by blast+
      moreover from this(1) have "?r div 4096 = x * 64 + y"
        using digit64(1) [OF xy(7)] div_mult2_eq [of ?r 64 64] by simp
      moreover from this have "?r div 262144 = x" using xy(6) div_mult2_eq [of ?r 4096 64] by simp
      moreover have "[char_of (240 + x), char_of (128 + y), char_of (128 + z), char_of (128 + w)] = [a, b, c, d]"
        using \<open>\<And>x. char_of (byteN x) = x\<close> [of a] \<open>\<And>x. char_of (byteN x) = x\<close> [of b] \<open>\<And>x. char_of (byteN x) = x\<close> [of c]
          \<open>\<And>x. char_of (byteN x) = x\<close> [of d]
        by (simp add: xy(1-4) add.commute)
      moreover have "4096 * x + y * 64 + z = (x * 64 + y) * 64 + z" by simp
      then have "(4096 * x + y * 64 + z) mod 64 = z" using digit64(2) [OF xy(7)] by metis
      moreover have "0 < x \<or> 16 \<le> y" "x < 4 \<or> y < 16" using xy(5,9,10) by auto
      then have "65536 \<le> ?r" "?r \<le> 1114111" using xy(5-8) by linarith+
      moreover have "take 4 s = [a, b, c, d]" by (simp add: s 3(1))
      ultimately show ?thesis using xy(6,7) unfolding 3(9) fst_conv snd_conv
        by (simp add: EncodeRune_def validRune_def flip: x_def y_def z_def w_def)
    qed
  qed
  then show "validRune (fst (DecodeRune s))" "EncodeRune (fst (DecodeRune s)) = take (snd (DecodeRune s)) s" by simp_all
qed

text \<open>Whatever a string decodes to is a list of valid runes, and encoding valid UTF-8 back gives the string.\<close>

lemma validRune_DecodeRune: "validRune (fst (DecodeRune s))"
proof (cases "s = [] \<or> DecodeRune s = (RuneError, 1)")
  case False
  then show ?thesis using EncodeRune_DecodeRune(1) by blast
qed (auto simp: validRune_def RuneError_def)

lemma validRune_Runes: "list_all validRune (Runes s)"
proof (induction "length s" arbitrary: s rule: less_induct)
  case less
  show ?case
  proof (cases "s = []")
    case False
    then have "length (drop (snd (DecodeRune s)) s) < length s" using DecodeRune_width [of s] by (cases s) auto
    from less [OF this] False show ?thesis by (simp add: Runes_rec validRune_DecodeRune)
  qed simp
qed

lemma Runes_string_Runes [simp]: "Runes (runeString (Runes s)) = Runes s"
  by (rule Runes_runeString [OF validRune_Runes])

lemma runeString_Runes: "utf8Valid s \<Longrightarrow> runeString (Runes s) = s"
proof (induction s rule: utf8Valid.induct)
  case (1 s)
  show ?case
  proof (cases "s = []")
    case False
    with 1(2) have v: "DecodeRune s \<noteq> (RuneError, 1)" "utf8Valid (drop (snd (DecodeRune s)) s)"
      by (subst (asm) utf8Valid.simps, simp split: if_splits)+
    from 1(1) [OF False v(1,2)] EncodeRune_DecodeRune(2) [OF False v(1)] False show ?thesis
      by (simp add: Runes_rec)
  qed simp
qed

lemma Runes_ascii: "isASCII s \<Longrightarrow> Runes s = map byteN s"
  by (induction s) (simp_all add: isASCII_def Runes_rec)

lemma runeString_ascii: "isASCII s \<Longrightarrow> runeString (map byteN s) = s"
  by (induction s) (simp_all add: isASCII_def EncodeRune_def)

text \<open>\<open>strings.ToLower\<close> lower-cases every rune.\<close>

lemma isASCII_lowerByte: "isASCII s \<Longrightarrow> isASCII (map lowerByte s)"
  by (auto simp: isASCII_def list_all_iff lowerByte_def)

lemma ToLower_runes: "ToLower uc s = runeString (map (lowerRune uc) (Runes s))"
proof (cases "isASCII s")
  case True
  have "map byteN (map lowerByte s) = map (lowerRune uc) (map byteN s)"
    using True by (auto simp: isASCII_def list_all_iff lowerByte_def lowerRune_def)
  then show ?thesis
    using True runeString_ascii [OF isASCII_lowerByte [OF True]] by (simp add: ToLower_def Runes_ascii del: map_map)
qed (simp add: ToLower_def)

end
