(* ===== verification/GoJson.thy ===== *)
theory GoJson
  imports GoUtf8
begin

text \<open>
  What the code uses of \<open>encoding/json\<close>: the JSON text of strings, numbers and flat objects, written with the escaping of \<open>json.Marshal\<close> and read back with
  the rules of \<open>json.Unmarshal\<close>. A \<open>time.Time\<close> field is its RFC 3339 text.
\<close>

subsection \<open>Writing\<close>

definition hexDigit :: "nat \<Rightarrow> char" where
  "hexDigit n = ''0123456789abcdef'' ! (n mod 16)"

definition escapeByte :: "char \<Rightarrow> bytes" where
  "escapeByte b =
     (if b = CHR 0x22 \<or> b = CHR 0x5C then [CHR 0x5C, b]
      else if b = CHR 0x08 then [CHR 0x5C, CHR ''b'']
      else if b = CHR 0x0C then [CHR 0x5C, CHR ''f'']
      else if b = CHR 0x0A then [CHR 0x5C, CHR ''n'']
      else if b = CHR 0x0D then [CHR 0x5C, CHR ''r'']
      else if b = CHR 0x09 then [CHR 0x5C, CHR ''t'']
      else if byteN b < 32 \<or> b = CHR ''<'' \<or> b = CHR ''>'' \<or> b = CHR ''&''
      then [CHR 0x5C, CHR ''u'', CHR ''0'', CHR ''0'', hexDigit (byteN b div 16), hexDigit (byteN b mod 16)]
      else [b])"

function escapeString :: "bytes \<Rightarrow> bytes" where
  "escapeString s =
     (case s of
        [] \<Rightarrow> []
      | b # bs \<Rightarrow>
          if byteN b < 128 then escapeByte b @ escapeString bs
          else (case DecodeRune s of (r, n) \<Rightarrow>
            if r = RuneError \<and> n = 1 then CHR 0x5C # ''ufffd'' @ escapeString bs
            else if r = 8232 \<or> r = 8233
            then CHR 0x5C # ''u202'' @ [hexDigit (r mod 16)] @ escapeString (drop n s)
            else take n s @ escapeString (drop n s)))"
  by pat_completeness auto

termination
  by (relation "measure length") (auto dest: DecodeRune_drop [OF sym] simp del: length_drop)

declare escapeString.simps [simp del]

definition jsonString :: "bytes \<Rightarrow> bytes" where
  "jsonString s = CHR 0x22 # escapeString s @ [CHR 0x22]"

fun jsonFields :: "(bytes \<times> bytes) list \<Rightarrow> bytes" where
  "jsonFields [] = []"
| "jsonFields [(k, v)] = jsonString k @ '':'' @ v"
| "jsonFields ((k, v) # f # fs) = jsonString k @ '':'' @ v @ '','' @ jsonFields (f # fs)"

definition jsonObject :: "(bytes \<times> bytes) list \<Rightarrow> bytes" where
  "jsonObject fs = ''{'' @ jsonFields fs @ ''}''"

end
