(* ===== verification/InvIndex.thy ===== *)
theory InvIndex
  imports InvCodec GoJson
begin

text \<open>
  Package \<open>invertedindex\<close>, the operations: reads (\<open>Search\<close>, \<open>GetDocs\<close>, \<open>readForward\<close>), the write
  and delete caches with their flushes (\<open>pending_writes.go\<close>), document updates (\<open>invertedindex.go\<close>,
  \<open>invertedindex_internal.go\<close>) and tables (\<open>table.go\<close>). All of them run on the single worker of the
  queue, so an operation is one step on \<open>Index \<times> PebbleDB\<close>; \<open>None\<close> is the nil dereference of
  \<open>NewBatch\<close> on a closed store.

  What the operations take from the outside is in \<open>env\<close>: each reading of the clock, and the order in
  which a Go map of docids is walked.
\<close>

record env =
  en_now :: int
  en_sinceW :: int
  en_nowW :: int
  en_sinceD :: int
  en_nowD :: int
  en_tick :: "bytes \<Rightarrow> int"
  en_order :: "docid list \<Rightarrow> docid list"

type_synonym istate = "Index \<times> PebbleDB"
type_synonym bstate = "Index \<times> (PebbleDB \<times> PebbleBatch)"

subsection \<open>Reads\<close>

definition searchCallback :: "int \<Rightarrow> (bytes \<Rightarrow> bool) option \<Rightarrow> docid list callback" where
  "searchCallback limit filterKeyword ids key value =
     (if (case filterKeyword of None \<Rightarrow> False | Some f \<Rightarrow> \<not> f key) then (ids, True)
      else let ids' = fold List.insert (decodeDeltas 0 value) ids
           in (ids', \<not> (0 < limit \<and> limit \<le> int (length ids'))))"

definition Search :: "unicode \<Rightarrow> Index \<Rightarrow> PebbleDB \<Rightarrow> int \<Rightarrow> bytes \<Rightarrow> int \<Rightarrow> (bytes \<Rightarrow> bool) option \<Rightarrow> docid list" where
  "Search uc idx db tableId query limit filterKeyword =
     fst (kvScan (encodeInvertedSearchKey idx tableId (ToLower uc query)) (searchCallback limit filterKeyword) [] db)"

definition getDocsCallback :: "Index \<Rightarrow> bytes \<Rightarrow> docid list callback" where
  "getDocsCallback idx want ids k value =
     (case decodeInvertedKey idx k of (_, kw, _, _) \<Rightarrow>
        if kw \<noteq> want then (ids, True) else (fold List.insert (decodeDeltas 0 value) ids, True))"

definition GetDocs :: "Index \<Rightarrow> PebbleDB \<Rightarrow> int \<Rightarrow> bytes \<Rightarrow> docid list" where
  "GetDocs idx db tableId key =
     fst (kvScan (encodeInvertedKeyPrefix idx tableId key) (getDocsCallback idx key) [] db)"

definition readForward :: "Index \<Rightarrow> PebbleDB \<Rightarrow> int \<Rightarrow> docid \<Rightarrow> bytes list option" where
  "readForward idx db tableId docid =
     (case kvGet (encodeForwardKey idx tableId docid) db of
        Inl _ \<Rightarrow> None
      | Inr v \<Rightarrow> map_option decodeForwardValue v)"

subsection \<open>Batches of posting rows\<close>

definition newIndexBatch :: "PebbleDB \<Rightarrow> PebbleBatch option" where
  "newIndexBatch db = NewBatch 512 db"

definition writeInvertedIndex :: "int \<Rightarrow> bytes \<Rightarrow> docid list \<Rightarrow> int \<Rightarrow> bstate \<Rightarrow> bstate" where
  "writeInvertedIndex tableId kw docids tick s =
     (case s of (idx, bs) \<Rightarrow>
        (case encodeInvertedValueCounted docids of (content, unique) \<Rightarrow>
           (case encodeInvertedKey idx tableId kw unique tick of (key, idx') \<Rightarrow>
              (idx', fst (batchPut key content bs)))))"

definition removeScan :: "Index \<Rightarrow> bytes \<Rightarrow> docid list \<Rightarrow> int \<Rightarrow> (bytes list \<times> docid list) callback" where
  "removeScan idx kw removings maxSize acc key value =
     (case acc of (keys, docids) \<Rightarrow>
        (case decodeInvertedKey idx key of (_, k, _, _) \<Rightarrow>
           if k \<noteq> kw then (acc, True)
           else
             let ids = decodeInvertedValue value;
                 tmpids = filter (\<lambda>d. d \<notin> set removings) ids
             in if (\<exists>d\<in>set ids. d \<in> set removings) \<or> int (length tmpids) < maxSize div 2
                then ((keys @ [key], fold List.insert tmpids docids), True)
                else (acc, True)))"

text \<open>The rows rewritten from the remaining docids, \<open>maxSize\<close> at a time (\<open>maxSize\<close> comes from
  \<open>maxInvertedIndexSize\<close> and is positive).\<close>

function chunks :: "nat \<Rightarrow> docid list \<Rightarrow> docid list list" where
  "chunks n xs = (if xs = [] \<or> n = 0 then [] else take n xs # chunks n (drop n xs))"
  by pat_completeness auto

termination
  by (relation "measure (length \<circ> snd)") auto

declare chunks.simps [simp del]

definition removeDocumentsFromInvertedIndex ::
  "env \<Rightarrow> int \<Rightarrow> bytes \<Rightarrow> docid list \<Rightarrow> int \<Rightarrow> bstate \<Rightarrow> bstate" where
  "removeDocumentsFromInvertedIndex e tableId kw removingDocids maxSize s =
     (case s of (idx, (db, b)) \<Rightarrow>
        if kw = [] \<or> removingDocids = [] then s
        else case kvScan (encodeInvertedKeyPrefix idx tableId kw)
                    (removeScan idx kw removingDocids maxSize) ([], []) db of
          (_, Some _) \<Rightarrow> s
        | ((keys, docids), None) \<Rightarrow>
            (case fold (\<lambda>docs. writeInvertedIndex tableId kw docs (en_tick e kw))
                    (chunks (nat maxSize) (en_order e docids)) s of
               (idx', bs) \<Rightarrow> (idx', fold (\<lambda>key bs. fst (batchDelete key bs)) keys bs)))"

fun dedupLoop :: "docid list \<Rightarrow> docid list \<Rightarrow> docid list \<Rightarrow> docid list" where
  "dedupLoop seen result [] = result"
| "dedupLoop seen result (docid # docids) =
     (if docid \<in> set seen then dedupLoop seen result docids else dedupLoop (docid # seen) (result @ [docid]) docids)"

definition removeDuplicatesEfficiently :: "docid list \<Rightarrow> docid list" where
  "removeDuplicatesEfficiently docids = (if length docids \<le> 1 then docids else dedupLoop [] [] docids)"

subsection \<open>Write and delete caches\<close>

definition newPending :: "int \<Rightarrow> pendingTableWrites" where
  "newPending tableId = \<lparr>ptw_TableId = tableId, ptw_InvertedIndex = []\<rparr>"

definition getPending :: "int \<Rightarrow> (int \<times> pendingTableWrites) list \<Rightarrow> pendingTableWrites" where
  "getPending tableId m = (case map_of m tableId of None \<Rightarrow> newPending tableId | Some wp \<Rightarrow> wp)"

definition pendingDocs :: "pendingTableWrites \<Rightarrow> bytes \<Rightarrow> docid list" where
  "pendingDocs wp kw =
     (case map_of (ptw_InvertedIndex wp) kw of None \<Rightarrow> [] | Some rd \<Rightarrow> rd_DocIds rd)"

definition bufferDoc :: "int \<Rightarrow> docid \<Rightarrow> bytes \<Rightarrow> pendingTableWrites \<Rightarrow> pendingTableWrites" where
  "bufferDoc now docid kw wp =
     wp\<lparr>ptw_InvertedIndex :=
          AList.update kw \<lparr>rd_DocIds = pendingDocs wp kw @ [docid], rd_UpdatedAt = now\<rparr> (ptw_InvertedIndex wp)\<rparr>"

definition bufferDocs ::
  "int \<Rightarrow> int \<Rightarrow> docid \<Rightarrow> bytes list \<Rightarrow> (int \<times> pendingTableWrites) list \<Rightarrow> (int \<times> pendingTableWrites) list" where
  "bufferDocs now tableId docid keywords m =
     AList.update tableId (fold (bufferDoc now docid) keywords (getPending tableId m)) m"

definition dropPending :: "int \<Rightarrow> bytes \<Rightarrow> (int \<times> pendingTableWrites) list \<Rightarrow> (int \<times> pendingTableWrites) list" where
  "dropPending tableId kw m =
     (case map_of m tableId of
        None \<Rightarrow> m
      | Some wp \<Rightarrow>
          (case AList.delete kw (ptw_InvertedIndex wp) of
             [] \<Rightarrow> AList.delete tableId m
           | rest \<Rightarrow> AList.update tableId (wp\<lparr>ptw_InvertedIndex := rest\<rparr>) m))"

definition flushWriteEntry ::
  "env \<Rightarrow> bool \<Rightarrow> bool \<Rightarrow> int \<Rightarrow> bytes \<times> relatedDocs \<Rightarrow> bstate \<Rightarrow> bstate" where
  "flushWriteEntry e closing force tableId entry s =
     (case entry of (kw, rd) \<Rightarrow>
      case s of (idx0, _) \<Rightarrow>
        if \<not> closing \<and> \<not> force \<and> int (length (rd_DocIds rd)) < flushWaitBatchSize (idx_opts idx0) \<and>
           en_nowW e - rd_UpdatedAt rd < flushWaitTimeout (idx_opts idx0)
        then s
        else case writeInvertedIndex tableId kw (rd_DocIds rd) (en_nowW e div 1000) s of
          (idx, bs) \<Rightarrow>
            (idx\<lparr>idx_pendingWritePostings := idx_pendingWritePostings idx - int (length (rd_DocIds rd)),
                 idx_pendingWrites := dropPending tableId kw (idx_pendingWrites idx)\<rparr>, bs))"

definition flushPendingWrites :: "env \<Rightarrow> bool \<Rightarrow> bool \<Rightarrow> istate \<Rightarrow> istate option" where
  "flushPendingWrites e closing force s =
     (case s of (idx, db) \<Rightarrow>
        if \<not> closing \<and> \<not> force \<and> en_sinceW e - idx_lastFlushWriteTime idx < flushCooldown (idx_opts idx)
        then Some s
        else case newIndexBatch db of
          None \<Rightarrow> None
        | Some b \<Rightarrow>
            (case fold (\<lambda>(_, wp). fold (flushWriteEntry e closing force (ptw_TableId wp)) (ptw_InvertedIndex wp))
                    (idx_pendingWrites idx) (idx\<lparr>idx_lastFlushWriteTime := en_nowW e\<rparr>, (db, b)) of
               (idx', bs) \<Rightarrow> Some (idx', fst (fst (batchCommit bs)))))"

definition flushDeleteEntry ::
  "env \<Rightarrow> bool \<Rightarrow> bool \<Rightarrow> int \<Rightarrow> int \<Rightarrow> bytes \<times> relatedDocs \<Rightarrow> bstate \<Rightarrow> bstate" where
  "flushDeleteEntry e closing force maxSize tableId entry s =
     (case entry of (kw, rd) \<Rightarrow>
      case s of (idx0, _) \<Rightarrow>
        if \<not> closing \<and> \<not> force \<and> int (length (rd_DocIds rd)) < flushDeleteWaitBatchSize (idx_opts idx0) \<and>
           en_nowD e - rd_UpdatedAt rd < flushDeleteWaitTimeout (idx_opts idx0)
        then s
        else case removeDocumentsFromInvertedIndex e tableId kw (rd_DocIds rd) maxSize s of
          (idx, bs) \<Rightarrow>
            (idx\<lparr>idx_pendingDeletePostings := idx_pendingDeletePostings idx - int (length (rd_DocIds rd)),
                 idx_pendingDeletes := dropPending tableId kw (idx_pendingDeletes idx)\<rparr>, bs))"

definition flushPendingDeletes :: "env \<Rightarrow> bool \<Rightarrow> bool \<Rightarrow> int \<Rightarrow> istate \<Rightarrow> istate option" where
  "flushPendingDeletes e closing force maxSize s =
     (case s of (idx, db) \<Rightarrow>
        if \<not> closing \<and> \<not> force \<and> en_sinceD e - idx_lastFlushDeleteTime idx < flushCooldown (idx_opts idx)
        then Some s
        else case newIndexBatch db of
          None \<Rightarrow> None
        | Some b \<Rightarrow>
            (case fold (\<lambda>(_, wp). fold (flushDeleteEntry e closing force maxSize (ptw_TableId wp)) (ptw_InvertedIndex wp))
                    (idx_pendingDeletes idx) (idx\<lparr>idx_lastFlushDeleteTime := en_nowD e\<rparr>, (db, b)) of
               (idx', bs) \<Rightarrow> Some (idx', fst (fst (batchCommit bs)))))"

definition flushPendingWritesTask :: "env \<Rightarrow> bool \<Rightarrow> istate \<Rightarrow> istate option" where
  "flushPendingWritesTask e closing s =
     Option.bind (flushPendingWrites e closing closing s)
       (\<lambda>s'. flushPendingDeletes e closing closing (maxInvertedIndexSize (idx_opts (fst s'))) s')"

text \<open>\<open>CloseAndWait\<close>: once the ticker and the merger have stopped, a last flush.\<close>

definition CloseAndWait :: "env \<Rightarrow> istate \<Rightarrow> istate option" where
  "CloseAndWait e s = flushPendingWritesTask e True s"

definition maybeFlushOnPressure :: "env \<Rightarrow> istate \<Rightarrow> istate option" where
  "maybeFlushOnPressure e s =
     (let mx = maxPendingPostings (idx_opts (fst s)) in
      if mx \<le> 0 then Some s
      else Option.bind (if mx \<le> idx_pendingWritePostings (fst s) then flushPendingWrites e False True s else Some s)
        (\<lambda>s1. if mx \<le> idx_pendingDeletePostings (fst s1)
              then flushPendingDeletes e False True (maxInvertedIndexSize (idx_opts (fst s1))) s1
              else Some s1))"

definition sumPostings :: "(int \<times> pendingTableWrites) list \<Rightarrow> int \<Rightarrow> int" where
  "sumPostings m tableId =
     (case map_of m tableId of
        None \<Rightarrow> 0
      | Some wp \<Rightarrow> sum_list (map (\<lambda>(_, rd). int (length (rd_DocIds rd))) (ptw_InvertedIndex wp)))"

definition clearPendingWrites :: "int \<Rightarrow> Index \<Rightarrow> Index" where
  "clearPendingWrites tableId idx =
     idx\<lparr>idx_pendingWritePostings := idx_pendingWritePostings idx - sumPostings (idx_pendingWrites idx) tableId,
         idx_pendingDeletePostings := idx_pendingDeletePostings idx - sumPostings (idx_pendingDeletes idx) tableId,
         idx_pendingWrites := AList.delete tableId (idx_pendingWrites idx),
         idx_pendingDeletes := AList.delete tableId (idx_pendingDeletes idx)\<rparr>"

subsection \<open>Document updates\<close>

definition updateIndex :: "env \<Rightarrow> int \<Rightarrow> docid \<Rightarrow> bytes list \<Rightarrow> istate \<Rightarrow> istate option" where
  "updateIndex e tableId docid keywords s =
     (case s of (idx, db) \<Rightarrow>
        maybeFlushOnPressure e
          (idx\<lparr>idx_pendingWrites := bufferDocs (en_now e) tableId docid keywords (idx_pendingWrites idx),
               idx_pendingWritePostings := idx_pendingWritePostings idx + int (length keywords)\<rparr>, db))"

definition removeIndex :: "env \<Rightarrow> int \<Rightarrow> docid \<Rightarrow> bytes list \<Rightarrow> istate \<Rightarrow> istate option" where
  "removeIndex e tableId docid keywords s =
     (case s of (idx, db) \<Rightarrow>
        maybeFlushOnPressure e
          (idx\<lparr>idx_pendingDeletes := bufferDocs (en_now e) tableId docid keywords (idx_pendingDeletes idx),
               idx_pendingDeletePostings := idx_pendingDeletePostings idx + int (length keywords)\<rparr>, db))"

definition putForward :: "int \<Rightarrow> docid \<Rightarrow> bytes list \<Rightarrow> istate \<Rightarrow> istate" where
  "putForward tableId docid keywords s =
     (case s of (idx, db) \<Rightarrow>
        (idx, fst (kvPut (encodeForwardKey idx tableId docid) (encodeForwardValue keywords) db)))"

definition Add :: "env \<Rightarrow> int \<Rightarrow> docid \<Rightarrow> bytes list \<Rightarrow> istate \<Rightarrow> istate option" where
  "Add e tableId docid keywords s =
     (if keywords = [] then Some s
      else map_option (putForward tableId docid keywords) (updateIndex e tableId docid keywords s))"

definition DeleteDoc :: "env \<Rightarrow> int \<Rightarrow> docid \<Rightarrow> istate \<Rightarrow> istate option" where
  "DeleteDoc e tableId docid s =
     map_option (\<lambda>(idx, db). (idx, fst (kvDelete (encodeForwardKey idx tableId docid) db)))
       (case readForward (fst s) (snd s) tableId docid of
          None \<Rightarrow> Some s
        | Some old \<Rightarrow> if old \<noteq> [] then removeIndex e tableId docid old s else Some s)"

text \<open>The two sets compared by \<open>Update\<close>: empty strings are left out of the comparison maps only.\<close>

definition newWords :: "bytes list \<Rightarrow> bytes list \<Rightarrow> bytes list" where
  "newWords keywords old = filter (\<lambda>kw. kw \<notin> set (filter (\<lambda>w. w \<noteq> []) old)) keywords"

definition removedWords :: "bytes list \<Rightarrow> bytes list \<Rightarrow> bytes list" where
  "removedWords keywords old = filter (\<lambda>kw. kw \<notin> set (filter (\<lambda>w. w \<noteq> []) keywords)) old"

definition UpdateDoc :: "env \<Rightarrow> env \<Rightarrow> int \<Rightarrow> docid \<Rightarrow> bytes list \<Rightarrow> istate \<Rightarrow> istate option" where
  "UpdateDoc e1 e2 tableId docid keywords s =
     (if keywords = [] then DeleteDoc e1 tableId docid s
      else case readForward (fst s) (snd s) tableId docid of
        None \<Rightarrow> Add e1 tableId docid keywords s
      | Some old \<Rightarrow>
          map_option (putForward tableId docid keywords)
            (Option.bind (removeIndex e1 tableId docid (removedWords keywords old) s)
               (\<lambda>s1. if newWords keywords old \<noteq> [] then updateIndex e2 tableId docid (newWords keywords old) s1
                     else Some s1)))"

subsection \<open>Tables\<close>

record TableInfo =
  ti_Id :: int
  ti_CreatedAt :: bytes
  ti_Description :: bytes

definition encodeTableValue :: "TableInfo \<Rightarrow> bytes" where
  "encodeTableValue info =
     jsonObject [(''id'', itoa (ti_Id info)), (''created_time'', jsonString (ti_CreatedAt info)),
                 (''description'', jsonString (ti_Description info))]"

definition CreateTable :: "bytes \<Rightarrow> bytes \<Rightarrow> istate \<Rightarrow> istate \<times> int \<times> error option" where
  "CreateTable now description s =
     (case s of (idx, db) \<Rightarrow>
        (case GetIncrementalId (encodeNextTableIdKey idx) db of
           (db', Inl e) \<Rightarrow> ((idx, db'), - 1, Some e)
         | (db', Inr tableId) \<Rightarrow>
             (case kvPut (encodeTableKey idx tableId)
                     (encodeTableValue \<lparr>ti_Id = tableId, ti_CreatedAt = now, ti_Description = description\<rparr>) db' of
                (db'', e) \<Rightarrow> ((idx, db''), tableId, e))))"

definition DeleteTable :: "int \<Rightarrow> istate \<Rightarrow> (istate \<times> error option) option" where
  "DeleteTable tableId s =
     (case s of (idx0, db) \<Rightarrow>
        let idx = clearPendingWrites tableId idx0 in
        case NewBatch 0 db of
          None \<Rightarrow> None
        | Some b \<Rightarrow>
            (case batchCommit
                    (fst (batchDelete (encodeTableKey idx tableId)
                       (fst (batchDeletePrefix (encodeForwardKeyPrefix idx tableId)
                          (fst (batchDeletePrefix (encodeInvertedSearchKey idx tableId []) (db, b))))))) of
               ((db', _), e) \<Rightarrow> Some ((idx, db'), e)))"

end
