(* ===== verification/InvPosts.thy ===== *)
theory InvPosts
  imports InvIndex
begin

text \<open>
  The postings of a store: what the rows of a map say about a table and a keyword, how the batch
  operations of the index change it, and that the reads \<open>GetDocs\<close> and \<open>Search\<close> return it.
\<close>

subsection \<open>Rows of a map\<close>

definition posts :: "char \<Rightarrow> (bytes \<rightharpoonup> bytes) \<Rightarrow> int \<Rightarrow> bytes \<Rightarrow> docid set" where
  "posts r m tid kw = {d. \<exists>c t n v. m (rowKey r tid kw c t n) = Some v \<and> d \<in> set (decodeInvertedValue v)}"

text \<open>Every key under the row byte is one this package wrote, for positive docids (the ids that
  \<open>idtable\<close> hands out).\<close>

definition rows_wf :: "char \<Rightarrow> (bytes \<rightharpoonup> bytes) \<Rightarrow> bool" where
  "rows_wf r m \<longleftrightarrow>
     (\<forall>k v. m k = Some v \<and> isKeyType k r \<longrightarrow>
        (\<exists>tid kw c t n. k = rowKey r tid kw c t n \<and> is_int64 tid \<and> is_int64 c) \<and>
        (\<forall>d\<in>set (decodeInvertedValue v). 0 < sint d))"

text \<open>No stored row has a sequence number above \<open>n\<close> with one of the ticks in \<open>T\<close>.\<close>

definition seq_fresh :: "char \<Rightarrow> int set \<Rightarrow> nat \<Rightarrow> (bytes \<rightharpoonup> bytes) \<Rightarrow> bool" where
  "seq_fresh r T n m \<longleftrightarrow> (\<forall>tid kw c t n'. t \<in> T \<and> n < n' \<longrightarrow> m (rowKey r tid kw c t n') = None)"

lemma rows_wfE:
  assumes "rows_wf r m" "m k = Some v" "isKeyType k r"
  obtains tid kw c t n where "k = rowKey r tid kw c t n" "is_int64 tid" "is_int64 c"
    "\<forall>d\<in>set (decodeInvertedValue v). 0 < sint d"
  using assms unfolding rows_wf_def by blast

lemma posts_memI:
  "m (rowKey r tid kw c t n) = Some v \<Longrightarrow> d \<in> set (decodeInvertedValue v) \<Longrightarrow> d \<in> posts r m tid kw"
  by (auto simp: posts_def)

lemma posts_put:
  assumes "m (rowKey r tid kw c t n) = None"
  shows "posts r (m(rowKey r tid kw c t n \<mapsto> v)) tid' kw' =
    (if tid' = tid \<and> kw' = kw then posts r m tid kw \<union> set (decodeInvertedValue v) else posts r m tid' kw')"
proof -
  have "posts r (m(rowKey r tid kw c t n \<mapsto> v)) tid' kw' = posts r m tid' kw'" if "\<not> (tid' = tid \<and> kw' = kw)"
    unfolding posts_def using that by (auto dest: rowKey_inj)
  moreover have "posts r (m(rowKey r tid kw c t n \<mapsto> v)) tid kw = posts r m tid kw \<union> set (decodeInvertedValue v)"
    (is "?A = ?B")
  proof
    show "?A \<subseteq> ?B" unfolding posts_def by (auto split: if_splits)
    show "?B \<subseteq> ?A"
    proof
      fix d assume "d \<in> ?B"
      then consider c' t' n' v' where "m (rowKey r tid kw c' t' n') = Some v'" "d \<in> set (decodeInvertedValue v')"
        | "d \<in> set (decodeInvertedValue v)" unfolding posts_def by auto
      then show "d \<in> ?A"
      proof cases
        case 1
        then have "rowKey r tid kw c' t' n' \<noteq> rowKey r tid kw c t n" using assms by auto
        with 1 show ?thesis by (intro posts_memI [of _ _ _ _ c' t' n' v']) simp_all
      next
        case 2
        then show ?thesis by (intro posts_memI [of _ _ _ _ c t n v]) simp_all
      qed
    qed
  qed
  ultimately show ?thesis by auto
qed

lemma posts_cong:
  "(\<And>c t n. m (rowKey r tid kw c t n) = m' (rowKey r tid kw c t n)) \<Longrightarrow> posts r m tid kw = posts r m' tid kw"
  by (simp add: posts_def)

lemma rows_wf_put:
  assumes "rows_wf r m" "is_int64 tid" "is_int64 c" "\<forall>d\<in>set (decodeInvertedValue v). 0 < sint d"
  shows "rows_wf r (m(rowKey r tid kw c t n \<mapsto> v))"
  using assms unfolding rows_wf_def by (fastforce split: if_splits)

lemma rows_wf_other:
  assumes "rows_wf r m" "\<not> isKeyType k r"
  shows "rows_wf r (m(k := x))"
  using assms unfolding rows_wf_def by (auto split: if_splits)

lemma rows_wf_delete: "rows_wf r m \<Longrightarrow> rows_wf r (m(k := None))"
  unfolding rows_wf_def by (auto split: if_splits)

lemma seq_fresh_put:
  assumes "seq_fresh r T n m" "n < n'"
  shows "seq_fresh r T n' (m(rowKey r tid kw c t n' \<mapsto> v))"
  using assms unfolding seq_fresh_def by (auto dest!: rowKey_inj)

lemma seq_fresh_delete: "seq_fresh r T n m \<Longrightarrow> seq_fresh r T n (m(k := None))"
  unfolding seq_fresh_def by auto

lemma seq_fresh_other: "seq_fresh r T n m \<Longrightarrow> \<not> isKeyType k r \<Longrightarrow> seq_fresh r T n (m(k := x))"
  unfolding seq_fresh_def by auto

subsection \<open>Reads\<close>

lemma set_fold_insert: "set (fold List.insert xs ys) = set xs \<union> set ys"
  by (induction xs arbitrary: ys) auto

lemma decodeInvertedValue_deltas: "decodeInvertedValue v = decodeDeltas 0 v"
  by (simp add: decodeInvertedValue_def decodeDeltas.simps)

definition rowKeyword :: "Index \<Rightarrow> bytes \<Rightarrow> bytes" where
  "rowKeyword idx k = fst (snd (decodeInvertedKey idx k))"

lemma rowKeyword_row [simp]:
  "is_int64 tid \<Longrightarrow> is_int64 c \<Longrightarrow> rowKeyword idx (rowKey (idx_keyTypeRow idx) tid kw c t n) = kw"
  by (simp add: rowKeyword_def decode_rowKey)

lemma set_fold_rows:
  "set (fold (\<lambda>(k, v) ids. if P k then fold List.insert (f v) ids else ids) kvs ids) =
     set ids \<union> {d. \<exists>k v. (k, v) \<in> set kvs \<and> P k \<and> d \<in> set (f v)}"
proof (induction kvs arbitrary: ids)
  case (Cons kv kvs)
  obtain k v where "kv = (k, v)" by (cases kv)
  with Cons show ?case by (auto simp: set_fold_insert)
qed simp

text \<open>The rows of one keyword, as a prefix scan with a check of the decoded keyword finds them.\<close>

lemma keyword_rows:
  assumes wf: "rows_wf (idx_keyTypeRow idx) m"
  shows "prefix (encodeInvertedKeyPrefix idx tid kw) k \<and> m k = Some v \<and> rowKeyword idx k = kw \<longleftrightarrow>
    (\<exists>c t n. k = rowKey (idx_keyTypeRow idx) tid kw c t n \<and> m k = Some v)"
proof (intro iffI; elim conjE exE)
  assume k: "prefix (encodeInvertedKeyPrefix idx tid kw) k" "m k = Some v" "rowKeyword idx k = kw"
  have "isKeyType k (idx_keyTypeRow idx)"
    using k(1) by (auto simp: encodeInvertedKeyPrefix_def appendInvertedKeyPrefix_def isKeyType_def prefix_def)
  then obtain tid' kw' c t n
    where r: "k = rowKey (idx_keyTypeRow idx) tid' kw' c t n" "is_int64 tid'" "is_int64 c"
    by (rule rows_wfE [OF wf k(2)])
  then have "tid' = tid" "kw' = kw" using k(1,3) by (simp_all add: keyPrefix_row)
  then show "\<exists>c t n. k = rowKey (idx_keyTypeRow idx) tid kw c t n \<and> m k = Some v" using r(1) k(2) by blast
next
  fix c t n
  assume v: "k = rowKey (idx_keyTypeRow idx) tid kw c t n" "m k = Some v"
  have "isKeyType k (idx_keyTypeRow idx)" by (simp add: v(1))
  then obtain tid' kw' c' t' n' where
    r: "k = rowKey (idx_keyTypeRow idx) tid' kw' c' t' n'" "is_int64 tid'" "is_int64 c'"
    by (rule rows_wfE [OF wf v(2)])
  from rowKey_inj [OF r(1) [unfolded v(1)]] r have "is_int64 tid" "is_int64 c" by simp_all
  then show "prefix (encodeInvertedKeyPrefix idx tid kw) k \<and> m k = Some v \<and> rowKeyword idx k = kw"
    using v keyPrefix_own_row by simp
qed

lemma GetDocs_posts:
  assumes ok: "kv_ok db" and wf: "rows_wf (idx_keyTypeRow idx) (kv_map db)"
  shows "set (GetDocs idx db tid kw) = posts (idx_keyTypeRow idx) (kv_map db) tid kw"
proof -
  have cb: "getDocsCallback idx kw =
      (\<lambda>s k v. (if rowKeyword idx k = kw then fold List.insert (decodeDeltas 0 v) s else s, True))"
    by (intro ext) (simp add: getDocsCallback_def rowKeyword_def split: prod.split)
  have "set (GetDocs idx db tid kw) =
      {d. \<exists>k v. (prefix (encodeInvertedKeyPrefix idx tid kw) k \<and> kv_map db k = Some v \<and> rowKeyword idx k = kw) \<and>
           d \<in> set (decodeDeltas 0 v)}"
    unfolding GetDocs_def cb kvScan_fold [OF ok] fst_conv set_fold_rows [where P = "\<lambda>k. rowKeyword idx k = kw"]
    by (auto simp: prefixEntries_iff [OF ok])
  then show ?thesis unfolding keyword_rows [OF wf] by (auto simp: posts_def decodeInvertedValue_deltas)
qed

text \<open>A search without limit and filter, for a query whose lower-case form is free of the delimiter, returns the postings of
  every keyword that starts with the lower-cased query.\<close>

lemma Search_posts:
  assumes ok: "kv_ok db" and wf: "rows_wf (idx_keyTypeRow idx) (kv_map db)" and q': "bar \<notin> set (ToLower uc q)" and l: "limit \<le> 0"
  shows "set (Search uc idx db tid q limit None) =
    (\<Union>kw\<in>{kw. prefix (ToLower uc q) kw}. posts (idx_keyTypeRow idx) (kv_map db) tid kw)"
proof -
  let ?r = "idx_keyTypeRow idx"
  have cb: "searchCallback limit None = (\<lambda>s k v. (if True then fold List.insert (decodeDeltas 0 v) s else s, True))"
    using l by (intro ext) (simp add: searchCallback_def Let_def)
  have "set (Search uc idx db tid q limit None) =
      {d. \<exists>k v. prefix (encodeInvertedSearchKey idx tid (ToLower uc q)) k \<and> kv_map db k = Some v \<and>
           d \<in> set (decodeInvertedValue v)}"
    unfolding Search_def cb kvScan_fold [OF ok] fst_conv set_fold_rows [where P = "\<lambda>_. True"]
    by (auto simp: prefixEntries_iff [OF ok] decodeInvertedValue_deltas)
  also have "\<dots> = (\<Union>kw\<in>{kw. prefix (ToLower uc q) kw}. posts ?r (kv_map db) tid kw)"
  proof (intro set_eqI iffI)
    fix d assume "d \<in> {d. \<exists>k v. prefix (encodeInvertedSearchKey idx tid (ToLower uc q)) k \<and> kv_map db k = Some v \<and>
           d \<in> set (decodeInvertedValue v)}"
    then obtain k v where k: "prefix (encodeInvertedSearchKey idx tid (ToLower uc q)) k" "kv_map db k = Some v"
      "d \<in> set (decodeInvertedValue v)" by blast
    have "isKeyType k ?r" using k(1) by (auto simp: encodeInvertedSearchKey_def isKeyType_def prefix_def)
    then obtain tid' kw' c t n where r: "k = rowKey ?r tid' kw' c t n"
    by (rule rows_wfE [OF wf k(2)])
    then have p: "tid' = tid" "prefix (ToLower uc q) kw'" using k(1) by (simp_all add: searchKey_row [OF q'])
    then have "d \<in> posts ?r (kv_map db) tid kw'"
      using k(2,3) r by (intro posts_memI [of _ _ _ _ c t n v]) simp_all
    with p(2) show "d \<in> (\<Union>kw\<in>{kw. prefix (ToLower uc q) kw}. posts ?r (kv_map db) tid kw)" by simp blast
  next
    fix d assume "d \<in> (\<Union>kw\<in>{kw. prefix (ToLower uc q) kw}. posts ?r (kv_map db) tid kw)"
    then obtain kw c t n v where k: "prefix (ToLower uc q) kw" "kv_map db (rowKey ?r tid kw c t n) = Some v"
      "d \<in> set (decodeInvertedValue v)" by (auto simp: posts_def)
    have "prefix (encodeInvertedSearchKey idx tid (ToLower uc q)) (rowKey ?r tid kw c t n)"
      using k(1) by (simp add: searchKey_row [OF q'])
    with k(2,3) show "d \<in> {d. \<exists>k v. prefix (encodeInvertedSearchKey idx tid (ToLower uc q)) k \<and> kv_map db k = Some v \<and>
           d \<in> set (decodeInvertedValue v)}" by blast
  qed
  finally show ?thesis .
qed

end
