(* ===== verification/InvFlush.thy ===== *)
theory InvFlush
  imports InvPosts
begin

text \<open>
  The caches of the index and their flushes: a flush of writes moves postings from the cache to the
  store, a flush of deletes removes them from the store, whatever the thresholds let through and in
  whatever order the maps are walked.
\<close>

subsection \<open>Caches\<close>

definition docsOf :: "(int \<times> pendingTableWrites) list \<Rightarrow> int \<Rightarrow> bytes \<Rightarrow> docid list" where
  "docsOf al tid kw = pendingDocs (getPending tid al) kw"

abbreviation pend :: "(int \<times> pendingTableWrites) list \<Rightarrow> int \<Rightarrow> bytes \<Rightarrow> docid set" where
  "pend al tid kw \<equiv> set (docsOf al tid kw)"

definition table_wf :: "int \<Rightarrow> pendingTableWrites \<Rightarrow> bool" where
  "table_wf tid wp \<longleftrightarrow>
     ptw_TableId wp = tid \<and> is_int64 tid \<and> distinct (map fst (ptw_InvertedIndex wp)) \<and>
     (\<forall>kw rd. map_of (ptw_InvertedIndex wp) kw = Some rd \<longrightarrow> kw \<noteq> [] \<and> (\<forall>d\<in>set (rd_DocIds rd). 0 < sint d))"

definition pending_wf :: "(int \<times> pendingTableWrites) list \<Rightarrow> bool" where
  "pending_wf al \<longleftrightarrow> distinct (map fst al) \<and> (\<forall>tid wp. map_of al tid = Some wp \<longrightarrow> table_wf tid wp)"

text \<open>The entries a flush walks over.\<close>

definition entries :: "(int \<times> pendingTableWrites) list \<Rightarrow> (int \<times> bytes \<times> relatedDocs) list" where
  "entries al = concat (map (\<lambda>(_, wp). map (\<lambda>(kw, rd). (ptw_TableId wp, kw, rd)) (ptw_InvertedIndex wp)) al)"

lemma fold_entries:
  "fold (\<lambda>(_, wp). fold (f (ptw_TableId wp)) (ptw_InvertedIndex wp)) al s =
   fold (\<lambda>(tid, kw, rd). f tid (kw, rd)) (entries al) s"
proof (induction al arbitrary: s)
  case (Cons x al)
  obtain t wp where x: "x = (t, wp)" by (cases x)
  have "fold (f (ptw_TableId wp)) l s =
      fold (\<lambda>(tid, kw, rd). f tid (kw, rd)) (map (\<lambda>(kw, rd). (ptw_TableId wp, kw, rd)) l) s" for l
    by (induction l arbitrary: s) auto
  with Cons show ?case by (simp add: entries_def x)
qed (simp add: entries_def)

lemma pending_wfD:
  "pending_wf al \<Longrightarrow> (tid, wp) \<in> set al \<Longrightarrow> map_of al tid = Some wp \<and> table_wf tid wp"
  by (auto simp: pending_wf_def)

lemma entries_docsOf:
  assumes "pending_wf al" "(tid, kw, rd) \<in> set (entries al)"
  shows "docsOf al tid kw = rd_DocIds rd" "is_int64 tid" "kw \<noteq> []" "\<forall>d\<in>set (rd_DocIds rd). 0 < sint d"
proof -
  from assms(2) obtain t wp where w: "(t, wp) \<in> set al" "tid = ptw_TableId wp" "(kw, rd) \<in> set (ptw_InvertedIndex wp)"
    by (auto simp: entries_def)
  from pending_wfD [OF assms(1) w(1)] have m: "map_of al t = Some wp" and t: "table_wf t wp" by simp_all
  have "t = tid" "map_of (ptw_InvertedIndex wp) kw = Some rd" using t w(2,3) by (auto simp: table_wf_def)
  with m t show "docsOf al tid kw = rd_DocIds rd" "is_int64 tid" "kw \<noteq> []" "\<forall>d\<in>set (rd_DocIds rd). 0 < sint d"
    by (auto simp: docsOf_def getPending_def pendingDocs_def table_wf_def)
qed

lemma entries_tables:
  assumes "\<forall>(tid, wp)\<in>set al. table_wf tid wp" "(tid, kw, rd) \<in> set (entries al)"
  shows "tid \<in> fst ` set al"
proof -
  from assms(2) obtain t wp where w: "(t, wp) \<in> set al" "tid = ptw_TableId wp" by (auto simp: entries_def)
  with assms(1) have "t = tid" by (auto simp: table_wf_def)
  with w(1) show ?thesis by force
qed

lemma distinct_entries:
  assumes "pending_wf al"
  shows "distinct (map (\<lambda>(tid, kw, rd). (tid, kw)) (entries al))"
proof -
  have "distinct (map fst al)" "\<forall>(tid, wp)\<in>set al. table_wf tid wp"
    using assms pending_wfD [OF assms] by (auto simp: pending_wf_def)
  then show ?thesis
  proof (induction al)
    case (Cons x al)
    obtain t wp where x: "x = (t, wp)" by (cases x)
    have t: "ptw_TableId wp = t" "distinct (map fst (ptw_InvertedIndex wp))"
      using Cons.prems(2) by (auto simp: x table_wf_def)
    have h: "map (\<lambda>(tid, kw, rd). (tid, kw)) (map (\<lambda>(kw, rd). (ptw_TableId wp, kw, rd)) (ptw_InvertedIndex wp)) =
        map (Pair t) (map fst (ptw_InvertedIndex wp))"
      by (simp add: t(1) case_prod_unfold comp_def)
    have d: "distinct (map (Pair t) (map fst (ptw_InvertedIndex wp)))"
      using t(2) by (simp add: distinct_map inj_on_def)
    have "(t, kw, rd) \<notin> set (entries al)" for kw rd
      using Cons.prems entries_tables [of al t kw rd] by (auto simp: x)
    then have "set (map (Pair t) (map fst (ptw_InvertedIndex wp))) \<inter>
        set (map (\<lambda>(tid, kw, rd). (tid, kw)) (entries al)) = {}" by (auto simp: image_iff)
    moreover have "entries (x # al) = map (\<lambda>(kw, rd). (ptw_TableId wp, kw, rd)) (ptw_InvertedIndex wp) @ entries al"
      by (simp add: entries_def x)
    ultimately show ?case using Cons d h by (simp only: map_append distinct_append) (simp add: x)
  qed (simp add: entries_def)
qed

lemma dropPending_docsOf:
  "docsOf (dropPending tid kw al) tid' kw' = (if tid' = tid \<and> kw' = kw then [] else docsOf al tid' kw')"
proof (cases "map_of al tid")
  case None
  then show ?thesis by (auto simp: dropPending_def docsOf_def getPending_def pendingDocs_def newPending_def)
next
  case (Some wp)
  show ?thesis
  proof (cases "AList.delete kw (ptw_InvertedIndex wp)")
    case Nil
    have "map_of (ptw_InvertedIndex wp) k = None" if "k \<noteq> kw" for k
      using fun_cong [OF delete_conv' [of kw "ptw_InvertedIndex wp"], of k] that by (simp add: Nil)
    with Some Nil show ?thesis
      by (auto simp: dropPending_def docsOf_def getPending_def pendingDocs_def newPending_def delete_conv')
  next
    case (Cons a as)
    have "map_of (a # as) = (map_of (ptw_InvertedIndex wp))(kw := None)"
      by (simp only: Cons [symmetric] delete_conv')
    with Some Cons show ?thesis
      by (auto simp: dropPending_def docsOf_def getPending_def pendingDocs_def update_conv' simp del: map_of.simps)
  qed
qed

lemma dropPending_wf:
  assumes "pending_wf al"
  shows "pending_wf (dropPending tid kw al)"
proof (cases "map_of al tid")
  case None
  then show ?thesis using assms by (simp add: dropPending_def)
next
  case (Some wp)
  have t: "table_wf tid wp" using assms Some by (simp add: pending_wf_def)
  show ?thesis
  proof (cases "AList.delete kw (ptw_InvertedIndex wp)")
    case Nil
    with Some assms show ?thesis
      by (auto simp: dropPending_def pending_wf_def delete_conv' distinct_delete split: if_splits)
  next
    case (Cons a as)
    have m: "map_of (a # as) = (map_of (ptw_InvertedIndex wp))(kw := None)"
      by (simp only: Cons [symmetric] delete_conv')
    have d: "distinct (map fst (a # as))"
      using t distinct_delete [of "ptw_InvertedIndex wp" kw] by (simp only: Cons [symmetric] table_wf_def)
    have "table_wf tid (wp\<lparr>ptw_InvertedIndex := a # as\<rparr>)"
      using t d unfolding table_wf_def by (simp add: m del: map_of.simps distinct.simps list.map)
    with Some assms Cons show ?thesis
      by (auto simp: dropPending_def pending_wf_def update_conv' distinct_update split: if_splits)
  qed
qed

lemma bufferDoc_docs:
  "pendingDocs (bufferDoc now d kw wp) kw' = pendingDocs wp kw' @ (if kw' = kw then [d] else [])"
  by (simp add: bufferDoc_def pendingDocs_def update_conv')

lemma fold_bufferDoc_docs:
  "pendingDocs (fold (bufferDoc now d) kws wp) kw' = pendingDocs wp kw' @ replicate (count_list kws kw') d"
  by (induction kws arbitrary: wp) (auto simp: bufferDoc_docs)

lemma bufferDocs_docsOf:
  "docsOf (bufferDocs now tid d kws al) tid' kw' =
     docsOf al tid' kw' @ (if tid' = tid then replicate (count_list kws kw') d else [])"
  by (auto simp: docsOf_def bufferDocs_def getPending_def update_conv' fold_bufferDoc_docs)

lemma bufferDocs_pend:
  "pend (bufferDocs now tid d kws al) tid' kw' = pend al tid' kw' \<union> (if tid' = tid \<and> kw' \<in> set kws then {d} else {})"
  by (auto simp: bufferDocs_docsOf count_list_0_iff)

lemma bufferDoc_wf:
  assumes "table_wf tid wp" "kw \<noteq> []" "0 < sint d"
  shows "table_wf tid (bufferDoc now d kw wp)"
  using assms
  by (auto simp: table_wf_def bufferDoc_def update_conv' distinct_update pendingDocs_def split: if_splits option.splits)

lemma bufferDocs_wf:
  assumes "pending_wf al" "is_int64 tid" "\<forall>k\<in>set kws. k \<noteq> []" "0 < sint d"
  shows "pending_wf (bufferDocs now tid d kws al)"
proof -
  have "table_wf tid (getPending tid al)"
    using assms(1,2) by (auto simp: getPending_def newPending_def pending_wf_def table_wf_def split: option.split)
  then have "table_wf tid (fold (bufferDoc now d) kws (getPending tid al))"
    using assms(3) by (induction kws arbitrary: al rule: rev_induct) (auto intro: bufferDoc_wf [OF _ _ assms(4)])
  with assms(1) show ?thesis
    by (auto simp: pending_wf_def bufferDocs_def update_conv' distinct_update)
qed

subsection \<open>Writing rows\<close>

definition rows_inv :: "int set \<Rightarrow> Index \<Rightarrow> (bytes \<rightharpoonup> bytes) \<Rightarrow> bool" where
  "rows_inv T idx m \<longleftrightarrow> rows_wf (idx_keyTypeRow idx) m \<and> seq_fresh (idx_keyTypeRow idx) T (idx_keySeq idx) m"

definition idx_same :: "Index \<Rightarrow> Index \<Rightarrow> bool" where
  "idx_same i j \<longleftrightarrow> idx_opts i = idx_opts j \<and> idx_keyTypeRow i = idx_keyTypeRow j \<and>
     idx_keyTypeTable i = idx_keyTypeTable j \<and> idx_keyTypeNextId i = idx_keyTypeNextId j \<and>
     idx_keyTypeForward i = idx_keyTypeForward j"

lemma idx_same_refl [simp]: "idx_same i i"
  by (simp add: idx_same_def)

lemma idx_same_upd [simp]:
  "idx_same (i\<lparr>idx_lastFlushWriteTime := x\<rparr>) j = idx_same i j" "idx_same (i\<lparr>idx_lastFlushDeleteTime := x\<rparr>) j = idx_same i j"
  by (simp_all add: idx_same_def)

lemma idx_same_trans: "idx_same i j \<Longrightarrow> idx_same j k \<Longrightarrow> idx_same i k"
  by (simp add: idx_same_def)

lemma card_positive:
  assumes "\<forall>d\<in>set ids. 0 < sint (d :: docid)"
  shows "is_int64 (int (card (set ids)))"
proof -
  have "sint ` set ids \<subseteq> {0 <..< 2 ^ 63}" using assms sint_lt [where ?'a = 64] by auto
  then have "card (sint ` set ids) \<le> card {0 <..< (2 ^ 63 :: int)}" by (intro card_mono) auto
  moreover have "card (sint ` set ids) = card (set ids)" by (intro card_image inj_onI) (simp add: signed_word_eqI)
  ultimately show ?thesis by (simp add: is_int64_def)
qed

lemma writeInvertedIndex_eq:
  assumes "kv_ok (fst s)"
  shows "writeInvertedIndex tid kw docids tick (idx, s) =
    (idx\<lparr>idx_keySeq := idx_keySeq idx + 1\<rparr>,
     fst (batchAppend (BSet (rowKey (idx_keyTypeRow idx) tid kw (int (card (set docids))) tick (idx_keySeq idx + 1))
       (encodeInvertedValue docids)) s))"
  using encodeInvertedValueCounted_count [of docids]
  by (simp add: writeInvertedIndex_def encodeInvertedKey_row encodeInvertedValue_def batchPut_def case_prod_unfold)

lemma write_rows:
  assumes ok: "kv_ok (fst s)" and inv: "rows_inv T idx (batch_view s)" and t: "tick \<in> T" "is_int64 tid"
    and pos: "\<forall>d\<in>set docids. 0 < sint d" and w: "writeInvertedIndex tid kw docids tick (idx, s) = (idx', s')"
  shows "kv_ok (fst s')" "rows_inv T idx' (batch_view s')" "idx' = idx\<lparr>idx_keySeq := idx_keySeq idx + 1\<rparr>"
    "posts (idx_keyTypeRow idx) (batch_view s') tid' kw' =
       posts (idx_keyTypeRow idx) (batch_view s) tid' kw' \<union> (if tid' = tid \<and> kw' = kw then set docids else {})"
    "\<And>k. \<not> isKeyType k (idx_keyTypeRow idx) \<Longrightarrow> batch_view s' k = batch_view s k"
proof -
  let ?k = "rowKey (idx_keyTypeRow idx) tid kw (int (card (set docids))) tick (idx_keySeq idx + 1)"
  have e: "idx' = idx\<lparr>idx_keySeq := idx_keySeq idx + 1\<rparr>"
    "s' = fst (batchAppend (BSet ?k (encodeInvertedValue docids)) s)"
    using w by (simp_all add: writeInvertedIndex_eq [OF ok])
  have v: "batch_view s' = (batch_view s)(?k \<mapsto> encodeInvertedValue docids)" and "kv_ok (fst s')"
    using batchAppend_ok [OF ok] by (simp_all add: e(2))
  have n: "batch_view s ?k = None" using inv t(1) by (auto simp: rows_inv_def seq_fresh_def)
  show "kv_ok (fst s')" by fact
  show "rows_inv T idx' (batch_view s')"
    using inv t(2) pos card_positive [OF pos] unfolding rows_inv_def v e(1)
    by (auto intro!: rows_wf_put seq_fresh_put [where n = "idx_keySeq idx"])
  show "idx' = idx\<lparr>idx_keySeq := idx_keySeq idx + 1\<rparr>" by (fact e(1))
  show "posts (idx_keyTypeRow idx) (batch_view s') tid' kw' =
       posts (idx_keyTypeRow idx) (batch_view s) tid' kw' \<union> (if tid' = tid \<and> kw' = kw then set docids else {})"
    unfolding v by (subst posts_put [where m = "batch_view s"]) (use n in auto)
  show "batch_view s' k = batch_view s k" if "\<not> isKeyType k (idx_keyTypeRow idx)" for k
    using that by (auto simp: v)
qed

subsection \<open>Flushing writes\<close>

text \<open>Postings have moved from the write cache to the rows, nothing else has changed.\<close>

definition moved :: "int set \<Rightarrow> Index \<times> (bytes \<rightharpoonup> bytes) \<Rightarrow> Index \<times> (bytes \<rightharpoonup> bytes) \<Rightarrow> bool" where
  "moved T x y \<longleftrightarrow>
     (case x of (i, m) \<Rightarrow> case y of (j, m') \<Rightarrow>
        rows_inv T j m' \<and> pending_wf (idx_pendingWrites j) \<and> idx_same i j \<and> idx_pendingDeletes j = idx_pendingDeletes i \<and>
        (\<forall>k. \<not> isKeyType k (idx_keyTypeRow i) \<longrightarrow> m' k = m k) \<and>
        (\<forall>t k. posts (idx_keyTypeRow i) m' t k \<union> pend (idx_pendingWrites j) t k =
               posts (idx_keyTypeRow i) m t k \<union> pend (idx_pendingWrites i) t k) \<and>
        (\<forall>t k. docsOf (idx_pendingWrites j) t k = docsOf (idx_pendingWrites i) t k \<or>
               docsOf (idx_pendingWrites j) t k = []))"

lemma moved_trans:
  assumes "moved T x y" "moved T y z"
  shows "moved T x z"
proof -
  obtain i m j m' k m'' where [simp]: "x = (i, m)" "y = (j, m')" "z = (k, m'')" by (cases x; cases y; cases z)
  have r: "idx_keyTypeRow i = idx_keyTypeRow j" using assms(1) by (simp add: moved_def idx_same_def)
  note a = assms(1) [unfolded moved_def \<open>x = _\<close> \<open>y = _\<close> prod.case r]
  note b = assms(2) [unfolded moved_def \<open>y = _\<close> \<open>z = _\<close> prod.case]
  have "docsOf (idx_pendingWrites k) t w = docsOf (idx_pendingWrites i) t w \<or> docsOf (idx_pendingWrites k) t w = []" for t w
    using a b by metis
  moreover have "idx_same i k" using a b idx_same_trans by blast
  ultimately show ?thesis using a b by (simp add: moved_def r)
qed

lemma moved_docs:
  "moved T (i, m) (j, m') \<Longrightarrow>
   docsOf (idx_pendingWrites j) t k = docsOf (idx_pendingWrites i) t k \<or> docsOf (idx_pendingWrites j) t k = []"
  by (simp add: moved_def)

lemma flushWriteEntry_moved:
  assumes wf: "pending_wf (idx_pendingWrites idx)" and ok: "kv_ok (fst s)" and inv: "rows_inv T idx (batch_view s)"
    and tick: "en_nowW e div 1000 \<in> T" and d: "docsOf (idx_pendingWrites idx) tid kw = rd_DocIds rd"
    and t: "is_int64 tid" "\<forall>d\<in>set (rd_DocIds rd). 0 < sint d"
    and f: "flushWriteEntry e closing force tid (kw, rd) (idx, s) = (idx', s')"
  shows "moved T (idx, batch_view s) (idx', batch_view s')" "kv_ok (fst s')"
    "docsOf (idx_pendingWrites idx') t' k' =
       (if t' = tid \<and> k' = kw \<and> idx' \<noteq> idx then [] else docsOf (idx_pendingWrites idx) t' k')"
    "closing \<or> force \<longrightarrow> idx' \<noteq> idx"
proof -
  have "moved T (idx, batch_view s) (idx', batch_view s') \<and> kv_ok (fst s') \<and>
    (docsOf (idx_pendingWrites idx') t' k' =
       (if t' = tid \<and> k' = kw \<and> idx' \<noteq> idx then [] else docsOf (idx_pendingWrites idx) t' k')) \<and>
    (closing \<or> force \<longrightarrow> idx' \<noteq> idx)"
  proof (cases "\<not> closing \<and> \<not> force \<and> int (length (rd_DocIds rd)) < flushWaitBatchSize (idx_opts idx) \<and>
           en_nowW e - rd_UpdatedAt rd < flushWaitTimeout (idx_opts idx)")
    case True
    then have "idx' = idx" "s' = s" using f by (simp_all add: flushWriteEntry_def)
    then show ?thesis using True wf ok inv by (auto simp: moved_def)
  next
    case False
    obtain i1 s1 where w: "writeInvertedIndex tid kw (rd_DocIds rd) (en_nowW e div 1000) (idx, s) = (i1, s1)"
      by (cases "writeInvertedIndex tid kw (rd_DocIds rd) (en_nowW e div 1000) (idx, s)")
    note W = write_rows [OF ok inv tick t w]
    have e: "s' = s1" "idx' = i1\<lparr>idx_pendingWritePostings := idx_pendingWritePostings i1 - int (length (rd_DocIds rd)),
        idx_pendingWrites := dropPending tid kw (idx_pendingWrites i1)\<rparr>"
      using f False w unfolding flushWriteEntry_def by auto
    have "idx_keySeq idx' \<noteq> idx_keySeq idx" by (simp add: e(2) W(3))
    then have ne: "idx' \<noteq> idx" by auto
    have dr: "docsOf (idx_pendingWrites idx') t k = (if t = tid \<and> k = kw then [] else docsOf (idx_pendingWrites idx) t k)"
      for t k by (simp add: e(2) W(3) dropPending_docsOf)
    have "moved T (idx, batch_view s) (idx', batch_view s')"
      unfolding moved_def prod.case
      using W(2) dropPending_wf [OF wf] dr d
      by (auto simp: e W(3-5) rows_inv_def idx_same_def split: if_splits)
    then show ?thesis using W(1) ne dr by (simp add: e(1))
  qed
  then show "moved T (idx, batch_view s) (idx', batch_view s')" "kv_ok (fst s')"
    "docsOf (idx_pendingWrites idx') t' k' =
       (if t' = tid \<and> k' = kw \<and> idx' \<noteq> idx then [] else docsOf (idx_pendingWrites idx) t' k')"
    "closing \<or> force \<longrightarrow> idx' \<noteq> idx" by blast+
qed

lemma docsOf_entry:
  assumes "pending_wf al" "docsOf al tid kw \<noteq> []"
  shows "\<exists>rd. (tid, kw, rd) \<in> set (entries al)"
proof -
  from assms(2) obtain wp rd where w: "map_of al tid = Some wp" "map_of (ptw_InvertedIndex wp) kw = Some rd"
    by (auto simp: docsOf_def getPending_def pendingDocs_def newPending_def split: option.splits)
  have "ptw_TableId wp = tid" using assms(1) w(1) by (auto simp: pending_wf_def table_wf_def)
  then have "(tid, kw, rd) \<in> set (entries al)"
    using map_of_SomeD [OF w(1)] map_of_SomeD [OF w(2)] by (fastforce simp: entries_def)
  then show ?thesis by blast
qed

lemma flushWriteLoop:
  assumes "pending_wf (idx_pendingWrites idx)" "kv_ok (fst s)" "rows_inv T idx (batch_view s)"
    "en_nowW e div 1000 \<in> T" "distinct (map (\<lambda>(t, k, rd). (t, k)) es)"
    "\<forall>(t, k, rd)\<in>set es. docsOf (idx_pendingWrites idx) t k = rd_DocIds rd \<and> is_int64 t \<and> (\<forall>d\<in>set (rd_DocIds rd). 0 < sint d)"
    "fold (\<lambda>(t, k, rd). flushWriteEntry e closing force t (k, rd)) es (idx, s) = (idx', s')"
  shows "moved T (idx, batch_view s) (idx', batch_view s') \<and> kv_ok (fst s') \<and>
    (closing \<or> force \<longrightarrow> (\<forall>(t, k, rd)\<in>set es. docsOf (idx_pendingWrites idx') t k = []))"
  using assms
proof (induction es arbitrary: idx s)
  case Nil
  then show ?case by (auto simp: moved_def)
next
  case (Cons x es)
  obtain t k rd where x: "x = (t, k, rd)" by (cases x)
  obtain i1 s1 where f: "flushWriteEntry e closing force t (k, rd) (idx, s) = (i1, s1)"
    by (cases "flushWriteEntry e closing force t (k, rd) (idx, s)")
  have en: "docsOf (idx_pendingWrites idx) t k = rd_DocIds rd" "is_int64 t" "\<forall>d\<in>set (rd_DocIds rd). 0 < sint d"
    using Cons.prems(6) by (auto simp: x)
  note F = flushWriteEntry_moved [OF Cons.prems(1-4) en f]
  have i1: "pending_wf (idx_pendingWrites i1)" "rows_inv T i1 (batch_view s1)" using F(1) by (simp_all add: moved_def)
  have rest: "\<forall>(t, k, rd)\<in>set es. docsOf (idx_pendingWrites i1) t k = rd_DocIds rd \<and> is_int64 t \<and>
      (\<forall>d\<in>set (rd_DocIds rd). 0 < sint d)"
  proof (safe, goal_cases)
    case (1 t' k' rd')
    then have "(t', k') \<noteq> (t, k)" using Cons.prems(5) by (force simp: x)
    then have "docsOf (idx_pendingWrites i1) t' k' = docsOf (idx_pendingWrites idx) t' k'" using F(3) [of t' k'] by auto
    with 1 Cons.prems(6) show ?case by auto
  qed (use Cons.prems(6) in auto)
  have g: "fold (\<lambda>(t, k, rd). flushWriteEntry e closing force t (k, rd)) es (i1, s1) = (idx', s')"
    using Cons.prems(7) f by (simp add: x)
  have "distinct (map (\<lambda>(t, k, rd). (t, k)) es)" using Cons.prems(5) by simp
  from Cons.IH [OF i1(1) F(2) i1(2) Cons.prems(4) this rest g]
  have IH: "moved T (i1, batch_view s1) (idx', batch_view s')" "kv_ok (fst s')"
    "closing \<or> force \<longrightarrow> (\<forall>(t, k, rd)\<in>set es. docsOf (idx_pendingWrites idx') t k = [])" by auto
  have "docsOf (idx_pendingWrites idx') t k = []" if "closing \<or> force"
    using moved_docs [OF IH(1), of t k] F(3) [of t k] F(4) that by auto
  with IH(2,3) moved_trans [OF F(1) IH(1)] show ?case by (auto simp: x)
qed

lemma flushPendingWrites_ok:
  assumes wf: "pending_wf (idx_pendingWrites idx)" and ok: "kv_ok db" and inv: "rows_inv T idx (kv_map db)"
    and tick: "en_nowW e div 1000 \<in> T"
  shows "\<exists>idx' db'. flushPendingWrites e closing force (idx, db) = Some (idx', db') \<and> kv_ok db' \<and>
    moved T (idx, kv_map db) (idx', kv_map db') \<and>
    (closing \<or> force \<longrightarrow> (\<forall>t k. docsOf (idx_pendingWrites idx') t k = []))"
proof (cases "\<not> closing \<and> \<not> force \<and> en_sinceW e - idx_lastFlushWriteTime idx < flushCooldown (idx_opts idx)")
  case True
  then show ?thesis using assms by (auto simp: flushPendingWrites_def moved_def)
next
  case False
  let ?b = "\<lparr>pb_ops = [], pb_maxBatchSize = 512, pb_count = 0\<rparr>"
  let ?i = "idx\<lparr>idx_lastFlushWriteTime := en_nowW e\<rparr>"
  obtain i1 s1 where f: "fold (\<lambda>(t, k, rd). flushWriteEntry e closing force t (k, rd)) (entries (idx_pendingWrites idx))
      (?i, (db, ?b)) = (i1, s1)"
    by (cases "fold (\<lambda>(t, k, rd). flushWriteEntry e closing force t (k, rd)) (entries (idx_pendingWrites idx)) (?i, (db, ?b))")
  have inv': "rows_inv T ?i (batch_view (db, ?b))" using inv by (simp add: rows_inv_def)
  have "\<forall>(t, k, rd)\<in>set (entries (idx_pendingWrites idx)). docsOf (idx_pendingWrites ?i) t k = rd_DocIds rd \<and>
      is_int64 t \<and> (\<forall>d\<in>set (rd_DocIds rd). 0 < sint d)"
    using entries_docsOf [OF wf] by auto
  from flushWriteLoop [OF _ _ inv' tick distinct_entries [OF wf] this f] wf ok
  have L: "moved T (?i, kv_map db) (i1, batch_view s1)" "kv_ok (fst s1)"
    "closing \<or> force \<longrightarrow> (\<forall>(t, k, rd)\<in>set (entries (idx_pendingWrites idx)). docsOf (idx_pendingWrites i1) t k = [])"
    by auto
  have c: "kv_ok (fst (fst (batchCommit s1)))" "kv_map (fst (fst (batchCommit s1))) = batch_view s1"
    using batchCommit_ok [OF L(2), of "snd s1"] by simp_all
  have m: "moved T (idx, kv_map db) (i1, batch_view s1)" using L(1) by (simp add: moved_def)
  have "docsOf (idx_pendingWrites i1) t k = []" if "closing \<or> force" for t k
    using moved_docs [OF m, of t k] L(3) that docsOf_entry [OF wf, of t k] by force
  with False c m f ok show ?thesis
    by (auto simp: flushPendingWrites_def newIndexBatch_def NewBatch_ok fold_entries)
qed

end
