(* ===== verification/InvDelete.thy ===== *)
theory InvDelete
  imports InvFlush
begin

text \<open>
  Flushing deletes: \<open>removeDocumentsFromInvertedIndex\<close> rewrites the rows of one keyword without the
  removed docids, and the flush of the delete cache does so for each of its entries. The rows are read
  from the store while the batch still holds the rewrites of other keywords.
\<close>

subsection \<open>What the scan selects\<close>

definition selected :: "docid list \<Rightarrow> int \<Rightarrow> bytes \<Rightarrow> bool" where
  "selected rem mx v \<longleftrightarrow>
     (\<exists>d\<in>set (decodeInvertedValue v). d \<in> set rem) \<or>
     int (length (filter (\<lambda>d. d \<notin> set rem) (decodeInvertedValue v))) < mx div 2"

lemma removeScan_eq:
  "removeScan idx kw rem mx =
     (\<lambda>s k v. (if rowKeyword idx k = kw \<and> selected rem mx v
               then (fst s @ [k], fold List.insert (filter (\<lambda>d. d \<notin> set rem) (decodeInvertedValue v)) (snd s)) else s,
               True))"
  unfolding removeScan_def rowKeyword_def selected_def [symmetric] Let_def case_prod_unfold
  by (intro ext) simp

lemma removeScan_fold:
  "set (fst (fold (\<lambda>(k, v) s. if P k v then (fst s @ [k], fold List.insert (f v) (snd s)) else s) kvs s)) =
     set (fst s) \<union> {k. \<exists>v. (k, v) \<in> set kvs \<and> P k v}"
  "set (snd (fold (\<lambda>(k, v) s. if P k v then (fst s @ [k], fold List.insert (f v) (snd s)) else s) kvs s)) =
     set (snd s) \<union> {d. \<exists>k v. (k, v) \<in> set kvs \<and> P k v \<and> d \<in> set (f v)}"
proof (induction kvs arbitrary: s)
  case (Cons kv kvs)
  obtain k v where kv: "kv = (k, v)" by (cases kv)
  { case 1 show ?case using Cons(1) by (auto simp: kv) }
  { case 2 show ?case using Cons(2) by (auto simp: kv set_fold_insert) }
qed simp_all

lemma removeScan_result:
  assumes ok: "kv_ok db" and wf: "rows_wf (idx_keyTypeRow idx) (kv_map db)"
    and r: "kvScan (encodeInvertedKeyPrefix idx tid kw) (removeScan idx kw rem mx) ([], []) db = ((keys, docids), err)"
  shows "err = None"
    "k \<in> set keys \<longleftrightarrow> (\<exists>c t n v. k = rowKey (idx_keyTypeRow idx) tid kw c t n \<and> kv_map db k = Some v \<and> selected rem mx v)"
    "d \<in> set docids \<longleftrightarrow> (\<exists>c t n v. kv_map db (rowKey (idx_keyTypeRow idx) tid kw c t n) = Some v \<and> selected rem mx v \<and>
       d \<in> set (decodeInvertedValue v) \<and> d \<notin> set rem)"
proof -
  let ?P = "\<lambda>k v. rowKeyword idx k = kw \<and> selected rem mx v"
  let ?f = "\<lambda>v. filter (\<lambda>d. d \<notin> set rem) (decodeInvertedValue v)"
  have r': "(keys, docids) = fold (\<lambda>(k, v) s. if ?P k v then (fst s @ [k], fold List.insert (?f v) (snd s)) else s)
      (prefixEntries db (encodeInvertedKeyPrefix idx tid kw)) ([], [])" "err = None"
    using r unfolding removeScan_eq kvScan_fold [OF ok] by simp_all
  show "err = None" by (fact r'(2))
  have e: "(k, v) \<in> set (prefixEntries db (encodeInvertedKeyPrefix idx tid kw)) \<and> ?P k v \<longleftrightarrow>
      (\<exists>c t n. k = rowKey (idx_keyTypeRow idx) tid kw c t n \<and> kv_map db k = Some v) \<and> selected rem mx v" for k v
    using keyword_rows [OF wf, of tid kw k v] by (auto simp: prefixEntries_iff [OF ok])
  have "set keys = {k. \<exists>v. (k, v) \<in> set (prefixEntries db (encodeInvertedKeyPrefix idx tid kw)) \<and> ?P k v}"
    using arg_cong [OF r'(1), of "\<lambda>x. set (fst x)"] unfolding removeScan_fold(1) by simp
  then show "k \<in> set keys \<longleftrightarrow> (\<exists>c t n v. k = rowKey (idx_keyTypeRow idx) tid kw c t n \<and> kv_map db k = Some v \<and> selected rem mx v)"
    unfolding e by auto
  have "set docids = {d. \<exists>k v. ((k, v) \<in> set (prefixEntries db (encodeInvertedKeyPrefix idx tid kw)) \<and> ?P k v) \<and> d \<in> set (?f v)}"
    using arg_cong [OF r'(1), of "\<lambda>x. set (snd x)"] unfolding removeScan_fold(2) by simp
  then show "d \<in> set docids \<longleftrightarrow> (\<exists>c t n v. kv_map db (rowKey (idx_keyTypeRow idx) tid kw c t n) = Some v \<and> selected rem mx v \<and>
       d \<in> set (decodeInvertedValue v) \<and> d \<notin> set rem)"
    unfolding e by auto
qed

subsection \<open>Rewriting\<close>

lemma set_chunks: "0 < n \<Longrightarrow> \<Union> (set ` set (chunks n xs)) = set xs"
proof (induction n xs rule: chunks.induct)
  case (1 n xs)
  show ?case
  proof (cases "xs = []")
    case False
    then have "\<Union> (set ` set (chunks n xs)) = set (take n xs) \<union> set (drop n xs)"
      using 1 by (subst chunks.simps) simp
    then show ?thesis by (metis append_take_drop_id set_append)
  qed (simp add: chunks.simps)
qed

text \<open>New rows of one keyword, beside the old ones.\<close>

definition extends :: "char \<Rightarrow> int \<Rightarrow> bytes \<Rightarrow> docid set \<Rightarrow> (bytes \<rightharpoonup> bytes) \<Rightarrow> (bytes \<rightharpoonup> bytes) \<Rightarrow> bool" where
  "extends r tid kw D m m' \<longleftrightarrow>
     m \<subseteq>\<^sub>m m' \<and>
     (\<forall>k v. m' k = Some v \<and> m k = None \<longrightarrow>
        (\<exists>c t n. k = rowKey r tid kw c t n) \<and> set (decodeInvertedValue v) \<subseteq> D) \<and>
     (\<forall>d\<in>D. \<exists>c t n v. m (rowKey r tid kw c t n) = None \<and> m' (rowKey r tid kw c t n) = Some v \<and>
        d \<in> set (decodeInvertedValue v))"

lemma extends_refl: "extends r tid kw {} m m"
  by (auto simp: extends_def)

lemma extends_trans:
  assumes a: "extends r tid kw D m m'" and b: "extends r tid kw D' m' m''"
  shows "extends r tid kw (D \<union> D') m m''"
  unfolding extends_def
proof (intro conjI allI ballI impI)
  have le: "m \<subseteq>\<^sub>m m'" "m' \<subseteq>\<^sub>m m''" using a b by (simp_all add: extends_def)
  then show "m \<subseteq>\<^sub>m m''" by (rule map_le_trans)
  fix k v assume "m'' k = Some v \<and> m k = None"
  then have k: "m'' k = Some v" "m k = None" by simp_all
  have "(\<exists>c t n. k = rowKey r tid kw c t n) \<and> (set (decodeInvertedValue v) \<subseteq> D \<or> set (decodeInvertedValue v) \<subseteq> D')"
  proof (cases "m' k")
    case None
    then show ?thesis using b k unfolding extends_def by blast
  next
    case (Some v')
    then have "v' = v" using le(2) k(1) by (metis domI map_le_def option.inject)
    then show ?thesis using a k(2) Some unfolding extends_def by blast
  qed
  then show "\<exists>c t n. k = rowKey r tid kw c t n" "set (decodeInvertedValue v) \<subseteq> D \<union> D'" by blast+
next
  have le: "m \<subseteq>\<^sub>m m'" "m' \<subseteq>\<^sub>m m''" using a b by (simp_all add: extends_def)
  fix d assume "d \<in> D \<union> D'"
  then consider "d \<in> D" | "d \<in> D'" by blast
  then show "\<exists>c t n v. m (rowKey r tid kw c t n) = None \<and> m'' (rowKey r tid kw c t n) = Some v \<and> d \<in> set (decodeInvertedValue v)"
  proof cases
    case 1
    then obtain c t n v where x: "m (rowKey r tid kw c t n) = None" "m' (rowKey r tid kw c t n) = Some v"
      "d \<in> set (decodeInvertedValue v)" using a unfolding extends_def by blast
    then have "m'' (rowKey r tid kw c t n) = Some v" using le(2) by (metis domI map_le_def)
    with x show ?thesis by blast
  next
    case 2
    then obtain c t n v where x: "m' (rowKey r tid kw c t n) = None" "m'' (rowKey r tid kw c t n) = Some v"
      "d \<in> set (decodeInvertedValue v)" using b unfolding extends_def by blast
    then have "m (rowKey r tid kw c t n) = None" using le(1) by (metis domIff map_le_implies_dom_le subsetD)
    with x show ?thesis by blast
  qed
qed

lemma extends_put:
  assumes "m (rowKey r tid kw c t n) = None"
  shows "extends r tid kw (set (decodeInvertedValue v)) m (m(rowKey r tid kw c t n \<mapsto> v))"
  using assms unfolding extends_def by (auto simp: map_le_def split: if_splits)

text \<open>What a step of the delete flush keeps: the row invariant of the view, that of every state a crash
  can leave, and the agreement of view and store outside the rows of the keyword.\<close>

definition otherKeys :: "char \<Rightarrow> int \<Rightarrow> bytes \<Rightarrow> bytes set" where
  "otherKeys r tid kw = {k. \<forall>c t n. k \<noteq> rowKey r tid kw c t n}"

definition agree :: "bytes set \<Rightarrow> PebbleDB \<times> PebbleBatch \<Rightarrow> bool" where
  "agree A s \<longleftrightarrow> (\<forall>x\<in>A. batch_view s x = kv_map (fst s) x)"

definition batch_inv :: "int set \<Rightarrow> Index \<Rightarrow> PebbleDB \<times> PebbleBatch \<Rightarrow> bool" where
  "batch_inv T idx s \<longleftrightarrow>
     kv_ok (fst s) \<and> rows_inv T idx (batch_view s) \<and> batch_safe (rows_wf (idx_keyTypeRow idx)) s"

lemma agree_append:
  assumes "kv_ok (fst s)" "agree A s" "op = BSet k v \<or> op = BDelete k" "k \<notin> A"
  shows "agree A (fst (batchAppend op s))"
  unfolding agree_def using assms
  by (intro batchAppend_agree) (auto simp: agree_def)

lemma write_step:
  assumes inv: "batch_inv T idx s" and t: "tick \<in> T" "is_int64 tid" and pos: "\<forall>d\<in>set docids. 0 < sint d"
    and w: "writeInvertedIndex tid kw docids tick (idx, s) = (idx', s')"
  shows "batch_inv T idx' s'" "idx' = idx\<lparr>idx_keySeq := idx_keySeq idx + 1\<rparr>"
    "extends (idx_keyTypeRow idx) tid kw (set docids) (batch_view s) (batch_view s')"
    "\<And>A. agree A s \<Longrightarrow> A \<subseteq> otherKeys (idx_keyTypeRow idx) tid kw \<Longrightarrow> agree A s'"
proof -
  let ?k = "rowKey (idx_keyTypeRow idx) tid kw (int (card (set docids))) tick (idx_keySeq idx + 1)"
  have ok: "kv_ok (fst s)" and ri: "rows_inv T idx (batch_view s)" using inv by (simp_all add: batch_inv_def)
  note W = write_rows [OF ok ri t pos w]
  have e: "s' = fst (batchAppend (BSet ?k (encodeInvertedValue docids)) s)"
    using w by (simp add: writeInvertedIndex_eq [OF ok])
  have v: "batch_view s' = (batch_view s)(?k \<mapsto> encodeInvertedValue docids)"
    using batchAppend_ok(3) [OF ok] by (simp add: e)
  show "idx' = idx\<lparr>idx_keySeq := idx_keySeq idx + 1\<rparr>" by (fact W(3))
  have "batch_safe (rows_wf (idx_keyTypeRow idx)) s'"
    unfolding e using inv W(2) v by (intro batch_safe_append) (simp_all add: batch_inv_def rows_inv_def W(3) e)
  then show "batch_inv T idx' s'" using W(1,2) by (simp add: batch_inv_def W(3))
  have "batch_view s ?k = None" using ri t(1) by (auto simp: rows_inv_def seq_fresh_def)
  from extends_put [where m = "batch_view s", OF this, of "encodeInvertedValue docids"]
  show "extends (idx_keyTypeRow idx) tid kw (set docids) (batch_view s) (batch_view s')" by (simp add: v)
  show "agree A s'" if "agree A s" "A \<subseteq> otherKeys (idx_keyTypeRow idx) tid kw" for A
    unfolding e using ok that by (intro agree_append [OF _ _ disjI1 [OF refl]]) (auto simp: otherKeys_def)
qed

lemma write_chunks:
  assumes "batch_inv T idx s" "tick \<in> T" "is_int64 tid" "\<forall>ds\<in>set css. \<forall>d\<in>set ds. 0 < sint d"
    "fold (\<lambda>ds. writeInvertedIndex tid kw ds tick) css (idx, s) = (idx', s')"
  shows "batch_inv T idx' s' \<and> (\<exists>n. idx' = idx\<lparr>idx_keySeq := n\<rparr>) \<and>
    extends (idx_keyTypeRow idx) tid kw (\<Union> (set ` set css)) (batch_view s) (batch_view s') \<and>
    (\<forall>A. agree A s \<longrightarrow> A \<subseteq> otherKeys (idx_keyTypeRow idx) tid kw \<longrightarrow> agree A s')"
  using assms
proof (induction css arbitrary: idx s)
  case Nil
  then have "\<exists>n. idx' = idx\<lparr>idx_keySeq := n\<rparr>" by (intro exI [of _ "idx_keySeq idx"]) simp
  with Nil show ?case by (simp add: extends_refl)
next
  case (Cons ds css)
  obtain i1 s1 where w: "writeInvertedIndex tid kw ds tick (idx, s) = (i1, s1)"
    by (cases "writeInvertedIndex tid kw ds tick (idx, s)")
  have "\<forall>d\<in>set ds. 0 < sint d" using Cons.prems(4) by simp
  note W = write_step [OF Cons.prems(1-3) this w]
  have r: "idx_keyTypeRow i1 = idx_keyTypeRow idx" by (simp add: W(2))
  have "fold (\<lambda>ds. writeInvertedIndex tid kw ds tick) css (i1, s1) = (idx', s')" using Cons.prems(5) w by simp
  with Cons.IH [OF W(1) Cons.prems(2,3)] Cons.prems(4)
  have IH: "batch_inv T idx' s'" "\<exists>n. idx' = i1\<lparr>idx_keySeq := n\<rparr>"
    "extends (idx_keyTypeRow idx) tid kw (\<Union> (set ` set css)) (batch_view s1) (batch_view s')"
    "\<forall>A. agree A s1 \<longrightarrow> A \<subseteq> otherKeys (idx_keyTypeRow idx) tid kw \<longrightarrow> agree A s'"
    by (auto simp: r)
  have "\<exists>n. idx' = idx\<lparr>idx_keySeq := n\<rparr>" using IH(2) W(2) by auto
  with IH(1,4) W(4) extends_trans [OF W(3) IH(3)] show ?case by auto
qed

lemma delete_keys:
  assumes "batch_inv T idx s" "\<forall>k\<in>set keys. k \<notin> A" "agree A s"
  shows "batch_inv T idx (fold (\<lambda>key bs. fst (batchDelete key bs)) keys s) \<and>
    batch_view (fold (\<lambda>key bs. fst (batchDelete key bs)) keys s) = (batch_view s) |` (- set keys) \<and>
    agree A (fold (\<lambda>key bs. fst (batchDelete key bs)) keys s)"
  using assms
proof (induction keys arbitrary: s)
  case Nil
  then show ?case by (simp add: restrict_map_def)
next
  case (Cons k ks)
  let ?s = "fst (batchDelete k s)"
  have ok: "kv_ok (fst s)" using Cons.prems(1) by (simp add: batch_inv_def)
  have v: "batch_view ?s = (batch_view s)(k := None)" "kv_ok (fst ?s)"
    using batchAppend_ok [OF ok] by (simp_all add: batchDelete_def)
  have ri: "rows_inv T idx (batch_view ?s)"
    using Cons.prems(1) by (auto simp: batch_inv_def rows_inv_def v(1) intro: rows_wf_delete seq_fresh_delete)
  have "batch_safe (rows_wf (idx_keyTypeRow idx)) ?s"
    unfolding batchDelete_def using Cons.prems(1) ri v(1)
    by (intro batch_safe_append) (simp_all add: batch_inv_def rows_inv_def batchDelete_def)
  then have "batch_inv T idx ?s" using v(2) ri by (simp add: batch_inv_def)
  moreover have "agree A ?s"
    unfolding batchDelete_def using ok Cons.prems(2,3) by (intro agree_append [OF _ _ disjI2 [OF refl]]) auto
  ultimately show ?case using Cons.IH [of ?s] Cons.prems(2) by (auto simp: v(1) restrict_map_def fun_eq_iff)
qed

text \<open>Map level: new rows for the kept docids of the selected rows, then the selected rows deleted.\<close>

lemma posts_rewritten:
  assumes ext: "extends r tid kw D m m1"
    and keys: "\<And>k. k \<in> set keys \<longleftrightarrow> (\<exists>c t n v. k = rowKey r tid kw c t n \<and> m k = Some v \<and> selected rem mx v)"
    and D: "\<And>d. d \<in> D \<longleftrightarrow> (\<exists>c t n v. m (rowKey r tid kw c t n) = Some v \<and> selected rem mx v \<and>
       d \<in> set (decodeInvertedValue v) \<and> d \<notin> set rem)"
  shows "posts r (m1 |` (- set keys)) tid kw = posts r m tid kw - set rem"
proof (intro set_eqI iffI)
  fix d assume "d \<in> posts r (m1 |` (- set keys)) tid kw"
  then obtain c t n v where v: "m1 (rowKey r tid kw c t n) = Some v" "rowKey r tid kw c t n \<notin> set keys"
    "d \<in> set (decodeInvertedValue v)" by (auto simp: posts_def restrict_map_def split: if_splits)
  show "d \<in> posts r m tid kw - set rem"
  proof (cases "m (rowKey r tid kw c t n)")
    case None
    then have "d \<in> D" using ext v unfolding extends_def by blast
    then obtain c' t' n' v' where x: "m (rowKey r tid kw c' t' n') = Some v'" "d \<in> set (decodeInvertedValue v')" "d \<notin> set rem"
      using D by blast
    show ?thesis using posts_memI [where m = m, OF x(1,2)] x(3) by simp
  next
    case (Some w)
    then have "w = v" using ext v(1) unfolding extends_def by (metis domI map_le_def option.inject)
    then have "\<not> selected rem mx v" using keys v(2) Some by blast
    then have "d \<notin> set rem" using v(3) by (auto simp: selected_def)
    then show ?thesis using posts_memI [where m = m, OF Some] v(3) \<open>w = v\<close> by simp
  qed
next
  fix d assume "d \<in> posts r m tid kw - set rem"
  then obtain c t n v where v: "m (rowKey r tid kw c t n) = Some v" "d \<in> set (decodeInvertedValue v)" "d \<notin> set rem"
    by (auto simp: posts_def)
  show "d \<in> posts r (m1 |` (- set keys)) tid kw"
  proof (cases "selected rem mx v")
    case True
    then have "d \<in> D" using D v by blast
    then obtain c' t' n' v' where x: "m (rowKey r tid kw c' t' n') = None" "m1 (rowKey r tid kw c' t' n') = Some v'"
      "d \<in> set (decodeInvertedValue v')" using ext unfolding extends_def by blast
    have "rowKey r tid kw c' t' n' \<notin> set keys" using keys x(1) by fastforce
    then show ?thesis using x by (intro posts_memI [of _ _ _ _ c' t' n' v']) (simp_all add: restrict_map_def)
  next
    case False
    have "rowKey r tid kw c t n \<notin> set keys" using keys v(1) False by fastforce
    moreover have "m1 (rowKey r tid kw c t n) = Some v" using ext v(1) unfolding extends_def by (metis domI map_le_def)
    ultimately show ?thesis using v by (intro posts_memI [of _ _ _ _ c t n v]) (simp_all add: restrict_map_def)
  qed
qed

lemma extends_other:
  assumes "extends r tid kw D m m'" "k \<in> otherKeys r tid kw"
  shows "m' k = m k"
proof -
  have 1: False if "m' k = Some v" "m k = None" for v
    using assms that unfolding extends_def otherKeys_def by blast
  have 2: "m' k = Some v" if "m k = Some v" for v
    using assms(1) that unfolding extends_def map_le_def by (metis domI)
  show ?thesis using 1 2 by (cases "m k"; cases "m' k") auto
qed

lemma removeDocuments_ok:
  assumes inv: "batch_inv T idx s" and tick: "en_tick e kw \<in> T" and t: "is_int64 tid" and kw: "kw \<noteq> []" and mx: "0 < mx"
    and ag: "agree (- otherKeys (idx_keyTypeRow idx) tid kw) s" and ord: "\<And>xs. set (en_order e xs) = set xs"
    and f: "removeDocumentsFromInvertedIndex e tid kw rem mx (idx, s) = (idx', s')"
  shows "batch_inv T idx' s' \<and> (\<exists>n. idx' = idx\<lparr>idx_keySeq := n\<rparr>) \<and>
    posts (idx_keyTypeRow idx) (batch_view s') tid kw = posts (idx_keyTypeRow idx) (batch_view s) tid kw - set rem \<and>
    (\<forall>k\<in>otherKeys (idx_keyTypeRow idx) tid kw. batch_view s' k = batch_view s k) \<and>
    (\<forall>A. agree A s \<longrightarrow> A \<subseteq> otherKeys (idx_keyTypeRow idx) tid kw \<longrightarrow> agree A s')"
proof (cases "rem = []")
  case True
  then have e: "idx' = idx" "s' = s" using f by (cases s; simp add: removeDocumentsFromInvertedIndex_def)+
  have "\<exists>n. idx' = idx\<lparr>idx_keySeq := n\<rparr>" using e by (intro exI [of _ "idx_keySeq idx"]) simp
  then show ?thesis using inv True by (simp add: e)
next
  case False
  let ?r = "idx_keyTypeRow idx"
  obtain db b where s: "s = (db, b)" by (cases s)
  have ok: "kv_ok db" and wf: "rows_wf ?r (kv_map db)"
    using inv batch_safe_durable [of "rows_wf ?r" s] by (auto simp: batch_inv_def s)
  obtain keys docids err where sc: "kvScan (encodeInvertedKeyPrefix idx tid kw) (removeScan idx kw rem mx) ([], []) db =
      ((keys, docids), err)" by (metis prod.collapse)
  note R = removeScan_result [OF ok wf sc]
  let ?css = "chunks (nat mx) (en_order e docids)"
  have D: "\<Union> (set ` set ?css) = set docids" using mx ord by (simp add: set_chunks)
  have agr: "kv_map db (rowKey ?r tid kw c t n) = batch_view s (rowKey ?r tid kw c t n)" for c t n
  proof -
    have "rowKey ?r tid kw c t n \<in> - otherKeys ?r tid kw" by (auto simp: otherKeys_def)
    with ag show ?thesis by (simp add: agree_def s)
  qed
  have keys: "k \<in> set keys \<longleftrightarrow> (\<exists>c t n v. k = rowKey ?r tid kw c t n \<and> batch_view s k = Some v \<and> selected rem mx v)" for k
    unfolding R(2) using agr by auto
  have docids: "d \<in> set docids \<longleftrightarrow> (\<exists>c t n v. batch_view s (rowKey ?r tid kw c t n) = Some v \<and> selected rem mx v \<and>
       d \<in> set (decodeInvertedValue v) \<and> d \<notin> set rem)" for d
    unfolding R(3) agr ..
  have pos: "0 < sint d" if dd: "d \<in> set docids" for d
  proof -
    obtain c t n v where v: "kv_map db (rowKey ?r tid kw c t n) = Some v" "d \<in> set (decodeInvertedValue v)"
      using dd R(3) by blast
    from wf [unfolded rows_wf_def, rule_format, of "rowKey ?r tid kw c t n" v] v show ?thesis by auto
  qed
  then have pos': "\<forall>ds\<in>set ?css. \<forall>d\<in>set ds. 0 < sint d" using D by blast
  obtain i1 s1 where w: "fold (\<lambda>docs. writeInvertedIndex tid kw docs (en_tick e kw)) ?css (idx, s) = (i1, s1)"
    by (metis prod.collapse)
  from write_chunks [OF inv tick t pos' w]
  have W: "batch_inv T i1 s1" "\<exists>n. i1 = idx\<lparr>idx_keySeq := n\<rparr>" "extends ?r tid kw (set docids) (batch_view s) (batch_view s1)"
    "\<And>A. agree A s \<Longrightarrow> A \<subseteq> otherKeys ?r tid kw \<Longrightarrow> agree A s1" by (auto simp: D)
  have e: "idx' = i1" "s' = fold (\<lambda>key bs. fst (batchDelete key bs)) keys s1"
    using f kw False w sc R(1) by (simp_all add: removeDocumentsFromInvertedIndex_def s)
  have no: "\<forall>k\<in>set keys. k \<notin> otherKeys ?r tid kw" using keys by (auto simp: otherKeys_def)
  have dk: "batch_inv T idx' s'" "batch_view s' = (batch_view s1) |` (- set keys)"
    using delete_keys [OF W(1), of keys "{}"] by (simp_all add: e agree_def)
  have "agree A s'" if "agree A s" "A \<subseteq> otherKeys ?r tid kw" for A
    using delete_keys [OF W(1), of keys A] W(4) that no by (auto simp: e)
  moreover have "\<forall>k\<in>otherKeys ?r tid kw. batch_view s' k = batch_view s k"
    using no extends_other [OF W(3)] by (auto simp: dk(2) restrict_map_def)
  moreover have "posts ?r (batch_view s') tid kw = posts ?r (batch_view s) tid kw - set rem"
    unfolding dk(2) using posts_rewritten [OF W(3) keys docids] .
  ultimately show ?thesis using dk(1) W(2) e(1) by blast
qed

subsection \<open>Flushing deletes\<close>

text \<open>For each keyword, either nothing has happened or its pending deletes have been carried out.\<close>

definition purged :: "int set \<Rightarrow> Index \<times> (bytes \<rightharpoonup> bytes) \<Rightarrow> Index \<times> (bytes \<rightharpoonup> bytes) \<Rightarrow> bool" where
  "purged T x y \<longleftrightarrow>
     (case x of (i, m) \<Rightarrow> case y of (j, m') \<Rightarrow>
        rows_inv T j m' \<and> pending_wf (idx_pendingDeletes j) \<and> idx_same i j \<and> idx_pendingWrites j = idx_pendingWrites i \<and>
        (\<forall>k. \<not> isKeyType k (idx_keyTypeRow i) \<longrightarrow> m' k = m k) \<and>
        (\<forall>t k. posts (idx_keyTypeRow i) m' t k = posts (idx_keyTypeRow i) m t k \<and>
                 docsOf (idx_pendingDeletes j) t k = docsOf (idx_pendingDeletes i) t k \<or>
               posts (idx_keyTypeRow i) m' t k = posts (idx_keyTypeRow i) m t k - pend (idx_pendingDeletes i) t k \<and>
                 docsOf (idx_pendingDeletes j) t k = []))"

lemma purged_trans:
  assumes "purged T x y" "purged T y z"
  shows "purged T x z"
proof -
  obtain i m j m' k m'' where [simp]: "x = (i, m)" "y = (j, m')" "z = (k, m'')" by (cases x; cases y; cases z)
  have r: "idx_keyTypeRow i = idx_keyTypeRow j" using assms(1) by (simp add: purged_def idx_same_def)
  note a = assms(1) [unfolded purged_def \<open>x = _\<close> \<open>y = _\<close> prod.case r]
  note b = assms(2) [unfolded purged_def \<open>y = _\<close> \<open>z = _\<close> prod.case]
  have "posts (idx_keyTypeRow j) m'' t w = posts (idx_keyTypeRow j) m t w \<and>
        docsOf (idx_pendingDeletes k) t w = docsOf (idx_pendingDeletes i) t w \<or>
      posts (idx_keyTypeRow j) m'' t w = posts (idx_keyTypeRow j) m t w - pend (idx_pendingDeletes i) t w \<and>
        docsOf (idx_pendingDeletes k) t w = []" for t w
  proof -
    from a have A: "posts (idx_keyTypeRow j) m' t w = posts (idx_keyTypeRow j) m t w \<and>
        docsOf (idx_pendingDeletes j) t w = docsOf (idx_pendingDeletes i) t w \<or>
      posts (idx_keyTypeRow j) m' t w = posts (idx_keyTypeRow j) m t w - pend (idx_pendingDeletes i) t w \<and>
        docsOf (idx_pendingDeletes j) t w = []" by blast
    from b have B: "posts (idx_keyTypeRow j) m'' t w = posts (idx_keyTypeRow j) m' t w \<and>
        docsOf (idx_pendingDeletes k) t w = docsOf (idx_pendingDeletes j) t w \<or>
      posts (idx_keyTypeRow j) m'' t w = posts (idx_keyTypeRow j) m' t w - pend (idx_pendingDeletes j) t w \<and>
        docsOf (idx_pendingDeletes k) t w = []" by blast
    from A B show ?thesis by auto
  qed
  moreover have "idx_same i k" using a b idx_same_trans by blast
  ultimately show ?thesis using a b by (simp add: purged_def r)
qed

lemma purged_docs:
  "purged T (i, m) (j, m') \<Longrightarrow>
   docsOf (idx_pendingDeletes j) t k = docsOf (idx_pendingDeletes i) t k \<or> docsOf (idx_pendingDeletes j) t k = []"
  unfolding purged_def by blast

text \<open>What the outside has to provide: ticks from \<open>T\<close>, and that walking a map visits its keys.\<close>

definition env_ok :: "int set \<Rightarrow> env \<Rightarrow> bool" where
  "env_ok T e \<longleftrightarrow> en_nowW e div 1000 \<in> T \<and> (\<forall>kw. en_tick e kw \<in> T) \<and> (\<forall>xs. set (en_order e xs) = set xs)"

lemma posts_otherKeys:
  assumes "\<forall>k\<in>otherKeys r tid kw. m' k = m k" "(t, k) \<noteq> (tid, kw)"
  shows "posts r m' t k = posts r m t k"
proof (rule posts_cong)
  fix c u n
  have "rowKey r t k c u n \<in> otherKeys r tid kw" using assms(2) by (auto simp: otherKeys_def dest: rowKey_inj)
  then show "m' (rowKey r t k c u n) = m (rowKey r t k c u n)" using assms(1) by blast
qed

lemma flushDeleteEntry_purged:
  assumes wf: "pending_wf (idx_pendingDeletes idx)" and inv: "batch_inv T idx s" and env: "env_ok T e"
    and d: "docsOf (idx_pendingDeletes idx) tid kw = rd_DocIds rd" and t: "is_int64 tid" "kw \<noteq> []" and mx: "0 < mx"
    and ag: "agree (- otherKeys (idx_keyTypeRow idx) tid kw) s"
    and f: "flushDeleteEntry e closing force mx tid (kw, rd) (idx, s) = (idx', s')"
  shows "purged T (idx, batch_view s) (idx', batch_view s') \<and> batch_inv T idx' s' \<and>
    (\<forall>t' k'. (t', k') \<noteq> (tid, kw) \<longrightarrow> docsOf (idx_pendingDeletes idx') t' k' = docsOf (idx_pendingDeletes idx) t' k') \<and>
    (closing \<or> force \<longrightarrow> docsOf (idx_pendingDeletes idx') tid kw = []) \<and>
    (\<forall>A. agree A s \<longrightarrow> A \<subseteq> otherKeys (idx_keyTypeRow idx) tid kw \<longrightarrow> agree A s')"
proof (cases "\<not> closing \<and> \<not> force \<and> int (length (rd_DocIds rd)) < flushDeleteWaitBatchSize (idx_opts idx) \<and>
         en_nowD e - rd_UpdatedAt rd < flushDeleteWaitTimeout (idx_opts idx)")
  case True
  then have "idx' = idx" "s' = s" using f by (simp_all add: flushDeleteEntry_def)
  then show ?thesis using True wf inv by (auto simp: purged_def batch_inv_def)
next
  case False
  let ?r = "idx_keyTypeRow idx"
  obtain i1 s1 where w: "removeDocumentsFromInvertedIndex e tid kw (rd_DocIds rd) mx (idx, s) = (i1, s1)"
    by (cases "removeDocumentsFromInvertedIndex e tid kw (rd_DocIds rd) mx (idx, s)")
  have "en_tick e kw \<in> T" "\<And>xs. set (en_order e xs) = set xs" using env by (simp_all add: env_ok_def)
  from removeDocuments_ok [OF inv this(1) t mx ag this(2) w]
  obtain n where R: "batch_inv T i1 s1" "i1 = idx\<lparr>idx_keySeq := n\<rparr>"
    "posts ?r (batch_view s1) tid kw = posts ?r (batch_view s) tid kw - set (rd_DocIds rd)"
    "\<forall>k\<in>otherKeys ?r tid kw. batch_view s1 k = batch_view s k"
    "\<forall>A. agree A s \<longrightarrow> A \<subseteq> otherKeys ?r tid kw \<longrightarrow> agree A s1" by blast
  have e: "s' = s1" "idx' = i1\<lparr>idx_pendingDeletePostings := idx_pendingDeletePostings i1 - int (length (rd_DocIds rd)),
      idx_pendingDeletes := dropPending tid kw (idx_pendingDeletes i1)\<rparr>"
    using f False w unfolding flushDeleteEntry_def by auto
  have dr: "docsOf (idx_pendingDeletes idx') t k = (if t = tid \<and> k = kw then [] else docsOf (idx_pendingDeletes idx) t k)"
    for t k by (simp add: e(2) R(2) dropPending_docsOf)
  have ri: "batch_inv T idx' s'" using R(1) by (simp add: batch_inv_def rows_inv_def e R(2))
  have fr: "batch_view s' k = batch_view s k" if "\<not> isKeyType k ?r" for k
  proof -
    have "k \<in> otherKeys ?r tid kw" using that by (auto simp: otherKeys_def)
    with R(4) show ?thesis by (simp add: e(1))
  qed
  have po: "posts ?r (batch_view s') t k = posts ?r (batch_view s) t k \<and>
        docsOf (idx_pendingDeletes idx') t k = docsOf (idx_pendingDeletes idx) t k \<or>
      posts ?r (batch_view s') t k = posts ?r (batch_view s) t k - pend (idx_pendingDeletes idx) t k \<and>
        docsOf (idx_pendingDeletes idx') t k = []" for t k
    using R(3) d posts_otherKeys [OF R(4), of t k] dr [of t k] by (cases "(t, k) = (tid, kw)") (auto simp: e(1))
  have wf': "pending_wf (idx_pendingDeletes idx')" using dropPending_wf [OF wf] by (simp add: e(2) R(2))
  have sm: "idx_same idx idx'" "idx_pendingWrites idx' = idx_pendingWrites idx"
    by (simp_all add: e(2) R(2) idx_same_def)
  have "purged T (idx, batch_view s) (idx', batch_view s')"
    unfolding purged_def prod.case using ri wf' sm fr po by (simp add: batch_inv_def)
  then show ?thesis using ri dr R(5) by (simp add: e(1))
qed

lemma rows_disjoint: "(t', k') \<noteq> (t, k) \<Longrightarrow> - otherKeys r t' k' \<subseteq> otherKeys r t k"
  by (auto simp: otherKeys_def dest: rowKey_inj)

lemma flushDeleteLoop:
  assumes "pending_wf (idx_pendingDeletes idx)" "batch_inv T idx s" "env_ok T e" "0 < mx"
    "distinct (map (\<lambda>(t, k, rd). (t, k)) es)"
    "\<forall>(t, k, rd)\<in>set es. docsOf (idx_pendingDeletes idx) t k = rd_DocIds rd \<and> is_int64 t \<and> k \<noteq> []"
    "\<forall>(t, k, rd)\<in>set es. agree (- otherKeys (idx_keyTypeRow idx) t k) s"
    "fold (\<lambda>(t, k, rd). flushDeleteEntry e closing force mx t (k, rd)) es (idx, s) = (idx', s')"
  shows "purged T (idx, batch_view s) (idx', batch_view s') \<and> batch_inv T idx' s' \<and>
    (closing \<or> force \<longrightarrow> (\<forall>(t, k, rd)\<in>set es. docsOf (idx_pendingDeletes idx') t k = []))"
  using assms
proof (induction es arbitrary: idx s)
  case Nil
  then show ?case by (auto simp: purged_def batch_inv_def)
next
  case (Cons x es)
  obtain t k rd where x: "x = (t, k, rd)" by (cases x)
  obtain i1 s1 where f: "flushDeleteEntry e closing force mx t (k, rd) (idx, s) = (i1, s1)"
    by (cases "flushDeleteEntry e closing force mx t (k, rd) (idx, s)")
  have en: "docsOf (idx_pendingDeletes idx) t k = rd_DocIds rd" "is_int64 t" "k \<noteq> []"
    "agree (- otherKeys (idx_keyTypeRow idx) t k) s"
    using Cons.prems(6,7) by (auto simp: x)
  from flushDeleteEntry_purged [OF Cons.prems(1-3) en(1-3) Cons.prems(4) en(4) f]
  have F: "purged T (idx, batch_view s) (i1, batch_view s1)" "batch_inv T i1 s1"
    "\<And>t' k'. (t', k') \<noteq> (t, k) \<Longrightarrow> docsOf (idx_pendingDeletes i1) t' k' = docsOf (idx_pendingDeletes idx) t' k'"
    "closing \<or> force \<Longrightarrow> docsOf (idx_pendingDeletes i1) t k = []"
    "\<And>A. agree A s \<Longrightarrow> A \<subseteq> otherKeys (idx_keyTypeRow idx) t k \<Longrightarrow> agree A s1" by blast+
  have i1: "pending_wf (idx_pendingDeletes i1)" "idx_keyTypeRow i1 = idx_keyTypeRow idx"
    using F(1) by (simp_all add: purged_def idx_same_def)
  have ne: "(t', k') \<noteq> (t, k)" if "(t', k', rd') \<in> set es" for t' k' rd'
    using Cons.prems(5) that by (force simp: x)
  have rest: "\<forall>(t, k, rd)\<in>set es. docsOf (idx_pendingDeletes i1) t k = rd_DocIds rd \<and> is_int64 t \<and> k \<noteq> []"
    using Cons.prems(6) ne F(3) by auto
  have ag: "\<forall>(t, k, rd)\<in>set es. agree (- otherKeys (idx_keyTypeRow i1) t k) s1"
    using Cons.prems(7) ne F(5) rows_disjoint by (auto simp: i1(2))
  have g: "fold (\<lambda>(t, k, rd). flushDeleteEntry e closing force mx t (k, rd)) es (i1, s1) = (idx', s')"
    using Cons.prems(8) f by (simp add: x)
  have "distinct (map (\<lambda>(t, k, rd). (t, k)) es)" using Cons.prems(5) by simp
  from Cons.IH [OF i1(1) F(2) Cons.prems(3,4) this rest ag g]
  have IH: "purged T (i1, batch_view s1) (idx', batch_view s')" "batch_inv T idx' s'"
    "closing \<or> force \<longrightarrow> (\<forall>(t, k, rd)\<in>set es. docsOf (idx_pendingDeletes idx') t k = [])" by auto
  have "docsOf (idx_pendingDeletes idx') t k = []" if "closing \<or> force"
    using purged_docs [OF IH(1), of t k] F(4) that by auto
  with IH(2,3) purged_trans [OF F(1) IH(1)] show ?case by (auto simp: x)
qed

lemma flushPendingDeletes_ok:
  assumes wf: "pending_wf (idx_pendingDeletes idx)" and ok: "kv_ok db" and inv: "rows_inv T idx (kv_map db)"
    and env: "env_ok T e" and mx: "0 < mx"
  shows "\<exists>idx' db'. flushPendingDeletes e closing force mx (idx, db) = Some (idx', db') \<and> kv_ok db' \<and>
    purged T (idx, kv_map db) (idx', kv_map db') \<and>
    (closing \<or> force \<longrightarrow> (\<forall>t k. docsOf (idx_pendingDeletes idx') t k = []))"
proof (cases "\<not> closing \<and> \<not> force \<and> en_sinceD e - idx_lastFlushDeleteTime idx < flushCooldown (idx_opts idx)")
  case True
  then show ?thesis using assms by (auto simp: flushPendingDeletes_def purged_def)
next
  case False
  let ?b = "\<lparr>pb_ops = [], pb_maxBatchSize = 512, pb_count = 0\<rparr>"
  let ?i = "idx\<lparr>idx_lastFlushDeleteTime := en_nowD e\<rparr>"
  let ?es = "entries (idx_pendingDeletes idx)"
  obtain i1 s1 where f: "fold (\<lambda>(t, k, rd). flushDeleteEntry e closing force mx t (k, rd)) ?es (?i, (db, ?b)) = (i1, s1)"
    by (cases "fold (\<lambda>(t, k, rd). flushDeleteEntry e closing force mx t (k, rd)) ?es (?i, (db, ?b))")
  have inv': "batch_inv T ?i (db, ?b)" using inv ok by (simp add: batch_inv_def rows_inv_def batch_safe_def)
  have "\<forall>(t, k, rd)\<in>set ?es. docsOf (idx_pendingDeletes ?i) t k = rd_DocIds rd \<and> is_int64 t \<and> k \<noteq> []"
    using entries_docsOf(1-3) [OF wf] by simp blast
  moreover have "\<forall>(t, k, rd)\<in>set ?es. agree (- otherKeys (idx_keyTypeRow ?i) t k) (db, ?b)"
    by (simp add: agree_def)
  ultimately have "purged T (?i, batch_view (db, ?b)) (i1, batch_view s1) \<and> batch_inv T i1 s1 \<and>
    (closing \<or> force \<longrightarrow> (\<forall>(t, k, rd)\<in>set ?es. docsOf (idx_pendingDeletes i1) t k = []))"
    using flushDeleteLoop [OF _ inv' env mx distinct_entries [OF wf] _ _ f] wf by simp
  then have L: "purged T (?i, kv_map db) (i1, batch_view s1)" "kv_ok (fst s1)"
    "closing \<or> force \<longrightarrow> (\<forall>(t, k, rd)\<in>set ?es. docsOf (idx_pendingDeletes i1) t k = [])"
    by (simp_all add: batch_inv_def)
  have c: "kv_ok (fst (fst (batchCommit s1)))" "kv_map (fst (fst (batchCommit s1))) = batch_view s1"
    using batchCommit_ok [OF L(2), of "snd s1"] by simp_all
  have m: "purged T (idx, kv_map db) (i1, batch_view s1)" using L(1) by (simp add: purged_def)
  have "docsOf (idx_pendingDeletes i1) t k = []" if "closing \<or> force" for t k
    using purged_docs [OF m, of t k] L(3) that docsOf_entry [OF wf, of t k] by force
  with False c m f ok show ?thesis
    by (auto simp: flushPendingDeletes_def newIndexBatch_def NewBatch_ok fold_entries)
qed

end
