(* ===== verification/InvMerger.thy ===== *)
theory InvMerger
  imports InvDelete
begin

text \<open>
  The background merger (\<open>keywords_merger.go\<close>): it walks the posting rows in key order, groups
  neighbouring rows of one keyword and rewrites each group into fewer rows. The results of the
  successive \<open>isTimeout\<close> calls are a function of the call number; the loop over scans takes fuel and
  answers \<open>None\<close> when it runs out.
\<close>

record merging =
  mg_WaitingForFlushCache :: bool
  mg_NextIter :: bytes
  mg_TotalKeywords :: int
  mg_TotalRowsBefore :: int
  mg_TotalRowsAfter :: int

record recordRow =
  rr_Key :: bytes
  rr_Value :: bytes
  rr_DocCount :: int

record invertedIndexEntry =
  ie_TableId :: int
  ie_Keyword :: bytes
  ie_Rows :: "recordRow list"
  ie_DocCount :: int

definition MergedRowCount :: "merging \<Rightarrow> int" where
  "MergedRowCount m = mg_TotalRowsBefore m - mg_TotalRowsAfter m"

subsection \<open>Rewriting a group\<close>

fun takeRows :: "int \<Rightarrow> int \<Rightarrow> docid list \<Rightarrow> recordRow list \<Rightarrow> PebbleDB \<times> PebbleBatch \<Rightarrow>
    int \<times> docid list \<times> recordRow list \<times> (PebbleDB \<times> PebbleBatch)" where
  "takeRows maxSize remaining docids [] s = (remaining, docids, [], s)"
| "takeRows maxSize remaining docids (row # rows) s =
     (if int (length docids) < maxSize \<or> remaining < max (maxSize div 5) 4
      then takeRows maxSize (remaining - rr_DocCount row)
             (fold List.insert (decodeInvertedValueStr (rr_Value row)) docids) rows
             (fst (batchDelete (rr_Key row) s))
      else (remaining, docids, row # rows, s))"

text \<open>The outer loop; the number of rows is enough fuel, as each round takes at least one row when
  \<open>maxSize\<close> is positive (lemma \<open>rewriteLoop_ok\<close>).\<close>

fun rewriteLoop :: "nat \<Rightarrow> int \<Rightarrow> int \<Rightarrow> int \<Rightarrow> bytes \<Rightarrow> int \<Rightarrow> recordRow list \<Rightarrow> int \<Rightarrow> bstate \<Rightarrow> (bstate \<times> int) option" where
  "rewriteLoop fuel tick maxSize tableId kw remaining rows mergedCount s =
     (if length rows \<le> 1 then Some (s, mergedCount)
      else case fuel of
        0 \<Rightarrow> None
      | Suc fuel' \<Rightarrow>
          (case s of (idx, bs) \<Rightarrow>
             (case takeRows maxSize remaining [] rows bs of (remaining', docids, rows', bs') \<Rightarrow>
                rewriteLoop fuel' tick maxSize tableId kw remaining' rows' (mergedCount + 1)
                  (writeInvertedIndex tableId kw docids tick (idx, bs')))))"

declare rewriteLoop.simps [simp del]

text \<open>The quotient only matters when it is above \<open>maxSize\<close>, where rounding down and towards zero agree.\<close>

definition rewriteIndex :: "int \<Rightarrow> int \<Rightarrow> invertedIndexEntry \<Rightarrow> bstate \<Rightarrow> (bstate \<times> int) option" where
  "rewriteIndex tick maxSize index s =
     (if length (ie_Rows index) < 2 \<or> maxSize < ie_DocCount index div int (length (ie_Rows index))
      then Some (s, int (length (ie_Rows index)))
      else rewriteLoop (length (ie_Rows index)) tick maxSize (ie_TableId index) (ie_Keyword index)
             (ie_DocCount index) (ie_Rows index) 0 s)"

subsection \<open>Scanning\<close>

record mscan =
  ms_lastTableId :: int
  ms_current :: "invertedIndexEntry option"
  ms_nextIter :: bytes
  ms_pending :: "invertedIndexEntry list"
  ms_next :: "invertedIndexEntry option"
  ms_m :: merging
  ms_calls :: nat

definition emptyEntry :: invertedIndexEntry where
  "emptyEntry = \<lparr>ie_TableId = 0, ie_Keyword = [], ie_Rows = [], ie_DocCount = 0\<rparr>"

text \<open>A new group: the previous one goes to \<open>pending\<close>, and the scan goes on unless the time is up or
  500 groups are waiting.\<close>

definition mergeNewGroup :: "(nat \<Rightarrow> bool) \<Rightarrow> invertedIndexEntry \<Rightarrow> invertedIndexEntry \<Rightarrow> bytes \<Rightarrow> mscan \<Rightarrow> mscan \<times> bool" where
  "mergeNewGroup isTimeout cur nxt key st =
     (let pending = ms_pending st @ [cur];
          st' = st\<lparr>ms_pending := pending, ms_calls := ms_calls st + 1\<rparr>
      in if \<not> isTimeout (ms_calls st) \<and> length pending < 500
         then (st'\<lparr>ms_current := Some nxt, ms_next := None\<rparr>, True)
         else (st'\<lparr>ms_current := None, ms_next := Some nxt, ms_nextIter := key @ [CHR 0x01]\<rparr>, False))"

definition mergeScan :: "Index \<Rightarrow> int \<Rightarrow> (nat \<Rightarrow> bool) \<Rightarrow> mscan callback" where
  "mergeScan idx maxSize isTimeout st key value =
     (case decodeInvertedKey idx key of (tableId, kw, doccount, _) \<Rightarrow>
        if tableId = InvalidTableId then (st, True)
        else case ms_current st of
          None \<Rightarrow> (st, True)
        | Some cur0 \<Rightarrow>
            let row = \<lparr>rr_Key = key, rr_Value = value, rr_DocCount = doccount\<rparr>;
                first = (ms_lastTableId st = - 1);
                cur = (if first then cur0\<lparr>ie_Keyword := kw, ie_TableId := tableId\<rparr> else cur0);
                lastId = (if first then tableId else ms_lastTableId st);
                nxt = \<lparr>ie_TableId = tableId, ie_Keyword = kw, ie_Rows = [row], ie_DocCount = doccount\<rparr>;
                st1 = st\<lparr>ms_current := Some cur, ms_lastTableId := tableId\<rparr>
            in if lastId \<noteq> tableId then mergeNewGroup isTimeout cur nxt key st1
               else if maxSize div 2 < doccount
               then (st1\<lparr>ms_m := (ms_m st)\<lparr>mg_TotalRowsBefore := mg_TotalRowsBefore (ms_m st) + int (length (ie_Rows cur)),
                                            mg_TotalRowsAfter := mg_TotalRowsAfter (ms_m st) + int (length (ie_Rows cur))\<rparr>\<rparr>,
                     True)
               else if ie_Keyword cur = kw
               then (st1\<lparr>ms_current := Some (cur\<lparr>ie_Rows := ie_Rows cur @ [row], ie_DocCount := ie_DocCount cur + doccount\<rparr>)\<rparr>, True)
               else mergeNewGroup isTimeout cur nxt key st1)"

fun rewritePending :: "(nat \<Rightarrow> int) \<Rightarrow> int \<Rightarrow> invertedIndexEntry list \<Rightarrow> merging \<Rightarrow> bstate \<Rightarrow> (bstate \<times> merging) option" where
  "rewritePending ticks maxSize [] m s = Some (s, m)"
| "rewritePending ticks maxSize (c # cs) m s =
     (case rewriteIndex (ticks (length cs)) maxSize c s of
        None \<Rightarrow> None
      | Some (s', after) \<Rightarrow>
          rewritePending ticks maxSize cs
            (m\<lparr>mg_TotalRowsBefore := mg_TotalRowsBefore m + int (length (ie_Rows c)),
               mg_TotalRowsAfter := mg_TotalRowsAfter m + after, mg_TotalKeywords := mg_TotalKeywords m + 1\<rparr>) s')"

fun mergeLoop :: "nat \<Rightarrow> int \<Rightarrow> (nat \<Rightarrow> nat \<Rightarrow> int) \<Rightarrow> (nat \<Rightarrow> bool) \<Rightarrow> mscan \<Rightarrow> bstate \<Rightarrow> (bstate \<times> merging) option" where
  "mergeLoop 0 maxSize ticks isTimeout st s = None"
| "mergeLoop (Suc fuel) maxSize ticks isTimeout st s =
     (case s of (idx, (db, b)) \<Rightarrow>
        (case fst (kvScanRange (ms_nextIter st) [idx_keyTypeRow idx, xFF] (mergeScan idx maxSize isTimeout) st db) of
           st1 \<Rightarrow>
             (case rewritePending (ticks fuel) maxSize
                     (ms_pending st1 @
                        (case ms_current st1 of None \<Rightarrow> [] | Some c \<Rightarrow> if ie_Rows c \<noteq> [] then [c] else []))
                     (ms_m st1) s of
                None \<Rightarrow> None
              | Some (s', m) \<Rightarrow>
                  (case ms_next st1 of
                     None \<Rightarrow> Some (s', m\<lparr>mg_NextIter := []\<rparr>)
                   | Some nxt \<Rightarrow>
                       if isTimeout (ms_calls st1)
                       then Some (s', m\<lparr>mg_NextIter := encodeInvertedKeyPrefix idx (ie_TableId nxt) (ie_Keyword nxt)\<rparr>)
                       else mergeLoop fuel maxSize ticks isTimeout
                              (st1\<lparr>ms_pending := [], ms_m := m, ms_current := Some nxt, ms_next := None,
                                   ms_calls := ms_calls st1 + 1\<rparr>) s'))))"

definition mergeKeywordsIndex ::
  "nat \<Rightarrow> (nat \<Rightarrow> nat \<Rightarrow> int) \<Rightarrow> (nat \<Rightarrow> bool) \<Rightarrow> merging \<Rightarrow> int \<Rightarrow> istate \<Rightarrow> (istate \<times> merging) option" where
  "mergeKeywordsIndex fuel ticks isTimeout m maxSize s =
     (case s of (idx, db) \<Rightarrow>
        (case newIndexBatch db of
           None \<Rightarrow> None
         | Some b \<Rightarrow>
             (case mergeLoop fuel maxSize ticks isTimeout
                     \<lparr>ms_lastTableId = - 1, ms_current = Some emptyEntry, ms_nextIter = mg_NextIter m, ms_pending = [],
                      ms_next = None, ms_m = m, ms_calls = 0\<rparr> (idx, (db, b)) of
                None \<Rightarrow> None
              | Some ((idx', bs), m') \<Rightarrow> Some ((idx', fst (fst (batchCommit bs))), m'))))"

definition mergeKeywordTask ::
  "nat \<Rightarrow> (nat \<Rightarrow> nat \<Rightarrow> int) \<Rightarrow> (nat \<Rightarrow> bool) \<Rightarrow> merging \<Rightarrow> istate \<Rightarrow> (istate \<times> merging) option" where
  "mergeKeywordTask fuel ticks isTimeout m s =
     (if idx_pendingWrites (fst s) \<noteq> [] then Some (s, m\<lparr>mg_WaitingForFlushCache := True\<rparr>)
      else mergeKeywordsIndex fuel ticks isTimeout (m\<lparr>mg_WaitingForFlushCache := False\<rparr>)
             (maxInvertedIndexSize (idx_opts (fst s))) s)"

text \<open>\<open>keywordsMerger.Start\<close> and the restart of the scan in \<open>run\<close>: \<open>string(keyTypeRow)\<close> is the UTF-8
  encoding of the byte as a code point.\<close>

definition newMerging :: "Index \<Rightarrow> merging" where
  "newMerging idx =
     \<lparr>mg_WaitingForFlushCache = False, mg_NextIter = EncodeRune (of_char (idx_keyTypeRow idx)), mg_TotalKeywords = 0,
      mg_TotalRowsBefore = 0, mg_TotalRowsAfter = 0\<rparr>"

definition mergerRestart :: "Index \<Rightarrow> merging \<Rightarrow> merging" where
  "mergerRestart idx m = (if mg_NextIter m = [] then newMerging idx else m)"

text \<open>One round of \<open>run\<close>: the state for the next round and the delay before it, in nanoseconds. The
  compaction request, which depends on a float32 quotient of the counters, is left out.\<close>

definition mergerRound ::
  "nat \<Rightarrow> (nat \<Rightarrow> nat \<Rightarrow> int) \<Rightarrow> (nat \<Rightarrow> bool) \<Rightarrow> int \<Rightarrow> merging \<Rightarrow> istate \<Rightarrow> (istate \<times> merging \<times> int) option" where
  "mergerRound fuel ticks isTimeout completedDelay m s =
     (case mergeKeywordTask fuel ticks isTimeout (mergerRestart (fst s) m) s of
        None \<Rightarrow> None
      | Some (s', m') \<Rightarrow>
          Some (s', m',
            if mg_NextIter m' = [] then (if completedDelay = 0 then 28800000000000 else completedDelay)
            else if mg_WaitingForFlushCache m' then 5000000000 else 500000000))"

subsection \<open>Rewriting keeps the postings\<close>

text \<open>Rows held by a group: they are in the map, under keys of the group's table and keyword.\<close>

definition held :: "char \<Rightarrow> (bytes \<rightharpoonup> bytes) \<Rightarrow> int \<Rightarrow> bytes \<Rightarrow> recordRow list \<Rightarrow> bool" where
  "held r m tid kw rows \<longleftrightarrow>
     (\<forall>row\<in>set rows. m (rr_Key row) = Some (rr_Value row) \<and> (\<exists>c t n. rr_Key row = rowKey r tid kw c t n))"

text \<open>What is durable and not among the keys \<open>X\<close> is still there once the batch is written.\<close>

definition kept :: "bytes set \<Rightarrow> PebbleDB \<times> PebbleBatch \<Rightarrow> bool" where
  "kept X s \<longleftrightarrow> (\<forall>k v. kv_map (fst s) k = Some v \<and> k \<notin> X \<longrightarrow> batch_view s k = Some v)"

lemma kept_append:
  assumes "kv_ok (fst s)" "kept X s" "op = BDelete k \<and> k \<in> X \<or> op = BSet k v \<and> batch_view s k = None"
  shows "kept X (fst (batchAppend op s))"
proof -
  obtain d b where s: "s = (d, b)" by (cases s)
  have "kv_ok d" using assms(1) by (simp add: s)
  then show ?thesis
  proof (cases rule: batchAppend_cases [where op = op and b = b])
    case (1 b')
    then have "batch_view (d, b') = applyOpM op (batch_view s)" by (simp add: s batch_view_def)
    with 1 assms(2,3) show ?thesis by (auto simp: s kept_def)
  next
    case (2 d' b')
    then show ?thesis by (simp add: s kept_def batch_view_def)
  qed
qed

lemma kept_mono: "kept X s \<Longrightarrow> X \<subseteq> Y \<Longrightarrow> kept Y s"
  by (auto simp: kept_def)

lemma takeRows_ok:
  assumes "batch_inv T idx s" "takeRows mx rm docids rows s = (rm', docids', rows', s')"
  shows "\<exists>taken. rows = taken @ rows' \<and> batch_inv T idx s' \<and>
    batch_view s' = (batch_view s) |` (- rr_Key ` set taken) \<and>
    set docids' = set docids \<union> (\<Union>row\<in>set taken. set (decodeInvertedValue (rr_Value row))) \<and>
    (\<forall>X. kept X s \<and> rr_Key ` set taken \<subseteq> X \<longrightarrow> kept X s') \<and>
    (rows \<noteq> [] \<and> docids = [] \<and> 0 < mx \<longrightarrow> taken \<noteq> [])"
  using assms
proof (induction mx rm docids rows s rule: takeRows.induct)
  case (1 mx rm docids s)
  then show ?case by (auto simp: restrict_map_def)
next
  case (2 mx rm docids row rows s)
  show ?case
  proof (cases "int (length docids) < mx \<or> rm < max (mx div 5) 4")
    case False
    then show ?thesis using 2(2,3) by (auto simp: restrict_map_def)
  next
    case True
    let ?s = "fst (batchDelete (rr_Key row) s)"
    have ok: "kv_ok (fst s)" using 2(2) by (simp add: batch_inv_def)
    from delete_keys [OF 2(2), of "[rr_Key row]" "{}"]
    have d: "batch_inv T idx ?s" "batch_view ?s = (batch_view s) |` (- {rr_Key row})" by (simp_all add: agree_def)
    from 2(1) [OF True d(1)] 2(3) True obtain taken where t: "rows = taken @ rows'" "batch_inv T idx s'"
      "batch_view s' = (batch_view ?s) |` (- rr_Key ` set taken)"
      "set docids' = set (fold List.insert (decodeInvertedValueStr (rr_Value row)) docids) \<union>
         (\<Union>row\<in>set taken. set (decodeInvertedValue (rr_Value row)))"
      "\<forall>X. kept X ?s \<and> rr_Key ` set taken \<subseteq> X \<longrightarrow> kept X s'" by auto
    have "kept X s'" if "kept X s" "rr_Key ` set (row # taken) \<subseteq> X" for X
      using t(5) kept_append [OF ok that(1), of "BDelete (rr_Key row)" "rr_Key row"] that(2) by (simp add: batchDelete_def)
    moreover have "batch_view s' = (batch_view s) |` (- rr_Key ` set (row # taken))"
      by (auto simp: t(3) d(2) restrict_map_def fun_eq_iff)
    moreover have "set docids' = set docids \<union> (\<Union>row\<in>set (row # taken). set (decodeInvertedValue (rr_Value row)))"
      by (auto simp: t(4) set_fold_insert decodeInvertedValueStr_def)
    ultimately show ?thesis using t(1,2) by (intro exI [of _ "row # taken"]) simp
  qed
qed

text \<open>Map level: rows of a keyword replaced by one fresh row with all their docids.\<close>

lemma posts_merged:
  assumes h: "held r m tid kw taken" and f: "m (rowKey r tid kw c t n) = None"
    and v: "set (decodeInvertedValue v) = (\<Union>row\<in>set taken. set (decodeInvertedValue (rr_Value row)))"
  shows "posts r ((m |` (- rr_Key ` set taken))(rowKey r tid kw c t n \<mapsto> v)) tid' kw' = posts r m tid' kw'"
proof -
  let ?m = "m |` (- rr_Key ` set taken)"
  have n: "?m (rowKey r tid kw c t n) = None" using f by (simp add: restrict_map_def)
  have o: "posts r ?m tid' kw' = posts r m tid' kw'" if "(tid', kw') \<noteq> (tid, kw)"
  proof (rule posts_cong)
    fix c' t' n'
    have "rowKey r tid' kw' c' t' n' \<notin> rr_Key ` set taken"
      using h that by (auto simp: held_def dest!: rowKey_inj)
    then show "?m (rowKey r tid' kw' c' t' n') = m (rowKey r tid' kw' c' t' n')" by (simp add: restrict_map_def)
  qed
  have "posts r ?m tid kw \<union> set (decodeInvertedValue v) = posts r m tid kw"
  proof (intro set_eqI iffI)
    fix d assume "d \<in> posts r ?m tid kw \<union> set (decodeInvertedValue v)"
    then consider "d \<in> posts r ?m tid kw" | row where "row \<in> set taken" "d \<in> set (decodeInvertedValue (rr_Value row))"
      using v by auto
    then show "d \<in> posts r m tid kw"
    proof cases
      case 1
      then show ?thesis by (auto simp: posts_def restrict_map_def split: if_splits)
    next
      case 2
      then obtain c' t' n' where "m (rowKey r tid kw c' t' n') = Some (rr_Value row)" using h by (force simp: held_def)
      then show ?thesis using 2(2) by (rule posts_memI)
    qed
  next
    fix d assume "d \<in> posts r m tid kw"
    then obtain c' t' n' w where w: "m (rowKey r tid kw c' t' n') = Some w" "d \<in> set (decodeInvertedValue w)"
      by (auto simp: posts_def)
    show "d \<in> posts r ?m tid kw \<union> set (decodeInvertedValue v)"
    proof (cases "rowKey r tid kw c' t' n' \<in> rr_Key ` set taken")
      case True
      then obtain row where "row \<in> set taken" "rr_Key row = rowKey r tid kw c' t' n'" by auto
      moreover from this have "rr_Value row = w" using h w(1) by (force simp: held_def)
      ultimately show ?thesis using v w(2) by auto
    next
      case False
      then have "?m (rowKey r tid kw c' t' n') = Some w" using w(1) by (simp add: restrict_map_def)
      then show ?thesis using w(2) posts_memI by fastforce
    qed
  qed
  then show ?thesis using o by (subst posts_put [where m = ?m, OF n]) auto
qed

text \<open>What rewriting leaves: the same postings, every row outside \<open>K\<close> and every other key.\<close>

definition rewrote :: "int set \<Rightarrow> bytes set \<Rightarrow> bstate \<Rightarrow> bstate \<Rightarrow> bool" where
  "rewrote T K x y \<longleftrightarrow>
     (case x of (idx, s) \<Rightarrow> case y of (idx', s') \<Rightarrow>
        batch_inv T idx' s' \<and> (\<exists>n. idx' = idx\<lparr>idx_keySeq := n\<rparr>) \<and>
        (\<forall>t k. posts (idx_keyTypeRow idx) (batch_view s') t k = posts (idx_keyTypeRow idx) (batch_view s) t k) \<and>
        (\<forall>k v. batch_view s k = Some v \<and> k \<notin> K \<longrightarrow> batch_view s' k = Some v) \<and>
        (\<forall>k. \<not> isKeyType k (idx_keyTypeRow idx) \<longrightarrow> batch_view s' k = batch_view s k) \<and>
        (\<forall>X. kept X s \<and> K \<subseteq> X \<longrightarrow> kept X s'))"

lemma rewrote_refl: "batch_inv T (fst x) (snd x) \<Longrightarrow> rewrote T K x x"
  unfolding rewrote_def by (cases x) (auto intro: exI [of _ "idx_keySeq (fst x)"])

lemma rewrote_trans:
  assumes "rewrote T K x y" "rewrote T K' y z"
  shows "rewrote T (K \<union> K') x z"
proof -
  obtain i s j t k u where [simp]: "x = (i, s)" "y = (j, t)" "z = (k, u)" by (cases x; cases y; cases z)
  have r: "idx_keyTypeRow j = idx_keyTypeRow i" using assms(1) by (auto simp: rewrote_def)
  note a = assms(1) [unfolded rewrote_def \<open>x = _\<close> \<open>y = _\<close> prod.case]
  note b = assms(2) [unfolded rewrote_def \<open>y = _\<close> \<open>z = _\<close> prod.case r]
  have "\<exists>n. k = i\<lparr>idx_keySeq := n\<rparr>" using a b by auto
  then show ?thesis using a b unfolding rewrote_def by auto
qed

lemma held_take: "held r m tid kw (xs @ ys) \<longleftrightarrow> held r m tid kw xs \<and> held r m tid kw ys"
  by (auto simp: held_def)

lemma rewrite_round:
  assumes inv: "batch_inv T idx s" and t: "tick \<in> T" "is_int64 tid" and h: "held (idx_keyTypeRow idx) (batch_view s) tid kw rows"
    and tk: "takeRows mx rm [] rows s = (rm', docids, rows', s1)" and rows: "rows = taken @ rows'"
    and s1: "batch_inv T idx s1" "batch_view s1 = (batch_view s) |` (- rr_Key ` set taken)"
      "set docids = (\<Union>row\<in>set taken. set (decodeInvertedValue (rr_Value row)))"
      "\<forall>X. kept X s \<and> rr_Key ` set taken \<subseteq> X \<longrightarrow> kept X s1"
    and w: "writeInvertedIndex tid kw docids tick (idx, s1) = (idx', s')"
  shows "rewrote T (rr_Key ` set taken) (idx, s) (idx', s')"
proof -
  let ?r = "idx_keyTypeRow idx"
  let ?k = "rowKey ?r tid kw (int (card (set docids))) tick (idx_keySeq idx + 1)"
  have h': "held ?r (batch_view s) tid kw taken" using h by (simp add: rows held_take)
  have wf: "rows_wf ?r (batch_view s)" and fr: "batch_view s ?k = None"
    using inv t(1) by (auto simp: batch_inv_def rows_inv_def seq_fresh_def)
  have pos: "\<forall>d\<in>set docids. 0 < sint d"
  proof
    fix d assume "d \<in> set docids"
    then obtain row where row: "row \<in> set taken" "d \<in> set (decodeInvertedValue (rr_Value row))" using s1(3) by auto
    then obtain c u n where "rr_Key row = rowKey ?r tid kw c u n" "batch_view s (rr_Key row) = Some (rr_Value row)"
      using h' by (auto simp: held_def)
    with wf [unfolded rows_wf_def, rule_format, of "rr_Key row" "rr_Value row"] row(2) show "0 < sint d" by auto
  qed
  have ok: "kv_ok (fst s1)" using s1(1) by (simp add: batch_inv_def)
  note W = write_step [OF s1(1) t pos w]
  have e: "s' = fst (batchAppend (BSet ?k (encodeInvertedValue docids)) s1)"
    using w by (simp add: writeInvertedIndex_eq [OF ok])
  have v: "batch_view s' = (batch_view s |` (- rr_Key ` set taken))(?k \<mapsto> encodeInvertedValue docids)"
    using batchAppend_ok(3) [OF ok] by (simp add: e s1(2))
  have "posts ?r (batch_view s') t' k' = posts ?r (batch_view s) t' k'" for t' k'
    unfolding v by (rule posts_merged [OF h' fr]) (simp add: s1(3))
  moreover have "batch_view s' x = Some y" if "batch_view s x = Some y" "x \<notin> rr_Key ` set taken" for x y
    using that fr by (auto simp: v restrict_map_def)
  moreover have "batch_view s' x = batch_view s x" if "\<not> isKeyType x ?r" for x
  proof -
    have "x \<notin> rr_Key ` set taken" using h' that by (auto simp: held_def)
    then show ?thesis using that by (auto simp: v restrict_map_def)
  qed
  moreover have "kept X s'" if "kept X s" "rr_Key ` set taken \<subseteq> X" for X
    unfolding e using s1(2,4) that fr
    by (intro kept_append [OF ok, of X _ ?k "encodeInvertedValue docids"]) (auto simp: restrict_map_def)
  ultimately show ?thesis using W(1,2) unfolding rewrote_def by auto
qed

lemma rewriteLoop_ok:
  assumes "batch_inv T idx s" "tick \<in> T" "is_int64 tid" "0 < mx" "held (idx_keyTypeRow idx) (batch_view s) tid kw rows"
    "distinct (map rr_Key rows)" "length rows \<le> Suc fuel"
  shows "\<exists>y c. rewriteLoop fuel tick mx tid kw rm rows cnt (idx, s) = Some (y, c) \<and>
    rewrote T (rr_Key ` set rows) (idx, s) y"
  using assms
proof (induction fuel arbitrary: idx s rm rows cnt)
  case 0
  then show ?case by (subst rewriteLoop.simps) (auto intro: rewrote_refl)
next
  case (Suc fuel)
  show ?case
  proof (cases "length rows \<le> 1")
    case True
    then show ?thesis using Suc.prems(1) by (subst rewriteLoop.simps) (auto intro: rewrote_refl)
  next
    case False
    let ?r = "idx_keyTypeRow idx"
    obtain rm' docids rows' s1 where tk: "takeRows mx rm [] rows s = (rm', docids, rows', s1)"
      by (metis prod_cases4)
    obtain i2 s2 where w: "writeInvertedIndex tid kw docids tick (idx, s1) = (i2, s2)" by (rule prod.exhaust)
    from takeRows_ok [OF Suc.prems(1) tk] obtain taken where k: "rows = taken @ rows'" "batch_inv T idx s1"
      "batch_view s1 = (batch_view s) |` (- rr_Key ` set taken)"
      "set docids = (\<Union>row\<in>set taken. set (decodeInvertedValue (rr_Value row)))"
      "\<forall>X. kept X s \<and> rr_Key ` set taken \<subseteq> X \<longrightarrow> kept X s1" "taken \<noteq> []"
      using False Suc.prems(4) by fastforce
    note R = rewrite_round [OF Suc.prems(1-3,5) tk k(1-5) w]
    have R': "batch_inv T i2 s2" "idx_keyTypeRow i2 = ?r"
      "\<And>x v. batch_view s x = Some v \<Longrightarrow> x \<notin> rr_Key ` set taken \<Longrightarrow> batch_view s2 x = Some v"
      using R by (auto simp: rewrote_def)
    have "held ?r (batch_view s2) tid kw rows'"
      unfolding held_def
    proof (intro ballI conjI)
      fix row assume row: "row \<in> set rows'"
      then have hr: "batch_view s (rr_Key row) = Some (rr_Value row)" "\<exists>c t n. rr_Key row = rowKey ?r tid kw c t n"
        using Suc.prems(5) by (auto simp: held_def k(1))
      have "rr_Key row \<notin> rr_Key ` set taken" using Suc.prems(6) row by (auto simp: k(1))
      then show "batch_view s2 (rr_Key row) = Some (rr_Value row)" using R'(3) hr(1) by blast
      show "\<exists>c t n. rr_Key row = rowKey ?r tid kw c t n" by fact
    qed
    moreover have "distinct (map rr_Key rows')" "length rows' \<le> Suc fuel"
      using Suc.prems(6,7) k(6) by (auto simp: k(1) Suc_le_eq) (cases taken; simp)
    ultimately obtain y c where y: "rewriteLoop fuel tick mx tid kw rm' rows' (cnt + 1) (i2, s2) = Some (y, c)"
      "rewrote T (rr_Key ` set rows') (i2, s2) y"
      using Suc.IH [OF R'(1) Suc.prems(2-4), where rows = rows' and rm = rm' and cnt = "cnt + 1"] unfolding R'(2) by blast
    have "rewrote T (rr_Key ` set taken \<union> rr_Key ` set rows') (idx, s) y" using rewrote_trans [OF R y(2)] .
    then show ?thesis using False tk w y(1) by (subst rewriteLoop.simps) (simp add: k(1) image_Un)
  qed
qed

text \<open>Groups: their rows are held and no row is in two groups.\<close>

definition groupKeys :: "invertedIndexEntry list \<Rightarrow> bytes list" where
  "groupKeys gs = concat (map (\<lambda>g. map rr_Key (ie_Rows g)) gs)"

lemma groupKeys_simps [simp]:
  "groupKeys [] = []" "groupKeys (g # gs) = map rr_Key (ie_Rows g) @ groupKeys gs"
  "groupKeys (gs @ hs) = groupKeys gs @ groupKeys hs"
  by (simp_all add: groupKeys_def)

definition groups_ok :: "char \<Rightarrow> (bytes \<rightharpoonup> bytes) \<Rightarrow> invertedIndexEntry list \<Rightarrow> bool" where
  "groups_ok r m gs \<longleftrightarrow>
     (\<forall>g\<in>set gs. is_int64 (ie_TableId g) \<and> held r m (ie_TableId g) (ie_Keyword g) (ie_Rows g)) \<and>
     distinct (groupKeys gs)"

lemma held_mono:
  assumes "held r m tid kw rows" "\<And>k v. k \<in> rr_Key ` set rows \<Longrightarrow> m k = Some v \<Longrightarrow> m' k = Some v"
  shows "held r m' tid kw rows"
  using assms by (auto simp: held_def)

lemma groups_ok_mono:
  assumes "groups_ok r m gs" "\<And>k v. k \<in> set (groupKeys gs) \<Longrightarrow> m k = Some v \<Longrightarrow> m' k = Some v"
  shows "groups_ok r m' gs"
  unfolding groups_ok_def
proof (intro conjI ballI)
  fix g assume g: "g \<in> set gs"
  then show "is_int64 (ie_TableId g)" using assms(1) by (simp add: groups_ok_def)
  have "set (groupKeys gs) = (\<Union>g\<in>set gs. rr_Key ` set (ie_Rows g))" by (simp add: groupKeys_def)
  then have *: "k \<in> set (groupKeys gs)" if "k \<in> rr_Key ` set (ie_Rows g)" for k using g that by blast
  have "held r m (ie_TableId g) (ie_Keyword g) (ie_Rows g)" using assms(1) g by (simp add: groups_ok_def)
  then show "held r m' (ie_TableId g) (ie_Keyword g) (ie_Rows g)"
    using assms(2) [OF *] by (rule held_mono)
qed (use assms(1) in \<open>simp add: groups_ok_def\<close>)

lemma rewrote_mono: "rewrote T K x y \<Longrightarrow> K \<subseteq> K' \<Longrightarrow> rewrote T K' x y"
  unfolding rewrote_def by (cases x; cases y) (simp only: prod.case, blast)

lemma rewriteIndex_ok:
  assumes "batch_inv T idx s" "tick \<in> T" "0 < mx" "groups_ok (idx_keyTypeRow idx) (batch_view s) [g]"
  shows "\<exists>y c. rewriteIndex tick mx g (idx, s) = Some (y, c) \<and> rewrote T (set (groupKeys [g])) (idx, s) y"
proof (cases "length (ie_Rows g) < 2 \<or> mx < ie_DocCount g div int (length (ie_Rows g))")
  case True
  moreover have "rewrote T (set (groupKeys [g])) (idx, s) (idx, s)" using assms(1) by (simp add: rewrote_refl)
  ultimately show ?thesis by (simp add: rewriteIndex_def del: groupKeys_simps)
next
  case False
  have g: "is_int64 (ie_TableId g)" "held (idx_keyTypeRow idx) (batch_view s) (ie_TableId g) (ie_Keyword g) (ie_Rows g)"
    "distinct (map rr_Key (ie_Rows g))" using assms(4) by (simp_all add: groups_ok_def)
  from rewriteLoop_ok [OF assms(1,2) g(1) assms(3) g(2,3), where fuel = "length (ie_Rows g)" and rm = "ie_DocCount g" and cnt = 0]
  show ?thesis using False by (simp add: rewriteIndex_def)
qed

lemma rewritePending_ok:
  assumes "batch_inv T idx s" "\<forall>n. ticks n \<in> T" "0 < mx" "groups_ok (idx_keyTypeRow idx) (batch_view s) gs"
  shows "\<exists>y m'. rewritePending ticks mx gs m (idx, s) = Some (y, m') \<and> rewrote T (set (groupKeys gs)) (idx, s) y"
  using assms
proof (induction gs arbitrary: idx s m)
  case Nil
  then show ?case by (auto intro: rewrote_refl)
next
  case (Cons g gs)
  have "groups_ok (idx_keyTypeRow idx) (batch_view s) [g]" using Cons.prems(4) by (simp add: groups_ok_def)
  from rewriteIndex_ok [OF Cons.prems(1) spec [OF Cons.prems(2)] Cons.prems(3) this]
  obtain i2 s2 c where 1: "rewriteIndex (ticks (length gs)) mx g (idx, s) = Some ((i2, s2), c)"
    "rewrote T (set (groupKeys [g])) (idx, s) (i2, s2)" by fastforce
  have 2: "batch_inv T i2 s2" "idx_keyTypeRow i2 = idx_keyTypeRow idx"
    "\<And>k v. batch_view s k = Some v \<Longrightarrow> k \<notin> set (groupKeys [g]) \<Longrightarrow> batch_view s2 k = Some v"
    using 1(2) by (auto simp: rewrote_def)
  have "groups_ok (idx_keyTypeRow idx) (batch_view s2) gs"
  proof (rule groups_ok_mono)
    show "groups_ok (idx_keyTypeRow idx) (batch_view s) gs" using Cons.prems(4) by (simp add: groups_ok_def)
    show "batch_view s2 k = Some v" if "k \<in> set (groupKeys gs)" "batch_view s k = Some v" for k v
      using that Cons.prems(4) by (intro 2(3)) (auto simp: groups_ok_def)
  qed
  then obtain y m' where "rewritePending ticks mx gs
      (m\<lparr>mg_TotalRowsBefore := mg_TotalRowsBefore m + int (length (ie_Rows g)),
         mg_TotalRowsAfter := mg_TotalRowsAfter m + c, mg_TotalKeywords := mg_TotalKeywords m + 1\<rparr>) (i2, s2) = Some (y, m')"
    "rewrote T (set (groupKeys gs)) (i2, s2) y"
    using Cons.IH [OF 2(1) Cons.prems(2,3)] unfolding 2(2) by blast
  then show ?case using rewrote_trans [OF 1(2)] 1(1) by fastforce
qed

subsection \<open>The scan\<close>

lemma scanRange_entries:
  assumes "kv_ok d"
  shows "\<exists>kvs. (\<forall>cb s. fst (kvScanRange b e cb s d) = scanRangeLoop cb s kvs) \<and>
    (\<forall>(k, v)\<in>set kvs. b \<le> k \<and> kv_map d k = Some v) \<and> sorted_wrt (<) (map fst kvs)"
proof -
  obtain q where q: "pdb_st d = Opened q" "\<forall>op. p_fault q op = None" "ordered (p_data q)"
    using assms by (auto simp: kv_ok_def split: pebble_handle.splits)
  have "map_of (p_data q) k = Some v" if "(k, v) \<in> set (iterate b (Some e) (p_data q))" for k v
    using that map_of_distinct_in_set [OF ordered_distinct [OF q(3)], of k v] by (auto simp: iterate_def)
  then show ?thesis
    using q by (intro exI [of _ "iterate b (Some e) (p_data q)"])
      (auto simp: kvScanRange_def scanRange_def kv_map_Opened iterate_def intro: ordered_filter)
qed

definition scanGroups :: "mscan \<Rightarrow> invertedIndexEntry list" where
  "scanGroups st = ms_pending st @ (case ms_current st of None \<Rightarrow> [] | Some c \<Rightarrow> [c]) @
     (case ms_next st of None \<Rightarrow> [] | Some c \<Rightarrow> [c])"

text \<open>Between rows: a scan that has not stopped has a current group and no next one; the current group is
  of the last table seen, and empty before the first row.\<close>

definition scan_ok :: "char \<Rightarrow> (bytes \<rightharpoonup> bytes) \<Rightarrow> mscan \<Rightarrow> bool" where
  "scan_ok r m st \<longleftrightarrow> groups_ok r m (scanGroups st) \<and>
     (case ms_current st of
        None \<Rightarrow> ms_next st \<noteq> None
      | Some c \<Rightarrow> ms_next st = None \<and>
          (if ms_lastTableId st = - 1 then ie_Rows c = [] else ie_TableId c = ms_lastTableId st)) \<and>
     (case ms_next st of None \<Rightarrow> True | Some c \<Rightarrow> ms_lastTableId st \<noteq> - 1 \<and> ie_TableId c = ms_lastTableId st)"

definition scanKeys :: "mscan \<Rightarrow> bytes set" where
  "scanKeys st = set (groupKeys (scanGroups st))"

lemma newGroup_ok:
  assumes "mergeNewGroup isTimeout cur nxt key st = (st', cont)" "ms_current st = Some cur" "ms_next st = None"
    "groups_ok r m (ms_pending st @ [cur])" "is_int64 (ie_TableId nxt)"
    "held r m (ie_TableId nxt) (ie_Keyword nxt) (ie_Rows nxt)" "map rr_Key (ie_Rows nxt) = [key]"
    "key \<notin> set (groupKeys (ms_pending st @ [cur]))" "ms_lastTableId st = ie_TableId nxt" "ie_TableId nxt \<noteq> - 1"
  shows "scan_ok r m st'" "scanKeys st' = insert key (scanKeys st)" "cont \<longleftrightarrow> ms_next st' = None"
    "ms_calls st \<le> ms_calls st'" "ms_nextIter st' = (if cont then ms_nextIter st else key @ [CHR 0x01])"
  using assms
  by (auto simp: mergeNewGroup_def Let_def scan_ok_def scanKeys_def scanGroups_def groups_ok_def split: if_splits)

lemma mergeScan_step:
  assumes st: "scan_ok r m st" "ms_next st = None" and r: "r = idx_keyTypeRow idx"
    and k: "m key = Some value" "isKeyType key r \<Longrightarrow> \<exists>tid kw c t n. key = rowKey r tid kw c t n \<and> is_int64 tid \<and> is_int64 c"
    and f: "key \<notin> scanKeys st" and run: "mergeScan idx mx isTimeout st key value = (st', cont)"
  shows "scan_ok r m st' \<and> scanKeys st' \<subseteq> insert key (scanKeys st) \<and> (cont \<longleftrightarrow> ms_next st' = None) \<and>
    ms_calls st \<le> ms_calls st' \<and> ms_nextIter st' = (if cont then ms_nextIter st else key @ [CHR 0x01])"
proof (cases "fst (decodeInvertedKey idx key) = InvalidTableId")
  case True
  then show ?thesis using run st by (auto simp: mergeScan_def split: prod.splits)
next
  case False
  then have "isKeyType key r" by (auto simp: decodeInvertedKey_def r split: if_splits)
  then obtain tid kw c t n where key: "key = rowKey r tid kw c t n" "is_int64 tid" "is_int64 c" using k(2) by blast
  have dec: "decodeInvertedKey idx key = (tid, kw, c, itoa t @ ''.'' @ natStr n)"
    using decode_rowKey [OF key(2,3), of idx] by (simp add: key(1) r)
  then have tid: "tid \<noteq> - 1" using False by simp
  obtain cur0 where cur0: "ms_current st = Some cur0" using st by (auto simp: scan_ok_def split: option.splits)
  let ?row = "\<lparr>rr_Key = key, rr_Value = value, rr_DocCount = c\<rparr>"
  let ?nxt = "\<lparr>ie_TableId = tid, ie_Keyword = kw, ie_Rows = [?row], ie_DocCount = c\<rparr>"
  define cur where "cur = (if ms_lastTableId st = - 1 then cur0\<lparr>ie_Keyword := kw, ie_TableId := tid\<rparr> else cur0)"
  define lastId where "lastId = (if ms_lastTableId st = - 1 then tid else ms_lastTableId st)"
  let ?st1 = "st\<lparr>ms_current := Some cur, ms_lastTableId := tid\<rparr>"
  have rows: "ie_Rows cur = ie_Rows cur0" and ct: "ie_TableId cur = lastId"
    using st(1) cur0 by (auto simp: cur_def lastId_def scan_ok_def st(2))
  have h: "held r m tid kw [?row]" using k(1) key(1) by (auto simp: held_def)
  have g: "groups_ok r m (ms_pending st @ [cur])" "scanKeys ?st1 = scanKeys st"
      "scanKeys st = set (groupKeys (ms_pending st @ [cur]))"
    using st cur0 key(2) by (auto simp: scan_ok_def scanGroups_def groups_ok_def scanKeys_def cur_def held_def)
  note new = newGroup_ok [where st = ?st1 and r = r and m = m and cur = cur and nxt = ?nxt and key = key]
  have new': ?thesis if "mergeNewGroup isTimeout cur ?nxt key ?st1 = (st', cont)"
    using new [OF that] g f h key(2) tid st(2) by (simp del: groupKeys_simps)
  have run': "(st', cont) = (if lastId \<noteq> tid then mergeNewGroup isTimeout cur ?nxt key ?st1
      else if mx div 2 < c
      then (?st1\<lparr>ms_m := (ms_m st)\<lparr>mg_TotalRowsBefore := mg_TotalRowsBefore (ms_m st) + int (length (ie_Rows cur)),
                        mg_TotalRowsAfter := mg_TotalRowsAfter (ms_m st) + int (length (ie_Rows cur))\<rparr>\<rparr>, True)
      else if ie_Keyword cur = kw
      then (?st1\<lparr>ms_current := Some (cur\<lparr>ie_Rows := ie_Rows cur @ [?row], ie_DocCount := ie_DocCount cur + c\<rparr>)\<rparr>, True)
      else mergeNewGroup isTimeout cur ?nxt key ?st1)"
    unfolding run [symmetric] mergeScan_def dec using cur0 tid
    by (simp add: cur_def lastId_def Let_def)
  consider "mergeNewGroup isTimeout cur ?nxt key ?st1 = (st', cont)"
    | "lastId = tid" "mx div 2 < c" | "lastId = tid" "\<not> mx div 2 < c" "ie_Keyword cur = kw"
    using run' by (auto split: if_splits)
  then show ?thesis
  proof cases
    case 2
    then show ?thesis using run' g ct tid st(2) by (auto simp: scan_ok_def scanGroups_def scanKeys_def)
  next
    case 3
    then show ?thesis using run' g ct tid st(2) f h
      by (auto simp: scan_ok_def scanGroups_def scanKeys_def groups_ok_def held_take)
  qed (rule new')
qed

lemma mergeScan_loop:
  assumes "scan_ok r m st" "ms_next st = None" "r = idx_keyTypeRow idx" "sorted_wrt (<) (map fst kvs)"
    "\<forall>(k, v)\<in>set kvs. m k = Some v \<and>
       (isKeyType k r \<longrightarrow> (\<exists>tid kw c t n. k = rowKey r tid kw c t n \<and> is_int64 tid \<and> is_int64 c))"
    "\<forall>x\<in>scanKeys st. \<forall>k\<in>fst ` set kvs. x < k" "st' = scanRangeLoop (mergeScan idx mx isTimeout) st kvs"
  shows "scan_ok r m st' \<and> ms_calls st \<le> ms_calls st' \<and>
    (ms_next st' \<noteq> None \<longrightarrow> (\<forall>x\<in>scanKeys st'. x < ms_nextIter st') \<and> (\<exists>k\<in>fst ` set kvs. ms_nextIter st' = k @ [CHR 0x01]))"
  using assms
proof (induction kvs arbitrary: st)
  case (Cons kv kvs)
  obtain k v where kv: "kv = (k, v)" by (cases kv)
  obtain st1 cont where run: "mergeScan idx mx isTimeout st k v = (st1, cont)" by (rule prod.exhaust)
  have less: "x < k" if "x \<in> scanKeys st" for x using Cons.prems(6) that by (simp add: kv)
  have new: "k \<notin> scanKeys st" using less by blast
  have m: "m k = Some v" and row: "isKeyType k r \<longrightarrow> (\<exists>tid kw c t n. k = rowKey r tid kw c t n \<and> is_int64 tid \<and> is_int64 c)"
    using Cons.prems(5) by (auto simp: kv)
  have step: "scan_ok r m st1" "scanKeys st1 \<subseteq> insert k (scanKeys st)" "cont \<longleftrightarrow> ms_next st1 = None"
    "ms_calls st \<le> ms_calls st1" "ms_nextIter st1 = (if cont then ms_nextIter st else k @ [CHR 0x01])"
    using mergeScan_step [OF Cons.prems(1-3) m _ new run] row by blast+
  have kk: "k < k @ [CHR 0x01]" by (simp add: list_less_def lexord_append_rightI)
  show ?case
  proof (cases cont)
    case True
    have "\<forall>x\<in>scanKeys st1. \<forall>k\<in>fst ` set kvs. x < k"
      using step(2) Cons.prems(4,6) by (fastforce simp: kv)
    moreover have "st' = scanRangeLoop (mergeScan idx mx isTimeout) st1 kvs" using Cons.prems(7) run True by (simp add: kv)
    ultimately show ?thesis
      using Cons.IH [OF step(1) _ Cons.prems(3)] Cons.prems(4,5) step(3,4) True by (auto simp: kv)
  next
    case False
    then have "st' = st1" using Cons.prems(7) run by (simp add: kv)
    moreover have "x < k @ [CHR 0x01]" if "x \<in> scanKeys st1" for x
      using step(2) that less kk by (metis insertE less_trans subsetD)
    ultimately show ?thesis using step False by (auto simp: kv)
  qed
qed simp

text \<open>What the loop over scans keeps.\<close>

definition merge_inv :: "int set \<Rightarrow> mscan \<Rightarrow> bstate \<Rightarrow> bool" where
  "merge_inv T st x \<longleftrightarrow> (case x of (idx, s) \<Rightarrow>
     batch_inv T idx s \<and> scan_ok (idx_keyTypeRow idx) (batch_view s) st \<and> ms_next st = None \<and> ms_pending st = [] \<and>
     (\<forall>k\<in>scanKeys st. k < ms_nextIter st) \<and> kept {k. k < ms_nextIter st} s)"

lemma merge_scan:
  assumes inv: "merge_inv T st (idx, (db, b))"
    and st': "st' = fst (kvScanRange (ms_nextIter st) e (mergeScan idx mx isTimeout) st db)"
  shows "scan_ok (idx_keyTypeRow idx) (batch_view (db, b)) st'" "ms_calls st \<le> ms_calls st'"
    "ms_next st' \<noteq> None \<Longrightarrow> (\<forall>x\<in>scanKeys st'. x < ms_nextIter st') \<and> ms_nextIter st \<le> ms_nextIter st'"
proof -
  let ?r = "idx_keyTypeRow idx" and ?m = "batch_view (db, b)"
  have i: "kv_ok db" "batch_safe (rows_wf ?r) (db, b)" "scan_ok ?r ?m st" "ms_next st = None"
    "\<forall>k\<in>scanKeys st. k < ms_nextIter st" "kept {k. k < ms_nextIter st} (db, b)"
    using inv by (simp_all add: merge_inv_def batch_inv_def)
  obtain kvs where
    kvs: "\<And>cb (s::mscan). fst (kvScanRange (ms_nextIter st) e cb s db) = scanRangeLoop cb s kvs"
      "\<forall>(k, v)\<in>set kvs. ms_nextIter st \<le> k \<and> kv_map db k = Some v" "sorted_wrt (<) (map fst kvs)"
    using scanRange_entries [OF i(1)] by blast
  have wf: "rows_wf ?r (kv_map db)" using batch_safe_durable [OF i(2)] by simp
  have "?m k = Some v \<and> (isKeyType k ?r \<longrightarrow> (\<exists>tid kw c t n. k = rowKey ?r tid kw c t n \<and> is_int64 tid \<and> is_int64 c))"
    if kv: "(k, v) \<in> set kvs" for k v
  proof -
    have "ms_nextIter st \<le> k" "kv_map db k = Some v" using kvs(2) kv by auto
    then show ?thesis using i(6) wf by (auto simp: kept_def rows_wf_def)
  qed
  moreover have "\<forall>x\<in>scanKeys st. \<forall>k\<in>fst ` set kvs. x < k" using i(5) kvs(2) by (fastforce intro: less_le_trans)
  ultimately have l: "scan_ok ?r ?m st' \<and> ms_calls st \<le> ms_calls st' \<and>
    (ms_next st' \<noteq> None \<longrightarrow> (\<forall>x\<in>scanKeys st'. x < ms_nextIter st') \<and> (\<exists>k\<in>fst ` set kvs. ms_nextIter st' = k @ [CHR 0x01]))"
    using kvs(3) by (intro mergeScan_loop [OF i(3,4) refl, where mx = mx and isTimeout = isTimeout and kvs = kvs])
      (auto simp: st' kvs(1))
  then show "scan_ok ?r ?m st'" "ms_calls st \<le> ms_calls st'" by simp_all
  assume "ms_next st' \<noteq> None"
  with l obtain k where k: "k \<in> fst ` set kvs" "ms_nextIter st' = k @ [CHR 0x01]" by blast
  have "k \<le> k @ [CHR 0x01]" by (simp add: list_le_def list_less_def lexord_append_rightI)
  moreover have "ms_nextIter st \<le> k" using kvs(2) k(1) by auto
  ultimately show "(\<forall>x\<in>scanKeys st'. x < ms_nextIter st') \<and> ms_nextIter st \<le> ms_nextIter st'"
    using l \<open>ms_next st' \<noteq> None\<close> k(2) by auto
qed

lemma merge_round:
  assumes inv: "merge_inv T st (idx, s)" and st': "scan_ok (idx_keyTypeRow idx) (batch_view s) st'"
    "ms_next st' = Some nxt" "\<forall>x\<in>scanKeys st'. x < ms_nextIter st'" "ms_nextIter st \<le> ms_nextIter st'"
    and rw: "rewrote T (set (groupKeys (ms_pending st'))) (idx, s) (idx', s')"
  shows "merge_inv T (st'\<lparr>ms_pending := [], ms_m := m, ms_current := Some nxt, ms_next := None, ms_calls := c\<rparr>) (idx', s')"
proof -
  let ?r = "idx_keyTypeRow idx" and ?K = "set (groupKeys (ms_pending st'))"
  have cur: "ms_current st' = None" using st'(1,2) by (auto simp: scan_ok_def split: option.splits)
  then have g: "groups_ok ?r (batch_view s) (ms_pending st' @ [nxt])" and keys: "scanKeys st' = ?K \<union> set (groupKeys [nxt])"
    using st'(1,2) by (auto simp: scan_ok_def scanGroups_def scanKeys_def)
  have w: "batch_inv T idx' s'" "idx_keyTypeRow idx' = ?r"
    "\<And>k v. batch_view s k = Some v \<Longrightarrow> k \<notin> ?K \<Longrightarrow> batch_view s' k = Some v"
    "\<And>X. kept X s \<Longrightarrow> ?K \<subseteq> X \<Longrightarrow> kept X s'" using rw by (auto simp: rewrote_def)
  have "groups_ok ?r (batch_view s') [nxt]"
  proof (rule groups_ok_mono)
    show "groups_ok ?r (batch_view s) [nxt]" using g by (simp add: groups_ok_def)
    show "batch_view s' k = Some v" if "k \<in> set (groupKeys [nxt])" "batch_view s k = Some v" for k v
      using that g by (intro w(3)) (auto simp: groups_ok_def)
  qed
  moreover have "kept {k. k < ms_nextIter st'} s'"
  proof (rule w(4))
    have "kept {k. k < ms_nextIter st} s" using inv by (simp add: merge_inv_def)
    then show "kept {k. k < ms_nextIter st'} s" by (rule kept_mono) (use st'(4) in auto)
    show "?K \<subseteq> {k. k < ms_nextIter st'}" using st'(3) keys by auto
  qed
  ultimately show ?thesis
    using w(1,2) st'(1,2,3) keys by (auto simp: merge_inv_def scan_ok_def scanGroups_def scanKeys_def)
qed

lemma mergeLoop_ok:
  assumes "merge_inv T st (idx, s)" "\<forall>i j. ticks i j \<in> T" "0 < mx" "\<forall>n\<ge>N. isTimeout n" "N < ms_calls st + fuel" "0 < fuel"
  shows "\<exists>y m'. mergeLoop fuel mx ticks isTimeout st (idx, s) = Some (y, m') \<and> rewrote T UNIV (idx, s) y"
  using assms
proof (induction fuel arbitrary: idx s st)
  case (Suc fuel)
  obtain db b where s: "s = (db, b)" by (cases s)
  define st1 where "st1 = fst (kvScanRange (ms_nextIter st) [idx_keyTypeRow idx, xFF] (mergeScan idx mx isTimeout) st db)"
  note S = merge_scan [OF Suc.prems(1) [unfolded s] st1_def, folded s]
  define gs where "gs = ms_pending st1 @ (case ms_current st1 of None \<Rightarrow> [] | Some c \<Rightarrow> if ie_Rows c \<noteq> [] then [c] else [])"
  have "groups_ok (idx_keyTypeRow idx) (batch_view s) gs"
    using S(1) by (auto simp: scan_ok_def scanGroups_def gs_def groups_ok_def split: option.splits)
  moreover have inv: "batch_inv T idx s" "\<forall>n. ticks fuel n \<in> T" using Suc.prems(1,2) by (simp_all add: merge_inv_def)
  ultimately obtain i2 s2 m' where rw: "rewritePending (ticks fuel) mx gs (ms_m st1) (idx, s) = Some ((i2, s2), m')"
    "rewrote T (set (groupKeys gs)) (idx, s) (i2, s2)"
    using rewritePending_ok [OF inv Suc.prems(3), of gs "ms_m st1"] by fastforce
  have rwU: "rewrote T UNIV (idx, s) (i2, s2)" using rewrote_mono [OF rw(2)] by simp
  show ?case
  proof (cases "ms_next st1")
    case None
    then show ?thesis using rw(1) rwU by (auto simp: s st1_def gs_def)
  next
    case (Some nxt)
    show ?thesis
    proof (cases "isTimeout (ms_calls st1)")
      case True
      then show ?thesis using rw(1) rwU Some by (auto simp: s st1_def gs_def)
    next
      case False
      have gs: "gs = ms_pending st1" using S(1) Some by (auto simp: scan_ok_def gs_def split: option.splits)
      let ?st = "st1\<lparr>ms_pending := [], ms_m := m', ms_current := Some nxt, ms_next := None, ms_calls := ms_calls st1 + 1\<rparr>"
      have "ms_calls st1 < N" using False Suc.prems(4) by (meson not_less)
      then have "N < ms_calls ?st + fuel" "0 < fuel" using S(2) Suc.prems(5) by auto
      moreover have "merge_inv T ?st (i2, s2)"
        using merge_round [OF Suc.prems(1) S(1) Some] S(3) Some rw(2) gs by auto
      ultimately obtain y m'' where "mergeLoop fuel mx ticks isTimeout ?st (i2, s2) = Some (y, m'')"
        "rewrote T UNIV (i2, s2) y" using Suc.IH Suc.prems(2-4) by blast
      then show ?thesis using rewrote_trans [OF rwU] rw(1) Some False by (auto simp: s st1_def gs_def)
    qed
  qed
qed simp

lemma mergeKeywordsIndex_ok:
  assumes "kv_ok db" "rows_inv T idx (kv_map db)" "\<forall>i j. ticks i j \<in> T" "0 < mx" "\<forall>n\<ge>N. isTimeout n" "N < fuel"
  shows "\<exists>idx' db' m' q. mergeKeywordsIndex fuel ticks isTimeout m mx (idx, db) = Some ((idx', db'), m') \<and>
    kv_ok db' \<and> rows_inv T idx' (kv_map db') \<and> idx' = idx\<lparr>idx_keySeq := q\<rparr> \<and>
    (\<forall>t k. posts (idx_keyTypeRow idx) (kv_map db') t k = posts (idx_keyTypeRow idx) (kv_map db) t k) \<and>
    (\<forall>k. \<not> isKeyType k (idx_keyTypeRow idx) \<longrightarrow> kv_map db' k = kv_map db k)"
proof -
  let ?b = "\<lparr>pb_ops = [], pb_maxBatchSize = 512, pb_count = 0\<rparr>"
  let ?st = "\<lparr>ms_lastTableId = - 1, ms_current = Some emptyEntry, ms_nextIter = mg_NextIter m, ms_pending = [],
      ms_next = None, ms_m = m, ms_calls = 0\<rparr>"
  have "batch_inv T idx (db, ?b)"
    using assms(1,2) by (simp add: batch_inv_def batch_safe_def rows_inv_def batch_view_def)
  then have "merge_inv T ?st (idx, (db, ?b))"
    by (simp add: merge_inv_def scan_ok_def scanGroups_def scanKeys_def groups_ok_def emptyEntry_def held_def
        kept_def batch_view_def is_int64_def)
  from mergeLoop_ok [OF this assms(3-5), of fuel] assms(6) obtain i2 s2 m'
    where r: "mergeLoop fuel mx ticks isTimeout ?st (idx, (db, ?b)) = Some ((i2, s2), m')"
      "rewrote T UNIV (idx, (db, ?b)) (i2, s2)" by fastforce
  obtain db2 b2 where s2: "s2 = (db2, b2)" by (cases s2)
  have ok: "kv_ok db2" "rows_inv T i2 (batch_view s2)" using r(2) by (auto simp: rewrote_def batch_inv_def s2)
  have c: "kv_ok (fst (fst (batchCommit s2)))" "kv_map (fst (fst (batchCommit s2))) = batch_view s2"
    using batchCommit_ok [OF ok(1), of b2] by (simp_all add: s2)
  have n: "newIndexBatch db = Some ?b" using assms(1) by (simp add: newIndexBatch_def NewBatch_ok)
  show ?thesis using r ok(2) c
    by (auto simp: mergeKeywordsIndex_def n rewrote_def batch_view_def [of "(db, ?b)"])
qed

lemma mergeKeywordTask_ok:
  assumes "kv_ok db" "rows_inv T idx (kv_map db)" "\<forall>i j. ticks i j \<in> T" "\<forall>n\<ge>N. isTimeout n" "N < fuel"
  shows "\<exists>idx' db' m'. mergeKeywordTask fuel ticks isTimeout m (idx, db) = Some ((idx', db'), m') \<and>
    kv_ok db' \<and> rows_inv T idx' (kv_map db') \<and> (\<exists>q. idx' = idx\<lparr>idx_keySeq := q\<rparr>) \<and>
    (\<forall>t k. posts (idx_keyTypeRow idx) (kv_map db') t k = posts (idx_keyTypeRow idx) (kv_map db) t k) \<and>
    (\<forall>k. \<not> isKeyType k (idx_keyTypeRow idx) \<longrightarrow> kv_map db' k = kv_map db k)"
proof (cases "idx_pendingWrites idx = []")
  case True
  have "0 < maxInvertedIndexSize (idx_opts idx)" by (simp add: maxInvertedIndexSize_def MaxInvertedIndexSize_def)
  from mergeKeywordsIndex_ok [OF assms(1-3) this assms(4,5), of "m\<lparr>mg_WaitingForFlushCache := False\<rparr>"]
  show ?thesis using True by (auto simp: mergeKeywordTask_def)
next
  case False
  then show ?thesis using assms(1,2) by (auto simp: mergeKeywordTask_def intro: exI [of _ "idx_keySeq idx"])
qed

text \<open>
  (C7) The background merge never changes what the index answers. Whatever cursor it resumes from and
  whenever its time slice ends (\<open>N\<close> bounds the number of \<open>isTimeout\<close> calls that answer no), the task
  returns, and afterwards every keyword of every table has the same set of documents, every key that is
  not a posting row is untouched, and the rows are still well formed with fresh sequence numbers ahead.
\<close>

theorem merge_preserves_postings:
  assumes "kv_ok db" "rows_inv T idx (kv_map db)" "\<forall>i j. ticks i j \<in> T" "\<forall>n\<ge>N. isTimeout n" "N < fuel"
  shows "\<exists>idx' db' m'. mergeKeywordTask fuel ticks isTimeout m (idx, db) = Some ((idx', db'), m') \<and>
    kv_ok db' \<and> rows_inv T idx' (kv_map db') \<and> (\<exists>q. idx' = idx\<lparr>idx_keySeq := q\<rparr>) \<and>
    (\<forall>t k. posts (idx_keyTypeRow idx) (kv_map db') t k = posts (idx_keyTypeRow idx) (kv_map db) t k) \<and>
    (\<forall>k. \<not> isKeyType k (idx_keyTypeRow idx) \<longrightarrow> kv_map db' k = kv_map db k)"
  using assms by (rule mergeKeywordTask_ok)

text \<open>Two rows of one keyword, waiting to be merged.\<close>

definition twoRowsDB :: PebbleDB where
  "twoRowsDB =
     fst (kvPut (rowKey (idx_keyTypeRow exampleIndex) 1 ''go'' 1 7 2) (encodeInvertedValue [5])
       (fst (kvPut (rowKey (idx_keyTypeRow exampleIndex) 1 ''go'' 1 7 1) (encodeInvertedValue [3]) freshDB)))"

lemma twoRowsDB_ok: "kv_ok twoRowsDB" "rows_inv {7} (exampleIndex\<lparr>idx_keySeq := 2\<rparr>) (kv_map twoRowsDB)"
proof -
  let ?r = "idx_keyTypeRow exampleIndex"
  show "kv_ok twoRowsDB" by (simp add: twoRowsDB_def kvPut_ok)
  have m: "kv_map twoRowsDB = (Map.empty(rowKey ?r 1 ''go'' 1 7 1 \<mapsto> encodeInvertedValue [3]))
      (rowKey ?r 1 ''go'' 1 7 2 \<mapsto> encodeInvertedValue [5])" by (simp add: twoRowsDB_def kvPut_ok)
  have "seq_fresh ?r {7} 0 Map.empty" by (simp add: seq_fresh_def)
  from seq_fresh_put [OF seq_fresh_put [OF this, of 1], of 2] have "seq_fresh ?r {7} 2 (kv_map twoRowsDB)"
    unfolding m by simp
  moreover have "rows_wf ?r (kv_map twoRowsDB)"
    unfolding m by (intro rows_wf_put) (simp_all add: rows_wf_def is_int64_def)
  ultimately show "rows_inv {7} (exampleIndex\<lparr>idx_keySeq := 2\<rparr>) (kv_map twoRowsDB)" by (simp add: rows_inv_def)
qed

theorem merge_preserves_postings_witness:
  "\<exists>idx' db' m'. mergeKeywordTask 1 (\<lambda>_ _. 7) (\<lambda>_. True) (newMerging exampleIndex)
        (exampleIndex\<lparr>idx_keySeq := 2\<rparr>, twoRowsDB) = Some ((idx', db'), m') \<and>
    kv_ok db' \<and> rows_inv {7} idx' (kv_map db') \<and> (\<exists>q. idx' = exampleIndex\<lparr>idx_keySeq := 2, idx_keySeq := q\<rparr>) \<and>
    (\<forall>t k. posts (idx_keyTypeRow (exampleIndex\<lparr>idx_keySeq := 2\<rparr>)) (kv_map db') t k =
           posts (idx_keyTypeRow (exampleIndex\<lparr>idx_keySeq := 2\<rparr>)) (kv_map twoRowsDB) t k) \<and>
    (\<forall>k. \<not> isKeyType k (idx_keyTypeRow (exampleIndex\<lparr>idx_keySeq := 2\<rparr>)) \<longrightarrow> kv_map db' k = kv_map twoRowsDB k)"
  by (rule merge_preserves_postings [where N = 0, OF twoRowsDB_ok]) simp_all

end
