(* ===== verification/InvSync.thy ===== *)
theory InvSync
  imports InvMerger
begin

text \<open>
  Package \<open>invertedindex\<close> as a whole: what the index answers is what the forward map records. The
  operations are the steps of a relation; the invariant relates posting rows, both caches and the
  forward map, and a closing flush turns it into a statement about \<open>GetDocs\<close> and \<open>Search\<close>.
\<close>

subsection \<open>The postings in force\<close>

definition eff :: "Index \<Rightarrow> (bytes \<rightharpoonup> bytes) \<Rightarrow> int \<Rightarrow> bytes \<Rightarrow> docid set" where
  "eff idx m t k = (posts (idx_keyTypeRow idx) m t k \<union> pend (idx_pendingWrites idx) t k) - pend (idx_pendingDeletes idx) t k"

definition fwd :: "Index \<Rightarrow> (bytes \<rightharpoonup> bytes) \<Rightarrow> int \<Rightarrow> docid \<Rightarrow> bytes list option" where
  "fwd idx m t d = map_option decodeForwardValue (m (encodeForwardKey idx t d))"

text \<open>Well-formed caches; no posting is waiting both to be written and to be deleted. The four key types
  differ, as the defaults do.\<close>

definition caches_ok :: "int set \<Rightarrow> Index \<Rightarrow> (bytes \<rightharpoonup> bytes) \<Rightarrow> bool" where
  "caches_ok T idx m \<longleftrightarrow>
     rows_inv T idx m \<and> pending_wf (idx_pendingWrites idx) \<and> pending_wf (idx_pendingDeletes idx) \<and>
     (\<forall>t k. pend (idx_pendingWrites idx) t k \<inter> pend (idx_pendingDeletes idx) t k = {}) \<and>
     distinct [idx_keyTypeRow idx, idx_keyTypeForward idx, idx_keyTypeTable idx, idx_keyTypeNextId idx]"

text \<open>A step of the background work: rows and caches change, the postings in force do not.\<close>

definition settles :: "int set \<Rightarrow> Index \<times> (bytes \<rightharpoonup> bytes) \<Rightarrow> Index \<times> (bytes \<rightharpoonup> bytes) \<Rightarrow> bool" where
  "settles T x y \<longleftrightarrow>
     (case x of (i, m) \<Rightarrow> case y of (j, m') \<Rightarrow>
        caches_ok T j m' \<and> idx_same i j \<and> (\<forall>k. \<not> isKeyType k (idx_keyTypeRow i) \<longrightarrow> m' k = m k) \<and>
        (\<forall>t k. eff j m' t k = eff i m t k) \<and>
        (\<forall>t k. pend (idx_pendingWrites j) t k \<subseteq> pend (idx_pendingWrites i) t k) \<and>
        (\<forall>t k. pend (idx_pendingDeletes j) t k \<subseteq> pend (idx_pendingDeletes i) t k))"

lemma settles_refl: "caches_ok T (fst x) (snd x) \<Longrightarrow> settles T x x"
  by (cases x) (simp add: settles_def)

lemma idx_same_row:
  "idx_same i j \<Longrightarrow> idx_keyTypeRow j = idx_keyTypeRow i \<and> idx_keyTypeForward j = idx_keyTypeForward i \<and>
     idx_keyTypeTable j = idx_keyTypeTable i \<and> idx_keyTypeNextId j = idx_keyTypeNextId i"
  by (simp add: idx_same_def)

lemma settles_trans:
  assumes "settles T x y" "settles T y z"
  shows "settles T x z"
proof -
  obtain i m j m' k m'' where [simp]: "x = (i, m)" "y = (j, m')" "z = (k, m'')" by (cases x; cases y; cases z)
  have "idx_keyTypeRow j = idx_keyTypeRow i" using assms(1) by (auto simp: settles_def dest: idx_same_row)
  note a = assms(1) [unfolded settles_def \<open>x = _\<close> \<open>y = _\<close> prod.case]
  note b = assms(2) [unfolded settles_def \<open>y = _\<close> \<open>z = _\<close> prod.case \<open>idx_keyTypeRow j = _\<close>]
  have "idx_same i k" using idx_same_trans [of i j k] a b by simp
  then show ?thesis using a b unfolding settles_def by (simp, blast)
qed

lemma moved_settles:
  assumes ok: "caches_ok T i m" and mv: "moved T (i, m) (j, m')"
  shows "settles T (i, m) (j, m')"
proof -
  have v: "rows_inv T j m'" "pending_wf (idx_pendingWrites j)" "idx_same i j" "idx_pendingDeletes j = idx_pendingDeletes i"
    "\<And>k. \<not> isKeyType k (idx_keyTypeRow i) \<Longrightarrow> m' k = m k"
    "\<And>t k. posts (idx_keyTypeRow i) m' t k \<union> pend (idx_pendingWrites j) t k =
       posts (idx_keyTypeRow i) m t k \<union> pend (idx_pendingWrites i) t k"
    "\<And>t k. docsOf (idx_pendingWrites j) t k = docsOf (idx_pendingWrites i) t k \<or> docsOf (idx_pendingWrites j) t k = []"
    using mv by (simp_all add: moved_def)
  note r = idx_same_row [OF v(3)]
  have w: "pend (idx_pendingWrites j) t k \<subseteq> pend (idx_pendingWrites i) t k" for t k using v(7) [of t k] by auto
  have c: "pend (idx_pendingWrites i) t k \<inter> pend (idx_pendingDeletes i) t k = {}" for t k
    using ok by (simp add: caches_ok_def)
  have "pend (idx_pendingWrites j) t k \<inter> pend (idx_pendingDeletes i) t k = {}" for t k
    using w [of t k] c [of t k] by blast
  then have "caches_ok T j m'" using ok v(1,2,4) r by (simp add: caches_ok_def)
  moreover have "eff j m' t k = eff i m t k" for t k using v(6) [of t k] r by (simp add: eff_def v(4))
  ultimately show ?thesis using v(3,4,5) w by (simp add: settles_def)
qed

lemma purged_settles:
  assumes ok: "caches_ok T i m" and pg: "purged T (i, m) (j, m')"
  shows "settles T (i, m) (j, m')"
proof -
  let ?r = "idx_keyTypeRow i"
  have v: "rows_inv T j m'" "pending_wf (idx_pendingDeletes j)" "idx_same i j" "idx_pendingWrites j = idx_pendingWrites i"
    "\<And>k. \<not> isKeyType k ?r \<Longrightarrow> m' k = m k"
    "\<And>t k. posts ?r m' t k = posts ?r m t k \<and> docsOf (idx_pendingDeletes j) t k = docsOf (idx_pendingDeletes i) t k \<or>
       posts ?r m' t k = posts ?r m t k - pend (idx_pendingDeletes i) t k \<and> docsOf (idx_pendingDeletes j) t k = []"
    using pg by (simp_all add: purged_def)
  note r = idx_same_row [OF v(3)]
  have d: "pend (idx_pendingDeletes j) t k \<subseteq> pend (idx_pendingDeletes i) t k" for t k using v(6) [of t k] by auto
  have c: "pend (idx_pendingWrites i) t k \<inter> pend (idx_pendingDeletes i) t k = {}" for t k
    using ok by (simp add: caches_ok_def)
  have "pend (idx_pendingWrites i) t k \<inter> pend (idx_pendingDeletes j) t k = {}" for t k
    using d [of t k] c [of t k] by blast
  then have "caches_ok T j m'" using ok v(1,2,4) r by (simp add: caches_ok_def)
  moreover have "eff j m' t k = eff i m t k" for t k
    using v(6) [of t k] c [of t k] r by (auto simp: eff_def v(4))
  ultimately show ?thesis using v(3,4,5) d by (simp add: settles_def)
qed

subsection \<open>Flushes\<close>

lemma flushWrites_settles:
  assumes "caches_ok T idx (kv_map db)" "kv_ok db" "env_ok T e"
  shows "\<exists>idx' db'. flushPendingWrites e closing force (idx, db) = Some (idx', db') \<and> kv_ok db' \<and>
    settles T (idx, kv_map db) (idx', kv_map db') \<and>
    (closing \<or> force \<longrightarrow> (\<forall>t k. docsOf (idx_pendingWrites idx') t k = []))"
  using flushPendingWrites_ok [of idx db T e closing force] moved_settles [OF assms(1)] assms
  by (fastforce simp: caches_ok_def env_ok_def)

lemma flushDeletes_settles:
  assumes "caches_ok T idx (kv_map db)" "kv_ok db" "env_ok T e" "0 < mx"
  shows "\<exists>idx' db'. flushPendingDeletes e closing force mx (idx, db) = Some (idx', db') \<and> kv_ok db' \<and>
    settles T (idx, kv_map db) (idx', kv_map db') \<and>
    (closing \<or> force \<longrightarrow> (\<forall>t k. docsOf (idx_pendingDeletes idx') t k = []))"
  using flushPendingDeletes_ok [of idx db T e mx closing force] purged_settles [OF assms(1)] assms
  by (fastforce simp: caches_ok_def)

lemma maxInvertedIndexSize_pos: "0 < maxInvertedIndexSize o'"
  by (simp add: maxInvertedIndexSize_def MaxInvertedIndexSize_def)

lemma settles_ok: "settles T x (j, m') \<Longrightarrow> caches_ok T j m'"
  by (cases x) (simp add: settles_def)

lemma flushTask_settles:
  assumes "caches_ok T idx (kv_map db)" "kv_ok db" "env_ok T e"
  shows "\<exists>idx' db'. flushPendingWritesTask e closing (idx, db) = Some (idx', db') \<and> kv_ok db' \<and>
    settles T (idx, kv_map db) (idx', kv_map db') \<and>
    (closing \<longrightarrow> (\<forall>t k. docsOf (idx_pendingWrites idx') t k = [] \<and> docsOf (idx_pendingDeletes idx') t k = []))"
proof -
  obtain i1 d1 where 1: "flushPendingWrites e closing closing (idx, db) = Some (i1, d1)" "kv_ok d1"
    "settles T (idx, kv_map db) (i1, kv_map d1)" "closing \<longrightarrow> (\<forall>t k. docsOf (idx_pendingWrites i1) t k = [])"
    using flushWrites_settles [OF assms, of closing closing] by auto
  obtain i2 d2 where 2: "flushPendingDeletes e closing closing (maxInvertedIndexSize (idx_opts i1)) (i1, d1) = Some (i2, d2)"
    "kv_ok d2" "settles T (i1, kv_map d1) (i2, kv_map d2)" "closing \<longrightarrow> (\<forall>t k. docsOf (idx_pendingDeletes i2) t k = [])"
    using flushDeletes_settles [OF settles_ok [OF 1(3)] 1(2) assms(3) maxInvertedIndexSize_pos, of closing closing "idx_opts i1"]
    by auto
  have "docsOf (idx_pendingWrites i2) t k = []" if "closing" for t k
  proof -
    have "pend (idx_pendingWrites i2) t k \<subseteq> pend (idx_pendingWrites i1) t k" using 2(3) by (simp add: settles_def)
    then show ?thesis using 1(4) that by simp
  qed
  then show ?thesis using 1(1) 2 settles_trans [OF 1(3) 2(3)] by (auto simp: flushPendingWritesTask_def)
qed

lemma pressure_settles:
  assumes "caches_ok T idx (kv_map db)" "kv_ok db" "env_ok T e"
  shows "\<exists>idx' db'. maybeFlushOnPressure e (idx, db) = Some (idx', db') \<and> kv_ok db' \<and>
    settles T (idx, kv_map db) (idx', kv_map db')"
proof -
  let ?mx = "maxPendingPostings (idx_opts idx)"
  obtain i1 d1 where 1: "(if ?mx \<le> idx_pendingWritePostings idx then flushPendingWrites e False True (idx, db) else Some (idx, db)) =
      Some (i1, d1)" "kv_ok d1" "settles T (idx, kv_map db) (i1, kv_map d1)"
  proof (cases "?mx \<le> idx_pendingWritePostings idx")
    case True
    then show ?thesis using that flushWrites_settles [OF assms, of False True] by auto
  next
    case False
    then show ?thesis using that assms settles_refl [of T "(idx, kv_map db)"] by simp
  qed
  obtain i2 d2 where 2: "(if ?mx \<le> idx_pendingDeletePostings i1
        then flushPendingDeletes e False True (maxInvertedIndexSize (idx_opts i1)) (i1, d1) else Some (i1, d1)) =
      Some (i2, d2)" "kv_ok d2" "settles T (i1, kv_map d1) (i2, kv_map d2)"
  proof (cases "?mx \<le> idx_pendingDeletePostings i1")
    case True
    then show ?thesis
      using that flushDeletes_settles [OF settles_ok [OF 1(3)] 1(2) assms(3) maxInvertedIndexSize_pos, of False True "idx_opts i1"]
      by auto
  next
    case False
    then show ?thesis using that 1(2) settles_ok [OF 1(3)] settles_refl [of T "(i1, kv_map d1)"] by simp
  qed
  show ?thesis
  proof (cases "?mx \<le> 0")
    case True
    then show ?thesis using assms settles_refl [of T "(idx, kv_map db)"] by (simp add: maybeFlushOnPressure_def Let_def)
  next
    case False
    then have "maybeFlushOnPressure e (idx, db) = Some (i2, d2)"
      by (simp add: maybeFlushOnPressure_def Let_def 1(1) 2(1) cong: if_cong split del: if_split)
    then show ?thesis using 2(2) settles_trans [OF 1(3) 2(3)] by simp
  qed
qed

lemma merge_settles:
  assumes "caches_ok T idx (kv_map db)" "kv_ok db" "\<forall>i j. ticks i j \<in> T" "\<forall>n\<ge>N. isTimeout n" "N < fuel"
  shows "\<exists>idx' db' m'. mergeKeywordTask fuel ticks isTimeout m (idx, db) = Some ((idx', db'), m') \<and> kv_ok db' \<and>
    settles T (idx, kv_map db) (idx', kv_map db')"
proof -
  have "rows_inv T idx (kv_map db)" using assms(1) by (simp add: caches_ok_def)
  from mergeKeywordTask_ok [OF assms(2) this assms(3-5), of m] obtain q db' m' where
    r: "mergeKeywordTask fuel ticks isTimeout m (idx, db) = Some ((idx\<lparr>idx_keySeq := q\<rparr>, db'), m')"
      "kv_ok db'" "rows_inv T (idx\<lparr>idx_keySeq := q\<rparr>) (kv_map db')"
      "\<And>t k. posts (idx_keyTypeRow idx) (kv_map db') t k = posts (idx_keyTypeRow idx) (kv_map db) t k"
      "\<And>k. \<not> isKeyType k (idx_keyTypeRow idx) \<Longrightarrow> kv_map db' k = kv_map db k" by blast
  then have "settles T (idx, kv_map db) (idx\<lparr>idx_keySeq := q\<rparr>, kv_map db')"
    using assms(1) by (simp add: settles_def caches_ok_def eff_def idx_same_def)
  then show ?thesis using r(1,2) by blast
qed

subsection \<open>Document updates\<close>

text \<open>One document gains or loses keywords of a table; forward entries and tables are untouched.\<close>

lemma updateIndex_ok:
  assumes ok: "caches_ok T idx (kv_map db)" "kv_ok db" and e: "env_ok T e" and d: "is_int64 t" "0 < sint d"
    and kws: "\<forall>k\<in>set kws. k \<noteq> [] \<and> d \<notin> pend (idx_pendingDeletes idx) t k"
  shows "\<exists>idx' db'. updateIndex e t d kws (idx, db) = Some (idx', db') \<and> kv_ok db' \<and> caches_ok T idx' (kv_map db') \<and>
    idx_same idx idx' \<and> (\<forall>k. \<not> isKeyType k (idx_keyTypeRow idx) \<longrightarrow> kv_map db' k = kv_map db k) \<and>
    (\<forall>t' k. eff idx' (kv_map db') t' k = eff idx (kv_map db) t' k \<union> (if t' = t \<and> k \<in> set kws then {d} else {}))"
proof -
  let ?i = "idx\<lparr>idx_pendingWrites := bufferDocs (en_now e) t d kws (idx_pendingWrites idx),
               idx_pendingWritePostings := idx_pendingWritePostings idx + int (length kws)\<rparr>"
  have "pending_wf (bufferDocs (en_now e) t d kws (idx_pendingWrites idx))"
    using ok(1) kws d by (intro bufferDocs_wf) (auto simp: caches_ok_def)
  moreover have "pend (idx_pendingWrites ?i) t' k \<inter> pend (idx_pendingDeletes idx) t' k = {}" for t' k
    using ok(1) kws by (auto simp: caches_ok_def bufferDocs_pend)
  ultimately have c: "caches_ok T ?i (kv_map db)" using ok(1) by (simp add: caches_ok_def rows_inv_def)
  have "eff ?i (kv_map db) t' k = eff idx (kv_map db) t' k \<union> (if t' = t \<and> k \<in> set kws then {d} else {})" for t' k
    using kws by (auto simp: eff_def bufferDocs_pend)
  moreover have "idx_same idx ?i" by (simp add: idx_same_def)
  ultimately show ?thesis
    using pressure_settles [OF c ok(2) e] by (fastforce simp: updateIndex_def settles_def intro: idx_same_trans)
qed

lemma removeIndex_ok:
  assumes ok: "caches_ok T idx (kv_map db)" "kv_ok db" and e: "env_ok T e" and d: "is_int64 t" "0 < sint d"
    and kws: "\<forall>k\<in>set kws. k \<noteq> [] \<and> d \<notin> pend (idx_pendingWrites idx) t k"
  shows "\<exists>idx' db'. removeIndex e t d kws (idx, db) = Some (idx', db') \<and> kv_ok db' \<and> caches_ok T idx' (kv_map db') \<and>
    idx_same idx idx' \<and> (\<forall>k. \<not> isKeyType k (idx_keyTypeRow idx) \<longrightarrow> kv_map db' k = kv_map db k) \<and>
    (\<forall>t' k. eff idx' (kv_map db') t' k = eff idx (kv_map db) t' k - (if t' = t \<and> k \<in> set kws then {d} else {})) \<and>
    (\<forall>t' k. pend (idx_pendingDeletes idx') t' k \<subseteq>
       pend (idx_pendingDeletes idx) t' k \<union> (if t' = t \<and> k \<in> set kws then {d} else {}))"
proof -
  let ?i = "idx\<lparr>idx_pendingDeletes := bufferDocs (en_now e) t d kws (idx_pendingDeletes idx),
               idx_pendingDeletePostings := idx_pendingDeletePostings idx + int (length kws)\<rparr>"
  have "pending_wf (bufferDocs (en_now e) t d kws (idx_pendingDeletes idx))"
    using ok(1) kws d by (intro bufferDocs_wf) (auto simp: caches_ok_def)
  moreover have "pend (idx_pendingWrites idx) t' k \<inter> pend (idx_pendingDeletes ?i) t' k = {}" for t' k
    using ok(1) kws by (auto simp: caches_ok_def bufferDocs_pend)
  ultimately have c: "caches_ok T ?i (kv_map db)" using ok(1) by (simp add: caches_ok_def rows_inv_def)
  have "eff ?i (kv_map db) t' k = eff idx (kv_map db) t' k - (if t' = t \<and> k \<in> set kws then {d} else {})" for t' k
    by (auto simp: eff_def bufferDocs_pend)
  moreover have "idx_same idx ?i" by (simp add: idx_same_def)
  moreover have "pend (idx_pendingDeletes ?i) t' k =
      pend (idx_pendingDeletes idx) t' k \<union> (if t' = t \<and> k \<in> set kws then {d} else {})" for t' k
    by (simp add: bufferDocs_pend)
  ultimately show ?thesis
    using pressure_settles [OF c ok(2) e] by (fastforce simp: removeIndex_def settles_def intro: idx_same_trans)
qed

text \<open>Forward entries.\<close>

lemma forwardKey_inj:
  "encodeForwardKey idx t d = encodeForwardKey idx t' d' \<longleftrightarrow> t = t' \<and> d = d'"
proof
  assume "encodeForwardKey idx t d = encodeForwardKey idx t' d'"
  then have "itoa t @ bar # PutUint64 d = itoa t' @ bar # PutUint64 d'" by (simp add: encodeForwardKey_def)
  from split_at_first [OF bar_notin_itoa bar_notin_itoa this] show "t = t' \<and> d = d'" by simp
qed simp

lemma forwardKey_same: "idx_same i j \<Longrightarrow> encodeForwardKey j t d = encodeForwardKey i t d"
  by (simp add: encodeForwardKey_def idx_same_def)

lemma forwardKey_type: "isKeyType (encodeForwardKey idx t d) r \<longleftrightarrow> r = idx_keyTypeForward idx"
  by (auto simp: encodeForwardKey_def isKeyType_def)

lemma posts_other: "\<not> isKeyType key r \<Longrightarrow> posts r (m(key := x)) t k = posts r m t k"
  by (rule posts_cong) (auto simp: rowKey_def isKeyType_def)

lemma forward_put:
  assumes "caches_ok T idx m"
  shows "caches_ok T idx (m(encodeForwardKey idx t d := x))"
    "eff idx (m(encodeForwardKey idx t d := x)) = eff idx m"
proof -
  let ?r = "idx_keyTypeRow idx"
  have n: "\<not> isKeyType (encodeForwardKey idx t d) ?r" using assms by (auto simp: caches_ok_def forwardKey_type)
  then show "caches_ok T idx (m(encodeForwardKey idx t d := x))"
    using assms by (auto simp: caches_ok_def rows_inv_def intro: rows_wf_other seq_fresh_other)
  show "eff idx (m(encodeForwardKey idx t d := x)) = eff idx m" using n by (intro ext) (simp add: eff_def posts_other)
qed

subsection \<open>Index and forward map agree\<close>

definition good_kws :: "bytes list \<Rightarrow> bool" where
  "good_kws kws \<longleftrightarrow> kws \<noteq> [] \<and> (\<forall>k\<in>set kws. k \<noteq> [] \<and> bar \<notin> set k)"

text \<open>The abstract index: the keyword list of each document of each table.\<close>

definition fwdMap :: "istate \<Rightarrow> int \<times> docid \<rightharpoonup> bytes list" where
  "fwdMap s = (\<lambda>(t, d). fwd (fst s) (kv_map (snd s)) t d)"

definition synced :: "int set \<Rightarrow> istate \<Rightarrow> bool" where
  "synced T s \<longleftrightarrow> kv_ok (snd s) \<and> caches_ok T (fst s) (kv_map (snd s)) \<and>
     (\<forall>t k d. d \<in> eff (fst s) (kv_map (snd s)) t k \<longleftrightarrow> (\<exists>ks. fwdMap s (t, d) = Some ks \<and> k \<in> set ks)) \<and>
     (\<forall>t d ks. fwdMap s (t, d) = Some ks \<longrightarrow> good_kws ks)"

lemma syncedI:
  assumes "kv_ok db" "caches_ok T idx (kv_map db)"
    "\<And>t k d. d \<in> eff idx (kv_map db) t k \<longleftrightarrow> (\<exists>ks. fwdMap (idx, db) (t, d) = Some ks \<and> k \<in> set ks)"
    "\<And>t d ks. fwdMap (idx, db) (t, d) = Some ks \<Longrightarrow> good_kws ks"
  shows "synced T (idx, db)"
  using assms by (simp add: synced_def)

lemma syncedD:
  assumes "synced T (idx, db)"
  shows "kv_ok db" "caches_ok T idx (kv_map db)"
    "d \<in> eff idx (kv_map db) t k \<longleftrightarrow> (\<exists>ks. fwdMap (idx, db) (t, d) = Some ks \<and> k \<in> set ks)"
    "fwdMap (idx, db) (t, d) = Some ks \<Longrightarrow> good_kws ks"
  using assms by (simp_all add: synced_def)

lemma readForward_fwd: "kv_ok db \<Longrightarrow> readForward idx db t d = fwdMap (idx, db) (t, d)"
  by (simp add: readForward_def fwdMap_def fwd_def kvGet_ok)

lemma fwdMap_same:
  assumes "idx_same i j" "\<And>k. \<not> isKeyType k (idx_keyTypeRow i) \<Longrightarrow> kv_map db' k = kv_map db k"
    "idx_keyTypeForward i \<noteq> idx_keyTypeRow i"
  shows "fwdMap (j, db') = fwdMap (i, db)"
  using assms by (auto simp: fwdMap_def fwd_def forwardKey_same [OF assms(1)] forwardKey_type)

lemma settles_synced:
  assumes "synced T (idx, db)" "settles T (idx, kv_map db) (idx', kv_map db')" "kv_ok db'"
  shows "synced T (idx', db')" "fwdMap (idx', db') = fwdMap (idx, db)"
proof -
  note s = syncedD [OF assms(1)]
  have v: "caches_ok T idx' (kv_map db')" "\<And>t k. eff idx' (kv_map db') t k = eff idx (kv_map db) t k" "idx_same idx idx'"
    "\<And>k. \<not> isKeyType k (idx_keyTypeRow idx) \<Longrightarrow> kv_map db' k = kv_map db k"
    using assms(2) by (simp_all add: settles_def)
  show f: "fwdMap (idx', db') = fwdMap (idx, db)"
    using v(3,4) s(2) by (intro fwdMap_same) (auto simp: caches_ok_def)
  show "synced T (idx', db')" by (rule syncedI [OF assms(3) v(1)]) (simp_all add: f v(2) s(3,4))
qed

lemma fwdMap_put:
  assumes "kv_ok db"
  shows "fwdMap (idx, fst (kvPut (encodeForwardKey idx t d) v db)) = (fwdMap (idx, db))((t, d) \<mapsto> decodeForwardValue v)"
    "fwdMap (idx, fst (kvDelete (encodeForwardKey idx t d) db)) = (fwdMap (idx, db))((t, d) := None)"
  using assms by (auto simp: fwdMap_def fwd_def kvPut_ok kvDelete_ok forwardKey_inj fun_eq_iff)

lemma decode_good: "good_kws kws \<Longrightarrow> decodeForwardValue (encodeForwardValue kws) = kws"
  by (rule decode_encode_forward) (auto simp: good_kws_def)

text \<open>Writing or deleting the forward entry once the index has been changed accordingly.\<close>

lemma putForward_synced:
  assumes c: "kv_ok db" "caches_ok T idx (kv_map db)" and g: "good_kws kws"
    and e: "\<And>t' k d'. d' \<in> eff idx (kv_map db) t' k \<longleftrightarrow>
      (\<exists>ks. ((fwdMap (idx, db))((t, d) \<mapsto> kws)) (t', d') = Some ks \<and> k \<in> set ks)"
    and f: "\<And>t' d' ks. fwdMap (idx, db) (t', d') = Some ks \<Longrightarrow> good_kws ks"
  shows "synced T (putForward t d kws (idx, db))" "fwdMap (putForward t d kws (idx, db)) = (fwdMap (idx, db))((t, d) \<mapsto> kws)"
proof -
  let ?db = "fst (kvPut (encodeForwardKey idx t d) (encodeForwardValue kws) db)"
  have p: "putForward t d kws (idx, db) = (idx, ?db)" by (simp add: putForward_def)
  have m: "kv_map ?db = (kv_map db)(encodeForwardKey idx t d \<mapsto> encodeForwardValue kws)" "kv_ok ?db"
    using c(1) by (simp_all add: kvPut_ok)
  have fw: "fwdMap (idx, ?db) = (fwdMap (idx, db))((t, d) \<mapsto> kws)"
    using fwdMap_put(1) [OF c(1), of idx t d "encodeForwardValue kws"] by (simp add: decode_good [OF g])
  then show "fwdMap (putForward t d kws (idx, db)) = (fwdMap (idx, db))((t, d) \<mapsto> kws)" by (simp add: p)
  show "synced T (putForward t d kws (idx, db))"
    unfolding p
  proof (rule syncedI [OF m(2)])
    show "caches_ok T idx (kv_map ?db)" unfolding m(1) by (rule forward_put [OF c(2)])
    show "d' \<in> eff idx (kv_map ?db) t' k \<longleftrightarrow> (\<exists>ks. fwdMap (idx, ?db) (t', d') = Some ks \<and> k \<in> set ks)" for t' k d'
      unfolding m(1) forward_put(2) [OF c(2)] fw by (rule e)
    show "good_kws ks" if "fwdMap (idx, ?db) (t', d') = Some ks" for t' d' ks
      using that g f unfolding fw by (auto split: if_splits)
  qed
qed

lemma deleteForward_synced:
  assumes c: "kv_ok db" "caches_ok T idx (kv_map db)"
    and e: "\<And>t' k d'. d' \<in> eff idx (kv_map db) t' k \<longleftrightarrow>
      (\<exists>ks. ((fwdMap (idx, db))((t, d) := None)) (t', d') = Some ks \<and> k \<in> set ks)"
    and f: "\<And>t' d' ks. fwdMap (idx, db) (t', d') = Some ks \<Longrightarrow> good_kws ks"
  defines "db' \<equiv> fst (kvDelete (encodeForwardKey idx t d) db)"
  shows "synced T (idx, db')" "fwdMap (idx, db') = (fwdMap (idx, db))((t, d) := None)"
proof -
  have m: "kv_map db' = (kv_map db)(encodeForwardKey idx t d := None)" "kv_ok db'"
    using c(1) by (simp_all add: kvDelete_ok db'_def)
  show fw: "fwdMap (idx, db') = (fwdMap (idx, db))((t, d) := None)"
    unfolding db'_def by (rule fwdMap_put(2) [OF c(1)])
  show "synced T (idx, db')"
  proof (rule syncedI [OF m(2)])
    show "caches_ok T idx (kv_map db')" unfolding m(1) by (rule forward_put [OF c(2)])
    show "d' \<in> eff idx (kv_map db') t' k \<longleftrightarrow> (\<exists>ks. fwdMap (idx, db') (t', d') = Some ks \<and> k \<in> set ks)" for t' k d'
      unfolding m(1) forward_put(2) [OF c(2)] fw by (rule e)
    show "good_kws ks" if "fwdMap (idx, db') (t', d') = Some ks" for t' d' ks
      using that f unfolding fw by (auto split: if_splits)
  qed
qed

text \<open>No write of the document under these keywords is waiting, nor a delete.\<close>

definition no_pending_delete :: "istate \<Rightarrow> int \<Rightarrow> docid \<Rightarrow> bytes list \<Rightarrow> bool" where
  "no_pending_delete s t d kws \<longleftrightarrow> (\<forall>k\<in>set kws. d \<notin> pend (idx_pendingDeletes (fst s)) t k)"

definition no_pending_write :: "istate \<Rightarrow> int \<Rightarrow> docid \<Rightarrow> bytes list \<Rightarrow> bool" where
  "no_pending_write s t d kws \<longleftrightarrow> (\<forall>k\<in>set kws. d \<notin> pend (idx_pendingWrites (fst s)) t k)"

lemma Add_ok:
  assumes s: "synced T s" and e: "env_ok T e" and d: "is_int64 t" "0 < sint d" and g: "good_kws kws"
    and new: "fwdMap s (t, d) = None" and nd: "no_pending_delete s t d kws"
  shows "\<exists>s'. Add e t d kws s = Some s' \<and> synced T s' \<and> fwdMap s' = (fwdMap s)((t, d) \<mapsto> kws)"
proof -
  obtain idx db where sp: "s = (idx, db)" by (cases s)
  note sd = syncedD [OF s [unfolded sp]]
  have "\<forall>k\<in>set kws. k \<noteq> [] \<and> d \<notin> pend (idx_pendingDeletes idx) t k"
    using g nd by (auto simp: good_kws_def no_pending_delete_def sp)
  from updateIndex_ok [OF sd(2,1) e d this] obtain idx' db' where
    u: "updateIndex e t d kws (idx, db) = Some (idx', db')" "kv_ok db'" "caches_ok T idx' (kv_map db')" "idx_same idx idx'"
      "\<And>k. \<not> isKeyType k (idx_keyTypeRow idx) \<Longrightarrow> kv_map db' k = kv_map db k"
      "\<And>t' k. eff idx' (kv_map db') t' k = eff idx (kv_map db) t' k \<union> (if t' = t \<and> k \<in> set kws then {d} else {})"
    by blast
  have f: "fwdMap (idx', db') = fwdMap (idx, db)" using u(4,5) sd(2) by (intro fwdMap_same) (auto simp: caches_ok_def)
  have "d' \<in> eff idx' (kv_map db') t' k \<longleftrightarrow>
      (\<exists>ks. ((fwdMap (idx', db'))((t, d) \<mapsto> kws)) (t', d') = Some ks \<and> k \<in> set ks)" for t' k d'
    using new by (auto simp: u(6) f sd(3) sp)
  moreover have "fwdMap (idx', db') (t', d') = Some ks \<Longrightarrow> good_kws ks" for t' d' ks using sd(4) by (simp add: f)
  ultimately have "synced T (putForward t d kws (idx', db'))"
    "fwdMap (putForward t d kws (idx', db')) = (fwdMap (idx', db'))((t, d) \<mapsto> kws)"
    using putForward_synced [OF u(2,3) g] by blast+
  moreover have "kws \<noteq> []" using g by (simp add: good_kws_def)
  ultimately show ?thesis using u(1) f by (simp add: Add_def sp)
qed

lemma DeleteDoc_ok:
  assumes s: "synced T s" and e: "env_ok T e" and d: "is_int64 t" "0 < sint d"
    and nw: "\<And>kws. fwdMap s (t, d) = Some kws \<Longrightarrow> no_pending_write s t d kws"
  shows "\<exists>s'. DeleteDoc e t d s = Some s' \<and> synced T s' \<and> fwdMap s' = (fwdMap s)((t, d) := None)"
proof -
  obtain idx db where sp: "s = (idx, db)" by (cases s)
  note sd = syncedD [OF s [unfolded sp]]
  note rf = readForward_fwd [OF sd(1)]
  show ?thesis
  proof (cases "fwdMap s (t, d)")
    case None
    have "((fwdMap (idx, db))((t, d) := None)) = fwdMap (idx, db)" using None by (auto simp: sp)
    then show ?thesis
      using deleteForward_synced [OF sd(1,2), of t d] sd(3,4) None by (simp add: DeleteDoc_def rf sp)
  next
    case (Some old)
    have g: "good_kws old" using sd(4) Some by (simp add: sp)
    then have "\<forall>k\<in>set old. k \<noteq> [] \<and> d \<notin> pend (idx_pendingWrites idx) t k"
      using nw [OF Some] by (auto simp: good_kws_def no_pending_write_def sp)
    from removeIndex_ok [OF sd(2,1) e d this] obtain idx' db' where
      u: "removeIndex e t d old (idx, db) = Some (idx', db')" "kv_ok db'" "caches_ok T idx' (kv_map db')" "idx_same idx idx'"
        "\<And>k. \<not> isKeyType k (idx_keyTypeRow idx) \<Longrightarrow> kv_map db' k = kv_map db k"
        "\<And>t' k. eff idx' (kv_map db') t' k = eff idx (kv_map db) t' k - (if t' = t \<and> k \<in> set old then {d} else {})"
      by blast
    have f: "fwdMap (idx', db') = fwdMap (idx, db)" using u(4,5) sd(2) by (intro fwdMap_same) (auto simp: caches_ok_def)
    have "d' \<in> eff idx' (kv_map db') t' k \<longleftrightarrow>
        (\<exists>ks. ((fwdMap (idx', db'))((t, d) := None)) (t', d') = Some ks \<and> k \<in> set ks)" for t' k d'
      using Some by (auto simp: u(6) f sd(3) sp)
    moreover have "fwdMap (idx', db') (t', d') = Some ks \<Longrightarrow> good_kws ks" for t' d' ks using sd(4) by (simp add: f)
    ultimately show ?thesis
      using deleteForward_synced [OF u(2,3), of t d] g u(1) f Some by (simp add: DeleteDoc_def rf sp good_kws_def)
  qed
qed

text \<open>The keywords on record for a document.\<close>

definition oldWords :: "istate \<Rightarrow> int \<Rightarrow> docid \<Rightarrow> bytes list" where
  "oldWords s t d = (case fwdMap s (t, d) of None \<Rightarrow> [] | Some old \<Rightarrow> old)"

lemma UpdateDoc_ok:
  assumes s: "synced T s" and e: "env_ok T e1" "env_ok T e2" and d: "is_int64 t" "0 < sint d" and g: "good_kws kws"
    and nd: "no_pending_delete s t d (newWords kws (oldWords s t d))"
    and nw: "no_pending_write s t d (removedWords kws (oldWords s t d))"
  shows "\<exists>s'. UpdateDoc e1 e2 t d kws s = Some s' \<and> synced T s' \<and> fwdMap s' = (fwdMap s)((t, d) \<mapsto> kws)"
proof (cases "fwdMap s (t, d)")
  case None
  have "kws \<noteq> []" using g by (simp add: good_kws_def)
  moreover have "readForward (fst s) (snd s) t d = None" using readForward_fwd [of "snd s"] s None by (simp add: synced_def)
  moreover have "no_pending_delete s t d kws" using nd None by (simp add: oldWords_def newWords_def)
  ultimately show ?thesis using Add_ok [OF s e(1) d g None] by (simp add: UpdateDoc_def)
next
  case (Some old)
  obtain idx db where sp: "s = (idx, db)" by (cases s)
  note sd = syncedD [OF s [unfolded sp]]
  let ?rm = "removedWords kws old" and ?new = "newWords kws old"
  have o: "oldWords s t d = old" "good_kws old" using Some sd(4) by (simp_all add: oldWords_def sp)
  have rm: "set ?rm = set old - set kws" "set ?new = set kws - set old"
    using g o(2) by (auto simp: removedWords_def newWords_def good_kws_def)
  have "\<forall>k\<in>set ?rm. k \<noteq> [] \<and> d \<notin> pend (idx_pendingWrites idx) t k"
    using o nw by (auto simp: good_kws_def no_pending_write_def sp rm(1))
  from removeIndex_ok [OF sd(2,1) e(1) d this] obtain i1 d1 where
    u: "removeIndex e1 t d ?rm (idx, db) = Some (i1, d1)" "kv_ok d1" "caches_ok T i1 (kv_map d1)" "idx_same idx i1"
      "\<And>k. \<not> isKeyType k (idx_keyTypeRow idx) \<Longrightarrow> kv_map d1 k = kv_map db k"
      "\<And>t' k. eff i1 (kv_map d1) t' k = eff idx (kv_map db) t' k - (if t' = t \<and> k \<in> set ?rm then {d} else {})"
      "\<And>t' k. pend (idx_pendingDeletes i1) t' k \<subseteq>
         pend (idx_pendingDeletes idx) t' k \<union> (if t' = t \<and> k \<in> set ?rm then {d} else {})" by blast
  have n: "k \<noteq> [] \<and> d \<notin> pend (idx_pendingDeletes i1) t k" if "k \<in> set ?new" for k
    using that u(7) [of t k] g nd [unfolded o no_pending_delete_def] by (auto simp: good_kws_def sp rm)
  obtain i2 d2 where w: "(if ?new \<noteq> [] then updateIndex e2 t d ?new (i1, d1) else Some (i1, d1)) = Some (i2, d2)"
      "kv_ok d2" "caches_ok T i2 (kv_map d2)" "idx_same i1 i2"
      "\<And>k. \<not> isKeyType k (idx_keyTypeRow i1) \<Longrightarrow> kv_map d2 k = kv_map d1 k"
      "\<And>t' k. eff i2 (kv_map d2) t' k = eff i1 (kv_map d1) t' k \<union> (if t' = t \<and> k \<in> set ?new then {d} else {})"
  proof (cases "?new = []")
    case True
    then show ?thesis using that [of i1 d1] u(2,3) by simp
  next
    case False
    then show ?thesis using that updateIndex_ok [OF u(3,2) e(2) d, of ?new] n by auto
  qed
  have f: "fwdMap (i2, d2) = fwdMap (idx, db)"
    using fwdMap_same [OF w(4,5)] fwdMap_same [OF u(4,5)] sd(2) u(3) by (auto simp: caches_ok_def)
  have "d' \<in> eff i2 (kv_map d2) t' k \<longleftrightarrow> (\<exists>ks. ((fwdMap (i2, d2))((t, d) \<mapsto> kws)) (t', d') = Some ks \<and> k \<in> set ks)" for t' k d'
    using Some by (auto simp: w(6) u(6) f sd(3) sp rm)
  moreover have "fwdMap (i2, d2) (t', d') = Some ks \<Longrightarrow> good_kws ks" for t' d' ks using sd(4) by (simp add: f)
  ultimately have "synced T (putForward t d kws (i2, d2))"
    "fwdMap (putForward t d kws (i2, d2)) = (fwdMap (i2, d2))((t, d) \<mapsto> kws)"
    using putForward_synced [OF w(2,3) g] by blast+
  moreover have "UpdateDoc e1 e2 t d kws s = Some (putForward t d kws (i2, d2))"
    using g Some readForward_fwd [OF sd(1)] u(1) w(1) by (simp add: UpdateDoc_def sp good_kws_def split del: if_split)
  ultimately show ?thesis by (simp add: f sp)
qed

subsection \<open>Tables\<close>

lemma docsOf_delete: "docsOf (AList.delete t al) t' k = (if t' = t then [] else docsOf al t' k)"
  by (simp add: docsOf_def getPending_def pendingDocs_def newPending_def delete_conv')

lemma pending_wf_delete: "pending_wf al \<Longrightarrow> pending_wf (AList.delete t al)"
  by (simp add: pending_wf_def delete_conv' distinct_delete)

lemma rowKey_type: "isKeyType (rowKey r tid kw c t n) r"
  by (simp add: rowKey_def isKeyType_def)

lemma rows_inv_sub:
  assumes "rows_inv T idx m" "\<And>k. isKeyType k (idx_keyTypeRow idx) \<Longrightarrow> m' k = None \<or> m' k = m k"
  shows "rows_inv T idx m'"
proof -
  let ?r = "idx_keyTypeRow idx"
  have "m k = Some v" if "m' k = Some v" "isKeyType k ?r" for k v using assms(2) [of k] that by auto
  moreover have "m' (rowKey ?r tid kw c t n) = None" if "m (rowKey ?r tid kw c t n) = None" for tid kw c t n
    using assms(2) [OF rowKey_type [of ?r tid kw c t n]] that by auto
  ultimately show ?thesis using assms(1) unfolding rows_inv_def rows_wf_def seq_fresh_def by blast
qed

lemma DeleteTable_map:
  assumes "kv_ok db"
  shows "\<exists>db'. DeleteTable t (idx, db) = Some ((clearPendingWrites t idx, db'), None) \<and> kv_ok db' \<and>
    kv_map db' = (\<lambda>k. if prefix (encodeInvertedSearchKey idx t []) k \<or> prefix (encodeForwardKeyPrefix idx t) k \<or>
        k = encodeTableKey idx t then None else kv_map db k)"
proof -
  let ?b = "\<lparr>pb_ops = [], pb_maxBatchSize = 0, pb_count = 0\<rparr>"
  let ?i = "clearPendingWrites t idx"
  let ?s1 = "fst (batchDeletePrefix (encodeInvertedSearchKey ?i t []) (db, ?b))"
  let ?s2 = "fst (batchDeletePrefix (encodeForwardKeyPrefix ?i t) ?s1)"
  let ?s3 = "fst (batchDelete (encodeTableKey ?i t) ?s2)"
  have ne: "bar \<noteq> xFF" by simp
  have i: "encodeInvertedSearchKey ?i t [] = encodeInvertedSearchKey idx t []"
    "encodeForwardKeyPrefix ?i t = encodeForwardKeyPrefix idx t" "encodeTableKey ?i t = encodeTableKey idx t"
    by (simp_all add: clearPendingWrites_def encodeInvertedSearchKey_def encodeForwardKeyPrefix_def encodeTableKey_def)
  have p: "\<exists>c\<in>set (encodeInvertedSearchKey idx t []). c \<noteq> xFF" "\<exists>c\<in>set (encodeForwardKeyPrefix idx t). c \<noteq> xFF"
    using ne by (auto simp: encodeInvertedSearchKey_def encodeForwardKeyPrefix_def)
  note 1 = batchDeletePrefix_view [of "(db, ?b)", OF _ p(1)]
  note 2 = batchDeletePrefix_view [of ?s1, OF _ p(2)]
  have s3: "kv_ok (fst ?s3)" "batch_view ?s3 = (batch_view ?s2)(encodeTableKey idx t := None)"
    using batchAppend_ok [of ?s2 "BDelete (encodeTableKey idx t)"] 1(1) 2(1) assms by (simp_all add: batchDelete_def i)
  obtain d3 b3 where d3: "?s3 = (d3, b3)" by (cases ?s3)
  have c: "snd (batchCommit ?s3) = None" "kv_ok (fst (fst (batchCommit ?s3)))"
    "kv_map (fst (fst (batchCommit ?s3))) = batch_view ?s3"
    using batchCommit_ok [of d3 b3] s3(1) by (simp_all add: d3)
  have "DeleteTable t (idx, db) = Some ((?i, fst (fst (batchCommit ?s3))), snd (batchCommit ?s3))"
    using assms by (simp add: DeleteTable_def Let_def NewBatch_ok case_prod_unfold)
  then show ?thesis using c s3(2) 1 2 assms by (auto simp: i fun_eq_iff)
qed

lemma DeleteTable_ok:
  assumes s: "synced T s"
  shows "\<exists>s'. DeleteTable t s = Some (s', None) \<and> synced T s' \<and>
    fwdMap s' = (\<lambda>(t', d). if t' = t then None else fwdMap s (t', d)) \<and>
    (\<forall>k. posts (idx_keyTypeRow (fst s)) (kv_map (snd s')) t k = {}) \<and>
    kv_map (snd s') (encodeTableKey (fst s) t) = None"
proof -
  obtain idx db where sp: "s = (idx, db)" by (cases s)
  note sd = syncedD [OF s [unfolded sp]]
  let ?r = "idx_keyTypeRow idx" and ?i = "clearPendingWrites t idx"
  from DeleteTable_map [OF sd(1), of t idx] obtain db' where
    D: "DeleteTable t (idx, db) = Some ((?i, db'), None)" "kv_ok db'" "kv_map db' =
      (\<lambda>k. if prefix (encodeInvertedSearchKey idx t []) k \<or> prefix (encodeForwardKeyPrefix idx t) k \<or>
        k = encodeTableKey idx t then None else kv_map db k)" by blast
  have kt: "idx_keyTypeForward idx \<noteq> ?r" "idx_keyTypeTable idx \<noteq> ?r" "idx_keyTypeTable idx \<noteq> idx_keyTypeForward idx"
    using sd(2) by (auto simp: caches_ok_def)
  have same: "idx_same idx ?i" by (simp add: idx_same_def clearPendingWrites_def)
  have row: "kv_map db' (rowKey ?r t' k c u n) = (if t' = t then None else kv_map db (rowKey ?r t' k c u n))" for t' k c u n
    using kt searchKey_row [of "[]" idx t t' k c u n]
    by (auto simp: D(3) encodeForwardKeyPrefix_def encodeTableKey_def rowKey_def)
  have "rows_inv T idx (kv_map db)" using sd(2) by (simp add: caches_ok_def)
  then have "rows_inv T idx (kv_map db')" by (rule rows_inv_sub) (simp add: D(3))
  then have c: "caches_ok T ?i (kv_map db')"
    using sd(2) by (simp add: caches_ok_def clearPendingWrites_def rows_inv_def docsOf_delete pending_wf_delete)
  have fk: "kv_map db' (encodeForwardKey idx t' d) = (if t' = t then None else kv_map db (encodeForwardKey idx t' d))" for t' d
    using kt by (auto simp: D(3) encodeForwardKey_def encodeForwardKeyPrefix_def encodeTableKey_def
        encodeInvertedSearchKey_def itoa_bar_prefix)
  have f: "fwdMap (?i, db') = (\<lambda>(t', d). if t' = t then None else fwdMap (idx, db) (t', d))"
    by (auto simp: fwdMap_def fwd_def forwardKey_same [OF same] fk)
  have ps: "posts ?r (kv_map db') t' k = (if t' = t then {} else posts ?r (kv_map db) t' k)" for t' k
    by (simp add: posts_def row)
  have "eff ?i (kv_map db') t' k = (if t' = t then {} else eff idx (kv_map db) t' k)" for t' k
    by (simp add: eff_def clearPendingWrites_def docsOf_delete ps)
  then have "synced T (?i, db')"
    using sd(3,4) by (intro syncedI [OF D(2) c]) (auto simp: f split: if_splits)
  moreover have "kv_map db' (encodeTableKey idx t) = None" by (simp add: D(3))
  ultimately show ?thesis unfolding sp using D(1) f ps by simp
qed

lemma GetIncrementalId_frame:
  assumes "kv_ok d" "GetIncrementalId key d = (d', r)"
  shows "kv_ok d'" "k \<noteq> key \<Longrightarrow> kv_map d' k = kv_map d k"
  using assms by (auto simp: GetIncrementalId_def kv_simps kvPut_ok split: option.splits)

lemma CreateTable_ok:
  assumes s: "synced T s" and run: "CreateTable now desc s = (s', tid, err)"
  shows "synced T s'" "fwdMap s' = fwdMap s"
proof -
  obtain idx db where sp: "s = (idx, db)" by (cases s)
  note sd = syncedD [OF s [unfolded sp]]
  obtain d1 r where g: "GetIncrementalId (encodeNextTableIdKey idx) db = (d1, r)" by (rule prod.exhaust)
  note G = GetIncrementalId_frame [OF sd(1) g]
  obtain d2 where s': "s' = (idx, d2)" "kv_ok d2"
    "\<And>k. hd k \<noteq> idx_keyTypeNextId idx \<Longrightarrow> hd k \<noteq> idx_keyTypeTable idx \<Longrightarrow> kv_map d2 k = kv_map db k"
  proof (cases r)
    case (Inl e)
    then have "s' = (idx, d1)" using run g by (simp add: CreateTable_def sp)
    moreover have "kv_map d1 k = kv_map db k" if "hd k \<noteq> idx_keyTypeNextId idx" for k
      using that by (intro G(2)) (auto simp: encodeNextTableIdKey_def)
    ultimately show ?thesis using that [of d1] G(1) by blast
  next
    case (Inr i)
    let ?p = "kvPut (encodeTableKey idx i) (encodeTableValue \<lparr>ti_Id = i, ti_CreatedAt = now, ti_Description = desc\<rparr>) d1"
    have "s' = (idx, fst ?p)" using run g Inr by (auto simp: CreateTable_def sp split: prod.splits)
    moreover have "kv_map (fst ?p) k = kv_map db k"
      if k: "hd k \<noteq> idx_keyTypeNextId idx" "hd k \<noteq> idx_keyTypeTable idx" for k
    proof -
      have "k \<noteq> encodeNextTableIdKey idx" "k \<noteq> encodeTableKey idx i"
        using k by (auto simp: encodeTableKey_def encodeNextTableIdKey_def)
      then show ?thesis using G by (simp add: kvPut_ok)
    qed
    ultimately show ?thesis using that [of "fst ?p"] G(1) by (simp add: kvPut_ok)
  qed
  have kt: "idx_keyTypeRow idx \<noteq> idx_keyTypeNextId idx" "idx_keyTypeRow idx \<noteq> idx_keyTypeTable idx"
    "idx_keyTypeForward idx \<noteq> idx_keyTypeNextId idx" "idx_keyTypeForward idx \<noteq> idx_keyTypeTable idx"
    using sd(2) by (auto simp: caches_ok_def)
  have rw: "kv_map d2 k = kv_map db k" if "isKeyType k (idx_keyTypeRow idx)" for k
    using that kt by (intro s'(3)) (auto simp: isKeyType_def split: list.splits)
  have "rows_inv T idx (kv_map db)" using sd(2) by (simp add: caches_ok_def)
  then have "rows_inv T idx (kv_map d2)" by (rule rows_inv_sub) (simp add: rw)
  then have c: "caches_ok T idx (kv_map d2)" using sd(2) by (simp add: caches_ok_def)
  have "posts (idx_keyTypeRow idx) (kv_map d2) t k = posts (idx_keyTypeRow idx) (kv_map db) t k" for t k
    by (rule posts_cong) (simp add: rw rowKey_type)
  moreover show f: "fwdMap s' = fwdMap s"
    using s'(3) kt by (auto simp: s'(1) sp fwdMap_def fwd_def encodeForwardKey_def)
  ultimately show "synced T s'"
    unfolding s'(1) using sd(3,4) f by (intro syncedI [OF s'(2) c]) (auto simp: eff_def s'(1) sp)
qed

subsection \<open>Runs\<close>

datatype iop =
    IAdd int docid "bytes list"
  | IUpdate int docid "bytes list"
  | IDelete int docid
  | ICreateTable
  | IDeleteTable int
  | IFlush bool
  | IMerge
  | IReorder

text \<open>The abstract effect: a map from documents to keyword lists.\<close>

fun specStep :: "iop \<Rightarrow> (int \<times> docid \<rightharpoonup> bytes list) \<Rightarrow> (int \<times> docid \<rightharpoonup> bytes list)" where
  "specStep (IAdd t d kws) M = M((t, d) \<mapsto> kws)"
| "specStep (IUpdate t d kws) M = (if kws = [] then M((t, d) := None) else M((t, d) \<mapsto> kws))"
| "specStep (IDelete t d) M = M((t, d) := None)"
| "specStep (IDeleteTable t) M = (\<lambda>(t', d). if t' = t then None else M (t', d))"
| "specStep _ M = M"

text \<open>Go walks its maps in any order: the same cache entries, listed differently.\<close>

definition reordered :: "(int \<times> pendingTableWrites) list \<Rightarrow> (int \<times> pendingTableWrites) list \<Rightarrow> bool" where
  "reordered al al' \<longleftrightarrow> pending_wf al' \<and> set (entries al') = set (entries al)"

text \<open>One operation of the queue's worker, under the conditions its callers keep: \<open>Add\<close> is for new documents,
  ids are positive, keywords are not empty and hold no delimiter, and a posting waiting in one cache
  is not put into the other.\<close>

inductive istep :: "int set \<Rightarrow> iop \<Rightarrow> istate \<Rightarrow> istate \<Rightarrow> bool" for T where
  add: "env_ok T e \<Longrightarrow> is_int64 t \<Longrightarrow> 0 < sint d \<Longrightarrow> good_kws kws \<Longrightarrow> fwdMap s (t, d) = None \<Longrightarrow>
    no_pending_delete s t d kws \<Longrightarrow> Add e t d kws s = Some s' \<Longrightarrow> istep T (IAdd t d kws) s s'"
| update: "env_ok T e1 \<Longrightarrow> env_ok T e2 \<Longrightarrow> is_int64 t \<Longrightarrow> 0 < sint d \<Longrightarrow> kws = [] \<or> good_kws kws \<Longrightarrow>
    no_pending_delete s t d (newWords kws (oldWords s t d)) \<Longrightarrow>
    no_pending_write s t d (removedWords kws (oldWords s t d)) \<Longrightarrow> UpdateDoc e1 e2 t d kws s = Some s' \<Longrightarrow>
    istep T (IUpdate t d kws) s s'"
| delete: "env_ok T e \<Longrightarrow> is_int64 t \<Longrightarrow> 0 < sint d \<Longrightarrow> no_pending_write s t d (oldWords s t d) \<Longrightarrow>
    DeleteDoc e t d s = Some s' \<Longrightarrow> istep T (IDelete t d) s s'"
| createTable: "CreateTable now desc s = (s', tid, err) \<Longrightarrow> istep T ICreateTable s s'"
| deleteTable: "DeleteTable t s = Some (s', err) \<Longrightarrow> istep T (IDeleteTable t) s s'"
| flush: "env_ok T e \<Longrightarrow> flushPendingWritesTask e closing s = Some s' \<Longrightarrow> istep T (IFlush closing) s s'"
| merge: "\<forall>i j. ticks i j \<in> T \<Longrightarrow> \<forall>n\<ge>N. isTimeout n \<Longrightarrow> N < fuel \<Longrightarrow>
    mergeKeywordTask fuel ticks isTimeout m s = Some (s', m') \<Longrightarrow> istep T IMerge s s'"
| reorder: "reordered (idx_pendingWrites idx) al \<Longrightarrow> reordered (idx_pendingDeletes idx) al' \<Longrightarrow>
    istep T IReorder (idx, db) (idx\<lparr>idx_pendingWrites := al, idx_pendingDeletes := al'\<rparr>, db)"

lemma reordered_docsOf:
  assumes "pending_wf al" "reordered al al'"
  shows "docsOf al' t k = docsOf al t k"
proof (cases "docsOf al t k = []")
  case True
  have "docsOf al' t k = []"
  proof (rule ccontr)
    assume "docsOf al' t k \<noteq> []"
    then obtain rd where "(t, k, rd) \<in> set (entries al')" using docsOf_entry [of al' t k] assms(2) by (auto simp: reordered_def)
    then have "docsOf al' t k = rd_DocIds rd" "docsOf al t k = rd_DocIds rd"
      using entries_docsOf(1) assms by (auto simp: reordered_def)
    with True \<open>docsOf al' t k \<noteq> []\<close> show False by simp
  qed
  with True show ?thesis by simp
next
  case False
  then obtain rd where "(t, k, rd) \<in> set (entries al)" using docsOf_entry [OF assms(1), of t k] by auto
  then show ?thesis using entries_docsOf(1) assms by (auto simp: reordered_def)
qed

lemma UpdateDoc_empty: "UpdateDoc e1 e2 t d [] s = DeleteDoc e1 t d s"
  by (simp add: UpdateDoc_def)

lemma removedWords_empty [simp]: "removedWords [] old = old"
  by (simp add: removedWords_def)

lemma istep_synced:
  assumes "istep T op s s'" "synced T s"
  shows "synced T s' \<and> fwdMap s' = specStep op (fwdMap s)"
  using assms
proof (induction rule: istep.induct)
  case (add e t d kws s s')
  then show ?case using Add_ok [of T s e t d kws] by auto
next
  case (update e1 e2 t d kws s s')
  show ?case
  proof (cases "kws = []")
    case True
    have "no_pending_write s t d kws'" if "fwdMap s (t, d) = Some kws'" for kws'
      using update(7) that True by (simp add: oldWords_def)
    then show ?thesis using update DeleteDoc_ok [of T s e1 t d] True by (auto simp: UpdateDoc_empty)
  next
    case False
    then show ?thesis using update UpdateDoc_ok [of T s e1 e2 t d kws] by auto
  qed
next
  case (delete e t d s s')
  have "no_pending_write s t d kws'" if "fwdMap s (t, d) = Some kws'" for kws'
    using delete(4) that by (simp add: oldWords_def)
  then show ?case using delete DeleteDoc_ok [of T s e t d] by auto
next
  case (createTable now desc s s' tid err)
  then show ?case using CreateTable_ok [of T s now desc s'] by simp
next
  case (deleteTable t s s' err)
  then show ?case using DeleteTable_ok [of T s t] by auto
next
  case (flush e closing s s')
  then show ?case
    using flushTask_settles [of T "fst s" "snd s" e closing] settles_synced [of T "fst s" "snd s"] syncedD(1,2) [of T "fst s" "snd s"]
    by (cases s) auto
next
  case (merge ticks N isTimeout fuel m s s' m')
  then show ?case
    using merge_settles [of T "fst s" "snd s" ticks N isTimeout fuel m] settles_synced [of T "fst s" "snd s"]
      syncedD(1,2) [of T "fst s" "snd s"]
    by (cases s) auto
next
  case (reorder idx al al' db)
  let ?i = "idx\<lparr>idx_pendingWrites := al, idx_pendingDeletes := al'\<rparr>"
  have c: "caches_ok T idx (kv_map db)" using syncedD(2) [OF reorder(3)] .
  then have "docsOf al t k = docsOf (idx_pendingWrites idx) t k" "docsOf al' t k = docsOf (idx_pendingDeletes idx) t k" for t k
    using reordered_docsOf reorder(1,2) by (auto simp: caches_ok_def)
  then have "settles T (idx, kv_map db) (?i, kv_map db)"
    using c reorder(1,2) by (simp add: settles_def caches_ok_def rows_inv_def eff_def idx_same_def reordered_def)
  then show ?case using settles_synced [OF reorder(3) _ syncedD(1) [OF reorder(3)]] by simp
qed

fun irun :: "int set \<Rightarrow> iop list \<Rightarrow> istate \<Rightarrow> istate \<Rightarrow> bool" where
  "irun T [] s s' \<longleftrightarrow> s = s'"
| "irun T (op # ops) s s' \<longleftrightarrow> (\<exists>s1. istep T op s s1 \<and> irun T ops s1 s')"

lemma irun_append: "irun T (ops @ ops') s s' \<longleftrightarrow> (\<exists>s1. irun T ops s s1 \<and> irun T ops' s1 s')"
  by (induction ops arbitrary: s) auto

lemma irun_synced:
  assumes "irun T ops s s'" "synced T s"
  shows "synced T s' \<and> fwdMap s' = fold specStep ops (fwdMap s)"
  using assms by (induction ops arbitrary: s) (use istep_synced in fastforce)+

lemma start_synced:
  assumes "kv_ok db" "kv_map db = Map.empty" "idx = newIndex opts now1 now2"
    "distinct [idx_keyTypeRow idx, idx_keyTypeForward idx, idx_keyTypeTable idx, idx_keyTypeNextId idx]"
  shows "synced T (idx, db)" "fwdMap (idx, db) = Map.empty"
proof -
  have e: "idx_pendingWrites idx = []" "idx_pendingDeletes idx = []" by (simp_all add: assms(3) newIndex_def Let_def)
  have d: "docsOf [] t k = []" for t k by (simp add: docsOf_def getPending_def newPending_def pendingDocs_def)
  show f: "fwdMap (idx, db) = Map.empty" by (auto simp: fwdMap_def fwd_def assms(2))
  have "caches_ok T idx (kv_map db)"
    using assms(4) by (simp add: caches_ok_def e d assms(2) rows_inv_def rows_wf_def seq_fresh_def pending_wf_def)
  then show "synced T (idx, db)"
    by (rule syncedI [OF assms(1)]) (simp_all add: f eff_def e d assms(2) posts_def)
qed

lemma closing_flush_posts:
  assumes "istep T (IFlush True) s (idx, db)" "synced T s"
  shows "eff idx (kv_map db) = posts (idx_keyTypeRow idx) (kv_map db)"
proof -
  obtain e where e: "env_ok T e" "flushPendingWritesTask e True s = Some (idx, db)"
    using assms(1) by (cases rule: istep.cases) auto
  then have "docsOf (idx_pendingWrites idx) t k = [] \<and> docsOf (idx_pendingDeletes idx) t k = []" for t k
    using flushTask_settles [of T "fst s" "snd s" e True] assms(2) by (auto simp: synced_def)
  then show ?thesis by (auto simp: eff_def fun_eq_iff)
qed

lemma run_posts:
  assumes "kv_ok db0" "kv_map db0 = Map.empty" "idx0 = newIndex opts now1 now2"
    "distinct [idx_keyTypeRow idx0, idx_keyTypeForward idx0, idx_keyTypeTable idx0, idx_keyTypeNextId idx0]"
    "irun T (ops @ [IFlush True]) (idx0, db0) (idx, db)"
  shows "kv_ok db" "rows_wf (idx_keyTypeRow idx) (kv_map db)"
    "posts (idx_keyTypeRow idx) (kv_map db) t k = {d. \<exists>ks. fold specStep ops Map.empty (t, d) = Some ks \<and> k \<in> set ks}"
proof -
  note st = start_synced(1) [OF assms(1-4), of T] start_synced(2) [OF assms(1-4)]
  obtain s1 where r: "irun T ops (idx0, db0) s1" "istep T (IFlush True) s1 (idx, db)" using assms(5) by (auto simp: irun_append)
  have s1: "synced T s1" "fwdMap s1 = fold specStep ops Map.empty" using irun_synced [OF r(1) st(1)] st(2) by simp_all
  have s2: "synced T (idx, db)" "fwdMap (idx, db) = fwdMap s1" using istep_synced [OF r(2) s1(1)] by simp_all
  note sd = syncedD [OF s2(1)]
  show "kv_ok db" "rows_wf (idx_keyTypeRow idx) (kv_map db)" using sd(1,2) by (simp_all add: caches_ok_def rows_inv_def)
  show "posts (idx_keyTypeRow idx) (kv_map db) t k = {d. \<exists>ks. fold specStep ops Map.empty (t, d) = Some ks \<and> k \<in> set ks}"
    using sd(3) closing_flush_posts [OF r(2) s1(1)] by (auto simp: s2(2) s1(2))
qed

lemma flush_posts:
  assumes wf: "pending_wf (idx_pendingWrites idx)" "pending_wf (idx_pendingDeletes idx)"
    and ok: "kv_ok db" "rows_inv T idx (kv_map db)" "env_ok T e"
  shows "\<exists>idx' db'. flushPendingWritesTask e True (idx, db) = Some (idx', db') \<and> kv_ok db' \<and> rows_inv T idx' (kv_map db') \<and>
    (\<forall>t k. posts (idx_keyTypeRow idx) (kv_map db') t k =
       (posts (idx_keyTypeRow idx) (kv_map db) t k \<union> pend (idx_pendingWrites idx) t k) - pend (idx_pendingDeletes idx) t k)"
proof -
  let ?r = "idx_keyTypeRow idx"
  obtain i1 d1 where 1: "flushPendingWrites e True True (idx, db) = Some (i1, d1)" "kv_ok d1"
    "moved T (idx, kv_map db) (i1, kv_map d1)" "\<And>t k. docsOf (idx_pendingWrites i1) t k = []"
    using flushPendingWrites_ok [OF wf(1) ok(1,2), of e True True] ok(3) by (auto simp: env_ok_def)
  have m: "rows_inv T i1 (kv_map d1)" "idx_pendingDeletes i1 = idx_pendingDeletes idx" "idx_same idx i1"
    "\<And>t k. posts ?r (kv_map d1) t k = posts ?r (kv_map db) t k \<union> pend (idx_pendingWrites idx) t k"
    using 1(3,4) by (simp_all add: moved_def)
  have r: "idx_keyTypeRow i1 = ?r" using m(3) by (simp add: idx_same_def)
  obtain i2 d2 where 2: "flushPendingDeletes e True True (maxInvertedIndexSize (idx_opts i1)) (i1, d1) = Some (i2, d2)"
    "kv_ok d2" "purged T (i1, kv_map d1) (i2, kv_map d2)" "\<And>t k. docsOf (idx_pendingDeletes i2) t k = []"
    using flushPendingDeletes_ok [OF wf(2) [folded m(2)] 1(2) m(1) ok(3) maxInvertedIndexSize_pos, of True True "idx_opts i1"]
    by auto
  have p: "posts ?r (kv_map d2) t k = posts ?r (kv_map d1) t k \<and> docsOf (idx_pendingDeletes idx) t k = [] \<or>
      posts ?r (kv_map d2) t k = posts ?r (kv_map d1) t k - pend (idx_pendingDeletes idx) t k" for t k
    using 2(3) unfolding purged_def prod.case r m(2) 2(4) by metis
  have "posts ?r (kv_map d2) t k = posts ?r (kv_map d1) t k - pend (idx_pendingDeletes idx) t k" for t k
    using p [of t k] by auto
  then show ?thesis using 1(1) 2(1-3) by (simp add: flushPendingWritesTask_def m(4) purged_def)
qed

subsection \<open>Properties\<close>


definition exampleEnv :: env where
  "exampleEnv = \<lparr>en_now = 0, en_sinceW = 0, en_nowW = 0, en_sinceD = 0, en_nowD = 0, en_tick = (\<lambda>_. 0), en_order = (\<lambda>xs. xs)\<rparr>"

lemma exampleEnv_ok: "env_ok UNIV exampleEnv"
  by (simp add: env_ok_def exampleEnv_def)

lemma example_start: "synced UNIV (exampleIndex, freshDB)" "fwdMap (exampleIndex, freshDB) = Map.empty"
proof -
  have "distinct [idx_keyTypeRow exampleIndex, idx_keyTypeForward exampleIndex, idx_keyTypeTable exampleIndex,
      idx_keyTypeNextId exampleIndex]" by code_simp
  from start_synced [OF freshDB_ok exampleIndex_def this]
  show "synced UNIV (exampleIndex, freshDB)" "fwdMap (exampleIndex, freshDB) = Map.empty" by blast+
qed

lemma example_add_kws: "good_kws kws \<Longrightarrow> \<exists>s. istep UNIV (IAdd 1 5 kws) (exampleIndex, freshDB) s"
proof -
  assume g: "good_kws kws"
  have "idx_pendingDeletes exampleIndex = []" by code_simp
  then have n: "no_pending_delete (exampleIndex, freshDB) 1 5 kws"
    by (simp add: no_pending_delete_def docsOf_def getPending_def newPending_def pendingDocs_def)
  have a: "is_int64 1" "0 < sint (5 :: docid)" "good_kws kws" "fwdMap (exampleIndex, freshDB) (1, 5) = None"
    using g by (simp_all add: is_int64_def example_start(2))
  from Add_ok [OF example_start(1) exampleEnv_ok a n] istep.add [OF exampleEnv_ok a n] show ?thesis by blast
qed

lemma example_add: "\<exists>s. istep UNIV (IAdd 1 5 [''go'']) (exampleIndex, freshDB) s"
  by (rule example_add_kws) (simp add: good_kws_def)



lemma example_run_kws: "good_kws kws \<Longrightarrow> \<exists>idx db. irun UNIV ([IAdd 1 5 kws] @ [IFlush True]) (exampleIndex, freshDB) (idx, db)"
proof -
  assume "good_kws kws"
  from example_add_kws [OF this] obtain s where s: "istep UNIV (IAdd 1 5 kws) (exampleIndex, freshDB) s" ..
  have "synced UNIV s" using istep_synced [OF s example_start(1)] by simp
  then obtain idx db where "flushPendingWritesTask exampleEnv True s = Some (idx, db)"
    using flushTask_settles [of UNIV "fst s" "snd s" exampleEnv True] exampleEnv_ok by (auto simp: synced_def)
  with s istep.flush [OF exampleEnv_ok this] show ?thesis by (cases s) auto
qed

lemma example_run: "\<exists>idx db. irun UNIV ([IAdd 1 5 [''go'']] @ [IFlush True]) (exampleIndex, freshDB) (idx, db)"
  by (rule example_run_kws) (simp add: good_kws_def)

lemma example_distinct:
  "distinct [idx_keyTypeRow exampleIndex, idx_keyTypeForward exampleIndex, idx_keyTypeTable exampleIndex, idx_keyTypeNextId exampleIndex]"
  by code_simp




text \<open>
  (C20) A closing flush leaves no pending work behind and its effect on every keyword is exactly
  rows and pending writes united, minus the pending deletes. It holds for all caches, so it also says what
  happens to a posting in both of them: the delete wins, whichever was requested last.
\<close>

theorem closing_flush_effect:
  assumes "pending_wf (idx_pendingWrites idx)" "pending_wf (idx_pendingDeletes idx)"
    "kv_ok db" "rows_inv T idx (kv_map db)" "env_ok T e"
  shows "\<exists>idx' db'. flushPendingWritesTask e True (idx, db) = Some (idx', db') \<and> kv_ok db' \<and> rows_inv T idx' (kv_map db') \<and>
    (\<forall>t k. posts (idx_keyTypeRow idx) (kv_map db') t k =
       (posts (idx_keyTypeRow idx) (kv_map db) t k \<union> pend (idx_pendingWrites idx) t k) - pend (idx_pendingDeletes idx) t k)"
  using assms by (rule flush_posts)

text \<open>The example is the case of a document deleted and added again between two flushes: its posting is lost.\<close>

definition readdIndex :: Index where
  "readdIndex = exampleIndex
     \<lparr>idx_pendingWrites := bufferDocs 0 1 5 [''go''] [], idx_pendingDeletes := bufferDocs 0 1 5 [''go''] []\<rparr>"

lemma readdIndex_wf: "pending_wf (bufferDocs 0 1 5 [''go''] [])"
  by (rule bufferDocs_wf) (simp_all add: pending_wf_def is_int64_def)

theorem closing_flush_effect_witness:
  "\<exists>idx' db'. flushPendingWritesTask exampleEnv True (readdIndex, freshDB) = Some (idx', db') \<and>
     posts (idx_keyTypeRow readdIndex) (kv_map db') 1 ''go'' = {}"
proof -
  have w: "idx_pendingWrites readdIndex = bufferDocs 0 1 5 [''go''] []" "idx_pendingDeletes readdIndex = bufferDocs 0 1 5 [''go''] []"
    by (simp_all add: readdIndex_def)
  have wf: "pending_wf (idx_pendingWrites readdIndex)" "pending_wf (idx_pendingDeletes readdIndex)"
    unfolding w by (rule readdIndex_wf)+
  have "rows_inv UNIV readdIndex (kv_map freshDB)" by (simp add: rows_inv_def rows_wf_def seq_fresh_def)
  from closing_flush_effect [OF wf freshDB_ok(1) this exampleEnv_ok] obtain idx' db' where
    "flushPendingWritesTask exampleEnv True (readdIndex, freshDB) = Some (idx', db')"
    "posts (idx_keyTypeRow readdIndex) (kv_map db') 1 ''go'' =
       (posts (idx_keyTypeRow readdIndex) (kv_map freshDB) 1 ''go'' \<union> pend (idx_pendingWrites readdIndex) 1 ''go'') -
       pend (idx_pendingDeletes readdIndex) 1 ''go''" by blast
  then show ?thesis by (auto simp: w posts_def)
qed



end
