(* ===== verification/InvCount.thy ===== *)
theory InvCount
  imports InvSync
begin

text \<open>
  The posting counters of the index (\<open>pendingWritePostings\<close>, \<open>pendingDeletePostings\<close>): they are the
  number of cached postings at all times, and with \<open>MaxPendingPostings\<close> set no document update leaves
  more than that many behind.
\<close>

subsection \<open>Sums over association lists\<close>

definition total :: "('k \<times> 'v) list \<Rightarrow> ('v \<Rightarrow> int) \<Rightarrow> int" where
  "total al f = sum_list (map (\<lambda>(_, v). f v) al)"

lemma total_simps [simp]: "total [] f = 0" "total ((k, v) # al) f = f v + total al f"
  by (simp_all add: total_def)

lemma total_update:
  "distinct (map fst al) \<Longrightarrow>
   total (AList.update k v al) f = total al f - (case map_of al k of None \<Rightarrow> 0 | Some w \<Rightarrow> f w) + f v"
  by (induction al) (auto split: option.split)

lemma total_delete:
  "distinct (map fst al) \<Longrightarrow>
   total (AList.delete k al) f = total al f - (case map_of al k of None \<Rightarrow> 0 | Some w \<Rightarrow> f w)"
proof (induction al)
  case (Cons a al)
  have "AList.delete k al = al" if "k \<notin> fst ` set al" for k using that by (rule delete_id)
  with Cons show ?case by (cases a) (auto simp: map_of_eq_None_iff [THEN iffD2] split: option.split)
qed simp

subsection \<open>Cached postings\<close>

definition rdCount :: "relatedDocs \<Rightarrow> int" where
  "rdCount rd = int (length (rd_DocIds rd))"

definition tableCount :: "pendingTableWrites \<Rightarrow> int" where
  "tableCount wp = total (ptw_InvertedIndex wp) rdCount"

definition cached :: "(int \<times> pendingTableWrites) list \<Rightarrow> int" where
  "cached al = total al tableCount"

lemma sumPostings_total: "sumPostings al t = (case map_of al t of None \<Rightarrow> 0 | Some wp \<Rightarrow> tableCount wp)"
  by (simp add: sumPostings_def tableCount_def total_def rdCount_def split: option.split)

lemma pendingDocs_count:
  "int (length (pendingDocs wp kw)) = (case map_of (ptw_InvertedIndex wp) kw of None \<Rightarrow> 0 | Some rd \<Rightarrow> rdCount rd)"
  by (simp add: pendingDocs_def rdCount_def split: option.split)

lemma bufferDoc_count:
  "distinct (map fst (ptw_InvertedIndex wp)) \<Longrightarrow> tableCount (bufferDoc now d kw wp) = tableCount wp + 1 \<and>
     distinct (map fst (ptw_InvertedIndex (bufferDoc now d kw wp)))"
  using pendingDocs_count [of wp kw]
  by (simp add: bufferDoc_def tableCount_def total_update distinct_update rdCount_def split: option.splits)

lemma fold_bufferDoc_count:
  "distinct (map fst (ptw_InvertedIndex wp)) \<Longrightarrow>
   tableCount (fold (bufferDoc now d) kws wp) = tableCount wp + int (length kws)"
  by (induction kws arbitrary: wp) (auto simp: bufferDoc_count)

lemma bufferDocs_count:
  assumes "pending_wf al"
  shows "cached (bufferDocs now t d kws al) = cached al + int (length kws)"
proof -
  have d: "distinct (map fst al)" using assms by (simp add: pending_wf_def)
  have "distinct (map fst (ptw_InvertedIndex (getPending t al)))"
    using assms by (auto simp: pending_wf_def table_wf_def getPending_def newPending_def split: option.split)
  from fold_bufferDoc_count [OF this, of now d kws]
  have f: "tableCount (fold (bufferDoc now d) kws (getPending t al)) = tableCount (getPending t al) + int (length kws)" .
  have "tableCount (getPending t al) = (case map_of al t of None \<Rightarrow> 0 | Some wp \<Rightarrow> tableCount wp)"
    by (simp add: getPending_def newPending_def tableCount_def split: option.split)
  then show ?thesis using f by (simp add: cached_def bufferDocs_def total_update [OF d])
qed

lemma dropPending_count:
  assumes "pending_wf al"
  shows "cached (dropPending t kw al) = cached al - int (length (docsOf al t kw))"
proof (cases "map_of al t")
  case None
  then show ?thesis by (simp add: dropPending_def docsOf_def getPending_def newPending_def pendingDocs_def)
next
  case (Some wp)
  have d: "distinct (map fst al)" "distinct (map fst (ptw_InvertedIndex wp))"
    using assms Some by (auto simp: pending_wf_def table_wf_def)
  have c: "total (AList.delete kw (ptw_InvertedIndex wp)) rdCount = tableCount wp - int (length (docsOf al t kw))"
    using total_delete [OF d(2), of kw rdCount] pendingDocs_count [of wp kw] Some
    by (simp add: tableCount_def docsOf_def getPending_def)
  show ?thesis
  proof (cases "AList.delete kw (ptw_InvertedIndex wp)")
    case Nil
    then show ?thesis using c Some total_delete [OF d(1), of t tableCount] by (simp add: dropPending_def cached_def)
  next
    case (Cons a as)
    then show ?thesis using c Some total_update [OF d(1), of t _ tableCount]
      by (simp add: dropPending_def cached_def tableCount_def)
  qed
qed

subsection \<open>Counters\<close>

definition counters_ok :: "Index \<Rightarrow> bool" where
  "counters_ok idx \<longleftrightarrow> idx_pendingWritePostings idx = cached (idx_pendingWrites idx) \<and>
     idx_pendingDeletePostings idx = cached (idx_pendingDeletes idx) \<and>
     pending_wf (idx_pendingWrites idx) \<and> pending_wf (idx_pendingDeletes idx)"

lemma writeInvertedIndex_idx: "\<exists>n. fst (writeInvertedIndex tid kw ds tick (idx, bs)) = idx\<lparr>idx_keySeq := n\<rparr>"
  by (simp add: writeInvertedIndex_def encodeInvertedKey_def case_prod_unfold) blast

lemma fold_write_idx:
  "\<exists>n. fst (fold (\<lambda>docs. writeInvertedIndex tid kw docs tick) css (idx, bs)) = idx\<lparr>idx_keySeq := n\<rparr>"
proof (induction css arbitrary: idx bs)
  case Nil
  show ?case by (auto intro: exI [of _ "idx_keySeq idx"])
next
  case (Cons cs css)
  obtain n bs' where w: "writeInvertedIndex tid kw cs tick (idx, bs) = (idx\<lparr>idx_keySeq := n\<rparr>, bs')"
    using writeInvertedIndex_idx [of tid kw cs tick idx bs] by (metis prod.collapse)
  show ?case using Cons [of "idx\<lparr>idx_keySeq := n\<rparr>" bs'] by (auto simp: w)
qed

lemma removeDocuments_idx: "\<exists>n. fst (removeDocumentsFromInvertedIndex e tid kw ds mx (idx, bs)) = idx\<lparr>idx_keySeq := n\<rparr>"
proof -
  have self: "\<exists>n. idx = idx\<lparr>idx_keySeq := n\<rparr>" by (auto intro: exI [of _ "idx_keySeq idx"])
  obtain db b where bs: "bs = (db, b)" by (cases bs)
  obtain ks ids err where sc: "kvScan (encodeInvertedKeyPrefix idx tid kw) (removeScan idx kw ds mx) ([], []) db = ((ks, ids), err)"
    by (metis prod.collapse)
  show ?thesis
    using self fold_write_idx [of tid kw "en_tick e kw" "chunks (nat mx) (en_order e ids)" idx bs]
    by (cases err) (auto simp: removeDocumentsFromInvertedIndex_def bs sc case_prod_unfold)
qed

lemma flushWriteEntry_counters:
  assumes c: "counters_ok (fst s)" and d: "docsOf (idx_pendingWrites (fst s)) t kw = rd_DocIds rd"
    and r: "s' = flushWriteEntry e closing force t (kw, rd) s"
  shows "counters_ok (fst s') \<and> idx_pendingDeletePostings (fst s') = idx_pendingDeletePostings (fst s) \<and>
    idx_opts (fst s') = idx_opts (fst s) \<and>
    (\<forall>t' k. (t', k) \<noteq> (t, kw) \<longrightarrow> docsOf (idx_pendingWrites (fst s')) t' k = docsOf (idx_pendingWrites (fst s)) t' k) \<and>
    (closing \<or> force \<longrightarrow> idx_pendingWritePostings (fst s') = idx_pendingWritePostings (fst s) - rdCount rd)"
proof -
  obtain idx bs where s: "s = (idx, bs)" by (cases s)
  obtain n bs' where w: "writeInvertedIndex t kw (rd_DocIds rd) (en_nowW e div 1000) (idx, bs) = (idx\<lparr>idx_keySeq := n\<rparr>, bs')"
    using writeInvertedIndex_idx [of t kw "rd_DocIds rd" "en_nowW e div 1000" idx bs] by (metis prod.collapse)
  have "pending_wf (idx_pendingWrites idx)" using c by (simp add: counters_ok_def s)
  then show ?thesis
    using c d by (auto simp: r flushWriteEntry_def s w counters_ok_def dropPending_count dropPending_wf dropPending_docsOf rdCount_def)
qed

lemma flushDeleteEntry_counters:
  assumes c: "counters_ok (fst s)" and d: "docsOf (idx_pendingDeletes (fst s)) t kw = rd_DocIds rd"
    and r: "s' = flushDeleteEntry e closing force mx t (kw, rd) s"
  shows "counters_ok (fst s') \<and> idx_pendingWritePostings (fst s') = idx_pendingWritePostings (fst s) \<and>
    idx_opts (fst s') = idx_opts (fst s) \<and>
    (\<forall>t' k. (t', k) \<noteq> (t, kw) \<longrightarrow> docsOf (idx_pendingDeletes (fst s')) t' k = docsOf (idx_pendingDeletes (fst s)) t' k) \<and>
    (closing \<or> force \<longrightarrow> idx_pendingDeletePostings (fst s') = idx_pendingDeletePostings (fst s) - rdCount rd)"
proof -
  obtain idx bs where s: "s = (idx, bs)" by (cases s)
  obtain n bs' where w: "removeDocumentsFromInvertedIndex e t kw (rd_DocIds rd) mx (idx, bs) = (idx\<lparr>idx_keySeq := n\<rparr>, bs')"
    using removeDocuments_idx [of e t kw "rd_DocIds rd" mx idx bs] by (metis prod.collapse)
  have "pending_wf (idx_pendingDeletes idx)" using c by (simp add: counters_ok_def s)
  then show ?thesis
    using c d by (auto simp: r flushDeleteEntry_def s w counters_ok_def dropPending_count dropPending_wf dropPending_docsOf rdCount_def)
qed

abbreviation entryCount :: "(int \<times> bytes \<times> relatedDocs) list \<Rightarrow> int" where
  "entryCount es \<equiv> sum_list (map (\<lambda>(_, _, rd). rdCount rd) es)"

lemma cached_entries: "cached al = entryCount (entries al)"
proof (induction al)
  case (Cons a al)
  obtain t wp where a: "a = (t, wp)" by (cases a)
  have "total l rdCount = entryCount (map (\<lambda>(kw, rd). (ptw_TableId wp, kw, rd)) l)" for l
    by (induction l) (auto simp: total_def)
  with Cons show ?case by (simp add: cached_def entries_def a tableCount_def)
qed (simp add: cached_def entries_def)

lemma writeLoop_counters:
  assumes "counters_ok (fst s)" "\<forall>(t, k, rd)\<in>set es. docsOf (idx_pendingWrites (fst s)) t k = rd_DocIds rd"
    "distinct (map (\<lambda>(t, k, rd). (t, k)) es)" "s' = fold (\<lambda>(t, k, rd). flushWriteEntry e closing force t (k, rd)) es s"
  shows "counters_ok (fst s') \<and> idx_pendingDeletePostings (fst s') = idx_pendingDeletePostings (fst s) \<and>
    idx_opts (fst s') = idx_opts (fst s) \<and>
    (closing \<or> force \<longrightarrow> idx_pendingWritePostings (fst s') = idx_pendingWritePostings (fst s) - entryCount es)"
  using assms
proof (induction es arbitrary: s)
  case (Cons x es)
  obtain t k rd where x: "x = (t, k, rd)" by (cases x)
  define s1 where "s1 = flushWriteEntry e closing force t (k, rd) s"
  have d: "docsOf (idx_pendingWrites (fst s)) t k = rd_DocIds rd" using Cons.prems(2) by (simp add: x)
  note E = flushWriteEntry_counters [OF Cons.prems(1) d s1_def]
  have "docsOf (idx_pendingWrites (fst s1)) t' k' = rd_DocIds rd'" if "(t', k', rd') \<in> set es" for t' k' rd'
  proof -
    have n: "(t', k') \<noteq> (t, k)" using Cons.prems(3) that by (force simp: x)
    have "docsOf (idx_pendingWrites (fst s)) t' k' = rd_DocIds rd'" using Cons.prems(2) that by (auto simp: x)
    then show ?thesis using conjunct1 [OF conjunct2 [OF conjunct2 [OF conjunct2 [OF E]]]] n by simp
  qed
  then have d': "\<forall>(t, k, rd)\<in>set es. docsOf (idx_pendingWrites (fst s1)) t k = rd_DocIds rd" by blast
  have "distinct (map (\<lambda>(t, k, rd). (t, k)) es)" "s' = fold (\<lambda>(t, k, rd). flushWriteEntry e closing force t (k, rd)) es s1"
    using Cons.prems(3,4) by (simp_all add: x s1_def)
  from Cons.IH [OF conjunct1 [OF E] d' this] E show ?case by (simp add: x)
qed simp

lemma deleteLoop_counters:
  assumes "counters_ok (fst s)" "\<forall>(t, k, rd)\<in>set es. docsOf (idx_pendingDeletes (fst s)) t k = rd_DocIds rd"
    "distinct (map (\<lambda>(t, k, rd). (t, k)) es)" "s' = fold (\<lambda>(t, k, rd). flushDeleteEntry e closing force mx t (k, rd)) es s"
  shows "counters_ok (fst s') \<and> idx_pendingWritePostings (fst s') = idx_pendingWritePostings (fst s) \<and>
    idx_opts (fst s') = idx_opts (fst s) \<and>
    (closing \<or> force \<longrightarrow> idx_pendingDeletePostings (fst s') = idx_pendingDeletePostings (fst s) - entryCount es)"
  using assms
proof (induction es arbitrary: s)
  case (Cons x es)
  obtain t k rd where x: "x = (t, k, rd)" by (cases x)
  define s1 where "s1 = flushDeleteEntry e closing force mx t (k, rd) s"
  have d: "docsOf (idx_pendingDeletes (fst s)) t k = rd_DocIds rd" using Cons.prems(2) by (simp add: x)
  note E = flushDeleteEntry_counters [OF Cons.prems(1) d s1_def]
  have "docsOf (idx_pendingDeletes (fst s1)) t' k' = rd_DocIds rd'" if "(t', k', rd') \<in> set es" for t' k' rd'
  proof -
    have n: "(t', k') \<noteq> (t, k)" using Cons.prems(3) that by (force simp: x)
    have "docsOf (idx_pendingDeletes (fst s)) t' k' = rd_DocIds rd'" using Cons.prems(2) that by (auto simp: x)
    then show ?thesis using conjunct1 [OF conjunct2 [OF conjunct2 [OF conjunct2 [OF E]]]] n by simp
  qed
  then have d': "\<forall>(t, k, rd)\<in>set es. docsOf (idx_pendingDeletes (fst s1)) t k = rd_DocIds rd" by blast
  have "distinct (map (\<lambda>(t, k, rd). (t, k)) es)" "s' = fold (\<lambda>(t, k, rd). flushDeleteEntry e closing force mx t (k, rd)) es s1"
    using Cons.prems(3,4) by (simp_all add: x s1_def)
  from Cons.IH [OF conjunct1 [OF E] d' this] E show ?case by (simp add: x)
qed simp

lemma flushWrites_counters:
  assumes c: "counters_ok idx" and r: "flushPendingWrites e closing force (idx, db) = Some (idx', db')"
  shows "counters_ok idx'" "idx_pendingDeletePostings idx' = idx_pendingDeletePostings idx" "idx_opts idx' = idx_opts idx"
    "closing \<or> force \<Longrightarrow> idx_pendingWritePostings idx' = 0"
proof -
  let ?i = "idx\<lparr>idx_lastFlushWriteTime := en_nowW e\<rparr>"
  let ?es = "entries (idx_pendingWrites idx)"
  have wf: "pending_wf (idx_pendingWrites idx)" using c by (simp add: counters_ok_def)
  have "counters_ok ?i" using c by (simp add: counters_ok_def)
  then have L: "s' = fold (\<lambda>(t, k, rd). flushWriteEntry e closing force t (k, rd)) ?es (?i, bs) \<Longrightarrow>
      counters_ok (fst s') \<and> idx_pendingDeletePostings (fst s') = idx_pendingDeletePostings idx \<and> idx_opts (fst s') = idx_opts idx \<and>
      (closing \<or> force \<longrightarrow> idx_pendingWritePostings (fst s') = idx_pendingWritePostings idx - entryCount ?es)" for s' bs
    using writeLoop_counters [of "(?i, bs)" ?es s' e closing force] distinct_entries [OF wf] entries_docsOf(1) [OF wf] by auto
  have z: "idx_pendingWritePostings idx = entryCount ?es" using c by (simp add: counters_ok_def cached_entries)
  have "idx' = idx \<and> \<not> (closing \<or> force) \<or>
      (\<exists>b. idx' = fst (fold (\<lambda>(t, k, rd). flushWriteEntry e closing force t (k, rd)) ?es (?i, (db, b))))"
  proof (cases "\<not> closing \<and> \<not> force \<and> en_sinceW e - idx_lastFlushWriteTime idx < flushCooldown (idx_opts idx)")
    case False
    with r obtain b where b: "newIndexBatch db = Some b" by (auto simp: flushPendingWrites_def split: option.splits)
    obtain i1 bs where f: "fold (\<lambda>(t, k, rd). flushWriteEntry e closing force t (k, rd)) ?es (?i, (db, b)) = (i1, bs)"
      by (rule prod.exhaust)
    have "idx' = i1" using r False b f by (auto simp: flushPendingWrites_def fold_entries)
    then show ?thesis using f by (intro disjI2 exI [of _ b]) simp
  qed (use r in \<open>simp add: flushPendingWrites_def\<close>)
  then show "counters_ok idx'" "idx_pendingDeletePostings idx' = idx_pendingDeletePostings idx" "idx_opts idx' = idx_opts idx"
    "closing \<or> force \<Longrightarrow> idx_pendingWritePostings idx' = 0"
    using c L [OF refl] z by auto
qed

lemma flushDeletes_counters:
  assumes c: "counters_ok idx" and r: "flushPendingDeletes e closing force mx (idx, db) = Some (idx', db')"
  shows "counters_ok idx'" "idx_pendingWritePostings idx' = idx_pendingWritePostings idx" "idx_opts idx' = idx_opts idx"
    "closing \<or> force \<Longrightarrow> idx_pendingDeletePostings idx' = 0"
proof -
  let ?i = "idx\<lparr>idx_lastFlushDeleteTime := en_nowD e\<rparr>"
  let ?es = "entries (idx_pendingDeletes idx)"
  have wf: "pending_wf (idx_pendingDeletes idx)" using c by (simp add: counters_ok_def)
  have "counters_ok ?i" using c by (simp add: counters_ok_def)
  then have L: "s' = fold (\<lambda>(t, k, rd). flushDeleteEntry e closing force mx t (k, rd)) ?es (?i, bs) \<Longrightarrow>
      counters_ok (fst s') \<and> idx_pendingWritePostings (fst s') = idx_pendingWritePostings idx \<and> idx_opts (fst s') = idx_opts idx \<and>
      (closing \<or> force \<longrightarrow> idx_pendingDeletePostings (fst s') = idx_pendingDeletePostings idx - entryCount ?es)" for s' bs
    using deleteLoop_counters [of "(?i, bs)" ?es s' e closing force mx] distinct_entries [OF wf] entries_docsOf(1) [OF wf] by auto
  have z: "idx_pendingDeletePostings idx = entryCount ?es" using c by (simp add: counters_ok_def cached_entries)
  have "idx' = idx \<and> \<not> (closing \<or> force) \<or>
      (\<exists>b. idx' = fst (fold (\<lambda>(t, k, rd). flushDeleteEntry e closing force mx t (k, rd)) ?es (?i, (db, b))))"
  proof (cases "\<not> closing \<and> \<not> force \<and> en_sinceD e - idx_lastFlushDeleteTime idx < flushCooldown (idx_opts idx)")
    case False
    with r obtain b where b: "newIndexBatch db = Some b" by (auto simp: flushPendingDeletes_def split: option.splits)
    obtain i1 bs where f: "fold (\<lambda>(t, k, rd). flushDeleteEntry e closing force mx t (k, rd)) ?es (?i, (db, b)) = (i1, bs)"
      by (rule prod.exhaust)
    have "idx' = i1" using r False b f by (auto simp: flushPendingDeletes_def fold_entries)
    then show ?thesis using f by (intro disjI2 exI [of _ b]) simp
  qed (use r in \<open>simp add: flushPendingDeletes_def\<close>)
  then show "counters_ok idx'" "idx_pendingWritePostings idx' = idx_pendingWritePostings idx" "idx_opts idx' = idx_opts idx"
    "closing \<or> force \<Longrightarrow> idx_pendingDeletePostings idx' = 0"
    using c L [OF refl] z by auto
qed

lemma pressure_counters:
  assumes c: "counters_ok idx" and r: "maybeFlushOnPressure e (idx, db) = Some (idx', db')"
  shows "counters_ok idx'" "idx_opts idx' = idx_opts idx"
    "0 < maxPendingPostings (idx_opts idx) \<Longrightarrow>
       idx_pendingWritePostings idx' < maxPendingPostings (idx_opts idx) \<and>
       idx_pendingDeletePostings idx' < maxPendingPostings (idx_opts idx)"
proof -
  let ?mx = "maxPendingPostings (idx_opts idx)"
  have "counters_ok idx' \<and> idx_opts idx' = idx_opts idx \<and>
    (0 < ?mx \<longrightarrow> idx_pendingWritePostings idx' < ?mx \<and> idx_pendingDeletePostings idx' < ?mx)"
  proof (cases "?mx \<le> 0")
    case True
    then show ?thesis using c r by (simp add: maybeFlushOnPressure_def Let_def)
  next
    case False
    then obtain i1 d1 where 1: "(if ?mx \<le> idx_pendingWritePostings idx then flushPendingWrites e False True (idx, db) else Some (idx, db)) =
        Some (i1, d1)"
      and 2: "(if ?mx \<le> idx_pendingDeletePostings i1 then flushPendingDeletes e False True (maxInvertedIndexSize (idx_opts i1)) (i1, d1)
        else Some (i1, d1)) = Some (idx', db')"
      using r by (auto simp: maybeFlushOnPressure_def Let_def bind_eq_Some_conv cong: if_cong split del: if_split)
    have i1: "counters_ok i1" "idx_opts i1 = idx_opts idx" "idx_pendingWritePostings i1 < ?mx"
      using 1 c False flushWrites_counters [OF c, of e False True] by (auto split: if_splits)
    then show ?thesis
      using 2 False flushDeletes_counters [OF i1(1), of e False True] by (auto split: if_splits)
  qed
  then show "counters_ok idx'" "idx_opts idx' = idx_opts idx"
    "0 < ?mx \<Longrightarrow> idx_pendingWritePostings idx' < ?mx \<and> idx_pendingDeletePostings idx' < ?mx" by blast+
qed

lemma clear_counters: "counters_ok idx \<Longrightarrow> counters_ok (clearPendingWrites t idx)"
  by (auto simp: counters_ok_def clearPendingWrites_def cached_def total_delete sumPostings_total pending_wf_delete
      pending_wf_def distinct_delete delete_conv' split: option.splits)

lemma update_counters:
  assumes "counters_ok idx" "is_int64 t" "0 < sint d" "\<forall>k\<in>set kws. k \<noteq> []"
  shows "counters_ok (idx\<lparr>idx_pendingWrites := bufferDocs now t d kws (idx_pendingWrites idx),
      idx_pendingWritePostings := idx_pendingWritePostings idx + int (length kws)\<rparr>)"
    "counters_ok (idx\<lparr>idx_pendingDeletes := bufferDocs now t d kws (idx_pendingDeletes idx),
      idx_pendingDeletePostings := idx_pendingDeletePostings idx + int (length kws)\<rparr>)"
  using assms by (simp_all add: counters_ok_def bufferDocs_count bufferDocs_wf)


definition tightIndex :: Index where
  "tightIndex = exampleIndex\<lparr>idx_opts := (idx_opts exampleIndex)\<lparr>iv_MaxPendingPostings := 1\<rparr>\<rparr>"


end
