(* ===== verification/AsciiScan.thy ===== *)
theory AsciiScan
  imports GoUtf8
begin

text \<open>
  \<open>tokenizer/ascii_scan.go\<close>: the hand-written scanner for ASCII tokens, on byte positions as in the source.
  The expression \<open>reASCII\<close> it replaces (\<open>ascii_tokenizer.go\<close>) is written down in a small regular expression
  type with the leftmost-first meaning of package \<open>regexp\<close>: \<open>ends r s\<close> lists the lengths of the matches
  of \<open>r\<close> at the start of \<open>s\<close> in the order of preference, and \<open>FindAllString\<close> takes the first one at each
  position. The scanner is proved to find the same tokens.
\<close>

subsection \<open>The scanner\<close>

definition isDigit :: "char \<Rightarrow> bool" where
  "isDigit c \<longleftrightarrow> c \<ge> CHR ''0'' \<and> c \<le> CHR ''9''"

definition isAlnum :: "char \<Rightarrow> bool" where
  "isAlnum c \<longleftrightarrow>
     (c \<ge> CHR ''a'' \<and> c \<le> CHR ''z'') \<or> (c \<ge> CHR ''A'' \<and> c \<le> CHR ''Z'') \<or> (c \<ge> CHR ''0'' \<and> c \<le> CHR ''9'')"

definition isAlnumU :: "char \<Rightarrow> bool" where
  "isAlnumU c \<longleftrightarrow> isAlnum c \<or> c = CHR ''_''"

text \<open>The two loops of \<open>scanAlt1\<close>: the maximal run from \<open>e\<close>, then back to the last alphanumeric byte.\<close>

function runEnd :: "bytes \<Rightarrow> nat \<Rightarrow> nat" where
  "runEnd s e = (if e < length s then (if isAlnumU (s ! e) then runEnd s (Suc e) else e) else e)"
  by pat_completeness auto

termination
  by (relation "measure (\<lambda>(s, e). length s - e)") auto

declare runEnd.simps [simp del]

fun alt1Back :: "bytes \<Rightarrow> nat \<Rightarrow> nat \<Rightarrow> nat" where
  "alt1Back s p L = (if 3 \<le> L then (if isAlnum (s ! (p + L - 1)) then p + L else alt1Back s p (L - 1)) else p)"

declare alt1Back.simps [simp del]

definition scanAlt1 :: "bytes \<Rightarrow> nat \<Rightarrow> nat" where
  "scanAlt1 s p =
     (if length s \<le> p \<or> \<not> isAlnum (s ! p) then p
      else let e = runEnd s p; hi = e - p; hi = (if 80 < hi then 80 else hi) in alt1Back s p hi)"

text \<open>The digit run of at most eight bytes, shared by \<open>scanSegment\<close> and \<open>scanFinal\<close>.\<close>

function digitRun :: "bytes \<Rightarrow> nat \<Rightarrow> nat \<Rightarrow> nat" where
  "digitRun s q k = (if k < 8 then (if q + k < length s \<and> isDigit (s ! (q + k)) then digitRun s q (Suc k) else k) else k)"
  by pat_completeness auto

termination
  by (relation "measure (\<lambda>(s, q, k). 8 - k)") auto

declare digitRun.simps [simp del]

definition scanSegmentAlnum :: "bytes \<Rightarrow> nat \<Rightarrow> nat" where
  "scanSegmentAlnum s q =
     (if q < length s \<and> isAlnum (s ! q) then
        (if q + 2 < length s \<and> isAlnum (s ! (q + 1)) \<and> s ! (q + 2) = CHR ''.'' then 3
         else if q + 1 < length s \<and> s ! (q + 1) = CHR ''.'' then 2 else 0)
      else 0)"

definition scanSegment :: "bytes \<Rightarrow> nat \<Rightarrow> nat" where
  "scanSegment s q =
     (if q < length s \<and> isDigit (s ! q) then
        (let k = digitRun s q 0 in
         if q + k < length s \<and> s ! (q + k) = CHR ''.'' then k + 1 else scanSegmentAlnum s q)
      else scanSegmentAlnum s q)"

definition scanFinal :: "bytes \<Rightarrow> nat \<Rightarrow> nat" where
  "scanFinal s q =
     (if q < length s \<and> isDigit (s ! q) then digitRun s q 0
      else if q < length s \<and> isAlnum (s ! q) then
        (if q + 1 < length s \<and> isAlnum (s ! (q + 1)) then 2 else 1)
      else 0)"

lemma scanSegment_less: "0 < scanSegment s q \<Longrightarrow> q < length s"
  by (auto simp: scanSegment_def scanSegmentAlnum_def split: if_splits)

text \<open>The segment loop of \<open>scanAlt2\<close>: where it stops and where the last segment started, if there was one.\<close>

function segLoop :: "bytes \<Rightarrow> nat \<Rightarrow> nat option \<Rightarrow> nat \<times> nat option" where
  "segLoop s q lastSegStart =
     (if scanSegment s q = 0 then (q, lastSegStart) else segLoop s (q + scanSegment s q) (Some q))"
  by pat_completeness auto

termination
  by (relation "measure (\<lambda>(s, q, l). length s - q)") (auto dest: scanSegment_less intro: diff_less_mono2)

declare segLoop.simps [simp del]

definition scanAlt2 :: "bytes \<Rightarrow> nat \<Rightarrow> nat" where
  "scanAlt2 s p =
     (case segLoop s p None of
        (q, None) \<Rightarrow> p
      | (q, Some lastSegStart) \<Rightarrow>
          if 0 < scanFinal s q then q + scanFinal s q
          else if p < lastSegStart \<and> 0 < scanFinal s lastSegStart then lastSegStart + scanFinal s lastSegStart
          else p)"

function findASCIITokensFrom :: "bytes list \<Rightarrow> bytes \<Rightarrow> nat \<Rightarrow> bytes list" where
  "findASCIITokensFrom dst s p =
     (if p < length s then
        (if p < scanAlt1 s p
         then findASCIITokensFrom (dst @ [take (scanAlt1 s p - p) (drop p s)]) s (scanAlt1 s p)
         else if p < scanAlt2 s p
         then findASCIITokensFrom (dst @ [take (scanAlt2 s p - p) (drop p s)]) s (scanAlt2 s p)
         else findASCIITokensFrom dst s (Suc p))
      else dst)"
  by pat_completeness auto

termination
  by (relation "measure (\<lambda>(d, s, p). length s - p)") auto

declare findASCIITokensFrom.simps [simp del]

definition findASCIITokensInto :: "bytes list \<Rightarrow> bytes \<Rightarrow> bytes list" where
  "findASCIITokensInto dst s = findASCIITokensFrom dst s 0"

function findASCIISpansFrom :: "(nat \<times> nat) list \<Rightarrow> bytes \<Rightarrow> nat \<Rightarrow> (nat \<times> nat) list" where
  "findASCIISpansFrom dst s p =
     (if p < length s then
        (if p < scanAlt1 s p then findASCIISpansFrom (dst @ [(p, scanAlt1 s p)]) s (scanAlt1 s p)
         else if p < scanAlt2 s p then findASCIISpansFrom (dst @ [(p, scanAlt2 s p)]) s (scanAlt2 s p)
         else findASCIISpansFrom dst s (Suc p))
      else dst)"
  by pat_completeness auto

termination
  by (relation "measure (\<lambda>(d, s, p). length s - p)") auto

declare findASCIISpansFrom.simps [simp del]

definition findASCIITokenSpansInto :: "(nat \<times> nat) list \<Rightarrow> bytes \<Rightarrow> (nat \<times> nat) list" where
  "findASCIITokenSpansInto dst s = findASCIISpansFrom dst s 0"

subsection \<open>Regular expressions, leftmost-first\<close>

datatype regex = Cls "char \<Rightarrow> bool" | Seq regex regex | Alt regex regex | Rep regex nat nat | Plus regex

text \<open>Greedy repetition, at least \<open>m\<close> and at most \<open>n\<close> times: one more round is preferred to stopping.\<close>

fun repEnds :: "(bytes \<Rightarrow> nat list) \<Rightarrow> nat \<Rightarrow> nat \<Rightarrow> bytes \<Rightarrow> nat list" where
  "repEnds f m 0 s = (if m = 0 then [0] else [])"
| "repEnds f m (Suc n) s =
     concat (map (\<lambda>k. map ((+) k) (repEnds f (m - 1) n (drop k s))) (f s)) @ (if m = 0 then [0] else [])"

text \<open>The body of every \<open>Plus\<close> of this development consumes a byte, so \<open>length s\<close> rounds are all there can be.\<close>

fun ends :: "regex \<Rightarrow> bytes \<Rightarrow> nat list" where
  "ends (Cls P) s = (case s of [] \<Rightarrow> [] | c # _ \<Rightarrow> if P c then [1] else [])"
| "ends (Seq a b) s = concat (map (\<lambda>k. map ((+) k) (ends b (drop k s))) (ends a s))"
| "ends (Alt a b) s = ends a s @ ends b s"
| "ends (Rep r m n) s = repEnds (ends r) m n s"
| "ends (Plus r) s = repEnds (ends r) 1 (length s) s"

definition reASCII :: regex where
  "reASCII =
     Alt (Seq (Cls isAlnum) (Seq (Rep (Cls isAlnumU) 1 78) (Cls isAlnum)))
         (Seq (Plus (Alt (Seq (Rep (Cls isDigit) 1 8) (Cls (\<lambda>c. c = CHR ''.'')))
                         (Seq (Rep (Cls isAlnum) 1 2) (Cls (\<lambda>c. c = CHR ''.'')))))
              (Alt (Rep (Cls isDigit) 1 8) (Rep (Cls isAlnum) 1 2)))"

text \<open>\<open>FindAllString(s, -1)\<close> for an expression that does not match the empty string.\<close>

function FindAllFrom :: "regex \<Rightarrow> bytes \<Rightarrow> nat \<Rightarrow> bytes list" where
  "FindAllFrom r s p =
     (if p < length s then
        (case ends r (drop p s) of
           [] \<Rightarrow> FindAllFrom r s (Suc p)
         | e # _ \<Rightarrow> if e = 0 then FindAllFrom r s (Suc p) else take e (drop p s) # FindAllFrom r s (p + e))
      else [])"
  by pat_completeness auto

termination
  by (relation "measure (\<lambda>(r, s, p). length s - p)") auto

declare FindAllFrom.simps [simp del]

definition FindAllString :: "regex \<Rightarrow> bytes \<Rightarrow> bytes list" where
  "FindAllString r s = FindAllFrom r s 0"

subsection \<open>The scanner's loops\<close>

lemma runEnd_eq: "e \<le> length s \<Longrightarrow> runEnd s e = e + length (takeWhile isAlnumU (drop e s))"
proof (induction s e rule: runEnd.induct)
  case (1 s e)
  then show ?case by (subst runEnd.simps) (auto simp: Cons_nth_drop_Suc [symmetric])
qed

lemma digitRun_eq:
  "k \<le> 8 \<Longrightarrow> q + k \<le> length s \<Longrightarrow> digitRun s q k = min 8 (k + length (takeWhile isDigit (drop (q + k) s)))"
proof (induction s q k rule: digitRun.induct)
  case (1 s q k)
  show ?case
  proof (cases "k < 8 \<and> q + k < length s \<and> isDigit (s ! (q + k))")
    case True
    with 1 show ?thesis by (subst digitRun.simps) (simp add: Cons_nth_drop_Suc [symmetric])
  next
    case False
    with 1(2,3) show ?thesis
      by (subst digitRun.simps) (cases "q + k < length s", auto simp: Cons_nth_drop_Suc [symmetric])
  qed
qed

primrec firstOf :: "nat list \<Rightarrow> nat option" where
  "firstOf [] = None"
| "firstOf (x # _) = Some x"

lemma firstOf_append: "firstOf (xs @ ys) = (case firstOf xs of None \<Rightarrow> firstOf ys | Some x \<Rightarrow> Some x)"
  by (cases xs) auto

lemma firstOf_map: "firstOf (map f xs) = map_option f (firstOf xs)"
  by (cases xs) auto

lemma firstOf_None: "firstOf xs = None \<longleftrightarrow> xs = []"
  by (cases xs) auto

lemma firstOf_concat_same: "xs \<noteq> [] \<Longrightarrow> set xs \<subseteq> {v} \<Longrightarrow> firstOf (concat (map g xs)) = firstOf (g v)"
proof (induction xs)
  case (Cons x xs)
  then show ?case by (cases "xs = []") (auto simp: firstOf_append split: option.splits)
qed simp

lemma alt1Back_eq:
  "alt1Back s p L = (case firstOf (filter (\<lambda>L. isAlnum (s ! (p + L - 1))) (rev [3..<Suc L])) of None \<Rightarrow> p | Some L \<Rightarrow> p + L)"
proof (induction s p L rule: alt1Back.induct)
  case (1 s p L)
  show ?case
  proof (cases "3 \<le> L")
    case True
    then obtain k where "L = Suc k" by (cases L) auto
    with 1 True show ?thesis by (subst alt1Back.simps) auto
  qed (subst alt1Back.simps, simp)
qed

lemma repEnds_Cls:
  "repEnds (ends (Cls P)) m n s = rev [m..<Suc (min n (length (takeWhile P s)))]"
proof (induction n arbitrary: m s)
  case (Suc n)
  show ?case
  proof (cases s)
    case (Cons c t)
    have u: "map Suc (rev [m - 1..<Suc k]) @ (if m = 0 then [0] else []) = rev [m..<Suc (Suc k)]" for k
    proof -
      have "map Suc (rev [m - 1..<Suc k]) = rev [Suc (m - 1)..<Suc (Suc k)]"
        by (simp add: map_Suc_upt del: upt_Suc flip: rev_map)
      moreover have "[0..<Suc (Suc k)] = 0 # [1..<Suc (Suc k)]" by (simp add: upt_conv_Cons del: upt_Suc)
      ultimately show ?thesis by (cases m) (simp_all del: upt_Suc)
    qed
    show ?thesis
    proof (cases "P c")
      case True
      then have e: "ends (Cls P) s = [1]" by (simp add: Cons)
      have "repEnds (ends (Cls P)) m (Suc n) s = map Suc (repEnds (ends (Cls P)) (m - 1) n t) @ (if m = 0 then [0] else [])"
        unfolding repEnds.simps e by (simp add: Cons plus_1_eq_Suc [unfolded One_nat_def])
      also have "\<dots> = rev [m..<Suc (Suc (min n (length (takeWhile P t))))]" unfolding Suc by (rule u)
      finally show ?thesis using True unfolding Cons by (simp del: upt_Suc repEnds.simps ends.simps)
    qed (simp add: Cons)
  qed simp
qed simp

lemma takeWhile_nth_iff:
  assumes "k \<le> length (takeWhile P s)" "\<not> P x"
  shows "k < length s \<and> s ! k = x \<longleftrightarrow> k = length (takeWhile P s) \<and> k < length s \<and> s ! k = x"
  using assms by (metis nat_less_le nth_mem set_takeWhileD takeWhile_nth)

subsection \<open>First alternative\<close>

lemma ends_Cls_drop: "ends (Cls P) (drop k s) = (if k < length s \<and> P (s ! k) then [1] else [])"
  by (cases "k < length s") (auto simp: Cons_nth_drop_Suc [symmetric])

lemma concat_map_single: "concat (map (\<lambda>k. map ((+) k) (if c k then [1] else [])) xs) = map Suc (filter c xs)"
  by (induction xs) auto

lemma ends_then_Cls:
  "concat (map (\<lambda>k. map ((+) k) (ends (Cls P) (drop k s))) xs) = map Suc (filter (\<lambda>k. k < length s \<and> P (s ! k)) xs)"
  by (simp only: ends_Cls_drop concat_map_single)

lemma ends_alt1:
  "ends (Seq (Cls isAlnum) (Seq (Rep (Cls isAlnumU) 1 78) (Cls isAlnum))) (c # t) =
    (if isAlnum c
     then map (\<lambda>k. k + 2) (filter (\<lambda>k. k < length t \<and> isAlnum (t ! k)) (rev [1..<Suc (min 78 (length (takeWhile isAlnumU t)))]))
     else [])"
  unfolding ends.simps(2) [of "Rep (Cls isAlnumU) 1 78"] ends.simps(4) repEnds_Cls ends_then_Cls ends.simps(2) [of "Cls isAlnum"]
  by (simp add: o_def del: upt_Suc)

lemma scanAlt1_eq:
  "(case firstOf (ends (Seq (Cls isAlnum) (Seq (Rep (Cls isAlnumU) 1 78) (Cls isAlnum))) (drop p s)) of
      None \<Rightarrow> p | Some e \<Rightarrow> p + e) = scanAlt1 s p"
proof (cases "p < length s \<and> isAlnum (s ! p)")
  case True
  define w where "w = length (takeWhile isAlnumU (drop (Suc p) s))"
  define ok where "ok L \<longleftrightarrow> p + L - 1 < length s \<and> isAlnum (s ! (p + L - 1))" for L
  have lw: "Suc p + w \<le> length s"
    using length_takeWhile_le [of isAlnumU "drop (Suc p) s"] True unfolding w_def length_drop by linarith
  have run: "runEnd s p = p + Suc w"
    using True by (simp add: runEnd_eq Cons_nth_drop_Suc [symmetric] w_def isAlnumU_def)
  define hi where "hi = (if 80 < Suc w then 80 else Suc w)"
  have "map (\<lambda>k. k + 2) [1..<n] = [3..<n + 2]" for n by (induction n) auto
  then have "map (\<lambda>k. k + 2) (rev [1..<Suc (min 78 w)]) = rev [3..<Suc (min 78 w) + 2]"
    by (simp only: rev_map [symmetric])
  then have m: "map (\<lambda>k. k + 2) (filter (\<lambda>k. ok (k + 2)) (rev [1..<Suc (min 78 w)])) = filter ok (rev [3..<Suc (min 78 w) + 2])"
    using filter_map [of ok "\<lambda>k. k + 2" "rev [1..<Suc (min 78 w)]"] by (simp add: o_def del: upt_Suc)
  have "filter ok (rev [3..<Suc (min 78 w) + 2]) = filter ok (rev [3..<Suc hi])"
  proof (cases "1 \<le> w \<and> w \<le> 78")
    case True
    have "\<not> ok (w + 2)"
      using nth_length_takeWhile [of isAlnumU "drop (Suc p) s"] by (auto simp: ok_def isAlnumU_def simp flip: w_def)
    moreover have "[3..<Suc (min 78 w) + 2] = [3..<Suc hi] @ [w + 2]" using True by (simp add: hi_def)
    ultimately show ?thesis by simp
  next
    case False
    then have "w = 0 \<or> Suc (min 78 w) + 2 = Suc hi" by (auto simp: hi_def)
    then show ?thesis
    proof
      assume "w = 0"
      then show ?thesis by (simp add: hi_def)
    qed simp
  qed
  also have "\<dots> = filter (\<lambda>L. isAlnum (s ! (p + L - 1))) (rev [3..<Suc hi])"
    using lw by (intro filter_cong) (auto simp: ok_def hi_def split: if_splits)
  finally have "firstOf (map (\<lambda>k. k + 2) (filter (\<lambda>k. ok (k + 2)) (rev [1..<Suc (min 78 w)]))) =
      firstOf (filter (\<lambda>L. isAlnum (s ! (p + L - 1))) (rev [3..<Suc hi]))" unfolding m by simp
  moreover have "scanAlt1 s p = alt1Back s p hi"
    using True by (simp add: scanAlt1_def run hi_def Let_def)
  moreover have "ends (Seq (Cls isAlnum) (Seq (Rep (Cls isAlnumU) 1 78) (Cls isAlnum))) (drop p s) =
      map (\<lambda>k. k + 2) (filter (\<lambda>k. ok (k + 2)) (rev [1..<Suc (min 78 w)]))"
    unfolding Cons_nth_drop_Suc [OF conjunct1 [OF True], symmetric] ends_alt1
    using True by (simp add: ok_def w_def less_diff_conv add.commute del: upt_Suc)
  ultimately show ?thesis by (simp only: alt1Back_eq)
next
  case False
  then show ?thesis by (cases "p < length s") (auto simp: ends_alt1 scanAlt1_def Cons_nth_drop_Suc [symmetric])
qed

subsection \<open>Second alternative\<close>

abbreviation dotRe :: regex where
  "dotRe \<equiv> Cls (\<lambda>c. c = CHR ''.'')"

abbreviation segRe :: regex where
  "segRe \<equiv> Alt (Seq (Rep (Cls isDigit) 1 8) dotRe) (Seq (Rep (Cls isAlnum) 1 2) dotRe)"

abbreviation finRe :: regex where
  "finRe \<equiv> Alt (Rep (Cls isDigit) 1 8) (Rep (Cls isAlnum) 1 2)"

lemma digit_alnum: "isDigit c \<Longrightarrow> isAlnum c"
  by (simp add: isDigit_def isAlnum_def)

lemma dot_class [simp]: "\<not> isDigit CHR ''.''" "\<not> isAlnum CHR ''.''" "\<not> isAlnumU CHR ''.''"
  by (simp_all add: isDigit_def isAlnum_def isAlnumU_def less_eq_char_def)

lemma filter_eq_upt: "filter (\<lambda>k. k = w \<and> R) (rev [a..<b]) = (if R \<and> a \<le> w \<and> w < b then [w] else [])"
  by (induction b) (auto simp: le_Suc_eq)

lemma ends_run_dot:
  assumes "\<not> P CHR ''.''"
  shows "ends (Seq (Rep (Cls P) 1 n) dotRe) s =
    (let w = length (takeWhile P s) in if 1 \<le> w \<and> w \<le> n \<and> w < length s \<and> s ! w = CHR ''.'' then [Suc w] else [])"
proof -
  define w where "w = length (takeWhile P s)"
  have "filter (\<lambda>k. k < length s \<and> s ! k = CHR ''.'') (rev [1..<Suc (min n w)]) =
      filter (\<lambda>k. k = w \<and> w < length s \<and> s ! w = CHR ''.'') (rev [1..<Suc (min n w)])"
  proof (rule filter_cong [OF refl])
    fix k assume "k \<in> set (rev [1..<Suc (min n w)])"
    then have "k \<le> length (takeWhile P s)" by (auto simp: w_def)
    from takeWhile_nth_iff [OF this assms]
    show "(k < length s \<and> s ! k = CHR ''.'') \<longleftrightarrow> (k = w \<and> w < length s \<and> s ! w = CHR ''.'')" by (auto simp: w_def)
  qed
  then show ?thesis
    unfolding ends.simps(2,4) repEnds_Cls ends_then_Cls w_def [symmetric] Let_def filter_eq_upt by auto
qed

lemma scanSegmentAlnum_eq:
  "scanSegmentAlnum s q =
    (let t = drop q s; w = length (takeWhile isAlnum t) in if 1 \<le> w \<and> w \<le> 2 \<and> w < length t \<and> t ! w = CHR ''.'' then Suc w else 0)"
proof -
  have n: "k < length (drop q s) \<longleftrightarrow> q + k < length s" "k < length (drop q s) \<Longrightarrow> s ! (q + k) = drop q s ! k" for k by auto
  consider "drop q s = []" | a where "drop q s = [a]" | a b where "drop q s = [a, b]" | a b c r where "drop q s = a # b # c # r"
    by (metis list.exhaust)
  then show ?thesis
    using n [of 0] n [of 1] n [of 2] by cases (auto simp: scanSegmentAlnum_def Let_def)
qed

lemma takeWhile_digit_alnum:
  assumes "w = length (takeWhile isDigit t)" "w < length t" "t ! w = CHR ''.''"
  shows "length (takeWhile isAlnum t) = w"
  using assms
proof (induction t arbitrary: w)
  case (Cons a t)
  then show ?case by (cases "isDigit a") (auto simp: digit_alnum)
qed simp

lemma ends_segRe:
  shows "set (ends segRe (drop q s)) \<subseteq> {scanSegment s q}"
    and "ends segRe (drop q s) = [] \<longleftrightarrow> scanSegment s q = 0"
proof -
  let ?t = "drop q s"
  define d where "d = length (takeWhile isDigit ?t)"
  have e: "ends segRe ?t =
      (if 1 \<le> d \<and> d \<le> 8 \<and> d < length ?t \<and> ?t ! d = CHR ''.'' then [Suc d] else []) @
      (if scanSegmentAlnum s q = 0 then [] else [scanSegmentAlnum s q])"
    by (simp only: ends.simps(3) ends_run_dot [where P = isDigit] ends_run_dot [where P = isAlnum] dot_class not_False_eq_True
        Let_def d_def scanSegmentAlnum_eq) auto
  have nth: "k < length ?t \<Longrightarrow> s ! (q + k) = ?t ! k" for k by simp
  have d1: "1 \<le> d \<longleftrightarrow> q < length s \<and> isDigit (s ! q)"
    by (cases "q < length s") (auto simp: d_def Cons_nth_drop_Suc [symmetric])
  have run: "1 \<le> d \<Longrightarrow> digitRun s q 0 = min 8 d" using d1 digitRun_eq [of 0 q s] by (simp add: d_def)
  have "scanSegment s q = (if 1 \<le> d \<and> d \<le> 8 \<and> d < length ?t \<and> ?t ! d = CHR ''.'' then Suc d else scanSegmentAlnum s q)"
  proof (cases "8 < d")
    case True
    then have "isDigit (?t ! 8)" using set_takeWhileD [of "?t ! 8" isDigit ?t] unfolding d_def
      by (metis nth_mem takeWhile_nth)
    moreover from True have "8 < length ?t" using length_takeWhile_le [of isDigit ?t] unfolding d_def by linarith
    ultimately have "s ! (q + 8) \<noteq> CHR ''.''" using nth [of 8] by auto
    with True d1 run show ?thesis by (auto simp: scanSegment_def Let_def)
  next
    case False
    with d1 run nth [of d] show ?thesis by (auto simp: scanSegment_def Let_def)
  qed
  moreover have "scanSegmentAlnum s q = Suc d"
    if "scanSegmentAlnum s q \<noteq> 0" "d < length ?t" "?t ! d = CHR ''.''"
    using that takeWhile_digit_alnum [OF d_def] by (auto simp: scanSegmentAlnum_eq Let_def split: if_splits)
  ultimately show "set (ends segRe ?t) \<subseteq> {scanSegment s q}" "ends segRe ?t = [] \<longleftrightarrow> scanSegment s q = 0"
    unfolding e by auto
qed

lemma firstOf_rev_upt: "firstOf (rev [1..<Suc m]) = (if m = 0 then None else Some m)"
  by (cases m) auto

lemma ends_finRe: "firstOf (ends finRe (drop q s)) = (if scanFinal s q = 0 then None else Some (scanFinal s q))"
proof -
  let ?t = "drop q s"
  define d where "d = length (takeWhile isDigit ?t)"
  define a where "a = length (takeWhile isAlnum ?t)"
  have e: "ends finRe ?t = rev [1..<Suc (min 8 d)] @ rev [1..<Suc (min 2 a)]"
    by (simp only: ends.simps(3,4) repEnds_Cls d_def a_def)
  have d1: "d \<noteq> 0 \<longleftrightarrow> q < length s \<and> isDigit (s ! q)"
    by (cases "q < length s") (auto simp: d_def Cons_nth_drop_Suc [symmetric])
  have run: "d \<noteq> 0 \<Longrightarrow> digitRun s q 0 = min 8 d" using d1 digitRun_eq [of 0 q s] by (simp add: d_def)
  have n: "k < length (drop q s) \<longleftrightarrow> q + k < length s" "k < length (drop q s) \<Longrightarrow> s ! (q + k) = drop q s ! k" for k by auto
  have a1: "min 2 a = (if q < length s \<and> isAlnum (s ! q) then (if q + 1 < length s \<and> isAlnum (s ! (q + 1)) then 2 else 1) else 0)"
  proof -
    consider "drop q s = []" | x where "drop q s = [x]" | x y r where "drop q s = x # y # r" by (metis list.exhaust)
    then show ?thesis using n [of 0] n [of 1] by cases (auto simp: a_def)
  qed
  show ?thesis
    unfolding e firstOf_append firstOf_rev_upt a1 using d1 run by (auto simp: scanFinal_def)
qed

text \<open>Greedy repetition of a deterministic \<open>f\<close> followed by \<open>g\<close>: the first match.\<close>

definition repThen :: "(bytes \<Rightarrow> nat list) \<Rightarrow> (bytes \<Rightarrow> nat list) \<Rightarrow> nat \<Rightarrow> nat \<Rightarrow> bytes \<Rightarrow> nat option" where
  "repThen f g m n t = firstOf (concat (map (\<lambda>k. map ((+) k) (g (drop k t))) (repEnds f m n t)))"

lemma ends_shift:
  "concat (map (\<lambda>k. map ((+) k) (g (drop k t))) (map ((+) v) xs)) =
    map ((+) v) (concat (map (\<lambda>k. map ((+) k) (g (drop k (drop v t)))) xs))"
  by (induction xs) (simp_all add: add.assoc add.commute [of v] o_def)

lemma map_plus_0: "map ((+) (0::nat)) xs = xs"
  by (induction xs) auto

lemma repThen_0: "repThen f g m 0 t = (if m = 0 then firstOf (g t) else None)"
  by (simp add: repThen_def map_plus_0)

lemma repThen_Suc:
  assumes f: "set (f t) \<subseteq> {v}" "f t = [] \<longleftrightarrow> v = 0"
  shows "repThen f g m (Suc n) t =
    (let stop = (if m = 0 then firstOf (g t) else None) in
     if v = 0 then stop else case repThen f g (m - 1) n (drop v t) of Some e \<Rightarrow> Some (v + e) | None \<Rightarrow> stop)"
proof -
  let ?h = "\<lambda>k. map ((+) k) (g (drop k t))"
  let ?R = "\<lambda>k. map ((+) k) (repEnds f (m - 1) n (drop k t))"
  have c: "concat (map ?h (concat (map ?R xs))) = concat (map (\<lambda>k. concat (map ?h (?R k))) xs)" for xs
    by (induction xs) simp_all
  have z: "firstOf (concat (map ?h (if m = 0 then [0] else []))) = (if m = 0 then firstOf (g t) else None)"
    by (simp add: map_plus_0)
  have s: "repThen f g m (Suc n) t =
      (case firstOf (concat (map (\<lambda>k. concat (map ?h (?R k))) (f t))) of
         None \<Rightarrow> (if m = 0 then firstOf (g t) else None) | Some e \<Rightarrow> Some e)"
    unfolding repThen_def repEnds.simps(2) map_append concat_append firstOf_append c z ..
  show ?thesis
  proof (cases "v = 0")
    case False
    with f(2) have "f t \<noteq> []" by simp
    from firstOf_concat_same [OF this f(1)]
    have "firstOf (concat (map (\<lambda>k. concat (map ?h (?R k))) (f t))) = map_option ((+) v) (repThen f g (m - 1) n (drop v t))"
      unfolding repThen_def by (simp add: ends_shift firstOf_map del: map_map)
    with s False show ?thesis by (simp add: Let_def split: option.splits)
  qed (use f s in simp)
qed

lemma segment_final: "0 < scanSegment s q \<Longrightarrow> 0 < scanFinal s q"
proof -
  assume a: "0 < scanSegment s q"
  then have l: "q < length s" by (rule scanSegment_less)
  have "isDigit (s ! q) \<Longrightarrow> 0 < digitRun s q 0"
    using l digitRun_eq [of 0 q s] by (simp add: Cons_nth_drop_Suc [symmetric])
  then show ?thesis using a by (auto simp: scanSegment_def scanSegmentAlnum_def scanFinal_def split: if_splits)
qed

lemma segLoop_repThen:
  assumes "length s - q \<le> n" "segLoop s q l = (q', l')"
  shows "repThen (ends segRe) (ends finRe) 0 n (drop q s) =
      (if 0 < scanFinal s q' then Some (q' - q + scanFinal s q') else if q' = q then None
       else Some (the l' - q + scanFinal s (the l'))) \<and> q \<le> q' \<and>
    (if q' = q then l' = l else \<exists>x. l' = Some x \<and> q \<le> x \<and> 0 < scanFinal s x)"
  using assms
proof (induction s q l arbitrary: n rule: segLoop.induct)
  case (1 s q l)
  note step = repThen_Suc [where f = "ends segRe" and t = "drop q s" and m = 0, OF ends_segRe]
  show ?case
  proof (cases "scanSegment s q = 0")
    case True
    then have "q' = q" "l' = l" using 1(3) by (simp_all add: segLoop.simps)
    with True show ?thesis
      by (cases n) (simp_all only: repThen_0 step ends_finRe, auto)
  next
    case False
    then obtain k where n: "n = Suc k" "length s - (q + scanSegment s q) \<le> k"
      using 1(2) scanSegment_less [of s q] by (cases n) auto
    have "segLoop s (q + scanSegment s q) (Some q) = (q', l')" using 1(3) False by (simp add: segLoop.simps [of s q])
    from 1(1) [OF False n(2) this] False segment_final [of s q]
    show ?thesis unfolding n(1) step drop_drop ends_finRe
      by (auto simp: Let_def add.commute simp del: ends.simps split: if_splits)
  qed
qed

lemma scanAlt2_eq:
  "(case firstOf (ends (Seq (Plus segRe) finRe) (drop p s)) of None \<Rightarrow> p | Some e \<Rightarrow> p + e) = scanAlt2 s p"
proof -
  have r: "firstOf (ends (Seq (Plus segRe) finRe) (drop p s)) =
      repThen (ends segRe) (ends finRe) 1 (length (drop p s)) (drop p s)"
    by (simp only: ends.simps(2) [of "Plus segRe"] ends.simps(5) repThen_def)
  show ?thesis
  proof (cases "scanSegment s p = 0")
    case True
    then have "repThen (ends segRe) (ends finRe) 1 n (drop p s) = None" for n
      by (cases n) (simp_all only: repThen_0 repThen_Suc [where f = "ends segRe" and t = "drop p s", OF ends_segRe], simp_all)
    with True show ?thesis unfolding r by (simp add: scanAlt2_def segLoop.simps)
  next
    case False
    let ?v = "scanSegment s p"
    obtain k where n: "length (drop p s) = Suc k" "length s - (p + ?v) \<le> k"
      using False scanSegment_less [of s p] by (cases "length (drop p s)") auto
    obtain q' l' where l: "segLoop s (p + ?v) (Some p) = (q', l')" by fastforce
    then have sl: "segLoop s p None = (q', l')" using False by (simp add: segLoop.simps [of s p])
    have "firstOf (ends (Seq (Plus segRe) finRe) (drop p s)) =
        map_option ((+) ?v) (repThen (ends segRe) (ends finRe) 0 k (drop (p + ?v) s))"
      unfolding r n(1) repThen_Suc [where f = "ends segRe" and t = "drop p s", OF ends_segRe] using False
      by (simp add: Let_def add.commute del: ends.simps split: option.splits)
    with segLoop_repThen [OF n(2) l] False show ?thesis
      unfolding scanAlt2_def sl by (auto simp del: ends.simps split: if_splits)
  qed
qed

lemma alt1_nonempty:
  "firstOf (ends (Seq (Cls isAlnum) (Seq (Rep (Cls isAlnumU) 1 78) (Cls isAlnum))) t) \<noteq> Some 0"
proof (cases t)
  case (Cons c r)
  show ?thesis unfolding Cons ends_alt1 by (simp add: firstOf_map del: upt_Suc)
qed simp

lemma scanFirst:
  "(case firstOf (ends reASCII (drop p s)) of None \<Rightarrow> p | Some e \<Rightarrow> p + e) =
    (if p < scanAlt1 s p then scanAlt1 s p else scanAlt2 s p)"
  unfolding scanAlt1_eq [symmetric] scanAlt2_eq [symmetric] reASCII_def
    ends.simps(3) [of "Seq (Cls isAlnum) (Seq (Rep (Cls isAlnumU) 1 78) (Cls isAlnum))"] firstOf_append
  using alt1_nonempty [of "drop p s"] by (auto simp del: ends.simps split: option.split)

lemma FindAllFrom_step:
  "FindAllFrom r s p =
    (let e = (case firstOf (ends r (drop p s)) of None \<Rightarrow> p | Some e \<Rightarrow> p + e) in
     if p < length s then (if p < e then take (e - p) (drop p s) # FindAllFrom r s e else FindAllFrom r s (Suc p)) else [])"
  by (subst FindAllFrom.simps) (simp split: list.splits del: ends.simps)

lemma findASCIITokensFrom_eq: "findASCIITokensFrom dst s p = dst @ FindAllFrom reASCII s p"
proof (induction dst s p rule: findASCIITokensFrom.induct)
  case (1 dst s p)
  then show ?case
    by (subst findASCIITokensFrom.simps, subst FindAllFrom_step) (simp add: scanFirst Let_def)
qed

lemma findASCIISpansFrom_eq:
  "findASCIITokensFrom (map (\<lambda>(a, b). take (b - a) (drop a s)) d) s p = map (\<lambda>(a, b). take (b - a) (drop a s)) (findASCIISpansFrom d s p)"
proof (induction d s p rule: findASCIISpansFrom.induct)
  case (1 d s p)
  then show ?case
    by (subst findASCIITokensFrom.simps, subst findASCIISpansFrom.simps) simp
qed

subsection \<open>The shape of a token\<close>

text \<open>Where the bytes of a match come from, what it starts and what it finishes with.\<close>

primrec classes :: "regex \<Rightarrow> char set" where
  "classes (Cls P) = Collect P"
| "classes (Seq a b) = classes a \<union> classes b"
| "classes (Alt a b) = classes a \<union> classes b"
| "classes (Rep r m n) = classes r"
| "classes (Plus r) = classes r"

definition starts :: "(char \<Rightarrow> bool) \<Rightarrow> regex \<Rightarrow> bool" where
  "starts P r \<longleftrightarrow> (\<forall>t. \<forall>e\<in>set (ends r t). 0 < e \<and> P (hd t))"

definition finishes :: "(char \<Rightarrow> bool) \<Rightarrow> regex \<Rightarrow> bool" where
  "finishes P r \<longleftrightarrow> (\<forall>t. \<forall>e\<in>set (ends r t). 0 < e \<and> P (t ! (e - 1)))"

lemma repEnds_within:
  assumes "\<And>t k. k \<in> set (f t) \<Longrightarrow> k \<le> length t \<and> set (take k t) \<subseteq> A" "e \<in> set (repEnds f m n t)"
  shows "e \<le> length t \<and> set (take e t) \<subseteq> A"
  using assms(2)
proof (induction n arbitrary: m t e)
  case (Suc n)
  then consider "e = 0" | k j where "k \<in> set (f t)" "j \<in> set (repEnds f (m - 1) n (drop k t))" "e = k + j"
    by (auto split: if_splits)
  then show ?case
  proof cases
    case 2
    with Suc.IH [OF 2(2)] assms(1) [OF 2(1)] show ?thesis by (auto simp: take_add)
  qed simp
qed (simp split: if_splits)

lemma ends_within: "e \<in> set (ends r t) \<Longrightarrow> e \<le> length t \<and> set (take e t) \<subseteq> classes r"
proof (induction r arbitrary: e t)
  case (Cls P)
  then show ?case by (cases t) (auto split: if_splits)
next
  case (Seq a b)
  then obtain k j where kj: "k \<in> set (ends a t)" "j \<in> set (ends b (drop k t))" "e = k + j" by auto
  from Seq.IH(1) [OF kj(1)] Seq.IH(2) [OF kj(2)] kj(3) show ?case by (auto simp: take_add)
next
  case (Alt a b)
  then show ?case by (auto; blast)
next
  case (Rep r m n)
  then show ?case using repEnds_within [of "ends r" "classes r" e m n t] by simp
next
  case (Plus r)
  then show ?case using repEnds_within [of "ends r" "classes r" e 1 "length t" t] by simp
qed

lemma repEnds_starts:
  assumes "starts P r" "0 < m" "e \<in> set (repEnds (ends r) m n t)"
  shows "0 < e \<and> P (hd t)"
  using assms by (cases n) (auto simp: starts_def)

lemma repEnds_finishes:
  assumes "finishes P r" "e \<in> set (repEnds (ends r) m n t)"
  shows "(m = 0 \<and> e = 0) \<or> (0 < e \<and> P (t ! (e - 1)))"
  using assms(2)
proof (induction n arbitrary: m t e)
  case (Suc n)
  then consider "e = 0" "m = 0" | k j where "k \<in> set (ends r t)" "j \<in> set (repEnds (ends r) (m - 1) n (drop k t))" "e = k + j"
    by (auto split: if_splits)
  then show ?case
  proof cases
    case 2
    with assms(1) have k: "0 < k" "P (t ! (k - 1))" by (auto simp: finishes_def)
    moreover have "k \<le> length t" using ends_within [OF 2(1)] by simp
    ultimately show ?thesis using Suc.IH [OF 2(2)] 2(3) by (auto simp: nth_drop)
  qed simp
qed (simp split: if_splits)

lemma starts_Cls: "starts P (Cls P)"
  by (auto simp: starts_def split: list.splits if_splits)

lemma starts_Seq: "starts P a \<Longrightarrow> starts P (Seq a b)"
  by (auto simp: starts_def)

lemma starts_Alt: "starts P a \<Longrightarrow> starts P b \<Longrightarrow> starts P (Alt a b)"
  by (auto simp: starts_def)

lemma starts_Rep: "starts P a \<Longrightarrow> starts P (Rep a 1 n)" and starts_Plus: "starts P a \<Longrightarrow> starts P (Plus a)"
  unfolding starts_def [of P "Rep a 1 n"] starts_def [of P "Plus a"] ends.simps
  by (blast dest: repEnds_starts [OF _ zero_less_one])+

lemma finishes_Cls: "finishes P (Cls P)"
  by (auto simp: finishes_def split: list.splits if_splits)

lemma finishes_Alt: "finishes P a \<Longrightarrow> finishes P b \<Longrightarrow> finishes P (Alt a b)"
  by (auto simp: finishes_def)

lemma finishes_Rep: "finishes P a \<Longrightarrow> finishes P (Rep a 1 n)"
  unfolding finishes_def [of P "Rep a 1 n"] ends.simps by (metis repEnds_finishes zero_neq_one)

lemma finishes_Seq: "finishes P b \<Longrightarrow> finishes P (Seq a b)"
  unfolding finishes_def
proof (intro allI ballI)
  fix t e assume b: "\<forall>t. \<forall>e\<in>set (ends b t). 0 < e \<and> P (t ! (e - 1))" and "e \<in> set (ends (Seq a b) t)"
  then obtain k j where kj: "k \<in> set (ends a t)" "j \<in> set (ends b (drop k t))" "e = k + j" by auto
  from ends_within [OF kj(1)] have "k \<le> length t" by simp
  with b kj(2,3) show "0 < e \<and> P (t ! (e - 1))" by fastforce
qed

primrec minLen :: "regex \<Rightarrow> nat" where
  "minLen (Cls P) = 1"
| "minLen (Seq a b) = minLen a + minLen b"
| "minLen (Alt a b) = min (minLen a) (minLen b)"
| "minLen (Rep r m n) = m * minLen r"
| "minLen (Plus r) = minLen r"

lemma repEnds_min:
  assumes "\<And>t k. k \<in> set (f t) \<Longrightarrow> x \<le> k" "e \<in> set (repEnds f m n t)"
  shows "m * x \<le> e"
  using assms(2)
proof (induction n arbitrary: m t e)
  case (Suc n)
  then consider "m = 0" | k j where "k \<in> set (f t)" "j \<in> set (repEnds f (m - 1) n (drop k t))" "e = k + j"
    by (auto split: if_splits)
  then show ?case
  proof cases
    case 2
    with Suc.IH [OF 2(2)] assms(1) [OF 2(1)] show ?thesis by (cases m) auto
  qed simp
qed (simp split: if_splits)

lemma ends_min: "e \<in> set (ends r t) \<Longrightarrow> minLen r \<le> e"
proof (induction r arbitrary: e t)
  case (Cls P)
  then show ?case by (cases t) (auto split: if_splits)
next
  case (Seq a b)
  then obtain k j where "k \<in> set (ends a t)" "j \<in> set (ends b (drop k t))" "e = k + j" by auto
  with Seq.IH show ?case by (simp add: add_mono)
next
  case (Alt a b)
  then show ?case by (auto intro: min.coboundedI1 min.coboundedI2)
next
  case (Rep r m n)
  then show ?case using repEnds_min [of "ends r" "minLen r" e m n t] by simp
next
  case (Plus r)
  then show ?case using repEnds_min [of "ends r" "minLen r" e 1 "length t" t] by simp
qed

lemma class_mono: "starts isDigit r \<Longrightarrow> starts isAlnum r" "finishes isDigit r \<Longrightarrow> finishes isAlnum r"
  by (auto simp: starts_def finishes_def digit_alnum)

lemma token_match:
  assumes "e \<in> set (ends reASCII t)"
  shows "3 \<le> e \<and> e \<le> length t \<and> isAlnum (hd t) \<and> isAlnum (t ! (e - 1)) \<and> (\<forall>c\<in>set (take e t). isAlnumU c \<or> c = CHR ''.'')"
proof -
  have "starts isAlnum reASCII" unfolding reASCII_def
    by (intro starts_Alt starts_Seq starts_Plus starts_Rep starts_Cls class_mono(1) [OF starts_Seq [OF starts_Rep]])
  then have "isAlnum (hd t)" using assms unfolding starts_def by blast
  moreover have "finishes isAlnum reASCII" unfolding reASCII_def
    by (intro finishes_Alt finishes_Seq finishes_Rep finishes_Cls class_mono(2) [OF finishes_Rep])
  then have "isAlnum (t ! (e - 1))" using assms unfolding finishes_def by blast
  moreover have "classes reASCII \<subseteq> {c. isAlnumU c \<or> c = CHR ''.''}"
    unfolding reASCII_def by (auto simp: isAlnumU_def digit_alnum)
  then have "\<forall>c\<in>set (take e t). isAlnumU c \<or> c = CHR ''.''" using ends_within [OF assms] by blast
  moreover have "minLen reASCII = 3" by (simp add: reASCII_def)
  ultimately show ?thesis using ends_within [OF assms] ends_min [OF assms] by metis
qed

lemma token_shape:
  assumes "w \<in> set (FindAllString reASCII s)"
  shows "3 \<le> length w" "isAlnum (hd w)" "isAlnum (last w)" "\<forall>c\<in>set w. isAlnumU c \<or> c = CHR ''.''"
proof -
  have "3 \<le> length w \<and> isAlnum (hd w) \<and> isAlnum (last w) \<and> (\<forall>c\<in>set w. isAlnumU c \<or> c = CHR ''.'')" if "w \<in> set (FindAllFrom r s p)" "r = reASCII" for r p
    using that
  proof (induction r s p rule: FindAllFrom.induct)
    case (1 r s p)
    consider e where "e \<in> set (ends reASCII (drop p s))" "w = take e (drop p s)"
      | e rest where "ends r (drop p s) = e # rest" "e \<noteq> 0" "w \<in> set (FindAllFrom r s (p + e))" "p < length s"
      | "w \<in> set (FindAllFrom r s (Suc p))" "ends r (drop p s) = [] \<or> hd (ends r (drop p s)) = 0" "p < length s"
      using 1(4,5) by (subst (asm) FindAllFrom.simps) (auto split: if_splits list.splits)
    then show ?case
    proof cases
      case 1
      with token_match [OF 1(1)] show ?thesis by (auto simp: last_conv_nth hd_conv_nth)
    next
      case 2
      with "1.IH" "1.prems" show ?thesis by auto
    next
      case 3
      with "1.IH" "1.prems" show ?thesis by (cases "ends r (drop p s)") auto
    qed
  qed
  from this [of reASCII 0] assms
  show "3 \<le> length w" "isAlnum (hd w)" "isAlnum (last w)" "\<forall>c\<in>set w. isAlnumU c \<or> c = CHR ''.''" by (auto simp: FindAllString_def)
qed

text \<open>
  (C6) The hand-written scanner finds exactly the tokens of the regular expression \<open>reASCII\<close> it replaces, in
  the same order, for every input: it is equal to \<open>FindAllString\<close> under the leftmost-first matching of package
  \<open>regexp\<close>. The variant that returns spans returns the spans of the same tokens.
\<close>

theorem scanner_equals_reASCII:
  "findASCIITokensInto dst s = dst @ FindAllString reASCII s \<and>
   map (\<lambda>(a, b). take (b - a) (drop a s)) (findASCIITokenSpansInto [] s) = FindAllString reASCII s"
  using findASCIISpansFrom_eq [of s "[]" 0] findASCIITokensFrom_eq [of _ s 0]
  by (simp add: findASCIITokensInto_def findASCIITokenSpansInto_def FindAllString_def)

end
