(* ===== verification/Tokens.thy ===== *)
theory Tokens
  imports AsciiScan
begin

text \<open>
  What the tokenizers of package \<open>tokenizer\<close> share. Retrieval is a scan over the keywords that start with a
  query word, so a set of keywords is as good as another when the same words are prefixes of its members;
  \<open>dropPrefixRedundant\<close> uses that. The interface \<open>Tokenizer\<close> is the locale \<open>tokenizer\<close>: what the index and the
  search side promise each other.
\<close>

subsection \<open>Sets of words\<close>

text \<open>A Go map used as a set of strings and read out into a slice that \<open>sort.Strings\<close> sorts: the iteration
  order of the map does not matter.\<close>

definition sortedKeys :: "bytes list \<Rightarrow> bytes list" where
  "sortedKeys ws = sort (remdups ws)"

lemma set_sortedKeys [simp]: "set (sortedKeys ws) = set ws"
  by (simp add: sortedKeys_def)

lemma sorted_sortedKeys: "sorted_wrt (<) (sortedKeys ws)"
  by (simp add: sortedKeys_def strict_sorted_iff)

text \<open>The words not seen before are appended, in the order of their first occurrence.\<close>

definition push :: "bytes \<Rightarrow> bytes list \<Rightarrow> bytes list" where
  "push word result = (if word \<in> set result then result else result @ [word])"

lemma set_push [simp]: "set (push w r) = insert w (set r)"
  by (auto simp: push_def)

lemma distinct_push: "distinct r \<Longrightarrow> distinct (push w r)"
  by (simp add: push_def)

lemma fold_push: "set (fold push ws r) = set ws \<union> set r" "distinct r \<Longrightarrow> distinct (fold push ws r)"
  by (induction ws arbitrary: r) (auto simp: distinct_push)

subsection \<open>Dropping redundant prefixes\<close>

fun dropRedundant :: "bytes list \<Rightarrow> bytes list" where
  "dropRedundant (x # y # rest) = (if HasPrefix y x then dropRedundant (y # rest) else x # dropRedundant (y # rest))"
| "dropRedundant xs = xs"

definition dropPrefixRedundant :: "bytes list \<Rightarrow> bytes list" where
  "dropPrefixRedundant keys = (if length keys < 2 then keys else dropRedundant keys)"

lemma dropPrefixRedundant_eq: "dropPrefixRedundant xs = dropRedundant xs"
  by (cases xs rule: dropRedundant.cases) (simp_all add: dropPrefixRedundant_def)

lemma dropRedundant_subset: "set (dropRedundant xs) \<subseteq> set xs"
  by (induction xs rule: dropRedundant.induct) auto

lemma dropRedundant_sorted: "sorted_wrt (<) xs \<Longrightarrow> sorted_wrt (<) (dropRedundant xs)"
proof (induction xs rule: dropRedundant.induct)
  case (1 x y rest)
  then show ?case using dropRedundant_subset [of "y # rest"] by auto
qed auto

lemma dropRedundant_covers: "w \<in> set xs \<Longrightarrow> \<exists>k\<in>set (dropRedundant xs). prefix w k"
proof (induction xs arbitrary: w rule: dropRedundant.induct)
  case (1 x y rest)
  show ?case
  proof (cases "w = x")
    case True
    show ?thesis
    proof (cases "prefix x y")
      case p: True
      then obtain k where "k \<in> set (dropRedundant (y # rest))" "prefix y k" using "1.IH"(1) [of y] by auto
      with p True show ?thesis using prefix_order.trans by fastforce
    qed (use True in auto)
  next
    case False
    then show ?thesis using 1 by (cases "prefix x y") auto
  qed
qed auto

lemma dropRedundant_prefix_iff: "(\<exists>k\<in>set (dropRedundant xs). prefix q k) \<longleftrightarrow> (\<exists>w\<in>set xs. prefix q w)"
  using dropRedundant_subset dropRedundant_covers by (meson prefix_order.trans subsetD)

text \<open>In the byte order the extensions of a word follow it directly.\<close>

lemma prefix_between:
  fixes x y z :: bytes
  assumes "prefix x z" "x \<le> y" "y \<le> z"
  shows "prefix x y"
  using assms
proof (induction x arbitrary: y z)
  case (Cons a x)
  then obtain z' where z: "z = a # z'" "prefix x z'" by (cases z) auto
  from Cons.prems obtain b y' where y: "y = b # y'" by (cases y) auto
  have "b = a" using Cons.prems(2,3) unfolding y z(1) by (auto simp: Cons_le_Cons)
  with Cons.prems Cons.IH [OF z(2), of y'] show ?case by (auto simp: y z(1))
qed simp

lemma dropRedundant_antichain:
  assumes "sorted_wrt (<) xs" "v \<in> set (dropRedundant xs)" "w \<in> set (dropRedundant xs)" "prefix v w"
  shows "v = w"
  using assms
proof (induction xs rule: dropRedundant.induct)
  case (1 x y rest)
  show ?case
  proof (cases "prefix x y")
    case True
    then show ?thesis using 1 by auto
  next
    case False
    let ?d = "dropRedundant (y # rest)"
    have s: "sorted_wrt (<) (y # rest)" "\<forall>u\<in>set (y # rest). x < u" using "1.prems"(1) by auto
    have d: "set ?d \<subseteq> set (y # rest)" by (rule dropRedundant_subset)
    have up: "y \<le> u" if "u \<in> set ?d" for u
    proof -
      have "u = y \<or> u \<in> set rest" using that d by auto
      with s(1) show ?thesis by (auto intro: less_imp_le)
    qed
    have "\<not> prefix x u" if "u \<in> set ?d" for u
      using prefix_between [of x u y] False up [OF that] s(2) by (auto intro: less_imp_le)
    moreover have "\<not> prefix u x" if "u \<in> set ?d" for u
    proof
      assume "prefix u x"
      then have "u \<le> x" by (rule prefix_le)
      moreover have "x < u" using d s(2) that by blast
      ultimately show False by simp
    qed
    ultimately show ?thesis using 1 False s(1) by auto
  qed
qed auto

subsection \<open>The interface\<close>

text \<open>\<open>fits w\<close> is the tokenizer's limit on the words it indexes. A tokenizer never panics (\<open>None\<close>), returns strictly
  sorted keywords for the index, and every fitting word it searches for in a text it would also find there.\<close>

definition hits :: "unicode \<Rightarrow> bytes \<Rightarrow> bytes list \<Rightarrow> bool" where
  "hits uc w ks \<longleftrightarrow> (\<exists>k\<in>set ks. prefix (ToLower uc w) k)"

locale tokenizer =
  fixes uc :: unicode
    and forIndex :: "bytes \<Rightarrow> bytes list option"
    and forSearch :: "bytes \<Rightarrow> bool \<Rightarrow> (bytes list \<times> bytes list) option"
    and fits :: "bytes \<Rightarrow> bool"
  assumes index_total: "\<exists>ks. forIndex s = Some ks \<and> sorted_wrt (<) ks"
    and search_total: "\<exists>ws wildcards. forSearch s exactMatching = Some (ws, wildcards) \<and> distinct ws"
    and search_hits: "forIndex s = Some ks \<Longrightarrow> forSearch s True = Some (ws, wildcards) \<Longrightarrow> w \<in> set ws \<Longrightarrow> fits w \<Longrightarrow>
      hits uc w ks"
begin

lemma index_distinct: "forIndex s = Some ks \<Longrightarrow> distinct ks"
  using index_total [of s] by (auto simp: strict_sorted_iff)

lemma search_found:
  "\<exists>ks ws wildcards. forIndex s = Some ks \<and> forSearch s True = Some (ws, wildcards) \<and> (\<forall>w\<in>set ws. fits w \<longrightarrow> hits uc w ks)"
proof -
  obtain ks where "forIndex s = Some ks" using index_total [of s] by blast
  moreover obtain ws wc where "forSearch s True = Some (ws, wc)" using search_total [of s True] by blast
  ultimately show ?thesis using search_hits by blast
qed

end

end
