(* ===== verification/AsciiTok.thy ===== *)
theory AsciiTok
  imports Tokens
begin

text \<open>
  \<open>tokenizer/camel_snake_split.go\<close> and \<open>tokenizer/ascii_tokenizer.go\<close>: the sub-words of an identifier and the
  tokenizer for ASCII text built on the scanner. A Go panic is \<open>None\<close>.
\<close>

subsection \<open>Sub-words\<close>

text \<open>\<open>strings.Trim(s, ".-_")\<close> and the three separator bytes, as runes.\<close>

definition isSep :: "nat \<Rightarrow> bool" where
  "isSep r \<longleftrightarrow> r = 45 \<or> r = 95 \<or> r = 46"

definition trimSeps :: "bytes \<Rightarrow> bytes" where
  "trimSeps s = rev (dropWhile (\<lambda>c. isSep (byteN c)) (rev (dropWhile (\<lambda>c. isSep (byteN c)) s)))"

text \<open>The sub-word that starts at \<open>i\<close>, empty when there is none.\<close>

definition subWord :: "unicode \<Rightarrow> bytes \<Rightarrow> nat \<Rightarrow> nat \<Rightarrow> nat \<Rightarrow> bytes" where
  "subWord uc s i lastR r =
     (if isSep lastR \<and> \<not> isSep r then drop i s
      else if IsUpper uc r \<and> \<not> IsUpper uc lastR then drop i s
      else if IsUpper uc r \<and> IsUpper uc lastR then
        (if i + 1 < length s \<and> IsLower uc (byteN (s ! (i + 1))) then drop i s else [])
      else [])"

fun splitLoop :: "unicode \<Rightarrow> bytes \<Rightarrow> nat \<Rightarrow> bytes list \<Rightarrow> (nat \<times> nat) list \<Rightarrow> bytes list" where
  "splitLoop uc s lastR dst [] = dst"
| "splitLoop uc s lastR dst ((i, r) # rest) =
     (if i = 0 then splitLoop uc s lastR (dst @ [s]) rest
      else let sub = subWord uc s i lastR r in
        if length sub = 0 then splitLoop uc s r dst rest
        else if length sub < 3 then dst
        else splitLoop uc s r (dst @ [sub]) rest)"

definition camelSnakeSplitInto :: "unicode \<Rightarrow> bytes list \<Rightarrow> bytes \<Rightarrow> bytes list" where
  "camelSnakeSplitInto uc dst s =
     (let s = trimSeps s in
      if length s = 0 then dst else splitLoop uc s (byteN (s ! 0)) dst (rangeFrom 0 s))"

definition CamelSnakeSplit :: "unicode \<Rightarrow> bytes \<Rightarrow> bytes list" where
  "CamelSnakeSplit uc s = camelSnakeSplitInto uc [] s"

subsection \<open>The tokenizer\<close>

definition pushWord :: "unicode \<Rightarrow> bytes \<Rightarrow> bytes list \<Rightarrow> bytes list" where
  "pushWord uc word uniqueWords =
     (if length word < 3 \<or> 80 < length word then uniqueWords else push (ToLower uc word) uniqueWords)"

definition ASCII_TokenizeForIndex :: "unicode \<Rightarrow> bytes \<Rightarrow> bytes list" where
  "ASCII_TokenizeForIndex uc str =
     (let words = findASCIITokensInto [] str;
          uniqueWords = fold (\<lambda>word u. fold (pushWord uc) (camelSnakeSplitInto uc [] word) u) words [];
          result = sortedKeys uniqueWords
      in if result = [] then result else dropRedundant result)"

text \<open>One span of the pattern; \<open>r[0]\<close> of an empty slice panics.\<close>

definition searchSpan ::
  "unicode \<Rightarrow> bytes \<Rightarrow> nat \<times> nat \<Rightarrow> bytes list \<times> bytes list \<Rightarrow> (bytes list \<times> bytes list) option" where
  "searchSpan uc s pos acc =
     (case (pos, acc) of ((start, stop), (result, wildcards)) \<Rightarrow>
        if 0 < start \<and> s ! (start - 1) = CHR ''*'' then
          (case CamelSnakeSplit uc (take (stop - start) (drop start s)) of
             [] \<Rightarrow> None
           | [r0] \<Rightarrow> Some (result, wildcards @ [r0])
           | r0 # r1 # _ \<Rightarrow> Some (push r1 result, wildcards @ [r0]))
        else Some (push (take (stop - start) (drop start s)) result, wildcards))"

fun searchSpans ::
  "unicode \<Rightarrow> bytes \<Rightarrow> (nat \<times> nat) list \<Rightarrow> bytes list \<times> bytes list \<Rightarrow> (bytes list \<times> bytes list) option" where
  "searchSpans uc s [] acc = Some acc"
| "searchSpans uc s (pos # poses) acc = Option.bind (searchSpan uc s pos acc) (searchSpans uc s poses)"

definition ASCII_TokenizeForSearch :: "unicode \<Rightarrow> bytes \<Rightarrow> bool \<Rightarrow> (bytes list \<times> bytes list) option" where
  "ASCII_TokenizeForSearch uc s exactMatching =
     (if exactMatching then Some (fold push (findASCIITokensInto [] s) [], [])
      else searchSpans uc s (findASCIITokenSpansInto [] s) ([], []))"

subsection \<open>Sub-words of an ASCII identifier\<close>

text \<open>A sub-word starts after a separator, at an upper-case letter after another byte, and at the last
  upper-case letter of a run that a lower-case letter follows.\<close>

definition asciiUpper :: "char \<Rightarrow> bool" where "asciiUpper c \<longleftrightarrow> 65 \<le> byteN c \<and> byteN c \<le> 90"
definition asciiLower :: "char \<Rightarrow> bool" where "asciiLower c \<longleftrightarrow> 97 \<le> byteN c \<and> byteN c \<le> 122"

definition boundary :: "bytes \<Rightarrow> nat \<Rightarrow> bool" where
  "boundary t i \<longleftrightarrow>
     isSep (byteN (t ! (i - 1))) \<and> \<not> isSep (byteN (t ! i)) \<or>
     asciiUpper (t ! i) \<and> (asciiUpper (t ! (i - 1)) \<longrightarrow> i + 1 < length t \<and> asciiLower (t ! (i + 1)))"

lemma ascii_nth: "isASCII s \<Longrightarrow> i < length s \<Longrightarrow> byteN (s ! i) < 128"
  by (simp add: isASCII_def list_all_length)

lemma ascii_case: "byteN c < 128 \<Longrightarrow> IsUpper uc (byteN c) = asciiUpper c" "byteN c < 128 \<Longrightarrow> IsLower uc (byteN c) = asciiLower c"
  by (simp_all add: IsUpper_def IsLower_def asciiUpper_def asciiLower_def)

lemma subWord_ascii:
  assumes "isASCII t" "0 < i" "i < length t"
  shows "subWord uc t i (byteN (t ! (i - 1))) (byteN (t ! i)) = (if boundary t i then drop i t else [])"
proof -
  have l: "byteN (t ! (i - 1)) < 128" "byteN (t ! i) < 128" using assms by (simp_all add: ascii_nth)
  have n: "i + 1 < length t \<Longrightarrow> IsLower uc (byteN (t ! (i + 1))) = asciiLower (t ! (i + 1))"
    by (rule ascii_case(2) [OF ascii_nth [OF assms(1)]])
  show ?thesis unfolding subWord_def boundary_def ascii_case(1) [OF l(1)] ascii_case(1) [OF l(2)] using n by auto
qed

lemma splitLoop_ascii:
  assumes "isASCII t" "0 < i" "i \<le> length t"
  shows "splitLoop uc t (byteN (t ! (i - 1))) dst (rangeFrom i (drop i t)) =
    dst @ map (\<lambda>j. drop j t) (filter (\<lambda>j. boundary t j \<and> 3 \<le> length t - j) [i..<length t])"
  using assms(2,3)
proof (induction "length t - i" arbitrary: i dst)
  case 0
  then show ?case by (simp add: rangeFrom.simps)
next
  case (Suc n)
  then have i: "i < length t" "n = length t - Suc i" "0 < Suc i" "Suc i \<le> length t" by auto
  have r: "rangeFrom i (drop i t) = (i, byteN (t ! i)) # rangeFrom (Suc i) (drop (Suc i) t)"
    using i(1) ascii_nth [OF assms(1) i(1)] by (subst rangeFrom.simps) (simp add: Cons_nth_drop_Suc [symmetric])
  have u: "[i..<length t] = i # [Suc i..<length t]" using i(1) by (simp add: upt_conv_Cons)
  have short: "filter (\<lambda>j. boundary t j \<and> 3 \<le> length t - j) [Suc i..<length t] = []" if "length t - i < 3"
    using that by (auto simp: filter_empty_conv)
  note IH = Suc.hyps(1) [OF i(2,3,4)]
  show ?case
    unfolding r u using Suc.prems(1) i(1) IH [of dst] IH [of "dst @ [drop i t]"] short
    by (simp add: subWord_ascii [OF assms(1) Suc.prems(1) i(1)] Let_def del: One_nat_def)
qed

lemma set_trimSeps: "set (trimSeps s) \<subseteq> set s"
proof -
  have "set (dropWhile P xs) \<subseteq> set xs" for P and xs :: bytes by (induction xs) auto
  from this [of _ "rev (dropWhile (\<lambda>c. isSep (byteN c)) s)"] this [of _ s] show ?thesis
    unfolding trimSeps_def set_rev by blast
qed

lemma isASCII_trimSeps: "isASCII s \<Longrightarrow> isASCII (trimSeps s)"
  using set_trimSeps [of s] by (auto simp: isASCII_def list_all_iff)

lemma camelSnakeSplitInto_ascii:
  assumes "isASCII s"
  shows "camelSnakeSplitInto uc dst s =
    (let t = trimSeps s in
     if t = [] then dst
     else dst @ t # map (\<lambda>j. drop j t) (filter (\<lambda>j. boundary t j \<and> 3 \<le> length t - j) [1..<length t]))"
proof (cases "trimSeps s = []")
  case False
  define t where "t = trimSeps s"
  have a: "isASCII t" "t \<noteq> []" using isASCII_trimSeps [OF assms] False by (simp_all add: t_def)
  then have r: "rangeFrom 0 t = (0, byteN (t ! 0)) # rangeFrom 1 (drop 1 t)"
    using ascii_nth [OF a(1), of 0] by (subst rangeFrom.simps) (cases t, simp_all)
  show ?thesis
    using splitLoop_ascii [OF a(1), of 1 uc "dst @ [t]"] a(2)
    by (simp add: camelSnakeSplitInto_def Let_def r Suc_le_eq flip: t_def del: upt_Suc)
qed (simp add: camelSnakeSplitInto_def)

subsection \<open>Keywords of a text\<close>

lemma alnum_ascii: "isAlnumU c \<or> c = CHR ''.'' \<Longrightarrow> byteN c < 128"
  by (auto simp: isAlnumU_def isAlnum_def less_eq_char_def)

lemma alnum_not_sep: "isAlnum c \<Longrightarrow> \<not> isSep (byteN c)"
  by (auto simp: isAlnum_def isSep_def less_eq_char_def)

lemma token_ascii: "w \<in> set (FindAllString reASCII s) \<Longrightarrow> isASCII w"
  using token_shape(4) [of w s] alnum_ascii by (auto simp: isASCII_def list_all_iff)

lemma trimSeps_token:
  assumes "w \<in> set (FindAllString reASCII s)"
  shows "trimSeps w = w"
proof -
  note t = token_shape [OF assms]
  have "w \<noteq> []" using t(1) by auto
  moreover have "dropWhile P xs = xs" if "xs \<noteq> []" "\<not> P (hd xs)" for P and xs :: bytes
    using that by (cases xs) auto
  ultimately show ?thesis using t(2,3) by (simp add: trimSeps_def alnum_not_sep hd_rev)
qed

lemma CamelSnakeSplit_token:
  assumes "w \<in> set (FindAllString reASCII s)"
  shows "CamelSnakeSplit uc w = w # map (\<lambda>j. drop j w) (filter (\<lambda>j. boundary w j \<and> 3 \<le> length w - j) [1..<length w])"
  using assms token_shape(1) [OF assms]
  by (auto simp: CamelSnakeSplit_def camelSnakeSplitInto_ascii token_ascii trimSeps_token Let_def simp del: upt_Suc)

lemma set_pushWord [simp]:
  "set (pushWord uc w u) = set u \<union> (if 3 \<le> length w \<and> length w \<le> 80 then {ToLower uc w} else {})"
  by (auto simp: pushWord_def)

lemma set_fold_pushWord:
  "set (fold (pushWord uc) ws u) = set u \<union> {ToLower uc w | w. w \<in> set ws \<and> 3 \<le> length w \<and> length w \<le> 80}"
  by (induction ws arbitrary: u) auto

text \<open>The keywords before redundant ones are dropped.\<close>

definition asciiWords :: "unicode \<Rightarrow> bytes \<Rightarrow> bytes set" where
  "asciiWords uc str =
     {ToLower uc v | v. (\<exists>w\<in>set (FindAllString reASCII str). v \<in> set (CamelSnakeSplit uc w)) \<and> 3 \<le> length v \<and> length v \<le> 80}"

lemma findASCIITokensInto_Nil: "findASCIITokensInto [] s = FindAllString reASCII s"
  using findASCIITokensFrom_eq [of "[]" s 0] by (simp add: findASCIITokensInto_def FindAllString_def)

lemma set_uniqueWords:
  "set (fold (\<lambda>word u. fold (pushWord uc) (camelSnakeSplitInto uc [] word) u) ws u) =
    set u \<union> {ToLower uc v | v. (\<exists>w\<in>set ws. v \<in> set (CamelSnakeSplit uc w)) \<and> 3 \<le> length v \<and> length v \<le> 80}"
  by (induction ws arbitrary: u) (auto simp: set_fold_pushWord CamelSnakeSplit_def)

lemma ASCII_index_dropRedundant:
  "\<exists>result. ASCII_TokenizeForIndex uc str = dropRedundant result \<and> sorted_wrt (<) result \<and> set result = asciiWords uc str"
proof -
  let ?u = "fold (\<lambda>word u. fold (pushWord uc) (camelSnakeSplitInto uc [] word) u) (FindAllString reASCII str) []"
  have "ASCII_TokenizeForIndex uc str = dropRedundant (sortedKeys ?u)"
    by (simp add: ASCII_TokenizeForIndex_def findASCIITokensInto_Nil Let_def)
  moreover have "set (sortedKeys ?u) = asciiWords uc str" by (simp add: set_uniqueWords asciiWords_def)
  ultimately show ?thesis using sorted_sortedKeys by blast
qed

lemma ASCII_index_prefix:
  "(\<exists>k\<in>set (ASCII_TokenizeForIndex uc str). prefix q k) \<longleftrightarrow> (\<exists>k\<in>asciiWords uc str. prefix q k)"
proof -
  obtain result where r: "ASCII_TokenizeForIndex uc str = dropRedundant result" "set result = asciiWords uc str"
    using ASCII_index_dropRedundant [of uc str] by blast
  show ?thesis unfolding r(1) dropRedundant_prefix_iff r(2) ..
qed

lemma spans_tokens: "map (\<lambda>(a, b). take (b - a) (drop a s)) (findASCIITokenSpansInto [] s) = FindAllString reASCII s"
  using findASCIISpansFrom_eq [of s "[]" 0] findASCIITokensFrom_eq [of "[]" s 0]
  by (simp add: findASCIITokenSpansInto_def FindAllString_def)

lemma searchSpan_total:
  assumes "take (b - a) (drop a s) \<in> set (FindAllString reASCII s)" "distinct (fst acc)"
  shows "\<exists>acc'. searchSpan uc s (a, b) acc = Some acc' \<and> distinct (fst acc')"
  using CamelSnakeSplit_token [OF assms(1), of uc] assms(2)
  by (cases acc) (auto simp: searchSpan_def distinct_push split: list.splits)

lemma searchSpans_total:
  assumes "\<forall>(a, b)\<in>set poses. take (b - a) (drop a s) \<in> set (FindAllString reASCII s)" "distinct (fst acc)"
  shows "\<exists>acc'. searchSpans uc s poses acc = Some acc' \<and> distinct (fst acc')"
  using assms
proof (induction poses arbitrary: acc)
  case (Cons pos poses)
  obtain a b where p: "pos = (a, b)" by fastforce
  then obtain acc' where "searchSpan uc s pos acc = Some acc'" "distinct (fst acc')"
    using searchSpan_total [of b a s acc uc] Cons.prems by auto
  then show ?case using Cons.IH [of acc'] Cons.prems(1) by simp
qed simp

lemma ASCII_search_total: "\<exists>ws wildcards. ASCII_TokenizeForSearch uc s ex = Some (ws, wildcards) \<and> distinct ws"
proof (cases ex)
  case False
  have "\<forall>(a, b)\<in>set (findASCIITokenSpansInto [] s). take (b - a) (drop a s) \<in> set (FindAllString reASCII s)"
    using spans_tokens [of s] by (metis (no_types, lifting) case_prodI2 image_eqI list.set_map old.prod.case)
  from searchSpans_total [OF this, of "([], [])" uc] False show ?thesis
    by (auto simp: ASCII_TokenizeForSearch_def)
qed (simp add: ASCII_TokenizeForSearch_def fold_push)

interpretation ascii: tokenizer uc "\<lambda>s. Some (ASCII_TokenizeForIndex uc s)" "ASCII_TokenizeForSearch uc" "\<lambda>w. length w \<le> 80"
  for uc :: unicode
proof
  fix s ks ex ws wc w
  show "\<exists>ks. Some (ASCII_TokenizeForIndex uc s) = Some ks \<and> sorted_wrt (<) ks"
    using ASCII_index_dropRedundant [of uc s] dropRedundant_sorted by auto
  show "\<exists>ws wc. ASCII_TokenizeForSearch uc s ex = Some (ws, wc) \<and> distinct ws" by (rule ASCII_search_total)
  assume ks: "Some (ASCII_TokenizeForIndex uc s) = Some ks"
  assume a: "ASCII_TokenizeForSearch uc s True = Some (ws, wc)" "w \<in> set ws" "length w \<le> 80"
  then have w: "w \<in> set (FindAllString reASCII s)"
    by (auto simp: ASCII_TokenizeForSearch_def fold_push findASCIITokensInto_Nil)
  then have "w \<in> set (CamelSnakeSplit uc w)" by (simp add: CamelSnakeSplit_token)
  with w a(3) token_shape(1) [OF w] have "ToLower uc w \<in> asciiWords uc s" unfolding asciiWords_def by blast
  then have "hits uc w (ASCII_TokenizeForIndex uc s)" unfolding hits_def ASCII_index_prefix by blast
  with ks show "hits uc w ks" by simp
qed

lemma subword_ascii:
  assumes "w \<in> set (FindAllString reASCII s)" "v \<in> set (CamelSnakeSplit uc w)"
  shows "isASCII v" "suffix v w"
proof -
  show "suffix v w" using assms(2) unfolding CamelSnakeSplit_token [OF assms(1)] by (auto simp: suffix_drop)
  then show "isASCII v" using token_ascii [OF assms(1)] by (auto simp: isASCII_def suffix_def)
qed

lemma ASCII_key_length:
  assumes "k \<in> set (ASCII_TokenizeForIndex uc str)"
  shows "3 \<le> length k \<and> length k \<le> 80"
proof -
  have "k \<in> asciiWords uc str" using ASCII_index_dropRedundant [of uc str] dropRedundant_subset assms by fastforce
  then obtain v w where v: "k = ToLower uc v" "w \<in> set (FindAllString reASCII str)" "v \<in> set (CamelSnakeSplit uc w)"
      "3 \<le> length v" "length v \<le> 80"
    unfolding asciiWords_def by blast
  then show ?thesis using subword_ascii(1) [OF v(2,3)] by (simp add: ToLower_def)
qed

text \<open>A dotted token longer than 80 bytes is a search word that no stored keyword can answer.\<close>

lemma long_token_lost:
  assumes "w \<in> set (FindAllString reASCII str)" "80 < length w"
  shows "\<not> hits uc w (ASCII_TokenizeForIndex uc str')"
proof
  assume "hits uc w (ASCII_TokenizeForIndex uc str')"
  then obtain k where k: "k \<in> set (ASCII_TokenizeForIndex uc str')" "prefix (ToLower uc w) k" by (auto simp: hits_def)
  have "length (ToLower uc w) = length w" using token_ascii [OF assms(1)] by (simp add: ToLower_def)
  with prefix_length_le [OF k(2)] ASCII_key_length [OF k(1)] assms(2) show False by simp
qed

subsection \<open>Properties\<close>

text \<open>
  (C29) The sub-words of an ASCII identifier: after trimming separators, \<open>camelSnakeSplitInto\<close> appends the
  identifier and its suffix at every boundary (after a separator, at a new upper-case letter, at the last letter
  of an upper-case run before a lower-case one), as long as the suffix has three bytes. The early \<open>break\<close>
  loses nothing.
\<close>

theorem camelSnakeSplit_boundaries:
  assumes "isASCII s"
  shows "camelSnakeSplitInto uc dst s =
    (let t = trimSeps s in
     if t = [] then dst
     else dst @ t # map (\<lambda>j. drop j t) (filter (\<lambda>j. boundary t j \<and> 3 \<le> length t - j) [1..<length t]))"
  using assms by (rule camelSnakeSplitInto_ascii)

theorem camelSnakeSplit_boundaries_witness:
  "isASCII ''_getHTTPBody'' \<and>
   (\<forall>uc. camelSnakeSplitInto uc [] ''_getHTTPBody'' = [''getHTTPBody'', ''HTTPBody'', ''Body''])"
proof -
  have a: "isASCII ''_getHTTPBody''" by code_simp
  have t: "trimSeps ''_getHTTPBody'' = ''getHTTPBody''" by code_simp
  have "map (\<lambda>j. drop j ''getHTTPBody'') (filter (\<lambda>j. boundary ''getHTTPBody'' j \<and> 3 \<le> length ''getHTTPBody'' - j)
      [1..<length ''getHTTPBody'']) = [''HTTPBody'', ''Body'']" by code_simp
  with a camelSnakeSplit_boundaries [OF a] show ?thesis unfolding t Let_def by simp
qed

text \<open>
  (C30) What the ASCII keywords of a text answer: a word is a prefix of some keyword exactly when it is a prefix of
  a lower-cased sub-word, three to eighty bytes long, of a token of the text. The keywords are strictly sorted and
  none is a prefix of another, so nothing redundant is stored and nothing is lost by dropping.
\<close>

theorem ASCII_index_exact:
  "((\<exists>k\<in>set (ASCII_TokenizeForIndex uc str). prefix q k) \<longleftrightarrow>
      (\<exists>w\<in>set (FindAllString reASCII str). \<exists>v\<in>set (CamelSnakeSplit uc w).
         3 \<le> length v \<and> length v \<le> 80 \<and> prefix q (ToLower uc v))) \<and>
   sorted_wrt (<) (ASCII_TokenizeForIndex uc str) \<and>
   \<not> (\<exists>v\<in>set (ASCII_TokenizeForIndex uc str). \<exists>w\<in>set (ASCII_TokenizeForIndex uc str). v \<noteq> w \<and> prefix v w)"
proof -
  obtain result where r: "ASCII_TokenizeForIndex uc str = dropRedundant result" "sorted_wrt (<) result"
    using ASCII_index_dropRedundant [of uc str] by blast
  then have "\<not> (\<exists>v\<in>set (ASCII_TokenizeForIndex uc str). \<exists>w\<in>set (ASCII_TokenizeForIndex uc str). v \<noteq> w \<and> prefix v w)"
    using dropRedundant_antichain by metis
  then show ?thesis using ascii.index_total [of uc str] unfolding ASCII_index_prefix by (auto simp: asciiWords_def)
qed

end
