(* ===== verification/FstSeg.thy ===== *)
theory FstSeg
  imports GoUtf8
begin

text \<open>
  \<open>tokenizer/fstcjk/segmenter.go\<close>: the dictionary segmenter. The automaton is read through three calls
  (\<open>Start\<close>, \<open>AcceptWithValState\<close>, \<open>IsMatchWithValState\<close>), the record \<open>fst_ops\<close>; an address equal to
  \<open>noneAddrVellum\<close> means that there is no transition. Scores are \<open>float64\<close> values and enter through the record
  \<open>float_ops\<close>; words that the dictionary does not know go to the function \<open>hmmCut\<close> of package \<open>gse/hmm\<close>. All
  three are arguments. Frequencies are the \<open>uint64\<close> outputs of the automaton (wrapping sums), converted only
  for the logarithm. The pooled scratch maps of the source are fresh values here: every entry that a call reads is
  written by it first.
\<close>

subsection \<open>The model\<close>

record fst_ops =
  fst_Start :: nat
  fst_Accept :: "nat \<Rightarrow> char \<Rightarrow> nat \<times> 64 word"
  fst_IsMatch :: "nat \<Rightarrow> bool \<times> 64 word"

record 'f float_ops =
  fl_zero :: 'f
  fl_log :: "64 word \<Rightarrow> 'f"
  fl_add :: "'f \<Rightarrow> 'f \<Rightarrow> 'f"
  fl_sub :: "'f \<Rightarrow> 'f \<Rightarrow> 'f"
  fl_less :: "'f \<Rightarrow> 'f \<Rightarrow> bool"
  fl_eq :: "'f \<Rightarrow> 'f \<Rightarrow> bool"

record 'f Segmenter =
  seg_fst :: fst_ops
  seg_fl :: "'f float_ops"
  seg_logT :: 'f
  seg_hmmCut :: "bytes \<Rightarrow> bytes list"

record 'f route =
  rt_freq :: 'f
  rt_index :: nat

record dagEdge =
  de_index :: nat
  de_freq :: "64 word"
  de_ok :: bool

definition noneAddrVellum :: nat where "noneAddrVellum = 1"

text \<open>\<open>acceptRune\<close>: the bytes of one rune; \<open>None\<close> when the path ends.\<close>

fun acceptBytes :: "fst_ops \<Rightarrow> nat \<Rightarrow> 64 word \<Rightarrow> bytes \<Rightarrow> (nat \<times> 64 word) option" where
  "acceptBytes fa addr out_sum [] = Some (addr, out_sum)"
| "acceptBytes fa addr out_sum (b # bs) =
     (case fst_Accept fa addr b of (naddr, out) \<Rightarrow>
        if naddr = noneAddrVellum then None else acceptBytes fa naddr (out_sum + out) bs)"

definition acceptRune :: "fst_ops \<Rightarrow> nat \<Rightarrow> 64 word \<Rightarrow> nat \<Rightarrow> (nat \<times> 64 word) option" where
  "acceptRune fa addr out_sum r = acceptBytes fa addr out_sum (EncodeRune r)"

text \<open>\<open>getDag\<close>: the edges that leave position \<open>k\<close>. The walk returns the edges and the frequency and flag of the
  single rune, which the fallback edge carries. The runes from \<open>i\<close> on are the last argument.\<close>

fun dagWalk ::
  "fst_ops \<Rightarrow> nat \<Rightarrow> nat \<Rightarrow> nat \<Rightarrow> 64 word \<Rightarrow> 64 word \<times> bool \<Rightarrow> dagEdge list \<Rightarrow> nat list \<Rightarrow> dagEdge list \<times> 64 word \<times> bool" where
  "dagWalk fa k i addr out_sum first lst [] = (lst, first)"
| "dagWalk fa k i addr out_sum first lst (r # rs) =
     (case acceptRune fa addr out_sum r of
        None \<Rightarrow> (lst, if i = k then (0, False) else first)
      | Some (addr, out_sum) \<Rightarrow>
          (case fst_IsMatch fa addr of (final, fout) \<Rightarrow>
             let freq = out_sum + fout;
                 first = (if i = k then (if final then freq else 0, True) else first);
                 lst = (if final \<and> freq \<noteq> 0 then lst @ [\<lparr>de_index = i, de_freq = freq, de_ok = True\<rparr>] else lst)
             in dagWalk fa k (Suc i) addr out_sum first lst rs))"

definition dagAt :: "fst_ops \<Rightarrow> nat list \<Rightarrow> nat \<Rightarrow> dagEdge list" where
  "dagAt fa runes k =
     (case dagWalk fa k k (fst_Start fa) 0 (0, False) [] (drop k runes) of
        (lst, firstFreq, firstOK) \<Rightarrow>
          if lst = [] then [\<lparr>de_index = k, de_freq = firstFreq, de_ok = firstOK\<rparr>] else lst)"

definition getDag :: "fst_ops \<Rightarrow> nat list \<Rightarrow> dagEdge list list" where
  "getDag fa runes = map (dagAt fa runes) [0..<length runes]"

text \<open>\<open>findFreq\<close>: frequency and flag of a word.\<close>

fun findWalk :: "fst_ops \<Rightarrow> nat \<Rightarrow> 64 word \<Rightarrow> nat list \<Rightarrow> (nat \<times> 64 word) option" where
  "findWalk fa addr out_sum [] = Some (addr, out_sum)"
| "findWalk fa addr out_sum (r # rs) =
     (case acceptRune fa addr out_sum r of None \<Rightarrow> None | Some (addr, out_sum) \<Rightarrow> findWalk fa addr out_sum rs)"

definition findFreq :: "fst_ops \<Rightarrow> nat list \<Rightarrow> 64 word \<times> bool" where
  "findFreq fa runes =
     (case findWalk fa (fst_Start fa) 0 runes of
        None \<Rightarrow> (0, False)
      | Some (addr, out_sum) \<Rightarrow>
          (case fst_IsMatch fa addr of (final, fout) \<Rightarrow> if final then (out_sum + fout, True) else (0, True)))"

text \<open>\<open>calc\<close>: the best route from every position, from the end. A missing entry of the map reads as zero.\<close>

definition edgeScore :: "'f Segmenter \<Rightarrow> dagEdge \<Rightarrow> 'f \<Rightarrow> 'f" where
  "edgeScore s e rest =
     fl_add (seg_fl s) (fl_sub (seg_fl s) (fl_log (seg_fl s) (if de_ok e then de_freq e else 1)) (seg_logT s)) rest"

definition routeFreq :: "'f Segmenter \<Rightarrow> (nat \<rightharpoonup> 'f route) \<Rightarrow> nat \<Rightarrow> 'f" where
  "routeFreq s rs i = (case rs i of None \<Rightarrow> fl_zero (seg_fl s) | Some r \<Rightarrow> rt_freq r)"

definition calcEdge :: "'f Segmenter \<Rightarrow> nat \<Rightarrow> dagEdge \<Rightarrow> (nat \<rightharpoonup> 'f route) \<Rightarrow> (nat \<rightharpoonup> 'f route)" where
  "calcEdge s idx e rs =
     (let r = \<lparr>rt_freq = edgeScore s e (routeFreq s rs (de_index e + 1)), rt_index = de_index e\<rparr> in
      case rs idx of
        None \<Rightarrow> rs(idx \<mapsto> r)
      | Some v \<Rightarrow>
          if fl_less (seg_fl s) (rt_freq v) (rt_freq r) \<or>
             fl_eq (seg_fl s) (rt_freq v) (rt_freq r) \<and> rt_index v < rt_index r
          then rs(idx \<mapsto> r) else rs)"

primrec calcLoop :: "'f Segmenter \<Rightarrow> dagEdge list list \<Rightarrow> nat \<Rightarrow> (nat \<rightharpoonup> 'f route) \<Rightarrow> (nat \<rightharpoonup> 'f route)" where
  "calcLoop s dag 0 rs = rs"
| "calcLoop s dag (Suc idx) rs = calcLoop s dag idx (fold (calcEdge s idx) (dag ! idx) rs)"

definition calc :: "'f Segmenter \<Rightarrow> nat list \<Rightarrow> dagEdge list list \<Rightarrow> (nat \<rightharpoonup> 'f route)" where
  "calc s runes dag =
     calcLoop s dag (length runes) [length runes \<mapsto> \<lparr>rt_freq = fl_zero (seg_fl s), rt_index = 0\<rparr>]"

text \<open>\<open>hmm\<close> and the flush of the buffer of single runes.\<close>

definition seg_hmm :: "'f Segmenter \<Rightarrow> bytes \<Rightarrow> nat list \<Rightarrow> bytes list \<Rightarrow> bytes list" where
  "seg_hmm s bufString buf result =
     (case findFreq (seg_fst s) buf of (v, ok) \<Rightarrow>
        if \<not> ok \<or> v = 0 then result @ seg_hmmCut s bufString else result @ map (\<lambda>elem. runeString [elem]) buf)"

definition flushBuf :: "'f Segmenter \<Rightarrow> nat list \<Rightarrow> bytes list \<Rightarrow> bytes list" where
  "flushBuf s buf result =
     (if 0 < length buf then
        (let bufString = runeString buf in
         if length buf = 1 then result @ [bufString] else seg_hmm s bufString buf result)
      else result)"

text \<open>The loop of \<open>CutDAG\<close> over the routes. \<open>None\<close> stands for a slice out of range and for a loop that does not
  advance.\<close>

partial_function (option) cutLoop ::
  "'f Segmenter \<Rightarrow> nat list \<Rightarrow> (nat \<rightharpoonup> 'f route) \<Rightarrow> nat \<Rightarrow> nat list \<Rightarrow> bytes list \<Rightarrow> (nat list \<times> bytes list) option" where
  "cutLoop s runes routes x buf result =
     (if x < length runes then
        (let y = (case routes x of None \<Rightarrow> 0 | Some r \<Rightarrow> rt_index r) + 1 in
         if y < x \<or> length runes < y then None
         else let frag = take (y - x) (drop x runes) in
           if y - x = 1 then cutLoop s runes routes y (buf @ frag) result
           else cutLoop s runes routes y [] (flushBuf s buf result @ [runeString frag]))
      else Some (buf, result))"

definition CutDAG :: "unicode \<Rightarrow> 'f Segmenter \<Rightarrow> bytes \<Rightarrow> bytes list option" where
  "CutDAG uc s str =
     (let runes = Runes (ToLower uc str);
          dag = getDag (seg_fst s) runes;
          routes = calc s runes dag
      in case cutLoop s runes routes 0 [] [] of
           None \<Rightarrow> None
         | Some (buf, result) \<Rightarrow> Some (flushBuf s buf result))"

definition Cut :: "unicode \<Rightarrow> 'f Segmenter \<Rightarrow> bytes \<Rightarrow> bytes list option" where
  "Cut uc s str = CutDAG uc s str"

subsection \<open>Edges and routes stay in range\<close>

lemma dagWalk_range:
  assumes "\<forall>e\<in>set lst. k \<le> de_index e \<and> de_index e < n" "k \<le> i" "i + length rs \<le> n"
  shows "\<forall>e\<in>set (fst (dagWalk fa k i addr out_sum first lst rs)). k \<le> de_index e \<and> de_index e < n"
  using assms
proof (induction rs arbitrary: i addr out_sum first lst)
  case (Cons r rs)
  show ?case
  proof (cases "acceptRune fa addr out_sum r")
    case (Some p)
    obtain a' s' final fout where p: "p = (a', s')" "fst_IsMatch fa a' = (final, fout)" by (metis surj_pair)
    let ?lst = "if final \<and> s' + fout \<noteq> 0 then lst @ [\<lparr>de_index = i, de_freq = s' + fout, de_ok = True\<rparr>] else lst"
    have "\<forall>e\<in>set ?lst. k \<le> de_index e \<and> de_index e < n" using Cons.prems by auto
    from Cons.IH [OF this, of "Suc i"] Cons.prems(2,3) Some p show ?thesis by (simp add: Let_def)
  qed (use Cons.prems in simp)
qed simp

lemma dagAt_range:
  assumes "k < length runes"
  shows "dagAt fa runes k \<noteq> []" "\<forall>e\<in>set (dagAt fa runes k). k \<le> de_index e \<and> de_index e < length runes"
proof -
  obtain lst f ok where w: "dagWalk fa k k (fst_Start fa) 0 (0, False) [] (drop k runes) = (lst, f, ok)" by (metis prod_cases3)
  have "\<forall>e\<in>set lst. k \<le> de_index e \<and> de_index e < length runes"
    using assms dagWalk_range [of "[]" k "length runes" k "drop k runes" fa "fst_Start fa" 0 "(0, False)"] by (simp add: w)
  with assms show "dagAt fa runes k \<noteq> []" "\<forall>e\<in>set (dagAt fa runes k). k \<le> de_index e \<and> de_index e < length runes"
    by (simp_all add: dagAt_def w)
qed

text \<open>The entry of position \<open>i\<close> after the edges of \<open>idx\<close>: only \<open>idx\<close> is written, by one of its edges.\<close>

lemma calcEdge_other: "i \<noteq> idx \<Longrightarrow> calcEdge s idx e rs i = rs i"
  by (simp add: calcEdge_def Let_def split: option.splits)

lemma calcEdges_other: "i \<noteq> idx \<Longrightarrow> fold (calcEdge s idx) es rs i = rs i"
  by (induction es arbitrary: rs) (simp_all add: calcEdge_other)

lemma calcEdge_in: "\<exists>r. calcEdge s idx e rs idx = Some r \<and> (rs idx = Some r \<or> rt_index r = de_index e)"
  by (auto simp: calcEdge_def Let_def split: option.splits)

lemma calcEdges_index:
  assumes "case rs idx of None \<Rightarrow> es \<noteq> [] | Some r \<Rightarrow> P (rt_index r)" "\<forall>e\<in>set es. P (de_index e)"
  shows "\<exists>r. fold (calcEdge s idx) es rs idx = Some r \<and> P (rt_index r)"
  using assms
proof (induction es arbitrary: rs)
  case Nil
  then show ?case by (auto split: option.splits)
next
  case (Cons e es)
  obtain r where "calcEdge s idx e rs idx = Some r" "rs idx = Some r \<or> rt_index r = de_index e"
    using calcEdge_in [of s idx e rs] by blast
  with Cons.prems have "case calcEdge s idx e rs idx of None \<Rightarrow> es \<noteq> [] | Some r \<Rightarrow> P (rt_index r)" by auto
  from Cons.IH [where rs = "calcEdge s idx e rs", OF this] Cons.prems(2) show ?case by simp
qed

lemma calcLoop_range:
  assumes "m \<le> length dag" "\<forall>i<m. dag ! i \<noteq> [] \<and> rs i = None" "\<forall>i<m. \<forall>e\<in>set (dag ! i). i \<le> de_index e \<and> de_index e < n"
    "\<forall>i. m \<le> i \<longrightarrow> i < n \<longrightarrow> (\<exists>r. rs i = Some r \<and> i \<le> rt_index r \<and> rt_index r < n)"
  shows "\<forall>i<n. \<exists>r. calcLoop s dag m rs i = Some r \<and> i \<le> rt_index r \<and> rt_index r < n"
  using assms
proof (induction m arbitrary: rs)
  case (Suc m)
  let ?rs = "fold (calcEdge s m) (dag ! m) rs"
  have "\<exists>r. ?rs m = Some r \<and> (m \<le> rt_index r \<and> rt_index r < n)"
    using Suc.prems(2,3) by (intro calcEdges_index) auto
  then have "\<forall>i. m \<le> i \<longrightarrow> i < n \<longrightarrow> (\<exists>r. ?rs i = Some r \<and> i \<le> rt_index r \<and> rt_index r < n)"
    using Suc.prems(4) calcEdges_other by (metis Suc_leI le_neq_implies_less)
  moreover have "\<forall>i<m. dag ! i \<noteq> [] \<and> ?rs i = None" using Suc.prems(2) by (simp add: calcEdges_other)
  moreover have "m \<le> length dag" "\<forall>i<m. \<forall>e\<in>set (dag ! i). i \<le> de_index e \<and> de_index e < n"
    using Suc.prems(1) less_SucI [of _ m] Suc.prems(3) by (simp, blast)
  ultimately show ?case unfolding calcLoop.simps by (intro Suc.IH)
qed auto

lemma calc_range:
  assumes "i < length runes"
  shows "\<exists>r. calc s runes (getDag fa runes) i = Some r \<and> i \<le> rt_index r \<and> rt_index r < length runes"
  using assms dagAt_range [of _ runes fa]
    calcLoop_range [of "length runes" "getDag fa runes" "[length runes \<mapsto> \<lparr>rt_freq = fl_zero (seg_fl s), rt_index = 0\<rparr>]" "length runes" s]
  by (simp add: calc_def getDag_def)

subsection \<open>Segmentation is lossless\<close>

text \<open>What is asked of \<open>gse/hmm\<close>: its pieces, put together, are the text.\<close>

definition hmm_lossless :: "'f Segmenter \<Rightarrow> bool" where
  "hmm_lossless s \<longleftrightarrow> (\<forall>t. concat (seg_hmmCut s t) = t)"

lemma flushBuf_concat: "hmm_lossless s \<Longrightarrow> concat (flushBuf s buf result) = concat result @ runeString buf"
  by (auto simp: flushBuf_def seg_hmm_def hmm_lossless_def runeString_def Let_def split: prod.splits)

lemma cutLoop_lossless:
  assumes h: "hmm_lossless s" and r: "\<And>i. i < length runes \<Longrightarrow> \<exists>r. routes i = Some r \<and> i \<le> rt_index r \<and> rt_index r < length runes"
    and "x \<le> length runes"
  shows "\<exists>buf' result'. cutLoop s runes routes x buf result = Some (buf', result') \<and>
    concat result' @ runeString buf' = concat result @ runeString buf @ runeString (drop x runes)"
  using assms(3)
proof (induction "length runes - x" arbitrary: x buf result rule: less_induct)
  case less
  show ?case
  proof (cases "x < length runes")
    case True
    obtain rt where rt: "routes x = Some rt" "x \<le> rt_index rt" "rt_index rt < length runes" using r [OF True] by blast
    define y where "y = rt_index rt + 1"
    define frag where "frag = take (y - x) (drop x runes)"
    have y: "x < y" "y \<le> length runes" using rt by (simp_all add: y_def)
    have d: "drop x runes = frag @ drop y runes"
      using y append_take_drop_id [of "y - x" "drop x runes"] by (simp add: frag_def)
    have step: "cutLoop s runes routes x buf result =
        (if y - x = 1 then cutLoop s runes routes y (buf @ frag) result
         else cutLoop s runes routes y [] (flushBuf s buf result @ [runeString frag]))"
      using True rt y by (subst cutLoop.simps) (simp add: Let_def y_def frag_def)
    have lt: "length runes - y < length runes - x" using y True by linarith
    show ?thesis
    proof (cases "y - x = 1")
      case True
      from less.hyps [OF lt y(2), of "buf @ frag" result] step True d show ?thesis by simp
    next
      case False
      from less.hyps [OF lt y(2), of "[]" "flushBuf s buf result @ [runeString frag]"] step False d
      show ?thesis by (simp add: flushBuf_concat [OF h])
    qed
  next
    case False
    then show ?thesis by (subst cutLoop.simps) simp
  qed
qed

lemma Cut_loop:
  assumes "hmm_lossless s"
  shows "\<exists>segs. Cut uc s str = Some segs \<and> concat segs = runeString (Runes (ToLower uc str))"
proof -
  let ?r = "Runes (ToLower uc str)"
  obtain buf result where "cutLoop s ?r (calc s ?r (getDag (seg_fst s) ?r)) 0 [] [] = Some (buf, result)"
      "concat result @ runeString buf = runeString ?r"
    using cutLoop_lossless [OF assms, of ?r "calc s ?r (getDag (seg_fst s) ?r)" 0 "[]" "[]"] calc_range [of _ ?r s "seg_fst s"]
    by auto
  then show ?thesis by (simp add: Cut_def CutDAG_def Let_def flushBuf_concat [OF assms])
qed

lemma cutLoop_total:
  assumes r: "\<And>i. i < length runes \<Longrightarrow> \<exists>r. routes i = Some r \<and> i \<le> rt_index r \<and> rt_index r < length runes"
    and "x \<le> length runes"
  shows "\<exists>p. cutLoop s runes routes x buf result = Some p"
  using assms(2)
proof (induction "length runes - x" arbitrary: x buf result rule: less_induct)
  case less
  show ?case
  proof (cases "x < length runes")
    case True
    obtain rt where rt: "routes x = Some rt" "x \<le> rt_index rt" "rt_index rt < length runes" using r [OF True] by blast
    then have "length runes - (rt_index rt + 1) < length runes - x" "rt_index rt + 1 \<le> length runes" by auto
    from less.hyps [OF this] True rt show ?thesis by (subst cutLoop.simps) (simp add: Let_def)
  next
    case False
    then show ?thesis by (subst cutLoop.simps) simp
  qed
qed

lemma Cut_total: "\<exists>segs. Cut uc s str = Some segs"
proof -
  let ?r = "Runes (ToLower uc str)"
  obtain buf result where "cutLoop s ?r (calc s ?r (getDag (seg_fst s) ?r)) 0 [] [] = Some (buf, result)"
    using cutLoop_total [of ?r "calc s ?r (getDag (seg_fst s) ?r)" 0 s "[]" "[]"] calc_range [of _ ?r s "seg_fst s"] by auto
  then show ?thesis by (simp add: Cut_def CutDAG_def Let_def)
qed

subsection \<open>Routes are best\<close>

text \<open>A path through the dictionary graph, its score, and the path that the routes describe. \<open>score_order\<close> says
  what is used of \<open>float64\<close>: the comparison is a total order on the values that occur and adding a constant is
  monotone.\<close>

fun isPath :: "dagEdge list list \<Rightarrow> nat \<Rightarrow> nat \<Rightarrow> dagEdge list \<Rightarrow> bool" where
  "isPath dag n i [] \<longleftrightarrow> i = n"
| "isPath dag n i (e # es) \<longleftrightarrow> i < n \<and> e \<in> set (dag ! i) \<and> isPath dag n (de_index e + 1) es"

definition pathScore :: "'f Segmenter \<Rightarrow> dagEdge list \<Rightarrow> 'f" where
  "pathScore s es = foldr (edgeScore s) es (fl_zero (seg_fl s))"

fun follows :: "(nat \<rightharpoonup> 'f route) \<Rightarrow> nat \<Rightarrow> dagEdge list \<Rightarrow> bool" where
  "follows rs i [] \<longleftrightarrow> True"
| "follows rs i (e # es) \<longleftrightarrow> map_option rt_index (rs i) = Some (de_index e) \<and> follows rs (de_index e + 1) es"

definition score_order :: "'f Segmenter \<Rightarrow> bool" where
  "score_order s \<longleftrightarrow>
     (\<forall>a b. fl_less (seg_fl s) a b \<longrightarrow> \<not> fl_less (seg_fl s) b a) \<and>
     (\<forall>a b c. \<not> fl_less (seg_fl s) b a \<longrightarrow> \<not> fl_less (seg_fl s) c b \<longrightarrow> \<not> fl_less (seg_fl s) c a) \<and>
     (\<forall>a b. fl_eq (seg_fl s) a b \<longrightarrow> \<not> fl_less (seg_fl s) b a) \<and>
     (\<forall>x a b. \<not> fl_less (seg_fl s) b a \<longrightarrow> \<not> fl_less (seg_fl s) (fl_add (seg_fl s) x b) (fl_add (seg_fl s) x a))"

definition bestAt :: "'f Segmenter \<Rightarrow> dagEdge list list \<Rightarrow> nat \<Rightarrow> (nat \<rightharpoonup> 'f route) \<Rightarrow> nat \<Rightarrow> bool" where
  "bestAt s dag n rs i \<longleftrightarrow>
     (\<exists>r es. rs i = Some r \<and> isPath dag n i es \<and> follows rs i es \<and> rt_freq r = pathScore s es \<and>
        (\<forall>es'. isPath dag n i es' \<longrightarrow> \<not> fl_less (seg_fl s) (rt_freq r) (pathScore s es')))"

lemma pathScore_Cons: "pathScore s (e # es) = edgeScore s e (pathScore s es)"
  by (simp add: pathScore_def)

lemma edgeScore_mono:
  "score_order s \<Longrightarrow> \<not> fl_less (seg_fl s) b a \<Longrightarrow> \<not> fl_less (seg_fl s) (edgeScore s e b) (edgeScore s e a)"
  unfolding score_order_def edgeScore_def by blast

text \<open>The entry after the edges of one position is the best of them.\<close>

lemma calcEdge_best:
  assumes o: "score_order s" and F: "edgeScore s e (routeFreq s rs (de_index e + 1)) = F e"
    and inv: "case rs idx of None \<Rightarrow> seen = {} | Some r \<Rightarrow>
      (\<exists>e\<in>seen. rt_index r = de_index e \<and> rt_freq r = F e) \<and> (\<forall>e\<in>seen. \<not> fl_less (seg_fl s) (rt_freq r) (F e))"
  shows "case calcEdge s idx e rs idx of None \<Rightarrow> False | Some r \<Rightarrow>
      (\<exists>e\<in>insert e seen. rt_index r = de_index e \<and> rt_freq r = F e) \<and>
      (\<forall>e\<in>insert e seen. \<not> fl_less (seg_fl s) (rt_freq r) (F e))"
proof -
  have irr: "\<not> fl_less (seg_fl s) a a" and asym: "fl_less (seg_fl s) a b \<Longrightarrow> \<not> fl_less (seg_fl s) b a"
    and eq: "fl_eq (seg_fl s) a b \<Longrightarrow> \<not> fl_less (seg_fl s) b a"
    and trans: "\<not> fl_less (seg_fl s) b a \<Longrightarrow> \<not> fl_less (seg_fl s) c b \<Longrightarrow> \<not> fl_less (seg_fl s) c a" for a b c
    using o unfolding score_order_def by blast+
  show ?thesis
  proof (cases "rs idx")
    case None
    with inv F irr show ?thesis by (simp add: calcEdge_def Let_def)
  next
    case (Some v)
    show ?thesis
    proof (cases "fl_less (seg_fl s) (rt_freq v) (F e) \<or> fl_eq (seg_fl s) (rt_freq v) (F e) \<and> rt_index v < de_index e")
      case True
      then have "\<not> fl_less (seg_fl s) (F e) (rt_freq v)" using asym eq by blast
      then have "\<forall>e'\<in>seen. \<not> fl_less (seg_fl s) (F e) (F e')" using inv Some trans by auto
      with True Some F irr show ?thesis by (simp add: calcEdge_def Let_def)
    next
      case False
      with inv Some F show ?thesis by (auto simp: calcEdge_def Let_def)
    qed
  qed
qed

lemma calcEdges_best:
  assumes o: "score_order s" and F: "\<forall>e\<in>set es. idx \<le> de_index e \<and> edgeScore s e (routeFreq s rs (de_index e + 1)) = F e"
    and inv: "case rs idx of None \<Rightarrow> seen = {} \<and> es \<noteq> [] | Some r \<Rightarrow>
      (\<exists>e\<in>seen. rt_index r = de_index e \<and> rt_freq r = F e) \<and> (\<forall>e\<in>seen. \<not> fl_less (seg_fl s) (rt_freq r) (F e))"
  shows "\<exists>r. fold (calcEdge s idx) es rs idx = Some r \<and>
      (\<exists>e\<in>set es \<union> seen. rt_index r = de_index e \<and> rt_freq r = F e) \<and>
      (\<forall>e\<in>set es \<union> seen. \<not> fl_less (seg_fl s) (rt_freq r) (F e))"
  using F inv
proof (induction es arbitrary: rs seen)
  case Nil
  then show ?case by (auto split: option.splits)
next
  case (Cons e es)
  let ?rs = "calcEdge s idx e rs"
  have "case rs idx of None \<Rightarrow> seen = {} | Some r \<Rightarrow>
      (\<exists>e\<in>seen. rt_index r = de_index e \<and> rt_freq r = F e) \<and> (\<forall>e\<in>seen. \<not> fl_less (seg_fl s) (rt_freq r) (F e))"
    using Cons.prems(2) by (auto split: option.splits)
  from calcEdge_best [where rs = rs and idx = idx and F = F and seen = seen and e = e, OF o _ this] Cons.prems(1)
  have "case ?rs idx of None \<Rightarrow> insert e seen = {} \<and> es \<noteq> [] | Some r \<Rightarrow>
      (\<exists>e\<in>insert e seen. rt_index r = de_index e \<and> rt_freq r = F e) \<and>
      (\<forall>e\<in>insert e seen. \<not> fl_less (seg_fl s) (rt_freq r) (F e))"
    by (auto split: option.splits)
  moreover have "\<forall>e\<in>set es. idx \<le> de_index e \<and> edgeScore s e (routeFreq s ?rs (de_index e + 1)) = F e"
    using Cons.prems(1) by (auto simp: routeFreq_def calcEdge_other)
  ultimately show ?case using Cons.IH [of ?rs "insert e seen"] by simp
qed

lemma follows_cong: "(\<forall>j\<ge>i. rs j = rs' j) \<Longrightarrow> isPath dag n i es \<Longrightarrow> \<forall>k<n. \<forall>e\<in>set (dag ! k). k \<le> de_index e \<Longrightarrow>
    follows rs i es \<Longrightarrow> follows rs' i es"
proof (induction es arbitrary: i)
  case (Cons e es)
  then have "i \<le> de_index e" by auto
  then have "\<forall>j\<ge>de_index e + 1. rs j = rs' j" using Cons.prems(1) by auto
  with Cons.IH [of "de_index e + 1"] Cons.prems show ?case by auto
qed simp

lemma calcLoop_best:
  assumes o: "score_order s" and dag: "\<forall>k<n. dag ! k \<noteq> [] \<and> (\<forall>e\<in>set (dag ! k). k \<le> de_index e \<and> de_index e < n)"
    and "m \<le> n" "\<forall>i<m. rs i = None" "\<forall>i. m \<le> i \<longrightarrow> i \<le> n \<longrightarrow> bestAt s dag n rs i"
  shows "\<forall>i\<le>n. bestAt s dag n (calcLoop s dag m rs) i"
  using assms(3-5)
proof (induction m arbitrary: rs)
  case (Suc m)
  let ?rs = "fold (calcEdge s m) (dag ! m) rs"
  define F where "F e = edgeScore s e (routeFreq s rs (de_index e + 1))" for e
  have m: "m < n" "dag ! m \<noteq> []" "\<forall>e\<in>set (dag ! m). m \<le> de_index e \<and> de_index e < n"
    using dag [rule_format, of m] Suc.prems(1) by auto
  have keep: "bestAt s dag n ?rs i" if i: "Suc m \<le> i" "i \<le> n" for i
  proof -
    obtain r es where r: "rs i = Some r" "isPath dag n i es" "follows rs i es" "rt_freq r = pathScore s es"
        "\<forall>es'. isPath dag n i es' \<longrightarrow> \<not> fl_less (seg_fl s) (rt_freq r) (pathScore s es')"
      using Suc.prems(3) i unfolding bestAt_def by blast
    have "\<forall>j\<ge>i. rs j = ?rs j" using i(1) by (auto simp: calcEdges_other)
    from follows_cong [OF this r(2) _ r(3)] dag have "follows ?rs i es" by blast
    with r calcEdges_other [of i m s "dag ! m" rs] i(1) show ?thesis unfolding bestAt_def by auto
  qed
  have rest: "\<exists>es. isPath dag n (de_index e + 1) es \<and> follows ?rs (de_index e + 1) es \<and> F e = edgeScore s e (pathScore s es) \<and>
      (\<forall>es'. isPath dag n (de_index e + 1) es' \<longrightarrow> \<not> fl_less (seg_fl s) (F e) (edgeScore s e (pathScore s es')))"
    if "e \<in> set (dag ! m)" for e
  proof -
    have j: "Suc m \<le> de_index e + 1" "de_index e + 1 \<le> n" using m(3) that by auto
    then have "rs (de_index e + 1) = ?rs (de_index e + 1)" by (subst calcEdges_other) auto
    with keep [OF j] show ?thesis unfolding bestAt_def F_def routeFreq_def using edgeScore_mono [OF o] by fastforce
  qed
  obtain r e where r: "?rs m = Some r" "e \<in> set (dag ! m)" "rt_index r = de_index e" "rt_freq r = F e"
      "\<forall>e'\<in>set (dag ! m). \<not> fl_less (seg_fl s) (rt_freq r) (F e')"
    using calcEdges_best [OF o, of "dag ! m" m rs F "{}"] m Suc.prems(2) by (auto simp: F_def)
  obtain es where es: "isPath dag n (de_index e + 1) es" "follows ?rs (de_index e + 1) es" "F e = edgeScore s e (pathScore s es)"
    using rest [OF r(2)] by blast
  have "\<not> fl_less (seg_fl s) (rt_freq r) (pathScore s es')" if p: "isPath dag n m es'" for es'
  proof -
    obtain e' t where e': "es' = e' # t" "e' \<in> set (dag ! m)" "isPath dag n (de_index e' + 1) t" using p m(1) by (cases es') auto
    have "\<not> fl_less (seg_fl s) (F e') (pathScore s es')" using rest [OF e'(2)] e'(1,3) by (auto simp: pathScore_Cons)
    moreover have "\<not> fl_less (seg_fl s) (rt_freq r) (F e')" using r(5) e'(2) by blast
    ultimately show ?thesis using o unfolding score_order_def by blast
  qed
  moreover have "isPath dag n m (e # es)" "follows ?rs m (e # es)" "rt_freq r = pathScore s (e # es)"
    using es r m(1) by (simp_all add: pathScore_Cons)
  ultimately have "bestAt s dag n ?rs m" using r(1) unfolding bestAt_def by blast
  with keep have "\<forall>i. m \<le> i \<longrightarrow> i \<le> n \<longrightarrow> bestAt s dag n ?rs i" by (metis Suc_leI le_neq_implies_less)
  moreover have "\<forall>i<m. ?rs i = None" using Suc.prems(2) by (simp add: calcEdges_other)
  ultimately show ?case unfolding calcLoop.simps using Suc.prems(1) by (intro Suc.IH) auto
qed simp

lemma calc_best:
  assumes "score_order s" "i \<le> length runes"
  shows "bestAt s (getDag fa runes) (length runes) (calc s runes (getDag fa runes)) i"
proof -
  let ?n = "length runes" and ?dag = "getDag fa runes"
  let ?r = "\<lparr>rt_freq = fl_zero (seg_fl s), rt_index = 0\<rparr> :: 'a route"
  have "\<not> fl_less (seg_fl s) a a" for a using assms(1) unfolding score_order_def by blast
  moreover have "isPath ?dag ?n ?n es \<longleftrightarrow> es = []" for es by (cases es) auto
  ultimately have "bestAt s ?dag ?n [?n \<mapsto> ?r] ?n" unfolding bestAt_def by (simp add: pathScore_def)
  then have "\<forall>i. ?n \<le> i \<longrightarrow> i \<le> ?n \<longrightarrow> bestAt s ?dag ?n [?n \<mapsto> ?r] i" by auto
  moreover have "\<forall>k<?n. ?dag ! k \<noteq> [] \<and> (\<forall>e\<in>set (?dag ! k). k \<le> de_index e \<and> de_index e < ?n)"
    using dagAt_range [of _ runes fa] by (simp add: getDag_def)
  ultimately show ?thesis
    using calcLoop_best [OF assms(1), of ?n ?dag ?n "[?n \<mapsto> ?r]"] assms(2) unfolding calc_def by simp
qed

subsection \<open>Properties\<close>

text \<open>
  (C11) Segmentation always returns and loses nothing: for every automaton, every floating-point arithmetic and
  every fallback cutter whose pieces make up its input, the loop of \<open>Cut\<close> terminates, no slice is out of range,
  and the segments put together are the runes of the lower-cased text.
\<close>

theorem Cut_lossless:
  assumes "hmm_lossless s"
  shows "\<exists>segs. Cut uc s str = Some segs \<and> concat segs = runeString (Runes (ToLower uc str))"
  using assms by (rule Cut_loop)

text \<open>A dictionary with the single word \<open>ab\<close> (states 0, 2 and 3), scores counted in integers.\<close>

definition exampleFst :: fst_ops where
  "exampleFst =
     \<lparr>fst_Start = 0,
      fst_Accept = (\<lambda>a c. if a = 0 \<and> c = CHR ''a'' then (2, 0) else if a = 2 \<and> c = CHR ''b'' then (3, 5) else (1, 0)),
      fst_IsMatch = (\<lambda>a. (a = 3, 0))\<rparr>"

definition exampleSegmenter :: "int Segmenter" where
  "exampleSegmenter =
     \<lparr>seg_fst = exampleFst,
      seg_fl = \<lparr>fl_zero = 0, fl_log = uint, fl_add = (+), fl_sub = (-), fl_less = (<), fl_eq = (=)\<rparr>,
      seg_logT = 0, seg_hmmCut = (\<lambda>t. [t])\<rparr>"

theorem Cut_lossless_witness:
  "hmm_lossless exampleSegmenter \<and>
   (\<forall>uc. \<exists>segs. Cut uc exampleSegmenter ''xyABa'' = Some segs \<and> concat segs = ''xyaba'')"
proof -
  have h: "hmm_lossless exampleSegmenter" by (simp add: hmm_lossless_def exampleSegmenter_def)
  have l: "isASCII ''xyABa''" "map lowerByte ''xyABa'' = ''xyaba''" "runeString (Runes ''xyaba'') = ''xyaba''" by code_simp+
  have "ToLower uc ''xyABa'' = ''xyaba''" for uc using l by (simp add: ToLower_def)
  then show ?thesis using h Cut_lossless [OF h, of _ "''xyABa''"] l(3) by simp
qed

text \<open>
  (C28) The routes are best: with a score order in which adding is monotone, the entry of position 0 (and of every
  other one) holds the score of the path that the routes describe from there, and no path through the dictionary
  graph has a greater score.
\<close>

theorem calc_optimal:
  assumes "score_order s" "i \<le> length runes"
  shows "bestAt s (getDag fa runes) (length runes) (calc s runes (getDag fa runes)) i"
  using assms by (rule calc_best)

theorem calc_optimal_witness:
  "score_order exampleSegmenter \<and>
   bestAt exampleSegmenter (getDag exampleFst [120, 97, 98]) 3 (calc exampleSegmenter [120, 97, 98] (getDag exampleFst [120, 97, 98])) 0"
proof -
  have "score_order exampleSegmenter" by (auto simp: score_order_def exampleSegmenter_def)
  with calc_optimal [OF this, of 0 "[120, 97, 98]" exampleFst] show ?thesis by (simp add: numeral_3_eq_3)
qed

end
