(* ===== verification/CjkTok.thy ===== *)
theory CjkTok
  imports Tokens FstSeg
begin

text \<open>
  \<open>tokenizer/cjk_detect.go\<close>, \<open>tokenizer/stopwords.go\<close> and \<open>tokenizer/cjk_tokenizer.go\<close>: the tokenizer for Chinese,
  Japanese and Korean text on top of the dictionary segmenter. \<open>sync.Once\<close> runs \<open>fstcjk.Open\<close> at the first use;
  what it leaves in \<open>t.seg\<close> is the argument \<open>seg\<close>, \<open>None\<close> when the embedded dictionary does not load.
\<close>

subsection \<open>Detection and normalisation\<close>

definition isCJK :: "unicode \<Rightarrow> nat \<Rightarrow> bool" where
  "isCJK uc r \<longleftrightarrow> 128 \<le> r \<and> uc_cjk uc r"

definition containsCJK :: "unicode \<Rightarrow> bytes \<Rightarrow> bool" where
  "containsCJK uc s \<longleftrightarrow> list_ex (isCJK uc) (Runes s)"

definition isStrippedControl :: "char \<Rightarrow> bool" where
  "isStrippedControl c \<longleftrightarrow>
     (if byteN c = 9 \<or> byteN c = 10 \<or> byteN c = 13 then False else byteN c < 32 \<or> byteN c = 127)"

definition normalizeForSegmentation :: "bytes \<Rightarrow> bytes" where
  "normalizeForSegmentation s =
     (if \<not> list_ex isStrippedControl s then s else filter (\<lambda>c. \<not> isStrippedControl c) s)"

definition isPunctOrSpace :: "unicode \<Rightarrow> bytes \<Rightarrow> bool" where
  "isPunctOrSpace uc s \<longleftrightarrow> list_all (\<lambda>r. IsSpace uc r \<or> IsPunct uc r \<or> IsSymbol uc r) (Runes s)"

text \<open>The keys of \<open>chineseStopWords\<close>, as runes.\<close>

definition chineseStopWords :: "bytes list" where
  "chineseStopWords =
     map runeString
     [[30340], [22320], [24471], [20102], [30528], [36807], [20043], [25152], [21644], [19982], [21450], [25110],
      [20294], [32780], [22240, 20026], [25152, 20197], [22914, 26524], [34429, 28982], [20294, 26159], [32780, 19988],
      [25110, 32773], [24182, 19988], [22240, 27492], [20110, 26159], [22312], [20174], [21521], [21040], [23545],
      [25226], [34987], [35753], [32473], [29992], [20197], [20026], [25353], [20851, 20110], [25105], [20320],
      [20182], [22905], [23427], [25105, 20204], [20320, 20204], [20182, 20204], [22905, 20204], [23427, 20204],
      [33258, 24049], [36825], [37027], [36825, 20010], [37027, 20010], [36825, 20123], [37027, 20123], [36825, 37324],
      [37027, 37324], [21738], [35841], [20160, 20040], [24590, 20040], [22810, 23569], [19981], [27809],
      [27809, 26377], [24456], [20063], [37117], [23601], [25165], [36824], [21448], [20877], [24050], [24050, 32463],
      [27491, 22312], [23558], [20250], [33021], [21487, 20197], [24212, 35813], [24517, 39035], [21487, 33021],
      [38750, 24120], [21313, 20998], [27604, 36739], [26368], [26356], [22826], [30495], [21482], [20010], [26465],
      [20123], [21527], [21602], [21543], [21834], [21568], [21734], [22043], [21862], [26159], [26377],
      [23601, 26159], [36825, 26679], [37027, 26679], [22914, 20309], [24590, 26679], [19978], [19979], [26469], [21435]]"

definition isStopWord :: "bytes \<Rightarrow> bool" where
  "isStopWord token \<longleftrightarrow> token \<in> set chineseStopWords"

subsection \<open>The tokenizer\<close>

definition ensureLoaded :: "'f Segmenter result \<Rightarrow> 'f Segmenter option" where
  "ensureLoaded opened = (case opened of Inl err \<Rightarrow> None | Inr seg \<Rightarrow> Some seg)"

definition cut :: "unicode \<Rightarrow> 'f Segmenter option \<Rightarrow> bytes \<Rightarrow> bytes list option" where
  "cut uc seg str = (case seg of None \<Rightarrow> Some [] | Some s \<Rightarrow> Cut uc s (normalizeForSegmentation str))"

text \<open>The body of both loops up to the stop-word test: the token of a segment, if it is kept.\<close>

definition segToken :: "unicode \<Rightarrow> bytes \<Rightarrow> bytes option" where
  "segToken uc seg =
     (let token = TrimSpace uc seg in
      if length token = 0 then None else if isPunctOrSpace uc token then None
      else if isStopWord token then None else Some token)"

definition CJK_TokenizeForIndex :: "unicode \<Rightarrow> 'f Segmenter option \<Rightarrow> bytes \<Rightarrow> bytes list option" where
  "CJK_TokenizeForIndex uc seg str =
     (if TrimSpace uc str = [] then Some []
      else case cut uc seg str of
        None \<Rightarrow> None
      | Some segments \<Rightarrow> Some (sortedKeys (map (ToLower uc) (List.map_filter (segToken uc) segments))))"

definition CJK_TokenizeForSearch ::
  "unicode \<Rightarrow> 'f Segmenter option \<Rightarrow> bytes \<Rightarrow> bool \<Rightarrow> (bytes list \<times> bytes list) option" where
  "CJK_TokenizeForSearch uc seg s exactMatching =
     (if TrimSpace uc s = [] then Some ([], [])
      else case cut uc seg s of
        None \<Rightarrow> None
      | Some segments \<Rightarrow> Some (fold push (List.map_filter (segToken uc) segments) [], []))"

lemma cut_total: "\<exists>segs. cut uc seg s = Some segs"
  using Cut_total by (cases seg) (auto simp: cut_def)

interpretation cjk: tokenizer uc "CJK_TokenizeForIndex uc seg" "CJK_TokenizeForSearch uc seg" "\<lambda>w. True"
  for uc :: unicode and seg :: "'f Segmenter option"
proof
  fix s ks ex ws wc w
  obtain segs where c: "cut uc seg s = Some segs" using cut_total by blast
  show "\<exists>ks. CJK_TokenizeForIndex uc seg s = Some ks \<and> sorted_wrt (<) ks"
    by (simp add: CJK_TokenizeForIndex_def c sorted_sortedKeys)
  show "\<exists>ws wc. CJK_TokenizeForSearch uc seg s ex = Some (ws, wc) \<and> distinct ws"
    by (simp add: CJK_TokenizeForSearch_def c fold_push)
  assume "CJK_TokenizeForIndex uc seg s = Some ks" "CJK_TokenizeForSearch uc seg s True = Some (ws, wc)" "w \<in> set ws"
  then have "ToLower uc w \<in> set ks"
    by (auto simp: CJK_TokenizeForIndex_def CJK_TokenizeForSearch_def c fold_push split: if_splits)
  then show "hits uc w ks" unfolding hits_def by blast
qed

end
