(* ===== verification/MixedTok.thy ===== *)
theory MixedTok
  imports AsciiTok CjkTok
begin

text \<open>
  \<open>tokenizer/mixed_tokenizer.go\<close>, the default tokenizer (\<open>tokenize.go\<close>): the text is cut into runs of CJK and
  other runes, each run goes to its own tokenizer and the results are merged.
\<close>

record textRun =
  tr_text :: bytes
  tr_isCJK :: bool

text \<open>The loop of \<open>splitIntoRuns\<close>: the runs found, the text of the current one and its kind.\<close>

fun runsLoop :: "unicode \<Rightarrow> nat list \<Rightarrow> textRun list \<Rightarrow> bytes \<Rightarrow> bool \<Rightarrow> bool \<Rightarrow> textRun list" where
  "runsLoop uc [] runs current currentIsCJK first =
     (if 0 < length current then runs @ [\<lparr>tr_text = current, tr_isCJK = currentIsCJK\<rparr>] else runs)"
| "runsLoop uc (r # rs) runs current currentIsCJK first =
     (let charIsCJK = isCJK uc r in
      if first then runsLoop uc rs runs (current @ EncodeRune r) charIsCJK False
      else if charIsCJK \<noteq> currentIsCJK
      then runsLoop uc rs (runs @ [\<lparr>tr_text = current, tr_isCJK = currentIsCJK\<rparr>]) (EncodeRune r) charIsCJK False
      else runsLoop uc rs runs (current @ EncodeRune r) currentIsCJK False)"

definition splitIntoRuns :: "unicode \<Rightarrow> bytes \<Rightarrow> textRun list" where
  "splitIntoRuns uc s = (if length s = 0 then [] else runsLoop uc (Runes s) [] [] False True)"

text \<open>The keywords and the words of one run.\<close>

definition runIndex :: "unicode \<Rightarrow> 'f Segmenter option \<Rightarrow> textRun \<Rightarrow> bytes list option" where
  "runIndex uc seg run =
     (if tr_isCJK run then CJK_TokenizeForIndex uc seg (tr_text run) else Some (ASCII_TokenizeForIndex uc (tr_text run)))"

definition runSearch :: "unicode \<Rightarrow> 'f Segmenter option \<Rightarrow> bool \<Rightarrow> textRun \<Rightarrow> (bytes list \<times> bytes list) option" where
  "runSearch uc seg exactMatching run =
     (if tr_isCJK run then CJK_TokenizeForSearch uc seg (tr_text run) exactMatching
      else ASCII_TokenizeForSearch uc (tr_text run) exactMatching)"

fun indexRuns :: "unicode \<Rightarrow> 'f Segmenter option \<Rightarrow> textRun list \<Rightarrow> bytes list \<Rightarrow> bytes list option" where
  "indexRuns uc seg [] uniqueTokens = Some uniqueTokens"
| "indexRuns uc seg (run # runs) uniqueTokens =
     (case runIndex uc seg run of None \<Rightarrow> None | Some tokens \<Rightarrow> indexRuns uc seg runs (fold push tokens uniqueTokens))"

fun searchRuns ::
  "unicode \<Rightarrow> 'f Segmenter option \<Rightarrow> bool \<Rightarrow> textRun list \<Rightarrow> bytes list \<times> bytes list \<Rightarrow> (bytes list \<times> bytes list) option" where
  "searchRuns uc seg exactMatching [] acc = Some acc"
| "searchRuns uc seg exactMatching (run # runs) (result, wildcards) =
     (case runSearch uc seg exactMatching run of
        None \<Rightarrow> None
      | Some (tokens, wc) \<Rightarrow> searchRuns uc seg exactMatching runs (fold push tokens result, wildcards @ wc))"

definition Mixed_TokenizeForIndex :: "unicode \<Rightarrow> 'f Segmenter option \<Rightarrow> bytes \<Rightarrow> bytes list option" where
  "Mixed_TokenizeForIndex uc seg str0 =
     (let str = normalizeForSegmentation str0 in
      if \<not> containsCJK uc str then Some (ASCII_TokenizeForIndex uc str)
      else case indexRuns uc seg (splitIntoRuns uc str) [] of
        None \<Rightarrow> None
      | Some uniqueTokens \<Rightarrow> if length uniqueTokens = 0 then Some [] else Some (sortedKeys uniqueTokens))"

definition Mixed_TokenizeForSearch ::
  "unicode \<Rightarrow> 'f Segmenter option \<Rightarrow> bytes \<Rightarrow> bool \<Rightarrow> (bytes list \<times> bytes list) option" where
  "Mixed_TokenizeForSearch uc seg s0 exactMatching =
     (let s = normalizeForSegmentation s0 in
      if \<not> containsCJK uc s then ASCII_TokenizeForSearch uc s exactMatching
      else searchRuns uc seg exactMatching (splitIntoRuns uc s) ([], []))"

text \<open>The package-level wrappers of \<open>tokenize.go\<close> go to \<open>DefaultTokenizer\<close>, a \<open>MixedTokenizer\<close>.\<close>

definition TokenizeForIndex :: "unicode \<Rightarrow> 'f Segmenter option \<Rightarrow> bytes \<Rightarrow> bytes list option" where
  "TokenizeForIndex uc seg str = Mixed_TokenizeForIndex uc seg str"

definition TokenizeForSearch ::
  "unicode \<Rightarrow> 'f Segmenter option \<Rightarrow> bytes \<Rightarrow> bool \<Rightarrow> (bytes list \<times> bytes list) option" where
  "TokenizeForSearch uc seg s exactMatching = Mixed_TokenizeForSearch uc seg s exactMatching"

subsection \<open>The merged results\<close>

lemma runIndex_total: "\<exists>ks. runIndex uc seg run = Some ks"
  using cjk.index_total [of uc seg "tr_text run"] by (auto simp: runIndex_def)

lemma runSearch_total: "\<exists>ws wc. runSearch uc seg ex run = Some (ws, wc)"
  using cjk.search_total [of uc seg "tr_text run" ex] ascii.search_total [of uc "tr_text run" ex]
  by (auto simp: runSearch_def)

lemma run_hits:
  assumes "runIndex uc seg run = Some ks" "runSearch uc seg True run = Some (ws, wc)" "w \<in> set ws" "length w \<le> 80"
  shows "hits uc w ks"
  using assms cjk.search_hits [of uc seg "tr_text run" ks ws wc w] ascii.search_hits [of uc "tr_text run" ks ws wc w]
  by (auto simp: runIndex_def runSearch_def split: if_splits)

lemma indexRuns_total:
  "\<exists>u. indexRuns uc seg runs acc = Some u \<and> set u = set acc \<union> {k. \<exists>run\<in>set runs. \<exists>ks. runIndex uc seg run = Some ks \<and> k \<in> set ks}"
proof (induction runs arbitrary: acc)
  case (Cons run runs)
  obtain ks where "runIndex uc seg run = Some ks" using runIndex_total by blast
  with Cons [of "fold push ks acc"] show ?case by (auto simp: fold_push)
qed simp

lemma searchRuns_total:
  assumes "distinct (fst acc)"
  shows "\<exists>ws wc. searchRuns uc seg ex runs acc = Some (ws, wc) \<and> distinct ws \<and>
    set ws = set (fst acc) \<union> {w. \<exists>run\<in>set runs. \<exists>ts c. runSearch uc seg ex run = Some (ts, c) \<and> w \<in> set ts}"
  using assms
proof (induction runs arbitrary: acc)
  case (Cons run runs)
  obtain ts c where r: "runSearch uc seg ex run = Some (ts, c)" using runSearch_total by blast
  obtain result wildcards where acc: "acc = (result, wildcards)" by fastforce
  from r Cons.IH [of "(fold push ts result, wildcards @ c)"] Cons.prems show ?case unfolding acc
    by (auto simp: fold_push)
qed (auto intro: prod.collapse)

interpretation mixed: tokenizer uc "Mixed_TokenizeForIndex uc seg" "Mixed_TokenizeForSearch uc seg" "\<lambda>w. length w \<le> 80"
  for uc :: unicode and seg :: "'f Segmenter option"
proof
  fix s ks ex ws wc w
  let ?s = "normalizeForSegmentation s"
  obtain u where u: "indexRuns uc seg (splitIntoRuns uc ?s) [] = Some u"
      "set u = {k. \<exists>run\<in>set (splitIntoRuns uc ?s). \<exists>ks. runIndex uc seg run = Some ks \<and> k \<in> set ks}"
    using indexRuns_total [of uc seg "splitIntoRuns uc ?s" "[]"] by auto
  show "\<exists>ks. Mixed_TokenizeForIndex uc seg s = Some ks \<and> sorted_wrt (<) ks"
    using ascii.index_total [of uc ?s] by (auto simp: Mixed_TokenizeForIndex_def Let_def u(1) sorted_sortedKeys)
  show "\<exists>ws wc. Mixed_TokenizeForSearch uc seg s ex = Some (ws, wc) \<and> distinct ws"
    using ascii.search_total [of uc ?s ex] searchRuns_total [of "([], [])" uc seg ex "splitIntoRuns uc ?s"]
    by (auto simp: Mixed_TokenizeForSearch_def Let_def)
  assume a: "Mixed_TokenizeForIndex uc seg s = Some ks" "Mixed_TokenizeForSearch uc seg s True = Some (ws, wc)" "w \<in> set ws"
    "length w \<le> 80"
  show "hits uc w ks"
  proof (cases "containsCJK uc ?s")
    case False
    with a show ?thesis using ascii.search_hits
      by (simp add: Mixed_TokenizeForIndex_def Mixed_TokenizeForSearch_def Let_def)
  next
    case True
    with a(2,3) searchRuns_total [of "([], [])" uc seg True "splitIntoRuns uc ?s"]
    obtain run ts c where r: "run \<in> set (splitIntoRuns uc ?s)" "runSearch uc seg True run = Some (ts, c)" "w \<in> set ts"
      by (auto simp: Mixed_TokenizeForSearch_def Let_def)
    obtain rk where rk: "runIndex uc seg run = Some rk" using runIndex_total by blast
    have "hits uc w rk" using run_hits [OF rk r(2,3) a(4)] .
    moreover have "set rk \<subseteq> set u" using r(1) rk u(2) by auto
    moreover have "set ks = set u"
      using a(1) True u(1) by (auto simp: Mixed_TokenizeForIndex_def Let_def split: if_splits)
    ultimately show ?thesis unfolding hits_def by blast
  qed
qed

subsection \<open>The runs\<close>

definition runOf :: "unicode \<Rightarrow> textRun \<Rightarrow> bool" where
  "runOf uc run \<longleftrightarrow> Runes (tr_text run) \<noteq> [] \<and> list_all (\<lambda>r. isCJK uc r = tr_isCJK run) (Runes (tr_text run))"

lemma runsLoop_partition:
  assumes "list_all validRune (cs @ rs)" "cs \<noteq> []" "list_all (\<lambda>r. isCJK uc r = k) cs" "list_all (runOf uc) runs"
    "successively (\<lambda>a b. tr_isCJK a \<noteq> tr_isCJK b) (runs @ [\<lparr>tr_text = runeString cs, tr_isCJK = k\<rparr>])"
  shows "concat (map tr_text (runsLoop uc rs runs (runeString cs) k False)) = concat (map tr_text runs) @ runeString (cs @ rs) \<and>
    list_all (runOf uc) (runsLoop uc rs runs (runeString cs) k False) \<and>
    successively (\<lambda>a b. tr_isCJK a \<noteq> tr_isCJK b) (runsLoop uc rs runs (runeString cs) k False)"
  using assms
proof (induction rs arbitrary: runs cs k)
  case Nil
  then show ?case by (cases cs) (auto simp: runOf_def Runes_runeString)
next
  case (Cons r rs)
  let ?run = "\<lparr>tr_text = runeString cs, tr_isCJK = k\<rparr>"
  have v: "list_all validRune (cs @ [r])" "list_all validRune cs" "validRune r" using Cons.prems(1) by auto
  show ?case
  proof (cases "isCJK uc r = k")
    case True
    have "successively (\<lambda>a b. tr_isCJK a \<noteq> tr_isCJK b) (runs @ [\<lparr>tr_text = runeString (cs @ [r]), tr_isCJK = k\<rparr>])"
      using Cons.prems(5) by (auto simp: successively_append_iff)
    with Cons.IH [of "cs @ [r]" k runs] Cons.prems v True show ?thesis by simp
  next
    case False
    have "runOf uc ?run" using Cons.prems(2,3) v(2) by (simp add: runOf_def Runes_runeString)
    moreover have "successively (\<lambda>a b. tr_isCJK a \<noteq> tr_isCJK b)
        ((runs @ [?run]) @ [\<lparr>tr_text = runeString [r], tr_isCJK = isCJK uc r\<rparr>])"
      using Cons.prems(5) False by (auto simp: successively_append_iff)
    ultimately show ?thesis using Cons.IH [of "[r]" "isCJK uc r" "runs @ [?run]"] Cons.prems v False by simp
  qed
qed



end
