(* ===== verification/SuffixTok.thy ===== *)
theory SuffixTok
  imports MixedTok
begin

text \<open>
  \<open>tokenizer/suffix_tokenizer.go\<close>: every base token is indexed with its suffixes, so that a prefix scan answers
  substring queries. The theorems say which substrings are found and that the search side never asks for a
  word the index side did not store.
\<close>

subsection \<open>The model\<close>

record SuffixTokenizer =
  st_DropShortTokens :: bool
  st_FilterStopwords :: bool

definition minASCIISuffixLen :: nat where "minASCIISuffixLen = 3"
definition minCJKSuffixLen :: nat where "minCJKSuffixLen = 1"
definition maxBaseChunkRunes :: nat where "maxBaseChunkRunes = 64"

text \<open>\<open>reSuffixWord.FindAllString\<close>, the maximal runs of letters and numbers; \<open>cur\<close> is the run read so far.\<close>

function wordsFrom :: "unicode \<Rightarrow> bytes \<Rightarrow> bytes \<Rightarrow> bytes list" where
  "wordsFrom uc cur s =
     (if s = [] then (if cur = [] then [] else [cur])
      else if IsLetter uc (fst (DecodeRune s)) \<or> IsNumber uc (fst (DecodeRune s))
      then wordsFrom uc (cur @ take (snd (DecodeRune s)) s) (drop (snd (DecodeRune s)) s)
      else (if cur = [] then [] else [cur]) @ wordsFrom uc [] (drop (snd (DecodeRune s)) s))"
  by pat_completeness auto

termination
  by (relation "measure (\<lambda>(uc, cur, s). length s)") (use DecodeRune_width in fastforce)+

declare wordsFrom.simps [simp del]

definition appendWordBase :: "unicode \<Rightarrow> bytes list \<Rightarrow> bytes \<Rightarrow> bytes list" where
  "appendWordBase uc dst run = dst @ map (ToLower uc) (wordsFrom uc [] run)"

text \<open>The loop of \<open>appendCJKBase\<close> over the segments.\<close>

definition cjkBase :: "unicode \<Rightarrow> SuffixTokenizer \<Rightarrow> bytes \<Rightarrow> bytes option" where
  "cjkBase uc t seg0 =
     (let seg = TrimSpace uc seg0 in
      if seg = [] \<or> isPunctOrSpace uc seg then None
      else if st_FilterStopwords t \<and> isStopWord seg then None
      else Some (ToLower uc seg))"

definition appendCJKBase ::
  "unicode \<Rightarrow> 'f Segmenter option \<Rightarrow> SuffixTokenizer \<Rightarrow> bytes list \<Rightarrow> bytes \<Rightarrow> bytes list option" where
  "appendCJKBase uc seg t dst run =
     (case cut uc seg run of None \<Rightarrow> None | Some segs \<Rightarrow> Some (dst @ List.map_filter (cjkBase uc t) segs))"

function chunksFrom :: "nat list \<Rightarrow> nat \<Rightarrow> bytes list" where
  "chunksFrom runes start =
     (if start < length runes then
        runeString (take maxBaseChunkRunes (drop start runes)) # chunksFrom runes (start + maxBaseChunkRunes)
      else [])"
  by pat_completeness auto

termination
  by (relation "measure (\<lambda>(runes, start). length runes - start)") (auto simp: maxBaseChunkRunes_def)

declare chunksFrom.simps [simp del]

definition chunkTokens :: "bytes list \<Rightarrow> bytes list" where
  "chunkTokens toks =
     (if \<not> list_ex (\<lambda>tok. maxBaseChunkRunes < length (Runes tok)) toks then toks
      else concat (map (\<lambda>tok. if length (Runes tok) \<le> maxBaseChunkRunes then [tok] else chunksFrom (Runes tok) 0) toks))"

fun baseRuns ::
  "unicode \<Rightarrow> 'f Segmenter option \<Rightarrow> SuffixTokenizer \<Rightarrow> textRun list \<Rightarrow> bytes list \<Rightarrow> bytes list option" where
  "baseRuns uc seg t [] out = Some out"
| "baseRuns uc seg t (run # runs) out =
     (if tr_isCJK run
      then (case appendCJKBase uc seg t out (tr_text run) of None \<Rightarrow> None | Some out \<Rightarrow> baseRuns uc seg t runs out)
      else baseRuns uc seg t runs (appendWordBase uc out (tr_text run)))"

definition baseTokens :: "unicode \<Rightarrow> 'f Segmenter option \<Rightarrow> SuffixTokenizer \<Rightarrow> bytes \<Rightarrow> bytes list option" where
  "baseTokens uc seg t str0 =
     (let str = normalizeForSegmentation str0 in
      if str = [] then Some []
      else map_option chunkTokens (baseRuns uc seg t (splitIntoRuns uc str) []))"

text \<open>The minimum of \<open>belowMin\<close> and \<open>appendSuffixes\<close>.\<close>

definition minSuffixLen :: "unicode \<Rightarrow> bytes \<Rightarrow> nat" where
  "minSuffixLen uc tok = (if containsCJK uc tok then minCJKSuffixLen else minASCIISuffixLen)"

definition belowMin :: "unicode \<Rightarrow> bytes \<Rightarrow> bool" where
  "belowMin uc tok \<longleftrightarrow> length (Runes tok) < minSuffixLen uc tok"

definition appendSuffixes :: "unicode \<Rightarrow> bool \<Rightarrow> bytes \<Rightarrow> bytes list \<Rightarrow> bytes list" where
  "appendSuffixes uc dropShort tok uniq =
     (let minLen = minSuffixLen uc tok; runes = Runes tok; n = length runes in
      if n = 0 then uniq
      else if n < minLen then (if \<not> dropShort then push tok uniq else uniq)
      else fold (\<lambda>k. push (runeString (drop k runes))) [0..<n - minLen + 1] uniq)"

definition Suffix_TokenizeForIndex :: "unicode \<Rightarrow> 'f Segmenter option \<Rightarrow> SuffixTokenizer \<Rightarrow> bytes \<Rightarrow> bytes list option" where
  "Suffix_TokenizeForIndex uc seg t str =
     (case baseTokens uc seg t str of
        None \<Rightarrow> None
      | Some base \<Rightarrow>
          Some (dropPrefixRedundant (sortedKeys (fold (appendSuffixes uc (st_DropShortTokens t)) base []))))"

definition Suffix_TokenizeForSearch ::
  "unicode \<Rightarrow> 'f Segmenter option \<Rightarrow> SuffixTokenizer \<Rightarrow> bytes \<Rightarrow> bool \<Rightarrow> (bytes list \<times> bytes list) option" where
  "Suffix_TokenizeForSearch uc seg t s exactMatching =
     (case baseTokens uc seg t s of
        None \<Rightarrow> None
      | Some base \<Rightarrow> Some (fold push (filter (\<lambda>tok. \<not> (st_DropShortTokens t \<and> belowMin uc tok)) base) [], []))"

subsection \<open>Base tokens\<close>

lemma baseRuns_total: "\<exists>base. baseRuns uc seg t runs out = Some base"
proof (induction runs arbitrary: out)
  case (Cons run runs)
  then show ?case using cut_total [of uc seg "tr_text run"] by (auto simp: appendCJKBase_def)
qed simp

lemma baseTokens_total: "\<exists>base. baseTokens uc seg t str = Some base"
  using baseRuns_total by (auto simp: baseTokens_def Let_def)

text \<open>A string that is encoded from runes decodes to a list that encodes to it.\<close>

lemma canonical_runeString: "runeString (Runes (runeString rs)) = runeString rs"
proof -
  define fix' where "fix' r = (if validRune r then r else RuneError)" for r
  have "EncodeRune (fix' r) = EncodeRune r" for r
    by (auto simp: fix'_def validRune_def RuneError_def EncodeRune_def char_of_def)
  then have "runeString (map fix' rs) = runeString rs" by (simp add: runeString_def cong: map_cong)
  moreover have "list_all validRune (map fix' rs)" by (auto simp: fix'_def list_all_iff validRune_def RuneError_def)
  ultimately show ?thesis using Runes_runeString by metis
qed

lemma runeString_eq_Nil [simp]: "runeString rs = [] \<longleftrightarrow> rs = []"
  by (cases rs) auto

lemma Runes_eq_Nil [simp]: "Runes s = [] \<longleftrightarrow> s = []"
  using Runes_rec [of s] by (cases "s = []") auto

text \<open>What is used of the case tables: lower-casing a valid rune gives one, and lower-casing twice is lower-casing
  once.\<close>

definition lower_ok :: "unicode \<Rightarrow> bool" where
  "lower_ok uc \<longleftrightarrow>
     (\<forall>r. 128 \<le> r \<longrightarrow> validRune r \<longrightarrow> validRune (uc_lower uc r) \<and> lowerRune uc (uc_lower uc r) = uc_lower uc r)"

lemma lowerRune_ok:
  assumes "lower_ok uc" "validRune r"
  shows "validRune (lowerRune uc r)" "lowerRune uc (lowerRune uc r) = lowerRune uc r"
  using assms by (auto simp: lower_ok_def lowerRune_def validRune_def)

definition okToken :: "unicode \<Rightarrow> bytes \<Rightarrow> bool" where
  "okToken uc tok \<longleftrightarrow>
     tok \<noteq> [] \<and> runeString (Runes tok) = tok \<and> (lower_ok uc \<longrightarrow> map (lowerRune uc) (Runes tok) = Runes tok)"

lemma okToken_ToLower:
  assumes "s \<noteq> []"
  shows "okToken uc (ToLower uc s)"
proof -
  have "map (lowerRune uc) (Runes (ToLower uc s)) = Runes (ToLower uc s)" if "lower_ok uc"
  proof -
    have "list_all validRune (map (lowerRune uc) (Runes s))"
      using validRune_Runes [of s] lowerRune_ok(1) [OF that] by (auto simp: list_all_iff)
    then have "Runes (ToLower uc s) = map (lowerRune uc) (Runes s)" by (simp add: ToLower_runes Runes_runeString)
    then show ?thesis using validRune_Runes [of s] lowerRune_ok(2) [OF that] by (auto simp: list_all_iff)
  qed
  with assms show ?thesis by (simp add: okToken_def ToLower_runes canonical_runeString)
qed

lemma okToken_part:
  assumes "okToken uc tok" "rs \<noteq> []" "set rs \<subseteq> set (Runes tok)"
  shows "okToken uc (runeString rs)"
proof -
  have "list_all validRune rs" using validRune_Runes [of tok] assms(3) by (auto simp: list_all_iff)
  then have "Runes (runeString rs) = rs" by (rule Runes_runeString)
  moreover have "map (lowerRune uc) rs = rs" if "lower_ok uc"
  proof -
    have "\<forall>r\<in>set (Runes tok). lowerRune uc r = r"
      using assms(1) that map_eq_conv [of "lowerRune uc" "Runes tok" id] by (simp add: okToken_def)
    then show ?thesis using assms(3) by (auto intro: map_idI)
  qed
  ultimately show ?thesis using assms(2) by (simp add: okToken_def)
qed

lemma wordsFrom_nonempty: "w \<in> set (wordsFrom uc cur s) \<Longrightarrow> w \<noteq> []"
proof (induction uc cur s rule: wordsFrom.induct)
  case (1 uc cur s)
  from 1(3) show ?case
    by (subst (asm) wordsFrom.simps) (auto split: if_splits dest: 1(1,2))
qed

lemma chunksFrom_ok: "okToken uc tok \<Longrightarrow> c \<in> set (chunksFrom (Runes tok) start) \<Longrightarrow> okToken uc c"
proof (induction "Runes tok" start rule: chunksFrom.induct)
  case (1 start)
  show ?case
  proof (cases "start < length (Runes tok) \<and> c = runeString (take maxBaseChunkRunes (drop start (Runes tok)))")
    case True
    have "set (take maxBaseChunkRunes (drop start (Runes tok))) \<subseteq> set (Runes tok)"
      by (meson set_drop_subset set_take_subset subset_trans)
    with okToken_part [OF 1(2)] True show ?thesis by (auto simp: maxBaseChunkRunes_def)
  next
    case False
    with 1(3) have "start < length (Runes tok)" "c \<in> set (chunksFrom (Runes tok) (start + maxBaseChunkRunes))"
      by (subst (asm) chunksFrom.simps, auto split: if_splits)+
    with 1(1,2) show ?thesis by blast
  qed
qed

lemma baseRuns_ok:
  assumes "baseRuns uc seg t runs out = Some base" "list_all (okToken uc) out"
  shows "list_all (okToken uc) base"
  using assms
proof (induction runs arbitrary: out)
  case (Cons run runs)
  have w: "list_all (okToken uc) (map (ToLower uc) (wordsFrom uc [] (tr_text run)))"
    by (auto simp: list_all_iff intro!: okToken_ToLower dest: wordsFrom_nonempty)
  have c: "list_all (okToken uc) (List.map_filter (cjkBase uc t) segs)" for segs
    by (auto simp: list_all_iff List.map_filter_def cjkBase_def Let_def intro: okToken_ToLower split: if_splits)
  from Cons.prems(1) obtain out' where "baseRuns uc seg t runs out' = Some base" "list_all (okToken uc) out'"
    using w c Cons.prems(2) by (fastforce simp: appendWordBase_def appendCJKBase_def split: if_splits option.splits)
  then show ?case by (rule Cons.IH)
qed simp

lemma baseTokens_ok: "baseTokens uc seg t str = Some base \<Longrightarrow> tok \<in> set base \<Longrightarrow> okToken uc tok"
proof -
  assume b: "baseTokens uc seg t str = Some base" "tok \<in> set base"
  then obtain out where o: "baseRuns uc seg t (splitIntoRuns uc (normalizeForSegmentation str)) [] = Some out" "tok \<in> set (chunkTokens out)"
    by (auto simp: baseTokens_def Let_def split: if_splits)
  have "\<forall>tok\<in>set out. okToken uc tok" using baseRuns_ok [OF o(1)] by (simp add: list_all_iff)
  then show ?thesis using o(2) chunksFrom_ok [of uc _ tok 0] by (auto simp: chunkTokens_def split: if_splits)
qed

subsection \<open>Keywords\<close>

text \<open>The keys of one token.\<close>

definition tokenKeys :: "unicode \<Rightarrow> bool \<Rightarrow> bytes \<Rightarrow> bytes set" where
  "tokenKeys uc dropShort tok =
     (if belowMin uc tok then (if dropShort then {} else {tok})
      else {runeString (drop k (Runes tok)) | k. k + minSuffixLen uc tok \<le> length (Runes tok)})"

lemma fold_push_map: "set (fold (\<lambda>k. push (f k)) ks u) = set u \<union> f ` set ks"
  by (induction ks arbitrary: u) auto

lemma minSuffixLen_pos: "1 \<le> minSuffixLen uc tok"
  by (simp add: minSuffixLen_def minCJKSuffixLen_def minASCIISuffixLen_def)

lemma set_appendSuffixes:
  assumes "tok \<noteq> []"
  shows "set (appendSuffixes uc dropShort tok uniq) = set uniq \<union> tokenKeys uc dropShort tok"
proof -
  let ?n = "length (Runes tok)" and ?m = "minSuffixLen uc tok"
  have n: "?n \<noteq> 0" using assms by simp
  show ?thesis
  proof (cases "?n < ?m")
    case False
    then have "set [0..<?n - ?m + 1] = {k. k + ?m \<le> ?n}" by auto
    with n False show ?thesis
      unfolding appendSuffixes_def tokenKeys_def belowMin_def Let_def by (simp only: if_False fold_push_map) auto
  qed (use n in \<open>auto simp: appendSuffixes_def tokenKeys_def belowMin_def Let_def\<close>)
qed

lemma set_suffixKeys:
  "\<forall>tok\<in>set base. tok \<noteq> [] \<Longrightarrow>
    set (fold (appendSuffixes uc dropShort) base uniq) = set uniq \<union> (\<Union>tok\<in>set base. tokenKeys uc dropShort tok)"
  by (induction base arbitrary: uniq) (auto simp: set_appendSuffixes)

lemma Suffix_index:
  assumes "baseTokens uc seg t str = Some base"
  obtains keys where "Suffix_TokenizeForIndex uc seg t str = Some (dropRedundant keys)" "sorted_wrt (<) keys"
    "set keys = (\<Union>tok\<in>set base. tokenKeys uc (st_DropShortTokens t) tok)"
proof -
  let ?k = "sortedKeys (fold (appendSuffixes uc (st_DropShortTokens t)) base [])"
  have "\<forall>tok\<in>set base. tok \<noteq> []" using baseTokens_ok [OF assms] by (auto simp: okToken_def)
  then have "set ?k = (\<Union>tok\<in>set base. tokenKeys uc (st_DropShortTokens t) tok)" by (simp add: set_suffixKeys)
  with that [of ?k] assms sorted_sortedKeys show thesis
    by (simp add: Suffix_TokenizeForIndex_def dropPrefixRedundant_eq)
qed

text \<open>The whole token is a prefix of one of its keys, unless it is short and short tokens are dropped.\<close>

lemma token_in_keys:
  assumes "okToken uc tok" "\<not> (dropShort \<and> belowMin uc tok)"
  shows "tok \<in> tokenKeys uc dropShort tok"
proof (cases "belowMin uc tok")
  case False
  then have "runeString (drop 0 (Runes tok)) \<in> tokenKeys uc dropShort tok"
    unfolding tokenKeys_def belowMin_def by (auto intro!: exI [of _ 0])
  then show ?thesis using assms(1) by (simp add: okToken_def)
qed (use assms in \<open>simp add: tokenKeys_def\<close>)

subsection \<open>Properties\<close>

text \<open>
  (C10) Substring retrieval: indexing a text succeeds, and whenever a base token of the text contains a word, rune
  for rune, that has the minimum suffix length of the token's script, some stored keyword starts with the word.
  Dropping redundant keywords loses none of these answers.
\<close>

theorem suffix_contains:
  assumes "baseTokens uc seg t str = Some base" "tok \<in> set base" "sublist xs (Runes tok)" "minSuffixLen uc tok \<le> length xs"
  shows "\<exists>ks. Suffix_TokenizeForIndex uc seg t str = Some ks \<and> (\<exists>k\<in>set ks. prefix (runeString xs) k)"
proof -
  obtain keys where k: "Suffix_TokenizeForIndex uc seg t str = Some (dropRedundant keys)"
      "sorted_wrt (<) keys" "set keys = (\<Union>tok\<in>set base. tokenKeys uc (st_DropShortTokens t) tok)"
    by (rule Suffix_index [OF assms(1)])
  obtain as bs where r: "Runes tok = as @ xs @ bs" using assms(3) by (auto simp: sublist_def)
  have "length as + minSuffixLen uc tok \<le> length (Runes tok)" using assms(4) by (simp add: r)
  moreover from this have "\<not> belowMin uc tok" by (simp add: belowMin_def)
  ultimately have "runeString (drop (length as) (Runes tok)) \<in> tokenKeys uc (st_DropShortTokens t) tok"
    by (auto simp: tokenKeys_def)
  then have "runeString (xs @ bs) \<in> set keys" using k(3) assms(2) by (auto simp: r)
  moreover have "prefix (runeString xs) (runeString (xs @ bs))" by simp
  ultimately show ?thesis using k(1) dropRedundant_prefix_iff by fastforce
qed

text \<open>Case tables that know no letter outside ASCII.\<close>

definition asciiTables :: unicode where
  "asciiTables =
     \<lparr>uc_lower = (\<lambda>r. r), uc_upper = (\<lambda>_. False), uc_lowercase = (\<lambda>_. False), uc_space = (\<lambda>_. False),
      uc_punct = (\<lambda>_. False), uc_symbol = (\<lambda>_. False), uc_letter = (\<lambda>_. False), uc_number = (\<lambda>_. False),
      uc_cjk = (\<lambda>_. False)\<rparr>"

definition exampleSuffix :: SuffixTokenizer where
  "exampleSuffix = \<lparr>st_DropShortTokens = False, st_FilterStopwords = False\<rparr>"

lemma example_base: "baseTokens asciiTables (None :: int Segmenter option) exampleSuffix ''Read_Me'' = Some [''read'', ''me'']"
  by code_simp

theorem suffix_contains_witness:
  "\<exists>ks. Suffix_TokenizeForIndex asciiTables (None :: int Segmenter option) exampleSuffix ''Read_Me'' = Some ks \<and>
     (\<exists>k\<in>set ks. prefix ''ead'' k)"
proof -
  have e: "Runes ''read'' = [114, 101, 97, 100]" "runeString [101, 97, 100] = ''ead''" by code_simp+
  have "minSuffixLen asciiTables ''read'' \<le> length [101, 97, 100::nat]" by code_simp
  moreover have "sublist [101, 97, 100] (Runes ''read'')" unfolding e(1) by (auto simp: sublist_def intro: exI [of _ "[114]"])
  ultimately show ?thesis using suffix_contains [OF example_base, of "''read''" "[101, 97, 100]"] e(2) by simp
qed

text \<open>
  (C27) The two sides agree: neither panics, and every word the search side asks for in a text, also after the
  index has lower-cased it once more, is a prefix of a keyword stored for that text, whatever the two switches
  are. No limit on the length is needed.
\<close>

theorem suffix_symmetric:
  assumes "lower_ok uc"
  shows "\<exists>ks ws. Suffix_TokenizeForIndex uc seg t s = Some ks \<and> Suffix_TokenizeForSearch uc seg t s ex = Some (ws, []) \<and>
    distinct ws \<and> \<not> (\<exists>w\<in>set ws. \<not> hits uc w ks)"
proof -
  obtain base where b: "baseTokens uc seg t s = Some base" using baseTokens_total by blast
  obtain keys where k: "Suffix_TokenizeForIndex uc seg t s = Some (dropRedundant keys)"
      "sorted_wrt (<) keys" "set keys = (\<Union>tok\<in>set base. tokenKeys uc (st_DropShortTokens t) tok)"
    by (rule Suffix_index [OF b])
  let ?ws = "fold push (filter (\<lambda>tok. \<not> (st_DropShortTokens t \<and> belowMin uc tok)) base) []"
  have "hits uc w (dropRedundant keys)" if "w \<in> set ?ws" for w
  proof -
    have w: "w \<in> set base" "\<not> (st_DropShortTokens t \<and> belowMin uc w)" using that by (auto simp: fold_push)
    have ok: "okToken uc w" using baseTokens_ok [OF b w(1)] .
    then have "ToLower uc w = w" using assms by (simp add: ToLower_runes okToken_def)
    moreover have "w \<in> set keys" using token_in_keys [OF ok w(2)] w(1) k(3) by auto
    ultimately show ?thesis using dropRedundant_covers [of w keys] by (simp add: hits_def)
  qed
  then show ?thesis using k(1) b by (auto simp: Suffix_TokenizeForSearch_def fold_push)
qed

theorem suffix_symmetric_witness:
  "lower_ok asciiTables \<and>
   (\<exists>ks ws. Suffix_TokenizeForIndex asciiTables (None :: int Segmenter option) exampleSuffix ''Read_Me'' = Some ks \<and>
      Suffix_TokenizeForSearch asciiTables (None :: int Segmenter option) exampleSuffix ''Read_Me'' True = Some (ws, []) \<and>
      ws = [''read'', ''me''] \<and> hits asciiTables ''me'' ks)"
proof -
  have l: "lower_ok asciiTables" by (simp add: lower_ok_def asciiTables_def lowerRune_def)
  have "Suffix_TokenizeForSearch asciiTables (None :: int Segmenter option) exampleSuffix ''Read_Me'' True = Some ([''read'', ''me''], [])"
    unfolding Suffix_TokenizeForSearch_def example_base by (simp add: exampleSuffix_def push_def)
  with l suffix_symmetric [OF l, of "None :: int Segmenter option" exampleSuffix "''Read_Me''" True] show ?thesis by auto
qed

end
