(* ===== verification/Retrieval.thy ===== *)
theory Retrieval
  imports InvSync MixedTok SuffixTok
begin

text \<open>
  The tokenizers and the inverted index together: a document whose keywords come from a tokenizer is returned by
  \<open>Search\<close> for the words the same tokenizer asks for.
\<close>

context tokenizer
begin

lemma retrieved:
  assumes "kv_ok db0" "kv_map db0 = Map.empty" "idx0 = newIndex opts now1 now2"
    "distinct [idx_keyTypeRow idx0, idx_keyTypeForward idx0, idx_keyTypeTable idx0, idx_keyTypeNextId idx0]"
    "irun T (ops @ [IFlush True]) (idx0, db0) (idx, db)"
    and "fold specStep ops Map.empty (t, d) = Some ks" "forIndex content = Some ks"
    and "forSearch content True = Some (ws, wildcards)" "w \<in> set ws" "fits w" "bar \<notin> set (ToLower uc w)"
  shows "d \<in> set (Search uc idx db t w 0 None)"
proof -
  note r = run_posts [OF assms(1-5)]
  obtain k where k: "k \<in> set ks" "prefix (ToLower uc w) k"
    using search_hits [OF assms(7-10)] unfolding hits_def by blast
  then have "d \<in> posts (idx_keyTypeRow idx) (kv_map db) t k" using r(3) [of t k] assms(6) by auto
  with k(2) show ?thesis using Search_posts [OF r(1,2) assms(11), of 0 t] by auto
qed

end



end
