(* ===== verification/Queue.thy ===== *)
theory Queue
  imports Prelude
begin

text \<open>
  \<open>queue/mpsc.go\<close>: the multi-producer, single-consumer task queue that every writer of the system shares, as a
  step relation over its goroutines. A producer is a number; \<open>PSending\<close> is a goroutine that has seen \<open>m.q != nil\<close>
  and is at its send. Sending to a full buffer waits, to a closed channel panics, and to a nil channel blocks for
  ever. The consumer runs one task at a time; \<open>run t\<close> is the error that task \<open>t\<close> returns (\<open>None\<close> is nil). A task
  is opaque: it does not use the queue itself. \<open>Start\<close> and \<open>Stop\<close> are called by one goroutine. The histories
  \<open>accepted\<close> and \<open>executed\<close> only record what happened.
\<close>

subsection \<open>The model\<close>

text \<open>\<open>Plain\<close> is a task put by \<open>Add\<close> or \<open>AddFunc\<close>, \<open>Wait\<close> a \<open>waitTask\<close> with the producer that listens on its
  \<open>done\<close> channel.\<close>

datatype 't job = Plain 't | Wait nat 't

datatype 't producer = PIdle | PSending "'t job" | PWaiting 't | PReturned 't "error option" | PDropped | PBlocked | PPanicked

datatype 't consumer = CIdle | CRunning "'t job" | CDelivering nat 't "error option" | CExited

record 't channel =
  ch_cap :: nat
  ch_buf :: "'t job list"
  ch_closed :: bool

record 't Mpsc =
  m_queueSize :: int
  m_q :: "'t channel option"
  m_consumer :: "'t consumer"
  m_stopping :: bool
  m_prod :: "nat \<Rightarrow> 't producer"
  m_accepted :: "'t job list"
  m_executed :: "'t job list"

definition NewMpsc :: "'t Mpsc" where
  "NewMpsc = \<lparr>m_queueSize = 100, m_q = None, m_consumer = CExited, m_stopping = False, m_prod = (\<lambda>_. PIdle),
              m_accepted = [], m_executed = []\<rparr>"

definition SetQueueSize :: "int \<Rightarrow> 't Mpsc \<Rightarrow> 't Mpsc" where
  "SetQueueSize n m = (if n \<le> 0 then m else if m_q m \<noteq> None then m else m\<lparr>m_queueSize := n\<rparr>)"

definition Start :: "'t Mpsc \<Rightarrow> 't Mpsc" where
  "Start m =
     (if m_q m \<noteq> None then m
      else let n = (if m_queueSize m \<le> 0 then 100 else m_queueSize m) in
        m\<lparr>m_q := Some \<lparr>ch_cap = nat n, ch_buf = [], ch_closed = False\<rparr>, m_consumer := CIdle\<rparr>)"

text \<open>\<open>Stop\<close> up to the wait for \<open>m.done\<close>, and from there.\<close>

definition StopClose :: "'t Mpsc \<Rightarrow> 't Mpsc" where
  "StopClose m = (case m_q m of None \<Rightarrow> m | Some ch \<Rightarrow> m\<lparr>m_q := Some (ch\<lparr>ch_closed := True\<rparr>), m_stopping := True\<rparr>)"

definition StopReturn :: "'t Mpsc \<Rightarrow> 't Mpsc" where
  "StopReturn m = m\<lparr>m_q := None, m_stopping := False\<rparr>"

definition setProd :: "nat \<Rightarrow> 't producer \<Rightarrow> 't Mpsc \<Rightarrow> 't Mpsc" where
  "setProd p st m = m\<lparr>m_prod := (m_prod m)(p := st)\<rparr>"

text \<open>The entry of the four submission methods, up to the send.\<close>

definition QAdd :: "nat \<Rightarrow> 't \<Rightarrow> 't Mpsc \<Rightarrow> 't Mpsc" where
  "QAdd p task m = setProd p (if m_q m = None then PDropped else PSending (Plain task)) m"

definition QRunTask :: "nat \<Rightarrow> 't \<Rightarrow> 't Mpsc \<Rightarrow> 't Mpsc" where
  "QRunTask p task m = setProd p (if m_q m = None then PBlocked else PSending (Wait p task)) m"

definition QAddFunc :: "nat \<Rightarrow> 't \<Rightarrow> 't Mpsc \<Rightarrow> 't Mpsc" where
  "QAddFunc p fn m = setProd p (if m_q m = None then PDropped else PSending (Plain fn)) m"

definition QRunFunc :: "nat \<Rightarrow> 't \<Rightarrow> 't Mpsc \<Rightarrow> 't Mpsc" where
  "QRunFunc p fn m = setProd p (if m_q m = None then PDropped else PSending (Wait p fn)) m"

text \<open>What the goroutines do on their own: sends, the consumer's loop, \<open>waitTask.Run\<close>, and the end of \<open>Stop\<close>.\<close>

inductive qstep :: "('t \<Rightarrow> error option) \<Rightarrow> 't Mpsc \<Rightarrow> 't Mpsc \<Rightarrow> bool" for run where
  send: "m_prod m p = PSending j \<Longrightarrow> m_q m = Some ch \<Longrightarrow> \<not> ch_closed ch \<Longrightarrow> length (ch_buf ch) < ch_cap ch \<Longrightarrow>
    qstep run m (setProd p (case j of Plain _ \<Rightarrow> PIdle | Wait _ t \<Rightarrow> PWaiting t)
      (m\<lparr>m_q := Some (ch\<lparr>ch_buf := ch_buf ch @ [j]\<rparr>), m_accepted := m_accepted m @ [j]\<rparr>))"
| sendPanic: "m_prod m p = PSending j \<Longrightarrow> m_q m = Some ch \<Longrightarrow> ch_closed ch \<Longrightarrow> qstep run m (setProd p PPanicked m)"
| sendNil: "m_prod m p = PSending j \<Longrightarrow> m_q m = None \<Longrightarrow> qstep run m (setProd p PBlocked m)"
| recv: "m_consumer m = CIdle \<Longrightarrow> m_q m = Some ch \<Longrightarrow> ch_buf ch = j # rest \<Longrightarrow>
    qstep run m (m\<lparr>m_q := Some (ch\<lparr>ch_buf := rest\<rparr>), m_consumer := CRunning j\<rparr>)"
| recvClosed: "m_consumer m = CIdle \<Longrightarrow> m_q m = Some ch \<Longrightarrow> ch_buf ch = [] \<Longrightarrow> ch_closed ch \<Longrightarrow>
    qstep run m (m\<lparr>m_consumer := CExited\<rparr>)"
| finish: "m_consumer m = CRunning j \<Longrightarrow>
    qstep run m (m\<lparr>m_consumer := (case j of Plain t \<Rightarrow> CIdle | Wait p t \<Rightarrow> CDelivering p t (run t)),
                   m_executed := m_executed m @ [j]\<rparr>)"
| deliver: "m_consumer m = CDelivering p t err \<Longrightarrow> m_prod m p = PWaiting t \<Longrightarrow>
    qstep run m (setProd p (PReturned t err) (m\<lparr>m_consumer := CIdle\<rparr>))"
| stopReturn: "m_stopping m \<Longrightarrow> m_consumer m = CExited \<Longrightarrow> qstep run m (StopReturn m)"

text \<open>What callers do: a producer that is not inside a call may make one.\<close>

definition mayCall :: "'t producer \<Rightarrow> bool" where
  "mayCall st = (case st of PSending _ \<Rightarrow> False | PWaiting _ \<Rightarrow> False | PBlocked \<Rightarrow> False | PPanicked \<Rightarrow> False | _ \<Rightarrow> True)"

inductive qcall :: "'t Mpsc \<Rightarrow> 't Mpsc \<Rightarrow> bool" where
  setSize: "qcall m (SetQueueSize n m)"
| start: "qcall m (Start m)"
| stop: "\<not> m_stopping m \<Longrightarrow> qcall m (StopClose m)"
| add: "mayCall (m_prod m p) \<Longrightarrow> qcall m (QAdd p t m)"
| runTask: "mayCall (m_prod m p) \<Longrightarrow> qcall m (QRunTask p t m)"
| addFunc: "mayCall (m_prod m p) \<Longrightarrow> qcall m (QAddFunc p t m)"
| runFunc: "mayCall (m_prod m p) \<Longrightarrow> qcall m (QRunFunc p t m)"

inductive qreach :: "('t \<Rightarrow> error option) \<Rightarrow> 't Mpsc \<Rightarrow> bool" for run where
  init: "qreach run NewMpsc"
| step: "qreach run m \<Longrightarrow> qstep run m m' \<Longrightarrow> qreach run m'"
| call: "qreach run m \<Longrightarrow> qcall m m' \<Longrightarrow> qreach run m'"

inductive_cases qstepE: "qstep run m m'"
inductive_cases qcallE: "qcall m m'"

subsection \<open>Order of execution\<close>

definition inflight :: "'t Mpsc \<Rightarrow> 't job list" where
  "inflight m = (case m_consumer m of CRunning j \<Rightarrow> [j] | _ \<Rightarrow> [])"

definition buffered :: "'t Mpsc \<Rightarrow> 't job list" where
  "buffered m = (case m_q m of None \<Rightarrow> [] | Some ch \<Rightarrow> ch_buf ch)"

definition orderInv :: "'t Mpsc \<Rightarrow> bool" where
  "orderInv m \<longleftrightarrow>
     m_executed m @ inflight m @ buffered m = m_accepted m \<and>
     (case m_q m of
        None \<Rightarrow> m_consumer m = CExited \<and> \<not> m_stopping m
      | Some ch \<Rightarrow> 0 < ch_cap ch \<and> (ch_closed ch \<longleftrightarrow> m_stopping m) \<and>
          (m_consumer m = CExited \<longrightarrow> ch_closed ch \<and> ch_buf ch = []))"

lemmas queue_defs = inflight_def buffered_def setProd_def StopReturn_def StopClose_def Start_def SetQueueSize_def
  QAdd_def QRunTask_def QAddFunc_def QRunFunc_def

lemma orderInv_setProd [simp]: "orderInv (setProd p st m) = orderInv m"
  by (cases "m_q m") (simp_all add: orderInv_def inflight_def buffered_def setProd_def)

lemma orderInv_step:
  assumes "qstep run m m'" "orderInv m"
  shows "orderInv m'"
  using assms
proof (induction rule: qstep.induct)
  case (send m p j ch)
  then show ?case unfolding orderInv_setProd by (auto simp: orderInv_def inflight_def buffered_def)
next
  case (finish m j)
  then show ?case by (cases "m_q m") (auto simp: orderInv_def inflight_def buffered_def split: job.splits)
next
  case (stopReturn m)
  then show ?case by (cases "m_q m") (auto simp: orderInv_def inflight_def buffered_def StopReturn_def)
next
  case (deliver m p t err)
  then show ?case unfolding orderInv_setProd by (cases "m_q m") (auto simp: orderInv_def inflight_def buffered_def)
next
  case (sendPanic m p j ch)
  then show ?case by simp
next
  case (sendNil m p j)
  then show ?case by simp
qed (auto simp: orderInv_def inflight_def buffered_def)

lemma orderInv_call:
  assumes "qcall m m'" "orderInv m"
  shows "orderInv m'"
  using assms
proof (induction rule: qcall.induct)
  case (setSize m n)
  then show ?case by (cases "m_q m") (auto simp: SetQueueSize_def orderInv_def inflight_def buffered_def)
next
  case (start m)
  then show ?case by (cases "m_q m") (auto simp: Start_def orderInv_def inflight_def buffered_def Let_def)
next
  case (stop m)
  then show ?case by (cases "m_q m") (auto simp: StopClose_def orderInv_def inflight_def buffered_def)
qed (simp_all add: QAdd_def QRunTask_def QAddFunc_def QRunFunc_def)

lemma orderInv_reach: "qreach run m \<Longrightarrow> orderInv m"
proof (induction rule: qreach.induct)
  case init
  show ?case by (simp add: orderInv_def NewMpsc_def queue_defs)
qed (auto intro: orderInv_step orderInv_call)

subsection \<open>Waiting producers\<close>

definition waitsOf :: "'t job \<Rightarrow> (nat \<times> 't) list" where
  "waitsOf j = (case j of Plain _ \<Rightarrow> [] | Wait p t \<Rightarrow> [(p, t)])"

definition waiters :: "'t Mpsc \<Rightarrow> (nat \<times> 't) list" where
  "waiters m =
     (case m_consumer m of CDelivering p t _ \<Rightarrow> [(p, t)] | CRunning j \<Rightarrow> waitsOf j | _ \<Rightarrow> []) @ concat (map waitsOf (buffered m))"

definition waitInv :: "('t \<Rightarrow> error option) \<Rightarrow> 't Mpsc \<Rightarrow> bool" where
  "waitInv run m \<longleftrightarrow>
     distinct (map fst (waiters m)) \<and> (\<forall>p t. (p, t) \<in> set (waiters m) \<longleftrightarrow> m_prod m p = PWaiting t) \<and>
     (\<forall>p q t. m_prod m p = PSending (Wait q t) \<longrightarrow> q = p) \<and>
     (\<forall>p t err. m_consumer m = CDelivering p t err \<or> m_prod m p = PReturned t err \<longrightarrow> err = run t \<and> Wait p t \<in> set (m_executed m)) \<and>
     finite {p. m_prod m p \<noteq> PIdle}"

lemma fst_waiters: "p \<in> fst ` set ws \<longleftrightarrow> (\<exists>t. (p, t) \<in> set ws)"
  by force

lemma finite_prod_update: "finite {p. f p \<noteq> PIdle} \<Longrightarrow> finite {q. (f(p := st)) q \<noteq> PIdle}"
  by (rule finite_subset [of _ "insert p {p. f p \<noteq> PIdle}"]) auto

lemma waitInv_enter:
  assumes "mayCall (m_prod m p)" "waitInv run m" "st \<in> {PDropped, PBlocked} \<union> {PSending (Plain t) | t. True} \<union> {PSending (Wait p t) | t. True}"
  shows "waitInv run (setProd p st m)"
proof -
  have "waiters (setProd p st m) = waiters m" by (simp add: waiters_def buffered_def setProd_def)
  moreover have "m_prod m p \<noteq> PWaiting t" for t using assms(1) by (auto simp: mayCall_def)
  ultimately show ?thesis
    using assms(2,3) finite_prod_update [of "m_prod m" p st] unfolding waitInv_def by (auto simp: setProd_def)
qed

lemma waitInv_cong:
  assumes "waitInv run m" "waiters m' = waiters m" "m_prod m' = m_prod m" "m_executed m' = m_executed m"
    "m_consumer m' = m_consumer m \<or> m_consumer m' = CIdle \<or> m_consumer m' = CExited"
  shows "waitInv run m'"
  using assms unfolding waitInv_def by auto

lemma waitInv_call:
  assumes "qcall m m'" "waitInv run m" "orderInv m"
  shows "waitInv run m'"
  using assms
proof (induction rule: qcall.induct)
  case (setSize m n)
  show ?case by (rule waitInv_cong [OF setSize(1)]) (simp_all add: SetQueueSize_def waiters_def buffered_def)
next
  case (start m)
  have "m_q m = None \<Longrightarrow> m_consumer m = CExited" using start(2) by (simp add: orderInv_def)
  then show ?case
    by (intro waitInv_cong [OF start(1)]; cases "m_q m") (simp_all add: Start_def waiters_def buffered_def Let_def)
next
  case (stop m)
  show ?case
    by (rule waitInv_cong [OF stop(2)]; cases "m_q m") (simp_all add: StopClose_def waiters_def buffered_def)
next
  case (add m p t)
  then show ?case using waitInv_enter [of m p] by (simp add: QAdd_def)
next
  case (runTask m p t)
  then show ?case using waitInv_enter [of m p] by (simp add: QRunTask_def)
next
  case (addFunc m p t)
  then show ?case using waitInv_enter [of m p] by (simp add: QAddFunc_def)
next
  case (runFunc m p t)
  then show ?case using waitInv_enter [of m p] by (simp add: QRunFunc_def)
qed

lemma waitInv_setProd:
  assumes "waitInv run m" "\<forall>t. m_prod m p \<noteq> PWaiting t" "st \<in> {PIdle, PBlocked, PPanicked}"
  shows "waitInv run (setProd p st m)"
proof -
  have "waiters (setProd p st m) = waiters m" by (simp add: waiters_def buffered_def setProd_def)
  then show ?thesis
    using assms finite_prod_update [of "m_prod m" p st] unfolding waitInv_def by (auto simp: setProd_def)
qed

lemma waitInv_send:
  assumes inv: "waitInv run m" and p: "m_prod m p = PSending (Wait q t)" and w: "waiters m' = waiters m @ [(q, t)]"
    and s: "m_prod m' = m_prod m" "m_executed m' = m_executed m" "m_consumer m' = m_consumer m"
  shows "waitInv run (setProd p (PWaiting t) m')"
proof -
  have q: "q = p" using inv p by (simp add: waitInv_def)
  have n: "p \<notin> fst ` set (waiters m)" using inv p unfolding fst_waiters waitInv_def by auto
  have "waiters (setProd p (PWaiting t) m') = waiters m @ [(p, t)]"
    using w by (simp add: q waiters_def buffered_def setProd_def)
  then show ?thesis
    using inv n s p finite_prod_update [of "m_prod m" p "PWaiting t"] unfolding waitInv_def by (auto simp: setProd_def)
qed

lemma waitInv_deliver:
  assumes inv: "waitInv run m" and c: "m_consumer m = CDelivering p t err"
  shows "waitInv run (setProd p (PReturned t err) (m\<lparr>m_consumer := CIdle\<rparr>))"
proof -
  let ?m = "setProd p (PReturned t err) (m\<lparr>m_consumer := CIdle\<rparr>)"
  have w: "waiters m = (p, t) # waiters ?m" by (simp add: waiters_def c buffered_def setProd_def)
  then have "p \<notin> fst ` set (waiters ?m)" "distinct (map fst (waiters ?m))" using inv by (auto simp: waitInv_def)
  then show ?thesis
    using inv c w finite_prod_update [of "m_prod m" p "PReturned t err"] unfolding waitInv_def fst_waiters by (auto simp: setProd_def)
qed

lemma waitInv_step:
  assumes "qstep run m m'" "waitInv run m" "orderInv m"
  shows "waitInv run m'"
  using assms
proof (induction rule: qstep.induct)
  case (send m p j ch)
  let ?m = "m\<lparr>m_q := Some (ch\<lparr>ch_buf := ch_buf ch @ [j]\<rparr>), m_accepted := m_accepted m @ [j]\<rparr>"
  have w: "waiters ?m = waiters m @ waitsOf j" using send(2) by (simp add: waiters_def buffered_def)
  show ?case
  proof (cases j)
    case (Plain t)
    have "waitInv run ?m" using send(5) w Plain by (intro waitInv_cong [OF send(5)]) (simp_all add: waitsOf_def)
    from waitInv_setProd [OF this, of p PIdle] send(1) Plain show ?thesis by simp
  next
    case (Wait q t)
    with waitInv_send [of run m p q t ?m] send(1,5) w show ?thesis by (simp add: waitsOf_def)
  qed
next
  case (recv m ch j rest)
  have "waiters (m\<lparr>m_q := Some (ch\<lparr>ch_buf := rest\<rparr>), m_consumer := CRunning j\<rparr>) = waiters m"
    using recv(1-3) by (simp add: waiters_def buffered_def)
  then show ?case using recv(4) unfolding waitInv_def by simp
next
  case (recvClosed m ch)
  show ?case by (rule waitInv_cong [OF recvClosed(5)]) (use recvClosed(1) in \<open>simp_all add: waiters_def buffered_def\<close>)
next
  case (finish m j)
  let ?m = "m\<lparr>m_consumer := (case j of Plain t \<Rightarrow> CIdle | Wait p t \<Rightarrow> CDelivering p t (run t)), m_executed := m_executed m @ [j]\<rparr>"
  have "waiters ?m = waiters m" using finish(1) by (simp add: waiters_def buffered_def waitsOf_def split: job.splits)
  then show ?case using finish(2) unfolding waitInv_def by (auto split: job.splits)
next
  case (stopReturn m)
  have "buffered m = []" using stopReturn(2,4) by (simp add: orderInv_def buffered_def split: option.splits)
  then show ?case by (intro waitInv_cong [OF stopReturn(3)]) (simp_all add: StopReturn_def waiters_def buffered_def)
qed (auto intro: waitInv_setProd waitInv_deliver)

lemma waitInv_reach: "qreach run m \<Longrightarrow> waitInv run m"
proof (induction rule: qreach.induct)
  case init
  show ?case by (simp add: waitInv_def NewMpsc_def waiters_def buffered_def)
next
  case (step m m')
  then show ?case using waitInv_step orderInv_reach by blast
next
  case (call m m')
  then show ?case using waitInv_call orderInv_reach by blast
qed

subsection \<open>Progress\<close>

definition sending :: "'t Mpsc \<Rightarrow> nat set" where
  "sending m = {p. \<exists>j. m_prod m p = PSending j}"

definition weight :: "'t Mpsc \<Rightarrow> nat" where
  "weight m =
     5 * card (sending m) + 4 * length (buffered m) +
     (case m_consumer m of CRunning _ \<Rightarrow> 3 | CDelivering _ _ _ \<Rightarrow> 2 | CIdle \<Rightarrow> 1 | CExited \<Rightarrow> 0) + (if m_stopping m then 1 else 0)"

lemma finite_sending: "waitInv run m \<Longrightarrow> finite (sending m)"
  unfolding waitInv_def sending_def by (rule rev_finite_subset [of "{p. m_prod m p \<noteq> PIdle}"]) auto

lemma card_sending_setProd:
  assumes "finite (sending m)" "m_prod m p = PSending j" "\<forall>j. st \<noteq> PSending j" "m_prod m' = m_prod m"
  shows "Suc (card (sending (setProd p st m'))) = card (sending m)"
proof -
  have "sending (setProd p st m') = sending m - {p}" using assms(3,4) by (auto simp: sending_def setProd_def)
  moreover have "p \<in> sending m" using assms(2) by (auto simp: sending_def)
  ultimately show ?thesis using assms(1) card_Suc_Diff1 by metis
qed

lemma weight_step:
  assumes "qstep run m m'" "finite (sending m)" "orderInv m"
  shows "weight m' < weight m"
  using assms
proof (induction rule: qstep.induct)
  case (send m p j ch)
  have "Suc (card (sending (setProd p (case j of Plain _ \<Rightarrow> PIdle | Wait _ t \<Rightarrow> PWaiting t)
      (m\<lparr>m_q := Some (ch\<lparr>ch_buf := ch_buf ch @ [j]\<rparr>), m_accepted := m_accepted m @ [j]\<rparr>)))) = card (sending m)"
    using send by (intro card_sending_setProd) (auto split: job.splits)
  then show ?case using send(2) by (simp add: weight_def setProd_def buffered_def)
next
  case (sendPanic m p j ch)
  then show ?case using card_sending_setProd [of m p j PPanicked m] by (simp add: weight_def setProd_def buffered_def)
next
  case (sendNil m p j)
  then show ?case using card_sending_setProd [of m p j PBlocked m] by (simp add: weight_def setProd_def buffered_def)
next
  case (deliver m p t err)
  have "sending (setProd p (PReturned t err) (m\<lparr>m_consumer := CIdle\<rparr>)) = sending m"
    using deliver(2) by (auto simp: sending_def setProd_def)
  then show ?case using deliver(1) by (simp add: weight_def setProd_def buffered_def)
next
  case (stopReturn m)
  then show ?case by (auto simp: weight_def StopReturn_def buffered_def sending_def orderInv_def split: option.splits)
qed (auto simp: weight_def buffered_def sending_def split: job.splits)

text \<open>A state in which no goroutine can move.\<close>

lemma quiescent:
  assumes r: "qreach run m" and q: "\<nexists>m'. qstep run m m'"
  shows "m_executed m = m_accepted m" "\<forall>j. m_prod m p \<noteq> PSending j" "\<forall>t. m_prod m p \<noteq> PWaiting t"
proof -
  note o = orderInv_reach [OF r] and w = waitInv_reach [OF r]
  have c: "m_consumer m = CIdle \<or> m_consumer m = CExited"
  proof (cases "m_consumer m")
    case (CRunning j)
    from qstep.finish [OF this, of run] q show ?thesis by blast
  next
    case (CDelivering p t err)
    then have "(p, t) \<in> set (waiters m)" by (simp add: waiters_def)
    then have "m_prod m p = PWaiting t" using w by (simp add: waitInv_def)
    from qstep.deliver [OF CDelivering this, of run] q show ?thesis by blast
  qed auto
  have b: "buffered m = []"
  proof (cases "m_q m")
    case (Some ch)
    show ?thesis
    proof (cases "ch_buf ch")
      case (Cons j rest)
      then have "m_consumer m = CIdle" using c o Some by (auto simp: orderInv_def)
      from qstep.recv [OF this Some Cons, of run] q show ?thesis by blast
    qed (simp add: buffered_def Some)
  qed (simp add: buffered_def)
  show "m_executed m = m_accepted m" using o b c by (auto simp: orderInv_def inflight_def)
  have "waiters m = []" using b c by (auto simp: waiters_def)
  then show "\<forall>t. m_prod m p \<noteq> PWaiting t" using w by (auto simp: waitInv_def)
  show "\<forall>j. m_prod m p \<noteq> PSending j"
  proof (rule allI, rule notI)
    fix j assume p: "m_prod m p = PSending j"
    show False
    proof (cases "m_q m")
      case None
      from qstep.sendNil [OF p this, of run] q show False by blast
    next
      case (Some ch)
      then have "length (ch_buf ch) < ch_cap ch" using o b by (simp add: orderInv_def buffered_def)
      then show False using q qstep.send [OF p Some, of run] qstep.sendPanic [OF p Some, of run] by blast
    qed
  qed
qed

lemma waiting_kept:
  assumes "qstep run m m'" "waitInv run m" "m_prod m p = PWaiting t \<or> m_prod m p = PReturned t (run t)"
  shows "m_prod m' p = PWaiting t \<or> m_prod m' p = PReturned t (run t)"
  using assms
proof (induction rule: qstep.induct)
  case (deliver m q t' err)
  then have "err = run t'" by (auto simp: waitInv_def)
  with deliver show ?case by (auto simp: setProd_def)
qed (auto simp: setProd_def StopReturn_def)

lemma qsteps_reach: "(qstep run)\<^sup>*\<^sup>* m m' \<Longrightarrow> qreach run m \<Longrightarrow> qreach run m'"
  by (induction rule: rtranclp_induct) (auto intro: qreach.step)

lemma waiting_kept_steps:
  assumes "(qstep run)\<^sup>*\<^sup>* m m'" "qreach run m" "m_prod m p = PWaiting t"
  shows "m_prod m' p = PWaiting t \<or> m_prod m' p = PReturned t (run t)"
  using assms(1)
proof (induction rule: rtranclp_induct)
  case (step y z)
  then show ?case using waiting_kept [OF step(2)] waitInv_reach [OF qsteps_reach [OF step(1) assms(2)]] by blast
qed (simp add: assms(3))

text \<open>Nothing wakes a producer that waits for a task that was never accepted.\<close>

lemma blocked_step: "qstep run m m' \<Longrightarrow> m_prod m p = PBlocked \<Longrightarrow> m_prod m' p = PBlocked"
  by (induction rule: qstep.induct) (auto simp: setProd_def StopReturn_def)

lemma blocked_call: "qcall m m' \<Longrightarrow> m_prod m p = PBlocked \<Longrightarrow> m_prod m' p = PBlocked"
  by (induction rule: qcall.induct)
    (auto simp: setProd_def mayCall_def SetQueueSize_def Start_def StopClose_def QAdd_def QRunTask_def QAddFunc_def QRunFunc_def
      Let_def split: option.splits)

definition qany :: "('t \<Rightarrow> error option) \<Rightarrow> 't Mpsc \<Rightarrow> 't Mpsc \<Rightarrow> bool" where
  "qany run m m' \<longleftrightarrow> qstep run m m' \<or> qcall m m'"

lemma blocked_any: "(qany run)\<^sup>*\<^sup>* m m' \<Longrightarrow> m_prod m p = PBlocked \<Longrightarrow> m_prod m' p = PBlocked"
  by (induction rule: rtranclp_induct) (auto simp: qany_def intro: blocked_step blocked_call)

subsection \<open>Properties\<close>

text \<open>
  (C33) Order and completeness: in every reachable state the executed tasks, the one in work and the buffered ones
  are the accepted tasks in the order of their acceptance, so each runs once and one at a time. When \<open>Stop\<close> is
  about to return, every accepted task has run. A producer that came back from \<open>RunTask\<close> or \<open>RunFunc\<close> has the
  error of its own task, and that task has run.
\<close>

theorem queue_in_order:
  assumes "qreach run m"
  shows "m_executed m @ inflight m @ buffered m = m_accepted m \<and>
    (m_stopping m \<and> m_consumer m = CExited \<longrightarrow> m_executed m = m_accepted m) \<and>
    (\<forall>p t err. m_prod m p = PReturned t err \<longrightarrow> err = run t \<and> Wait p t \<in> set (m_executed m))"
  using orderInv_reach [OF assms] waitInv_reach [OF assms]
  by (auto simp: orderInv_def waitInv_def inflight_def buffered_def split: option.splits)

text \<open>A started queue with one \<open>RunTask\<close> call whose task has entered the buffer.\<close>

definition exampleQueue :: "nat Mpsc" where
  "exampleQueue =
     setProd 0 (PWaiting 7) ((Start NewMpsc)\<lparr>m_q := Some \<lparr>ch_cap = 100, ch_buf = [Wait 0 7], ch_closed = False\<rparr>,
       m_accepted := [Wait 0 7]\<rparr>)"

lemma example_reach: "qreach (\<lambda>_. None) exampleQueue"
proof -
  let ?m = "QRunTask 0 7 (Start NewMpsc) :: nat Mpsc"
  have "qreach (\<lambda>_. None) ?m"
    by (intro qreach.call [OF qreach.call [OF qreach.init qcall.start] qcall.runTask])
      (simp add: mayCall_def Start_def NewMpsc_def Let_def)
  moreover have "qstep (\<lambda>_. None) ?m exampleQueue"
  proof -
    have "m_prod ?m 0 = PSending (Wait 0 7)" "m_q ?m = Some \<lparr>ch_cap = 100, ch_buf = [], ch_closed = False\<rparr>"
      by (simp_all add: QRunTask_def setProd_def Start_def NewMpsc_def Let_def)
    from qstep.send [OF this, of "\<lambda>_. None"] show ?thesis
      by (simp add: exampleQueue_def QRunTask_def setProd_def Start_def NewMpsc_def Let_def)
  qed
  ultimately show ?thesis by (rule qreach.step)
qed

theorem queue_in_order_witness:
  "qreach (\<lambda>_. None) exampleQueue \<and> m_executed exampleQueue @ inflight exampleQueue @ buffered exampleQueue = [Wait 0 7]"
  using example_reach queue_in_order [OF example_reach] by (simp add: exampleQueue_def setProd_def)

text \<open>
  (C32) Progress: from every reachable state the goroutines of the queue, left alone, come to rest after finitely
  many steps, in whatever order they are scheduled. At rest every accepted task has run, no producer is stuck at
  its send, and every producer that was waiting for a task has its result.
\<close>

theorem queue_comes_to_rest:
  assumes "qreach run m"
  shows "\<not> (\<exists>f. f 0 = m \<and> (\<forall>i. qstep run (f i) (f (Suc i)))) \<and>
    (\<forall>m'. (qstep run)\<^sup>*\<^sup>* m m' \<and> \<not> (\<exists>m''. qstep run m' m'') \<longrightarrow>
       m_executed m' = m_accepted m' \<and> (\<forall>p j. m_prod m' p \<noteq> PSending j) \<and>
       (\<forall>p t. m_prod m p = PWaiting t \<longrightarrow> m_prod m' p = PReturned t (run t)))"
proof (intro conjI allI impI)
  show "\<not> (\<exists>f. f 0 = m \<and> (\<forall>i. qstep run (f i) (f (Suc i))))"
  proof (rule notI, elim exE conjE)
    fix f assume f: "f 0 = m" "\<forall>i. qstep run (f i) (f (Suc i))"
    have r: "qreach run (f i)" for i
      by (induction i) (use f assms qreach.step in auto)
    have "weight (f (Suc i)) < weight (f i)" for i
      using weight_step f(2) finite_sending [OF waitInv_reach [OF r]] orderInv_reach [OF r] by blast
    then show False using wf_iff_no_infinite_down_chain [of "measure (\<lambda>m :: 'a Mpsc. weight m)"] by auto
  qed
next
  fix m' assume m: "(qstep run)\<^sup>*\<^sup>* m m' \<and> \<not> (\<exists>m''. qstep run m' m'')"
  note r = qsteps_reach [OF conjunct1 [OF m] assms]
  show "m_executed m' = m_accepted m'" by (rule quiescent(1) [OF r conjunct2 [OF m]])
  show "m_prod m' p \<noteq> PSending j" for p j using quiescent(2) [OF r conjunct2 [OF m]] by blast
  show "m_prod m' p = PReturned t (run t)" if "m_prod m p = PWaiting t" for p t
    using waiting_kept_steps [OF conjunct1 [OF m] assms that] quiescent(3) [OF r conjunct2 [OF m]] by blast
qed

theorem queue_comes_to_rest_witness:
  "qreach (\<lambda>_. None) exampleQueue \<and>
   \<not> (\<exists>f. f 0 = exampleQueue \<and> (\<forall>i. qstep (\<lambda>_. None) (f i) (f (Suc i)))) \<and>
   m_prod exampleQueue 0 = PWaiting 7"
  using example_reach queue_comes_to_rest [OF example_reach] by (simp add: exampleQueue_def setProd_def)



end
