(* ===== verification/StKeys.thy ===== *)
theory StKeys
  imports InvCodec
begin

text \<open>
  The keys and values of the segment store (\<^verbatim>\<open>packages/core/invertedstore/keys.go\<close>) and its block
  compression (\<^verbatim>\<open>codec.go\<close>).

  A record of a segment is a pair of byte strings. An inverted record maps a table and a keyword to two
  lists of documents, those added and those removed; a forward record maps a table and a document to the
  ordinals of its keywords in the segment's own sorted keyword list, and no ordinals mark a deleted
  document. An \<open>int64\<close> document is a \<open>64 word\<close> compared by its signed value, an ordinal and a table id
  are a \<open>32 word\<close>. A slice expression or an index out of range panics in Go; the value is then
  \<^const>\<open>None\<close>. Snappy and zstd are not part of the repository: they are the argument of the codec
  operations, and \<open>codec_ok\<close> says that what was compressed can be decompressed.
\<close>

subsection \<open>Keys\<close>

type_synonym ord = "32 word"
type_synonym tid = "32 word"

definition ktInverted :: char where "ktInverted = CHR 0x01"
definition ktForward :: char where "ktForward = CHR 0x02"

definition PutUint32 :: "32 word \<Rightarrow> bytes" where
  "PutUint32 w = beBytes 4 (unat w)"

definition Uint32 :: "bytes \<Rightarrow> 32 word option" where
  "Uint32 bs = (if length bs < 4 then None else Some (word_of_nat (beNat (take 4 bs))))"

definition invertedKey :: "tid \<Rightarrow> bytes \<Rightarrow> bytes" where
  "invertedKey tableId keyword = ktInverted # PutUint32 tableId @ keyword"

definition forwardKey :: "tid \<Rightarrow> docid \<Rightarrow> bytes" where
  "forwardKey tableId docid = ktForward # PutUint32 tableId @ PutUint64 docid"

definition forwardKeyPrefix :: "tid \<Rightarrow> bytes" where
  "forwardKeyPrefix tableId = ktForward # PutUint32 tableId"

definition keyType :: "bytes \<Rightarrow> char option" where
  "keyType k = (case k of [] \<Rightarrow> None | c # _ \<Rightarrow> Some c)"

definition keyTableId :: "bytes \<Rightarrow> tid option" where
  "keyTableId k = Uint32 (take 4 (drop 1 k))"

subsection \<open>Values\<close>

definition decodeDocs :: "bytes \<Rightarrow> docid list" where
  "decodeDocs b = decodeDeltas 0 b"

text \<open>The loop of \<open>appendDeltaDocs\<close>; its argument is \<open>prev\<close>, or \<^const>\<open>None\<close> while \<open>first\<close> holds.\<close>

fun deltaLoop :: "docid option \<Rightarrow> docid list \<Rightarrow> bytes \<Rightarrow> bytes" where
  "deltaLoop prev [] dst = dst"
| "deltaLoop None (d # ds) dst = deltaLoop (Some d) ds (dst @ AppendUvarint (unat d))"
| "deltaLoop (Some p) (d # ds) dst =
     (if d = p then deltaLoop (Some p) ds dst
      else deltaLoop (Some d) ds (dst @ AppendUvarint (unat (d - p))))"

definition sortDocs :: "docid list \<Rightarrow> docid list" where
  "sortDocs docs = sort_key sint docs"

text \<open>The second result is the sorted copy, whose storage the caller may use again.\<close>

definition appendDeltaDocs :: "bytes \<Rightarrow> docid list \<Rightarrow> bytes \<times> docid list" where
  "appendDeltaDocs dst docs = (let cp = sortDocs docs in (deltaLoop None cp dst, cp))"

definition encodeDocs :: "docid list \<Rightarrow> bytes" where
  "encodeDocs docs = fst (appendDeltaDocs [] docs)"

definition encodeInvertedValue_st :: "docid list \<Rightarrow> docid list \<Rightarrow> bytes" where
  "encodeInvertedValue_st adds dels =
     (let ab = encodeDocs adds in AppendUvarint (length ab) @ ab @ encodeDocs dels)"

definition splitInvertedValue :: "bytes \<Rightarrow> (bytes \<times> bytes) option" where
  "splitInvertedValue v =
     (case Uvarint v of (al, n) \<Rightarrow>
        if n < 0 \<or> length v < nat n + al then None
        else Some (take al (drop (nat n) v), drop (nat n + al) v))"

fun ordLoop :: "ord option \<Rightarrow> ord list \<Rightarrow> bytes \<Rightarrow> bytes" where
  "ordLoop prev [] out = out"
| "ordLoop None (x # xs) out = ordLoop (Some x) xs (out @ AppendUvarint (unat x))"
| "ordLoop (Some p) (x # xs) out = ordLoop (Some x) xs (out @ AppendUvarint (unat (x - p)))"

definition encodeForward :: "ord list \<Rightarrow> bytes" where
  "encodeForward ords = (let cp = sort ords in ordLoop None cp (AppendUvarint (length cp)))"

definition forwardTombstone :: bytes where
  "forwardTombstone = [CHR 0x00]"

text \<open>The loop of \<open>decodeForward\<close>: the records left, the running value, the rest of the bytes. A negative
  count moves the position back; before the start of the value the slice panics.\<close>

fun decodeOrds :: "nat \<Rightarrow> 64 word \<Rightarrow> bytes \<Rightarrow> int \<Rightarrow> ord list option" where
  "decodeOrds 0 cur v p = Some []"
| "decodeOrds (Suc k) cur v p =
     (if p < 0 \<or> int (length v) < p then None
      else case Uvarint (drop (nat p) v) of (d, m) \<Rightarrow>
        let cur' = cur + of_nat d in
        map_option (\<lambda>xs. ucast cur' # xs) (decodeOrds k cur' v (p + m)))"

definition decodeForward :: "bytes \<Rightarrow> (ord list \<times> bool) option" where
  "decodeForward v =
     (case Uvarint v of (n, p) \<Rightarrow>
        if n = 0 then Some ([], True)
        else map_option (\<lambda>ords. (ords, False)) (decodeOrds n 0 v p))"

text \<open>The buffers of a merge, used again for every value it encodes.\<close>

record encodeScratch =
  es_val :: bytes
  es_docs :: bytes
  es_srt :: "docid list"
  es_ord :: "ord list"

definition encodeInvertedValueInto :: "encodeScratch \<Rightarrow> docid list \<Rightarrow> docid list \<Rightarrow> bytes \<times> encodeScratch" where
  "encodeInvertedValueInto e adds dels =
     (let (ab, srt) = appendDeltaDocs [] adds;
          out = [] @ AppendUvarint (length ab);
          out = out @ ab;
          (out, srt) = appendDeltaDocs out dels
      in (out, e\<lparr>es_docs := ab, es_srt := srt, es_val := out\<rparr>))"

definition encodeForwardInto :: "encodeScratch \<Rightarrow> ord list \<Rightarrow> bytes \<times> encodeScratch" where
  "encodeForwardInto e ords =
     (let cp = sort ords; out = ordLoop None cp ([] @ AppendUvarint (length cp))
      in (out, e\<lparr>es_ord := cp, es_val := out\<rparr>))"

subsection \<open>Compression\<close>

definition codecNone :: char where "codecNone = CHR 0x00"
definition codecSnappy :: char where "codecSnappy = CHR 0x01"
definition codecZstd :: char where "codecZstd = CHR 0x02"

text \<open>The compression libraries: encoders, and decoders that may reject their input.\<close>

record compressors =
  snappyEncode :: "bytes \<Rightarrow> bytes"
  snappyDecode :: "bytes \<Rightarrow> bytes option"
  zstdEncodeAll :: "bytes \<Rightarrow> bytes"
  zstdDecodeAll :: "bytes \<Rightarrow> bytes option"

definition codec_ok :: "compressors \<Rightarrow> bool" where
  "codec_ok cs \<longleftrightarrow> (\<forall>x. snappyDecode cs (snappyEncode cs x) = Some x) \<and>
     (\<forall>x. zstdDecodeAll cs (zstdEncodeAll cs x) = Some x)"

definition compress :: "compressors \<Rightarrow> char \<Rightarrow> bytes \<Rightarrow> bytes" where
  "compress cs cid src =
     (if cid = codecSnappy then snappyEncode cs src
      else if cid = codecZstd then zstdEncodeAll cs src else src)"

text \<open>The destination buffer is reused storage and does not show in the result.\<close>

definition decompressInto :: "compressors \<Rightarrow> char \<Rightarrow> bytes \<Rightarrow> bytes option" where
  "decompressInto cs cid src =
     (if cid = codecSnappy then snappyDecode cs src
      else if cid = codecZstd then zstdDecodeAll cs src else Some src)"

definition decompress :: "compressors \<Rightarrow> char \<Rightarrow> bytes \<Rightarrow> bytes option" where
  "decompress cs cid src = decompressInto cs cid src"

lemma decompress_compress: "codec_ok cs \<Longrightarrow> decompress cs cid (compress cs cid x) = Some x"
  by (simp add: codec_ok_def decompress_def decompressInto_def compress_def)

lemma decompressInto_compress: "codec_ok cs \<Longrightarrow> decompressInto cs cid (compress cs cid x) = Some x"
  using decompress_compress by (simp add: decompress_def)

subsection \<open>Round trips of the values\<close>

lemma remdups_adj_Cons_ne: "ds = [] \<or> hd ds \<noteq> d \<Longrightarrow> remdups_adj (d # ds) = d # remdups_adj ds"
  by (cases ds) auto

lemma deltaLoop_Some: "deltaLoop (Some p) ds dst = dst @ appendDeltas p (tl (remdups_adj (p # ds)))"
proof (induction ds arbitrary: p dst)
  case (Cons d ds)
  then show ?case
    by (cases "d = p") (simp_all add: remdups_adj_Cons split: list.splits)
qed simp

lemma deltaLoop_None: "deltaLoop None ds dst = dst @ appendDeltas 0 (remdups_adj ds)"
proof (cases ds)
  case (Cons d ds')
  have "remdups_adj (d # ds') = d # tl (remdups_adj (d # ds'))"
    by (simp add: remdups_adj_Cons split: list.splits)
  then have "appendDeltas 0 (remdups_adj (d # ds')) =
      AppendUvarint (unat d) @ appendDeltas d (tl (remdups_adj (d # ds')))"
    by (metis appendDeltas.simps(2) diff_zero)
  then show ?thesis by (simp add: Cons deltaLoop_Some)
qed simp

lemma appendDeltaDocs_eq: "appendDeltaDocs dst docs = (dst @ encodeDocs docs, sortDocs docs)"
  by (simp add: appendDeltaDocs_def encodeDocs_def deltaLoop_None Let_def)

lemma decodeDocs_encodeDocs: "decodeDocs (encodeDocs docs) = remdups_adj (sortDocs docs)"
  by (simp add: decodeDocs_def encodeDocs_def appendDeltaDocs_def deltaLoop_None decodeDeltas_appendDeltas Let_def)

lemma set_decodeDocs_encodeDocs [simp]: "set (decodeDocs (encodeDocs docs)) = set docs"
  by (simp add: decodeDocs_encodeDocs sortDocs_def)

lemma distinct_decodeDocs_encodeDocs: "distinct (decodeDocs (encodeDocs docs))"
proof -
  have "sorted (map sint xs) \<Longrightarrow> distinct (remdups_adj xs)" for xs :: "docid list"
  proof (induction xs rule: remdups_adj.induct)
    case (3 x y xs)
    show ?case
    proof (cases "x = y")
      case False
      have "x \<notin> set (y # xs)"
      proof
        assume "x \<in> set (y # xs)"
        then have "sint y \<le> sint x" using "3.prems" by auto
        moreover have "sint x \<le> sint y" using "3.prems" by simp
        ultimately show False using False by (metis antisym signed_word_eqI)
      qed
      then show ?thesis using 3 False by simp
    qed (use 3 in simp)
  qed simp_all
  then show ?thesis by (simp add: decodeDocs_encodeDocs sortDocs_def)
qed


lemma length_uvarint: "n < 2 ^ (7 * Suc k) \<Longrightarrow> length (AppendUvarint n) \<le> Suc k"
proof (induction k arbitrary: n)
  case 0
  then show ?case by (subst AppendUvarint.simps) simp
next
  case (Suc k)
  have "n div 128 < 2 ^ (7 * Suc k)"
  proof -
    have "(2 :: nat) ^ (7 * Suc (Suc k)) = 2 ^ (7 * Suc k) * 128" by (simp add: power_add)
    then show ?thesis using Suc.prems by (simp only: less_mult_imp_div_less)
  qed
  from Suc.IH [OF this] show ?case by (subst AppendUvarint.simps) simp
qed

lemma length_AppendUvarint: "n < 2 ^ 64 \<Longrightarrow> length (AppendUvarint n) \<le> 10"
  using length_uvarint [of n 9] by simp

lemma length_encodeDocs: "length (encodeDocs docs) \<le> 10 * length docs"
proof -
  have u: "length (AppendUvarint (unat d)) \<le> 10" for d :: docid
    using unsigned_less [of d, where ?'a = nat] by (intro length_AppendUvarint) simp
  have "length (appendDeltas p us) \<le> 10 * length us" for p us
    using u by (induction us arbitrary: p) (auto intro!: add_mono)
  then have "length (encodeDocs docs) \<le> 10 * length (remdups_adj (sortDocs docs))"
    by (simp add: encodeDocs_def appendDeltaDocs_def deltaLoop_None Let_def)
  also have "\<dots> \<le> 10 * length docs"
    using remdups_adj_length [of "sortDocs docs"] by (simp add: sortDocs_def)
  finally show ?thesis .
qed

lemma splitInvertedValue_encode:
  assumes "length (encodeDocs adds) < 2 ^ 64"
  shows "splitInvertedValue (encodeInvertedValue_st adds dels) = Some (encodeDocs adds, encodeDocs dels)"
  using assms
  by (simp add: splitInvertedValue_def encodeInvertedValue_st_def Let_def Uvarint_AppendUvarint)

lemma encodeInvertedValueInto_eq:
  "fst (encodeInvertedValueInto e adds dels) = encodeInvertedValue_st adds dels"
  by (simp add: encodeInvertedValueInto_def encodeInvertedValue_st_def appendDeltaDocs_eq Let_def)

lemma encodeForwardInto_eq: "fst (encodeForwardInto e ords) = encodeForward ords"
  by (simp add: encodeForwardInto_def encodeForward_def Let_def)

fun ordBytes :: "ord \<Rightarrow> ord list \<Rightarrow> bytes" where
  "ordBytes p [] = []"
| "ordBytes p (x # xs) = AppendUvarint (unat (x - p)) @ ordBytes x xs"

lemma ordLoop_Some: "ordLoop (Some p) xs out = out @ ordBytes p xs"
  by (induction xs arbitrary: p out) auto

lemma ordLoop_None: "ordLoop None xs out = out @ ordBytes 0 xs"
  by (cases xs) (auto simp: ordLoop_Some)

lemma unat32_less: "unat (x :: 32 word) < 2 ^ 64"
  using unsigned_less [of x, where ?'a = nat] by simp

lemma ucast_add_diff:
  assumes "(p :: 32 word) \<le> x"
  shows "(ucast p :: 64 word) + ucast (x - p) = ucast x"
proof -
  have "unat (x - p) = unat x - unat p" using assms by (rule unat_sub)
  moreover have "unat p \<le> unat x" using assms by (simp add: word_le_nat_alt)
  ultimately have "unat p + unat (x - p) = unat x" by simp
  then have "(of_nat (unat p + unat (x - p)) :: 64 word) = of_nat (unat x)" by simp
  then show ?thesis by (simp only: of_nat_add of_nat_unat)
qed

lemma decodeOrds_ordBytes:
  "sorted (p # xs) \<Longrightarrow>
   decodeOrds (length xs) (ucast p) (pre @ ordBytes p xs) (int (length pre)) = Some xs"
proof (induction xs arbitrary: p pre)
  case (Cons x xs)
  let ?u = "AppendUvarint (unat (x - p))"
  have "unat (x - p) < 2 ^ 64" by (rule unat32_less)
  then have u: "Uvarint (?u @ ordBytes x xs) = (unat (x - p), int (length ?u))"
    by (rule Uvarint_AppendUvarint)
  have c: "(ucast p :: 64 word) + ucast (x - p) = ucast x"
    using Cons.prems by (intro ucast_add_diff) simp
  from Cons.IH [of x "pre @ ?u"] Cons.prems
  have "decodeOrds (length xs) (ucast x) (pre @ ?u @ ordBytes x xs) (int (length pre) + int (length ?u)) = Some xs"
    by simp
  then show ?case by (simp add: u c Let_def ucast_up_ucast_id is_up)
qed simp

lemma decodeForward_encodeForward:
  assumes "length ords < 2 ^ 64"
  shows "decodeForward (encodeForward ords) = Some (sort ords, ords = [])"
proof -
  let ?h = "AppendUvarint (length ords)"
  have e: "encodeForward ords = ?h @ ordBytes 0 (sort ords)"
    by (simp add: encodeForward_def ordLoop_None Let_def)
  have u: "Uvarint (encodeForward ords) = (length ords, int (length ?h))"
    unfolding e using assms by (rule Uvarint_AppendUvarint)
  have "decodeOrds (length (sort ords)) (ucast (0 :: ord)) (?h @ ordBytes 0 (sort ords)) (int (length ?h)) = Some (sort ords)"
    by (rule decodeOrds_ordBytes) simp
  then show ?thesis using u by (auto simp: decodeForward_def e)
qed

lemma encodeForward_Nil: "encodeForward [] = forwardTombstone"
  by (simp add: encodeForward_def forwardTombstone_def AppendUvarint.simps char_of_def)

lemma decodeForward_tombstone: "decodeForward forwardTombstone = Some ([], True)"
  using decodeForward_encodeForward [of "[]"] by (simp add: encodeForward_Nil)

subsection \<open>The order of the keys\<close>

lemma length_PutUint32 [simp]: "length (PutUint32 w) = 4"
  by (simp add: PutUint32_def)

lemma Uint32_PutUint32: "Uint32 (PutUint32 w @ rest) = Some w"
proof -
  have "unat w < 256 ^ 4" using unsigned_less [of w, where ?'a = nat] by simp
  then have "beNat (beBytes 4 (unat w)) = unat w" by (rule beNat_beBytes)
  then show ?thesis by (simp add: Uint32_def PutUint32_def)
qed

lemma PutUint32_inj [simp]: "PutUint32 v = PutUint32 w \<longleftrightarrow> v = w"
  by (metis Uint32_PutUint32 option.inject)

lemma less_append_same_length:
  "length xs = length ys \<Longrightarrow> xs @ us < ys @ vs \<longleftrightarrow> xs < ys \<or> xs = ys \<and> us < (vs :: bytes)"
  by (induction xs ys rule: list_induct2) auto

lemma less_div_mod: "(m :: nat) < n \<longleftrightarrow> m div b < n div b \<or> m div b = n div b \<and> m mod b < n mod b"
proof (cases "m div b" "n div b" rule: linorder_cases)
  case less
  then have "\<not> n \<le> m" using div_le_mono [of n m b] by linarith
  with less show ?thesis by simp
next
  case equal
  then have "m < n \<longleftrightarrow> m mod b < n mod b" by (metis div_mult_mod_eq nat_add_left_cancel_less)
  with equal show ?thesis by simp
next
  case greater
  then have "\<not> m \<le> n" using div_le_mono [of m n b] by linarith
  with greater show ?thesis by simp
qed

lemma beBytes_less:
  "m < 256 ^ k \<Longrightarrow> n < 256 ^ k \<Longrightarrow> beBytes k m < beBytes k n \<longleftrightarrow> m < n"
proof (induction k arbitrary: m n)
  case (Suc k)
  have h: "m div 256 < 256 ^ k" "n div 256 < 256 ^ k"
    using Suc.prems by (simp_all add: less_mult_imp_div_less mult.commute)
  have inj: "beBytes k (m div 256) = beBytes k (n div 256) \<longleftrightarrow> m div 256 = n div 256"
    using beNat_beBytes [OF h(1)] beNat_beBytes [OF h(2)] by metis
  have c: "(char_of (m mod 256) :: char) < char_of (n mod 256) \<longleftrightarrow> m mod 256 < n mod 256"
    by (simp add: less_char_def)
  have "m < n \<longleftrightarrow> m div 256 < n div 256 \<or> m div 256 = n div 256 \<and> m mod 256 < n mod 256"
    by (rule less_div_mod)
  with Suc.IH [OF h] inj c show ?case by (simp add: less_append_same_length)
qed simp

lemma PutUint32_less: "PutUint32 v < PutUint32 w \<longleftrightarrow> v < w"
proof -
  have "unat u < 256 ^ 4" for u :: "32 word" using unsigned_less [of u, where ?'a = nat] by simp
  then show ?thesis by (simp add: PutUint32_def beBytes_less word_less_nat_alt)
qed

lemma PutUint64_less: "PutUint64 v < PutUint64 w \<longleftrightarrow> v < w"
proof -
  have "unat u < 256 ^ 8" for u :: "64 word" using unsigned_less [of u, where ?'a = nat] by simp
  then show ?thesis by (simp add: PutUint64_def beBytes_less word_less_nat_alt)
qed

lemma invertedKey_less: "invertedKey t k < invertedKey t' k' \<longleftrightarrow> t < t' \<or> t = t' \<and> k < k'"
  by (simp add: invertedKey_def less_append_same_length PutUint32_less)

lemma forwardKey_less: "forwardKey t d < forwardKey t' d' \<longleftrightarrow> t < t' \<or> t = t' \<and> d < d'"
  by (simp add: forwardKey_def less_append_same_length PutUint32_less PutUint64_less)

lemma inverted_less_forward: "invertedKey t k < forwardKey t' d"
  by (simp add: invertedKey_def forwardKey_def ktInverted_def ktForward_def less_char_def)

lemma invertedKey_inj [simp]: "invertedKey t k = invertedKey t' k' \<longleftrightarrow> t = t' \<and> k = k'"
  by (simp add: invertedKey_def)

lemma forwardKey_eq_iff [simp]: "forwardKey t d = forwardKey t' d' \<longleftrightarrow> t = t' \<and> d = d'"
  by (simp add: forwardKey_def)

lemma inverted_ne_forward [simp]: "invertedKey t k \<noteq> forwardKey t' d" "forwardKey t' d \<noteq> invertedKey t k"
  by (simp_all add: invertedKey_def forwardKey_def ktInverted_def ktForward_def)

lemma keyTableId_keys [simp]:
  "keyTableId (invertedKey t k) = Some t" "keyTableId (forwardKey t d) = Some t"
  using Uint32_PutUint32 [of t "[]"] by (simp_all add: keyTableId_def invertedKey_def forwardKey_def)

lemma keyType_keys [simp]:
  "keyType (invertedKey t k) = Some ktInverted" "keyType (forwardKey t d) = Some ktForward"
  by (simp_all add: keyType_def invertedKey_def forwardKey_def)

lemma ktForward_ne [simp]: "ktForward \<noteq> ktInverted" "ktInverted \<noteq> ktForward"
  by (simp_all add: ktInverted_def ktForward_def)

lemma prefix_append_same_length:
  "length xs = length ys \<Longrightarrow> prefix (xs @ us) (ys @ vs) \<longleftrightarrow> xs = ys \<and> prefix us vs"
  by (induction xs ys rule: list_induct2) auto

lemma prefix_invertedKey [simp]:
  "prefix (invertedKey t q) (invertedKey t' k) \<longleftrightarrow> t = t' \<and> prefix q k"
  by (auto simp: invertedKey_def prefix_append_same_length)

lemma prefix_forwardKey [simp]:
  "prefix (forwardKeyPrefix t) (forwardKey t' d) \<longleftrightarrow> t = t'"
  "prefix (forwardKey t d) (forwardKey t' d') \<longleftrightarrow> t = t' \<and> d = d'"
  using prefix_append_same_length [of "PutUint32 t" "PutUint32 t'" "[]" "PutUint64 d"]
    prefix_append_same_length [of "PutUint32 t" "PutUint32 t'" "PutUint64 d" "PutUint64 d'"]
    prefix_append_same_length [of "PutUint64 d" "PutUint64 d'" "[]" "[]"]
  by (simp_all add: forwardKeyPrefix_def forwardKey_def)

lemma prefix_mixed [simp]:
  "\<not> prefix (invertedKey t k) (forwardKey t' d)" "\<not> prefix (forwardKeyPrefix t) (invertedKey t' k)"
  "\<not> prefix (forwardKey t d) (invertedKey t' k)"
  by (simp_all add: invertedKey_def forwardKey_def forwardKeyPrefix_def)

end
