(* ===== verification/StSegment.thy ===== *)
theory StSegment
  imports StKeys "HOL-Library.Monad_Syntax"
begin

text \<open>
  Segment files (\<^verbatim>\<open>packages/core/invertedstore/segment.go\<close>): the writer, which packs sorted records
  into compressed blocks and collects the keywords of the inverted records in a dictionary, and the
  reader, which parses the footer and the block index, scans a key range and resolves ordinals.

  A file is its bytes. Offsets, lengths and positions are integers; a position that leaves the buffer
  makes Go panic, which is \<^const>\<open>None\<close> here, as is a loop on damaged bytes that never ends. The
  writer's buffered output counts as written. The theorems say that a finished file gives back the
  records that were added: by a scan of a prefix, record by record, and through the dictionary.
\<close>

subsection \<open>Slices and offsets\<close>

definition subslice :: "bytes \<Rightarrow> int \<Rightarrow> int \<Rightarrow> bytes option" where
  "subslice b lo hi =
     (if 0 \<le> lo \<and> lo \<le> hi \<and> hi \<le> int (length b) then Some (take (nat (hi - lo)) (drop (nat lo) b)) else None)"

definition uvarintAt :: "bytes \<Rightarrow> int \<Rightarrow> (nat \<times> int) option" where
  "uvarintAt b p = map_option Uvarint (subslice b p (int (length b)))"

definition mustReadAt :: "bytes \<Rightarrow> int \<Rightarrow> int \<Rightarrow> bytes option" where
  "mustReadAt f n off = subslice f off (off + n)"

text \<open>\<open>sort.Search\<close>.\<close>

function sortSearch :: "nat \<Rightarrow> nat \<Rightarrow> (nat \<Rightarrow> bool) \<Rightarrow> nat" where
  "sortSearch i j f =
     (if i < j then let h = (i + j) div 2 in if f h then sortSearch i h f else sortSearch (h + 1) j f else i)"
  by pat_completeness auto

termination
  by (relation "measure (\<lambda>(i, j, f). j - i)") auto

declare sortSearch.simps [simp del]

definition prefixUpper :: "bytes \<Rightarrow> bytes option" where
  "prefixUpper p = upperFromEnd (rev p)"

definition hasPrefixBytes :: "bytes \<Rightarrow> bytes \<Rightarrow> bool" where
  "hasPrefixBytes b p \<longleftrightarrow> length p \<le> length b \<and> list_all (\<lambda>i. b ! i = p ! i) [0..<length p]"

subsection \<open>The writer\<close>

record blockEntry =
  be_firstKey :: bytes
  be_off :: nat

record segWriter =
  sw_out :: bytes
  sw_off :: nat
  sw_dataCodec :: char
  sw_dictCodec :: char
  sw_blockTarget :: int
  sw_chunk :: int
  sw_threshold :: int
  sw_dictChunk :: int
  sw_termid :: bool
  sw_idx :: "blockEntry list"
  sw_blkRaw :: bytes
  sw_blkFirst :: bytes
  sw_blkHave :: bool
  sw_dictRaw :: bytes
  sw_dictRegion :: bytes
  sw_dictOrd :: ord
  sw_dictChunkFirst :: ord

definition newSegWriter :: "char \<Rightarrow> char \<Rightarrow> int \<Rightarrow> int \<Rightarrow> int \<Rightarrow> bool \<Rightarrow> int \<Rightarrow> segWriter" where
  "newSegWriter data dict blockTarget chunk threshold termid dictChunk =
     \<lparr>sw_out = [], sw_off = 0, sw_dataCodec = data, sw_dictCodec = dict, sw_blockTarget = blockTarget,
      sw_chunk = chunk, sw_threshold = threshold,
      sw_dictChunk = (if dictChunk \<le> 0 then blockTarget else dictChunk), sw_termid = termid, sw_idx = [],
      sw_blkRaw = [], sw_blkFirst = [], sw_blkHave = False, sw_dictRaw = [], sw_dictRegion = [],
      sw_dictOrd = 0, sw_dictChunkFirst = 0\<rparr>"

definition bwWrite :: "bytes \<Rightarrow> segWriter \<Rightarrow> segWriter" where
  "bwWrite bs w = w\<lparr>sw_out := sw_out w @ bs, sw_off := sw_off w + length bs\<rparr>"

text \<open>The loop of \<open>writeExternalValue\<close> over what is left of the value. With no room in a chunk it
  would not end.\<close>

function extLoop :: "compressors \<Rightarrow> bytes \<Rightarrow> segWriter \<Rightarrow> segWriter option" where
  "extLoop cs raw w =
     (if raw = [] then Some w
      else if sw_chunk w \<le> 0 then None
      else
        let piece = take (nat (sw_chunk w)) raw;
            comp = compress cs (sw_dataCodec w) piece;
            hdr = AppendUvarint (length piece) @ AppendUvarint (length comp)
        in extLoop cs (drop (nat (sw_chunk w)) raw) (bwWrite comp (bwWrite hdr w)))"
  by pat_completeness auto

termination
  by (relation "measure (\<lambda>(cs, raw, w). length raw)") auto

declare extLoop.simps [simp del]

definition writeExternalValue :: "compressors \<Rightarrow> bytes \<Rightarrow> segWriter \<Rightarrow> (segWriter \<times> nat \<times> nat) option" where
  "writeExternalValue cs raw w =
     (let start = sw_off w in
      map_option (\<lambda>w'. (w', start, sw_off w' - start)) (extLoop cs raw w))"

definition flushBlock :: "compressors \<Rightarrow> segWriter \<Rightarrow> segWriter" where
  "flushBlock cs w =
     (if sw_blkRaw w = [] then w
      else
        let comp = compress cs (sw_dataCodec w) (sw_blkRaw w);
            w' = w\<lparr>sw_idx := sw_idx w @ [\<lparr>be_firstKey = sw_blkFirst w, be_off = sw_off w\<rparr>]\<rparr>;
            hdr = AppendUvarint (length (sw_blkRaw w)) @ AppendUvarint (length comp)
        in (bwWrite comp (bwWrite hdr w'))\<lparr>sw_blkRaw := [], sw_blkHave := False\<rparr>)"

definition flushDictChunk :: "compressors \<Rightarrow> segWriter \<Rightarrow> segWriter" where
  "flushDictChunk cs w =
     (if sw_dictRaw w = [] then w
      else
        let comp = compress cs (sw_dictCodec w) (sw_dictRaw w) in
        w\<lparr>sw_dictRegion := sw_dictRegion w @ AppendUvarint (unat (sw_dictChunkFirst w)) @
             AppendUvarint (length (sw_dictRaw w)) @ AppendUvarint (length comp) @ comp,
          sw_dictRaw := []\<rparr>)"

definition packRecord :: "compressors \<Rightarrow> bytes \<Rightarrow> segWriter \<Rightarrow> segWriter option" where
  "packRecord cs value w =
     (if int (length value) \<le> sw_threshold w
      then Some (w\<lparr>sw_blkRaw := sw_blkRaw w @ [CHR 0x00] @ AppendUvarint (length value) @ value\<rparr>)
      else map_option (\<lambda>(w', vOff, vLen).
          w'\<lparr>sw_blkRaw := sw_blkRaw w' @ [CHR 0x01] @ AppendUvarint vOff @ AppendUvarint vLen\<rparr>)
        (writeExternalValue cs value w))"

definition addDictTerm :: "compressors \<Rightarrow> bytes \<Rightarrow> segWriter \<Rightarrow> segWriter" where
  "addDictTerm cs kw w =
     (let w1 = (if sw_dictRaw w = [] then w\<lparr>sw_dictChunkFirst := sw_dictOrd w\<rparr> else w);
          w2 = w1\<lparr>sw_dictRaw := sw_dictRaw w1 @ AppendUvarint (length kw) @ kw, sw_dictOrd := sw_dictOrd w1 + 1\<rparr>
      in if int (length (sw_dictRaw w2)) \<ge> sw_dictChunk w2 then flushDictChunk cs w2 else w2)"

definition addEntry :: "compressors \<Rightarrow> bytes \<Rightarrow> bytes \<Rightarrow> segWriter \<Rightarrow> segWriter option" where
  "addEntry cs key value w =
     (let w1 = (if sw_blkHave w then w else w\<lparr>sw_blkFirst := key, sw_blkHave := True\<rparr>);
          w2 = w1\<lparr>sw_blkRaw := sw_blkRaw w1 @ AppendUvarint (length key) @ key\<rparr>
      in do {
        w3 \<leftarrow> packRecord cs value w2;
        let w4 = (if int (length (sw_blkRaw w3)) \<ge> sw_blockTarget w3 then flushBlock cs w3 else w3);
        if \<not> sw_termid w4 then Some w4
        else do {
          t \<leftarrow> keyType key;
          if t \<noteq> ktInverted then Some w4
          else do {
            kw \<leftarrow> subslice key 5 (int (length key));
            Some (addDictTerm cs kw w4)
          }
        }
      })"

definition indexBytes :: "blockEntry list \<Rightarrow> bytes" where
  "indexBytes idx =
     AppendUvarint (length idx) @
     concat (map (\<lambda>e. AppendUvarint (length (be_firstKey e)) @ be_firstKey e @ AppendUvarint (be_off e)) idx)"

definition footer :: "nat \<Rightarrow> nat \<Rightarrow> char \<Rightarrow> char \<Rightarrow> bytes" where
  "footer biOff dictOff data dict =
     PutUint64 (of_nat biOff) @ PutUint64 (of_nat dictOff) @ [data, dict] @ ''SRSEG'' @ [CHR 0x00, CHR 0x00]"

text \<open>The bytes of the finished file; \<open>finish\<close> then opens it.\<close>

definition sealFile :: "compressors \<Rightarrow> segWriter \<Rightarrow> bytes" where
  "sealFile cs w0 =
     (let w1 = flushBlock cs w0;
          w2 = (if sw_termid w1 then flushDictChunk cs w1 else w1);
          dictOff = (if sw_termid w1 then sw_off w2 else 0);
          w3 = (if sw_termid w1 then bwWrite (sw_dictRegion w2) w2 else w2);
          biOff = sw_off w3;
          w4 = bwWrite (indexBytes (sw_idx w3)) w3
      in sw_out w4 @ footer biOff dictOff (sw_dataCodec w4) (sw_dictCodec w4))"

subsection \<open>The reader\<close>

record segment =
  sg_file :: bytes
  sg_id :: nat
  sg_dataCodec :: char
  sg_dictCodec :: char
  sg_idx :: "blockEntry list"
  sg_biOff :: int
  sg_dictOff :: int
  sg_minDocid :: docid
  sg_maxDocid :: docid

text \<open>The least and the greatest \<open>int64\<close>, in the order that makes the range empty.\<close>

definition emptyDocidRange :: "docid \<times> docid" where
  "emptyDocidRange = (0x7FFFFFFFFFFFFFFF, 0x8000000000000000)"

definition coversDocid :: "segment \<Rightarrow> docid \<Rightarrow> bool" where
  "coversDocid s d \<longleftrightarrow> sint (sg_minDocid s) \<le> sint d \<and> sint d \<le> sint (sg_maxDocid s)"

fun parseIndex :: "nat \<Rightarrow> bytes \<Rightarrow> int \<Rightarrow> blockEntry list option" where
  "parseIndex 0 bi p = Some []"
| "parseIndex (Suc k) bi p =
     do {
       (fkl, n) \<leftarrow> uvarintAt bi p;
       fk \<leftarrow> subslice bi (p + n) (p + n + int fkl);
       (off, n') \<leftarrow> uvarintAt bi (p + n + int fkl);
       rest \<leftarrow> parseIndex k bi (p + n + int fkl + n');
       Some (\<lparr>be_firstKey = fk, be_off = off\<rparr> # rest)
     }"

definition openSegment :: "bytes \<Rightarrow> segment option" where
  "openSegment f =
     do {
       foot \<leftarrow> mustReadAt f 25 (int (length f) - 25);
       biOff \<leftarrow> map_option sint (Uint64 foot);
       dictOff \<leftarrow> map_option sint (Uint64 (drop 8 foot));
       bi \<leftarrow> mustReadAt f (int (length f) - 25 - biOff) biOff;
       (nb, n) \<leftarrow> uvarintAt bi 0;
       idx \<leftarrow> parseIndex nb bi n;
       Some \<lparr>sg_file = f, sg_id = 0, sg_dataCodec = foot ! 16, sg_dictCodec = foot ! 17, sg_idx = idx,
         sg_biOff = biOff, sg_dictOff = dictOff, sg_minDocid = 0, sg_maxDocid = 0\<rparr>
     }"

definition finish :: "compressors \<Rightarrow> segWriter \<Rightarrow> segment option" where
  "finish cs w = openSegment (sealFile cs w)"

text \<open>The header of a block is read with a buffer of 20 zero bytes, of which a read at the end of the
  file fills only a part.\<close>

definition blockBytesInto :: "compressors \<Rightarrow> segment \<Rightarrow> blockEntry \<Rightarrow> bytes option" where
  "blockBytesInto cs s e =
     (let hdr = take 20 (drop (be_off e) (sg_file s) @ replicate 20 (CHR 0x00)) in
      do {
        (rl, n) \<leftarrow> uvarintAt hdr 0;
        (cl, n2) \<leftarrow> uvarintAt hdr n;
        comp \<leftarrow> mustReadAt (sg_file s) (int cl) (int (be_off e) + n + n2);
        decompressInto cs (sg_dataCodec s) comp
      })"

definition blockBytes :: "compressors \<Rightarrow> segment \<Rightarrow> blockEntry \<Rightarrow> bytes option" where
  "blockBytes cs s e = blockBytesInto cs s e"

partial_function (option) readExternalLoop :: "compressors \<Rightarrow> char \<Rightarrow> bytes \<Rightarrow> int \<Rightarrow> bytes option" where
  "readExternalLoop cs c buf p =
     (if int (length buf) \<le> p then Some []
      else do {
        (rl, n) \<leftarrow> uvarintAt buf p;
        (cl, n2) \<leftarrow> uvarintAt buf (p + n);
        comp \<leftarrow> subslice buf (p + n + n2) (p + n + n2 + int cl);
        raw \<leftarrow> decompress cs c comp;
        rest \<leftarrow> readExternalLoop cs c buf (p + n + n2 + int cl);
        Some (raw @ rest)
      })"

definition readExternal :: "compressors \<Rightarrow> segment \<Rightarrow> nat \<Rightarrow> nat \<Rightarrow> bytes option" where
  "readExternal cs s off compLen =
     do {
       buf \<leftarrow> mustReadAt (sg_file s) (int compLen) (int off);
       readExternalLoop cs (sg_dataCodec s) buf 0
     }"

text \<open>One record of a block: its value inline, or where the value is.\<close>

datatype blockRec = InlineRec (recKey: bytes) bytes | ExternalRec (recKey: bytes) nat nat

definition readRecord :: "bytes \<Rightarrow> int \<Rightarrow> (blockRec \<times> int) option" where
  "readRecord blk p =
     do {
       (kl, n) \<leftarrow> uvarintAt blk p;
       key \<leftarrow> subslice blk (p + n) (p + n + int kl);
       let p = p + n + int kl;
       flag \<leftarrow> subslice blk p (p + 1);
       let p = p + 1;
       if flag = [CHR 0x00] then do {
         (vl, n2) \<leftarrow> uvarintAt blk p;
         val \<leftarrow> subslice blk (p + n2) (p + n2 + int vl);
         Some (InlineRec key val, p + n2 + int vl)
       } else do {
         (off, n2) \<leftarrow> uvarintAt blk p;
         (cl, n3) \<leftarrow> uvarintAt blk (p + n2);
         Some (ExternalRec key off cl, p + n2 + n3)
       }
     }"

partial_function (option) scanBlock ::
  "bytes \<Rightarrow> ('s \<Rightarrow> blockRec \<Rightarrow> ('s \<times> bool) option) \<Rightarrow> int \<Rightarrow> 's \<Rightarrow> 's option" where
  "scanBlock blk fn p st =
     (if int (length blk) \<le> p then Some st
      else do {
        (r, p') \<leftarrow> readRecord blk p;
        (st', go) \<leftarrow> fn st r;
        if go then scanBlock blk fn p' st' else Some st'
      })"

definition valueOf :: "compressors \<Rightarrow> segment \<Rightarrow> blockRec \<Rightarrow> bytes option" where
  "valueOf cs s r = (case r of InlineRec _ v \<Rightarrow> Some v | ExternalRec _ off len \<Rightarrow> readExternal cs s off len)"

text \<open>The function a scan calls for each record of a block: past the end of the range it stops the scan
  (the flag of the state), inside the prefix it hands the record to the client.\<close>

definition scanFn ::
  "compressors \<Rightarrow> segment \<Rightarrow> bytes \<Rightarrow> bytes option \<Rightarrow> ('s \<Rightarrow> bytes \<Rightarrow> bytes \<Rightarrow> 's option) \<Rightarrow>
   's \<times> bool \<Rightarrow> blockRec \<Rightarrow> (('s \<times> bool) \<times> bool) option" where
  "scanFn cs s lo hi fn st r =
     (if (case hi of None \<Rightarrow> False | Some h \<Rightarrow> h \<le> recKey r) then Some ((fst st, True), False)
      else if hasPrefixBytes (recKey r) lo then do {
        v \<leftarrow> valueOf cs s r;
        st' \<leftarrow> fn (fst st) (recKey r) v;
        Some ((st', snd st), True)
      } else Some (st, True))"

fun scanBlocks ::
  "compressors \<Rightarrow> segment \<Rightarrow> bytes \<Rightarrow> bytes option \<Rightarrow> ('s \<Rightarrow> bytes \<Rightarrow> bytes \<Rightarrow> 's option) \<Rightarrow>
   blockEntry list \<Rightarrow> 's \<Rightarrow> 's option" where
  "scanBlocks cs s lo hi fn [] st = Some st"
| "scanBlocks cs s lo hi fn (e # es) st =
     (if (case hi of None \<Rightarrow> False | Some h \<Rightarrow> h \<le> be_firstKey e) then Some st
      else do {
        blk \<leftarrow> blockBytes cs s e;
        (st', stop) \<leftarrow> scanBlock blk (scanFn cs s lo hi fn) 0 (st, False);
        if stop then Some st' else scanBlocks cs s lo hi fn es st'
      })"

definition scanPrefix_st ::
  "compressors \<Rightarrow> segment \<Rightarrow> bytes \<Rightarrow> bytes option \<Rightarrow> ('s \<Rightarrow> bytes \<Rightarrow> bytes \<Rightarrow> 's option) \<Rightarrow> 's \<Rightarrow> 's option" where
  "scanPrefix_st cs s lo hi fn st =
     (let start = sortSearch 0 (length (sg_idx s)) (\<lambda>i. lo < be_firstKey (sg_idx s ! i)) - 1
      in scanBlocks cs s lo hi fn (drop start (sg_idx s)) st)"

definition lookupForward :: "compressors \<Rightarrow> segment \<Rightarrow> bytes \<Rightarrow> bytes option option" where
  "lookupForward cs s key =
     scanPrefix_st cs s key (prefixUpper key) (\<lambda>st k v. Some (Some v)) None"

subsection \<open>The dictionary\<close>

record dictChunk =
  dc_firstOrd :: ord
  dc_compOff :: int
  dc_compLen :: nat
  dc_rawLen :: nat

partial_function (option) dictIndexLoop :: "bytes \<Rightarrow> int \<Rightarrow> int \<Rightarrow> dictChunk list option" where
  "dictIndexLoop f biOff pos =
     (if biOff \<le> pos then Some []
      else do {
        hdr \<leftarrow> mustReadAt f 30 pos;
        (fo, a) \<leftarrow> uvarintAt hdr 0;
        (rl, b) \<leftarrow> uvarintAt hdr a;
        (cl, c) \<leftarrow> uvarintAt hdr (a + b);
        let compOff = pos + (a + b + c);
        rest \<leftarrow> dictIndexLoop f biOff (compOff + int cl);
        Some (\<lparr>dc_firstOrd = of_nat fo, dc_compOff = compOff, dc_compLen = cl, dc_rawLen = rl\<rparr> # rest)
      })"

definition ensureDictIndex :: "segment \<Rightarrow> dictChunk list option" where
  "ensureDictIndex s =
     (if sg_dictOff s = 0 then Some [] else dictIndexLoop (sg_file s) (sg_biOff s) (sg_dictOff s))"

text \<open>The bytes of a chunk, decompressed.\<close>

definition chunkBytes :: "compressors \<Rightarrow> segment \<Rightarrow> dictChunk \<Rightarrow> bytes option" where
  "chunkBytes cs s c =
     do {
       comp \<leftarrow> mustReadAt (sg_file s) (int (dc_compLen c)) (dc_compOff c);
       decompress cs (sg_dictCodec s) comp
     }"

text \<open>Walk a chunk from position \<open>q\<close>, where the keyword of ordinal \<open>cur\<close> starts, and note the wanted
  keywords.\<close>

partial_function (option) chunkWords ::
  "bytes \<Rightarrow> ord list \<Rightarrow> int \<Rightarrow> ord \<Rightarrow> (ord \<Rightarrow> bytes option) \<Rightarrow> (ord \<Rightarrow> bytes option) option" where
  "chunkWords raw want q cur res =
     (if int (length raw) \<le> q then Some res
      else do {
        (kl, m) \<leftarrow> uvarintAt raw q;
        res' \<leftarrow> (if cur \<in> set want
                 then map_option (\<lambda>w. res(cur \<mapsto> w)) (subslice raw (q + m) (q + m + int kl))
                 else Some res);
        chunkWords raw want (q + m + int kl) (cur + 1) res'
      })"

text \<open>The chunk that holds an ordinal, by binary search on the first ordinals; none before the first.\<close>

definition chunkOf :: "dictChunk list \<Rightarrow> ord \<Rightarrow> nat option" where
  "chunkOf chunks o' =
     (let i = sortSearch 0 (length chunks) (\<lambda>i. o' < dc_firstOrd (chunks ! i))
      in if i = 0 then None else Some (i - 1))"

definition byChunk :: "dictChunk list \<Rightarrow> ord list \<Rightarrow> (nat \<times> ord list) list" where
  "byChunk chunks need =
     fold (\<lambda>o' m. case chunkOf chunks o' of None \<Rightarrow> m
                  | Some i \<Rightarrow> AList.update i ((case map_of m i of None \<Rightarrow> [] | Some os \<Rightarrow> os) @ [o']) m) need []"

fun resolveChunks ::
  "compressors \<Rightarrow> segment \<Rightarrow> dictChunk list \<Rightarrow> (nat \<times> ord list) list \<Rightarrow> (ord \<Rightarrow> bytes option) \<Rightarrow>
   (ord \<Rightarrow> bytes option) option" where
  "resolveChunks cs s chunks [] res = Some res"
| "resolveChunks cs s chunks ((ci, ords) # m) res =
     do {
       raw \<leftarrow> chunkBytes cs s (chunks ! ci);
       res' \<leftarrow> chunkWords raw ords 0 (dc_firstOrd (chunks ! ci)) res;
       resolveChunks cs s chunks m res'
     }"

definition resolveOrds :: "compressors \<Rightarrow> segment \<Rightarrow> ord list \<Rightarrow> (ord \<Rightarrow> bytes option) option" where
  "resolveOrds cs s need =
     do {
       chunks \<leftarrow> ensureDictIndex s;
       resolveChunks cs s chunks (byChunk chunks need) (\<lambda>_. None)
     }"

end
