(* ===== verification/StFile.thy ===== *)
theory StFile
  imports StSegment
begin

text \<open>
  A finished segment file gives back its records. The predicate \<open>holds\<close> says what a segment stores: the
  records in key order, split into blocks, and the keywords of the inverted records in dictionary
  chunks. The writer establishes it and every read of the segment is described by it.
\<close>

subsection \<open>Reading at a position\<close>

lemma slice_mid:
  "subslice (pre @ x @ post) (int (length pre)) (int (length pre) + int (length x)) = Some x"
  by (simp add: subslice_def)

lemma slice_rest: "subslice (pre @ x) (int (length pre)) (int (length (pre @ x))) = Some x"
  using slice_mid [of pre x "[]"] by simp

definition fits64 :: "nat \<Rightarrow> bool" where
  "fits64 n \<longleftrightarrow> n < 2 ^ 64"

lemma fits64_le: "m \<le> n \<Longrightarrow> fits64 n \<Longrightarrow> fits64 m"
  by (simp add: fits64_def)

lemma uvarintAt_mid:
  assumes "fits64 n"
  shows "uvarintAt (pre @ AppendUvarint n @ post) (int (length pre)) = Some (n, int (length (AppendUvarint n)))"
proof -
  have "subslice (pre @ AppendUvarint n @ post) (int (length pre)) (int (length (pre @ AppendUvarint n @ post))) =
      Some (AppendUvarint n @ post)"
    by (rule slice_rest)
  then show ?thesis using Uvarint_AppendUvarint [OF assms [unfolded fits64_def]] by (simp add: uvarintAt_def)
qed

text \<open>The same with the position and the tail given as in the reading code.\<close>

lemma slice_at:
  "b = pre @ x @ post \<Longrightarrow> p = int (length pre) \<Longrightarrow> q = p + int (length x) \<Longrightarrow> subslice b p q = Some x"
  using slice_mid by simp

lemma uvarintAt_at:
  "b = pre @ AppendUvarint n @ post \<Longrightarrow> p = int (length pre) \<Longrightarrow> fits64 n \<Longrightarrow>
   uvarintAt b p = Some (n, int (length (AppendUvarint n)))"
  using uvarintAt_mid by simp

lemma not_at_end: "x \<noteq> [] \<Longrightarrow> \<not> int (length (pre @ x @ post)) \<le> int (length pre)"
  by (cases x) auto

definition at_off :: "bytes \<Rightarrow> nat \<Rightarrow> bytes \<Rightarrow> bool" where
  "at_off f off bs \<longleftrightarrow> (\<exists>pre post. f = pre @ bs @ post \<and> length pre = off)"

lemma at_off_append: "at_off f off bs \<Longrightarrow> at_off (f @ g) off bs"
  unfolding at_off_def by (metis append.assoc)

lemma at_off_end: "at_off (f @ bs) (length f) bs"
  unfolding at_off_def by (metis append_Nil2)

lemma at_off_part: "at_off f off (bs @ cs) \<Longrightarrow> at_off f off bs \<and> at_off f (off + length bs) cs"
  unfolding at_off_def by (metis append.assoc length_append)

lemma at_off_length: "at_off f off bs \<Longrightarrow> off + length bs \<le> length f"
  by (auto simp: at_off_def)

lemma mustReadAt_at_off: "at_off f off bs \<Longrightarrow> mustReadAt f (int (length bs)) (int off) = Some bs"
  unfolding at_off_def mustReadAt_def by (auto intro: slice_at)

subsection \<open>Records and blocks\<close>

primrec encRec :: "blockRec \<Rightarrow> bytes" where
  "encRec (InlineRec k v) = AppendUvarint (length k) @ k @ [CHR 0x00] @ AppendUvarint (length v) @ v"
| "encRec (ExternalRec k off len) = AppendUvarint (length k) @ k @ [CHR 0x01] @ AppendUvarint off @ AppendUvarint len"

primrec recFits :: "blockRec \<Rightarrow> bool" where
  "recFits (InlineRec k v) \<longleftrightarrow> fits64 (length k) \<and> fits64 (length v)"
| "recFits (ExternalRec k off len) \<longleftrightarrow> fits64 (length k) \<and> fits64 off \<and> fits64 len"

lemma encRec_not_Nil [simp]: "encRec r \<noteq> []"
  by (cases r) simp_all

lemma readRecord_enc:
  assumes "recFits r"
  shows "readRecord (pre @ encRec r @ post) (int (length pre)) = Some (r, int (length pre) + int (length (encRec r)))"
proof (cases r)
  case (InlineRec k v)
  let ?b = "pre @ encRec r @ post" and ?p = "int (length pre)" and ?K = "AppendUvarint (length k)" and ?V = "AppendUvarint (length v)"
  have f: "fits64 (length k)" "fits64 (length v)" using assms InlineRec by simp_all
  have 1: "uvarintAt ?b ?p = Some (length k, int (length ?K))"
    by (rule uvarintAt_at [OF _ refl f(1), where post = "k @ [CHR 0x00] @ ?V @ v @ post"]) (simp add: InlineRec)
  have 2: "subslice ?b (?p + int (length ?K)) (?p + int (length ?K) + int (length k)) = Some k"
    by (rule slice_at [where pre = "pre @ ?K" and post = "[CHR 0x00] @ ?V @ v @ post"]) (simp_all add: InlineRec)
  have 3: "subslice ?b (?p + int (length ?K) + int (length k)) (?p + int (length ?K) + int (length k) + 1) = Some [CHR 0x00]"
    by (rule slice_at [where pre = "pre @ ?K @ k" and post = "?V @ v @ post"]) (simp_all add: InlineRec)
  have 4: "uvarintAt ?b (?p + int (length ?K) + int (length k) + 1) = Some (length v, int (length ?V))"
    by (rule uvarintAt_at [where pre = "pre @ ?K @ k @ [CHR 0x00]" and post = "v @ post"]) (simp_all add: InlineRec f)
  have 5: "subslice ?b (?p + int (length ?K) + int (length k) + 1 + int (length ?V))
      (?p + int (length ?K) + int (length k) + 1 + int (length ?V) + int (length v)) = Some v"
    by (rule slice_at [where pre = "pre @ ?K @ k @ [CHR 0x00] @ ?V" and post = post]) (simp_all add: InlineRec)
  show ?thesis
    unfolding readRecord_def 1 bind.bind_lunit prod.case 2 3 Let_def 4 5 by (simp add: InlineRec)
next
  case (ExternalRec k off len)
  let ?b = "pre @ encRec r @ post" and ?p = "int (length pre)" and ?K = "AppendUvarint (length k)"
    and ?V = "AppendUvarint off" and ?L = "AppendUvarint len"
  have f: "fits64 (length k)" "fits64 off" "fits64 len" using assms ExternalRec by simp_all
  have 1: "uvarintAt ?b ?p = Some (length k, int (length ?K))"
    by (rule uvarintAt_at [OF _ refl f(1), where post = "k @ [CHR 0x01] @ ?V @ ?L @ post"]) (simp add: ExternalRec)
  have 2: "subslice ?b (?p + int (length ?K)) (?p + int (length ?K) + int (length k)) = Some k"
    by (rule slice_at [where pre = "pre @ ?K" and post = "[CHR 0x01] @ ?V @ ?L @ post"]) (simp_all add: ExternalRec)
  have 3: "subslice ?b (?p + int (length ?K) + int (length k)) (?p + int (length ?K) + int (length k) + 1) = Some [CHR 0x01]"
    by (rule slice_at [where pre = "pre @ ?K @ k" and post = "?V @ ?L @ post"]) (simp_all add: ExternalRec)
  have 4: "uvarintAt ?b (?p + int (length ?K) + int (length k) + 1) = Some (off, int (length ?V))"
    by (rule uvarintAt_at [where pre = "pre @ ?K @ k @ [CHR 0x01]" and post = "?L @ post"]) (simp_all add: ExternalRec f)
  have 5: "uvarintAt ?b (?p + int (length ?K) + int (length k) + 1 + int (length ?V)) = Some (len, int (length ?L))"
    by (rule uvarintAt_at [where pre = "pre @ ?K @ k @ [CHR 0x01] @ ?V" and post = post]) (simp_all add: ExternalRec f)
  show ?thesis
    unfolding readRecord_def 1 bind.bind_lunit prod.case 2 3 Let_def 4 5 by (simp add: ExternalRec)
qed

fun scanRecs :: "('s \<Rightarrow> blockRec \<Rightarrow> ('s \<times> bool) option) \<Rightarrow> blockRec list \<Rightarrow> 's \<Rightarrow> 's option" where
  "scanRecs fn [] st = Some st"
| "scanRecs fn (r # rs) st = do { (st', go) \<leftarrow> fn st r; if go then scanRecs fn rs st' else Some st' }"

lemma scanBlock_enc:
  "list_all recFits rs \<Longrightarrow>
   scanBlock (pre @ concat (map encRec rs)) fn (int (length pre)) st = scanRecs fn rs st"
proof (induction rs arbitrary: pre st)
  case Nil
  then show ?case by (simp add: scanBlock.simps)
next
  case (Cons r rs)
  let ?b = "pre @ encRec r @ concat (map encRec rs)"
  have r: "readRecord ?b (int (length pre)) = Some (r, int (length pre) + int (length (encRec r)))"
    using Cons.prems by (intro readRecord_enc) simp
  have "scanBlock ((pre @ encRec r) @ concat (map encRec rs)) fn (int (length (pre @ encRec r))) st' = scanRecs fn rs st'" for st'
    using Cons.prems by (intro Cons.IH) simp
  then have IH: "scanBlock ?b fn (int (length pre) + int (length (encRec r))) st' = scanRecs fn rs st'" for st'
    by simp
  have n: "\<not> int (length ?b) \<le> int (length pre)" by (rule not_at_end) simp
  have "scanBlock ?b fn (int (length pre)) st = scanRecs fn (r # rs) st"
    unfolding scanBlock.simps [of ?b fn "int (length pre)" st] if_not_P [OF n] r bind.bind_lunit prod.case IH
      scanRecs.simps ..
  then show ?case by simp
qed


subsection \<open>Compressed pieces\<close>

text \<open>A data block, a piece of an external value: both lengths, then the compressed bytes.\<close>

definition blockImg :: "compressors \<Rightarrow> char \<Rightarrow> bytes \<Rightarrow> bytes" where
  "blockImg cs c raw =
     AppendUvarint (length raw) @ AppendUvarint (length (compress cs c raw)) @ compress cs c raw"

lemma blockImg_not_Nil [simp]: "blockImg cs c raw \<noteq> []"
  by (simp add: blockImg_def)

definition imgFits :: "compressors \<Rightarrow> char \<Rightarrow> bytes \<Rightarrow> bool" where
  "imgFits cs c raw \<longleftrightarrow> fits64 (length raw) \<and> fits64 (length (compress cs c raw))"

lemma readExternalLoop_img:
  assumes "codec_ok cs" "list_all (imgFits cs c) ps"
  shows "readExternalLoop cs c (pre @ concat (map (blockImg cs c) ps)) (int (length pre)) = Some (concat ps)"
  using assms(2)
proof (induction ps arbitrary: pre)
  case Nil
  then show ?case by (simp add: readExternalLoop.simps)
next
  case (Cons x ps)
  let ?z = "concat (map (blockImg cs c) ps)" and ?c = "compress cs c x"
  let ?b = "pre @ blockImg cs c x @ ?z" and ?p = "int (length pre)"
  let ?X = "AppendUvarint (length x)" and ?C = "AppendUvarint (length ?c)"
  have f: "fits64 (length x)" "fits64 (length ?c)" using Cons.prems by (simp_all add: imgFits_def)
  have 1: "uvarintAt ?b ?p = Some (length x, int (length ?X))"
    by (rule uvarintAt_at [OF _ refl f(1), where post = "?C @ ?c @ ?z"]) (simp add: blockImg_def)
  have 2: "uvarintAt ?b (?p + int (length ?X)) = Some (length ?c, int (length ?C))"
    by (rule uvarintAt_at [where pre = "pre @ ?X" and post = "?c @ ?z"]) (simp_all add: blockImg_def f)
  have 3: "subslice ?b (?p + int (length ?X) + int (length ?C))
      (?p + int (length ?X) + int (length ?C) + int (length ?c)) = Some ?c"
    by (rule slice_at [where pre = "pre @ ?X @ ?C" and post = ?z]) (simp_all add: blockImg_def)
  have "readExternalLoop cs c ((pre @ blockImg cs c x) @ ?z) (int (length (pre @ blockImg cs c x))) = Some (concat ps)"
    using Cons.prems by (intro Cons.IH) simp
  then have 4: "readExternalLoop cs c ?b (?p + int (length ?X) + int (length ?C) + int (length ?c)) = Some (concat ps)"
    by (simp add: blockImg_def ac_simps)
  have n: "\<not> int (length ?b) \<le> ?p" by (rule not_at_end) simp
  have "readExternalLoop cs c ?b ?p = Some (x @ concat ps)"
    unfolding readExternalLoop.simps [of cs c ?b ?p] if_not_P [OF n] 1 bind.bind_lunit prod.case 2 3
      decompress_compress [OF assms(1)] 4 ..
  then show ?case by simp
qed

text \<open>An external value, as the writer leaves it in the file.\<close>

definition extHolds :: "compressors \<Rightarrow> char \<Rightarrow> bytes \<Rightarrow> nat \<Rightarrow> nat \<Rightarrow> bytes \<Rightarrow> bool" where
  "extHolds cs c f off len v \<longleftrightarrow>
     (\<exists>ps. concat ps = v \<and> list_all (imgFits cs c) ps \<and>
        at_off f off (concat (map (blockImg cs c) ps)) \<and> len = length (concat (map (blockImg cs c) ps)))"

lemma readExternal_holds:
  assumes "codec_ok cs" "extHolds cs (sg_dataCodec s) (sg_file s) off len v"
  shows "readExternal cs s off len = Some v"
proof -
  obtain ps where ps: "concat ps = v" "list_all (imgFits cs (sg_dataCodec s)) ps"
    "at_off (sg_file s) off (concat (map (blockImg cs (sg_dataCodec s)) ps))"
    "len = length (concat (map (blockImg cs (sg_dataCodec s)) ps))"
    using assms(2) unfolding extHolds_def by blast
  from mustReadAt_at_off [OF ps(3)] readExternalLoop_img [OF assms(1) ps(2), of "[]"]
  show ?thesis by (simp add: readExternal_def ps(1,4))
qed

lemma blockBytesInto_holds:
  assumes "codec_ok cs" "imgFits cs (sg_dataCodec s) raw" "at_off (sg_file s) (be_off e) (blockImg cs (sg_dataCodec s) raw)"
  shows "blockBytesInto cs s e = Some raw"
proof -
  let ?c = "compress cs (sg_dataCodec s) raw"
  let ?X = "AppendUvarint (length raw)" and ?C = "AppendUvarint (length ?c)"
  have f: "fits64 (length raw)" "fits64 (length ?c)" using assms(2) by (simp_all add: imgFits_def)
  obtain pre post where fl: "sg_file s = pre @ blockImg cs (sg_dataCodec s) raw @ post" "length pre = be_off e"
    using assms(3) by (auto simp: at_off_def)
  have l: "length ?X \<le> 10" "length ?C \<le> 10" using f by (auto simp: fits64_def intro: length_AppendUvarint)
  define z where "z = take (20 - length ?X - length ?C) (?c @ post @ replicate 20 (CHR 0x00))"
  have "drop (be_off e) (sg_file s) @ replicate 20 (CHR 0x00) = ?X @ ?C @ ?c @ post @ replicate 20 (CHR 0x00)"
    using fl(2) by (simp add: fl(1) blockImg_def)
  then have h: "take 20 (drop (be_off e) (sg_file s) @ replicate 20 (CHR 0x00)) = ?X @ ?C @ z"
    using l by (simp add: z_def)
  have 1: "uvarintAt (?X @ ?C @ z) 0 = Some (length raw, int (length ?X))"
    by (rule uvarintAt_at [OF _ _ f(1), where pre = "[]" and post = "?C @ z"]) simp_all
  have 2: "uvarintAt (?X @ ?C @ z) (int (length ?X)) = Some (length ?c, int (length ?C))"
    by (rule uvarintAt_at [where pre = ?X and post = z]) (simp_all add: f)
  have 3: "mustReadAt (sg_file s) (int (length ?c)) (int (be_off e) + int (length ?X) + int (length ?C)) = Some ?c"
    unfolding mustReadAt_def
    by (rule slice_at [where pre = "pre @ ?X @ ?C" and post = post]) (simp_all add: fl(1) flip: fl(2) add: blockImg_def)
  show ?thesis
    unfolding blockBytesInto_def h Let_def 1 bind.bind_lunit prod.case 2 3 decompressInto_compress [OF assms(1)] ..
qed


subsection \<open>Scanning\<close>

definition recHolds :: "compressors \<Rightarrow> char \<Rightarrow> bytes \<Rightarrow> blockRec \<Rightarrow> bytes \<times> bytes \<Rightarrow> bool" where
  "recHolds cs c f r kv \<longleftrightarrow> recKey r = fst kv \<and> recFits r \<and>
     (case r of InlineRec _ v \<Rightarrow> v = snd kv | ExternalRec _ off len \<Rightarrow> extHolds cs c f off len (snd kv))"

definition blockHolds :: "compressors \<Rightarrow> char \<Rightarrow> bytes \<Rightarrow> blockEntry \<Rightarrow> (bytes \<times> bytes) list \<Rightarrow> bool" where
  "blockHolds cs c f e b \<longleftrightarrow> b \<noteq> [] \<and> be_firstKey e = fst (hd b) \<and>
     (\<exists>rs. list_all2 (recHolds cs c f) rs b \<and> imgFits cs c (concat (map encRec rs)) \<and>
        at_off f (be_off e) (blockImg cs c (concat (map encRec rs))))"

definition dataHolds :: "compressors \<Rightarrow> segment \<Rightarrow> (bytes \<times> bytes) list list \<Rightarrow> bool" where
  "dataHolds cs s bs \<longleftrightarrow> list_all2 (blockHolds cs (sg_dataCodec s) (sg_file s)) (sg_idx s) bs"

fun scanFold :: "('s \<Rightarrow> bytes \<Rightarrow> bytes \<Rightarrow> 's option) \<Rightarrow> (bytes \<times> bytes) list \<Rightarrow> 's \<Rightarrow> 's option" where
  "scanFold fn [] st = Some st"
| "scanFold fn (kv # kvs) st = do { st' \<leftarrow> fn st (fst kv) (snd kv); scanFold fn kvs st' }"

lemma scanFold_append: "scanFold fn (xs @ ys) st = do { st' \<leftarrow> scanFold fn xs st; scanFold fn ys st' }"
  by (induction xs arbitrary: st) (auto split: bind_split)

lemma hasPrefixBytes_iff: "hasPrefixBytes b p \<longleftrightarrow> prefix p b"
proof
  assume "hasPrefixBytes b p"
  then have "p = take (length p) b"
    by (auto simp: hasPrefixBytes_def list_all_iff intro!: nth_equalityI)
  then show "prefix p b" by (metis take_is_prefix)
next
  assume "prefix p b"
  then show "hasPrefixBytes b p" by (auto simp: hasPrefixBytes_def prefix_def list_all_iff nth_append)
qed

definition past :: "bytes option \<Rightarrow> bytes \<Rightarrow> bool" where
  "past hi k \<longleftrightarrow> (case hi of None \<Rightarrow> False | Some h \<Rightarrow> h \<le> k)"

lemma past_mono: "past hi k \<Longrightarrow> k \<le> k' \<Longrightarrow> past hi k'"
  by (auto simp: past_def split: option.splits)

lemma prefix_not_past: "past (prefixUpper lo) k \<Longrightarrow> \<not> prefix lo k"
  using keyUpperBound_Some [of lo _ k]
  by (auto simp: past_def prefixUpper_def keyUpperBound_def split: option.splits)

lemma valueOf_holds:
  "codec_ok cs \<Longrightarrow> recHolds cs (sg_dataCodec s) (sg_file s) r kv \<Longrightarrow> valueOf cs s r = Some (snd kv)"
  by (auto simp: recHolds_def valueOf_def readExternal_holds split: blockRec.splits)

lemma filter_past_Nil:
  assumes "sorted (map fst kvs)" "\<forall>kv\<in>set kvs. past (prefixUpper lo) (fst kv)"
  shows "filter (\<lambda>kv. prefix lo (fst kv)) kvs = []"
  using assms prefix_not_past by (auto simp: filter_empty_conv)

lemma scanFn_past:
  "scanFn cs s lo hi fn st r =
     (if past hi (recKey r) then Some ((fst st, True), False)
      else if hasPrefixBytes (recKey r) lo then do {
        v \<leftarrow> valueOf cs s r;
        st' \<leftarrow> fn (fst st) (recKey r) v;
        Some ((st', snd st), True)
      } else Some (st, True))"
  by (simp only: scanFn_def past_def)

lemma scanBlocks_past:
  "scanBlocks cs s lo hi fn (e # es) st =
     (if past hi (be_firstKey e) then Some st
      else do {
        blk \<leftarrow> blockBytes cs s e;
        (st', stop) \<leftarrow> scanBlock blk (scanFn cs s lo hi fn) 0 (st, False);
        if stop then Some st' else scanBlocks cs s lo hi fn es st'
      })"
  by (simp only: scanBlocks.simps past_def)

lemma scanRecs_scanFn:
  assumes "codec_ok cs"
  shows "list_all2 (recHolds cs (sg_dataCodec s) (sg_file s)) rs b \<Longrightarrow> sorted (map fst b) \<Longrightarrow>
   scanRecs (scanFn cs s lo (prefixUpper lo) fn) rs (st, False) =
     do { st' \<leftarrow> scanFold fn (filter (\<lambda>kv. prefix lo (fst kv)) b) st;
          Some (st', list_ex (\<lambda>kv. past (prefixUpper lo) (fst kv)) b) }"
proof (induction arbitrary: st rule: list_all2_induct)
  case Nil
  then show ?case by simp
next
  case (Cons r rs kv b)
  have k: "recKey r = fst kv" using Cons.hyps(1) by (simp add: recHolds_def)
  have v: "valueOf cs s r = Some (snd kv)" using valueOf_holds [OF assms Cons.hyps(1)] .
  show ?case
  proof (cases "past (prefixUpper lo) (fst kv)")
    case True
    then have "\<forall>kv'\<in>set (kv # b). past (prefixUpper lo) (fst kv')"
      using Cons.prems past_mono by auto
    then have "filter (\<lambda>kv. prefix lo (fst kv)) (kv # b) = []" by (rule filter_past_Nil [OF Cons.prems])
    moreover have "scanFn cs s lo (prefixUpper lo) fn (st, False) r = Some ((st, True), False)"
      using True by (simp add: scanFn_past k)
    ultimately show ?thesis using True by simp
  next
    case False
    have IH: "scanRecs (scanFn cs s lo (prefixUpper lo) fn) rs (st', False) =
      do { st' \<leftarrow> scanFold fn (filter (\<lambda>kv. prefix lo (fst kv)) b) st';
          Some (st', list_ex (\<lambda>kv. past (prefixUpper lo) (fst kv)) b) }" for st'
      using Cons.prems by (intro Cons.IH) simp
    show ?thesis
    proof (cases "prefix lo (fst kv)")
      case True
      then have "scanFn cs s lo (prefixUpper lo) fn (st, False) r =
          do { st' \<leftarrow> fn st (fst kv) (snd kv); Some ((st', False), True) }"
        using False by (simp add: scanFn_past k v hasPrefixBytes_iff)
      then show ?thesis using True False by (simp add: IH)
    next
      case np: False
      then have "scanFn cs s lo (prefixUpper lo) fn (st, False) r = Some ((st, False), True)"
        using False by (simp add: scanFn_past k hasPrefixBytes_iff)
      then show ?thesis using np False by (simp add: IH)
    qed
  qed
qed

lemma scanBlocks_holds:
  assumes "codec_ok cs"
  shows "list_all2 (blockHolds cs (sg_dataCodec s) (sg_file s)) es bs \<Longrightarrow> sorted (map fst (concat bs)) \<Longrightarrow>
   scanBlocks cs s lo (prefixUpper lo) fn es st = scanFold fn (filter (\<lambda>kv. prefix lo (fst kv)) (concat bs)) st"
proof (induction arbitrary: st rule: list_all2_induct)
  case Nil
  then show ?case by simp
next
  case (Cons e es b bs)
  let ?past = "\<lambda>kv. past (prefixUpper lo) (fst kv)" and ?flt = "filter (\<lambda>kv :: bytes \<times> bytes. prefix lo (fst kv))"
  obtain rs where rs: "list_all2 (recHolds cs (sg_dataCodec s) (sg_file s)) rs b"
    "imgFits cs (sg_dataCodec s) (concat (map encRec rs))"
    "at_off (sg_file s) (be_off e) (blockImg cs (sg_dataCodec s) (concat (map encRec rs)))"
    and b: "b \<noteq> []" "be_firstKey e = fst (hd b)"
    using Cons.hyps(1) unfolding blockHolds_def by blast
  have blk: "blockBytes cs s e = Some (concat (map encRec rs))"
    using blockBytesInto_holds [OF assms rs(2,3)] by (simp add: blockBytes_def)
  have sb: "sorted (map fst b)" "sorted (map fst (concat bs))"
    and x: "\<And>kv kv'. kv \<in> set b \<Longrightarrow> kv' \<in> set (concat bs) \<Longrightarrow> fst kv \<le> fst kv'"
    using Cons.prems by (auto simp: sorted_append)
  have IH: "scanBlocks cs s lo (prefixUpper lo) fn es st' = scanFold fn (?flt (concat bs)) st'" for st'
    using Cons.IH [OF sb(2)] .
  have "list_all recFits rs" using rs(1) by (induction rule: list_all2_induct) (auto simp: recHolds_def)
  from scanBlock_enc [OF this, of "[]" "scanFn cs s lo (prefixUpper lo) fn" "(st, False)"]
    scanRecs_scanFn [OF assms rs(1) sb(1), of lo fn st]
  have sc: "scanBlock (concat (map encRec rs)) (scanFn cs s lo (prefixUpper lo) fn) 0 (st, False) =
      do { st' \<leftarrow> scanFold fn (?flt b) st; Some (st', list_ex ?past b) }" by simp
  have nil: "?flt (concat bs) = []" if "kv \<in> set b" "?past kv" for kv
    using that x past_mono sb(2) by (intro filter_past_Nil) blast+
  show ?case
  proof (cases "past (prefixUpper lo) (be_firstKey e)")
    case True
    then have h: "?past (hd b)" using b(2) by simp
    have "\<forall>kv\<in>set b. ?past kv"
    proof
      fix kv assume "kv \<in> set b"
      then have "fst (hd b) \<le> fst kv" using sb(1) b(1) by (cases b) auto
      with h show "?past kv" by (rule past_mono)
    qed
    then have "?flt b = []" using sb(1) by (intro filter_past_Nil)
    moreover have "?flt (concat bs) = []" using nil [OF _ h] b(1) by simp
    ultimately show ?thesis using True by (simp add: scanBlocks_past del: scanBlocks.simps)
  next
    case False
    have "list_ex ?past b \<Longrightarrow> ?flt (concat bs) = []" using nil by (auto simp: list_ex_iff)
    then show ?thesis
      by (cases "list_ex ?past b") (simp_all add: False scanBlocks_past blk sc IH scanFold_append split: bind_split del: scanBlocks.simps)
  qed
qed

lemma sortSearch_bounds:
  "i \<le> j \<Longrightarrow> i \<le> sortSearch i j f \<and> sortSearch i j f \<le> j \<and>
     (i < sortSearch i j f \<longrightarrow> \<not> f (sortSearch i j f - 1)) \<and> (sortSearch i j f < j \<longrightarrow> f (sortSearch i j f))"
proof (induction i j f rule: sortSearch.induct)
  case (1 i j f)
  show ?case
  proof (cases "i < j")
    case True
    define h where "h = (i + j) div 2"
    have h: "i \<le> h" "h < j" using True by (auto simp: h_def)
    show ?thesis
    proof (cases "f h")
      case t: True
      then have e: "sortSearch i j f = sortSearch i h f" using True by (subst sortSearch.simps) (simp add: Let_def h_def)
      define r where "r = sortSearch i h f"
      have "i \<le> r \<and> r \<le> h \<and> (i < r \<longrightarrow> \<not> f (r - 1)) \<and> (r < h \<longrightarrow> f r)"
        using "1.IH"(1) [OF True h_def t h(1)] by (simp add: r_def)
      then show ?thesis using t h unfolding e r_def [symmetric] by (cases "r = h") auto
    next
      case t: False
      then have e: "sortSearch i j f = sortSearch (h + 1) j f" using True by (subst sortSearch.simps) (simp add: Let_def h_def)
      define r where "r = sortSearch (h + 1) j f"
      have "h + 1 \<le> r \<and> r \<le> j \<and> (h + 1 < r \<longrightarrow> \<not> f (r - 1)) \<and> (r < j \<longrightarrow> f r)"
        using "1.IH"(2) [OF True h_def t] h by (simp add: r_def)
      then show ?thesis using t h unfolding e r_def [symmetric] by (cases "r = h + 1") auto
    qed
  next
    case False
    then have "sortSearch i j f = i" by (subst sortSearch.simps) simp
    then show ?thesis using 1 False by simp
  qed
qed

theorem scanPrefix_holds:
  assumes "codec_ok cs" "dataHolds cs s bs" "ordered (concat bs)"
  shows "scanPrefix_st cs s lo (prefixUpper lo) fn st =
    scanFold fn (filter (\<lambda>kv. prefix lo (fst kv)) (concat bs)) st"
proof -
  let ?idx = "sg_idx s" and ?H = "blockHolds cs (sg_dataCodec s) (sg_file s)"
  define r where "r = sortSearch 0 (length ?idx) (\<lambda>i. lo < be_firstKey (?idx ! i))"
  have la: "list_all2 ?H ?idx bs" using assms(2) by (simp add: dataHolds_def)
  then have len: "length bs = length ?idx" by (simp add: list_all2_lengthD)
  have r: "r \<le> length ?idx" "0 < r \<Longrightarrow> \<not> lo < be_firstKey (?idx ! (r - 1))"
    using sortSearch_bounds [of 0 "length ?idx" "\<lambda>i. lo < be_firstKey (?idx ! i)"] by (simp_all add: r_def)
  have c: "concat bs = concat (take (r - 1) bs) @ concat (drop (r - 1) bs)"
    by (simp flip: concat_append)
  have sw: "sorted_wrt (<) (map fst (concat (take (r - 1) bs)) @ map fst (concat (drop (r - 1) bs)))"
    using assms(3) by (subst (asm) c) simp
  have "filter (\<lambda>kv. prefix lo (fst kv)) (concat (take (r - 1) bs)) = []"
  proof (cases "1 < r")
    case True
    let ?b = "bs ! (r - 1)"
    have b: "?H (?idx ! (r - 1)) ?b" using la True r(1) by (simp add: list_all2_conv_all_nth)
    then have hb: "hd ?b \<in> set ?b" "be_firstKey (?idx ! (r - 1)) = fst (hd ?b)" by (simp_all add: blockHolds_def)
    have "?b \<in> set (drop (r - 1) bs)" using True r(1) len by (simp add: Cons_nth_drop_Suc [symmetric])
    then have hd: "hd ?b \<in> set (concat (drop (r - 1) bs))" using hb(1) by auto
    have "\<not> prefix lo (fst kv)" if "kv \<in> set (concat (take (r - 1) bs))" for kv
    proof
      assume "prefix lo (fst kv)"
      then have "lo \<le> fst kv" by (rule prefix_le)
      also have "fst kv < fst (hd ?b)" using sw that hd by (auto simp: sorted_wrt_append)
      also have "\<dots> \<le> lo" using r(2) True hb(2) by simp
      finally show False by simp
    qed
    then show ?thesis by (simp add: filter_empty_conv)
  next
    case False
    then have "r - 1 = 0" by simp
    then show ?thesis by simp
  qed
  then have "filter (\<lambda>kv. prefix lo (fst kv)) (concat bs) = filter (\<lambda>kv. prefix lo (fst kv)) (concat (drop (r - 1) bs))"
    by (simp add: c)
  moreover have "sorted (map fst (concat (drop (r - 1) bs)))"
    using sw by (simp add: sorted_wrt_append strict_sorted_imp_sorted)
  ultimately show ?thesis
    using scanBlocks_holds [OF assms(1) list_all2_dropI [OF la, of "r - 1"], of lo fn st]
    by (simp add: scanPrefix_st_def Let_def flip: r_def)
qed


subsection \<open>Resolving ordinals\<close>

definition encKw :: "bytes \<Rightarrow> bytes" where
  "encKw kw = AppendUvarint (length kw) @ kw"

definition kwBytes :: "bytes list \<Rightarrow> bytes" where
  "kwBytes kws = concat (map encKw kws)"

lemma encKw_not_Nil [simp]: "encKw kw \<noteq> []"
  by (simp add: encKw_def)

fun addWords :: "ord list \<Rightarrow> ord \<Rightarrow> bytes list \<Rightarrow> (ord \<Rightarrow> bytes option) \<Rightarrow> ord \<Rightarrow> bytes option" where
  "addWords want cur [] res = res"
| "addWords want cur (w # ws) res = addWords want (cur + 1) ws (if cur \<in> set want then res(cur \<mapsto> w) else res)"

lemma chunkWords_kwBytes:
  "list_all (\<lambda>w. fits64 (length w)) ws \<Longrightarrow>
   chunkWords (pre @ kwBytes ws) want (int (length pre)) cur res = Some (addWords want cur ws res)"
proof (induction ws arbitrary: pre cur res)
  case Nil
  then show ?case by (simp add: chunkWords.simps kwBytes_def)
next
  case (Cons w ws)
  let ?b = "pre @ encKw w @ kwBytes ws" and ?p = "int (length pre)" and ?W = "AppendUvarint (length w)"
  have f: "fits64 (length w)" using Cons.prems by simp
  have 1: "uvarintAt ?b ?p = Some (length w, int (length ?W))"
    by (rule uvarintAt_at [OF _ refl f, where post = "w @ kwBytes ws"]) (simp add: encKw_def)
  have 2: "subslice ?b (?p + int (length ?W)) (?p + int (length ?W) + int (length w)) = Some w"
    by (rule slice_at [where pre = "pre @ ?W" and post = "kwBytes ws"]) (simp_all add: encKw_def)
  have 3: "chunkWords ?b want (?p + int (length ?W) + int (length w)) cur' res' = Some (addWords want cur' ws res')" for cur' res'
  proof -
    have "chunkWords ((pre @ encKw w) @ kwBytes ws) want (int (length (pre @ encKw w))) cur' res' = Some (addWords want cur' ws res')"
      using Cons.prems by (intro Cons.IH) simp
    then show ?thesis by (simp add: encKw_def ac_simps)
  qed
  have n: "\<not> int (length ?b) \<le> ?p" by (rule not_at_end) simp
  have "chunkWords ?b want ?p cur res = Some (addWords want cur (w # ws) res)"
    unfolding chunkWords.simps [of ?b want ?p cur res] if_not_P [OF n] 1 bind.bind_lunit prod.case 2
    by (cases "cur \<in> set want") (simp_all add: 3)
  then show ?case by (simp add: kwBytes_def)
qed

lemma addWords_apply:
  assumes "unat cur + length ws \<le> 2 ^ 32"
  shows "addWords want cur ws res o' =
    (if o' \<in> set want \<and> unat cur \<le> unat o' \<and> unat o' < unat cur + length ws
     then Some (ws ! (unat o' - unat cur)) else res o')"
  using assms
proof (induction ws arbitrary: cur res)
  case (Cons w ws)
  have eq: "o' = cur \<longleftrightarrow> unat o' = unat cur" by (rule word_unat_eq_iff)
  show ?case
  proof (cases "ws = []")
    case True
    then show ?thesis using eq by (cases "o' = cur") auto
  next
    case False
    then have "unat cur + 1 < 2 ^ 32" using Cons.prems by (cases ws) auto
    then have u: "unat (cur + 1) = unat cur + 1" by (simp add: unat_word_ariths)
    have "addWords want (cur + 1) ws res' o' =
      (if o' \<in> set want \<and> unat cur + 1 \<le> unat o' \<and> unat o' < unat cur + 1 + length ws
       then Some (ws ! (unat o' - (unat cur + 1))) else res' o')" for res'
      using Cons.IH [of "cur + 1" res'] Cons.prems by (simp add: u)
    then show ?thesis using eq by (cases "o' = cur") (auto simp: nth_Cons')
  qed
qed auto

text \<open>A dictionary chunk in the file: the first ordinal, both lengths, the compressed keywords.\<close>

definition dictImg :: "compressors \<Rightarrow> char \<Rightarrow> nat \<Rightarrow> bytes list \<Rightarrow> bytes" where
  "dictImg cs c n kws = AppendUvarint n @ blockImg cs c (kwBytes kws)"

fun dictImgs :: "compressors \<Rightarrow> char \<Rightarrow> nat \<Rightarrow> bytes list list \<Rightarrow> bytes" where
  "dictImgs cs c n [] = []"
| "dictImgs cs c n (kws # ks) = dictImg cs c n kws @ dictImgs cs c (n + length kws) ks"

lemma dictImgs_append:
  "dictImgs cs c n (ks @ [kws]) = dictImgs cs c n ks @ dictImg cs c (n + length (concat ks)) kws"
  by (induction ks arbitrary: n) (simp_all add: ac_simps)

definition kwsFit :: "compressors \<Rightarrow> char \<Rightarrow> bytes list \<Rightarrow> bool" where
  "kwsFit cs c kws \<longleftrightarrow> kws \<noteq> [] \<and> imgFits cs c (kwBytes kws) \<and> list_all (\<lambda>w. fits64 (length w)) kws"

definition chunkHolds :: "compressors \<Rightarrow> char \<Rightarrow> bytes \<Rightarrow> dictChunk \<Rightarrow> nat \<Rightarrow> bytes list \<Rightarrow> bool" where
  "chunkHolds cs c f dc n kws \<longleftrightarrow> dc_firstOrd dc = of_nat n \<and> 0 \<le> dc_compOff dc \<and>
     dc_compLen dc = length (compress cs c (kwBytes kws)) \<and>
     at_off f (nat (dc_compOff dc)) (compress cs c (kwBytes kws))"

fun chunksHold :: "compressors \<Rightarrow> char \<Rightarrow> bytes \<Rightarrow> dictChunk list \<Rightarrow> nat \<Rightarrow> bytes list list \<Rightarrow> bool" where
  "chunksHold cs c f [] n ks \<longleftrightarrow> ks = []"
| "chunksHold cs c f (dc # dcs) n ks \<longleftrightarrow>
     (case ks of [] \<Rightarrow> False
      | kws # ks' \<Rightarrow> chunkHolds cs c f dc n kws \<and> chunksHold cs c f dcs (n + length kws) ks')"

lemma dictIndexLoop_holds:
  assumes "27 \<le> length post"
  shows "\<lbrakk>list_all (kwsFit cs c) ks; fits64 (n + length (concat ks));
    f = pre @ dictImgs cs c n ks @ post; biOff = int (length pre + length (dictImgs cs c n ks))\<rbrakk> \<Longrightarrow>
   \<exists>dcs. dictIndexLoop f biOff (int (length pre)) = Some dcs \<and> chunksHold cs c f dcs n ks"
proof (induction ks arbitrary: pre n)
  case Nil
  then show ?case by (intro exI [of _ "[]"]) (simp add: dictIndexLoop.simps)
next
  case (Cons kws ks)
  let ?raw = "kwBytes kws" and ?z = "dictImgs cs c (n + length kws) ks"
  let ?comp = "compress cs c ?raw"
  let ?N = "AppendUvarint n" and ?R = "AppendUvarint (length ?raw)" and ?C = "AppendUvarint (length ?comp)"
  have f: "f = pre @ ?N @ ?R @ ?C @ ?comp @ ?z @ post"
    using Cons.prems(3) by (simp add: dictImg_def blockImg_def)
  have fit: "fits64 n" "fits64 (length ?raw)" "fits64 (length ?comp)"
    using Cons.prems(1) fits64_le [OF _ Cons.prems(2), of n] by (simp_all add: kwsFit_def imgFits_def)
  then have l: "length ?N \<le> 10" "length ?R \<le> 10" "length ?C \<le> 10"
    by (auto simp: fits64_def intro: length_AppendUvarint)
  have l1: "1 \<le> length ?N" "1 \<le> length ?R" "1 \<le> length ?C"
    using AppendUvarint_not_Nil by (simp_all add: Suc_le_eq)
  define t where "t = ?comp @ ?z @ post"
  define hdr where "hdr = take 30 (?N @ ?R @ ?C @ t)"
  have "27 \<le> length t" using assms by (simp add: t_def)
  then have "30 \<le> length (?N @ ?R @ ?C @ t)" using l1 by simp
  then have lh: "length hdr = 30" by (simp only: hdr_def length_take min_absorb2)
  have "f = pre @ hdr @ drop 30 (?N @ ?R @ ?C @ t)" by (simp only: f hdr_def append_take_drop_id t_def)
  then have "at_off f (length pre) hdr" unfolding at_off_def by blast
  from mustReadAt_at_off [OF this] have 0: "mustReadAt f 30 (int (length pre)) = Some hdr" by (simp add: lh)
  have h: "hdr = ?N @ ?R @ ?C @ take (30 - length ?N - length ?R - length ?C) t" using l by (simp add: hdr_def)
  have 1: "uvarintAt hdr 0 = Some (n, int (length ?N))"
    by (rule uvarintAt_at [OF _ _ fit(1), where pre = "[]"]) (simp_all add: h)
  have 2: "uvarintAt hdr (int (length ?N)) = Some (length ?raw, int (length ?R))"
    by (rule uvarintAt_at [OF _ _ fit(2), where pre = ?N]) (simp_all add: h)
  have 3: "uvarintAt hdr (int (length ?N) + int (length ?R)) = Some (length ?comp, int (length ?C))"
    by (rule uvarintAt_at [OF _ _ fit(3), where pre = "?N @ ?R"]) (simp_all add: h)
  let ?pre = "pre @ dictImg cs c n kws" and ?off = "int (length pre) + (int (length ?N) + int (length ?R) + int (length ?C))"
  have lp: "int (length ?pre) = ?off + int (length ?comp)" by (simp add: dictImg_def blockImg_def)
  obtain dcs where dcs: "dictIndexLoop f biOff (?off + int (length ?comp)) = Some dcs" "chunksHold cs c f dcs (n + length kws) ks"
    using Cons.IH [of "n + length kws" ?pre] Cons.prems unfolding lp by (auto simp: ac_simps)
  have n: "\<not> biOff \<le> int (length pre)" using l1 by (simp add: Cons.prems(4) dictImg_def)
  let ?dc = "\<lparr>dc_firstOrd = of_nat n, dc_compOff = ?off, dc_compLen = length ?comp, dc_rawLen = length ?raw\<rparr>"
  have "dictIndexLoop f biOff (int (length pre)) = Some (?dc # dcs)"
    unfolding dictIndexLoop.simps [of f biOff "int (length pre)"] if_not_P [OF n] 0 bind.bind_lunit 1 prod.case 2 3 Let_def dcs(1) ..
  moreover have "at_off f (nat ?off) ?comp"
    unfolding at_off_def
    by (rule exI [of _ "pre @ ?N @ ?R @ ?C"], rule exI [of _ "?z @ post"]) (simp add: f)
  then have "chunkHolds cs c f ?dc n kws" by (simp add: chunkHolds_def)
  ultimately show ?case using dcs(2) by (intro exI [of _ "?dc # dcs"]) simp
qed

lemma chunkBytes_holds:
  assumes "codec_ok cs" "chunkHolds cs (sg_dictCodec s) (sg_file s) dc n kws"
  shows "chunkBytes cs s dc = Some (kwBytes kws)"
proof -
  have "mustReadAt (sg_file s) (int (dc_compLen dc)) (dc_compOff dc) = Some (compress cs (sg_dictCodec s) (kwBytes kws))"
    using assms(2) mustReadAt_at_off [of "sg_file s" "nat (dc_compOff dc)" "compress cs (sg_dictCodec s) (kwBytes kws)"]
    by (simp add: chunkHolds_def)
  then show ?thesis by (simp add: chunkBytes_def decompress_compress [OF assms(1)])
qed


lemma chunksHold_nth:
  "chunksHold cs c f dcs n ks \<Longrightarrow>
   length dcs = length ks \<and> (\<forall>i<length ks. chunkHolds cs c f (dcs ! i) (n + length (concat (take i ks))) (ks ! i))"
proof (induction dcs arbitrary: n ks)
  case (Cons dc dcs)
  then obtain kws ks' where ks: "ks = kws # ks'" "chunkHolds cs c f dc n kws" "chunksHold cs c f dcs (n + length kws) ks'"
    by (cases ks) auto
  from Cons.IH [OF ks(3)] ks(2) show ?case
    by (auto simp: ks(1) nth_Cons' take_Cons' ac_simps less_Suc_eq_0_disj)
qed simp

definition firstOf :: "bytes list list \<Rightarrow> nat \<Rightarrow> nat" where
  "firstOf ks i = length (concat (take i ks))"

lemma firstOf_Suc: "i < length ks \<Longrightarrow> firstOf ks (Suc i) = firstOf ks i + length (ks ! i)"
  by (simp add: firstOf_def take_Suc_conv_app_nth)

lemma firstOf_le: "firstOf ks i \<le> length (concat ks)"
  unfolding firstOf_def by (metis append_take_drop_id concat_append length_append le_add1)

lemma concat_nth_firstOf:
  assumes "i < length ks" "j < length (ks ! i)"
  shows "concat ks ! (firstOf ks i + j) = ks ! i ! j"
proof -
  have "concat ks = concat (take i ks) @ ks ! i @ concat (drop (Suc i) ks)"
    using id_take_nth_drop [OF assms(1)] by (metis concat.simps(2) concat_append)
  then show ?thesis using assms(2) by (simp add: firstOf_def nth_append)
qed

definition inChunk :: "bytes list list \<Rightarrow> nat \<Rightarrow> ord \<Rightarrow> bool" where
  "inChunk ks i o' \<longleftrightarrow> i < length ks \<and> firstOf ks i \<le> unat o' \<and> unat o' < firstOf ks i + length (ks ! i)"

lemma of_nat_ord: "m < 2 ^ 32 \<Longrightarrow> (unat (of_nat m :: ord)) = m"
  by (simp add: unsigned_of_nat take_bit_nat_eq_self)

lemma chunkOf_holds:
  assumes h: "chunksHold cs c f dcs 0 ks" and ne: "list_all (kwsFit cs c) ks"
    and n: "length (concat ks) \<le> 2 ^ 32" and o': "unat o' < length (concat ks)"
  shows "\<exists>i. chunkOf dcs o' = Some i \<and> inChunk ks i o'"
proof -
  define r where "r = sortSearch 0 (length dcs) (\<lambda>i. o' < dc_firstOrd (dcs ! i))"
  have len: "length dcs = length ks" using chunksHold_nth [OF h] by simp
  have fo: "o' < dc_firstOrd (dcs ! i) \<longleftrightarrow> unat o' < firstOf ks i" if "i < length ks" for i
  proof -
    have "ks ! i \<noteq> []" using ne that by (simp add: list_all_length kwsFit_def)
    then have "firstOf ks i < firstOf ks (Suc i)" using that by (simp add: firstOf_Suc)
    also have "\<dots> \<le> 2 ^ 32" using firstOf_le n by (rule le_trans)
    finally have "unat (of_nat (firstOf ks i) :: ord) = firstOf ks i" by (rule of_nat_ord)
    moreover have "dc_firstOrd (dcs ! i) = of_nat (firstOf ks i)"
      using chunksHold_nth [OF h] that by (simp add: chunkHolds_def firstOf_def)
    ultimately show ?thesis by (simp add: word_less_nat_alt)
  qed
  have b: "r \<le> length ks" "0 < r \<Longrightarrow> \<not> o' < dc_firstOrd (dcs ! (r - 1))" "r < length ks \<Longrightarrow> o' < dc_firstOrd (dcs ! r)"
    using sortSearch_bounds [of 0 "length dcs" "\<lambda>i. o' < dc_firstOrd (dcs ! i)"] by (simp_all add: r_def len)
  have ks0: "0 < length ks" using o' by (cases ks) auto
  have r0: "0 < r"
  proof (rule ccontr)
    assume "\<not> 0 < r"
    then have "unat o' < firstOf ks 0" using b(3) ks0 fo [of 0] by simp
    then show False by (simp add: firstOf_def)
  qed
  then have i: "r - 1 < length ks" using b(1) by simp
  have lo: "firstOf ks (r - 1) \<le> unat o'" using b(2) [OF r0] fo [OF i] by simp
  have "unat o' < firstOf ks r"
  proof (cases "r < length ks")
    case True
    then show ?thesis using b(3) fo by simp
  next
    case False
    then show ?thesis using b(1) o' by (simp add: firstOf_def)
  qed
  moreover have "firstOf ks r = firstOf ks (r - 1) + length (ks ! (r - 1))"
    using firstOf_Suc [OF i] r0 by simp
  ultimately have "inChunk ks (r - 1) o'" using i lo by (simp add: inChunk_def)
  moreover have "chunkOf dcs o' = Some (r - 1)" using r0 by (simp add: chunkOf_def Let_def flip: r_def)
  ultimately show ?thesis by blast
qed

lemma byChunk_append:
  "byChunk chunks (need @ [o']) =
     (case chunkOf chunks o' of None \<Rightarrow> byChunk chunks need
      | Some i \<Rightarrow> AList.update i ((case map_of (byChunk chunks need) i of None \<Rightarrow> [] | Some os \<Rightarrow> os) @ [o'])
          (byChunk chunks need))"
  unfolding byChunk_def by (simp only: fold_append fold.simps comp_apply id_apply)

lemma byChunk_spec:
  "distinct (map fst (byChunk chunks need)) \<and>
   (case map_of (byChunk chunks need) i of None \<Rightarrow> [] | Some os \<Rightarrow> os) =
     filter (\<lambda>o'. chunkOf chunks o' = Some i) need"
proof (induction need arbitrary: i rule: rev_induct)
  case Nil
  then show ?case by (simp add: byChunk_def)
next
  case (snoc o' need)
  then have d: "distinct (map fst (byChunk chunks need))"
    and IH: "\<And>i. (case map_of (byChunk chunks need) i of None \<Rightarrow> [] | Some os \<Rightarrow> os) =
      filter (\<lambda>o'. chunkOf chunks o' = Some i) need" by simp_all
  show ?case
  proof (cases "chunkOf chunks o'")
    case None
    then show ?thesis using d by (simp add: byChunk_append IH)
  next
    case (Some j)
    then show ?thesis using d
      by (cases "i = j") (simp_all add: byChunk_append IH distinct_update update_conv')
  qed
qed

lemma byChunk_mem: "(i, os) \<in> set (byChunk chunks need) \<Longrightarrow> os = filter (\<lambda>o'. chunkOf chunks o' = Some i) need"
  using byChunk_spec [of chunks need i] by (auto dest: map_of_is_SomeI)

lemma byChunk_ex:
  assumes "o' \<in> set need" "chunkOf chunks o' = Some i"
  shows "\<exists>os. (i, os) \<in> set (byChunk chunks need) \<and> o' \<in> set os"
proof -
  have "o' \<in> set (case map_of (byChunk chunks need) i of None \<Rightarrow> [] | Some os \<Rightarrow> os)"
    using byChunk_spec [of chunks need i] assms by simp
  then show ?thesis by (cases "map_of (byChunk chunks need) i") (auto dest: map_of_SomeD)
qed

lemma set_update_subset: "set (AList.update k v al) \<subseteq> insert (k, v) (set al)"
  by (induction al) auto

lemma byChunk_not_Nil: "(i, os) \<in> set (byChunk chunks need) \<Longrightarrow> os \<noteq> []"
proof (induction need arbitrary: i os rule: rev_induct)
  case Nil
  then show ?case by (simp add: byChunk_def)
next
  case (snoc o' need)
  show ?case
  proof (cases "chunkOf chunks o'")
    case None
    then show ?thesis using snoc by (auto simp: byChunk_append)
  next
    case (Some j)
    then have "(i, os) \<in> insert (j, (case map_of (byChunk chunks need) j of None \<Rightarrow> [] | Some os \<Rightarrow> os) @ [o'])
        (set (byChunk chunks need))"
      using snoc.prems by (intro subsetD [OF set_update_subset]) (simp add: byChunk_append)
    then show ?thesis using snoc.IH by auto
  qed
qed


lemma resolveChunks_holds:
  assumes "codec_ok cs" "chunksHold cs (sg_dictCodec s) (sg_file s) dcs 0 ks"
    and ne: "list_all (kwsFit cs (sg_dictCodec s)) ks" and n: "length (concat ks) \<le> 2 ^ 32"
  shows "(\<forall>(i, os)\<in>set m. i < length ks \<and> (\<forall>o'\<in>set os. inChunk ks i o')) \<Longrightarrow>
    resolveChunks cs s dcs m res =
      Some (\<lambda>o'. if \<exists>(i, os)\<in>set m. o' \<in> set os then Some (concat ks ! unat o') else res o')"
proof (induction m arbitrary: res)
  case (Cons p m)
  obtain i os where p: "p = (i, os)" by (cases p)
  have i: "i < length ks" and os: "\<And>o'. o' \<in> set os \<Longrightarrow> inChunk ks i o'" using Cons.prems by (auto simp: p)
  have ch: "chunkHolds cs (sg_dictCodec s) (sg_file s) (dcs ! i) (firstOf ks i) (ks ! i)"
    using chunksHold_nth [OF assms(2)] i by (simp add: firstOf_def)
  have raw: "chunkBytes cs s (dcs ! i) = Some (kwBytes (ks ! i))" using chunkBytes_holds [OF assms(1) ch] .
  have fit: "kwsFit cs (sg_dictCodec s) (ks ! i)" using ne i by (simp add: list_all_length)
  then have lt: "firstOf ks i < firstOf ks (Suc i)" using i by (simp add: firstOf_Suc kwsFit_def)
  have le: "firstOf ks (Suc i) \<le> 2 ^ 32" using firstOf_le n by (rule le_trans)
  have un: "unat (dc_firstOrd (dcs ! i)) = firstOf ks i"
    using ch of_nat_ord [OF less_le_trans [OF lt le]] by (simp add: chunkHolds_def)
  have "unat (dc_firstOrd (dcs ! i)) + length (ks ! i) \<le> 2 ^ 32" using le i by (simp add: un firstOf_Suc)
  note aw = addWords_apply [OF this, unfolded un]
  have w: "addWords os (dc_firstOrd (dcs ! i)) (ks ! i) res =
      (\<lambda>o'. if o' \<in> set os then Some (concat ks ! unat o') else res o')"
  proof
    fix o'
    show "addWords os (dc_firstOrd (dcs ! i)) (ks ! i) res o' = (if o' \<in> set os then Some (concat ks ! unat o') else res o')"
    proof (cases "o' \<in> set os")
      case True
      from os [OF this] have r: "firstOf ks i \<le> unat o'" "unat o' < firstOf ks i + length (ks ! i)"
        by (simp_all add: inChunk_def)
      then have "concat ks ! unat o' = ks ! i ! (unat o' - firstOf ks i)"
        using concat_nth_firstOf [OF i, of "unat o' - firstOf ks i"] by simp
      with True r show ?thesis by (simp add: aw)
    qed (simp add: aw)
  qed
  have "list_all (\<lambda>w. fits64 (length w)) (ks ! i)" using fit by (simp add: kwsFit_def)
  from chunkWords_kwBytes [OF this, of "[]" os "dc_firstOrd (dcs ! i)" res]
  have cw: "chunkWords (kwBytes (ks ! i)) os 0 (dc_firstOrd (dcs ! i)) res =
      Some (\<lambda>o'. if o' \<in> set os then Some (concat ks ! unat o') else res o')" by (simp add: w)
  have IH: "resolveChunks cs s dcs m res' =
      Some (\<lambda>o'. if \<exists>(i, os)\<in>set m. o' \<in> set os then Some (concat ks ! unat o') else res' o')" for res'
    using Cons.prems by (intro Cons.IH) simp
  show ?case by (simp add: p raw cw IH fun_eq_iff)
qed simp

text \<open>What the dictionary of a segment holds: the keywords in the order of their ordinals.\<close>

definition dictHolds :: "compressors \<Rightarrow> segment \<Rightarrow> bytes list list \<Rightarrow> bool" where
  "dictHolds cs s ks \<longleftrightarrow> list_all (kwsFit cs (sg_dictCodec s)) ks \<and> length (concat ks) \<le> 2 ^ 32 \<and>
     (\<exists>dcs. ensureDictIndex s = Some dcs \<and> chunksHold cs (sg_dictCodec s) (sg_file s) dcs 0 ks)"

lemma byChunk_inChunk:
  assumes "chunksHold cs c f dcs 0 ks" "list_all (kwsFit cs c) ks" "length (concat ks) \<le> 2 ^ 32"
    and need: "\<forall>o'\<in>set need. unat o' < length (concat ks)"
  shows "\<forall>(i, os)\<in>set (byChunk dcs need). i < length ks \<and> (\<forall>o'\<in>set os. inChunk ks i o')"
    and "(\<exists>(i, os)\<in>set (byChunk dcs need). o' \<in> set os) \<longleftrightarrow> o' \<in> set need"
proof -
  have c: "\<exists>i. chunkOf dcs o' = Some i \<and> inChunk ks i o'" if "o' \<in> set need" for o'
    using chunkOf_holds [OF assms(1-3)] need that by blast
  have m: "inChunk ks i o'" if "(i, os) \<in> set (byChunk dcs need)" "o' \<in> set os" for i os o'
    using byChunk_mem [OF that(1)] that(2) c [of o'] by auto
  have "i < length ks" if "(i, os) \<in> set (byChunk dcs need)" for i os
    using byChunk_not_Nil [OF that] m [OF that, of "hd os"] by (simp add: inChunk_def)
  with m show "\<forall>(i, os)\<in>set (byChunk dcs need). i < length ks \<and> (\<forall>o'\<in>set os. inChunk ks i o')" by blast
  show "(\<exists>(i, os)\<in>set (byChunk dcs need). o' \<in> set os) \<longleftrightarrow> o' \<in> set need"
    using byChunk_mem byChunk_ex [of o' need dcs] c [of o'] by fastforce
qed


theorem resolveOrds_holds:
  assumes "codec_ok cs" "dictHolds cs s ks" "\<forall>o'\<in>set need. unat o' < length (concat ks)"
  shows "resolveOrds cs s need = Some (\<lambda>o'. if o' \<in> set need then Some (concat ks ! unat o') else None)"
proof -
  obtain dcs where d: "ensureDictIndex s = Some dcs" "chunksHold cs (sg_dictCodec s) (sg_file s) dcs 0 ks"
    and k: "list_all (kwsFit cs (sg_dictCodec s)) ks" "length (concat ks) \<le> 2 ^ 32"
    using assms(2) by (auto simp: dictHolds_def)
  note b = byChunk_inChunk [OF d(2) k assms(3)]
  show ?thesis
    using resolveChunks_holds [OF assms(1) d(2) k b(1)] by (simp add: resolveOrds_def d(1) b(2))
qed

end
