(* ===== verification/StWrite.thy ===== *)
theory StWrite
  imports StFile
begin

text \<open>
  The writer of segment files establishes what the reader relies on. The invariant has a data part (the
  blocks written so far and the block being filled) and a dictionary part (the chunks written so far and
  the chunk being filled).
\<close>

subsection \<open>What is in the file while it grows\<close>

definition recStored :: "compressors \<Rightarrow> char \<Rightarrow> bytes \<Rightarrow> blockRec \<Rightarrow> bytes \<times> bytes \<Rightarrow> bool" where
  "recStored cs c f r kv \<longleftrightarrow> recKey r = fst kv \<and>
     (case r of InlineRec _ v \<Rightarrow> v = snd kv
      | ExternalRec _ off len \<Rightarrow>
          \<exists>ps. concat ps = snd kv \<and> len = length (concat (map (blockImg cs c) ps)) \<and>
            at_off f off (concat (map (blockImg cs c) ps)))"

definition blockStored :: "compressors \<Rightarrow> char \<Rightarrow> bytes \<Rightarrow> blockEntry \<Rightarrow> (bytes \<times> bytes) list \<Rightarrow> bool" where
  "blockStored cs c f e b \<longleftrightarrow> b \<noteq> [] \<and> be_firstKey e = fst (hd b) \<and>
     (\<exists>rs. list_all2 (recStored cs c f) rs b \<and> at_off f (be_off e) (blockImg cs c (concat (map encRec rs))))"

lemma recStored_append: "recStored cs c f r kv \<Longrightarrow> recStored cs c (f @ g) r kv"
  using at_off_append by (fastforce simp: recStored_def split: blockRec.splits)

lemma recsStored_append: "list_all2 (recStored cs c f) rs b \<Longrightarrow> list_all2 (recStored cs c (f @ g)) rs b"
  by (erule list_all2_mono) (rule recStored_append)

lemma blockStored_append: "blockStored cs c f e b \<Longrightarrow> blockStored cs c (f @ g) e b"
  unfolding blockStored_def by (blast intro: recsStored_append at_off_append)

lemma blocksStored_append: "list_all2 (blockStored cs c f) es bs \<Longrightarrow> list_all2 (blockStored cs c (f @ g)) es bs"
  by (erule list_all2_mono) (rule blockStored_append)

lemma bwWrite_bwWrite: "bwWrite b (bwWrite a w) = bwWrite (a @ b) w"
  by (simp add: bwWrite_def)

lemma bwWrite_sel [simp]:
  "sw_out (bwWrite bs w) = sw_out w @ bs" "sw_off (bwWrite bs w) = sw_off w + length bs"
  "sw_chunk (bwWrite bs w) = sw_chunk w" "sw_dataCodec (bwWrite bs w) = sw_dataCodec w"
  "sw_dictCodec (bwWrite bs w) = sw_dictCodec w" "sw_idx (bwWrite bs w) = sw_idx w"
  "sw_dictRegion (bwWrite bs w) = sw_dictRegion w" "sw_blkRaw (bwWrite bs w) = sw_blkRaw w"
  "sw_blkFirst (bwWrite bs w) = sw_blkFirst w" "sw_blkHave (bwWrite bs w) = sw_blkHave w"
  "sw_dictRaw (bwWrite bs w) = sw_dictRaw w" "sw_dictOrd (bwWrite bs w) = sw_dictOrd w"
  "sw_dictChunkFirst (bwWrite bs w) = sw_dictChunkFirst w" "sw_termid (bwWrite bs w) = sw_termid w"
  by (simp_all add: bwWrite_def)

lemma extLoop_pieces:
  "0 < sw_chunk w \<Longrightarrow> \<exists>ps. concat ps = raw \<and> extLoop cs raw w = Some (bwWrite (concat (map (blockImg cs (sw_dataCodec w)) ps)) w)"
proof (induction "length raw" arbitrary: raw w rule: less_induct)
  case less
  show ?case
  proof (cases "raw = []")
    case True
    then show ?thesis by (intro exI [of _ "[]"]) (simp add: extLoop.simps bwWrite_def)
  next
    case False
    let ?x = "take (nat (sw_chunk w)) raw" and ?y = "drop (nat (sw_chunk w)) raw"
    let ?w = "bwWrite (blockImg cs (sw_dataCodec w) ?x) w"
    have "length ?y < length raw" using False less.prems by simp
    from less.hyps [OF this, of ?w] less.prems obtain ps where
      ps: "concat ps = ?y" "extLoop cs ?y ?w = Some (bwWrite (concat (map (blockImg cs (sw_dataCodec w)) ps)) ?w)"
      by auto
    have "extLoop cs raw w = extLoop cs ?y ?w"
      using False less.prems by (subst extLoop.simps) (simp add: Let_def bwWrite_bwWrite blockImg_def)
    then show ?thesis using ps by (intro exI [of _ "?x # ps"]) (simp add: bwWrite_bwWrite)
  qed
qed

text \<open>Packing one record: the block grows by its encoding, the file perhaps by an external value.\<close>

lemma packRecord_ok:
  assumes "0 < sw_chunk w" "sw_off w = length (sw_out w)"
  shows "\<exists>r ext. recStored cs (sw_dataCodec w) (sw_out w @ ext) r (k, v) \<and>
    packRecord cs v (w\<lparr>sw_blkRaw := sw_blkRaw w @ AppendUvarint (length k) @ k\<rparr>) =
      Some ((bwWrite ext w)\<lparr>sw_blkRaw := sw_blkRaw w @ encRec r\<rparr>)"
proof (cases "int (length v) \<le> sw_threshold w")
  case True
  then show ?thesis
    by (intro exI [of _ "InlineRec k v"] exI [of _ "[]"]) (simp add: recStored_def packRecord_def bwWrite_def)
next
  case False
  let ?w = "w\<lparr>sw_blkRaw := sw_blkRaw w @ AppendUvarint (length k) @ k\<rparr>"
  obtain ps where ps: "concat ps = v" "extLoop cs v ?w = Some (bwWrite (concat (map (blockImg cs (sw_dataCodec w)) ps)) ?w)"
    using extLoop_pieces [of ?w v cs] assms(1) by auto
  let ?img = "concat (map (blockImg cs (sw_dataCodec w)) ps)"
  let ?r = "ExternalRec k (length (sw_out w)) (length ?img)"
  have "recStored cs (sw_dataCodec w) (sw_out w @ ?img) ?r (k, v)"
    using ps(1) at_off_end by (auto simp: recStored_def)
  moreover have "packRecord cs v ?w = Some ((bwWrite ?img w)\<lparr>sw_blkRaw := sw_blkRaw w @ encRec ?r\<rparr>)"
    using False ps(2) assms(2) by (simp add: packRecord_def writeExternalValue_def Let_def bwWrite_def)
  ultimately show ?thesis by blast
qed

subsection \<open>The invariant\<close>

definition dataInv :: "compressors \<Rightarrow> segWriter \<Rightarrow> (bytes \<times> bytes) list \<Rightarrow> bool" where
  "dataInv cs w es \<longleftrightarrow> sw_off w = length (sw_out w) \<and> 0 < sw_chunk w \<and>
     (\<exists>bs rs cur. concat bs @ cur = es \<and>
        list_all2 (blockStored cs (sw_dataCodec w) (sw_out w)) (sw_idx w) bs \<and>
        list_all2 (recStored cs (sw_dataCodec w) (sw_out w)) rs cur \<and>
        sw_blkRaw w = concat (map encRec rs) \<and> (sw_blkHave w \<longleftrightarrow> cur \<noteq> []) \<and>
        (cur \<noteq> [] \<longrightarrow> sw_blkFirst w = fst (hd cur)))"

definition dictInv :: "compressors \<Rightarrow> segWriter \<Rightarrow> bytes list \<Rightarrow> bool" where
  "dictInv cs w kws \<longleftrightarrow> sw_termid w \<and>
     (\<exists>ks cur. concat ks @ cur = kws \<and> [] \<notin> set ks \<and>
        sw_dictRegion w = dictImgs cs (sw_dictCodec w) 0 ks \<and> sw_dictRaw w = kwBytes cur \<and>
        sw_dictOrd w = of_nat (length kws) \<and>
        (cur \<noteq> [] \<longrightarrow> sw_dictChunkFirst w = of_nat (length (concat ks))))"

lemma dataInvI:
  assumes "sw_off w = length (sw_out w)" "0 < sw_chunk w" "concat bs @ cur = es"
    "list_all2 (blockStored cs (sw_dataCodec w) (sw_out w)) (sw_idx w) bs"
    "list_all2 (recStored cs (sw_dataCodec w) (sw_out w)) rs cur"
    "sw_blkRaw w = concat (map encRec rs)" "sw_blkHave w \<longleftrightarrow> cur \<noteq> []" "cur \<noteq> [] \<Longrightarrow> sw_blkFirst w = fst (hd cur)"
  shows "dataInv cs w es"
  using assms unfolding dataInv_def by blast

lemma dictInvI:
  assumes "sw_termid w" "concat ks @ cur = kws" "[] \<notin> set ks"
    "sw_dictRegion w = dictImgs cs (sw_dictCodec w) 0 ks" "sw_dictRaw w = kwBytes cur"
    "sw_dictOrd w = of_nat (length kws)" "cur \<noteq> [] \<Longrightarrow> sw_dictChunkFirst w = of_nat (length (concat ks))"
  shows "dictInv cs w kws"
  using assms unfolding dictInv_def by blast

lemma concat_encRec_Nil [simp]: "concat (map encRec rs) = [] \<longleftrightarrow> rs = []"
  by (cases rs) simp_all

lemma kwBytes_Nil [simp]: "kwBytes kws = [] \<longleftrightarrow> kws = []"
  by (cases kws) (simp_all add: kwBytes_def)

lemma dataInv_flushBlock:
  assumes "dataInv cs w es"
  shows "dataInv cs (flushBlock cs w) es \<and> sw_blkRaw (flushBlock cs w) = []"
proof (cases "sw_blkRaw w = []")
  case True
  then show ?thesis using assms by (simp add: flushBlock_def)
next
  case False
  obtain bs rs cur where i: "concat bs @ cur = es" "list_all2 (blockStored cs (sw_dataCodec w) (sw_out w)) (sw_idx w) bs"
    "list_all2 (recStored cs (sw_dataCodec w) (sw_out w)) rs cur" "sw_blkRaw w = concat (map encRec rs)"
    "cur \<noteq> [] \<longrightarrow> sw_blkFirst w = fst (hd cur)" and off: "sw_off w = length (sw_out w)" "0 < sw_chunk w"
    using assms unfolding dataInv_def by blast
  have cur: "cur \<noteq> []" using False i(3,4) by auto
  let ?e = "\<lparr>be_firstKey = sw_blkFirst w, be_off = sw_off w\<rparr>" and ?img = "blockImg cs (sw_dataCodec w) (sw_blkRaw w)"
  have fl: "flushBlock cs w = (bwWrite ?img w)\<lparr>sw_idx := sw_idx w @ [?e], sw_blkRaw := [], sw_blkHave := False\<rparr>"
    using False by (simp add: flushBlock_def Let_def bwWrite_bwWrite blockImg_def) (simp add: bwWrite_def)
  have "at_off (sw_out w @ ?img) (length (sw_out w)) ?img" by (rule at_off_end)
  then have "blockStored cs (sw_dataCodec w) (sw_out w @ ?img) ?e cur"
    using cur i(4,5) off(1) recsStored_append [OF i(3)] by (auto simp: blockStored_def)
  then have "list_all2 (blockStored cs (sw_dataCodec w) (sw_out w @ ?img)) (sw_idx w @ [?e]) (bs @ [cur])"
    using blocksStored_append [OF i(2)] by (simp add: list_all2_appendI)
  then have "dataInv cs (flushBlock cs w) es"
    using i(1) off by (intro dataInvI [where bs = "bs @ [cur]" and cur = "[]" and rs = "[]"]) (simp_all add: fl)
  then show ?thesis by (simp add: fl)
qed

lemma dictInv_flushDictChunk:
  assumes "dictInv cs w kws" "length kws \<le> 2 ^ 32"
  shows "dictInv cs (flushDictChunk cs w) kws \<and> sw_dictRaw (flushDictChunk cs w) = []"
proof (cases "sw_dictRaw w = []")
  case True
  then show ?thesis using assms by (simp add: flushDictChunk_def)
next
  case False
  obtain ks cur where i: "concat ks @ cur = kws" "[] \<notin> set ks" "sw_dictRegion w = dictImgs cs (sw_dictCodec w) 0 ks"
    "sw_dictRaw w = kwBytes cur" "sw_dictOrd w = of_nat (length kws)"
    "cur \<noteq> [] \<longrightarrow> sw_dictChunkFirst w = of_nat (length (concat ks))" "sw_termid w"
    using assms(1) unfolding dictInv_def by blast
  have cur: "cur \<noteq> []" using False i(4) by simp
  then have "length (concat ks) < length kws" using i(1) by auto
  then have "unat (sw_dictChunkFirst w) = length (concat ks)" using cur i(6) assms(2) by (simp add: of_nat_ord)
  then have "sw_dictRegion (flushDictChunk cs w) = dictImgs cs (sw_dictCodec w) 0 (ks @ [cur])"
    using False i(3,4) by (simp add: flushDictChunk_def Let_def dictImgs_append dictImg_def blockImg_def)
  then have "dictInv cs (flushDictChunk cs w) kws"
    using i cur False
    by (intro dictInvI [where ks = "ks @ [cur]" and cur = "[]"]) (simp_all add: flushDictChunk_def Let_def kwBytes_def)
  then show ?thesis by (simp add: flushDictChunk_def Let_def)
qed

lemma dictInv_addDictTerm:
  assumes "dictInv cs w kws" "length kws < 2 ^ 32"
  shows "dictInv cs (addDictTerm cs kw w) (kws @ [kw])"
proof -
  obtain ks cur where i: "concat ks @ cur = kws" "[] \<notin> set ks" "sw_dictRegion w = dictImgs cs (sw_dictCodec w) 0 ks"
    "sw_dictRaw w = kwBytes cur" "sw_dictOrd w = of_nat (length kws)"
    "cur \<noteq> [] \<longrightarrow> sw_dictChunkFirst w = of_nat (length (concat ks))" "sw_termid w"
    using assms(1) unfolding dictInv_def by blast
  define w1 where "w1 = (if sw_dictRaw w = [] then w\<lparr>sw_dictChunkFirst := sw_dictOrd w\<rparr> else w)"
  define w2 where "w2 = w1\<lparr>sw_dictRaw := sw_dictRaw w1 @ AppendUvarint (length kw) @ kw, sw_dictOrd := sw_dictOrd w1 + 1\<rparr>"
  have "sw_dictChunkFirst w2 = of_nat (length (concat ks))" using i by (auto simp: w2_def w1_def)
  then have "dictInv cs w2 (kws @ [kw])"
    using i by (intro dictInvI [where ks = ks and cur = "cur @ [kw]"]) (auto simp: w2_def w1_def kwBytes_def encKw_def)
  moreover have "addDictTerm cs kw w = (if int (length (sw_dictRaw w2)) \<ge> sw_dictChunk w2 then flushDictChunk cs w2 else w2)"
    by (simp add: addDictTerm_def Let_def w1_def w2_def)
  ultimately show ?thesis using dictInv_flushDictChunk [of cs w2 "kws @ [kw]"] assms(2) by simp
qed


text \<open>The data part and the dictionary part do not touch each other's fields.\<close>

lemma addDictTerm_sel [simp]:
  "sw_out (addDictTerm cs kw w) = sw_out w" "sw_off (addDictTerm cs kw w) = sw_off w"
  "sw_chunk (addDictTerm cs kw w) = sw_chunk w" "sw_dataCodec (addDictTerm cs kw w) = sw_dataCodec w"
  "sw_dictCodec (addDictTerm cs kw w) = sw_dictCodec w" "sw_idx (addDictTerm cs kw w) = sw_idx w"
  "sw_blkRaw (addDictTerm cs kw w) = sw_blkRaw w" "sw_blkFirst (addDictTerm cs kw w) = sw_blkFirst w"
  "sw_blkHave (addDictTerm cs kw w) = sw_blkHave w"
  by (simp_all add: addDictTerm_def flushDictChunk_def Let_def)

lemma flushDictChunk_sel [simp]:
  "sw_out (flushDictChunk cs w) = sw_out w" "sw_off (flushDictChunk cs w) = sw_off w"
  "sw_dataCodec (flushDictChunk cs w) = sw_dataCodec w" "sw_dictCodec (flushDictChunk cs w) = sw_dictCodec w"
  "sw_idx (flushDictChunk cs w) = sw_idx w" "sw_termid (flushDictChunk cs w) = sw_termid w"
  by (simp_all add: flushDictChunk_def Let_def)

lemma flushBlock_sel [simp]:
  "sw_termid (flushBlock cs w) = sw_termid w" "sw_dictRegion (flushBlock cs w) = sw_dictRegion w"
  "sw_dictCodec (flushBlock cs w) = sw_dictCodec w" "sw_dataCodec (flushBlock cs w) = sw_dataCodec w"
  "sw_dictRaw (flushBlock cs w) = sw_dictRaw w" "sw_dictOrd (flushBlock cs w) = sw_dictOrd w"
  "sw_dictChunkFirst (flushBlock cs w) = sw_dictChunkFirst w"
  by (simp_all add: flushBlock_def Let_def bwWrite_def)

lemma dataInv_addDictTerm: "dataInv cs (addDictTerm cs kw w) es \<longleftrightarrow> dataInv cs w es"
  by (simp add: dataInv_def)

lemma dictInv_flushBlock: "dictInv cs (flushBlock cs w) kws \<longleftrightarrow> dictInv cs w kws"
  by (simp add: dictInv_def)

lemma dictInv_cong:
  assumes "dictInv cs w kws" "sw_termid w' = sw_termid w" "sw_dictRegion w' = sw_dictRegion w"
    "sw_dictCodec w' = sw_dictCodec w" "sw_dictRaw w' = sw_dictRaw w" "sw_dictOrd w' = sw_dictOrd w"
    "sw_dictChunkFirst w' = sw_dictChunkFirst w"
  shows "dictInv cs w' kws"
  using assms by (simp add: dictInv_def)

subsection \<open>Adding a record\<close>

definition wfKey :: "bytes \<Rightarrow> bool" where
  "wfKey k \<longleftrightarrow> (\<exists>t kw. k = invertedKey t kw) \<or> (\<exists>t d. k = forwardKey t d)"

definition invKw :: "bytes \<Rightarrow> bytes list" where
  "invKw k = (if keyType k = Some ktInverted then [drop 5 k] else [])"

definition invKws :: "(bytes \<times> bytes) list \<Rightarrow> bytes list" where
  "invKws es = concat (map (invKw \<circ> fst) es)"

lemma invKw_keys [simp]: "invKw (invertedKey t kw) = [kw]" "invKw (forwardKey t d) = []"
  by (simp_all add: invKw_def invertedKey_def forwardKey_def keyType_def)

lemma invKws_simps [simp]:
  "invKws [] = []" "invKws (es @ es') = invKws es @ invKws es'" "invKws ((k, v) # es) = invKw k @ invKws es"
  by (simp_all add: invKws_def)

definition writerOk :: "compressors \<Rightarrow> char \<Rightarrow> char \<Rightarrow> segWriter \<Rightarrow> (bytes \<times> bytes) list \<Rightarrow> bool" where
  "writerOk cs c d w es \<longleftrightarrow> dataInv cs w es \<and> dictInv cs w (invKws es) \<and> sw_dataCodec w = c \<and> sw_dictCodec w = d"

lemma addEntry_ok:
  assumes "writerOk cs c d w es" "wfKey k" "length (invKws (es @ [(k, v)])) \<le> 2 ^ 32"
  shows "\<exists>w'. addEntry cs k v w = Some w' \<and> writerOk cs c d w' (es @ [(k, v)])"
proof -
  define w1 where "w1 = (if sw_blkHave w then w else w\<lparr>sw_blkFirst := k, sw_blkHave := True\<rparr>)"
  have i: "dataInv cs w es" "dictInv cs w (invKws es)" "sw_dataCodec w = c" "sw_dictCodec w = d"
    using assms(1) by (simp_all add: writerOk_def)
  obtain bs rs cur where b: "concat bs @ cur = es" "list_all2 (blockStored cs c (sw_out w)) (sw_idx w) bs"
    "list_all2 (recStored cs c (sw_out w)) rs cur" "sw_blkRaw w = concat (map encRec rs)" "sw_blkHave w \<longleftrightarrow> cur \<noteq> []"
    "cur \<noteq> [] \<longrightarrow> sw_blkFirst w = fst (hd cur)" and off: "sw_off w = length (sw_out w)" "0 < sw_chunk w"
    using i(1) unfolding dataInv_def i(3) by blast
  have w1: "sw_out w1 = sw_out w" "sw_off w1 = sw_off w" "sw_chunk w1 = sw_chunk w" "sw_dataCodec w1 = c"
    "sw_dictCodec w1 = d" "sw_idx w1 = sw_idx w" "sw_blkRaw w1 = sw_blkRaw w" "sw_blkHave w1"
    "sw_termid w1 = sw_termid w" "sw_dictRegion w1 = sw_dictRegion w" "sw_dictRaw w1 = sw_dictRaw w"
    "sw_dictOrd w1 = sw_dictOrd w" "sw_dictChunkFirst w1 = sw_dictChunkFirst w"
    "sw_blkFirst w1 = fst (hd (cur @ [(k, v)]))"
    using i(3,4) b(5,6) by (auto simp: w1_def)
  obtain r ext where r: "recStored cs c (sw_out w @ ext) r (k, v)"
    "packRecord cs v (w1\<lparr>sw_blkRaw := sw_blkRaw w1 @ AppendUvarint (length k) @ k\<rparr>) =
       Some ((bwWrite ext w1)\<lparr>sw_blkRaw := sw_blkRaw w1 @ encRec r\<rparr>)"
    using packRecord_ok [of w1 cs k v] off unfolding w1 by metis
  define w3 where "w3 = (bwWrite ext w1)\<lparr>sw_blkRaw := sw_blkRaw w @ encRec r\<rparr>"
  have r3: "packRecord cs v (w1\<lparr>sw_blkRaw := sw_blkRaw w1 @ AppendUvarint (length k) @ k\<rparr>) = Some w3"
    using r(2) by (simp only: w3_def w1(7))
  have d3: "dataInv cs w3 (es @ [(k, v)])"
    using b off r(1)
    by (intro dataInvI [where bs = bs and cur = "cur @ [(k, v)]" and rs = "rs @ [r]"])
      (simp_all add: w3_def w1 blocksStored_append recsStored_append list_all2_appendI)
  have k3: "dictInv cs w3 (invKws es)" using i(2) by (rule dictInv_cong) (simp_all add: w3_def w1 i(4))
  define w4 where "w4 = (if int (length (sw_blkRaw w3)) \<ge> sw_blockTarget w3 then flushBlock cs w3 else w3)"
  have 4: "dataInv cs w4 (es @ [(k, v)])" "dictInv cs w4 (invKws es)" "sw_dataCodec w4 = c" "sw_dictCodec w4 = d"
    using d3 k3 dataInv_flushBlock [OF d3] by (simp_all add: w4_def dictInv_flushBlock) (simp_all add: w3_def w1)
  have "sw_termid w4" using 4(2) by (simp add: dictInv_def)
  then have a: "addEntry cs k v w = do {
      t \<leftarrow> keyType k;
      if t \<noteq> ktInverted then Some w4
      else do { kw \<leftarrow> subslice k 5 (int (length k)); Some (addDictTerm cs kw w4) } }"
    unfolding addEntry_def Let_def w1_def [symmetric] r3 bind.bind_lunit w4_def [symmetric] by simp
  from assms(2) show ?thesis
  proof (unfold wfKey_def, elim disjE exE)
    fix t kw assume k: "k = invertedKey t kw"
    have "subslice k 5 (int (length k)) = Some kw"
      by (rule slice_at [where pre = "ktInverted # PutUint32 t" and post = "[]"]) (simp_all add: k invertedKey_def)
    then have "addEntry cs k v w = Some (addDictTerm cs kw w4)" using a by (simp add: k)
    moreover have "dictInv cs (addDictTerm cs kw w4) (invKws es @ [kw])"
      using assms(3) 4(2) by (intro dictInv_addDictTerm) (simp_all add: k)
    ultimately show ?thesis using 4 by (simp add: writerOk_def dataInv_addDictTerm k)
  next
    fix t d' assume k: "k = forwardKey t d'"
    then have "addEntry cs k v w = Some w4" using a by simp
    then show ?thesis using 4 by (simp add: writerOk_def k)
  qed
qed

fun addEntries :: "compressors \<Rightarrow> (bytes \<times> bytes) list \<Rightarrow> segWriter \<Rightarrow> segWriter option" where
  "addEntries cs [] w = Some w"
| "addEntries cs ((k, v) # es) w = do { w' \<leftarrow> addEntry cs k v w; addEntries cs es w' }"

lemma addEntries_ok:
  assumes "writerOk cs c d w es0" "\<forall>kv\<in>set es. wfKey (fst kv)" "length (invKws (es0 @ es)) \<le> 2 ^ 32"
  shows "\<exists>w'. addEntries cs es w = Some w' \<and> writerOk cs c d w' (es0 @ es)"
  using assms
proof (induction es arbitrary: w es0)
  case (Cons kv es)
  obtain k v where kv: "kv = (k, v)" by (cases kv)
  have "length (invKws (es0 @ [(k, v)])) \<le> 2 ^ 32" using Cons.prems(3) by (simp add: kv)
  with Cons.prems obtain w' where w': "addEntry cs k v w = Some w'" "writerOk cs c d w' (es0 @ [(k, v)])"
    using addEntry_ok [of cs c d w es0 k v] by (auto simp: kv)
  from Cons.IH [OF w'(2)] Cons.prems show ?case by (simp add: kv w'(1))
qed simp

lemma newSegWriter_ok: "0 < chunk \<Longrightarrow> writerOk cs c d (newSegWriter c d bt chunk th True dch) []"
  by (auto simp: writerOk_def newSegWriter_def kwBytes_def
      intro!: dataInvI [where bs = "[]" and cur = "[]" and rs = "[]"] dictInvI [where ks = "[]" and cur = "[]"])


subsection \<open>Sealing and opening\<close>

text \<open>The bytes the records take in memory, with room for the lengths in front of each. A process cannot
  hold more than the 64-bit address space, nor write a longer file.\<close>

definition recsSize :: "(bytes \<times> bytes) list \<Rightarrow> nat" where
  "recsSize es = sum_list (map (\<lambda>kv. length (fst kv) + length (snd kv) + 31) es)"

lemma recsSize_simps [simp]:
  "recsSize [] = 0" "recsSize (kv # es) = length (fst kv) + length (snd kv) + 31 + recsSize es"
  "recsSize (es @ es') = recsSize es + recsSize es'"
  by (simp_all add: recsSize_def)

lemma recsSize_mem: "kv \<in> set es \<Longrightarrow> length (fst kv) + length (snd kv) \<le> recsSize es"
  by (induction es) auto

lemma recsSize_block: "b \<in> set bs \<Longrightarrow> recsSize b \<le> recsSize (concat bs)"
  by (induction bs) auto

lemma blockImg_length: "length (compress cs c raw) \<le> length (blockImg cs c raw)"
  by (simp add: blockImg_def)

lemma length_concat_mem: "x \<in> set xs \<Longrightarrow> length x \<le> length (concat xs)"
  by (induction xs) auto

lemma recHolds_of:
  assumes "recStored cs c f r kv" "fits64 (length f)" "fits64 (length (fst kv))" "fits64 (length (snd kv))"
  shows "recHolds cs c f r kv"
proof (cases r)
  case (InlineRec k v)
  then show ?thesis using assms by (auto simp: recStored_def recHolds_def)
next
  case (ExternalRec k off len)
  then obtain ps where ps: "concat ps = snd kv" "len = length (concat (map (blockImg cs c) ps))"
    "at_off f off (concat (map (blockImg cs c) ps))" and k: "k = fst kv"
    using assms(1) by (auto simp: recStored_def)
  have l: "off + len \<le> length f" using at_off_length [OF ps(3)] ps(2) by simp
  have "imgFits cs c p" if "p \<in> set ps" for p
  proof -
    have "length p \<le> length (snd kv)" using length_concat_mem [OF that] ps(1) by simp
    moreover have "length (compress cs c p) \<le> length f"
      using blockImg_length [of cs c p] length_concat_mem [of "blockImg cs c p" "map (blockImg cs c) ps"] that ps(2) l
      by (auto dest: le_trans)
    ultimately show ?thesis using assms(2,4) fits64_le by (auto simp: imgFits_def)
  qed
  then have "extHolds cs c f off len (snd kv)"
    unfolding extHolds_def using ps by (intro exI [of _ ps]) (auto simp: list_all_iff)
  moreover have "fits64 off" "fits64 len" using l by (auto intro: fits64_le [OF _ assms(2)])
  ultimately show ?thesis using assms(3) k by (simp add: recHolds_def ExternalRec)
qed

lemma length_uv64: "fits64 n \<Longrightarrow> length (AppendUvarint n) \<le> 10"
  by (simp add: fits64_def length_AppendUvarint)

lemma encRec_size:
  assumes "recHolds cs c f r kv" "fits64 (length (snd kv))"
  shows "length (encRec r) \<le> length (fst kv) + length (snd kv) + 31"
proof (cases r)
  case (InlineRec k v)
  then have "length (AppendUvarint (length k)) \<le> 10" "length (AppendUvarint (length v)) \<le> 10" "k = fst kv" "v = snd kv"
    using assms by (auto simp: recHolds_def intro!: length_uv64)
  then show ?thesis by (simp add: InlineRec)
next
  case (ExternalRec k off len)
  then have "length (AppendUvarint (length k)) \<le> 10" "length (AppendUvarint off) \<le> 10"
    "length (AppendUvarint len) \<le> 10" "k = fst kv"
    using assms by (auto simp: recHolds_def intro!: length_uv64)
  then show ?thesis by (simp add: ExternalRec)
qed

lemma blockHolds_of:
  assumes "blockStored cs c f e b" "fits64 (length f)" "fits64 (recsSize b)"
  shows "blockHolds cs c f e b"
proof -
  obtain rs where rs: "list_all2 (recStored cs c f) rs b" "at_off f (be_off e) (blockImg cs c (concat (map encRec rs)))"
    and b: "b \<noteq> []" "be_firstKey e = fst (hd b)"
    using assms(1) unfolding blockStored_def by blast
  have fit: "fits64 (length (fst kv)) \<and> fits64 (length (snd kv))" if "kv \<in> set b" for kv
    using recsSize_mem [OF that] by (auto intro: fits64_le [OF _ assms(3)])
  then have h: "list_all2 (recHolds cs c f) rs b"
    using rs(1) recHolds_of [OF _ assms(2)] by (auto simp: list_all2_conv_all_nth)
  then have "length (concat (map encRec rs)) \<le> recsSize b"
    using fit
  proof (induction rule: list_all2_induct)
    case (Cons r rs kv b)
    from encRec_size [OF Cons.hyps(1)] Cons.prems Cons.IH show ?case by (fastforce intro: add_mono)
  qed simp
  then have "fits64 (length (concat (map encRec rs)))" by (rule fits64_le [OF _ assms(3)])
  moreover have "fits64 (length (compress cs c (concat (map encRec rs))))"
    using at_off_length [OF rs(2)] blockImg_length [of cs c "concat (map encRec rs)"]
    by (intro fits64_le [OF _ assms(2)]) linarith
  ultimately have "imgFits cs c (concat (map encRec rs))" by (simp add: imgFits_def)
  then show ?thesis unfolding blockHolds_def using b h rs(2) by blast
qed

lemma blocksHold_of:
  assumes "list_all2 (blockStored cs c f) es bs" "fits64 (length f)" "fits64 (recsSize (concat bs))"
  shows "list_all2 (blockHolds cs c f) es bs"
  using assms(1)
proof (rule list.rel_mono_strong)
  fix e b
  assume "b \<in> set bs" "blockStored cs c f e b"
  from recsSize_block [OF this(1)] this(2) show "blockHolds cs c f e b"
    by (intro blockHolds_of [OF _ assms(2)] fits64_le [OF _ assms(3)])
qed

lemma length_kwBytes_mem: "kws \<in> set ks \<Longrightarrow> length (kwBytes kws) \<le> length (kwBytes (concat ks))"
  by (induction ks) (auto simp: kwBytes_def)

lemma length_kwBytes_invKws:
  assumes "fits64 (recsSize es)"
  shows "length (kwBytes (invKws es)) \<le> recsSize es"
  using assms
proof (induction es)
  case (Cons kv es)
  obtain k v where kv: "kv = (k, v)" by (cases kv)
  have f: "fits64 (recsSize es)" "fits64 (length (drop 5 k))" by (rule fits64_le [OF _ Cons.prems], simp add: kv)+
  have "length (kwBytes (invKw k)) \<le> length k + 31"
    using length_uv64 [OF f(2)] by (auto simp: invKw_def kwBytes_def encKw_def)
  then show ?case using Cons.IH [OF f(1)] by (simp add: kv kwBytes_def)
qed (simp add: kwBytes_def)

lemma dictImgs_length: "kws \<in> set ks \<Longrightarrow> length (compress cs c (kwBytes kws)) \<le> length (dictImgs cs c n ks)"
proof (induction ks arbitrary: n)
  case (Cons x ks)
  show ?case using Cons.IH [of "n + length x"] Cons.prems by (auto simp: dictImg_def blockImg_def)
qed simp

lemma kwsFit_of:
  assumes "[] \<notin> set ks" "fits64 (length (dictImgs cs c 0 ks))" "fits64 (length (kwBytes (concat ks)))"
  shows "list_all (kwsFit cs c) ks"
proof -
  have "kwsFit cs c kws" if "kws \<in> set ks" for kws
  proof -
    have r: "fits64 (length (kwBytes kws))" using length_kwBytes_mem [OF that] by (rule fits64_le [OF _ assms(3)])
    have c: "fits64 (length (compress cs c (kwBytes kws)))" using dictImgs_length [OF that] by (rule fits64_le [OF _ assms(2)])
    have "fits64 (length w)" if "w \<in> set kws" for w
    proof -
      have "length (encKw w) \<le> length (kwBytes kws)"
        using length_concat_mem [of "encKw w" "map encKw kws"] that by (simp add: kwBytes_def)
      then have "length w \<le> length (kwBytes kws)" by (simp add: encKw_def)
      then show ?thesis by (rule fits64_le [OF _ r])
    qed
    then show ?thesis using that assms(1) r c by (auto simp: kwsFit_def imgFits_def list_all_iff)
  qed
  then show ?thesis by (simp add: list_all_iff)
qed

definition idxImg :: "blockEntry \<Rightarrow> bytes" where
  "idxImg e = AppendUvarint (length (be_firstKey e)) @ be_firstKey e @ AppendUvarint (be_off e)"

lemma parseIndex_img:
  "list_all (\<lambda>e. fits64 (length (be_firstKey e)) \<and> fits64 (be_off e)) es \<Longrightarrow>
   parseIndex (length es) (pre @ concat (map idxImg es) @ post) (int (length pre)) = Some es"
proof (induction es arbitrary: pre)
  case (Cons e es)
  let ?k = "be_firstKey e" and ?z = "concat (map idxImg es) @ post"
  let ?K = "AppendUvarint (length ?k)" and ?O = "AppendUvarint (be_off e)"
  let ?b = "pre @ idxImg e @ ?z" and ?p = "int (length pre)"
  have f: "fits64 (length ?k)" "fits64 (be_off e)" using Cons.prems by simp_all
  have 1: "uvarintAt ?b ?p = Some (length ?k, int (length ?K))"
    by (rule uvarintAt_at [OF _ refl f(1), where post = "?k @ ?O @ ?z"]) (simp add: idxImg_def)
  have 2: "subslice ?b (?p + int (length ?K)) (?p + int (length ?K) + int (length ?k)) = Some ?k"
    by (rule slice_at [where pre = "pre @ ?K" and post = "?O @ ?z"]) (simp_all add: idxImg_def)
  have 3: "uvarintAt ?b (?p + int (length ?K) + int (length ?k)) = Some (be_off e, int (length ?O))"
    by (rule uvarintAt_at [OF _ _ f(2), where pre = "pre @ ?K @ ?k" and post = ?z]) (simp_all add: idxImg_def)
  have "parseIndex (length es) ((pre @ idxImg e) @ concat (map idxImg es) @ post) (int (length (pre @ idxImg e))) = Some es"
    using Cons.prems by (intro Cons.IH) simp
  then have 4: "parseIndex (length es) ?b (?p + int (length ?K) + int (length ?k) + int (length ?O)) = Some es"
    by (simp add: idxImg_def ac_simps)
  have "parseIndex (Suc (length es)) ?b ?p = Some (e # es)"
    unfolding parseIndex.simps 1 bind.bind_lunit prod.case 2 3 4 by (cases e) simp
  then show ?case by simp
qed simp

lemma sint_of_nat: "n < 2 ^ 63 \<Longrightarrow> sint (of_nat n :: 64 word) = int n"
  by (simp add: signed_of_nat signed_take_bit_eq_if_positive bit_iff_odd take_bit_nat_eq_self flip: of_nat_take_bit)

lemma openSegment_footer:
  assumes f: "f = body @ indexBytes idx @ footer (length body) dictOff c d"
    and fit: "list_all (\<lambda>e. fits64 (length (be_firstKey e)) \<and> fits64 (be_off e)) idx" "fits64 (length idx)"
    and "length body < 2 ^ 63" "dictOff < 2 ^ 63"
  shows "openSegment f = Some \<lparr>sg_file = f, sg_id = 0, sg_dataCodec = c, sg_dictCodec = d, sg_idx = idx,
    sg_biOff = int (length body), sg_dictOff = int dictOff, sg_minDocid = 0, sg_maxDocid = 0\<rparr>"
proof -
  let ?foot = "footer (length body) dictOff c d" and ?bi = "indexBytes idx"
  have lf: "length ?foot = 25" by (simp add: footer_def)
  have "at_off f (length (body @ ?bi)) ?foot" unfolding f at_off_def by (metis append.assoc append_Nil2)
  from mustReadAt_at_off [OF this] have 1: "mustReadAt f 25 (int (length f) - 25) = Some ?foot"
    by (simp add: lf f)
  have 2: "map_option sint (Uint64 ?foot) = Some (int (length body))"
    using Uint64_PutUint64 [of "of_nat (length body)"] sint_of_nat [OF assms(4)] by (simp add: footer_def)
  have 3: "map_option sint (Uint64 (drop 8 ?foot)) = Some (int dictOff)"
    using Uint64_PutUint64 [of "of_nat dictOff"] sint_of_nat [OF assms(5)] by (simp add: footer_def)
  have "at_off f (length body) ?bi" unfolding f at_off_def by blast
  from mustReadAt_at_off [OF this] have 4: "mustReadAt f (int (length f) - 25 - int (length body)) (int (length body)) = Some ?bi"
    by (simp add: lf f)
  have b: "?bi = AppendUvarint (length idx) @ concat (map idxImg idx) @ []"
    by (simp add: indexBytes_def idxImg_def [abs_def])
  have 5: "uvarintAt ?bi 0 = Some (length idx, int (length (AppendUvarint (length idx))))"
    by (rule uvarintAt_at [OF _ _ fit(2), where pre = "[]"]) (simp_all add: b)
  have 6: "parseIndex (length idx) ?bi (int (length (AppendUvarint (length idx)))) = Some idx"
    unfolding b by (rule parseIndex_img [OF fit(1)])
  have 7: "?foot ! 16 = c" "?foot ! 17 = d" by (simp_all add: footer_def nth_append)
  show ?thesis
    unfolding openSegment_def 1 bind.bind_lunit 2 3 4 5 prod.case 6 7 ..
qed


text \<open>What a segment stores.\<close>

definition holds :: "compressors \<Rightarrow> segment \<Rightarrow> (bytes \<times> bytes) list \<Rightarrow> bool" where
  "holds cs s es \<longleftrightarrow> ordered es \<and> (\<forall>kv\<in>set es. wfKey (fst kv)) \<and> length (invKws es) < 2 ^ 32 \<and>
     (\<exists>bs ks. concat bs = es \<and> dataHolds cs s bs \<and> concat ks = invKws es \<and> dictHolds cs s ks)"

definition segFits :: "compressors \<Rightarrow> segWriter \<Rightarrow> (bytes \<times> bytes) list \<Rightarrow> bool" where
  "segFits cs w es \<longleftrightarrow> recsSize es < 2 ^ 63 \<and> length (invKws es) < 2 ^ 32 \<and>
     (case addEntries cs es w of None \<Rightarrow> True | Some w' \<Rightarrow> length (sealFile cs w') < 2 ^ 63)"

lemma fits64_63: "n < 2 ^ 63 \<Longrightarrow> fits64 n"
  by (simp add: fits64_def)

lemma length_le_recsSize: "length es \<le> recsSize es"
  by (induction es) auto

lemma length_blocks: "[] \<notin> set bs \<Longrightarrow> length bs \<le> length (concat bs)"
proof (induction bs)
  case (Cons b bs)
  then show ?case by (cases b) auto
qed simp

lemma firstKey_fits:
  assumes "list_all2 (blockStored cs c f) idx bs" "fits64 (recsSize (concat bs))" "fits64 (length f)"
  shows "list_all (\<lambda>e. fits64 (length (be_firstKey e)) \<and> fits64 (be_off e)) idx"
  unfolding list_all_length
proof (intro allI impI)
  fix i assume i: "i < length idx"
  then have b: "blockStored cs c f (idx ! i) (bs ! i)" and m: "bs ! i \<in> set bs"
    using assms(1) by (auto simp: list_all2_conv_all_nth)
  have "hd (bs ! i) \<in> set (bs ! i)" using b by (simp add: blockStored_def)
  then have "hd (bs ! i) \<in> set (concat bs)" using m by auto
  from recsSize_mem [OF this] have "length (be_firstKey (idx ! i)) \<le> recsSize (concat bs)"
    using b by (simp add: blockStored_def)
  moreover have "be_off (idx ! i) \<le> length f"
    using b at_off_length [of f "be_off (idx ! i)"] by (auto simp: blockStored_def dest: add_leD1)
  ultimately show "fits64 (length (be_firstKey (idx ! i))) \<and> fits64 (be_off (idx ! i))"
    using fits64_le assms(2,3) by blast
qed

lemma dictHolds_of:
  assumes f: "sg_file s = pre @ dictImgs cs (sg_dictCodec s) 0 ks @ post"
    and off: "sg_dictOff s = int (length pre)" "sg_biOff s = int (length pre + length (dictImgs cs (sg_dictCodec s) 0 ks))"
    and k: "list_all (kwsFit cs (sg_dictCodec s)) ks" "length (concat ks) < 2 ^ 32"
    and ne: "ks \<noteq> [] \<Longrightarrow> pre \<noteq> [] \<and> 27 \<le> length post"
  shows "dictHolds cs s ks"
proof (cases "ks = []")
  case True
  then have "ensureDictIndex s = Some []" using off by (simp add: ensureDictIndex_def dictIndexLoop.simps)
  then show ?thesis using k True by (simp add: dictHolds_def)
next
  case False
  have "fits64 (0 + length (concat ks))" using k(2) by (simp add: fits64_def)
  from dictIndexLoop_holds [OF conjunct2 [OF ne [OF False]] k(1) this f off(2)] obtain dcs where
    d: "dictIndexLoop (sg_file s) (sg_biOff s) (int (length pre)) = Some dcs"
    "chunksHold cs (sg_dictCodec s) (sg_file s) dcs 0 ks" by blast
  have "sg_dictOff s \<noteq> 0" using ne [OF False] off(1) by simp
  then have "ensureDictIndex s = Some dcs" using d(1) off(1) by (simp add: ensureDictIndex_def)
  then show ?thesis using d(2) k by (auto simp: dictHolds_def)
qed

lemma finish_holds:
  assumes cs: "codec_ok cs" and w: "writerOk cs c d w es" and o: "ordered es" and k: "\<forall>kv\<in>set es. wfKey (fst kv)"
    and sz: "length (sealFile cs w) < 2 ^ 63" "recsSize es < 2 ^ 63" "length (invKws es) < 2 ^ 32"
  shows "\<exists>s. finish cs w = Some s \<and> holds cs s es \<and> sg_file s = sealFile cs w"
proof -
  define w1 where "w1 = flushBlock cs w"
  define w2 where "w2 = flushDictChunk cs w1"
  have i0: "dataInv cs w es" "dictInv cs w (invKws es)" "sw_dataCodec w = c" "sw_dictCodec w = d"
    using w by (simp_all add: writerOk_def)
  have i1: "dataInv cs w1 es" "sw_blkRaw w1 = []" "dictInv cs w1 (invKws es)"
    using dataInv_flushBlock [OF i0(1)] i0(2) by (simp_all add: w1_def dictInv_flushBlock)
  have i2: "dictInv cs w2 (invKws es)" "sw_dictRaw w2 = []"
    using dictInv_flushDictChunk [OF i1(3)] sz(3) by (simp_all add: w2_def)
  have cd: "sw_dataCodec w1 = c" "sw_dictCodec w2 = d" "sw_termid w1"
    using i0 i1(3) by (simp_all add: w1_def w2_def dictInv_def)
  obtain bs rs cur where b: "concat bs @ cur = es" "list_all2 (blockStored cs c (sw_out w1)) (sw_idx w1) bs"
    "list_all2 (recStored cs c (sw_out w1)) rs cur" "sw_blkRaw w1 = concat (map encRec rs)" "sw_off w1 = length (sw_out w1)"
    using i1(1) unfolding dataInv_def cd(1) by blast
  then have bs: "concat bs = es" using i1(2) by auto
  obtain ks kc where ks: "concat ks @ kc = invKws es" "[] \<notin> set ks" "sw_dictRegion w2 = dictImgs cs d 0 ks" "sw_dictRaw w2 = kwBytes kc"
    using i2(1) unfolding dictInv_def cd(2) by blast
  have "kc = []" using ks(4) i2(2) by (metis kwBytes_Nil)
  then have kk: "concat ks = invKws es" using ks(1) by simp
  define body where "body = sw_out w1 @ dictImgs cs d 0 ks"
  define post where "post = indexBytes (sw_idx w1) @ footer (length body) (length (sw_out w1)) c d"
  define f where "f = sealFile cs w"
  have f: "f = body @ post"
    using cd ks(3) b(5) by (simp add: f_def sealFile_def Let_def body_def post_def flip: w1_def) (simp add: w2_def w1_def i0)
  have fs: "fits64 (length f)" "length f < 2 ^ 63" using sz(1) by (simp_all add: f_def fits64_63)
  have rs: "fits64 (recsSize (concat bs))" using sz(2) by (simp add: bs fits64_63)
  have bl: "list_all2 (blockStored cs c f) (sw_idx w1) bs"
    using blocksStored_append [OF b(2), of "dictImgs cs d 0 ks @ post"] by (simp add: f body_def)
  have ne: "[] \<notin> set bs" using bl by (auto simp: list_all2_conv_all_nth in_set_conv_nth blockStored_def)
  have "length (sw_idx w1) \<le> recsSize (concat bs)"
    using list_all2_lengthD [OF bl] length_blocks [OF ne] length_le_recsSize [of "concat bs"] by linarith
  then have li: "fits64 (length (sw_idx w1))" using rs by (rule fits64_le)
  have lb: "length body < 2 ^ 63" "length (sw_out w1) < 2 ^ 63" using fs(2) by (simp_all add: f body_def)
  define s where "s = \<lparr>sg_file = f, sg_id = 0, sg_dataCodec = c, sg_dictCodec = d, sg_idx = sw_idx w1,
    sg_biOff = int (length body), sg_dictOff = int (length (sw_out w1)), sg_minDocid = 0, sg_maxDocid = 0\<rparr>"
  have "openSegment f = Some s"
    unfolding s_def by (rule openSegment_footer [OF _ firstKey_fits [OF bl rs fs(1)] li lb]) (simp add: f post_def)
  then have fin: "finish cs w = Some s" by (simp add: finish_def f_def)
  have "dataHolds cs s bs" using blocksHold_of [OF bl fs(1) rs] by (simp add: dataHolds_def s_def)
  moreover have "dictHolds cs s ks"
  proof (rule dictHolds_of [where pre = "sw_out w1" and post = post])
    have "length (kwBytes (concat ks)) \<le> recsSize (concat bs)"
      using length_kwBytes_invKws [OF rs] by (simp add: kk bs)
    then have "fits64 (length (kwBytes (concat ks)))" using rs by (rule fits64_le)
    moreover have "fits64 (length (dictImgs cs d 0 ks))" using fs(1) by (rule fits64_le [rotated]) (simp add: f body_def)
    ultimately show "list_all (kwsFit cs (sg_dictCodec s)) ks" using ks(2) by (simp add: kwsFit_of s_def)
    assume "ks \<noteq> []"
    then have "concat ks \<noteq> []" using ks(2) by (cases ks) auto
    then have "bs \<noteq> []" using kk bs by auto
    then obtain e idx b bs' where eb: "sw_idx w1 = e # idx" "blockStored cs c (sw_out w1) e b"
      using b(2) by (cases bs) (auto simp: list_all2_Cons2)
    then have "sw_out w1 \<noteq> []" by (auto simp: blockStored_def at_off_def)
    moreover have "1 \<le> length (AppendUvarint n)" for n by (simp add: Suc_le_eq)
    from add_mono [OF this [of "length (e # idx)"] this [of "length (be_firstKey e)"]]
    have "2 \<le> length (indexBytes (e # idx))" by (simp add: indexBytes_def)
    then have "27 \<le> length post" by (simp add: post_def eb(1) footer_def)
    ultimately show "sw_out w1 \<noteq> [] \<and> 27 \<le> length post" ..
  qed (use sz(3) kk in \<open>simp_all add: s_def f body_def\<close>)
  ultimately have "holds cs s es" unfolding holds_def using o k sz(3) bs kk by blast
  then show ?thesis using fin by (intro exI [of _ s]) (simp add: s_def f_def)
qed


subsection \<open>The round trip\<close>

lemma scanFold_collect: "scanFold (\<lambda>acc k v. Some (acc @ [(k, v)])) kvs acc = Some (acc @ kvs)"
  by (induction kvs arbitrary: acc) auto

lemma holds_scan:
  "codec_ok cs \<Longrightarrow> holds cs s es \<Longrightarrow>
   scanPrefix_st cs s lo (prefixUpper lo) fn st = scanFold fn (filter (\<lambda>kv. prefix lo (fst kv)) es) st"
  using scanPrefix_holds by (fastforce simp: holds_def)

lemma holds_resolve:
  "codec_ok cs \<Longrightarrow> holds cs s es \<Longrightarrow> \<forall>o'\<in>set need. unat o' < length (invKws es) \<Longrightarrow>
   resolveOrds cs s need = Some (\<lambda>o'. if o' \<in> set need then Some (invKws es ! unat o') else None)"
  using resolveOrds_holds by (fastforce simp: holds_def)

lemma write_holds:
  assumes "codec_ok cs" "0 < chunk" "ordered es" "\<forall>kv\<in>set es. wfKey (fst kv)"
    and "segFits cs (newSegWriter c d bt chunk th True dch) es"
  shows "\<exists>w s. addEntries cs es (newSegWriter c d bt chunk th True dch) = Some w \<and> finish cs w = Some s \<and>
    holds cs s es \<and> sg_file s = sealFile cs w"
proof -
  have f: "recsSize es < 2 ^ 63" "length (invKws es) < 2 ^ 32" using assms(5) by (simp_all add: segFits_def)
  have "length (invKws ([] @ es)) \<le> 2 ^ 32" using f(2) by simp
  from addEntries_ok [OF newSegWriter_ok [OF assms(2), of cs c d bt th dch] assms(4) this] obtain w where
    w: "addEntries cs es (newSegWriter c d bt chunk th True dch) = Some w" "writerOk cs c d w es" by (metis append_Nil)
  have "length (sealFile cs w) < 2 ^ 63" using assms(5) w(1) by (simp add: segFits_def)
  from finish_holds [OF assms(1) w(2) assms(3,4) this f] w(1) show ?thesis by blast
qed

text \<open>
  (C37) A segment gives back what was written. For every list of records in key order, whatever the
  codecs, the block size, the size above which a value is stored outside its block and the size of a
  dictionary chunk, the writer produces a file; opening it succeeds; a scan of any prefix visits exactly
  the records with that prefix, in order and with their values; and every ordinal resolves to the keyword
  of the inverted record at that position.
\<close>

theorem segment_round_trip:
  assumes "codec_ok cs" "0 < chunk" "ordered es" "\<forall>kv\<in>set es. wfKey (fst kv)"
    and "segFits cs (newSegWriter c d bt chunk th True dch) es"
  shows "\<exists>w s. addEntries cs es (newSegWriter c d bt chunk th True dch) = Some w \<and> finish cs w = Some s \<and>
    (\<forall>lo. scanPrefix_st cs s lo (prefixUpper lo) (\<lambda>acc k v. Some (acc @ [(k, v)])) [] =
      Some (filter (\<lambda>kv. prefix lo (fst kv)) es)) \<and>
    (\<forall>need. (\<forall>o'\<in>set need. unat o' < length (invKws es)) \<longrightarrow>
      (\<exists>m. resolveOrds cs s need = Some m \<and> (\<forall>o'\<in>set need. m o' = Some (invKws es ! unat o'))))"
proof -
  from write_holds [OF assms] obtain w s where
    w: "addEntries cs es (newSegWriter c d bt chunk th True dch) = Some w" "finish cs w = Some s" and h: "holds cs s es"
    by blast
  show ?thesis
    using w holds_resolve [OF assms(1) h]
    by (intro exI [of _ w] exI [of _ s]) (simp add: holds_scan [OF assms(1) h] scanFold_collect)
qed

text \<open>An instance: uncompressed, with blocks of one record, an external value and two dictionary
  chunks.\<close>

definition plainCodecs :: compressors where
  "plainCodecs = \<lparr>snappyEncode = id, snappyDecode = Some, zstdEncodeAll = id, zstdDecodeAll = Some\<rparr>"

definition exampleRecs :: "(bytes \<times> bytes) list" where
  "exampleRecs = [(invertedKey 1 ''ab'', encodeInvertedValue_st [3, 7] [5]), (invertedKey 1 ''b'', encodeInvertedValue_st [7] []),
     (forwardKey 1 3, encodeForward [0]), (forwardKey 1 7, encodeForward [0, 1])]"

lemma plainCodecs_ok: "codec_ok plainCodecs"
  by (simp add: codec_ok_def plainCodecs_def)

theorem segment_round_trip_witness:
  "\<exists>w s. addEntries plainCodecs exampleRecs (newSegWriter codecSnappy codecZstd 4 2 2 True 2) = Some w \<and>
    finish plainCodecs w = Some s \<and>
    scanPrefix_st plainCodecs s (invertedKey 1 []) (prefixUpper (invertedKey 1 [])) (\<lambda>acc k v. Some (acc @ [(k, v)])) [] =
      Some (take 2 exampleRecs) \<and>
    (\<exists>m. resolveOrds plainCodecs s [1] = Some m \<and> m 1 = Some ''b'')"
proof -
  have o: "ordered exampleRecs" "\<forall>kv\<in>set exampleRecs. wfKey (fst kv)"
    by (auto simp: exampleRecs_def invertedKey_less forwardKey_less inverted_less_forward wfKey_def)
  have f: "segFits plainCodecs (newSegWriter codecSnappy codecZstd 4 2 2 True 2) exampleRecs"
  proof -
    have "recsSize exampleRecs < 1000" "length (invKws exampleRecs) < 10"
      "case addEntries plainCodecs exampleRecs (newSegWriter codecSnappy codecZstd 4 2 2 True 2) of None \<Rightarrow> False
        | Some w \<Rightarrow> length (sealFile plainCodecs w) < 1000" by code_simp+
    then show ?thesis by (auto simp: segFits_def split: option.splits)
  qed
  have p: "filter (\<lambda>kv. prefix (invertedKey 1 []) (fst kv)) exampleRecs = take 2 exampleRecs" by code_simp
  have k: "invKws exampleRecs ! unat (1 :: ord) = ''b''" "unat (1 :: ord) < length (invKws exampleRecs)" by code_simp+
  from segment_round_trip [OF plainCodecs_ok _ o f] obtain w s where
    w: "addEntries plainCodecs exampleRecs (newSegWriter codecSnappy codecZstd 4 2 2 True 2) = Some w"
      "finish plainCodecs w = Some s" and
    s: "\<forall>lo. scanPrefix_st plainCodecs s lo (prefixUpper lo) (\<lambda>acc k v. Some (acc @ [(k, v)])) [] =
      Some (filter (\<lambda>kv. prefix lo (fst kv)) exampleRecs)" and
    r: "\<forall>need. (\<forall>o'\<in>set need. unat o' < length (invKws exampleRecs)) \<longrightarrow>
      (\<exists>m. resolveOrds plainCodecs s need = Some m \<and> (\<forall>o'\<in>set need. m o' = Some (invKws exampleRecs ! unat o')))" by auto
  have "\<exists>m. resolveOrds plainCodecs s [1] = Some m \<and> m 1 = Some ''b''"
    using r [rule_format, of "[1]"] k by auto
  then show ?thesis using w s p by (intro exI [of _ w] exI [of _ s]) simp
qed

end
