(* ===== verification/StLayers.thy ===== *)
theory StLayers
  imports StKeys
begin

text \<open>
  The meaning of the segment store, for one table. The store keeps layers, newest first: the head, the
  heads being written to disk, the segments. A layer says of a keyword and a document that the document
  was added, was removed, or nothing; and of a document that it has these keywords, that it is deleted,
  or nothing. A read takes the first layer that says something. This theory gives the algebra of layers
  and shows that an update of the newest layer, a merge of neighbouring layers and the compaction of
  the oldest layers have the effect they should on the map from documents to keywords. Nothing here is
  code; the operations of the store are related to it in the later theories.
\<close>

record layer =
  l_inv :: "bytes \<Rightarrow> docid \<Rightarrow> bool option"
  l_fwd :: "docid \<Rightarrow> bytes set option option"

definition emptyLayer :: layer where
  "emptyLayer = \<lparr>l_inv = (\<lambda>_ _. None), l_fwd = (\<lambda>_. None)\<rparr>"

text \<open>The newer layer first.\<close>

definition over :: "layer \<Rightarrow> layer \<Rightarrow> layer" where
  "over a b = \<lparr>l_inv = (\<lambda>kw d. case l_inv a kw d of None \<Rightarrow> l_inv b kw d | Some x \<Rightarrow> Some x),
               l_fwd = (\<lambda>d. case l_fwd a d of None \<Rightarrow> l_fwd b d | Some x \<Rightarrow> Some x)\<rparr>"

definition stack :: "layer list \<Rightarrow> layer" where
  "stack ls = foldr over ls emptyLayer"

definition content :: "layer \<Rightarrow> docid \<Rightarrow> bytes set option" where
  "content l d = (case l_fwd l d of None \<Rightarrow> None | Some x \<Rightarrow> x)"

text \<open>The documents with a keyword, as a read sees them.\<close>

definition postings :: "layer \<Rightarrow> bytes \<Rightarrow> docid set" where
  "postings l kw = {d. l_inv l kw d = Some True}"

text \<open>The postings are those of the documents' keywords.\<close>

definition consistent :: "layer \<Rightarrow> bool" where
  "consistent l \<longleftrightarrow> (\<forall>kw d. l_inv l kw d = Some True \<longleftrightarrow> (\<exists>W. content l d = Some W \<and> kw \<in> W))"

text \<open>A layer that mentions a posting mentions its document, and it has all postings of the documents
  it has keywords for.\<close>

definition complete :: "layer \<Rightarrow> bool" where
  "complete l \<longleftrightarrow> (\<forall>kw d. l_inv l kw d \<noteq> None \<longrightarrow> l_fwd l d \<noteq> None) \<and>
     (\<forall>d W. l_fwd l d = Some (Some W) \<longrightarrow> W \<noteq> {} \<and> (\<forall>kw\<in>W. l_inv l kw d = Some True))"

text \<open>A stack of layers is good when every layer is complete and the layers from each one downwards are
  consistent: the state on disk after a crash, which lacks the newest layers, is consistent too.\<close>

primrec good :: "layer list \<Rightarrow> bool" where
  "good [] \<longleftrightarrow> True"
| "good (l # ls) \<longleftrightarrow> complete l \<and> consistent (over l (stack ls)) \<and> good ls"

subsection \<open>The algebra\<close>

lemma layer_eqI: "l_inv a = l_inv b \<Longrightarrow> l_fwd a = l_fwd b \<Longrightarrow> a = (b :: layer)"
  by simp

lemma over_empty [simp]: "over emptyLayer l = l" "over l emptyLayer = l"
  by (auto intro!: layer_eqI ext simp: over_def emptyLayer_def split: option.splits)

lemma over_assoc: "over (over a b) c = over a (over b c)"
  by (auto intro!: layer_eqI ext simp: over_def split: option.splits)

lemma stack_simps [simp]: "stack [] = emptyLayer" "stack (l # ls) = over l (stack ls)"
  by (simp_all add: stack_def)

lemma stack_append: "stack (xs @ ys) = over (stack xs) (stack ys)"
  by (induction xs) (simp_all add: over_assoc)

lemma stack_merge: "stack (xs @ stack ys # zs) = stack (xs @ ys @ zs)"
  by (simp add: stack_append)

lemma stack_emptyLayer: "stack (xs @ emptyLayer # zs) = stack (xs @ zs)"
  by (simp add: stack_append)

lemma consistentD: "consistent l \<Longrightarrow> postings l kw = {d. \<exists>W. content l d = Some W \<and> kw \<in> W}"
  by (simp add: consistent_def postings_def)

lemma consistent_empty [simp]: "consistent emptyLayer"
  by (simp add: consistent_def content_def emptyLayer_def)

lemma complete_empty [simp]: "complete emptyLayer"
  by (simp add: complete_def emptyLayer_def)

lemma good_consistent: "good ls \<Longrightarrow> consistent (stack ls)"
  by (cases ls) simp_all

lemma good_append: "good (xs @ ys) \<Longrightarrow> good ys"
  by (induction xs) auto

lemma good_mono:
  assumes "good (xs @ ys)" "good zs" "\<And>l. consistent (over l (stack ys)) \<Longrightarrow> consistent (over l (stack zs))"
  shows "good (xs @ zs)"
  using assms(1)
proof (induction xs)
  case (Cons x xs)
  have "consistent (over (over x (stack xs)) (stack ys))" using Cons.prems by (simp add: stack_append over_assoc)
  from assms(3) [OF this] Cons show ?case by (simp add: stack_append over_assoc)
qed (use assms(2) in simp)

lemma over_inv: "l_inv (over a b) kw d = (case l_inv a kw d of None \<Rightarrow> l_inv b kw d | Some x \<Rightarrow> Some x)"
  by (simp add: over_def)

lemma over_fwd: "l_fwd (over a b) d = (case l_fwd a d of None \<Rightarrow> l_fwd b d | Some x \<Rightarrow> Some x)"
  by (simp add: over_def)

lemma content_over: "content (over a b) d = (case l_fwd a d of None \<Rightarrow> content b d | Some x \<Rightarrow> x)"
  by (simp add: content_def over_fwd split: option.splits)

subsection \<open>Merging neighbours\<close>

lemma complete_over:
  assumes "complete a" "complete b"
  shows "complete (over a b)"
  unfolding complete_def
proof (intro conjI allI impI)
  fix kw d
  assume "l_inv (over a b) kw d \<noteq> None"
  then show "l_fwd (over a b) d \<noteq> None"
    using assms unfolding complete_def over_inv over_fwd by (metis option.case_eq_if option.distinct(1))
next
  fix d W
  assume w: "l_fwd (over a b) d = Some (Some W)"
  show "W \<noteq> {}" using w assms unfolding complete_def over_fwd by (metis option.case_eq_if option.collapse)
  show "\<forall>kw\<in>W. l_inv (over a b) kw d = Some True"
  proof
    fix kw assume kw: "kw \<in> W"
    show "l_inv (over a b) kw d = Some True"
    proof (cases "l_fwd a d")
      case None
      then have "l_inv a kw d = None" using assms(1) unfolding complete_def by metis
      moreover have "l_inv b kw d = Some True" using w None kw assms(2) by (simp add: complete_def over_fwd)
      ultimately show ?thesis by (simp add: over_inv)
    next
      case (Some x)
      then have "l_inv a kw d = Some True" using w kw assms(1) by (simp add: complete_def over_fwd)
      then show ?thesis by (simp add: over_inv)
    qed
  qed
qed

lemma complete_stack: "\<forall>l\<in>set ls. complete l \<Longrightarrow> complete (stack ls)"
  by (induction ls) (simp_all add: complete_over)

lemma good_complete: "good ls \<Longrightarrow> \<forall>l\<in>set ls. complete l"
  by (induction ls) auto

theorem good_merge:
  assumes "good (xs @ ys @ zs)"
  shows "good (xs @ stack ys # zs)"
proof (rule good_mono [OF assms])
  have g: "good (ys @ zs)" using assms by (rule good_append)
  then have "\<forall>l\<in>set ys. complete l" using good_complete by fastforce
  then have "complete (stack ys)" by (rule complete_stack)
  moreover have "consistent (over (stack ys) (stack zs))" using good_consistent [OF g] by (simp add: stack_append)
  ultimately show "good (stack ys # zs)" using g good_append by simp
qed (simp add: stack_append)

subsection \<open>Updating the newest layer\<close>

text \<open>The document gets the keywords \<open>new\<close>; none deletes it. Every new keyword is posted, and the
  removal of every old keyword that is not new.\<close>

definition setDoc :: "docid \<Rightarrow> bytes set \<Rightarrow> bytes set \<Rightarrow> layer \<Rightarrow> layer" where
  "setDoc d new old l = \<lparr>l_inv = (\<lambda>kw d'. if d' = d \<and> kw \<in> new then Some True
                               else if d' = d \<and> kw \<in> old then Some False else l_inv l kw d'),
     l_fwd = (l_fwd l)(d \<mapsto> if new = {} then None else Some new)\<rparr>"

definition priorWords :: "layer \<Rightarrow> docid \<Rightarrow> bytes set" where
  "priorWords l d = (case content l d of None \<Rightarrow> {} | Some W \<Rightarrow> W)"

lemma complete_setDoc: "complete l \<Longrightarrow> complete (setDoc d new old l)"
  by (auto simp: complete_def setDoc_def)

theorem good_setDoc:
  assumes "good (l # ls)" "old = priorWords (stack (l # ls)) d"
  shows "good (setDoc d new old l # ls)"
    and "content (stack (setDoc d new old l # ls)) = (content (stack (l # ls)))(d := if new = {} then None else Some new)"
proof -
  let ?s = "over l (stack ls)" and ?s' = "over (setDoc d new old l) (stack ls)"
  have c: "content ?s' d' = (if d' = d then if new = {} then None else Some new else content ?s d')" for d'
    by (simp add: content_over setDoc_def)
  then show "content (stack (setDoc d new old l # ls)) = (content (stack (l # ls)))(d := if new = {} then None else Some new)"
    by (simp add: fun_eq_iff)
  have con: "l_inv ?s kw d' = Some True \<longleftrightarrow> (\<exists>W. content ?s d' = Some W \<and> kw \<in> W)" for kw d'
    using assms(1) by (simp add: consistent_def)
  have i: "l_inv ?s' kw d' = (if d' = d \<and> kw \<in> new then Some True
      else if d' = d \<and> kw \<in> old then Some False else l_inv ?s kw d')" for kw d'
    by (simp add: over_inv setDoc_def)
  have o: "kw \<in> old \<longleftrightarrow> l_inv ?s kw d = Some True" for kw
    by (simp add: con assms(2) priorWords_def split: option.splits)
  have "consistent ?s'"
    unfolding consistent_def
  proof (intro allI)
    fix kw d'
    show "l_inv ?s' kw d' = Some True \<longleftrightarrow> (\<exists>W. content ?s' d' = Some W \<and> kw \<in> W)"
    proof (cases "d' = d")
      case True
      then show ?thesis using o [of kw] by (auto simp: c i)
    next
      case False
      then show ?thesis using con by (simp add: c i)
    qed
  qed
  then show "good (setDoc d new old l # ls)" using assms(1) complete_setDoc by simp
qed

subsection \<open>Compacting the oldest layers\<close>

text \<open>With nothing below, removals and deletions say nothing.\<close>

definition compact :: "layer \<Rightarrow> layer" where
  "compact l = \<lparr>l_inv = (\<lambda>kw d. if l_inv l kw d = Some True then Some True else None),
     l_fwd = (\<lambda>d. if l_fwd l d = Some None then None else l_fwd l d)\<rparr>"

lemma content_compact1: "content (compact l) = content l"
  by (auto simp: fun_eq_iff content_def compact_def split: option.splits)

lemma content_compact: "content (over a (compact l)) = content (over a l)"
  by (auto simp: fun_eq_iff content_over content_compact1 split: option.splits)

lemma posting_compact: "l_inv (over a (compact l)) kw d = Some True \<longleftrightarrow> l_inv (over a l) kw d = Some True"
  by (simp add: over_inv compact_def split: option.splits)

lemma consistent_compact: "consistent (over a (compact l)) \<longleftrightarrow> consistent (over a l)"
  by (simp add: consistent_def content_compact posting_compact)

theorem good_compact:
  assumes "good (xs @ ys)"
  shows "good (xs @ [compact (stack ys)])" "content (stack (xs @ [compact (stack ys)])) = content (stack (xs @ ys))"
proof -
  have g: "good ys" using assms by (rule good_append)
  have c: "consistent (stack ys)" "complete (stack ys)"
    using good_consistent [OF g] complete_stack [OF good_complete [OF g]] by blast+
  have t: "\<exists>W. l_fwd (stack ys) d = Some (Some W)" if "l_inv (stack ys) kw d = Some True" for kw d
  proof -
    have "\<exists>W. content (stack ys) d = Some W \<and> kw \<in> W" using c(1) that by (simp add: consistent_def)
    then show ?thesis by (auto simp: content_def split: option.splits)
  qed
  have "complete (compact (stack ys))"
    unfolding complete_def
  proof (intro conjI allI impI)
    fix kw d assume "l_inv (compact (stack ys)) kw d \<noteq> None"
    then have "l_inv (stack ys) kw d = Some True" by (simp add: compact_def split: if_splits)
    from t [OF this] show "l_fwd (compact (stack ys)) d \<noteq> None" by (auto simp: compact_def)
  next
    fix d W assume "l_fwd (compact (stack ys)) d = Some (Some W)"
    then have "l_fwd (stack ys) d = Some (Some W)" by (simp add: compact_def split: if_splits)
    then show "W \<noteq> {}" "\<forall>kw\<in>W. l_inv (compact (stack ys)) kw d = Some True"
      using c(2) by (simp_all add: complete_def compact_def)
  qed
  moreover have "consistent (compact (stack ys))"
    using consistent_compact [of emptyLayer "stack ys"] c(1) by simp
  ultimately have "good [compact (stack ys)]" by simp
  then show "good (xs @ [compact (stack ys)])"
    by (rule good_mono [OF assms]) (simp add: consistent_compact)
  show "content (stack (xs @ [compact (stack ys)])) = content (stack (xs @ ys))"
    by (simp add: stack_append content_compact)
qed

text \<open>Layers that say nothing may be put in, and the lower layers may be taken away.\<close>

lemma good_emptyI: "good (xs @ ys) \<Longrightarrow> good (xs @ emptyLayer # ys)"
proof (rule good_mono [of xs ys "emptyLayer # ys"])
  assume g: "good (xs @ ys)"
  then show "good (xs @ ys)" .
  show "good (emptyLayer # ys)" using good_append [OF g] good_consistent by simp
qed simp

lemma consistent_top:
  assumes "complete a" "consistent (over a b)"
  shows "consistent a"
  unfolding consistent_def
proof (intro allI iffI)
  fix kw d assume p: "l_inv a kw d = Some True"
  then have "l_inv (over a b) kw d = Some True" by (simp add: over_inv)
  then obtain W where "content (over a b) d = Some W" "kw \<in> W" using assms(2) unfolding consistent_def by blast
  moreover have "l_fwd a d \<noteq> None" using assms(1) p unfolding complete_def by (metis option.distinct(1))
  ultimately show "\<exists>W. content a d = Some W \<and> kw \<in> W" by (auto simp: content_def over_fwd)
next
  fix kw d assume "\<exists>W. content a d = Some W \<and> kw \<in> W"
  then obtain W where "l_fwd a d = Some (Some W)" "kw \<in> W" by (auto simp: content_def split: option.splits)
  then show "l_inv a kw d = Some True" using assms(1) by (simp add: complete_def)
qed

lemma good_prefix: "good (xs @ ys) \<Longrightarrow> good xs"
proof (induction xs)
  case (Cons x xs)
  have "complete (over x (stack xs))"
    using good_complete [OF Cons.prems] complete_stack [of "x # xs"] by simp
  moreover have "consistent (over (over x (stack xs)) (stack ys))"
    using Cons.prems by (simp add: stack_append over_assoc)
  ultimately show ?case using consistent_top Cons by simp
qed simp

lemma good_drop_lower: "good (xs @ ys) \<Longrightarrow> good (xs @ [emptyLayer])"
  using good_emptyI [of xs "[]"] good_prefix by fastforce

lemma compact_empty [simp]: "compact emptyLayer = emptyLayer"
  by (simp add: compact_def emptyLayer_def)

end
