(* ===== verification/StHead.thy ===== *)
theory StHead
  imports StWrite StLayers
begin

unbundle bit_operations_syntax

text \<open>
  The head of the segment store (\<^verbatim>\<open>packages/core/invertedstore/head.go\<close> and \<^verbatim>\<open>spilling.go\<close>): the
  postings and forward entries of one table that are not yet in a segment, and their encoding into the
  records of a new segment.

  A keyword's postings are a log of additions and removals in the order they happened, with the kind of
  each operation in a bit set beside the documents. Go's maps are association lists; no result depends
  on their order.
\<close>

subsection \<open>The operation log of a keyword\<close>

record postingDelta =
  pd_docids :: "docid list"
  pd_isAdd :: "64 word list"

definition emptyDelta :: postingDelta where
  "emptyDelta = \<lparr>pd_docids = [], pd_isAdd = []\<rparr>"

definition nOps :: "postingDelta \<Rightarrow> nat" where
  "nOps pd = length (pd_docids pd)"

definition opAt :: "postingDelta \<Rightarrow> nat \<Rightarrow> docid \<times> bool" where
  "opAt pd i = (pd_docids pd ! i, (pd_isAdd pd ! drop_bit 6 i) AND push_bit (i AND 63) 1 \<noteq> 0)"

definition appendOp :: "docid \<Rightarrow> bool \<Rightarrow> postingDelta \<Rightarrow> postingDelta" where
  "appendOp docid isAdd pd =
     (let i = length (pd_docids pd);
          bits = (if length (pd_isAdd pd) \<le> drop_bit 6 i then pd_isAdd pd @ [0] else pd_isAdd pd);
          bits = (if isAdd then bits[drop_bit 6 i := (bits ! drop_bit 6 i) OR push_bit (i AND 63) 1] else bits)
      in \<lparr>pd_docids = pd_docids pd @ [docid], pd_isAdd = bits\<rparr>)"

text \<open>The loop of \<open>resolveOps\<close> over the sorted log: the last operation of each run of one document
  decides.\<close>

function resolveRuns :: "(docid \<times> bool) list \<Rightarrow> docid list \<times> docid list" where
  "resolveRuns [] = ([], [])"
| "resolveRuns (x # xs) =
     (let run = takeWhile (\<lambda>y. fst y = fst x) xs;
          lst = last (x # run);
          (adds, dels) = resolveRuns (drop (length run) xs)
      in if snd lst then (fst lst # adds, dels) else (adds, fst lst # dels))"
  by pat_completeness auto

termination
  by (relation "measure length") auto

definition resolveOps :: "postingDelta \<Rightarrow> docid list \<times> docid list" where
  "resolveOps pd =
     (if nOps pd = 0 then ([], [])
      else resolveRuns (sort_key (\<lambda>x. sint (fst x)) (map (opAt pd) [0..<nOps pd])))"

subsection \<open>The head of a table\<close>

record headTable =
  h_inv :: "(bytes \<times> postingDelta) list"
  h_fwd :: "(docid \<times> bytes list) list"
  h_delForward :: "docid list"
  h_bytes :: int

definition newHeadTable :: headTable where
  "newHeadTable = \<lparr>h_inv = [], h_fwd = [], h_delForward = [], h_bytes = 0\<rparr>"

definition headPosting :: "bytes \<Rightarrow> headTable \<Rightarrow> postingDelta \<times> headTable" where
  "headPosting keyword h =
     (case map_of (h_inv h) keyword of
        Some pd \<Rightarrow> (pd, h)
      | None \<Rightarrow> (emptyDelta, h\<lparr>h_inv := AList.update keyword emptyDelta (h_inv h),
                            h_bytes := h_bytes h + int (length keyword) + 24\<rparr>))"

definition addPosting :: "docid \<Rightarrow> bytes \<Rightarrow> headTable \<Rightarrow> headTable" where
  "addPosting docid keyword h =
     (case headPosting keyword h of (pd, h') \<Rightarrow>
        h'\<lparr>h_inv := AList.update keyword (appendOp docid True pd) (h_inv h'), h_bytes := h_bytes h' + 8\<rparr>)"

definition tombstonePosting :: "docid \<Rightarrow> bytes \<Rightarrow> headTable \<Rightarrow> headTable" where
  "tombstonePosting docid keyword h =
     (case headPosting keyword h of (pd, h') \<Rightarrow>
        h'\<lparr>h_inv := AList.update keyword (appendOp docid False pd) (h_inv h'), h_bytes := h_bytes h' + 8\<rparr>)"

definition setForward :: "docid \<Rightarrow> bytes list \<Rightarrow> headTable \<Rightarrow> headTable" where
  "setForward docid ws h =
     h\<lparr>h_delForward := removeAll docid (h_delForward h), h_fwd := AList.update docid ws (h_fwd h),
       h_bytes := h_bytes h + int (8 + length ws * 4)\<rparr>"

definition deleteForward :: "docid \<Rightarrow> headTable \<Rightarrow> headTable" where
  "deleteForward docid h =
     h\<lparr>h_fwd := AList.delete docid (h_fwd h), h_delForward := List.insert docid (h_delForward h),
       h_bytes := h_bytes h + 12\<rparr>"

definition headForwardLookup :: "headTable option \<Rightarrow> docid \<Rightarrow> bytes list option option" where
  "headForwardLookup ho docid =
     (case ho of None \<Rightarrow> None
      | Some h \<Rightarrow>
          if docid \<in> set (h_delForward h) then Some None
          else case map_of (h_fwd h) docid of Some w \<Rightarrow> Some (Some w) | None \<Rightarrow> None)"

definition noteDocid :: "docid \<Rightarrow> docid \<times> docid \<Rightarrow> docid \<times> docid" where
  "noteDocid d r = (if sint d < sint (fst r) then d else fst r, if sint (snd r) < sint d then d else snd r)"

definition headForwardRange :: "headTable \<Rightarrow> docid \<times> docid" where
  "headForwardRange h = fold noteDocid (h_delForward h) (fold noteDocid (map fst (h_fwd h)) emptyDocidRange)"

definition headEmpty :: "headTable \<Rightarrow> bool" where
  "headEmpty h \<longleftrightarrow> h_inv h = [] \<and> h_fwd h = [] \<and> h_delForward h = []"

text \<open>What \<open>applyOneOp\<close> does to the head: no keywords delete the document; otherwise all its keywords are
  posted again and the removal of each keyword it no longer has.\<close>

definition repost :: "docid \<Rightarrow> bytes list \<Rightarrow> bytes list \<Rightarrow> headTable \<Rightarrow> headTable" where
  "repost docid kws old h =
     (if kws = [] then deleteForward docid (fold (tombstonePosting docid) old h)
      else
        let newSet = remdups kws;
            h1 = fold (addPosting docid) newSet h;
            h2 = fold (\<lambda>w h. if w \<in> set newSet then h else tombstonePosting docid w h) old h1
        in setForward docid kws h2)"

subsection \<open>Options\<close>

record storeOptions =
  o_CapBytes :: int
  o_Fanout :: int
  o_DataCodecL0 :: char
  o_DataCodecMerged :: char
  o_DictCodec :: char
  o_DictChunkBytes :: int
  o_ChunkCacheBytes :: int
  o_InlineThreshold :: int
  o_MaxInflightPostings :: int
  o_MaxInstallRetries :: int
  o_AutoMerge :: bool
  o_BlockTarget :: int
  o_Chunk :: int

definition withDefaults :: "storeOptions \<Rightarrow> storeOptions" where
  "withDefaults o' =
     (let cap = (if o_CapBytes o' \<le> 0 then 16777216 else o_CapBytes o') in
      \<lparr>o_CapBytes = cap,
       o_Fanout = (if o_Fanout o' \<le> 0 then 4 else o_Fanout o'),
       o_DataCodecL0 = (if o_DataCodecL0 o' = CHR 0x00 then codecSnappy else o_DataCodecL0 o'),
       o_DataCodecMerged = (if o_DataCodecMerged o' = CHR 0x00 then codecZstd else o_DataCodecMerged o'),
       o_DictCodec = (if o_DictCodec o' = CHR 0x00 then codecZstd else o_DictCodec o'),
       o_DictChunkBytes = (if o_DictChunkBytes o' \<le> 0 then 4096 else o_DictChunkBytes o'),
       o_ChunkCacheBytes = (if o_ChunkCacheBytes o' \<le> 0 then 33554432 else o_ChunkCacheBytes o'),
       o_InlineThreshold = (if o_InlineThreshold o' \<le> 0 then 1024 else o_InlineThreshold o'),
       o_MaxInflightPostings = (if o_MaxInflightPostings o' \<le> 0 then 4 * cap else o_MaxInflightPostings o'),
       o_MaxInstallRetries = (if o_MaxInstallRetries o' \<le> 0 then 5 else o_MaxInstallRetries o'),
       o_AutoMerge = o_AutoMerge o',
       o_BlockTarget = (if o_BlockTarget o' \<le> 0 then 32768 else o_BlockTarget o'),
       o_Chunk = (if o_Chunk o' \<le> 0 then 65536 else o_Chunk o')\<rparr>)"

definition segWriterFor :: "storeOptions \<Rightarrow> char \<Rightarrow> segWriter" where
  "segWriterFor o' dataCodec =
     newSegWriter dataCodec (o_DictCodec o') (o_BlockTarget o') (o_Chunk o') (o_InlineThreshold o') True (o_DictChunkBytes o')"

subsection \<open>Encoding a head\<close>

record fwdRec =
  fr_docid :: docid
  fr_deleted :: bool
  fr_words :: "bytes list"

definition headTerms :: "headTable \<Rightarrow> bytes list" where
  "headTerms h = sort (map fst (h_inv h))"

definition kw2ord :: "bytes list \<Rightarrow> bytes \<Rightarrow> ord" where
  "kw2ord terms kw = (case map_of (zip terms [0..<length terms]) kw of None \<Rightarrow> 0 | Some i \<Rightarrow> of_nat i)"

definition headDelta :: "headTable \<Rightarrow> bytes \<Rightarrow> docid list \<times> docid list" where
  "headDelta h t = resolveOps (case map_of (h_inv h) t of None \<Rightarrow> emptyDelta | Some pd \<Rightarrow> pd)"

definition headInvRecs :: "headTable \<Rightarrow> tid \<Rightarrow> (bytes \<times> bytes) list" where
  "headInvRecs h t =
     map (\<lambda>kw. case headDelta h kw of (adds, dels) \<Rightarrow> (invertedKey t kw, encodeInvertedValue_st adds dels)) (headTerms h)"

definition headFwdRecs :: "headTable \<Rightarrow> fwdRec list" where
  "headFwdRecs h =
     sort_key (\<lambda>r. sint (fr_docid r))
       (map (\<lambda>(d, ws). \<lparr>fr_docid = d, fr_deleted = False, fr_words = ws\<rparr>) (h_fwd h) @
        map (\<lambda>d. \<lparr>fr_docid = d, fr_deleted = True, fr_words = []\<rparr>) (h_delForward h))"

definition fwdEntry :: "bytes list \<Rightarrow> tid \<Rightarrow> fwdRec \<Rightarrow> bytes \<times> bytes" where
  "fwdEntry terms t r =
     (forwardKey t (fr_docid r),
      if fr_deleted r then forwardTombstone else encodeForward (map (kw2ord terms) (fr_words r)))"

definition headEntries :: "headTable \<Rightarrow> tid \<Rightarrow> (bytes \<times> bytes) list" where
  "headEntries h t = headInvRecs h t @ map (fwdEntry (headTerms h) t) (headFwdRecs h)"

definition headRange :: "headTable \<Rightarrow> docid \<times> docid" where
  "headRange h =
     (let recs = headFwdRecs h in
      if recs = [] then emptyDocidRange else (fr_docid (hd recs), fr_docid (last recs)))"

definition headPostings :: "headTable \<Rightarrow> int" where
  "headPostings h = sum_list (map (\<lambda>kw. case headDelta h kw of (adds, dels) \<Rightarrow> int (length adds + length dels)) (headTerms h))"

record spillResult =
  sr_seg :: segment
  sr_minD :: docid
  sr_maxD :: docid
  sr_postings :: int

definition encodeHeadToFile :: "compressors \<Rightarrow> storeOptions \<Rightarrow> headTable \<Rightarrow> int \<Rightarrow> spillResult option" where
  "encodeHeadToFile cs o' h tableId =
     do {
       w \<leftarrow> addEntries cs (headEntries h (word_of_int tableId)) (segWriterFor o' (o_DataCodecL0 o'));
       seg \<leftarrow> finish cs w;
       Some \<lparr>sr_seg = seg, sr_minD = fst (headRange h), sr_maxD = snd (headRange h), sr_postings = headPostings h\<rparr>
     }"


subsection \<open>The log resolves to the latest operation\<close>

abbreviation pdOps :: "postingDelta \<Rightarrow> (docid \<times> bool) list" where
  "pdOps pd \<equiv> map (opAt pd) [0..<nOps pd]"

definition bitAt :: "64 word list \<Rightarrow> nat \<Rightarrow> bool" where
  "bitAt bs i \<longleftrightarrow> bit (bs ! (i div 64)) (i mod 64)"

definition pdOk :: "postingDelta \<Rightarrow> bool" where
  "pdOk pd \<longleftrightarrow> length (pd_isAdd pd) = (nOps pd + 63) div 64 \<and>
     (\<forall>i. nOps pd \<le> i \<and> i < 64 * length (pd_isAdd pd) \<longrightarrow> \<not> bitAt (pd_isAdd pd) i)"

lemma and_63: "(i :: nat) AND 63 = i mod 64"
proof -
  have m: "(63 :: nat) = mask 6" by (simp add: mask_eq_exp_minus_1)
  show ?thesis by (simp only: m take_bit_eq_mask [symmetric] take_bit_eq_mod) simp
qed

lemma drop_bit_6: "drop_bit 6 (i :: nat) = i div 64"
  by (simp add: drop_bit_eq_div)

lemma opAt_bitAt: "opAt pd i = (pd_docids pd ! i, bitAt (pd_isAdd pd) i)"
  by (simp add: opAt_def bitAt_def and_63 drop_bit_6 bit_iff_and_push_bit_not_eq_0)

lemma bitAt_set:
  assumes "j div 64 < length bs"
  shows "bitAt (bs[j div 64 := (bs ! (j div 64)) OR push_bit (j mod 64) 1]) i \<longleftrightarrow> bitAt bs i \<or> i = j"
proof (cases "i div 64 = j div 64")
  case True
  have "i = j \<longleftrightarrow> i mod 64 = j mod 64" using True by (metis div_mult_mod_eq)
  then show ?thesis using assms True
    by (auto simp: bitAt_def bit_or_iff bit_exp_iff)
qed (auto simp: bitAt_def)

lemma bitAt_snoc: "bitAt (bs @ [0]) i \<longleftrightarrow> i < 64 * length bs \<and> bitAt bs i" if "i < 64 * (length bs + 1)"
proof -
  have "i div 64 < length bs \<longleftrightarrow> i < 64 * length bs" by (metis div_less_iff_less_mult mult.commute zero_less_numeral)
  moreover have "i div 64 < length bs + 1" using that by (metis div_less_iff_less_mult mult.commute zero_less_numeral)
  ultimately show ?thesis by (auto simp: bitAt_def nth_append less_Suc_eq)
qed

lemma emptyDelta_ok [simp]: "pdOk emptyDelta" "nOps emptyDelta = 0"
  by (simp_all add: pdOk_def emptyDelta_def nOps_def)

lemma appendOp_ok:
  assumes "pdOk pd"
  shows "pdOk (appendOp d a pd)" "pdOps (appendOp d a pd) = pdOps pd @ [(d, a)]"
proof -
  let ?n = "nOps pd" and ?bs = "pd_isAdd pd"
  define bs where "bs = (if length ?bs \<le> ?n div 64 then ?bs @ [0] else ?bs)"
  define bs' where "bs' = (if a then bs[?n div 64 := (bs ! (?n div 64)) OR push_bit (?n mod 64) 1] else bs)"
  have e: "appendOp d a pd = \<lparr>pd_docids = pd_docids pd @ [d], pd_isAdd = bs'\<rparr>"
    by (simp add: appendOp_def Let_def bs'_def bs_def nOps_def drop_bit_6 and_63)
  have l: "length ?bs = (?n + 63) div 64" and off: "\<And>i. ?n \<le> i \<Longrightarrow> i < 64 * length ?bs \<Longrightarrow> \<not> bitAt ?bs i"
    using assms by (auto simp: pdOk_def)
  have lb: "length bs = (?n + 1 + 63) div 64" using l by (auto simp: bs_def)
  have lt: "?n div 64 < length bs" using lb by linarith
  have b: "bitAt bs i \<longleftrightarrow> i < ?n \<and> bitAt ?bs i" if "i < 64 * length bs" for i
  proof (cases "length ?bs \<le> ?n div 64")
    case True
    then have "64 * length ?bs = ?n" using l by linarith
    then show ?thesis using that True bitAt_snoc [of i ?bs] by (simp add: bs_def)
  next
    case False
    then show ?thesis using that off [of i] by (cases "i < ?n") (simp_all add: bs_def)
  qed
  have b': "bitAt bs' i \<longleftrightarrow> (if i = ?n then a else i < ?n \<and> bitAt ?bs i)" if "i < 64 * length bs" for i
    using b [OF that] bitAt_set [OF lt, of i] by (auto simp: bs'_def)
  have n: "nOps (appendOp d a pd) = ?n + 1" by (simp add: e nOps_def)
  have l': "length bs' = length bs" by (simp add: bs'_def)
  show "pdOk (appendOp d a pd)"
    unfolding pdOk_def n using lb b' by (auto simp: e l')
  have nb: "?n < 64 * length bs" using lb by linarith
  have "opAt (appendOp d a pd) i = opAt pd i" if "i < ?n" for i
    using b' [of i] that nb by (simp add: opAt_bitAt e nth_append nOps_def)
  moreover have "opAt (appendOp d a pd) ?n = (d, a)"
    using b' [OF nb] by (simp add: opAt_bitAt e nOps_def)
  ultimately show "pdOps (appendOp d a pd) = pdOps pd @ [(d, a)]" by (simp add: n)
qed


lemma map_of_rev_last:
  "map_of (rev xs) d = (let ys = filter (\<lambda>p. fst p = d) xs in if ys = [] then None else Some (snd (last ys)))"
proof (induction xs rule: rev_induct)
  case (snoc x xs)
  then show ?case by (cases x) (auto simp: Let_def)
qed simp

lemma map_of_rev_sort:
  "map_of (rev (sort_key (\<lambda>x. sint (fst x)) xs)) (d :: docid) = map_of (rev xs) d"
proof -
  have "filter (\<lambda>x. sint (fst x) = sint d) (sort_key (\<lambda>x. sint (fst x)) xs) = filter (\<lambda>x. sint (fst x) = sint d) xs"
    by (rule sort_key_stable)
  moreover have "sint (fst x) = sint d \<longleftrightarrow> fst x = d" for x :: "docid \<times> 'a" by (metis signed_word_eqI)
  ultimately show ?thesis by (simp add: map_of_rev_last)
qed

lemma resolveRuns_spec:
  assumes "sorted (map (\<lambda>x. sint (fst x)) xs)"
  shows "(\<forall>d. d \<in> set (fst (resolveRuns xs)) \<longleftrightarrow> map_of (rev xs) d = Some True) \<and>
    (\<forall>d. d \<in> set (snd (resolveRuns xs)) \<longleftrightarrow> map_of (rev xs) d = Some False) \<and>
    distinct (fst (resolveRuns xs)) \<and> distinct (snd (resolveRuns xs))"
  using assms
proof (induction xs rule: resolveRuns.induct)
  case (2 x xs)
  define run rest where "run = takeWhile (\<lambda>y. fst y = fst x) xs" and "rest = drop (length run) xs"
  have xs: "xs = run @ rest" unfolding run_def rest_def by (metis dropWhile_eq_drop takeWhile_dropWhile_id)
  have rw: "rest = dropWhile (\<lambda>y. fst y = fst x) xs" by (simp add: rest_def run_def dropWhile_eq_drop)
  have srt: "sorted (map (\<lambda>x. sint (fst x)) rest)" using "2.prems" by (simp add: xs sorted_append)
  have run: "\<forall>y\<in>set run. fst y = fst x" by (auto simp: run_def dest: set_takeWhileD)
  have lst: "fst (last (x # run)) = fst x" using run by auto
  have fr: "fst x \<notin> fst ` set rest"
  proof
    assume "fst x \<in> fst ` set rest"
    then obtain z where z: "z \<in> set rest" "fst z = fst x" by auto
    then have "rest \<noteq> []" by auto
    then obtain y ys where y: "rest = y # ys" "fst y \<noteq> fst x"
      using hd_dropWhile [of "\<lambda>y. fst y = fst x" xs] by (cases rest) (simp_all flip: rw)
    have "sint (fst x) \<le> sint (fst y)" using "2.prems" by (simp add: xs y(1))
    moreover have "sint (fst y) \<le> sint (fst z)" using srt z(1) by (auto simp: y(1))
    ultimately show False using y(2) z(2) by (metis order_antisym signed_word_eqI)
  qed
  have mo: "map_of (rev (x # xs)) d = (if d = fst x then Some (snd (last (x # run))) else map_of (rev rest) d)" for d
  proof (cases "d = fst x")
    case True
    have "filter (\<lambda>p. fst p = fst x) rest = []" using fr unfolding filter_empty_conv by (metis imageI)
    moreover have "filter (\<lambda>p. fst p = fst x) run = run" using run by simp
    ultimately show ?thesis unfolding map_of_rev_last [of "x # xs"] using True by (simp add: xs)
  next
    case False
    have "filter (\<lambda>p. fst p = d) (x # run) = []" using run False by (auto simp: filter_empty_conv)
    then show ?thesis unfolding map_of_rev_last [of "x # xs"] map_of_rev_last [of rest] using False by (simp add: xs)
  qed
  obtain adds dels where r: "resolveRuns rest = (adds, dels)" by (cases "resolveRuns rest")
  have IH: "\<forall>d. d \<in> set adds \<longleftrightarrow> map_of (rev rest) d = Some True" "\<forall>d. d \<in> set dels \<longleftrightarrow> map_of (rev rest) d = Some False"
    "distinct adds" "distinct dels"
    using "2.IH" [OF run_def, of "last (x # run)"] srt by (simp_all add: r rest_def [symmetric])
  have nm: "map_of (rev rest) (fst x) = None" using fr by (simp add: map_of_eq_None_iff)
  define b where "b = snd (last (x # run))"
  have rr: "resolveRuns (x # xs) = (if b then (fst x # adds, dels) else (adds, fst x # dels))"
    using lst r by (simp add: b_def Let_def run_def [symmetric] rest_def [symmetric] del: last.simps)
  show ?case unfolding rr mo b_def [symmetric] using IH nm by (cases b) auto
qed simp

lemma resolveOps_spec:
  "(d \<in> set (fst (resolveOps pd)) \<longleftrightarrow> map_of (rev (pdOps pd)) d = Some True) \<and>
   (d \<in> set (snd (resolveOps pd)) \<longleftrightarrow> map_of (rev (pdOps pd)) d = Some False)"
proof (cases "nOps pd = 0")
  case False
  have "sorted (map (\<lambda>x. sint (fst x)) (sort_key (\<lambda>x. sint (fst x)) (pdOps pd)))" by (rule sorted_sort_key)
  from resolveRuns_spec [OF this] False show ?thesis by (simp add: resolveOps_def map_of_rev_sort)
qed (simp add: resolveOps_def)


subsection \<open>The head as a layer\<close>

definition headLayer :: "headTable \<Rightarrow> layer" where
  "headLayer h =
     \<lparr>l_inv = (\<lambda>kw d. case map_of (h_inv h) kw of None \<Rightarrow> None | Some pd \<Rightarrow> map_of (rev (pdOps pd)) d),
      l_fwd = (\<lambda>d. if d \<in> set (h_delForward h) then Some None
                   else map_option (\<lambda>ws. Some (set ws)) (map_of (h_fwd h) d))\<rparr>"

definition headInvOk :: "headTable \<Rightarrow> bool" where
  "headInvOk h \<longleftrightarrow> distinct (map fst (h_inv h)) \<and> (\<forall>kw pd. map_of (h_inv h) kw = Some pd \<longrightarrow> pdOk pd)"

definition headFwdOk :: "headTable \<Rightarrow> bool" where
  "headFwdOk h \<longleftrightarrow> distinct (map fst (h_fwd h)) \<and> distinct (h_delForward h) \<and>
     fst ` set (h_fwd h) \<inter> set (h_delForward h) = {} \<and>
     (\<forall>d\<in>fst ` set (h_fwd h) \<union> set (h_delForward h). 0 \<le> sint d)"

definition headKwOk :: "headTable \<Rightarrow> bool" where
  "headKwOk h \<longleftrightarrow> (\<forall>d ws. map_of (h_fwd h) d = Some ws \<longrightarrow> ws \<noteq> [] \<and> set ws \<subseteq> dom (map_of (h_inv h)))"

definition headOk :: "headTable \<Rightarrow> bool" where
  "headOk h \<longleftrightarrow> headInvOk h \<and> headFwdOk h \<and> headKwOk h"

definition logOp :: "bool \<Rightarrow> docid \<Rightarrow> bytes \<Rightarrow> headTable \<Rightarrow> headTable" where
  "logOp a d kw h = (if a then addPosting d kw h else tombstonePosting d kw h)"

lemma logOp_sel [simp]: "h_fwd (logOp a d kw h) = h_fwd h" "h_delForward (logOp a d kw h) = h_delForward h"
  by (simp_all add: logOp_def addPosting_def tombstonePosting_def headPosting_def split: option.splits)

definition deltaOf :: "headTable \<Rightarrow> bytes \<Rightarrow> postingDelta" where
  "deltaOf h kw = (case map_of (h_inv h) kw of None \<Rightarrow> emptyDelta | Some pd \<Rightarrow> pd)"

lemma logOp_inv: "map_of (h_inv (logOp a d kw h)) = (map_of (h_inv h))(kw \<mapsto> appendOp d a (deltaOf h kw))"
  by (auto simp: logOp_def addPosting_def tombstonePosting_def headPosting_def deltaOf_def update_conv' fun_eq_iff
      split: option.splits)

lemma logOp_distinct: "distinct (map fst (h_inv h)) \<Longrightarrow> distinct (map fst (h_inv (logOp a d kw h)))"
  by (simp add: logOp_def addPosting_def tombstonePosting_def headPosting_def distinct_update split: option.splits)

lemma deltaOf_ok: "headOk h \<Longrightarrow> pdOk (deltaOf h kw)"
  by (simp add: headOk_def headInvOk_def deltaOf_def split: option.splits)

lemma headLayer_inv: "l_inv (headLayer h) kw d = map_of (rev (pdOps (deltaOf h kw))) d"
  by (simp add: headLayer_def deltaOf_def split: option.splits)

lemma logOp_ok:
  assumes "headOk h"
  shows "headOk (logOp a d kw h)"
    and "headLayer (logOp a d kw h) =
      (headLayer h)\<lparr>l_inv := \<lambda>kw' d'. if kw' = kw \<and> d' = d then Some a else l_inv (headLayer h) kw' d'\<rparr>"
proof -
  have pd: "pdOk (deltaOf h kw)" using assms by (rule deltaOf_ok)
  have "headInvOk (logOp a d kw h)"
    using assms appendOp_ok(1) [OF pd] by (simp add: headOk_def headInvOk_def logOp_inv logOp_distinct)
  moreover have "headFwdOk (logOp a d kw h)" using assms by (simp add: headOk_def headFwdOk_def)
  moreover have "headKwOk (logOp a d kw h)"
    using assms unfolding headOk_def headKwOk_def logOp_inv logOp_sel by (metis dom_fun_upd insert_iff subset_iff option.distinct(1))
  ultimately show "headOk (logOp a d kw h)" by (simp add: headOk_def)
  have "deltaOf (logOp a d kw h) kw' = (if kw' = kw then appendOp d a (deltaOf h kw) else deltaOf h kw')" for kw'
    by (simp add: deltaOf_def logOp_inv)
  then have "l_inv (headLayer (logOp a d kw h)) kw' d' =
      (if kw' = kw \<and> d' = d then Some a else l_inv (headLayer h) kw' d')" for kw' d'
    by (simp add: headLayer_inv appendOp_ok(2) [OF pd])
  then show "headLayer (logOp a d kw h) =
      (headLayer h)\<lparr>l_inv := \<lambda>kw' d'. if kw' = kw \<and> d' = d then Some a else l_inv (headLayer h) kw' d'\<rparr>"
    by (intro layer_eqI ext) (simp_all add: headLayer_def)
qed

lemma logOps_ok:
  assumes "headOk h"
  shows "headOk (fold (logOp a d) ws h)"
    and "headLayer (fold (logOp a d) ws h) =
      (headLayer h)\<lparr>l_inv := \<lambda>kw' d'. if kw' \<in> set ws \<and> d' = d then Some a else l_inv (headLayer h) kw' d'\<rparr>"
    and "h_fwd (fold (logOp a d) ws h) = h_fwd h" "h_delForward (fold (logOp a d) ws h) = h_delForward h"
    and "dom (map_of (h_inv (fold (logOp a d) ws h))) = dom (map_of (h_inv h)) \<union> set ws"
  using assms
proof (induction ws arbitrary: h)
  case Nil
  {
    case 1 then show ?case by simp
  next
    case 2 show ?case by simp
  next
    case 3 show ?case by simp
  next
    case 4 show ?case by simp
  next
    case 5 show ?case by simp
  }
next
  case (Cons w ws)
  note ok = logOp_ok [where a = a and d = d and kw = w]
  {
    case 1 then show ?case using Cons.IH(1) ok(1) by simp
  next
    case 2 then show ?case using Cons.IH(2) [OF ok(1)] ok(2) by (intro layer_eqI ext) auto
  next
    case 3 then show ?case using Cons.IH(3) [OF ok(1)] by simp
  next
    case 4 then show ?case using Cons.IH(4) [OF ok(1)] by simp
  next
    case 5 then show ?case using Cons.IH(5) [OF ok(1)] by (auto simp: logOp_inv)
  }
qed

lemma repost_logOp:
  "repost d kws old h =
     (if kws = [] then deleteForward d (fold (logOp False d) old h)
      else setForward d kws (fold (logOp False d) (filter (\<lambda>w. w \<notin> set kws) old) (fold (logOp True d) (remdups kws) h)))"
proof -
  have t: "tombstonePosting d = logOp False d" "addPosting d = logOp True d" by (simp_all add: fun_eq_iff logOp_def)
  have "fold (\<lambda>w h. if w \<in> set kws then h else tombstonePosting d w h) old h' =
      fold (logOp False d) (filter (\<lambda>w. w \<notin> set kws) old) h'" for h'
    by (induction old arbitrary: h') (simp_all add: t)
  then show ?thesis by (simp add: repost_def Let_def t)
qed

lemma setForward_ok:
  assumes "headOk h" "0 \<le> sint d" "ws \<noteq> []" "set ws \<subseteq> dom (map_of (h_inv h))"
  shows "headOk (setForward d ws h)"
proof -
  have f: "distinct (map fst (h_fwd h))" "distinct (h_delForward h)" "fst ` set (h_fwd h) \<inter> set (h_delForward h) = {}"
    "\<forall>d\<in>fst ` set (h_fwd h) \<union> set (h_delForward h). 0 \<le> sint d"
    using assms(1) by (simp_all add: headOk_def headFwdOk_def)
  have s: "fst ` set (AList.update d ws (h_fwd h)) = insert d (fst ` set (h_fwd h))"
    by (simp add: dom_update)
  have "headFwdOk (setForward d ws h)"
    using f assms(2) by (auto simp: headFwdOk_def setForward_def distinct_update s distinct_removeAll)
  moreover have "headKwOk (setForward d ws h)"
    using assms by (simp add: headOk_def headKwOk_def setForward_def update_conv')
  moreover have "headInvOk (setForward d ws h)" using assms(1) by (simp add: headOk_def headInvOk_def setForward_def)
  ultimately show ?thesis by (simp add: headOk_def)
qed

lemma deleteForward_ok:
  assumes "headOk h" "0 \<le> sint d"
  shows "headOk (deleteForward d h)"
proof -
  have f: "distinct (map fst (h_fwd h))" "distinct (h_delForward h)" "fst ` set (h_fwd h) \<inter> set (h_delForward h) = {}"
    "\<forall>d\<in>fst ` set (h_fwd h) \<union> set (h_delForward h). 0 \<le> sint d"
    using assms(1) by (simp_all add: headOk_def headFwdOk_def)
  have s: "fst ` set (AList.delete d (h_fwd h)) = fst ` set (h_fwd h) - {d}"
    by (force simp: AList.delete_eq)
  have "headFwdOk (deleteForward d h)"
    using f assms(2) by (auto simp: headFwdOk_def deleteForward_def distinct_delete s)
  moreover have "headKwOk (deleteForward d h)"
    using assms by (simp add: headOk_def headKwOk_def deleteForward_def delete_conv')
  moreover have "headInvOk (deleteForward d h)" using assms(1) by (simp add: headOk_def headInvOk_def deleteForward_def)
  ultimately show ?thesis by (simp add: headOk_def)
qed

lemma setForward_layer: "headLayer (setForward d ws h) = (headLayer h)\<lparr>l_fwd := (l_fwd (headLayer h))(d \<mapsto> Some (set ws))\<rparr>"
  by (intro layer_eqI ext) (auto simp: headLayer_def setForward_def update_conv')

lemma deleteForward_layer: "headLayer (deleteForward d h) = (headLayer h)\<lparr>l_fwd := (l_fwd (headLayer h))(d \<mapsto> None)\<rparr>"
  by (intro layer_eqI ext) (auto simp: headLayer_def deleteForward_def delete_conv')

theorem repost_layer:
  assumes "headOk h" "0 \<le> sint d"
  shows "headOk (repost d kws old h)" "headLayer (repost d kws old h) = setDoc d (set kws) (set old) (headLayer h)"
proof -
  have "headOk (repost d kws old h) \<and> headLayer (repost d kws old h) = setDoc d (set kws) (set old) (headLayer h)"
  proof (cases "kws = []")
    case True
    note f = logOps_ok [OF assms(1), of False d old]
    have "headLayer (deleteForward d (fold (logOp False d) old h)) = setDoc d {} (set old) (headLayer h)"
      by (intro layer_eqI ext) (simp_all add: deleteForward_layer f(2) setDoc_def)
    then show ?thesis using True deleteForward_ok [OF f(1) assms(2)] by (simp add: repost_logOp)
  next
    case False
    note f = logOps_ok [OF assms(1), of True d "remdups kws"]
    note g = logOps_ok [OF f(1), of False d "filter (\<lambda>w. w \<notin> set kws) old"]
    let ?h = "fold (logOp False d) (filter (\<lambda>w. w \<notin> set kws) old) (fold (logOp True d) (remdups kws) h)"
    have "set kws \<subseteq> dom (map_of (h_inv ?h))" by (auto simp only: f(5) g(5) set_remdups)
    from setForward_ok [OF g(1) assms(2) False this]
    have "headOk (setForward d kws ?h)" .
    moreover have "headLayer (setForward d kws ?h) = setDoc d (set kws) (set old) (headLayer h)"
      using False by (intro layer_eqI ext) (auto simp: setForward_layer g(2) f(2) setDoc_def)
    ultimately show ?thesis using False by (simp add: repost_logOp)
  qed
  then show "headOk (repost d kws old h)" "headLayer (repost d kws old h) = setDoc d (set kws) (set old) (headLayer h)"
    by blast+
qed

lemma newHeadTable_ok [simp]: "headOk newHeadTable" "headLayer newHeadTable = emptyLayer"
  by (simp_all add: headOk_def headInvOk_def headFwdOk_def headKwOk_def newHeadTable_def headLayer_def emptyLayer_def)

end
