(* ===== verification/StRecs.thy ===== *)
theory StRecs
  imports StHead
begin

text \<open>
  The records of a segment as a layer. The predicate \<open>wfRecs\<close> is the type of a segment's records: keys
  in order, inverted values with disjoint additions and removals, and forward ordinals that name
  keywords of the same table. The records a head is encoded to have this type and mean the same as the
  head.
\<close>

definition invKeys :: "(bytes \<times> bytes) list \<Rightarrow> bytes list" where
  "invKeys es = filter (\<lambda>k. keyType k = Some ktInverted) (map fst es)"

definition invAt :: "bytes \<Rightarrow> docid \<Rightarrow> bool option" where
  "invAt v d =
     (case splitInvertedValue v of None \<Rightarrow> None
      | Some (ab, db) \<Rightarrow> if d \<in> set (decodeDocs db) then Some False
                       else if d \<in> set (decodeDocs ab) then Some True else None)"

definition fwdAt :: "bytes list \<Rightarrow> bytes \<Rightarrow> bytes set option option" where
  "fwdAt kws v =
     (case decodeForward v of None \<Rightarrow> None
      | Some (ords, del) \<Rightarrow> Some (if del then None else Some (set (map (\<lambda>o'. kws ! unat o') ords))))"

definition segLayer :: "(bytes \<times> bytes) list \<Rightarrow> tid \<Rightarrow> layer" where
  "segLayer es t =
     \<lparr>l_inv = (\<lambda>kw d. case map_of es (invertedKey t kw) of None \<Rightarrow> None | Some v \<Rightarrow> invAt v d),
      l_fwd = (\<lambda>d. case map_of es (forwardKey t d) of None \<Rightarrow> None | Some v \<Rightarrow> fwdAt (invKws es) v)\<rparr>"

definition invVal :: "bytes \<Rightarrow> bool" where
  "invVal v \<longleftrightarrow> (\<exists>adds dels. v = encodeInvertedValue_st adds dels \<and> set adds \<inter> set dels = {} \<and>
     fits64 (length (encodeDocs adds)))"

definition fwdVal :: "bytes list \<Rightarrow> tid \<Rightarrow> bytes \<Rightarrow> bool" where
  "fwdVal ks t v \<longleftrightarrow> (\<exists>ords. v = encodeForward ords \<and> fits64 (length ords) \<and>
     (\<forall>o'\<in>set ords. unat o' < length ks \<and> (\<exists>kw. ks ! unat o' = invertedKey t kw)))"

definition recOk :: "bytes list \<Rightarrow> bytes \<times> bytes \<Rightarrow> bool" where
  "recOk ks kv \<longleftrightarrow> (\<exists>t kw. fst kv = invertedKey t kw \<and> invVal (snd kv)) \<or>
     (\<exists>t d. fst kv = forwardKey t d \<and> 0 \<le> sint d \<and> fwdVal ks t (snd kv))"

definition wfRecs :: "(bytes \<times> bytes) list \<Rightarrow> bool" where
  "wfRecs es \<longleftrightarrow> ordered es \<and> length (invKeys es) < 2 ^ 32 \<and> (\<forall>kv\<in>set es. recOk (invKeys es) kv)"

lemma invKws_invKeys: "invKws es = map (drop 5) (invKeys es)"
  by (induction es) (auto simp: invKeys_def invKws_def invKw_def)

lemma invAt_encode:
  assumes "fits64 (length (encodeDocs adds))"
  shows "invAt (encodeInvertedValue_st adds dels) d =
    (if d \<in> set dels then Some False else if d \<in> set adds then Some True else None)"
  using splitInvertedValue_encode [of adds dels] assms by (simp add: invAt_def fits64_def)

lemma fwdAt_encode:
  assumes "fits64 (length ords)"
  shows "fwdAt kws (encodeForward ords) = Some (if ords = [] then None else Some ((\<lambda>o'. kws ! unat o') ` set ords))"
  using decodeForward_encodeForward [of ords] assms by (simp add: fwdAt_def fits64_def)

lemma wfRecs_wfKey: "wfRecs es \<Longrightarrow> \<forall>kv\<in>set es. wfKey (fst kv)"
  by (auto simp: wfRecs_def recOk_def wfKey_def)

lemma encodeInvertedValue_length: "length (encodeDocs adds) \<le> length (encodeInvertedValue_st adds dels)"
  by (simp add: encodeInvertedValue_st_def Let_def)

lemma encodeForward_length: "length ords \<le> length (encodeForward ords)"
proof -
  have "length xs \<le> length (ordBytes p xs)" for p xs
  proof (induction xs arbitrary: p)
    case (Cons x xs)
    have "0 < length (AppendUvarint (unat (x - p)))" by simp
    then show ?case using Cons.IH [of x] by (simp del: length_greater_0_conv)
  qed simp
  from this [of "sort ords" 0] show ?thesis by (simp add: encodeForward_def ordLoop_None Let_def)
qed

subsection \<open>The records of a head\<close>

lemma sint_nonneg_less: "0 \<le> sint d \<Longrightarrow> sint d < sint d' \<Longrightarrow> d < (d' :: docid)"
proof -
  assume a: "0 \<le> sint d" "sint d < sint d'"
  have "uint w = sint w" if "0 \<le> sint w" for w :: docid
    using that uint_lt2p [of w] int64_of_sint [of w] by (simp add: int64_of_def split: if_splits)
  from this [of d] this [of d'] show ?thesis using a by (simp add: word_less_def)
qed

lemma headDelta_deltaOf: "headDelta h kw = resolveOps (deltaOf h kw)"
  by (simp add: headDelta_def deltaOf_def)

lemma headTerms_set [simp]: "set (headTerms h) = dom (map_of (h_inv h))"
  by (simp add: headTerms_def dom_map_of_conv_image_fst)

lemma headTerms_sorted: "headOk h \<Longrightarrow> sorted_wrt (<) (headTerms h)"
  by (simp add: headTerms_def headOk_def headInvOk_def strict_sorted_iff)

definition headVal :: "headTable \<Rightarrow> bytes \<Rightarrow> bytes" where
  "headVal h kw = encodeInvertedValue_st (fst (headDelta h kw)) (snd (headDelta h kw))"

lemma headInvRecs_eq: "headInvRecs h t = map (\<lambda>kw. (invertedKey t kw, headVal h kw)) (headTerms h)"
  by (simp add: headInvRecs_def headVal_def case_prod_beta)

lemma invKeys_headEntries: "invKeys (headEntries h t) = map (invertedKey t) (headTerms h)"
  by (simp add: invKeys_def headEntries_def headInvRecs_eq fwdEntry_def o_def filter_map filter_empty_conv)

lemma invKws_headEntries: "invKws (headEntries h t) = headTerms h"
  by (simp add: invKws_invKeys invKeys_headEntries o_def invertedKey_def)

lemma map_of_keyed: "inj g \<Longrightarrow> map_of (map (\<lambda>x. (g x, f x)) xs) (g y) = (if y \<in> set xs then Some (f y) else None)"
  by (induction xs) (auto simp: inj_eq)

lemma map_of_notin: "k \<notin> fst ` set es \<Longrightarrow> map_of (xs @ es) k = map_of xs k"
  by (simp add: map_add_def map_of_eq_None_iff [THEN iffD2] split: option.splits)

lemma headEntries_inverted:
  "map_of (headEntries h t) (invertedKey t' kw) =
     (if t' = t \<and> kw \<in> dom (map_of (h_inv h)) then Some (headVal h kw) else None)"
proof -
  have f: "invertedKey t' kw \<notin> fst ` set (map (fwdEntry (headTerms h) t) (headFwdRecs h))" by (auto simp: fwdEntry_def)
  have "inj (invertedKey t)" by (auto intro: injI)
  from map_of_keyed [OF this, of "headVal h" "headTerms h" kw] show ?thesis
    unfolding headEntries_def map_of_notin [OF f] headInvRecs_eq
    by (auto simp: map_of_eq_None_iff)
qed

lemma headFwdRecs_mem:
  "r \<in> set (headFwdRecs h) \<longleftrightarrow>
     (\<exists>(d, ws)\<in>set (h_fwd h). r = \<lparr>fr_docid = d, fr_deleted = False, fr_words = ws\<rparr>) \<or>
     (\<exists>d\<in>set (h_delForward h). r = \<lparr>fr_docid = d, fr_deleted = True, fr_words = []\<rparr>)"
  by (auto simp: headFwdRecs_def)

lemma headFwdRecs_ex:
  "(\<exists>r\<in>set (headFwdRecs h). P r) \<longleftrightarrow>
     (\<exists>p\<in>set (h_fwd h). P \<lparr>fr_docid = fst p, fr_deleted = False, fr_words = snd p\<rparr>) \<or>
     (\<exists>d\<in>set (h_delForward h). P \<lparr>fr_docid = d, fr_deleted = True, fr_words = []\<rparr>)"
  by (simp add: headFwdRecs_def bex_Un case_prod_beta)

lemma headFwdRecs_sorted:
  assumes "headOk h"
  shows "sorted_wrt (\<lambda>r r'. fr_docid r < fr_docid r') (headFwdRecs h)"
proof -
  have f: "distinct (map fst (h_fwd h))" "distinct (h_delForward h)" "fst ` set (h_fwd h) \<inter> set (h_delForward h) = {}"
    "\<forall>d\<in>fst ` set (h_fwd h) \<union> set (h_delForward h). 0 \<le> sint d"
    using assms by (simp_all add: headOk_def headFwdOk_def)
  let ?k = "\<lambda>r. sint (fr_docid r)"
  define rs where "rs = map (\<lambda>(d, ws). \<lparr>fr_docid = d, fr_deleted = False, fr_words = ws\<rparr>) (h_fwd h) @
        map (\<lambda>d. \<lparr>fr_docid = d, fr_deleted = True, fr_words = []\<rparr>) (h_delForward h)"
  have m: "map fr_docid rs = map fst (h_fwd h) @ h_delForward h" by (simp add: rs_def o_def case_prod_beta)
  have "distinct (map fr_docid rs)" using f(1-3) by (simp add: m)
  then have "distinct rs" "inj_on ?k (set rs)" by (auto simp: distinct_map inj_on_def dest: signed_word_eqI)
  then have "distinct (map ?k (sort_key ?k rs))" by (simp add: distinct_map)
  then have "sorted_wrt (<) (map ?k (sort_key ?k rs))" by (simp add: strict_sorted_iff)
  then have s: "sorted_wrt (\<lambda>r r'. ?k r < ?k r') (headFwdRecs h)" by (simp add: headFwdRecs_def rs_def sorted_wrt_map)
  show ?thesis
  proof (rule sorted_wrt_mono_rel [OF _ s])
    fix r r' assume r: "r \<in> set (headFwdRecs h)" and l: "?k r < ?k r'"
    have "0 \<le> sint (fr_docid r)" using r f(4) by (force simp: headFwdRecs_mem)
    then show "fr_docid r < fr_docid r'" using l by (rule sint_nonneg_less)
  qed
qed


lemma headEntries_ordered:
  assumes "headOk h"
  shows "ordered (headEntries h t)"
proof -
  have "sorted_wrt (<) (map fst (headInvRecs h t))"
    using headTerms_sorted [OF assms] by (simp add: headInvRecs_eq o_def sorted_wrt_map invertedKey_less)
  moreover have "sorted_wrt (<) (map fst (map (fwdEntry (headTerms h) t) (headFwdRecs h)))"
    using headFwdRecs_sorted [OF assms] by (simp add: fwdEntry_def o_def sorted_wrt_map forwardKey_less)
  ultimately show ?thesis
    by (auto simp: headEntries_def sorted_wrt_append headInvRecs_eq fwdEntry_def inverted_less_forward)
qed

lemma headEntries_distinct: "headOk h \<Longrightarrow> distinct (map fst (headEntries h t))"
  using headEntries_ordered ordered_distinct by blast

definition headFwdVal :: "headTable \<Rightarrow> docid \<Rightarrow> bytes option" where
  "headFwdVal h d =
     (if d \<in> set (h_delForward h) then Some forwardTombstone
      else map_option (\<lambda>ws. encodeForward (map (kw2ord (headTerms h)) ws)) (map_of (h_fwd h) d))"

lemma headEntries_forward:
  assumes "headOk h"
  shows "map_of (headEntries h t) (forwardKey t' d) = (if t' = t then headFwdVal h d else None)"
proof -
  have f: "distinct (map fst (h_fwd h))" "fst ` set (h_fwd h) \<inter> set (h_delForward h) = {}"
    using assms by (simp_all add: headOk_def headFwdOk_def)
  have mem: "(forwardKey t' d, v) \<in> set (headEntries h t) \<longleftrightarrow> t' = t \<and> headFwdVal h d = Some v" for v
  proof -
    have "(forwardKey t' d, v) \<in> set (headEntries h t) \<longleftrightarrow>
        (\<exists>r\<in>set (headFwdRecs h). (forwardKey t' d, v) = fwdEntry (headTerms h) t r)"
      by (auto simp: headEntries_def headInvRecs_eq)
    also have "\<dots> \<longleftrightarrow> t' = t \<and> ((\<exists>ws. (d, ws) \<in> set (h_fwd h) \<and> v = encodeForward (map (kw2ord (headTerms h)) ws)) \<or>
        d \<in> set (h_delForward h) \<and> v = forwardTombstone)"
      unfolding headFwdRecs_ex by (fastforce simp: fwdEntry_def)
    also have "\<dots> \<longleftrightarrow> t' = t \<and> headFwdVal h d = Some v"
    proof (cases "d \<in> set (h_delForward h)")
      case True
      then have "(d, ws) \<notin> set (h_fwd h)" for ws using f(2) by force
      then show ?thesis using True by (auto simp: headFwdVal_def)
    next
      case False
      then show ?thesis by (auto simp: headFwdVal_def map_of_distinct_in_set [OF f(1)])
    qed
    finally show ?thesis .
  qed
  show ?thesis
  proof (cases "t' = t \<and> headFwdVal h d \<noteq> None")
    case True
    then obtain v where v: "headFwdVal h d = Some v" by auto
    then have "(forwardKey t' d, v) \<in> set (headEntries h t)" using mem True by simp
    then show ?thesis using headEntries_distinct [OF assms] v True by simp
  next
    case False
    then have "\<forall>v. (forwardKey t' d, v) \<notin> set (headEntries h t)" using mem by auto
    then have "map_of (headEntries h t) (forwardKey t' d) = None" by (force simp: map_of_eq_None_iff)
    then show ?thesis using False by auto
  qed
qed

lemma kw2ord_nth:
  assumes "distinct terms" "length terms < 2 ^ 32" "kw \<in> set terms"
  shows "unat (kw2ord terms kw) < length terms \<and> terms ! unat (kw2ord terms kw) = kw"
proof -
  obtain i where i: "i < length terms" "terms ! i = kw" using assms(3) by (auto simp: in_set_conv_nth)
  then have "map_of (zip terms [0..<length terms]) kw = Some i"
    using assms(1) map_of_zip_nth [of terms "[0..<length terms]" i] by simp
  moreover have "unat (of_nat i :: ord) = i" using i(1) assms(2) by (intro of_nat_ord) linarith
  ultimately show ?thesis using i by (simp add: kw2ord_def)
qed

definition headFits :: "headTable \<Rightarrow> tid \<Rightarrow> bool" where
  "headFits h t \<longleftrightarrow> recsSize (headEntries h t) < 2 ^ 63 \<and> length (h_inv h) < 2 ^ 32"

lemma headFits_inv:
  assumes "headFits h t" "kw \<in> dom (map_of (h_inv h))"
  shows "fits64 (length (encodeDocs (fst (headDelta h kw))))"
proof -
  have "(invertedKey t kw, headVal h kw) \<in> set (headEntries h t)"
    using assms(2) by (simp add: headEntries_def headInvRecs_eq)
  from recsSize_mem [OF this] have "length (headVal h kw) \<le> recsSize (headEntries h t)" by simp
  then have "length (encodeDocs (fst (headDelta h kw))) \<le> recsSize (headEntries h t)"
    using encodeInvertedValue_length le_trans unfolding headVal_def by blast
  then show ?thesis using assms(1) by (intro fits64_63) (simp add: headFits_def)
qed

lemma headFits_fwd:
  assumes "headFits h t" "map_of (h_fwd h) d = Some ws"
  shows "fits64 (length ws)"
proof -
  have "\<lparr>fr_docid = d, fr_deleted = False, fr_words = ws\<rparr> \<in> set (headFwdRecs h)"
    using map_of_SomeD [OF assms(2)] by (force simp: headFwdRecs_mem)
  then have "(forwardKey t d, encodeForward (map (kw2ord (headTerms h)) ws)) \<in> set (headEntries h t)"
    by (force simp: headEntries_def fwdEntry_def)
  from recsSize_mem [OF this] encodeForward_length [of "map (kw2ord (headTerms h)) ws"]
  show ?thesis using assms(1) by (intro fits64_63) (simp add: headFits_def)
qed

lemma headDelta_disjoint: "set (fst (headDelta h kw)) \<inter> set (snd (headDelta h kw)) = {}"
  using resolveOps_spec [of _ "deltaOf h kw"] by (auto simp: headDelta_deltaOf)

theorem headEntries_layer:
  assumes h: "headOk h" and f: "headFits h t"
  shows "segLayer (headEntries h t) t' = (if t' = t then headLayer h else emptyLayer)"
proof (cases "t' = t")
  case False
  then show ?thesis
    by (auto simp: segLayer_def emptyLayer_def headEntries_inverted headEntries_forward [OF h])
next
  case True
  have l: "length (headTerms h) < 2 ^ 32" using f by (simp add: headFits_def headTerms_def)
  have d: "distinct (headTerms h)" using headTerms_sorted [OF h] by (simp add: strict_sorted_iff)
  have inv: "l_inv (segLayer (headEntries h t) t) kw d = l_inv (headLayer h) kw d" for kw d
  proof (cases "kw \<in> dom (map_of (h_inv h))")
    case True
    have "l_inv (segLayer (headEntries h t) t) kw d = invAt (headVal h kw) d"
      using True by (simp add: segLayer_def headEntries_inverted)
    also have "\<dots> = map_of (rev (pdOps (deltaOf h kw))) d"
      using invAt_encode [OF headFits_inv [OF f True], of "snd (headDelta h kw)" d] resolveOps_spec [of d "deltaOf h kw"]
      by (cases "map_of (rev (pdOps (deltaOf h kw))) d") (auto simp: headVal_def headDelta_deltaOf)
    finally show ?thesis by (simp add: headLayer_inv)
  next
    case False
    then have "map_of (h_inv h) kw = None" by auto
    then show ?thesis using False by (simp add: segLayer_def headEntries_inverted headLayer_def)
  qed
  have fwd: "l_fwd (segLayer (headEntries h t) t) d = l_fwd (headLayer h) d" for d
  proof (cases "d \<in> set (h_delForward h)")
    case True
    then show ?thesis
      by (simp add: segLayer_def headEntries_forward [OF h] headFwdVal_def headLayer_def fwdAt_def decodeForward_tombstone)
  next
    case nd: False
    show ?thesis
    proof (cases "map_of (h_fwd h) d")
      case None
      then show ?thesis using nd by (simp add: segLayer_def headEntries_forward [OF h] headFwdVal_def headLayer_def)
    next
      case (Some ws)
      have ws: "ws \<noteq> []" "set ws \<subseteq> set (headTerms h)" using h Some by (simp_all add: headOk_def headKwOk_def)
      let ?ords = "map (kw2ord (headTerms h)) ws"
      have "(\<lambda>o'. headTerms h ! unat o') ` set ?ords = set ws"
        using kw2ord_nth [OF d l] ws(2) by (force simp: image_image)
      moreover have "fits64 (length ?ords)" using headFits_fwd [OF f Some] by simp
      ultimately show ?thesis using nd Some ws(1) fwdAt_encode [of ?ords "headTerms h"]
        by (simp add: segLayer_def headEntries_forward [OF h] headFwdVal_def headLayer_def invKws_headEntries)
    qed
  qed
  show ?thesis using True by (intro layer_eqI ext) (simp_all add: inv fwd)
qed

theorem headEntries_wf:
  assumes h: "headOk h" and f: "headFits h t"
  shows "wfRecs (headEntries h t)"
proof -
  have l: "length (headTerms h) < 2 ^ 32" using f by (simp add: headFits_def headTerms_def)
  have d: "distinct (headTerms h)" using headTerms_sorted [OF h] by (simp add: strict_sorted_iff)
  let ?ks = "map (invertedKey t) (headTerms h)"
  have "recOk ?ks kv" if kv: "kv \<in> set (headInvRecs h t)" for kv
  proof -
    obtain kw where kw: "kw \<in> dom (map_of (h_inv h))" "kv = (invertedKey t kw, headVal h kw)"
      using kv by (auto simp: headInvRecs_eq)
    have "invVal (headVal h kw)"
      unfolding invVal_def headVal_def using headFits_inv [OF f kw(1)] headDelta_disjoint by blast
    then show ?thesis by (auto simp: recOk_def kw(2))
  qed
  moreover have "recOk ?ks (fwdEntry (headTerms h) t r)" if r: "r \<in> set (headFwdRecs h)" for r
  proof -
    have nn: "0 \<le> sint (fr_docid r)" using h r by (force simp: headOk_def headFwdOk_def headFwdRecs_mem)
    have "fwdVal ?ks t (snd (fwdEntry (headTerms h) t r))"
    proof (cases "fr_deleted r")
      case True
      then show ?thesis unfolding fwdVal_def
        by (intro exI [of _ "[]"]) (simp add: fwdEntry_def encodeForward_Nil fits64_def)
    next
      case False
      then have m: "(fr_docid r, fr_words r) \<in> set (h_fwd h)" using r by (auto simp: headFwdRecs_mem)
      then have mo: "map_of (h_fwd h) (fr_docid r) = Some (fr_words r)"
        using h by (simp add: headOk_def headFwdOk_def)
      have "set (fr_words r) \<subseteq> set (headTerms h)" using h mo by (simp add: headOk_def headKwOk_def)
      then have "unat (kw2ord (headTerms h) w) < length (headTerms h)" if "w \<in> set (fr_words r)" for w
        using kw2ord_nth [OF d l, of w] that by auto
      then have "\<forall>o'\<in>set (map (kw2ord (headTerms h)) (fr_words r)). unat o' < length ?ks \<and> (\<exists>kw. ?ks ! unat o' = invertedKey t kw)"
        by auto
      then show ?thesis using False headFits_fwd [OF f mo] unfolding fwdVal_def
        by (intro exI [of _ "map (kw2ord (headTerms h)) (fr_words r)"]) (simp add: fwdEntry_def)
    qed
    then show ?thesis using nn by (auto simp: recOk_def fwdEntry_def)
  qed
  ultimately have "\<forall>kv\<in>set (headEntries h t). recOk ?ks kv" by (auto simp: headEntries_def)
  then show ?thesis using headEntries_ordered [OF h] l by (simp add: wfRecs_def invKeys_headEntries)
qed

end
