(* ===== verification/StMerge.thy ===== *)
theory StMerge
  imports StRecs
begin

text \<open>
  Merging segments (\<^verbatim>\<open>packages/core/invertedstore/merge.go\<close>, the streaming merge): cursors walk the
  inputs in key order, oldest input first; for every key the inputs that have it are reconciled, the
  newest operation on a document winning, and forward ordinals are rewritten to the output's
  dictionary. A covering merge also drops removals, deletions and the keys of tables that are no longer
  in the catalog.

  The loop is a partial function: a damaged input may make it panic or never end. The theorems of
  \<^verbatim>\<open>StMergeOk\<close> show that on well-formed inputs it returns.
\<close>

subsection \<open>Cursors\<close>

record mergeCursor =
  mc_s :: segment
  mc_bi :: nat
  mc_blk :: bytes
  mc_p :: int
  mc_key :: bytes
  mc_val :: bytes
  mc_done :: bool

function advance :: "compressors \<Rightarrow> mergeCursor \<Rightarrow> mergeCursor option" where
  "advance cs c =
     (if mc_p c < int (length (mc_blk c)) then
        do {
          (r, p') \<leftarrow> readRecord (mc_blk c) (mc_p c);
          v \<leftarrow> valueOf cs (mc_s c) r;
          Some (c\<lparr>mc_key := recKey r, mc_val := v, mc_p := p'\<rparr>)
        }
      else if length (sg_idx (mc_s c)) \<le> mc_bi c + 1 then Some (c\<lparr>mc_bi := mc_bi c + 1, mc_done := True\<rparr>)
      else
        do {
          blk \<leftarrow> blockBytesInto cs (mc_s c) (sg_idx (mc_s c) ! (mc_bi c + 1));
          advance cs (c\<lparr>mc_bi := mc_bi c + 1, mc_blk := blk, mc_p := 0\<rparr>)
        })"
  by pat_completeness auto

termination
  by (relation "measure (\<lambda>(cs, c). length (sg_idx (mc_s c)) - mc_bi c)") auto

declare advance.simps [simp del]

definition newMergeCursor :: "compressors \<Rightarrow> segment \<Rightarrow> mergeCursor option" where
  "newMergeCursor cs s =
     do {
       blk \<leftarrow> (if sg_idx s = [] then Some [] else blockBytes cs s (sg_idx s ! 0));
       advance cs \<lparr>mc_s = s, mc_bi = 0, mc_blk = blk, mc_p = 0, mc_key = [], mc_val = [], mc_done = False\<rparr>
     }"

fun newMergeCursors :: "compressors \<Rightarrow> segment list \<Rightarrow> mergeCursor list option" where
  "newMergeCursors cs [] = Some []"
| "newMergeCursors cs (s # ss) = do { c \<leftarrow> newMergeCursor cs s; cs' \<leftarrow> newMergeCursors cs ss; Some (c # cs') }"

fun compareKeys :: "bytes \<Rightarrow> bytes \<Rightarrow> int" where
  "compareKeys [] [] = 0"
| "compareKeys [] (b # bs) = - 1"
| "compareKeys (a # as) [] = 1"
| "compareKeys (a # as) (b # bs) = (if a \<noteq> b then if a < b then - 1 else 1 else compareKeys as bs)"

definition equalKeys :: "bytes \<Rightarrow> bytes \<Rightarrow> bool" where
  "equalKeys a b \<longleftrightarrow> length a = length b \<and> list_all (\<lambda>i. a ! i = b ! i) [0..<length a]"

definition minKey :: "mergeCursor list \<Rightarrow> bytes option" where
  "minKey curs =
     fold (\<lambda>cu m. if mc_done cu then m
                  else case m of None \<Rightarrow> Some (mc_key cu)
                       | Some k \<Rightarrow> if compareKeys (mc_key cu) k < 0 then Some (mc_key cu) else m) curs None"

definition hitsOf :: "mergeCursor list \<Rightarrow> bytes \<Rightarrow> nat list" where
  "hitsOf curs k = filter (\<lambda>i. \<not> mc_done (curs ! i) \<and> equalKeys (mc_key (curs ! i)) k) [0..<length curs]"

fun advanceAll :: "compressors \<Rightarrow> nat list \<Rightarrow> mergeCursor list \<Rightarrow> mergeCursor list option" where
  "advanceAll cs [] curs = Some curs"
| "advanceAll cs (i # is) curs = do { c \<leftarrow> advance cs (curs ! i); advanceAll cs is (curs[i := c]) }"

subsection \<open>One key\<close>

definition ordSentinel :: ord where
  "ordSentinel = NOT 0"

record mergeState =
  ms_curs :: "mergeCursor list"
  ms_w :: segWriter
  ms_remap :: "ord list list"
  ms_outOrd :: ord
  ms_postings :: int
  ms_range :: "docid \<times> docid"
  ms_minTable :: tid
  ms_maxTable :: tid
  ms_haveTable :: bool
  ms_enc :: encodeScratch

definition noteTable :: "tid \<Rightarrow> mergeState \<Rightarrow> mergeState" where
  "noteTable t ms =
     ms\<lparr>ms_minTable := (if \<not> ms_haveTable ms \<or> t < ms_minTable ms then t else ms_minTable ms),
        ms_maxTable := (if \<not> ms_haveTable ms \<or> ms_maxTable ms < t then t else ms_maxTable ms),
        ms_haveTable := True\<rparr>"

text \<open>The ordinals of a forward record in the output; a keyword that was dropped is left out. An
  ordinal outside the input's dictionary panics.\<close>

fun remapOrds :: "ord list \<Rightarrow> ord list \<Rightarrow> (ord list \<times> bool) option" where
  "remapOrds rm [] = Some ([], False)"
| "remapOrds rm (o' # os) =
     (if length rm \<le> unat o' then None
      else do {
        (out, dropped) \<leftarrow> remapOrds rm os;
        let mo = rm ! unat o';
        Some (if mo = ordSentinel then (out, True) else (mo # out, dropped))
      })"

definition emitForward :: "compressors \<Rightarrow> bytes \<Rightarrow> bytes \<Rightarrow> tid \<Rightarrow> mergeState \<Rightarrow> mergeState option" where
  "emitForward cs k v t ms =
     do {
       w \<leftarrow> addEntry cs k v (ms_w ms);
       d \<leftarrow> Uint64 (drop 5 k);
       Some ((noteTable t (ms\<lparr>ms_w := w\<rparr>))\<lparr>ms_range := noteDocid d (ms_range ms)\<rparr>)
     }"

definition mergeForward :: "compressors \<Rightarrow> bool \<Rightarrow> bool \<Rightarrow> bytes \<Rightarrow> tid \<Rightarrow> nat list \<Rightarrow> mergeState \<Rightarrow> mergeState option" where
  "mergeForward cs covering tableLive k t hit ms =
     (let src = last hit in
      if covering \<and> \<not> tableLive then Some ms
      else do {
        (ords, deleted) \<leftarrow> decodeForward (mc_val (ms_curs ms ! src));
        if deleted then if covering then Some ms else emitForward cs k forwardTombstone t ms
        else do {
          (out, dropped) \<leftarrow> remapOrds (ms_remap ms ! src) ords;
          if dropped \<and> out = [] then Some ms
          else case encodeForwardInto (ms_enc ms) out of (v, enc) \<Rightarrow> emitForward cs k v t (ms\<lparr>ms_enc := enc\<rparr>)
        }
      })"

text \<open>One input's value for a keyword, applied to the sets of added and removed documents.\<close>

definition reconcile :: "bytes \<Rightarrow> docid list \<times> docid list \<Rightarrow> (docid list \<times> docid list) option" where
  "reconcile v ad =
     do {
       (ab, db) \<leftarrow> splitInvertedValue v;
       let ad1 = fold (\<lambda>d (adds, dels). (List.insert d adds, removeAll d dels)) (decodeDocs ab) ad;
       Some (fold (\<lambda>d (adds, dels). (removeAll d adds, List.insert d dels)) (decodeDocs db) ad1)
     }"

fun reconcileAll :: "bytes list \<Rightarrow> docid list \<times> docid list \<Rightarrow> (docid list \<times> docid list) option" where
  "reconcileAll [] ad = Some ad"
| "reconcileAll (v # vs) ad = do { ad' \<leftarrow> reconcile v ad; reconcileAll vs ad' }"

definition pushRemap :: "nat list \<Rightarrow> ord \<Rightarrow> ord list list \<Rightarrow> ord list list" where
  "pushRemap hit x remap = fold (\<lambda>i rm. rm[i := rm ! i @ [x]]) hit remap"

definition mergeInverted :: "compressors \<Rightarrow> bool \<Rightarrow> bool \<Rightarrow> bytes \<Rightarrow> tid \<Rightarrow> nat list \<Rightarrow> mergeState \<Rightarrow> mergeState option" where
  "mergeInverted cs covering tableLive k t hit ms =
     do {
       (adds, dels) \<leftarrow> reconcileAll (map (\<lambda>i. mc_val (ms_curs ms ! i)) hit) ([], []);
       let delList = (if covering then [] else dels);
       if covering \<and> (\<not> tableLive \<or> adds = [])
       then Some (ms\<lparr>ms_remap := pushRemap hit ordSentinel (ms_remap ms)\<rparr>)
       else case encodeInvertedValueInto (ms_enc ms) adds delList of (v, enc) \<Rightarrow>
         do {
           w \<leftarrow> addEntry cs k v (ms_w ms);
           Some ((noteTable t (ms\<lparr>ms_w := w\<rparr>))
             \<lparr>ms_enc := enc, ms_postings := ms_postings ms + int (length adds + length delList),
              ms_remap := pushRemap hit (ms_outOrd ms) (ms_remap ms), ms_outOrd := ms_outOrd ms + 1\<rparr>)
         }
     }"

definition mergeKey :: "compressors \<Rightarrow> bool \<Rightarrow> int list option \<Rightarrow> bytes \<Rightarrow> mergeState \<Rightarrow> mergeState option" where
  "mergeKey cs covering liveTables k ms =
     (let hit = hitsOf (ms_curs ms) k in
      do {
        t \<leftarrow> keyTableId k;
        kt \<leftarrow> keyType k;
        let tableLive = (case liveTables of None \<Rightarrow> True | Some L \<Rightarrow> uint t \<in> set L);
        ms' \<leftarrow> (if kt = ktForward then mergeForward cs covering tableLive k t hit ms
                else mergeInverted cs covering tableLive k t hit ms);
        curs \<leftarrow> advanceAll cs hit (ms_curs ms');
        Some (ms'\<lparr>ms_curs := curs\<rparr>)
      })"

partial_function (option) mergeAllKeys :: "compressors \<Rightarrow> bool \<Rightarrow> int list option \<Rightarrow> mergeState \<Rightarrow> mergeState option" where
  "mergeAllKeys cs covering liveTables ms =
     (case minKey (ms_curs ms) of
        None \<Rightarrow> Some ms
      | Some k \<Rightarrow> do { ms' \<leftarrow> mergeKey cs covering liveTables k ms; mergeAllKeys cs covering liveTables ms' })"

subsection \<open>The merge\<close>

record segMeta =
  sm_Id :: nat
  sm_Level :: int
  sm_DataCodec :: char
  sm_DictCodec :: char
  sm_MinTable :: tid
  sm_MaxTable :: tid
  sm_Size :: int
  sm_Postings :: int
  sm_MinDocid :: docid
  sm_MaxDocid :: docid

definition mergeInit :: "storeOptions \<Rightarrow> char \<Rightarrow> mergeCursor list \<Rightarrow> mergeState" where
  "mergeInit o' dataCodec curs =
     \<lparr>ms_curs = curs, ms_w = segWriterFor o' dataCodec, ms_remap = replicate (length curs) [], ms_outOrd = 0,
      ms_postings = 0, ms_range = emptyDocidRange, ms_minTable = 0, ms_maxTable = 0, ms_haveTable = False,
      ms_enc = \<lparr>es_val = [], es_docs = [], es_srt = [], es_ord = []\<rparr>\<rparr>"

definition mergeSegments ::
  "compressors \<Rightarrow> storeOptions \<Rightarrow> segment list \<Rightarrow> nat \<Rightarrow> int \<Rightarrow> char \<Rightarrow> bool \<Rightarrow> int list option \<Rightarrow> (segment \<times> segMeta) option" where
  "mergeSegments cs o' segs outId level dataCodec covering liveTables =
     do {
       curs \<leftarrow> newMergeCursors cs segs;
       ms \<leftarrow> mergeAllKeys cs covering liveTables (mergeInit o' dataCodec curs);
       seg \<leftarrow> finish cs (ms_w ms);
       Some (seg\<lparr>sg_id := outId, sg_minDocid := fst (ms_range ms), sg_maxDocid := snd (ms_range ms)\<rparr>,
         \<lparr>sm_Id = outId, sm_Level = level, sm_DataCodec = dataCodec, sm_DictCodec = o_DictCodec o',
          sm_MinTable = ms_minTable ms, sm_MaxTable = ms_maxTable ms, sm_Size = int (length (sg_file seg)),
          sm_Postings = ms_postings ms, sm_MinDocid = fst (ms_range ms), sm_MaxDocid = snd (ms_range ms)\<rparr>)
     }"

end
