(* ===== verification/StMergeOk.thy ===== *)
theory StMergeOk
  imports StMerge
begin

text \<open>
  A merge of well-formed segments returns, and its output is described by a function of the inputs'
  records, \<open>mergeOut\<close>: for every key of an input, in order, the reconciled value of the inputs that have
  it. The loop is followed key by key.
\<close>

subsection \<open>Cursors\<close>

definition pending :: "compressors \<Rightarrow> mergeCursor \<Rightarrow> (bytes \<times> bytes) list \<Rightarrow> bool" where
  "pending cs c es \<longleftrightarrow> (\<exists>pre rs b bs. es = b @ concat bs \<and> mc_blk c = pre @ concat (map encRec rs) \<and>
     mc_p c = int (length pre) \<and> list_all2 (recHolds cs (sg_dataCodec (mc_s c)) (sg_file (mc_s c))) rs b \<and>
     list_all2 (blockHolds cs (sg_dataCodec (mc_s c)) (sg_file (mc_s c))) (drop (mc_bi c + 1) (sg_idx (mc_s c))) bs)"

definition curAt :: "compressors \<Rightarrow> mergeCursor \<Rightarrow> (bytes \<times> bytes) list \<Rightarrow> bool" where
  "curAt cs c es \<longleftrightarrow> (case es of [] \<Rightarrow> mc_done c
     | kv # rest \<Rightarrow> \<not> mc_done c \<and> mc_key c = fst kv \<and> mc_val c = snd kv \<and> pending cs c rest)"

lemma curAt_simps [simp]:
  "curAt cs c [] \<longleftrightarrow> mc_done c"
  "curAt cs c (kv # rest) \<longleftrightarrow> \<not> mc_done c \<and> mc_key c = fst kv \<and> mc_val c = snd kv \<and> pending cs c rest"
  by (simp_all add: curAt_def)

lemma advance_pending:
  assumes "codec_ok cs"
  shows "pending cs c es \<Longrightarrow> \<not> mc_done c \<Longrightarrow> \<exists>c'. advance cs c = Some c' \<and> curAt cs c' es"
proof (induction "length (sg_idx (mc_s c)) - mc_bi c" arbitrary: c rule: less_induct)
  case less
  let ?H = "recHolds cs (sg_dataCodec (mc_s c)) (sg_file (mc_s c))"
  let ?B = "blockHolds cs (sg_dataCodec (mc_s c)) (sg_file (mc_s c))"
  obtain pre rs b bs where p: "es = b @ concat bs" "mc_blk c = pre @ concat (map encRec rs)" "mc_p c = int (length pre)"
    "list_all2 ?H rs b" "list_all2 ?B (drop (mc_bi c + 1) (sg_idx (mc_s c))) bs"
    using less.prems(1) unfolding pending_def by blast
  show ?case
  proof (cases rs)
    case (Cons r rs')
    then obtain kv b' where b: "b = kv # b'" "?H r kv" "list_all2 ?H rs' b'" using p(4) by (auto simp: list_all2_Cons1)
    let ?c = "c\<lparr>mc_key := fst kv, mc_val := snd kv, mc_p := int (length pre) + int (length (encRec r))\<rparr>"
    have rd: "readRecord (mc_blk c) (mc_p c) = Some (r, int (length pre) + int (length (encRec r)))"
      using readRecord_enc [of r pre "concat (map encRec rs')"] b(2) by (simp add: p(2,3) Cons recHolds_def)
    have v: "valueOf cs (mc_s c) r = Some (snd kv)" using valueOf_holds [OF assms b(2)] .
    have lt: "mc_p c < int (length (mc_blk c))" using not_at_end [of "encRec r" pre "concat (map encRec rs')"] by (simp add: p(2,3) Cons)
    have "advance cs c = Some ?c"
      using b(2) by (subst advance.simps) (simp add: lt rd v recHolds_def)
    moreover have "pending cs ?c (b' @ concat bs)"
      unfolding pending_def using p(2,5) b(3)
      by (intro exI [of _ "pre @ encRec r"] exI [of _ rs'] exI [of _ b'] exI [of _ bs]) (simp add: Cons)
    ultimately show ?thesis using less.prems(2) by (simp add: p(1) b(1))
  next
    case Nil
    then have b: "b = []" using p(4) by simp
    have ge: "\<not> mc_p c < int (length (mc_blk c))" by (simp add: p(2,3) Nil)
    show ?thesis
    proof (cases "length (sg_idx (mc_s c)) \<le> mc_bi c + 1")
      case True
      then have "es = []" using p(1,5) b by simp
      moreover have "advance cs c = Some (c\<lparr>mc_bi := mc_bi c + 1, mc_done := True\<rparr>)"
        unfolding advance.simps [of cs c] if_not_P [OF ge] if_P [OF True] ..
      ultimately show ?thesis by simp
    next
      case False
      then have dr: "drop (mc_bi c + 1) (sg_idx (mc_s c)) = sg_idx (mc_s c) ! (mc_bi c + 1) # drop (mc_bi c + 1 + 1) (sg_idx (mc_s c))"
        by (simp add: Cons_nth_drop_Suc)
      then obtain x bs' where bs: "bs = x # bs'" "?B (sg_idx (mc_s c) ! (mc_bi c + 1)) x"
        "list_all2 ?B (drop (mc_bi c + 1 + 1) (sg_idx (mc_s c))) bs'"
        using p(5) by (auto simp: list_all2_Cons1)
      obtain rs' where rs': "list_all2 ?H rs' x" "imgFits cs (sg_dataCodec (mc_s c)) (concat (map encRec rs'))"
        "at_off (sg_file (mc_s c)) (be_off (sg_idx (mc_s c) ! (mc_bi c + 1))) (blockImg cs (sg_dataCodec (mc_s c)) (concat (map encRec rs')))"
        using bs(2) unfolding blockHolds_def by blast
      let ?c = "c\<lparr>mc_bi := mc_bi c + 1, mc_blk := concat (map encRec rs'), mc_p := 0\<rparr>"
      have "pending cs ?c es"
        unfolding pending_def using rs'(1) bs(3)
        by (intro exI [of _ "[]"] exI [of _ rs'] exI [of _ x] exI [of _ bs']) (simp add: p(1) b bs(1))
      moreover have "length (sg_idx (mc_s ?c)) - mc_bi ?c < length (sg_idx (mc_s c)) - mc_bi c" using False by simp
      ultimately obtain c' where c': "advance cs ?c = Some c'" "curAt cs c' es"
        using less.hyps [of ?c] less.prems(2) by auto
      have "advance cs c = Some c'"
        unfolding advance.simps [of cs c] if_not_P [OF ge] if_not_P [OF False]
          blockBytesInto_holds [OF assms rs'(2,3)] bind.bind_lunit by (rule c'(1))
      then show ?thesis using c'(2) by blast
    qed
  qed
qed

lemma newMergeCursor_holds:
  assumes "codec_ok cs" "holds cs s es"
  shows "\<exists>c. newMergeCursor cs s = Some c \<and> curAt cs c es"
proof -
  obtain bs where bs: "concat bs = es" "list_all2 (blockHolds cs (sg_dataCodec s) (sg_file s)) (sg_idx s) bs"
    using assms(2) unfolding holds_def dataHolds_def by blast
  show ?thesis
  proof (cases "sg_idx s")
    case Nil
    then have "es = []" using bs by simp
    moreover have "newMergeCursor cs s = Some \<lparr>mc_s = s, mc_bi = 1, mc_blk = [], mc_p = 0, mc_key = [], mc_val = [], mc_done = True\<rparr>"
      by (simp add: newMergeCursor_def Nil advance.simps)
    ultimately show ?thesis by simp
  next
    case (Cons e idx)
    then obtain b bs' where b: "bs = b # bs'" "blockHolds cs (sg_dataCodec s) (sg_file s) e b"
      "list_all2 (blockHolds cs (sg_dataCodec s) (sg_file s)) idx bs'" using bs(2) by (auto simp: list_all2_Cons1)
    obtain rs where rs: "list_all2 (recHolds cs (sg_dataCodec s) (sg_file s)) rs b"
      "imgFits cs (sg_dataCodec s) (concat (map encRec rs))"
      "at_off (sg_file s) (be_off e) (blockImg cs (sg_dataCodec s) (concat (map encRec rs)))"
      using b(2) unfolding blockHolds_def by blast
    let ?c = "\<lparr>mc_s = s, mc_bi = 0, mc_blk = concat (map encRec rs), mc_p = 0, mc_key = [], mc_val = [], mc_done = False\<rparr>"
    have "pending cs ?c es"
      unfolding pending_def using rs(1) b(3)
      by (intro exI [of _ "[]"] exI [of _ rs] exI [of _ b] exI [of _ bs']) (simp add: Cons b(1) flip: bs(1))
    from advance_pending [OF assms(1) this] obtain c where "advance cs ?c = Some c" "curAt cs c es" by auto
    moreover have "newMergeCursor cs s = advance cs ?c"
      using blockBytesInto_holds [OF assms(1) rs(2,3)] by (simp add: newMergeCursor_def Cons blockBytes_def)
    ultimately show ?thesis by simp
  qed
qed

lemma newMergeCursors_holds:
  assumes "codec_ok cs"
  shows "list_all2 (holds cs) segs srcs \<Longrightarrow> \<exists>curs. newMergeCursors cs segs = Some curs \<and> list_all2 (curAt cs) curs srcs"
proof (induction rule: list_all2_induct)
  case (Cons s segs es srcs)
  then show ?case using newMergeCursor_holds [OF assms Cons.hyps(1)] by fastforce
qed simp

lemma advance_curAt:
  "codec_ok cs \<Longrightarrow> curAt cs c (kv # rest) \<Longrightarrow> \<exists>c'. advance cs c = Some c' \<and> curAt cs c' rest"
  using advance_pending by simp


subsection \<open>The output as a function of the inputs\<close>

type_synonym recs = "(bytes \<times> bytes) list"

definition keysOf :: "recs list \<Rightarrow> bytes list" where
  "keysOf srcs = sort (remdups (concat (map (map fst) srcs)))"

definition hitIx :: "recs list \<Rightarrow> bytes \<Rightarrow> nat list" where
  "hitIx srcs k = filter (\<lambda>i. map_of (srcs ! i) k \<noteq> None) [0..<length srcs]"

definition valsAt :: "recs list \<Rightarrow> bytes \<Rightarrow> bytes list" where
  "valsAt srcs k = map (\<lambda>i. the (map_of (srcs ! i) k)) (hitIx srcs k)"

definition liveKey :: "int list option \<Rightarrow> bytes \<Rightarrow> bool" where
  "liveKey L k = (case keyTableId k of None \<Rightarrow> False
     | Some t \<Rightarrow> (case L of None \<Rightarrow> True | Some l \<Rightarrow> uint t \<in> set l))"

definition invRes :: "bool \<Rightarrow> int list option \<Rightarrow> recs list \<Rightarrow> bytes \<Rightarrow> bytes option" where
  "invRes cov L srcs k =
     (case reconcileAll (valsAt srcs k) ([], []) of None \<Rightarrow> None
      | Some (adds, dels) \<Rightarrow> if cov \<and> (\<not> liveKey L k \<or> adds = []) then None
          else Some (encodeInvertedValue_st adds (if cov then [] else dels)))"

definition keptInv :: "bool \<Rightarrow> int list option \<Rightarrow> recs list \<Rightarrow> bytes list" where
  "keptInv cov L srcs = filter (\<lambda>k. keyType k = Some ktInverted \<and> invRes cov L srcs k \<noteq> None) (keysOf srcs)"

definition remapFor :: "bool \<Rightarrow> int list option \<Rightarrow> recs list \<Rightarrow> bytes \<Rightarrow> ord" where
  "remapFor cov L srcs k =
     (if invRes cov L srcs k = None then ordSentinel
      else of_nat (length (filter (\<lambda>k'. k' < k) (keptInv cov L srcs))))"

definition fwdRes :: "bool \<Rightarrow> int list option \<Rightarrow> recs list \<Rightarrow> bytes \<Rightarrow> bytes option" where
  "fwdRes cov L srcs k =
     (let src = srcs ! last (hitIx srcs k) in
      if cov \<and> \<not> liveKey L k then None
      else case decodeForward (the (map_of src k)) of None \<Rightarrow> None
        | Some (ords, deleted) \<Rightarrow>
            if deleted then if cov then None else Some forwardTombstone
            else
              let os = map (\<lambda>o'. remapFor cov L srcs (invKeys src ! unat o')) ords;
                  out = filter (\<lambda>o'. o' \<noteq> ordSentinel) os
              in if ordSentinel \<in> set os \<and> out = [] then None else Some (encodeForward out))"

definition keyRes :: "bool \<Rightarrow> int list option \<Rightarrow> recs list \<Rightarrow> bytes \<Rightarrow> bytes option" where
  "keyRes cov L srcs k = (if keyType k = Some ktForward then fwdRes cov L srcs k else invRes cov L srcs k)"

definition outFor :: "bool \<Rightarrow> int list option \<Rightarrow> recs list \<Rightarrow> bytes list \<Rightarrow> recs" where
  "outFor cov L srcs ks = concat (map (\<lambda>k. case keyRes cov L srcs k of None \<Rightarrow> [] | Some v \<Rightarrow> [(k, v)]) ks)"

definition mergeOut :: "bool \<Rightarrow> int list option \<Rightarrow> recs list \<Rightarrow> recs" where
  "mergeOut cov L srcs = outFor cov L srcs (keysOf srcs)"

lemma keysOf_sorted: "sorted_wrt (<) (keysOf srcs)"
  by (simp add: keysOf_def strict_sorted_iff)

lemma keysOf_set: "set (keysOf srcs) = (\<Union>es\<in>set srcs. fst ` set es)"
  by (auto simp: keysOf_def)

lemma outFor_append [simp]: "outFor cov L srcs (ks @ ks') = outFor cov L srcs ks @ outFor cov L srcs ks'"
  by (simp add: outFor_def)

lemma map_of_outFor:
  "distinct ks \<Longrightarrow> map_of (outFor cov L srcs ks) k = (if k \<in> set ks then keyRes cov L srcs k else None)"
  by (induction ks) (auto simp: outFor_def split: option.splits)

lemma fst_outFor: "map fst (outFor cov L srcs ks) = filter (\<lambda>k. keyRes cov L srcs k \<noteq> None) ks"
  by (induction ks) (auto simp: outFor_def split: option.splits)

lemma ordered_outFor: "sorted_wrt (<) ks \<Longrightarrow> ordered (outFor cov L srcs ks)"
  by (simp add: fst_outFor sorted_wrt_filter)

lemma compareKeys_less: "compareKeys a b < 0 \<longleftrightarrow> a < b"
  by (induction a b rule: compareKeys.induct) auto

lemma equalKeys_iff: "equalKeys a b \<longleftrightarrow> a = b"
  by (auto simp: equalKeys_def list_all_iff intro: nth_equalityI)

subsection \<open>Following the cursors\<close>

lemma minKey_append:
  "minKey (curs @ [cu]) = (if mc_done cu then minKey curs
     else case minKey curs of None \<Rightarrow> Some (mc_key cu)
       | Some k \<Rightarrow> if mc_key cu < k then Some (mc_key cu) else Some k)"
  by (simp add: minKey_def compareKeys_less split: option.splits)

lemma minKey_spec:
  "case minKey curs of None \<Rightarrow> \<forall>cu\<in>set curs. mc_done cu
   | Some k \<Rightarrow> (\<exists>cu\<in>set curs. \<not> mc_done cu \<and> mc_key cu = k) \<and> (\<forall>cu\<in>set curs. \<not> mc_done cu \<longrightarrow> k \<le> mc_key cu)"
proof (induction curs rule: rev_induct)
  case Nil
  then show ?case by (simp add: minKey_def)
next
  case (snoc cu curs)
  then show ?case by (auto simp: minKey_append split: option.splits)
qed

definition after :: "bytes list \<Rightarrow> nat \<Rightarrow> recs \<Rightarrow> recs" where
  "after K n es = filter (\<lambda>kv. fst kv \<in> set (drop n K)) es"

lemma ordered_filter_step:
  "ordered es \<Longrightarrow> filter (\<lambda>kv. k \<le> fst kv) es =
     (case map_of es k of None \<Rightarrow> filter (\<lambda>kv. k < fst kv) es | Some v \<Rightarrow> (k, v) # filter (\<lambda>kv. k < fst kv) es)"
proof (induction es)
  case (Cons x es)
  obtain k' v' where x: "x = (k', v')" by (cases x)
  have gt: "\<forall>kv\<in>set es. k' < fst kv" and o: "ordered es" using Cons.prems by (auto simp: x)
  show ?case
  proof (cases "k' = k")
    case True
    then have "filter (\<lambda>kv. k \<le> fst kv) es = es" "filter (\<lambda>kv. k < fst kv) es = es"
      using gt by (auto simp: filter_id_conv)
    then show ?thesis using True by (simp add: x)
  next
    case False
    show ?thesis
    proof (cases "k < k'")
      case True
      then have "map_of es k = None" using gt by (force simp: map_of_eq_None_iff)
      moreover have "filter (\<lambda>kv. k \<le> fst kv) es = es" "filter (\<lambda>kv. k < fst kv) es = es"
        using gt True by (auto simp: filter_id_conv)
      ultimately show ?thesis using True False by (simp add: x)
    next
      case nl: False
      then have "\<not> k \<le> k'" using False by auto
      then show ?thesis using Cons.IH [OF o] nl False by (cases "map_of es k") (simp_all add: x)
    qed
  qed
qed simp

lemma after_step:
  assumes K: "sorted_wrt (<) K" "n < length K" and es: "ordered es" "fst ` set es \<subseteq> set K"
  shows "after K n es = (case map_of es (K ! n) of None \<Rightarrow> after K (Suc n) es | Some v \<Rightarrow> (K ! n, v) # after K (Suc n) es)"
proof -
  have d: "k \<in> set (drop n K) \<longleftrightarrow> K ! n \<le> k" "k \<in> set (drop (Suc n) K) \<longleftrightarrow> K ! n < k" if "k \<in> set K" for k
  proof -
    have K': "K = take n K @ K ! n # drop (Suc n) K" using K(2) by (rule id_take_nth_drop)
    have "sorted_wrt (<) (take n K @ K ! n # drop (Suc n) K)" using K(1) K' by simp
    then have lt: "\<forall>x\<in>set (take n K). x < K ! n" and gt: "\<forall>x\<in>set (drop (Suc n) K). K ! n < x"
      by (simp_all add: sorted_wrt_append)
    have "set K = set (take n K) \<union> {K ! n} \<union> set (drop (Suc n) K)" using arg_cong [OF K', of set] by auto
    then show "k \<in> set (drop (Suc n) K) \<longleftrightarrow> K ! n < k" using lt gt that by (metis Un_iff order_less_asym order_less_irrefl singletonD)
    moreover have "k \<in> set (drop n K) \<longleftrightarrow> k = K ! n \<or> k \<in> set (drop (Suc n) K)"
      using Cons_nth_drop_Suc [OF K(2)] by (metis set_ConsD list.set_intros(1,2))
    ultimately show "k \<in> set (drop n K) \<longleftrightarrow> K ! n \<le> k" by auto
  qed
  have "after K n es = filter (\<lambda>kv. K ! n \<le> fst kv) es" "after K (Suc n) es = filter (\<lambda>kv. K ! n < fst kv) es"
    using d es(2) by (auto simp: after_def intro!: filter_cong)
  then show ?thesis using ordered_filter_step [OF es(1), of "K ! n"] by (cases "map_of es (K ! n)") simp_all
qed

lemma after_end: "length K \<le> n \<Longrightarrow> after K n es = []"
  by (simp add: after_def)

lemma after_0: "fst ` set es \<subseteq> set K \<Longrightarrow> after K 0 es = es"
  by (auto simp: after_def filter_id_conv)


text \<open>The cursors before the key number \<open>n\<close>.\<close>

definition cursAt :: "compressors \<Rightarrow> recs list \<Rightarrow> nat \<Rightarrow> mergeCursor list \<Rightarrow> bool" where
  "cursAt cs srcs n curs \<longleftrightarrow> list_all2 (curAt cs) curs (map (after (keysOf srcs) n) srcs)"

lemma src_keys: "es \<in> set srcs \<Longrightarrow> fst ` set es \<subseteq> set (keysOf srcs)"
  by (auto simp: keysOf_set)

lemma cursAt_nth:
  assumes "cursAt cs srcs n curs" "n < length (keysOf srcs)" "\<forall>es\<in>set srcs. ordered es" "i < length srcs"
  shows "length curs = length srcs"
    and "case map_of (srcs ! i) (keysOf srcs ! n) of
        None \<Rightarrow> curAt cs (curs ! i) (after (keysOf srcs) (Suc n) (srcs ! i))
      | Some v \<Rightarrow> curAt cs (curs ! i) ((keysOf srcs ! n, v) # after (keysOf srcs) (Suc n) (srcs ! i))"
proof -
  have l: "length curs = length srcs" and c: "curAt cs (curs ! i) (after (keysOf srcs) n (srcs ! i))"
    using assms(1,4) by (auto simp: cursAt_def list_all2_conv_all_nth)
  show "length curs = length srcs" by (rule l)
  have "srcs ! i \<in> set srcs" using assms(4) by simp
  then have "after (keysOf srcs) n (srcs ! i) = (case map_of (srcs ! i) (keysOf srcs ! n) of
      None \<Rightarrow> after (keysOf srcs) (Suc n) (srcs ! i)
    | Some v \<Rightarrow> (keysOf srcs ! n, v) # after (keysOf srcs) (Suc n) (srcs ! i))"
    using assms(3) src_keys by (intro after_step [OF keysOf_sorted assms(2)]) auto
  then show "case map_of (srcs ! i) (keysOf srcs ! n) of
        None \<Rightarrow> curAt cs (curs ! i) (after (keysOf srcs) (Suc n) (srcs ! i))
      | Some v \<Rightarrow> curAt cs (curs ! i) ((keysOf srcs ! n, v) # after (keysOf srcs) (Suc n) (srcs ! i))"
    using c by (cases "map_of (srcs ! i) (keysOf srcs ! n)") simp_all
qed

lemma after_Suc_greater:
  assumes "n < length (keysOf srcs)" "kv \<in> set (after (keysOf srcs) (Suc n) es)"
  shows "keysOf srcs ! n < fst kv"
proof -
  have "fst kv \<in> set (drop (Suc n) (keysOf srcs))" using assms(2) by (simp add: after_def)
  then obtain j where j: "j < length (keysOf srcs) - Suc n" "fst kv = keysOf srcs ! (Suc n + j)"
    by (auto simp: in_set_conv_nth)
  have "keysOf srcs ! n < keysOf srcs ! (Suc n + j)"
    using j(1) by (intro sorted_wrt_nth_less [OF keysOf_sorted]) linarith+
  then show ?thesis using j(2) by simp
qed

lemma cur_key_after:
  assumes "n < length (keysOf srcs)" "curAt cs c (after (keysOf srcs) (Suc n) es)" "\<not> mc_done c"
  shows "keysOf srcs ! n < mc_key c"
proof (cases "after (keysOf srcs) (Suc n) es")
  case (Cons kv rest)
  then show ?thesis using assms(2) after_Suc_greater [OF assms(1), of kv es] by simp
qed (use assms in simp)

lemma hitsOf_cursAt:
  assumes "cursAt cs srcs n curs" "n < length (keysOf srcs)" "\<forall>es\<in>set srcs. ordered es"
  shows "hitsOf curs (keysOf srcs ! n) = hitIx srcs (keysOf srcs ! n)"
    and "minKey curs = Some (keysOf srcs ! n)"
    and "\<And>i. i \<in> set (hitIx srcs (keysOf srcs ! n)) \<Longrightarrow> mc_val (curs ! i) = the (map_of (srcs ! i) (keysOf srcs ! n))"
proof -
  let ?k = "keysOf srcs ! n"
  note c = cursAt_nth(2) [OF assms]
  have len: "length curs = length srcs" using assms(1) by (simp add: cursAt_def list_all2_lengthD)
  have key: "(\<not> mc_done (curs ! i) \<and> mc_key (curs ! i) = ?k) \<longleftrightarrow> map_of (srcs ! i) ?k \<noteq> None" if "i < length srcs" for i
    using c [OF that] cur_key_after [OF assms(2), of cs "curs ! i" "srcs ! i"]
    by (cases "map_of (srcs ! i) ?k") auto
  then show "hitsOf curs ?k = hitIx srcs ?k"
    unfolding hitsOf_def hitIx_def len by (intro filter_cong) (auto simp: equalKeys_iff)
  show "mc_val (curs ! i) = the (map_of (srcs ! i) ?k)" if "i \<in> set (hitIx srcs ?k)" for i
    using that c [of i] by (auto simp: hitIx_def)
  have ge: "?k \<le> mc_key cu" if cu: "cu \<in> set curs" "\<not> mc_done cu" for cu
  proof -
    obtain i where i: "i < length srcs" "cu = curs ! i" using cu(1) len by (auto simp: in_set_conv_nth)
    show ?thesis using c [OF i(1)] cur_key_after [OF assms(2), of cs "curs ! i" "srcs ! i"] cu(2) i(2)
      by (cases "map_of (srcs ! i) ?k") auto
  qed
  have "?k \<in> set (keysOf srcs)" using assms(2) by simp
  then obtain es where "es \<in> set srcs" "?k \<in> fst ` set es" unfolding keysOf_set by blast
  then obtain i where i: "i < length srcs" "?k \<in> fst ` set (srcs ! i)" by (metis in_set_conv_nth)
  then have "map_of (srcs ! i) ?k \<noteq> None" by (simp add: map_of_eq_None_iff)
  then have m: "curs ! i \<in> set curs" "\<not> mc_done (curs ! i)" "mc_key (curs ! i) = ?k" using key [OF i(1)] i(1) len by auto
  show "minKey curs = Some ?k"
  proof (cases "minKey curs")
    case None
    then show ?thesis using minKey_spec [of curs] m by auto
  next
    case (Some k)
    then have k: "\<exists>cu\<in>set curs. \<not> mc_done cu \<and> mc_key cu = k" "\<forall>cu\<in>set curs. \<not> mc_done cu \<longrightarrow> k \<le> mc_key cu"
      using minKey_spec [of curs] by simp_all
    have "k \<le> ?k" using k(2) m by metis
    moreover have "?k \<le> k" using k(1) ge by blast
    ultimately show ?thesis using Some by simp
  qed
qed

lemma minKey_cursAt_end: "cursAt cs srcs n curs \<Longrightarrow> length (keysOf srcs) \<le> n \<Longrightarrow> minKey curs = None"
proof -
  assume a: "cursAt cs srcs n curs" "length (keysOf srcs) \<le> n"
  then have "\<forall>cu\<in>set curs. mc_done cu"
    by (auto simp: cursAt_def after_end in_set_conv_nth list_all2_conv_all_nth)
  then show ?thesis using minKey_spec [of curs] by (auto split: option.splits)
qed

lemma advanceAll_curAt:
  assumes "codec_ok cs"
  shows "distinct is \<Longrightarrow> list_all2 (curAt cs) curs rss \<Longrightarrow> \<forall>i\<in>set is. i < length rss \<and> rss ! i \<noteq> [] \<Longrightarrow>
   \<exists>curs'. advanceAll cs is curs = Some curs' \<and>
     list_all2 (curAt cs) curs' (map (\<lambda>i. if i \<in> set is then tl (rss ! i) else rss ! i) [0..<length rss])"
proof (induction "is" arbitrary: curs rss)
  case Nil
  then show ?case by (simp add: map_nth)
next
  case (Cons i "is")
  have i: "i < length rss" "rss ! i \<noteq> []" using Cons.prems(3) by simp_all
  have len: "length curs = length rss" using Cons.prems(2) by (rule list_all2_lengthD)
  have "curAt cs (curs ! i) (hd (rss ! i) # tl (rss ! i))"
    using Cons.prems(2) i by (simp add: list_all2_conv_all_nth)
  from advance_curAt [OF assms this] obtain c where c: "advance cs (curs ! i) = Some c" "curAt cs c (tl (rss ! i))" by blast
  let ?rss = "rss[i := tl (rss ! i)]"
  have "list_all2 (curAt cs) (curs[i := c]) ?rss" using Cons.prems(2) c(2) by (simp add: list_all2_update_cong)
  moreover have "\<forall>j\<in>set is. j < length ?rss \<and> ?rss ! j \<noteq> []" using Cons.prems(1,3) by (auto simp: nth_list_update)
  ultimately obtain curs' where c': "advanceAll cs is (curs[i := c]) = Some curs'"
    "list_all2 (curAt cs) curs' (map (\<lambda>j. if j \<in> set is then tl (?rss ! j) else ?rss ! j) [0..<length ?rss])"
    using Cons.IH [of "curs[i := c]" ?rss] Cons.prems(1) by auto
  have eq: "map (\<lambda>j. if j \<in> set is then tl (?rss ! j) else ?rss ! j) [0..<length ?rss] =
      map (\<lambda>j. if j \<in> set (i # is) then tl (rss ! j) else rss ! j) [0..<length rss]"
    using Cons.prems(1) i(1) by (intro map_cong) (auto simp: nth_list_update)
  have "advanceAll cs (i # is) curs = Some curs'" using c(1) c'(1) by simp
  then show ?case using c'(2) unfolding eq by blast
qed

lemma advanceAll_cursAt:
  assumes "codec_ok cs" "cursAt cs srcs n curs" "n < length (keysOf srcs)" "\<forall>es\<in>set srcs. ordered es"
  shows "\<exists>curs'. advanceAll cs (hitIx srcs (keysOf srcs ! n)) curs = Some curs' \<and> cursAt cs srcs (Suc n) curs'"
proof -
  let ?k = "keysOf srcs ! n" and ?rss = "map (after (keysOf srcs) n) srcs"
  have st: "after (keysOf srcs) n (srcs ! i) = (case map_of (srcs ! i) ?k of None \<Rightarrow> after (keysOf srcs) (Suc n) (srcs ! i)
      | Some v \<Rightarrow> (?k, v) # after (keysOf srcs) (Suc n) (srcs ! i))" if "i < length srcs" for i
    using assms(4) that src_keys [of "srcs ! i" srcs] by (intro after_step [OF keysOf_sorted assms(3)]) auto
  have h: "i \<in> set (hitIx srcs ?k) \<longleftrightarrow> i < length srcs \<and> map_of (srcs ! i) ?k \<noteq> None" for i
    by (auto simp: hitIx_def)
  have "distinct (hitIx srcs ?k)" by (simp add: hitIx_def)
  moreover have "\<forall>i\<in>set (hitIx srcs ?k). i < length ?rss \<and> ?rss ! i \<noteq> []" using st by (auto simp: h)
  ultimately obtain curs' where c: "advanceAll cs (hitIx srcs ?k) curs = Some curs'"
    "list_all2 (curAt cs) curs' (map (\<lambda>i. if i \<in> set (hitIx srcs ?k) then tl (?rss ! i) else ?rss ! i) [0..<length ?rss])"
    using advanceAll_curAt [OF assms(1), of "hitIx srcs ?k" curs ?rss] assms(2) unfolding cursAt_def by blast
  have "map (\<lambda>i. if i \<in> set (hitIx srcs ?k) then tl (?rss ! i) else ?rss ! i) [0..<length ?rss] =
      map (after (keysOf srcs) (Suc n)) srcs"
    by (intro nth_equalityI) (auto simp: h st)
  then show ?thesis using c unfolding cursAt_def by auto
qed


subsection \<open>Reconciling\<close>

text \<open>The newest value that says something.\<close>

definition newest :: "('a \<Rightarrow> 'b option) \<Rightarrow> 'a list \<Rightarrow> 'b option" where
  "newest f xs = fold (\<lambda>x s. case f x of None \<Rightarrow> s | Some y \<Rightarrow> Some y) xs None"

lemma newest_simps [simp]:
  "newest f [] = None" "newest f (xs @ [x]) = (case f x of None \<Rightarrow> newest f xs | Some y \<Rightarrow> Some y)"
  by (simp_all add: newest_def split: option.split)

lemma newest_cong: "(\<And>x. x \<in> set xs \<Longrightarrow> f x = g x) \<Longrightarrow> newest f xs = newest g xs"
  by (induction xs rule: rev_induct) (auto split: option.split)

lemma newest_map: "newest f (map g xs) = newest (\<lambda>x. f (g x)) xs"
  by (simp add: newest_def fold_map o_def)

lemma newest_filter: "(\<And>x. x \<in> set xs \<Longrightarrow> \<not> P x \<Longrightarrow> f x = None) \<Longrightarrow> newest f (filter P xs) = newest f xs"
  by (induction xs rule: rev_induct) (auto split: option.split)

lemma newest_nth: "newest f xs = newest (\<lambda>i. f (xs ! i)) [0..<length xs]"
  using newest_map [of f "\<lambda>i. xs ! i" "[0..<length xs]"] by (simp add: map_nth)

lemma newest_last: "xs \<noteq> [] \<Longrightarrow> f (last xs) \<noteq> None \<Longrightarrow> newest f xs = f (last xs)"
  by (cases xs rule: rev_cases) (auto split: option.split)

lemma stack_newest:
  "l_inv (stack (rev ls)) kw d = newest (\<lambda>l. l_inv l kw d) ls"
  "l_fwd (stack (rev ls)) d = newest (\<lambda>l. l_fwd l d) ls"
  by (induction ls rule: rev_induct) (simp_all add: over_inv over_fwd emptyLayer_def split: option.split)

definition status :: "docid list \<times> docid list \<Rightarrow> docid \<Rightarrow> bool option" where
  "status ad d = (if d \<in> set (snd ad) then Some False else if d \<in> set (fst ad) then Some True else None)"

lemma addsFold:
  "fold (\<lambda>d (adds, dels). (List.insert d adds, removeAll d dels)) ds (adds, dels) =
     (fold List.insert ds adds, fold removeAll ds dels)"
  by (induction ds arbitrary: adds dels) auto

lemma delsFold:
  "fold (\<lambda>d (adds, dels). (removeAll d adds, List.insert d dels)) ds (adds, dels) =
     (fold removeAll ds adds, fold List.insert ds dels)"
  by (induction ds arbitrary: adds dels) auto

lemma set_foldInsert [simp]: "set (fold List.insert ds xs) = set xs \<union> set ds"
  by (induction ds arbitrary: xs) auto

lemma set_foldRemove [simp]: "set (fold removeAll ds xs) = set xs - set ds"
  by (induction ds arbitrary: xs) auto

lemma reconcile_ok:
  assumes "invVal v" "set (fst ad) \<inter> set (snd ad) = {}"
  shows "\<exists>ad'. reconcile v ad = Some ad' \<and> set (fst ad') \<inter> set (snd ad') = {} \<and>
    (\<forall>d. status ad' d = (case invAt v d of None \<Rightarrow> status ad d | Some x \<Rightarrow> Some x))"
proof -
  obtain adds dels where v: "v = encodeInvertedValue_st adds dels" "set adds \<inter> set dels = {}" "fits64 (length (encodeDocs adds))"
    using assms(1) by (auto simp: invVal_def)
  obtain a d where ad: "ad = (a, d)" by (cases ad)
  have "splitInvertedValue v = Some (encodeDocs adds, encodeDocs dels)"
    using splitInvertedValue_encode [of adds dels] v by (simp add: fits64_def)
  then show ?thesis using v(2) assms(2)
    by (auto simp: reconcile_def ad addsFold delsFold status_def v(1) invAt_encode [OF v(3)])
qed

lemma reconcileAll_ok:
  assumes "\<forall>v\<in>set vs. invVal v"
  shows "\<exists>ad. reconcileAll vs ([], []) = Some ad \<and> set (fst ad) \<inter> set (snd ad) = {} \<and>
    (\<forall>d. status ad d = newest (\<lambda>v. invAt v d) vs)"
proof -
  have "\<exists>ad'. reconcileAll vs ad = Some ad' \<and> set (fst ad') \<inter> set (snd ad') = {} \<and>
    (\<forall>d. status ad' d = fold (\<lambda>v s. case invAt v d of None \<Rightarrow> s | Some y \<Rightarrow> Some y) vs (status ad d))"
    if "set (fst ad) \<inter> set (snd ad) = {}" for ad
    using assms that
  proof (induction vs arbitrary: ad)
    case (Cons v vs)
    then obtain ad' where 1: "reconcile v ad = Some ad'" "set (fst ad') \<inter> set (snd ad') = {}"
      "\<forall>d. status ad' d = (case invAt v d of None \<Rightarrow> status ad d | Some x \<Rightarrow> Some x)"
      using reconcile_ok [of v ad] by auto
    from Cons.IH [OF _ 1(2)] Cons.prems(1) show ?case by (simp add: 1(1,3))
  qed simp
  from this [of "([], [])"] show ?thesis by (simp add: newest_def status_def)
qed

end
