(* ===== verification/StMergeStep.thy ===== *)
theory StMergeStep
  imports StMergeOk
begin

text \<open>
  The loop of the merge, key by key: after the key number \<open>n\<close> the writer has been fed the output for
  the first \<open>n\<close> keys, and the tables of ordinals are those of the inverted keys among them. So the merge
  returns, and its file holds \<open>mergeOut\<close>.
\<close>

subsection \<open>The state before the key number \<open>n\<close>\<close>

definition mergeable :: "bool \<Rightarrow> int list option \<Rightarrow> recs list \<Rightarrow> bool" where
  "mergeable cov L srcs \<longleftrightarrow> (\<forall>es\<in>set srcs. wfRecs es) \<and> length (keptInv cov L srcs) < 2 ^ 32"

definition keptTo :: "bool \<Rightarrow> int list option \<Rightarrow> recs list \<Rightarrow> nat \<Rightarrow> bytes list" where
  "keptTo cov L srcs n =
     filter (\<lambda>k. keyType k = Some ktInverted \<and> invRes cov L srcs k \<noteq> None) (take n (keysOf srcs))"

definition remapTo :: "bool \<Rightarrow> int list option \<Rightarrow> recs list \<Rightarrow> nat \<Rightarrow> recs \<Rightarrow> ord list" where
  "remapTo cov L srcs n es =
     map (remapFor cov L srcs) (filter (\<lambda>k. k \<in> set (take n (keysOf srcs))) (invKeys es))"

definition docidOf :: "bytes \<Rightarrow> docid" where
  "docidOf k = the (Uint64 (drop 5 k))"

definition rangeOf :: "recs \<Rightarrow> docid \<times> docid" where
  "rangeOf es = fold noteDocid (map (docidOf \<circ> fst) (filter (\<lambda>kv. keyType (fst kv) = Some ktForward) es)) emptyDocidRange"

definition outInv ::
  "compressors \<Rightarrow> bool \<Rightarrow> int list option \<Rightarrow> recs list \<Rightarrow> segWriter \<Rightarrow> nat \<Rightarrow> mergeState \<Rightarrow> bool" where
  "outInv cs cov L srcs w0 n ms \<longleftrightarrow>
     addEntries cs (outFor cov L srcs (take n (keysOf srcs))) w0 = Some (ms_w ms) \<and>
     ms_remap ms = map (remapTo cov L srcs n) srcs \<and>
     ms_outOrd ms = of_nat (length (keptTo cov L srcs n)) \<and>
     ms_range ms = rangeOf (outFor cov L srcs (take n (keysOf srcs)))"

lemma addEntries_append: "addEntries cs (es @ es') w = do { w' \<leftarrow> addEntries cs es w; addEntries cs es' w' }"
  by (induction cs es w rule: addEntries.induct) (auto split: bind_split)

lemma rangeOf_snoc:
  "rangeOf (es @ [(k, v)]) = (if keyType k = Some ktForward then noteDocid (docidOf k) (rangeOf es) else rangeOf es)"
  by (simp add: rangeOf_def)

lemma docidOf_forwardKey [simp]: "docidOf (forwardKey t d) = d" "Uint64 (drop 5 (forwardKey t d)) = Some d"
  using Uint64_PutUint64 [of d "[]"] by (simp_all add: docidOf_def forwardKey_def)

subsection \<open>Keys and the inputs that have them\<close>

lemma mergeable_wf: "mergeable cov L srcs \<Longrightarrow> es \<in> set srcs \<Longrightarrow> wfRecs es"
  by (simp add: mergeable_def)

lemma mergeable_ordered: "mergeable cov L srcs \<Longrightarrow> \<forall>es\<in>set srcs. ordered es"
  by (simp add: mergeable_def wfRecs_def)

lemma key_source:
  assumes "k \<in> set (keysOf srcs)"
  obtains es v where "es \<in> set srcs" "(k, v) \<in> set es"
  using assms by (auto simp: keysOf_set)

lemma mergeable_key: "mergeable cov L srcs \<Longrightarrow> k \<in> set (keysOf srcs) \<Longrightarrow> wfKey k"
  using key_source wfRecs_wfKey mergeable_wf by (metis fst_conv)

lemma hitIx_iff: "i \<in> set (hitIx srcs k) \<longleftrightarrow> i < length srcs \<and> map_of (srcs ! i) k \<noteq> None"
  by (auto simp: hitIx_def)

lemma hitIx_distinct: "distinct (hitIx srcs k)"
  by (simp add: hitIx_def)

lemma hitIx_not_Nil: "k \<in> set (keysOf srcs) \<Longrightarrow> hitIx srcs k \<noteq> []"
proof -
  assume "k \<in> set (keysOf srcs)"
  then obtain es v where e: "es \<in> set srcs" "(k, v) \<in> set es" by (rule key_source)
  then obtain i where "i < length srcs" "srcs ! i = es" by (auto simp: in_set_conv_nth)
  moreover have "map_of es k \<noteq> None" using weak_map_of_SomeI [OF e(2)] by auto
  ultimately have "i \<in> set (hitIx srcs k)" by (simp add: hitIx_iff)
  then show ?thesis by auto
qed

lemma hit_recOk:
  assumes "mergeable cov L srcs" "i \<in> set (hitIx srcs k)"
  shows "recOk (invKeys (srcs ! i)) (k, the (map_of (srcs ! i) k))"
proof -
  have i: "i < length srcs" "map_of (srcs ! i) k = Some (the (map_of (srcs ! i) k))" using assms(2) by (auto simp: hitIx_iff)
  have "wfRecs (srcs ! i)" using mergeable_wf [OF assms(1)] i(1) by simp
  then show ?thesis using map_of_SomeD [OF i(2)] by (simp add: wfRecs_def)
qed

lemma hit_invVal: "mergeable cov L srcs \<Longrightarrow> \<forall>v\<in>set (valsAt srcs (invertedKey t kw)). invVal v"
  using hit_recOk by (fastforce simp: valsAt_def recOk_def)

lemma hit_fwdVal: "mergeable cov L srcs \<Longrightarrow> i \<in> set (hitIx srcs (forwardKey t d)) \<Longrightarrow>
  0 \<le> sint d \<and> fwdVal (invKeys (srcs ! i)) t (the (map_of (srcs ! i) (forwardKey t d)))"
  using hit_recOk by (fastforce simp: recOk_def)

subsection \<open>One more key\<close>

lemma take_Suc_key: "n < length (keysOf srcs) \<Longrightarrow> take (Suc n) (keysOf srcs) = take n (keysOf srcs) @ [keysOf srcs ! n]"
  by (rule take_Suc_conv_app_nth)

lemma outFor_single: "outFor cov L srcs [k] = (case keyRes cov L srcs k of None \<Rightarrow> [] | Some v \<Rightarrow> [(k, v)])"
  by (simp add: outFor_def)

lemma take_less: "n < length (keysOf srcs) \<Longrightarrow> k \<in> set (keysOf srcs) \<Longrightarrow> k \<in> set (take n (keysOf srcs)) \<longleftrightarrow> k < keysOf srcs ! n"
proof -
  assume n: "n < length (keysOf srcs)" and k: "k \<in> set (keysOf srcs)"
  let ?K = "keysOf srcs"
  obtain j where j: "j < length ?K" "k = ?K ! j" using k by (auto simp: in_set_conv_nth)
  have lt: "?K ! i < ?K ! i' \<longleftrightarrow> i < i'" if "i < length ?K" "i' < length ?K" for i i'
    using sorted_wrt_nth_less [OF keysOf_sorted, of i i' srcs] sorted_wrt_nth_less [OF keysOf_sorted, of i' i srcs] that
    by (metis linorder_less_linear order_less_asym)
  have d: "distinct ?K" using keysOf_sorted strict_sorted_iff by blast
  have "k \<in> set (take n ?K) \<longleftrightarrow> j < n"
    using n j nth_eq_iff_index_eq [OF d] by (auto simp: in_set_conv_nth)
  then show ?thesis using lt [OF j(1) n] j(2) by simp
qed

lemma filter_take_Suc:
  assumes n: "n < length (keysOf srcs)" and xs: "sorted_wrt (<) xs" "set xs \<subseteq> set (keysOf srcs)"
  shows "filter (\<lambda>k. k \<in> set (take (Suc n) (keysOf srcs))) xs =
    filter (\<lambda>k. k \<in> set (take n (keysOf srcs))) xs @ (if keysOf srcs ! n \<in> set xs then [keysOf srcs ! n] else [])"
proof (rule strict_sorted_equal)
  let ?k = "keysOf srcs ! n" and ?P = "\<lambda>k. k \<in> set (take n (keysOf srcs))"
  show "sorted_wrt (<) (filter (\<lambda>k. k \<in> set (take (Suc n) (keysOf srcs))) xs)" using xs(1) by (rule sorted_wrt_filter)
  have "\<forall>x\<in>set (filter ?P xs). x < ?k" using take_less [OF n] xs(2) by auto
  then show "sorted_wrt (<) (filter ?P xs @ (if ?k \<in> set xs then [?k] else []))"
    using sorted_wrt_filter [OF xs(1), of ?P] by (simp add: sorted_wrt_append)
  show "set (filter (\<lambda>k. k \<in> set (take (Suc n) (keysOf srcs))) xs) = set (filter ?P xs @ (if ?k \<in> set xs then [?k] else []))"
    using take_Suc_key [OF n] by auto
qed

lemma keptTo_less:
  assumes "n < length (keysOf srcs)"
  shows "filter (\<lambda>k. k < keysOf srcs ! n) (keptInv cov L srcs) = keptTo cov L srcs n"
proof -
  have "filter (\<lambda>k. k < keysOf srcs ! n) (keysOf srcs) = filter (\<lambda>k. k \<in> set (take n (keysOf srcs))) (keysOf srcs)"
    using take_less [OF assms] by (intro filter_cong) auto
  also have "\<dots> = take n (keysOf srcs)"
  proof (rule strict_sorted_equal)
    show "sorted_wrt (<) (take n (keysOf srcs))" using keysOf_sorted sorted_wrt_take by blast
    show "sorted_wrt (<) (filter (\<lambda>k. k \<in> set (take n (keysOf srcs))) (keysOf srcs))" using keysOf_sorted sorted_wrt_filter by blast
  qed (auto dest: in_set_takeD)
  finally have e: "filter (\<lambda>k. k < keysOf srcs ! n) (keysOf srcs) = take n (keysOf srcs)" .
  have "filter P (filter Q xs) = filter Q (filter P xs)" for P Q and xs :: "bytes list" by (simp add: conj_commute)
  from this [of "\<lambda>k. k < keysOf srcs ! n" _ "keysOf srcs"] show ?thesis unfolding keptInv_def keptTo_def e .
qed

lemma invKeys_sorted: "ordered es \<Longrightarrow> sorted_wrt (<) (invKeys es)"
  by (simp add: invKeys_def sorted_wrt_filter)

lemma invKeys_mem: "k \<in> set (invKeys es) \<longleftrightarrow> keyType k = Some ktInverted \<and> map_of es k \<noteq> None"
  by (auto simp: invKeys_def map_of_eq_None_iff)

lemma invKeys_keysOf: "es \<in> set srcs \<Longrightarrow> set (invKeys es) \<subseteq> set (keysOf srcs)"
  by (auto simp: invKeys_def keysOf_set)

lemma remapTo_Suc:
  assumes "n < length (keysOf srcs)" "es \<in> set srcs" "ordered es"
  shows "remapTo cov L srcs (Suc n) es = remapTo cov L srcs n es @
    (if keyType (keysOf srcs ! n) = Some ktInverted \<and> map_of es (keysOf srcs ! n) \<noteq> None
     then [remapFor cov L srcs (keysOf srcs ! n)] else [])"
  using filter_take_Suc [OF assms(1) invKeys_sorted [OF assms(3)] invKeys_keysOf [OF assms(2)]]
  by (simp add: remapTo_def invKeys_mem)

lemma remapTo_forward:
  assumes "mergeable cov L srcs" "n < length (keysOf srcs)" "keysOf srcs ! n = forwardKey t d" "es \<in> set srcs"
  shows "remapTo cov L srcs n es = map (remapFor cov L srcs) (invKeys es)"
proof -
  have "k \<in> set (take n (keysOf srcs))" if k: "k \<in> set (invKeys es)" for k
  proof -
    have K: "k \<in> set (keysOf srcs)" using k invKeys_keysOf [OF assms(4)] by blast
    then have "wfKey k" by (rule mergeable_key [OF assms(1)])
    then obtain t' kw where "k = invertedKey t' kw" using k by (auto simp: wfKey_def invKeys_mem)
    then show ?thesis using take_less [OF assms(2) K] assms(3) inverted_less_forward by simp
  qed
  then have "filter (\<lambda>k. k \<in> set (take n (keysOf srcs))) (invKeys es) = invKeys es" by (simp add: filter_id_conv)
  then show ?thesis by (simp add: remapTo_def)
qed

lemma keptTo_Suc:
  "n < length (keysOf srcs) \<Longrightarrow> keptTo cov L srcs (Suc n) = keptTo cov L srcs n @
    (if keyType (keysOf srcs ! n) = Some ktInverted \<and> invRes cov L srcs (keysOf srcs ! n) \<noteq> None then [keysOf srcs ! n] else [])"
  by (simp add: keptTo_def take_Suc_key)

lemma length_pushRemap [simp]: "length (pushRemap hit x rm) = length rm"
  unfolding pushRemap_def by (induction hit arbitrary: rm) simp_all

lemma pushRemap_nth:
  "distinct hit \<Longrightarrow> \<forall>i\<in>set hit. i < length rm \<Longrightarrow> j < length rm \<Longrightarrow>
   pushRemap hit x rm ! j = rm ! j @ (if j \<in> set hit then [x] else [])"
proof (induction hit arbitrary: rm)
  case (Cons i hit)
  have "pushRemap (i # hit) x rm = pushRemap hit x (rm[i := rm ! i @ [x]])" by (simp add: pushRemap_def)
  then show ?case using Cons by (auto simp: nth_list_update)
qed (simp add: pushRemap_def)

lemma pushRemap_Suc:
  assumes m: "mergeable cov L srcs" and n: "n < length (keysOf srcs)" "keysOf srcs ! n = invertedKey t kw"
  shows "pushRemap (hitIx srcs (keysOf srcs ! n)) (remapFor cov L srcs (keysOf srcs ! n)) (map (remapTo cov L srcs n) srcs) =
    map (remapTo cov L srcs (Suc n)) srcs"
proof (rule nth_equalityI)
  fix j assume "j < length (pushRemap (hitIx srcs (keysOf srcs ! n)) (remapFor cov L srcs (keysOf srcs ! n)) (map (remapTo cov L srcs n) srcs))"
  then have j: "j < length srcs" by simp
  have "remapTo cov L srcs (Suc n) (srcs ! j) = remapTo cov L srcs n (srcs ! j) @
      (if j \<in> set (hitIx srcs (keysOf srcs ! n)) then [remapFor cov L srcs (keysOf srcs ! n)] else [])"
    using remapTo_Suc [OF n(1), of "srcs ! j" cov L] mergeable_ordered [OF m] j by (simp add: hitIx_iff n(2))
  then show "pushRemap (hitIx srcs (keysOf srcs ! n)) (remapFor cov L srcs (keysOf srcs ! n)) (map (remapTo cov L srcs n) srcs) ! j =
      map (remapTo cov L srcs (Suc n)) srcs ! j"
    using j by (subst pushRemap_nth) (simp_all add: hitIx_distinct hitIx_iff)
qed simp


subsection \<open>The step of the loop\<close>

definition writable :: "compressors \<Rightarrow> bool \<Rightarrow> int list option \<Rightarrow> recs list \<Rightarrow> segWriter \<Rightarrow> bool" where
  "writable cs cov L srcs w0 \<longleftrightarrow> (\<forall>n. addEntries cs (outFor cov L srcs (take n (keysOf srcs))) w0 \<noteq> None)"

lemma writer_step:
  assumes "writable cs cov L srcs w0" "outInv cs cov L srcs w0 n ms" "n < length (keysOf srcs)"
    and v: "keyRes cov L srcs (keysOf srcs ! n) = Some v"
  shows "\<exists>w. addEntry cs (keysOf srcs ! n) v (ms_w ms) = Some w \<and>
    addEntries cs (outFor cov L srcs (take (Suc n) (keysOf srcs))) w0 = Some w"
proof -
  have o: "outFor cov L srcs (take (Suc n) (keysOf srcs)) = outFor cov L srcs (take n (keysOf srcs)) @ [(keysOf srcs ! n, v)]"
    using v by (simp add: take_Suc_key [OF assms(3)] outFor_single)
  obtain w where "addEntries cs (outFor cov L srcs (take (Suc n) (keysOf srcs))) w0 = Some w"
    using assms(1) unfolding writable_def by blast
  then show ?thesis using assms(2) unfolding o addEntries_append outInv_def by (auto split: bind_split_asm)
qed

lemma keep_step:
  assumes "outInv cs cov L srcs w0 n ms" "n < length (keysOf srcs)" "keyRes cov L srcs (keysOf srcs ! n) = None"
  shows "addEntries cs (outFor cov L srcs (take (Suc n) (keysOf srcs))) w0 = Some (ms_w ms)"
    "rangeOf (outFor cov L srcs (take (Suc n) (keysOf srcs))) = ms_range ms"
  using assms by (simp_all add: outInv_def take_Suc_key outFor_single)

lemma rangeOf_Suc:
  assumes "outInv cs cov L srcs w0 n ms" "n < length (keysOf srcs)" "keyRes cov L srcs (keysOf srcs ! n) = Some v"
  shows "rangeOf (outFor cov L srcs (take (Suc n) (keysOf srcs))) =
    (if keyType (keysOf srcs ! n) = Some ktForward then noteDocid (docidOf (keysOf srcs ! n)) (ms_range ms) else ms_range ms)"
  using assms by (simp add: outInv_def take_Suc_key outFor_single rangeOf_snoc)

lemma remapFor_kept:
  "n < length (keysOf srcs) \<Longrightarrow> invRes cov L srcs (keysOf srcs ! n) \<noteq> None \<Longrightarrow>
   remapFor cov L srcs (keysOf srcs ! n) = of_nat (length (keptTo cov L srcs n))"
  by (auto simp: remapFor_def keptTo_less)

lemma liveKey_keys [simp]:
  "liveKey L (invertedKey t kw) = (case L of None \<Rightarrow> True | Some l \<Rightarrow> uint t \<in> set l)"
  "liveKey L (forwardKey t d) = (case L of None \<Rightarrow> True | Some l \<Rightarrow> uint t \<in> set l)"
  by (simp_all add: liveKey_def)

lemma mergeInverted_step:
  assumes m: "mergeable cov L srcs" "writable cs cov L srcs w0" and n: "n < length (keysOf srcs)" "keysOf srcs ! n = invertedKey t kw"
    and c: "cursAt cs srcs n (ms_curs ms)" and i: "outInv cs cov L srcs w0 n ms"
  shows "\<exists>ms'. mergeInverted cs cov (liveKey L (keysOf srcs ! n)) (keysOf srcs ! n) t (hitIx srcs (keysOf srcs ! n)) ms = Some ms' \<and>
    ms_curs ms' = ms_curs ms \<and> outInv cs cov L srcs w0 (Suc n) ms'"
proof -
  let ?k = "keysOf srcs ! n"
  have vals: "map (\<lambda>i. mc_val (ms_curs ms ! i)) (hitIx srcs ?k) = valsAt srcs ?k"
    using hitsOf_cursAt(3) [OF c n(1) mergeable_ordered [OF m(1)]] by (simp add: valsAt_def)
  obtain adds dels where r: "reconcileAll (valsAt srcs ?k) ([], []) = Some (adds, dels)"
    using reconcileAll_ok [OF hit_invVal [OF m(1), of t kw]] n(2) by auto
  have kt: "keyType ?k = Some ktInverted" by (simp add: n(2))
  then have kr: "keyRes cov L srcs ?k = invRes cov L srcs ?k" by (simp add: keyRes_def)
  have inv: "invRes cov L srcs ?k = (if cov \<and> (\<not> liveKey L ?k \<or> adds = []) then None
      else Some (encodeInvertedValue_st adds (if cov then [] else dels)))" by (simp add: invRes_def r)
  note i' = i [unfolded outInv_def]
  show ?thesis
  proof (cases "cov \<and> (\<not> liveKey L ?k \<or> adds = [])")
    case True
    have none: "invRes cov L srcs ?k = None" unfolding inv if_P [OF True] ..
    let ?ms = "ms\<lparr>ms_remap := pushRemap (hitIx srcs ?k) ordSentinel (ms_remap ms)\<rparr>"
    have "pushRemap (hitIx srcs ?k) ordSentinel (ms_remap ms) = map (remapTo cov L srcs (Suc n)) srcs"
      using pushRemap_Suc [OF m(1) n] i' by (simp add: remapFor_def none)
    then have "outInv cs cov L srcs w0 (Suc n) ?ms"
      using keep_step [OF i n(1)] i' by (simp add: outInv_def keptTo_Suc [OF n(1)] none kr)
    moreover have "mergeInverted cs cov (liveKey L ?k) ?k t (hitIx srcs ?k) ms = Some ?ms"
      unfolding mergeInverted_def vals r bind.bind_lunit prod.case Let_def if_P [OF True] ..
    ultimately show ?thesis by auto
  next
    case False
    define v where "v = encodeInvertedValue_st adds (if cov then [] else dels)"
    have some: "invRes cov L srcs ?k = Some v" unfolding inv if_not_P [OF False] v_def ..
    obtain w where w: "addEntry cs ?k v (ms_w ms) = Some w"
      "addEntries cs (outFor cov L srcs (take (Suc n) (keysOf srcs))) w0 = Some w"
      using writer_step [OF m(2) i n(1)] some kr by auto
    have rm: "pushRemap (hitIx srcs ?k) (ms_outOrd ms) (ms_remap ms) = map (remapTo cov L srcs (Suc n)) srcs"
      using pushRemap_Suc [OF m(1) n] remapFor_kept [OF n(1), of cov L] i' by (simp add: some)
    obtain e where e: "encodeInvertedValueInto (ms_enc ms) adds (if cov then [] else dels) = (v, e)"
      using encodeInvertedValueInto_eq [of "ms_enc ms" adds "if cov then [] else dels"] by (metis prod.collapse v_def)
    let ?ms = "(noteTable t (ms\<lparr>ms_w := w\<rparr>))
             \<lparr>ms_enc := e, ms_postings := ms_postings ms + int (length adds + length (if cov then [] else dels)),
              ms_remap := pushRemap (hitIx srcs ?k) (ms_outOrd ms) (ms_remap ms), ms_outOrd := ms_outOrd ms + 1\<rparr>"
    have e': "mergeInverted cs cov (liveKey L ?k) ?k t (hitIx srcs ?k) ms = Some ?ms"
      unfolding mergeInverted_def vals r bind.bind_lunit prod.case Let_def if_not_P [OF False] e w(1) ..
    have "ms_outOrd ms + 1 = of_nat (length (keptTo cov L srcs (Suc n)))"
      using i' some kt by (simp add: keptTo_Suc [OF n(1)])
    moreover have "ms_range ms = rangeOf (outFor cov L srcs (take (Suc n) (keysOf srcs)))"
      using rangeOf_Suc [OF i n(1), of v] some kr kt by simp
    ultimately have "outInv cs cov L srcs w0 (Suc n) ?ms"
      unfolding outInv_def using w(2) rm by (simp add: noteTable_def)
    with e' show ?thesis by (auto simp: noteTable_def)
  qed
qed


lemma remapOrds_map:
  "\<forall>o'\<in>set os. unat o' < length rm \<Longrightarrow>
   remapOrds rm os = Some (filter (\<lambda>x. x \<noteq> ordSentinel) (map (\<lambda>o'. rm ! unat o') os), ordSentinel \<in> set (map (\<lambda>o'. rm ! unat o') os))"
  by (induction os) (auto simp: Let_def)

lemma emitForward_step:
  assumes m: "writable cs cov L srcs w0" and n: "n < length (keysOf srcs)" "keysOf srcs ! n = forwardKey t d"
    and i: "outInv cs cov L srcs w0 n ms" and v: "keyRes cov L srcs (keysOf srcs ! n) = Some v"
    and o: "\<forall>es\<in>set srcs. ordered es"
  shows "\<exists>ms'. emitForward cs (keysOf srcs ! n) v t (ms\<lparr>ms_enc := e\<rparr>) = Some ms' \<and>
    ms_curs ms' = ms_curs ms \<and> outInv cs cov L srcs w0 (Suc n) ms'"
proof -
  let ?k = "keysOf srcs ! n"
  obtain w where w: "addEntry cs ?k v (ms_w ms) = Some w"
    "addEntries cs (outFor cov L srcs (take (Suc n) (keysOf srcs))) w0 = Some w"
    using writer_step [OF m i n(1) v] by blast
  have kt: "keyType ?k = Some ktForward" "keyType ?k \<noteq> Some ktInverted" by (simp_all add: n(2))
  let ?ms = "(noteTable t (ms\<lparr>ms_enc := e, ms_w := w\<rparr>))\<lparr>ms_range := noteDocid d (ms_range ms)\<rparr>"
  have "emitForward cs ?k v t (ms\<lparr>ms_enc := e\<rparr>) = Some ?ms" using w(1) by (simp add: emitForward_def n(2))
  moreover have "outInv cs cov L srcs w0 (Suc n) ?ms"
  proof -
    have "map (remapTo cov L srcs (Suc n)) srcs = map (remapTo cov L srcs n) srcs"
      using remapTo_Suc [OF n(1)] o kt by simp
    moreover have "keptTo cov L srcs (Suc n) = keptTo cov L srcs n" using kt by (simp add: keptTo_Suc [OF n(1)])
    moreover have "rangeOf (outFor cov L srcs (take (Suc n) (keysOf srcs))) = noteDocid d (ms_range ms)"
      using rangeOf_Suc [OF i n(1) v] by (simp add: n(2))
    ultimately show ?thesis using i w(2) by (simp add: outInv_def noteTable_def)
  qed
  ultimately show ?thesis by (auto simp: noteTable_def)
qed

lemma skipForward_step:
  assumes n: "n < length (keysOf srcs)" "keysOf srcs ! n = forwardKey t d"
    and i: "outInv cs cov L srcs w0 n ms" and v: "keyRes cov L srcs (keysOf srcs ! n) = None"
    and o: "\<forall>es\<in>set srcs. ordered es"
  shows "outInv cs cov L srcs w0 (Suc n) ms"
proof -
  have kt: "keyType (keysOf srcs ! n) \<noteq> Some ktInverted" by (simp add: n(2))
  have "map (remapTo cov L srcs (Suc n)) srcs = map (remapTo cov L srcs n) srcs"
    using remapTo_Suc [OF n(1)] o kt by simp
  moreover have "keptTo cov L srcs (Suc n) = keptTo cov L srcs n" using kt by (simp add: keptTo_Suc [OF n(1)])
  ultimately show ?thesis using i keep_step [OF i n(1) v] by (simp add: outInv_def)
qed

lemma mergeForward_step:
  assumes m: "mergeable cov L srcs" "writable cs cov L srcs w0" and n: "n < length (keysOf srcs)" "keysOf srcs ! n = forwardKey t d"
    and c: "cursAt cs srcs n (ms_curs ms)" and i: "outInv cs cov L srcs w0 n ms"
  shows "\<exists>ms'. mergeForward cs cov (liveKey L (keysOf srcs ! n)) (keysOf srcs ! n) t (hitIx srcs (keysOf srcs ! n)) ms = Some ms' \<and>
    ms_curs ms' = ms_curs ms \<and> outInv cs cov L srcs w0 (Suc n) ms'"
proof -
  let ?k = "keysOf srcs ! n"
  define src where "src = last (hitIx srcs ?k)"
  have ord: "\<forall>es\<in>set srcs. ordered es" by (rule mergeable_ordered [OF m(1)])
  have hit: "src \<in> set (hitIx srcs ?k)" using hitIx_not_Nil [of ?k srcs] n(1) by (simp add: src_def)
  then have src: "src < length srcs" "mc_val (ms_curs ms ! src) = the (map_of (srcs ! src) ?k)"
    using hitsOf_cursAt(3) [OF c n(1) ord] by (simp_all add: hitIx_iff)
  obtain ords where ords: "the (map_of (srcs ! src) ?k) = encodeForward ords" "fits64 (length ords)"
    "\<forall>o'\<in>set ords. unat o' < length (invKeys (srcs ! src))"
    using hit_fwdVal [OF m(1), of src t d] hit n(2) by (auto simp: fwdVal_def)
  have dec: "decodeForward (encodeForward ords) = Some (sort ords, ords = [])"
    using decodeForward_encodeForward [of ords] ords(2) by (simp add: fits64_def)
  have rm: "ms_remap ms ! src = map (remapFor cov L srcs) (invKeys (srcs ! src))"
    using i remapTo_forward [OF m(1) n, of "srcs ! src"] src(1) by (simp add: outInv_def)
  define os where "os = map (\<lambda>o'. remapFor cov L srcs (invKeys (srcs ! src) ! unat o')) (sort ords)"
  define out where "out = filter (\<lambda>x. x \<noteq> ordSentinel) os"
  have "map (\<lambda>o'. (ms_remap ms ! src) ! unat o') (sort ords) = os" using ords(3) by (simp add: os_def rm)
  then have ro: "remapOrds (ms_remap ms ! src) (sort ords) = Some (out, ordSentinel \<in> set os)"
    using remapOrds_map [of "sort ords" "ms_remap ms ! src"] ords(3) by (simp add: out_def rm)
  have kt: "keyType ?k = Some ktForward" by (simp add: n(2))
  have res: "keyRes cov L srcs ?k = (if cov \<and> \<not> liveKey L ?k then None
      else if ords = [] then if cov then None else Some forwardTombstone
      else if ordSentinel \<in> set os \<and> out = [] then None else Some (encodeForward out))"
    unfolding keyRes_def if_P [OF kt] fwdRes_def Let_def src_def [symmetric] ords(1) dec option.case prod.case
      os_def [symmetric] out_def [symmetric] ..
  note skip = skipForward_step [OF n i _ ord] and emit = emitForward_step [OF m(2) n i _ ord]
  have mf: "mergeForward cs cov (liveKey L ?k) ?k t (hitIx srcs ?k) ms =
      (if cov \<and> \<not> liveKey L ?k then Some ms
       else if ords = [] then if cov then Some ms else emitForward cs ?k forwardTombstone t ms
       else if ordSentinel \<in> set os \<and> out = [] then Some ms
       else case encodeForwardInto (ms_enc ms) out of (v, enc) \<Rightarrow> emitForward cs ?k v t (ms\<lparr>ms_enc := enc\<rparr>))"
    unfolding mergeForward_def Let_def src_def [symmetric] src(2) ords(1) dec bind.bind_lunit prod.case ro ..
  obtain e where e: "encodeForwardInto (ms_enc ms) out = (encodeForward out, e)"
    using encodeForwardInto_eq [of "ms_enc ms" out] by (metis prod.collapse)
  show ?thesis
    using skip emit [of _ "ms_enc ms"] emit [of _ e] unfolding mf res e by (auto split: if_splits)
qed


lemma mergeKey_step:
  assumes "codec_ok cs" and m: "mergeable cov L srcs" "writable cs cov L srcs w0" and n: "n < length (keysOf srcs)"
    and c: "cursAt cs srcs n (ms_curs ms)" and i: "outInv cs cov L srcs w0 n ms"
  shows "\<exists>ms'. mergeKey cs cov L (keysOf srcs ! n) ms = Some ms' \<and> cursAt cs srcs (Suc n) (ms_curs ms') \<and>
    outInv cs cov L srcs w0 (Suc n) ms'"
proof -
  let ?k = "keysOf srcs ! n"
  have ord: "\<forall>es\<in>set srcs. ordered es" by (rule mergeable_ordered [OF m(1)])
  note hit = hitsOf_cursAt(1) [OF c n ord]
  obtain curs where curs: "advanceAll cs (hitIx srcs ?k) (ms_curs ms) = Some curs" "cursAt cs srcs (Suc n) curs"
    using advanceAll_cursAt [OF assms(1) c n ord] by blast
  have upd: "outInv cs cov L srcs w0 (Suc n) (ms'\<lparr>ms_curs := curs\<rparr>) \<longleftrightarrow> outInv cs cov L srcs w0 (Suc n) ms'" for ms'
    by (simp add: outInv_def)
  have "wfKey ?k" using mergeable_key [OF m(1)] n by simp
  then show ?thesis
  proof (unfold wfKey_def, elim disjE exE)
    fix t kw assume k: "?k = invertedKey t kw"
    obtain ms' where ms': "mergeInverted cs cov (liveKey L ?k) ?k t (hitIx srcs ?k) ms = Some ms'"
      "ms_curs ms' = ms_curs ms" "outInv cs cov L srcs w0 (Suc n) ms'" using mergeInverted_step [OF m n k c i] by blast
    have "mergeKey cs cov L ?k ms = Some (ms'\<lparr>ms_curs := curs\<rparr>)"
      using ms'(1,2) curs(1) by (simp add: mergeKey_def Let_def k hit [unfolded k])
    then show ?thesis using curs(2) ms'(3) by (auto simp: upd)
  next
    fix t d assume k: "?k = forwardKey t d"
    obtain ms' where ms': "mergeForward cs cov (liveKey L ?k) ?k t (hitIx srcs ?k) ms = Some ms'"
      "ms_curs ms' = ms_curs ms" "outInv cs cov L srcs w0 (Suc n) ms'" using mergeForward_step [OF m n k c i] by blast
    have "mergeKey cs cov L ?k ms = Some (ms'\<lparr>ms_curs := curs\<rparr>)"
      using ms'(1,2) curs(1) by (simp add: mergeKey_def Let_def k hit [unfolded k])
    then show ?thesis using curs(2) ms'(3) by (auto simp: upd)
  qed
qed

lemma mergeAllKeys_runs:
  assumes "codec_ok cs" "mergeable cov L srcs" "writable cs cov L srcs w0"
  shows "n \<le> length (keysOf srcs) \<Longrightarrow> cursAt cs srcs n (ms_curs ms) \<Longrightarrow> outInv cs cov L srcs w0 n ms \<Longrightarrow>
   \<exists>ms'. mergeAllKeys cs cov L ms = Some ms' \<and> outInv cs cov L srcs w0 (length (keysOf srcs)) ms'"
proof (induction "length (keysOf srcs) - n" arbitrary: n ms)
  case 0
  then have n: "n = length (keysOf srcs)" by simp
  have "minKey (ms_curs ms) = None" using minKey_cursAt_end [OF "0.prems"(2)] n by simp
  then show ?case using "0.prems"(3) n by (subst mergeAllKeys.simps) simp
next
  case (Suc x)
  then have n: "n < length (keysOf srcs)" by simp
  obtain ms' where ms': "mergeKey cs cov L (keysOf srcs ! n) ms = Some ms'" "cursAt cs srcs (Suc n) (ms_curs ms')"
    "outInv cs cov L srcs w0 (Suc n) ms'" using mergeKey_step [OF assms n Suc.prems(2,3)] by blast
  have "minKey (ms_curs ms) = Some (keysOf srcs ! n)"
    using hitsOf_cursAt(2) [OF Suc.prems(2) n mergeable_ordered [OF assms(2)]] .
  then have "mergeAllKeys cs cov L ms = mergeAllKeys cs cov L ms'" by (subst mergeAllKeys.simps) (simp add: ms'(1))
  then show ?case using Suc.hyps(1) [OF _ _ ms'(2,3)] Suc.hyps(2) n by simp
qed

subsection \<open>The merge\<close>

lemma holds_update [simp]:
  "holds cs (s\<lparr>sg_id := i, sg_minDocid := a, sg_maxDocid := b\<rparr>) es \<longleftrightarrow> holds cs s es"
  by (simp add: holds_def dataHolds_def dictHolds_def ensureDictIndex_def)

lemma invKeys_outFor: "invKeys (outFor cov L srcs ks) = filter (\<lambda>k. keyType k = Some ktInverted \<and> invRes cov L srcs k \<noteq> None) ks"
  by (auto simp: invKeys_def fst_outFor keyRes_def intro!: filter_cong)

lemma invKeys_mergeOut: "invKeys (mergeOut cov L srcs) = keptInv cov L srcs"
  by (simp add: mergeOut_def invKeys_outFor keptInv_def)

lemma mergeOut_ordered: "ordered (mergeOut cov L srcs)"
  unfolding mergeOut_def by (rule ordered_outFor [OF keysOf_sorted])

lemma outFor_keys: "kv \<in> set (outFor cov L srcs ks) \<Longrightarrow> fst kv \<in> set ks"
  by (auto simp: outFor_def split: option.splits)

lemma outFor_wfKey: "mergeable cov L srcs \<Longrightarrow> set ks \<subseteq> set (keysOf srcs) \<Longrightarrow> \<forall>kv\<in>set (outFor cov L srcs ks). wfKey (fst kv)"
  using mergeable_key outFor_keys by blast

lemma writable_segWriterFor:
  assumes "mergeable cov L srcs" "0 < o_Chunk o'"
  shows "writable cs cov L srcs (segWriterFor o' c)"
  unfolding writable_def
proof
  fix n
  let ?es = "outFor cov L srcs (take n (keysOf srcs))"
  have "length (invKeys ?es) \<le> length (keptInv cov L srcs)"
    unfolding invKeys_outFor keptInv_def
    by (subst append_take_drop_id [of n "keysOf srcs", symmetric]) (simp del: append_take_drop_id)
  then have "length (invKws ([] @ ?es)) \<le> 2 ^ 32" using assms(1) by (simp add: invKws_invKeys mergeable_def)
  moreover have "\<forall>kv\<in>set ?es. wfKey (fst kv)" using assms(1) set_take_subset by (rule outFor_wfKey)
  ultimately show "addEntries cs ?es (segWriterFor o' c) \<noteq> None"
    using addEntries_ok [OF newSegWriter_ok [OF assms(2)], of ?es cs c "o_DictCodec o'" "o_BlockTarget o'" "o_InlineThreshold o'" "o_DictChunkBytes o'"]
    unfolding segWriterFor_def by auto
qed

theorem mergeSegments_holds:
  assumes cs: "codec_ok cs" and h: "list_all2 (holds cs) segs srcs" and m: "mergeable cov L srcs" and o: "0 < o_Chunk o'"
    and f: "segFits cs (segWriterFor o' c) (mergeOut cov L srcs)"
  shows "\<exists>seg sm. mergeSegments cs o' segs outId level c cov L = Some (seg, sm) \<and> holds cs seg (mergeOut cov L srcs) \<and>
    sg_id seg = outId \<and> (sg_minDocid seg, sg_maxDocid seg) = rangeOf (mergeOut cov L srcs) \<and>
    sm_Id sm = outId \<and> sm_Level sm = level \<and> (sm_MinDocid sm, sm_MaxDocid sm) = rangeOf (mergeOut cov L srcs)"
proof -
  let ?w0 = "segWriterFor o' c" and ?K = "keysOf srcs"
  obtain curs where curs: "newMergeCursors cs segs = Some curs" "list_all2 (curAt cs) curs srcs"
    using newMergeCursors_holds [OF cs h] by blast
  have "map (after ?K 0) srcs = srcs" using src_keys after_0 by (simp add: map_idI)
  then have c0: "cursAt cs srcs 0 (ms_curs (mergeInit o' c curs))" using curs(2) by (simp add: cursAt_def mergeInit_def)
  have "map (remapTo cov L srcs 0) srcs = replicate (length srcs) []" by (simp add: remapTo_def flip: map_replicate_const)
  then have "outInv cs cov L srcs ?w0 0 (mergeInit o' c curs)"
    using list_all2_lengthD [OF curs(2)] by (simp add: outInv_def mergeInit_def outFor_def keptTo_def rangeOf_def)
  from mergeAllKeys_runs [OF cs m writable_segWriterFor [OF m o] _ c0 this] obtain ms where
    ms: "mergeAllKeys cs cov L (mergeInit o' c curs) = Some ms" "outInv cs cov L srcs ?w0 (length ?K) ms" by auto
  then have w: "addEntries cs (mergeOut cov L srcs) ?w0 = Some (ms_w ms)" "ms_range ms = rangeOf (mergeOut cov L srcs)"
    by (simp_all add: outInv_def mergeOut_def)
  have k: "\<forall>kv\<in>set (mergeOut cov L srcs). wfKey (fst kv)" unfolding mergeOut_def using m by (rule outFor_wfKey) simp
  from write_holds [OF cs o mergeOut_ordered k] f w(1) obtain s where s: "finish cs (ms_w ms) = Some s" "holds cs s (mergeOut cov L srcs)"
    unfolding segWriterFor_def by (metis option.inject)
  show ?thesis using s(2) by (simp add: mergeSegments_def curs(1) ms(1) s(1) w(2))
qed

end
