(* ===== verification/StMergeLayer.thy ===== *)
theory StMergeLayer
  imports StMergeStep
begin

text \<open>
  What a merge means: the output is a well-formed segment, and its layer is the stack of its inputs'
  layers, the newest on top; a covering merge compacts that stack and drops the tables that are gone.
\<close>

definition stackOf :: "recs list \<Rightarrow> tid \<Rightarrow> layer" where
  "stackOf srcs t = stack (rev (map (\<lambda>es. segLayer es t) srcs))"

definition mergeFits :: "bool \<Rightarrow> int list option \<Rightarrow> recs list \<Rightarrow> bool" where
  "mergeFits cov L srcs \<longleftrightarrow> mergeable cov L srcs \<and> recsSize (mergeOut cov L srcs) < 2 ^ 63"

definition liveTable :: "int list option \<Rightarrow> tid \<Rightarrow> bool" where
  "liveTable L t \<longleftrightarrow> (case L of None \<Rightarrow> True | Some l \<Rightarrow> uint t \<in> set l)"

lemma liveKey_table: "liveKey L (invertedKey t kw) = liveTable L t" "liveKey L (forwardKey t d) = liveTable L t"
  by (simp_all add: liveTable_def)

lemma map_of_mergeOut: "map_of (mergeOut cov L srcs) k = (if k \<in> set (keysOf srcs) then keyRes cov L srcs k else None)"
  unfolding mergeOut_def using keysOf_sorted strict_sorted_iff by (intro map_of_outFor) blast

lemma notin_keysOf: "k \<notin> set (keysOf srcs) \<Longrightarrow> es \<in> set srcs \<Longrightarrow> map_of es k = None"
  by (auto simp: keysOf_set map_of_eq_None_iff)

lemma newest_None: "\<forall>x\<in>set xs. f x = None \<Longrightarrow> newest f xs = None"
  by (induction xs rule: rev_induct) auto

subsection \<open>Inverted records\<close>

lemma inv_newest: "newest (\<lambda>v. invAt v d) (valsAt srcs (invertedKey t kw)) = l_inv (stackOf srcs t) kw d"
proof -
  let ?k = "invertedKey t kw"
  let ?f = "\<lambda>es. case map_of es ?k of None \<Rightarrow> None | Some v \<Rightarrow> invAt v d"
  have "newest (\<lambda>v. invAt v d) (valsAt srcs ?k) = newest (\<lambda>i. invAt (the (map_of (srcs ! i) ?k)) d) (hitIx srcs ?k)"
    by (simp add: valsAt_def newest_map)
  also have "\<dots> = newest (\<lambda>i. ?f (srcs ! i)) (hitIx srcs ?k)" by (rule newest_cong) (auto simp: hitIx_iff)
  also have "\<dots> = newest (\<lambda>i. ?f (srcs ! i)) [0..<length srcs]"
    unfolding hitIx_def by (rule newest_filter) (auto split: option.split)
  also have "\<dots> = newest ?f srcs" by (rule newest_nth [symmetric])
  finally show ?thesis by (simp add: stackOf_def stack_newest newest_map segLayer_def)
qed

lemma stackOf_inv_notin: "invertedKey t kw \<notin> set (keysOf srcs) \<Longrightarrow> l_inv (stackOf srcs t) kw d = None"
  unfolding stackOf_def stack_newest newest_map by (rule newest_None) (simp add: segLayer_def notin_keysOf)

lemma invRes_ok:
  assumes "mergeable cov L srcs"
  shows "\<exists>adds dels. reconcileAll (valsAt srcs (invertedKey t kw)) ([], []) = Some (adds, dels) \<and> set adds \<inter> set dels = {} \<and>
    (\<forall>d. status (adds, dels) d = l_inv (stackOf srcs t) kw d) \<and>
    invRes cov L srcs (invertedKey t kw) =
      (if cov \<and> (\<not> liveTable L t \<or> adds = []) then None else Some (encodeInvertedValue_st adds (if cov then [] else dels)))"
proof -
  obtain adds dels where r: "reconcileAll (valsAt srcs (invertedKey t kw)) ([], []) = Some (adds, dels)" "set adds \<inter> set dels = {}"
    "\<forall>d. status (adds, dels) d = newest (\<lambda>v. invAt v d) (valsAt srcs (invertedKey t kw))"
    using reconcileAll_ok [OF hit_invVal [OF assms, of t kw]] by auto
  have "invRes cov L srcs (invertedKey t kw) =
      (if cov \<and> (\<not> liveTable L t \<or> adds = []) then None else Some (encodeInvertedValue_st adds (if cov then [] else dels)))"
    unfolding invRes_def r(1) option.case prod.case liveKey_table ..
  then show ?thesis using r by (auto simp: inv_newest)
qed

lemma mergeOut_mem_size: "map_of (mergeOut cov L srcs) k = Some v \<Longrightarrow> mergeFits cov L srcs \<Longrightarrow> length v < 2 ^ 63"
  using recsSize_mem [OF map_of_SomeD, of "mergeOut cov L srcs" k v] by (simp add: mergeFits_def)

lemma invRes_fits:
  assumes "mergeFits cov L srcs" "invertedKey t kw \<in> set (keysOf srcs)"
    "invRes cov L srcs (invertedKey t kw) = Some (encodeInvertedValue_st adds dels)"
  shows "fits64 (length (encodeDocs adds))"
proof -
  have "map_of (mergeOut cov L srcs) (invertedKey t kw) = Some (encodeInvertedValue_st adds dels)"
    using assms(2,3) by (simp add: map_of_mergeOut keyRes_def)
  from mergeOut_mem_size [OF this assms(1)] have "length (encodeDocs adds) < 2 ^ 63"
    by (rule le_less_trans [OF encodeInvertedValue_length])
  then show ?thesis by (rule fits64_63)
qed

theorem mergeOut_inv:
  assumes m: "mergeFits cov L srcs"
  shows "l_inv (segLayer (mergeOut cov L srcs) t) kw d =
    (if cov then if liveTable L t \<and> l_inv (stackOf srcs t) kw d = Some True then Some True else None
     else l_inv (stackOf srcs t) kw d)"
proof (cases "invertedKey t kw \<in> set (keysOf srcs)")
  case False
  then show ?thesis by (simp add: segLayer_def map_of_mergeOut stackOf_inv_notin)
next
  case k: True
  have m': "mergeable cov L srcs" using m by (simp add: mergeFits_def)
  obtain adds dels where r: "set adds \<inter> set dels = {}" "\<And>d. status (adds, dels) d = l_inv (stackOf srcs t) kw d"
    and res: "invRes cov L srcs (invertedKey t kw) = (if cov \<and> (\<not> liveTable L t \<or> adds = []) then None
      else Some (encodeInvertedValue_st adds (if cov then [] else dels)))"
    using invRes_ok [OF m', of t kw] by blast
  have l: "l_inv (segLayer (mergeOut cov L srcs) t) kw d =
      (case invRes cov L srcs (invertedKey t kw) of None \<Rightarrow> None | Some v \<Rightarrow> invAt v d)"
    using k by (simp add: segLayer_def map_of_mergeOut keyRes_def)
  show ?thesis
  proof (cases "cov \<and> (\<not> liveTable L t \<or> adds = [])")
    case True
    have none: "invRes cov L srcs (invertedKey t kw) = None" unfolding res if_P [OF True] ..
    show ?thesis using True unfolding l none option.case r(2) [symmetric] by (auto simp: status_def)
  next
    case False
    have some: "invRes cov L srcs (invertedKey t kw) = Some (encodeInvertedValue_st adds (if cov then [] else dels))"
      unfolding res if_not_P [OF False] ..
    show ?thesis using False r(1) unfolding l some option.case invAt_encode [OF invRes_fits [OF m k some]] r(2) [symmetric]
      by (auto simp: status_def)
  qed
qed


subsection \<open>Forward records\<close>

lemma index_sorted:
  assumes "sorted_wrt (<) xs" "x \<in> set xs"
  shows "length (filter (\<lambda>y. y < x) xs) < length xs \<and> xs ! length (filter (\<lambda>y. y < x) xs) = (x :: bytes)"
  using assms
proof (induction xs)
  case (Cons y ys)
  show ?case
  proof (cases "x = y")
    case True
    then have "filter (\<lambda>z. z < x) ys = []" using Cons.prems(1) by (auto simp: filter_empty_conv)
    then show ?thesis using True by simp
  next
    case False
    then have "x \<in> set ys" "y < x" using Cons.prems by auto
    then show ?thesis using Cons.IH Cons.prems(1) by simp
  qed
qed simp

lemma keptInv_sorted: "sorted_wrt (<) (keptInv cov L srcs)"
  unfolding keptInv_def by (rule sorted_wrt_filter [OF keysOf_sorted])

lemma remapFor_index:
  assumes "mergeable cov L srcs" "k \<in> set (keysOf srcs)" "keyType k = Some ktInverted" "invRes cov L srcs k \<noteq> None"
  shows "remapFor cov L srcs k \<noteq> ordSentinel" "unat (remapFor cov L srcs k) < length (keptInv cov L srcs)"
    "keptInv cov L srcs ! unat (remapFor cov L srcs k) = k"
proof -
  let ?i = "length (filter (\<lambda>k'. k' < k) (keptInv cov L srcs))"
  have "k \<in> set (keptInv cov L srcs)" using assms by (simp add: keptInv_def)
  from index_sorted [OF keptInv_sorted this]
  have i: "?i < length (keptInv cov L srcs)" "keptInv cov L srcs ! ?i = k" by simp_all
  have l: "length (keptInv cov L srcs) < 2 ^ 32" using assms(1) by (simp add: mergeable_def)
  have r: "remapFor cov L srcs k = of_nat ?i" using assms(4) by (auto simp: remapFor_def)
  have u: "unat (of_nat ?i :: ord) = ?i" using i(1) l by (intro of_nat_ord) linarith
  have s: "unat ordSentinel = 4294967295"
    unfolding ordSentinel_def by (simp add: unsigned_minus_1_eq_mask mask_eq_exp_minus_1)
  show "remapFor cov L srcs k \<noteq> ordSentinel"
  proof
    assume "remapFor cov L srcs k = ordSentinel"
    then have "?i = 4294967295" using u s r by simp
    then show False using i(1) l by simp
  qed
  show "unat (remapFor cov L srcs k) < length (keptInv cov L srcs)" "keptInv cov L srcs ! unat (remapFor cov L srcs k) = k"
    unfolding r u by (rule i)+
qed

lemma remapFor_sentinel: "remapFor cov L srcs k \<noteq> ordSentinel \<Longrightarrow> invRes cov L srcs k \<noteq> None"
  unfolding remapFor_def by (metis (full_types))

text \<open>The forward record a merge keeps: the newest input's.\<close>

definition winner :: "recs list \<Rightarrow> bytes \<Rightarrow> recs" where
  "winner srcs k = srcs ! last (hitIx srcs k)"

lemma winner_ok:
  assumes "mergeable cov L srcs" "forwardKey t d \<in> set (keysOf srcs)"
  shows "winner srcs (forwardKey t d) \<in> set srcs" and "0 \<le> sint d"
    and "\<exists>ords. map_of (winner srcs (forwardKey t d)) (forwardKey t d) = Some (encodeForward ords) \<and> fits64 (length ords) \<and>
      (\<forall>o'\<in>set ords. unat o' < length (invKeys (winner srcs (forwardKey t d))) \<and>
        (\<exists>kw. invKeys (winner srcs (forwardKey t d)) ! unat o' = invertedKey t kw))"
proof -
  let ?k = "forwardKey t d"
  have h: "last (hitIx srcs ?k) \<in> set (hitIx srcs ?k)" using hitIx_not_Nil [OF assms(2)] by simp
  show "winner srcs ?k \<in> set srcs" using h by (auto simp: winner_def hitIx_iff)
  have f: "0 \<le> sint d" "fwdVal (invKeys (winner srcs ?k)) t (the (map_of (winner srcs ?k) ?k))"
    using hit_fwdVal [OF assms(1) h] by (simp_all add: winner_def)
  show "0 \<le> sint d" by (rule f(1))
  obtain v where "map_of (winner srcs ?k) ?k = Some v" using h by (auto simp: hitIx_iff winner_def)
  then show "\<exists>ords. map_of (winner srcs ?k) ?k = Some (encodeForward ords) \<and> fits64 (length ords) \<and>
      (\<forall>o'\<in>set ords. unat o' < length (invKeys (winner srcs ?k)) \<and> (\<exists>kw. invKeys (winner srcs ?k) ! unat o' = invertedKey t kw))"
    using f(2) by (auto simp: fwdVal_def)
qed

lemma fwdRes_ok:
  assumes "mergeable cov L srcs" "map_of (winner srcs (forwardKey t d)) (forwardKey t d) = Some (encodeForward ords)" "fits64 (length ords)"
  shows "fwdRes cov L srcs (forwardKey t d) =
    (if cov \<and> \<not> liveTable L t then None
     else if ords = [] then if cov then None else Some forwardTombstone
     else let os = map (\<lambda>o'. remapFor cov L srcs (invKeys (winner srcs (forwardKey t d)) ! unat o')) (sort ords);
              out = filter (\<lambda>o'. o' \<noteq> ordSentinel) os
          in if ordSentinel \<in> set os \<and> out = [] then None else Some (encodeForward out))"
proof -
  have dec: "decodeForward (encodeForward ords) = Some (sort ords, ords = [])"
    using decodeForward_encodeForward [of ords] assms(3) by (simp add: fits64_def)
  show ?thesis
    unfolding fwdRes_def Let_def winner_def [symmetric] assms(2) option.sel dec option.case prod.case liveKey_table ..
qed

lemma stackOf_fwd:
  assumes "mergeable cov L srcs"
  shows "l_fwd (stackOf srcs t) d = (if forwardKey t d \<in> set (keysOf srcs)
     then fwdAt (invKws (winner srcs (forwardKey t d))) (the (map_of (winner srcs (forwardKey t d)) (forwardKey t d))) else None)"
proof (cases "forwardKey t d \<in> set (keysOf srcs)")
  case False
  then show ?thesis unfolding stackOf_def stack_newest newest_map
    by (simp add: segLayer_def notin_keysOf newest_None)
next
  case True
  let ?k = "forwardKey t d"
  let ?f = "\<lambda>es. case map_of es ?k of None \<Rightarrow> None | Some v \<Rightarrow> fwdAt (invKws es) v"
  obtain ords where w: "map_of (winner srcs ?k) ?k = Some (encodeForward ords)" "fits64 (length ords)"
    using winner_ok(3) [OF assms True] by blast
  have 1: "newest (\<lambda>i. ?f (srcs ! i)) (hitIx srcs ?k) = ?f (srcs ! last (hitIx srcs ?k))"
  proof (rule newest_last [OF hitIx_not_Nil [OF True]])
    show "?f (srcs ! last (hitIx srcs ?k)) \<noteq> None" using w by (simp add: fwdAt_encode flip: winner_def)
  qed
  have 2: "newest (\<lambda>i. ?f (srcs ! i)) (hitIx srcs ?k) = newest (\<lambda>i. ?f (srcs ! i)) [0..<length srcs]"
    unfolding hitIx_def by (rule newest_filter) (auto split: option.split)
  have "newest ?f srcs = ?f (winner srcs ?k)" unfolding newest_nth [of ?f srcs] 2 [symmetric] 1 winner_def ..
  then show ?thesis using True w by (simp add: stackOf_def stack_newest newest_map segLayer_def)
qed


text \<open>The keywords of a document whose forward record the merge keeps.\<close>

lemma fwdAt_out:
  assumes m: "mergeable cov L srcs" and W: "ords \<noteq> []" "fits64 (length ords)" "winner srcs (forwardKey t d) \<in> set srcs"
    and o: "\<forall>o'\<in>set ords. unat o' < length (invKeys (winner srcs (forwardKey t d))) \<and>
        (\<exists>kw. invKeys (winner srcs (forwardKey t d)) ! unat o' = invertedKey t kw)"
    and all: "\<forall>o'\<in>set ords. invRes cov L srcs (invKeys (winner srcs (forwardKey t d)) ! unat o') \<noteq> None"
  defines "os \<equiv> map (\<lambda>o'. remapFor cov L srcs (invKeys (winner srcs (forwardKey t d)) ! unat o')) (sort ords)"
  shows "ordSentinel \<notin> set os" and
    "fwdAt (invKws (mergeOut cov L srcs)) (encodeForward os) = fwdAt (invKws (winner srcs (forwardKey t d))) (encodeForward ords)"
proof -
  let ?w = "winner srcs (forwardKey t d)"
  have k: "invKeys ?w ! unat o' \<in> set (keysOf srcs)" "keyType (invKeys ?w ! unat o') = Some ktInverted" if "o' \<in> set ords" for o'
    using o that invKeys_keysOf [OF W(3)] nth_mem [of "unat o'" "invKeys ?w"] by (auto simp: invKeys_mem)
  note r = remapFor_index [OF m k]
  have "x \<noteq> ordSentinel" if "x \<in> set os" for x using that r(1) all by (auto simp: os_def)
  then show "ordSentinel \<notin> set os" by blast
  have e: "invKws (mergeOut cov L srcs) ! unat (remapFor cov L srcs (invKeys ?w ! unat o')) = invKws ?w ! unat o'" if "o' \<in> set ords" for o'
    using that all r(2,3) [OF that that] o by (simp add: invKws_invKeys invKeys_mergeOut)
  have "length os = length ords" by (simp add: os_def)
  then have f: "fits64 (length os)" "os \<noteq> []" using W(1,2) by auto
  have "(\<lambda>o'. invKws (mergeOut cov L srcs) ! unat o') ` set os = (\<lambda>o'. invKws ?w ! unat o') ` set ords"
    unfolding os_def set_map set_sort image_image by (rule image_cong [OF refl e])
  then show "fwdAt (invKws (mergeOut cov L srcs)) (encodeForward os) = fwdAt (invKws ?w) (encodeForward ords)"
    using W(1) f(2) unfolding fwdAt_encode [OF W(2)] fwdAt_encode [OF f(1)] by simp
qed

text \<open>No keyword of a document that the inputs still have is dropped.\<close>

lemma fwd_words_kept:
  assumes m: "mergeable cov L srcs" and ords: "fits64 (length ords)"
      "\<forall>o'\<in>set ords. unat o' < length (invKeys es) \<and> (\<exists>kw. invKeys es ! unat o' = invertedKey t kw)"
    and st: "l_fwd (stackOf srcs t) d = fwdAt (invKws es) (encodeForward ords)"
    and ne: "\<not> (cov \<and> \<not> liveTable L t)" and c: "cov \<Longrightarrow> liveTable L t \<Longrightarrow> complete (stackOf srcs t)"
  shows "\<forall>o'\<in>set ords. invRes cov L srcs (invKeys es ! unat o') \<noteq> None"
proof
  fix o' assume o': "o' \<in> set ords"
  then obtain kw where kw: "invKeys es ! unat o' = invertedKey t kw" using ords(2) by blast
  obtain adds dels where r: "\<forall>d. status (adds, dels) d = l_inv (stackOf srcs t) kw d"
    and iv: "invRes cov L srcs (invertedKey t kw) = (if cov \<and> (\<not> liveTable L t \<or> adds = []) then None
      else Some (encodeInvertedValue_st adds (if cov then [] else dels)))"
    using invRes_ok [OF m, of t kw] by blast
  have "adds \<noteq> []" if cov
  proof -
    have "kw = invKws es ! unat o'" using kw ords(2) o' by (simp add: invKws_invKeys invertedKey_def)
    then have "l_fwd (stackOf srcs t) d = Some (Some (insert kw ((\<lambda>o'. invKws es ! unat o') ` set ords)))"
      using o' unfolding st fwdAt_encode [OF ords(1)] by (auto simp: insert_absorb)
    then have "l_inv (stackOf srcs t) kw d = Some True" using c ne that unfolding complete_def by blast
    then have "status (adds, dels) d = Some True" using r by simp
    then show ?thesis by (auto simp: status_def split: if_splits)
  qed
  then show "invRes cov L srcs (invKeys es ! unat o') \<noteq> None" using ne by (auto simp: kw iv)
qed

theorem mergeOut_fwd:
  assumes m: "mergeable cov L srcs" and c: "cov \<Longrightarrow> liveTable L t \<Longrightarrow> complete (stackOf srcs t)"
  shows "l_fwd (segLayer (mergeOut cov L srcs) t) d =
    (if cov then if liveTable L t \<and> l_fwd (stackOf srcs t) d \<noteq> Some None then l_fwd (stackOf srcs t) d else None
     else l_fwd (stackOf srcs t) d)"
proof (cases "forwardKey t d \<in> set (keysOf srcs)")
  case False
  then show ?thesis by (simp add: segLayer_def map_of_mergeOut stackOf_fwd [OF m])
next
  case True
  let ?k = "forwardKey t d" let ?w = "winner srcs ?k"
  obtain ords where ords: "map_of ?w ?k = Some (encodeForward ords)" "fits64 (length ords)"
    "\<forall>o'\<in>set ords. unat o' < length (invKeys ?w) \<and> (\<exists>kw. invKeys ?w ! unat o' = invertedKey t kw)"
    using winner_ok(3) [OF m True] by blast
  have st: "l_fwd (stackOf srcs t) d = fwdAt (invKws ?w) (encodeForward ords)" using True ords(1) by (simp add: stackOf_fwd [OF m])
  have mo: "l_fwd (segLayer (mergeOut cov L srcs) t) d =
      (case fwdRes cov L srcs ?k of None \<Rightarrow> None | Some v \<Rightarrow> fwdAt (invKws (mergeOut cov L srcs)) v)"
    using True by (simp add: segLayer_def map_of_mergeOut keyRes_def)
  note res = fwdRes_ok [OF m ords(1,2)]
  show ?thesis
  proof (cases "cov \<and> \<not> liveTable L t \<or> ords = []")
    case True
    then show ?thesis unfolding mo st
      by (auto simp: res fwdAt_encode [of "[]"] fits64_def fwdAt_def decodeForward_tombstone encodeForward_Nil)
  next
    case False
    then have ne: "ords \<noteq> []" "\<not> (cov \<and> \<not> liveTable L t)" by auto
    define os where "os = map (\<lambda>o'. remapFor cov L srcs (invKeys ?w ! unat o')) (sort ords)"
    note kept = fwd_words_kept [OF m ords(2,3) st ne(2) c]
    note out = fwdAt_out [OF m ne(1) ords(2) winner_ok(1) [OF m True] ords(3) kept, folded os_def]
    have "filter (\<lambda>o'. o' \<noteq> ordSentinel) os = os" using out(1) by (auto simp: filter_id_conv)
    then have "fwdRes cov L srcs ?k = Some (encodeForward os)"
      unfolding res if_not_P [OF ne(2)] if_not_P [OF ne(1)] os_def [symmetric] Let_def using out(1) by simp
    moreover have "fwdAt (invKws ?w) (encodeForward ords) \<noteq> Some None" using ne(1) by (simp add: fwdAt_encode [OF ords(2)])
    moreover have "l_fwd (segLayer (mergeOut cov L srcs) t) d = l_fwd (stackOf srcs t) d"
      unfolding mo st calculation(1) option.case by (rule out(2))
    ultimately show ?thesis using ne(2) st by (cases cov) simp_all
  qed
qed

text \<open>A tiered merge is the stack of its inputs; a covering merge compacts it.\<close>

theorem mergeOut_tiered:
  "mergeFits False L srcs \<Longrightarrow> segLayer (mergeOut False L srcs) t = stackOf srcs t"
  by (intro layer_eqI ext) (simp_all add: mergeOut_inv mergeOut_fwd mergeFits_def)

theorem mergeOut_covering:
  assumes "mergeFits True L srcs" "liveTable L t \<Longrightarrow> complete (stackOf srcs t)"
  shows "segLayer (mergeOut True L srcs) t = (if liveTable L t then compact (stackOf srcs t) else emptyLayer)"
proof -
  have m: "mergeable True L srcs" using assms(1) by (simp add: mergeFits_def)
  show ?thesis
    using mergeOut_inv [OF assms(1), of t] mergeOut_fwd [OF m assms(2)]
    by (intro layer_eqI ext) (simp_all add: compact_def emptyLayer_def)
qed


subsection \<open>The type of the output\<close>

lemma fwdVal_mergeOut:
  assumes f: "mergeFits cov L srcs" and k: "forwardKey t d \<in> set (keysOf srcs)"
    and r: "fwdRes cov L srcs (forwardKey t d) = Some v"
  shows "fwdVal (keptInv cov L srcs) t v"
proof -
  have m: "mergeable cov L srcs" using f by (simp add: mergeFits_def)
  let ?w = "winner srcs (forwardKey t d)"
  obtain ords where ords: "map_of ?w (forwardKey t d) = Some (encodeForward ords)" "fits64 (length ords)"
    "\<forall>o'\<in>set ords. unat o' < length (invKeys ?w) \<and> (\<exists>kw. invKeys ?w ! unat o' = invertedKey t kw)"
    using winner_ok(3) [OF m k] by blast
  define os where "os = map (\<lambda>o'. remapFor cov L srcs (invKeys ?w ! unat o')) (sort ords)"
  have "v = encodeForward [] \<or> v = encodeForward (filter (\<lambda>o'. o' \<noteq> ordSentinel) os)"
    using r unfolding fwdRes_ok [OF m ords(1,2)] Let_def os_def [symmetric] by (auto simp: encodeForward_Nil split: if_splits)
  then show ?thesis
  proof
    assume "v = encodeForward (filter (\<lambda>o'. o' \<noteq> ordSentinel) os)"
    moreover have "unat x < length (keptInv cov L srcs) \<and> (\<exists>kw. keptInv cov L srcs ! unat x = invertedKey t kw)"
      if x: "x \<in> set (filter (\<lambda>o'. o' \<noteq> ordSentinel) os)" for x
    proof -
      obtain o' where o': "o' \<in> set ords" "x = remapFor cov L srcs (invKeys ?w ! unat o')" "x \<noteq> ordSentinel"
        using x by (auto simp: os_def)
      obtain kw where kw: "invKeys ?w ! unat o' = invertedKey t kw" using ords(3) o'(1) by blast
      have kk: "invertedKey t kw \<in> set (keysOf srcs)"
        using ords(3) o'(1) invKeys_keysOf [OF winner_ok(1) [OF m k]] nth_mem [of "unat o'" "invKeys ?w"] kw by auto
      from remapFor_index [OF m kk keyType_keys(1)] remapFor_sentinel o'(2,3) show ?thesis unfolding kw by blast
    qed
    moreover have "fits64 (length (filter (\<lambda>o'. o' \<noteq> ordSentinel) os))"
      using ords(2) by (rule fits64_le [rotated]) (metis length_filter_le length_map length_sort os_def)
    ultimately show ?thesis unfolding fwdVal_def by blast
  qed (auto simp: fwdVal_def fits64_def intro: exI [of _ "[]"])
qed

theorem mergeOut_wf:
  assumes "mergeFits cov L srcs"
  shows "wfRecs (mergeOut cov L srcs)"
proof -
  have m: "mergeable cov L srcs" using assms by (simp add: mergeFits_def)
  have "recOk (keptInv cov L srcs) (k, v)" if kv: "map_of (mergeOut cov L srcs) k = Some v" for k v
  proof -
    have k: "k \<in> set (keysOf srcs)" "keyRes cov L srcs k = Some v" using kv by (simp_all add: map_of_mergeOut split: if_splits)
    from mergeable_key [OF m k(1)] show ?thesis
    proof (unfold wfKey_def, elim disjE exE)
      fix t kw assume kk: "k = invertedKey t kw"
      then have r: "invRes cov L srcs (invertedKey t kw) = Some v" using k(2) by (simp add: keyRes_def)
      obtain adds dels where ad: "set adds \<inter> set dels = {}" "v = encodeInvertedValue_st adds (if cov then [] else dels)"
        using invRes_ok [OF m, of t kw] r by (auto split: if_splits)
      have "fits64 (length (encodeDocs adds))" using r ad(2) k(1) kk by (intro invRes_fits [OF assms]) auto
      then have "invVal v" unfolding invVal_def using ad by (intro exI [of _ adds] exI [of _ "if cov then [] else dels"]) auto
      then show ?thesis by (auto simp: recOk_def kk)
    next
      fix t d assume kk: "k = forwardKey t d"
      then have r: "fwdRes cov L srcs (forwardKey t d) = Some v" using k(2) by (simp add: keyRes_def)
      have "fwdVal (keptInv cov L srcs) t v" using fwdVal_mergeOut [OF assms _ r] k(1) kk by simp
      then show ?thesis using winner_ok(2) [OF m] k(1) by (auto simp: recOk_def kk)
    qed
  qed
  moreover have "distinct (map fst (mergeOut cov L srcs))" using mergeOut_ordered ordered_distinct by blast
  ultimately have "\<forall>kv\<in>set (mergeOut cov L srcs). recOk (keptInv cov L srcs) kv" by auto
  then show ?thesis using mergeOut_ordered m by (simp add: wfRecs_def invKeys_mergeOut mergeable_def)
qed

end
