(* ===== verification/StCache.thy ===== *)
theory StCache
  imports StRecs
begin

text \<open>
  The cache of decompressed dictionary chunks (\<^verbatim>\<open>packages/core/invertedstore/dictcache.go\<close>): a list with
  the most recently used chunk first, bounded by the bytes it holds. Go keeps a map from keys to list
  elements beside the list; here a key is looked up in the list itself. The theorems say that the cache
  never holds more than its budget, except for a single chunk, and that it does not change what ordinals
  resolve to.
\<close>

type_synonym chunkCacheKey = "nat \<times> nat"

record chunkLRU =
  cl_budget :: int
  cl_used :: int
  cl_ll :: "(chunkCacheKey \<times> bytes) list"

definition newChunkLRU :: "int \<Rightarrow> chunkLRU" where
  "newChunkLRU budget = \<lparr>cl_budget = (if budget \<le> 0 then 33554432 else budget), cl_used = 0, cl_ll = []\<rparr>"

text \<open>The eviction loop: pop the last element while the budget is exceeded and another remains.\<close>

function evict :: "chunkLRU \<Rightarrow> chunkLRU" where
  "evict c =
     (if cl_budget c < cl_used c \<and> 1 < length (cl_ll c)
      then evict (c\<lparr>cl_used := cl_used c - int (length (snd (last (cl_ll c)))), cl_ll := butlast (cl_ll c)\<rparr>)
      else c)"
  by pat_completeness auto

termination
  by (relation "measure (\<lambda>c. length (cl_ll c))") auto

declare evict.simps [simp del]

definition chunkGet :: "compressors \<Rightarrow> segment \<Rightarrow> dictChunk list \<Rightarrow> nat \<Rightarrow> chunkLRU \<Rightarrow> (bytes \<times> chunkLRU) option" where
  "chunkGet cs s chunks ci c =
     (let k = (sg_id s, ci) in
      case map_of (cl_ll c) k of
        Some raw \<Rightarrow> Some (raw, c\<lparr>cl_ll := (k, raw) # AList.delete k (cl_ll c)\<rparr>)
      | None \<Rightarrow>
          do {
            raw \<leftarrow> chunkBytes cs s (chunks ! ci);
            Some (raw, evict (c\<lparr>cl_ll := (k, raw) # cl_ll c, cl_used := cl_used c + int (length raw)\<rparr>))
          })"

definition purge :: "nat \<Rightarrow> chunkLRU \<Rightarrow> chunkLRU" where
  "purge segId c =
     c\<lparr>cl_used := cl_used c - sum_list (map (int \<circ> length \<circ> snd) (filter (\<lambda>e. fst (fst e) = segId) (cl_ll c))),
       cl_ll := filter (\<lambda>e. fst (fst e) \<noteq> segId) (cl_ll c)\<rparr>"

definition usedBytes :: "chunkLRU \<Rightarrow> int" where
  "usedBytes c = cl_used c"

definition countForSeg :: "nat \<Rightarrow> chunkLRU \<Rightarrow> nat" where
  "countForSeg segId c = length (filter (\<lambda>e. fst (fst e) = segId) (cl_ll c))"

fun resolveChunksCached ::
  "compressors \<Rightarrow> segment \<Rightarrow> dictChunk list \<Rightarrow> (nat \<times> ord list) list \<Rightarrow> (ord \<Rightarrow> bytes option) \<Rightarrow> chunkLRU \<Rightarrow>
   ((ord \<Rightarrow> bytes option) \<times> chunkLRU) option" where
  "resolveChunksCached cs s chunks [] res c = Some (res, c)"
| "resolveChunksCached cs s chunks ((ci, ords) # m) res c =
     do {
       (raw, c') \<leftarrow> chunkGet cs s chunks ci c;
       res' \<leftarrow> chunkWords raw ords 0 (dc_firstOrd (chunks ! ci)) res;
       resolveChunksCached cs s chunks m res' c'
     }"

definition resolveOrdsCached ::
  "compressors \<Rightarrow> segment \<Rightarrow> ord list \<Rightarrow> chunkLRU \<Rightarrow> ((ord \<Rightarrow> bytes option) \<times> chunkLRU) option" where
  "resolveOrdsCached cs s need c =
     do {
       chunks \<leftarrow> ensureDictIndex s;
       resolveChunksCached cs s chunks (byChunk chunks need) (\<lambda>_. None) c
     }"

subsection \<open>The budget\<close>

definition lruSize :: "chunkLRU \<Rightarrow> int" where
  "lruSize c = sum_list (map (int \<circ> length \<circ> snd) (cl_ll c))"

definition lruOk :: "chunkLRU \<Rightarrow> bool" where
  "lruOk c \<longleftrightarrow> distinct (map fst (cl_ll c)) \<and> cl_used c = lruSize c \<and> (cl_used c \<le> cl_budget c \<or> length (cl_ll c) \<le> 1)"

lemma evict_spec:
  assumes "distinct (map fst (cl_ll c))" "cl_used c = lruSize c"
  shows "lruOk (evict c) \<and> set (cl_ll (evict c)) \<subseteq> set (cl_ll c) \<and> cl_budget (evict c) = cl_budget c"
  using assms
proof (induction c rule: evict.induct)
  case (1 c)
  show ?case
  proof (cases "cl_budget c < cl_used c \<and> 1 < length (cl_ll c)")
    case True
    let ?c = "c\<lparr>cl_used := cl_used c - int (length (snd (last (cl_ll c)))), cl_ll := butlast (cl_ll c)\<rparr>"
    obtain ys y where y: "cl_ll c = ys @ [y]" using True by (cases "cl_ll c" rule: rev_cases) auto
    have "distinct (map fst (cl_ll ?c))" "cl_used ?c = lruSize ?c" using "1.prems" by (auto simp: y lruSize_def)
    from "1.IH" [OF True this] show ?thesis using True by (subst (1 2 3) evict.simps) (auto dest: in_set_butlastD)
  next
    case False
    then show ?thesis using "1.prems" by (subst (1 2 3) evict.simps) (auto simp: lruOk_def)
  qed
qed

lemma newChunkLRU_ok: "lruOk (newChunkLRU b)"
  by (simp add: lruOk_def newChunkLRU_def lruSize_def)

lemma lruSize_delete:
  "distinct (map fst es) \<Longrightarrow> map_of es k = Some raw \<Longrightarrow>
   sum_list (map (int \<circ> length \<circ> snd) es) = int (length raw) + sum_list (map (int \<circ> length \<circ> snd) (AList.delete k es))"
proof (induction es)
  case (Cons e es)
  obtain k' v where e: "e = (k', v)" by (cases e)
  show ?case
  proof (cases "k' = k")
    case True
    then have "AList.delete k es = es" using Cons.prems(1) by (simp add: e AList.delete_idem)
    then show ?thesis using Cons.prems True by (simp add: e)
  next
    case False
    then show ?thesis using Cons by (simp add: e)
  qed
qed simp

lemma chunkGet_ok:
  assumes "lruOk c" "chunkGet cs s chunks ci c = Some (raw, c')"
  shows "lruOk c'" "cl_budget c' = cl_budget c" "set (cl_ll c') \<subseteq> insert ((sg_id s, ci), raw) (set (cl_ll c))"
proof -
  let ?k = "(sg_id s, ci)"
  have d: "distinct (map fst (cl_ll c))" "cl_used c = lruSize c" using assms(1) by (simp_all add: lruOk_def)
  have "lruOk c' \<and> cl_budget c' = cl_budget c \<and> set (cl_ll c') \<subseteq> insert (?k, raw) (set (cl_ll c))"
  proof (cases "map_of (cl_ll c) ?k")
    case (Some r)
    then have c': "raw = r" "c' = c\<lparr>cl_ll := (?k, r) # AList.delete ?k (cl_ll c)\<rparr>"
      using assms(2) by (auto simp: chunkGet_def Let_def)
    have "length (AList.delete ?k (cl_ll c)) < length (cl_ll c)"
      using map_of_SomeD [OF Some] by (auto simp: AList.delete_eq intro!: length_filter_less)
    then have "length (cl_ll c) \<le> 1 \<Longrightarrow> AList.delete ?k (cl_ll c) = []" by (cases "AList.delete ?k (cl_ll c)") auto
    then show ?thesis
      using assms(1) lruSize_delete [OF d(1) Some] d(1)
      by (auto simp: c' lruOk_def lruSize_def distinct_delete AList.delete_eq distinct_map_filter)
  next
    case None
    let ?c = "c\<lparr>cl_ll := (?k, raw) # cl_ll c, cl_used := cl_used c + int (length raw)\<rparr>"
    have c': "c' = evict ?c" using assms(2) None by (auto simp: chunkGet_def Let_def split: bind_split_asm)
    have "distinct (map fst (cl_ll ?c))" "cl_used ?c = lruSize ?c"
      using d None by (simp_all add: map_of_eq_None_iff lruSize_def)
    from evict_spec [OF this] show ?thesis by (auto simp: c')
  qed
  then show "lruOk c'" "cl_budget c' = cl_budget c" "set (cl_ll c') \<subseteq> insert (?k, raw) (set (cl_ll c))" by simp_all
qed

lemma purge_ok:
  assumes "lruOk c"
  shows "lruOk (purge i c)" "countForSeg i (purge i c) = 0" "set (cl_ll (purge i c)) = {e \<in> set (cl_ll c). fst (fst e) \<noteq> i}"
proof -
  have s: "sum_list (map f es) = sum_list (map f (filter P es)) + sum_list (map f (filter (\<lambda>x. \<not> P x) es))"
    for f :: "(chunkCacheKey \<times> bytes) \<Rightarrow> int" and P es by (induction es) auto
  have n: "0 \<le> sum_list (map (int \<circ> length \<circ> snd) es)" for es :: "(chunkCacheKey \<times> bytes) list" by (induction es) auto
  have "cl_used (purge i c) = lruSize (purge i c)"
    using assms s [of "int \<circ> length \<circ> snd" "cl_ll c" "\<lambda>e. fst (fst e) = i"] by (simp add: lruOk_def lruSize_def purge_def)
  moreover have "cl_used (purge i c) \<le> cl_used c" using n by (simp add: purge_def)
  moreover have "length (cl_ll (purge i c)) \<le> length (cl_ll c)" by (simp add: purge_def)
  moreover have "distinct (map fst (cl_ll (purge i c)))" "cl_budget (purge i c) = cl_budget c"
    using assms by (simp_all add: lruOk_def purge_def distinct_map_filter)
  ultimately show "lruOk (purge i c)" using assms unfolding lruOk_def by linarith
  show "countForSeg i (purge i c) = 0" by (simp add: countForSeg_def purge_def filter_empty_conv)
  show "set (cl_ll (purge i c)) = {e \<in> set (cl_ll c). fst (fst e) \<noteq> i}" by (auto simp: purge_def)
qed


subsection \<open>The cache does not change results\<close>

text \<open>Every cached chunk of the segment is the chunk of the file.\<close>

definition coherent :: "compressors \<Rightarrow> segment \<Rightarrow> chunkLRU \<Rightarrow> bool" where
  "coherent cs s c \<longleftrightarrow> (\<forall>ci raw chunks. ((sg_id s, ci), raw) \<in> set (cl_ll c) \<longrightarrow> ensureDictIndex s = Some chunks \<longrightarrow>
     chunkBytes cs s (chunks ! ci) = Some raw)"

lemma chunkGet_raw:
  assumes "coherent cs s c" "ensureDictIndex s = Some chunks"
  shows "map_option fst (chunkGet cs s chunks ci c) = chunkBytes cs s (chunks ! ci)"
proof (cases "map_of (cl_ll c) (sg_id s, ci)")
  case None
  then show ?thesis by (auto simp: chunkGet_def Let_def split: bind_split)
next
  case (Some raw)
  then have "chunkBytes cs s (chunks ! ci) = Some raw"
    using assms map_of_SomeD [OF Some] by (auto simp: coherent_def)
  then show ?thesis using Some by (simp add: chunkGet_def Let_def)
qed

lemma chunkGet_coherent:
  assumes "coherent cs s c" "ensureDictIndex s = Some chunks" "lruOk c" "chunkGet cs s chunks ci c = Some (raw, c')"
  shows "coherent cs s c'"
proof -
  have "chunkBytes cs s (chunks ! ci) = Some raw" using chunkGet_raw [OF assms(1,2), of ci] assms(4) by simp
  then show ?thesis using chunkGet_ok(3) [OF assms(3,4)] assms(1,2) unfolding coherent_def by auto
qed

lemma resolveChunksCached_eq:
  assumes "ensureDictIndex s = Some chunks"
  shows "coherent cs s c \<Longrightarrow> lruOk c \<Longrightarrow> resolveChunks cs s chunks m res = Some res' \<Longrightarrow>
    \<exists>c'. resolveChunksCached cs s chunks m res c = Some (res', c') \<and> coherent cs s c' \<and> lruOk c' \<and>
      cl_budget c' = cl_budget c \<and> (\<forall>e\<in>set (cl_ll c'). e \<in> set (cl_ll c) \<or> fst (fst e) = sg_id s)"
proof (induction m arbitrary: res c)
  case (Cons e m)
  obtain ci ords where e: "e = (ci, ords)" by (cases e)
  obtain raw res1 where r: "chunkBytes cs s (chunks ! ci) = Some raw"
    "chunkWords raw ords 0 (dc_firstOrd (chunks ! ci)) res = Some res1" "resolveChunks cs s chunks m res1 = Some res'"
    using Cons.prems(3) by (auto simp: e split: bind_split_asm)
  obtain c1 where g: "chunkGet cs s chunks ci c = Some (raw, c1)"
    using chunkGet_raw [OF Cons.prems(1) assms, of ci] r(1) by auto
  note ok = chunkGet_ok [OF Cons.prems(2) g] and co = chunkGet_coherent [OF Cons.prems(1) assms Cons.prems(2) g]
  from Cons.IH [OF co ok(1) r(3)] obtain c' where c': "resolveChunksCached cs s chunks m res1 c1 = Some (res', c')"
    "coherent cs s c'" "lruOk c'" "cl_budget c' = cl_budget c1" "\<forall>e\<in>set (cl_ll c'). e \<in> set (cl_ll c1) \<or> fst (fst e) = sg_id s"
    by blast
  then show ?case using g r(2) ok(2,3) by (auto simp: e)
qed auto

lemma resolveOrdsCached_eq:
  assumes "coherent cs s c" "lruOk c" "resolveOrds cs s need = Some m"
  shows "\<exists>c'. resolveOrdsCached cs s need c = Some (m, c') \<and> coherent cs s c' \<and> lruOk c' \<and>
    cl_budget c' = cl_budget c \<and> (\<forall>e\<in>set (cl_ll c'). e \<in> set (cl_ll c) \<or> fst (fst e) = sg_id s)"
proof -
  obtain chunks where ch: "ensureDictIndex s = Some chunks" "resolveChunks cs s chunks (byChunk chunks need) (\<lambda>_. None) = Some m"
    using assms(3) by (auto simp: resolveOrds_def split: bind_split_asm)
  from resolveChunksCached_eq [OF ch(1) assms(1,2) ch(2)] show ?thesis by (simp add: resolveOrdsCached_def ch(1))
qed

end
