(* ===== verification/StStore.thy ===== *)
theory StStore
  imports StMergeLayer StCache
begin

text \<open>
  The segment store (\<^verbatim>\<open>packages/core/invertedstore\<close>: \<^verbatim>\<open>store.go\<close>, \<^verbatim>\<open>manifest.go\<close>, \<^verbatim>\<open>update.go\<close>, \<^verbatim>\<open>head.go\<close>,
  \<^verbatim>\<open>spilling.go\<close> and the forward read of \<^verbatim>\<open>dictcache.go\<close>): its state, the catalog, updates, and the spill of
  a head into a segment.

  The worker goroutine is the only one that changes the store, and it holds the lock whenever a reader
  could look; so every operation here is a function from a state to the state a reader sees next. What
  runs beside the worker, the encoding of a detached head and the computation of a merge, only reads
  immutable data. The published snapshot is always the slice of segments. The disk is the MANIFEST, the
  segment files by their number and the temporary files by theirs; the MANIFEST file is the value its
  JSON encodes. A store operation that writes the MANIFEST takes the outcome of the write: it succeeded,
  it failed before the rename, or the rename took effect and the sync of the directory failed.
  Reference counts and the deferred removal of files are in \<^verbatim>\<open>StRefs\<close>. A failure to marshal the MANIFEST
  rolls back like a failed write, so it is not an outcome of its own.
\<close>

subsection \<open>State\<close>

record manifest =
  mf_FormatVersion :: int
  mf_Segments :: "segMeta list"
  mf_Tables :: "(int \<times> bytes) list"
  mf_NextTableId :: int
  mf_NextSegId :: nat

definition newManifest :: manifest where
  "newManifest = \<lparr>mf_FormatVersion = 3, mf_Segments = [], mf_Tables = [], mf_NextTableId = 1, mf_NextSegId = 1\<rparr>"

record spillEntry =
  se_tableId :: int
  se_head :: headTable
  se_tempN :: nat
  se_minDocid :: docid
  se_maxDocid :: docid

record store =
  st_opts :: storeOptions
  st_man :: manifest
  st_head :: "(int \<times> headTable) list"
  st_segs :: "segment list"
  st_spilling :: "spillEntry list"
  st_spillInFlight :: bool
  st_blockProducer :: bool
  st_spillTempCtr :: nat
  st_liveByTable :: "(int \<times> int) list"
  st_dictCache :: chunkLRU

record disk =
  dk_MANIFEST :: "manifest option"
  dk_segs :: "(nat \<times> bytes) list"
  dk_temps :: "(nat \<times> bytes) list"

datatype wresult = Written | NotRenamed | NotSynced

definition writeManifestBytes :: "wresult \<Rightarrow> manifest \<Rightarrow> disk \<Rightarrow> bool \<times> disk" where
  "writeManifestBytes r m d =
     (case r of Written \<Rightarrow> (True, d\<lparr>dk_MANIFEST := Some m\<rparr>)
      | NotRenamed \<Rightarrow> (False, d)
      | NotSynced \<Rightarrow> (False, d\<lparr>dk_MANIFEST := Some m\<rparr>))"

definition readManifest :: "disk \<Rightarrow> manifest" where
  "readManifest d = (case dk_MANIFEST d of None \<Rightarrow> newManifest | Some m \<Rightarrow> m)"

subsection \<open>The catalog\<close>

definition tableInfo :: "store \<Rightarrow> int \<Rightarrow> bytes option" where
  "tableInfo s tableId = map_of (mf_Tables (st_man s)) tableId"

definition CreateTable_st :: "wresult \<Rightarrow> bytes \<Rightarrow> store \<times> disk \<Rightarrow> int \<times> bool \<times> store \<times> disk" where
  "CreateTable_st r description sd =
     (case sd of (s, d) \<Rightarrow>
        let i = mf_NextTableId (st_man s);
            m = (st_man s)\<lparr>mf_NextTableId := i + 1, mf_Tables := AList.update i description (mf_Tables (st_man s))\<rparr>;
            (ok, d') = writeManifestBytes r m d
        in (i, ok, s\<lparr>st_man := m\<rparr>, d'))"

definition DeleteTable_st :: "wresult \<Rightarrow> int \<Rightarrow> store \<times> disk \<Rightarrow> bool \<times> store \<times> disk" where
  "DeleteTable_st r tableId sd =
     (case sd of (s, d) \<Rightarrow>
        let m = (st_man s)\<lparr>mf_Tables := AList.delete tableId (mf_Tables (st_man s))\<rparr>;
            s' = s\<lparr>st_man := m, st_head := AList.delete tableId (st_head s),
                   st_liveByTable := AList.delete tableId (st_liveByTable s)\<rparr>;
            (ok, d') = writeManifestBytes r m d
        in (ok, s', d'))"

subsection \<open>Reading the keywords of a document\<close>

text \<open>A decision on a document: deleted, or its keywords.\<close>

definition forwardAnswer :: "bytes list option \<Rightarrow> bytes list \<times> bool" where
  "forwardAnswer x = (case x of None \<Rightarrow> ([], True) | Some w \<Rightarrow> (w, False))"

fun spillingForward :: "int \<Rightarrow> docid \<Rightarrow> spillEntry list \<Rightarrow> bytes list option option" where
  "spillingForward tableId docid [] = None"
| "spillingForward tableId docid (e # es) =
     (if se_tableId e \<noteq> tableId then spillingForward tableId docid es
      else case headForwardLookup (Some (se_head e)) docid of
             Some r \<Rightarrow> Some r | None \<Rightarrow> spillingForward tableId docid es)"

fun lookupAll :: "(ord \<Rightarrow> bytes option) \<Rightarrow> ord list \<Rightarrow> bytes list option" where
  "lookupAll res [] = Some []"
| "lookupAll res (o' # os) = do { w \<leftarrow> res o'; ws \<leftarrow> lookupAll res os; Some (w # ws) }"

fun segmentsForward ::
  "compressors \<Rightarrow> tid \<Rightarrow> docid \<Rightarrow> segment list \<Rightarrow> chunkLRU \<Rightarrow> ((bytes list \<times> bool) \<times> chunkLRU) option" where
  "segmentsForward cs t docid [] c = Some (([], False), c)"
| "segmentsForward cs t docid (seg # segs) c =
     (if \<not> coversDocid seg docid then segmentsForward cs t docid segs c
      else do {
        found \<leftarrow> lookupForward cs seg (forwardKey t docid);
        case found of
          None \<Rightarrow> segmentsForward cs t docid segs c
        | Some val \<Rightarrow>
            do {
              (ords, del) \<leftarrow> decodeForward val;
              if del then Some (([], True), c)
              else do {
                (res, c') \<leftarrow> resolveOrdsCached cs seg (remdups ords) c;
                out \<leftarrow> lookupAll res ords;
                Some ((out, False), c')
              }
            }
      })"

definition forwardKeywords :: "compressors \<Rightarrow> int \<Rightarrow> docid \<Rightarrow> store \<Rightarrow> ((bytes list \<times> bool) \<times> store) option" where
  "forwardKeywords cs tableId docid s =
     (case headForwardLookup (map_of (st_head s) tableId) docid of
        Some r \<Rightarrow> Some (forwardAnswer r, s)
      | None \<Rightarrow>
          (case spillingForward tableId docid (rev (st_spilling s)) of
             Some r \<Rightarrow> Some (forwardAnswer r, s)
           | None \<Rightarrow>
               do {
                 (ans, c) \<leftarrow> segmentsForward cs (word_of_int tableId) docid (rev (st_segs s)) (st_dictCache s);
                 Some (ans, s\<lparr>st_dictCache := c\<rparr>)
               }))"

subsection \<open>Updates\<close>

record updateOp =
  uo_tableId :: int
  uo_docid :: docid
  uo_keywords :: "bytes list"

definition distinctStrings :: "bytes list \<Rightarrow> int" where
  "distinctStrings ss = int (length (remdups ss))"

text \<open>Both callers detach the head of a table that has one.\<close>

definition detachHeadLocked :: "int \<Rightarrow> store \<Rightarrow> spillEntry \<times> store" where
  "detachHeadLocked tableId s =
     (let h = (case map_of (st_head s) tableId of None \<Rightarrow> newHeadTable | Some h \<Rightarrow> h);
          (mn, mx) = headForwardRange h;
          n = st_spillTempCtr s + 1;
          e = \<lparr>se_tableId = tableId, se_head = h, se_tempN = n, se_minDocid = mn, se_maxDocid = mx\<rparr>
      in (e, s\<lparr>st_head := AList.update tableId newHeadTable (st_head s), st_spillTempCtr := n,
               st_spilling := st_spilling s @ [e], st_spillInFlight := True\<rparr>))"

text \<open>One update against the keywords the document had. The head is detached when it is over the
  capacity and no spill is in flight; the result says whether an encoding is to be started.\<close>

definition applyOneOp :: "updateOp \<Rightarrow> bytes list \<Rightarrow> store \<Rightarrow> spillEntry option \<times> store" where
  "applyOneOp op old s =
     (let t = uo_tableId op;
          h = (case map_of (st_head s) t of None \<Rightarrow> newHeadTable | Some h \<Rightarrow> h);
          oldN = distinctStrings old;
          h' = repost (uo_docid op) (uo_keywords op) old h;
          live = (case map_of (st_liveByTable s) t of None \<Rightarrow> 0 | Some n \<Rightarrow> n);
          live' = (if uo_keywords op = [] then live - oldN
                   else live + (int (length (remdups (uo_keywords op))) - oldN));
          s' = s\<lparr>st_head := AList.update t h' (st_head s), st_liveByTable := AList.update t live' (st_liveByTable s)\<rparr>
      in if o_CapBytes (st_opts s) \<le> h_bytes h' then
           if \<not> st_spillInFlight s' then case detachHeadLocked t s' of (e, s'') \<Rightarrow> (Some e, s'')
           else (None, s'\<lparr>st_blockProducer := True\<rparr>)
         else (None, s'))"

text \<open>The loop of a batch; \<open>seen\<close> has the keywords the documents were left with by earlier operations
  of the batch.\<close>

fun applyOps ::
  "compressors \<Rightarrow> updateOp list \<Rightarrow> ((int \<times> docid) \<times> bytes list) list \<Rightarrow> store \<Rightarrow> (spillEntry list \<times> store) option" where
  "applyOps cs [] seen s = Some ([], s)"
| "applyOps cs (op # ops) seen s =
     (let key = (uo_tableId op, uo_docid op) in
      do {
        (old, s1) \<leftarrow> (case map_of seen key of Some w \<Rightarrow> Some (w, s)
                      | None \<Rightarrow> map_option (\<lambda>((w, _), s'). (w, s')) (forwardKeywords cs (uo_tableId op) (uo_docid op) s));
        let (e, s2) = applyOneOp op old s1;
        (es, s3) \<leftarrow> applyOps cs ops (AList.update key (uo_keywords op) seen) s2;
        Some ((case e of None \<Rightarrow> es | Some x \<Rightarrow> x # es), s3)
      })"

definition applyBatch :: "compressors \<Rightarrow> updateOp list \<Rightarrow> store \<Rightarrow> (spillEntry list \<times> store) option" where
  "applyBatch cs ops s =
     (case ops of
        [op] \<Rightarrow>
          do {
            ((old, _), s1) \<leftarrow> forwardKeywords cs (uo_tableId op) (uo_docid op) s;
            let (e, s2) = applyOneOp op old s1;
            Some (case e of None \<Rightarrow> [] | Some x \<Rightarrow> [x], s2)
          }
      | _ \<Rightarrow> applyOps cs ops [] s)"

subsection \<open>Spilling a detached head\<close>

definition spillSegMeta :: "storeOptions \<Rightarrow> spillResult \<Rightarrow> nat \<Rightarrow> int \<Rightarrow> segMeta" where
  "spillSegMeta o' r i tableId =
     \<lparr>sm_Id = i, sm_Level = 0, sm_DataCodec = o_DataCodecL0 o', sm_DictCodec = o_DictCodec o',
      sm_MinTable = word_of_int tableId, sm_MaxTable = word_of_int tableId, sm_Size = int (length (sg_file (sr_seg r))),
      sm_Postings = sr_postings r, sm_MinDocid = sr_minD r, sm_MaxDocid = sr_maxD r\<rparr>"

definition spilledSegment :: "spillResult \<Rightarrow> nat \<Rightarrow> segment" where
  "spilledSegment r i = (sr_seg r)\<lparr>sg_id := i, sg_minDocid := sr_minD r, sg_maxDocid := sr_maxD r\<rparr>"

text \<open>Encoding runs beside the worker and writes the temporary file.\<close>

definition encodeSpill :: "compressors \<Rightarrow> storeOptions \<Rightarrow> spillEntry \<Rightarrow> disk \<Rightarrow> (spillResult \<times> disk) option" where
  "encodeSpill cs o' e d =
     map_option (\<lambda>r. (r, d\<lparr>dk_temps := AList.update (se_tempN e) (sg_file (sr_seg r)) (dk_temps d)\<rparr>))
       (encodeHeadToFile cs o' (se_head e) (se_tableId e))"

definition sortSegmentsById :: "segment list \<Rightarrow> segment list" where
  "sortSegmentsById segs = sort_key sg_id segs"

definition removeSpillingLocked :: "spillEntry \<Rightarrow> store \<Rightarrow> store" where
  "removeSpillingLocked e s = s\<lparr>st_spilling := remove1 e (st_spilling s)\<rparr>"

definition clearBlockProducerLocked :: "store \<Rightarrow> store" where
  "clearBlockProducerLocked s = s\<lparr>st_blockProducer := False\<rparr>"

text \<open>Go visits the heads in an order of its own; \<open>iter\<close> is that order.\<close>

definition findOverCapHeadLocked ::
  "((int \<times> headTable) list \<Rightarrow> (int \<times> headTable) list) \<Rightarrow> store \<Rightarrow> spillEntry option \<times> store" where
  "findOverCapHeadLocked iter s =
     (if st_spillInFlight s then (None, s)
      else case find (\<lambda>(t, h). o_CapBytes (st_opts s) \<le> h_bytes h) (iter (st_head s)) of
             None \<Rightarrow> (None, s)
           | Some (t, h) \<Rightarrow> (case detachHeadLocked t s of (e, s') \<Rightarrow> (Some e, s')))"

definition appendSegment :: "segMeta \<Rightarrow> manifest \<Rightarrow> manifest" where
  "appendSegment sm m = m\<lparr>mf_Segments := mf_Segments m @ [sm], mf_NextSegId := mf_NextSegId m + 1\<rparr>"

text \<open>The file is renamed to its final name, the MANIFEST rewritten, and the segment published before the
  entry is removed. When the MANIFEST cannot be written the file gets its temporary name back.\<close>

definition installSpill ::
  "((int \<times> headTable) list \<Rightarrow> (int \<times> headTable) list) \<Rightarrow> bool \<Rightarrow> wresult \<Rightarrow> spillEntry \<Rightarrow> spillResult \<Rightarrow> store \<times> disk \<Rightarrow>
   bool \<times> spillEntry option \<times> store \<times> disk" where
  "installSpill iter renameOk r e res sd =
     (case sd of (s, d) \<Rightarrow>
        if \<not> renameOk then (False, None, s, d)
        else
          let i = mf_NextSegId (st_man s);
              seg = spilledSegment res i;
              m = appendSegment (spillSegMeta (st_opts s) res i (se_tableId e)) (st_man s);
              d1 = d\<lparr>dk_temps := AList.delete (se_tempN e) (dk_temps d),
                     dk_segs := AList.update i (sg_file seg) (dk_segs d)\<rparr>;
              (ok, d2) = writeManifestBytes r m d1
          in if \<not> ok
             then (False, None, s, d2\<lparr>dk_temps := AList.update (se_tempN e) (sg_file seg) (dk_temps d2),
                                      dk_segs := AList.delete i (dk_segs d2)\<rparr>)
             else
               let s1 = s\<lparr>st_man := m, st_segs := sortSegmentsById (st_segs s @ [seg])\<rparr>;
                   s2 = (removeSpillingLocked e s1)\<lparr>st_spillInFlight := False\<rparr>;
                   (nxt, s3) = findOverCapHeadLocked iter (clearBlockProducerLocked s2)
               in (True, nxt, s3, d2))"

text \<open>After the last failed attempt the detached head is dropped.\<close>

definition giveUpSpill ::
  "((int \<times> headTable) list \<Rightarrow> (int \<times> headTable) list) \<Rightarrow> spillEntry \<Rightarrow> store \<times> disk \<Rightarrow> spillEntry option \<times> store \<times> disk" where
  "giveUpSpill iter e sd =
     (case sd of (s, d) \<Rightarrow>
        let d' = d\<lparr>dk_temps := AList.delete (se_tempN e) (dk_temps d)\<rparr>;
            s1 = (removeSpillingLocked e s)\<lparr>st_spillInFlight := False\<rparr>;
            (nxt, s2) = findOverCapHeadLocked iter (clearBlockProducerLocked s1)
        in (nxt, s2, d'))"

text \<open>The spill of a close: encode and install in one task of the worker.\<close>

definition spill :: "compressors \<Rightarrow> wresult \<Rightarrow> int \<Rightarrow> store \<times> disk \<Rightarrow> (bool \<times> store \<times> disk) option" where
  "spill cs r tableId sd =
     (case sd of (s, d) \<Rightarrow>
        case map_of (st_head s) tableId of
          None \<Rightarrow> Some (True, s, d)
        | Some h \<Rightarrow>
            if headEmpty h then Some (True, s, d)
            else
              do {
                res \<leftarrow> encodeHeadToFile cs (st_opts s) h tableId;
                let i = mf_NextSegId (st_man s);
                let seg = spilledSegment res i;
                let m = appendSegment (spillSegMeta (st_opts s) res i tableId) (st_man s);
                let (ok, d') = writeManifestBytes r m (d\<lparr>dk_segs := AList.update i (sg_file seg) (dk_segs d)\<rparr>);
                Some (if ok
                      then (True, s\<lparr>st_man := m, st_segs := st_segs s @ [seg],
                                    st_head := AList.update tableId newHeadTable (st_head s)\<rparr>, d')
                      else (False, s, d'))
              })"

end
