(* ===== verification/StRefs.thy ===== *)
theory StRefs
  imports StStore
begin

text \<open>
  Reference counts of segments (concurrency.go). The published snapshot holds one reference to each
  of its segments, every reader and every merge plan one more for as long as it runs. A segment that
  leaves the live set is retired: its descriptor is closed, and its file removed, by whoever drops
  the last reference.

  The steps are the atomic actions of the code. A reader acquires a snapshot under the lock but
  releases its segments one by one and at any time, and the worker publishes the new snapshot before
  it retires the segments it dropped, one by one. The invariant gives that nobody ever holds a
  segment whose descriptor is closed, and that nothing is leaked.
\<close>

subsection \<open>Operations\<close>

record segRef =
  r_refs :: int
  r_retired :: bool
  r_keepFile :: bool
  r_tornDown :: bool
  r_open :: bool
  r_file :: bool

definition teardown :: "segRef \<Rightarrow> segRef" where
  "teardown g = (if r_tornDown g then g
     else let g' = g\<lparr>r_tornDown := True, r_open := False\<rparr> in if r_keepFile g' then g' else g'\<lparr>r_file := False\<rparr>)"

definition segRelease :: "segRef \<Rightarrow> segRef" where
  "segRelease g = (let g' = g\<lparr>r_refs := r_refs g - 1\<rparr> in if r_refs g' = 0 \<and> r_retired g' then teardown g' else g')"

definition retire :: "segRef \<Rightarrow> segRef" where
  "retire g = (let g' = g\<lparr>r_retired := True, r_refs := r_refs g - 1\<rparr> in if r_refs g' = 0 then teardown g' else g')"

definition retireKeepFile :: "segRef \<Rightarrow> segRef" where
  "retireKeepFile g =
     (let g' = g\<lparr>r_keepFile := True, r_retired := True, r_refs := r_refs g - 1\<rparr> in if r_refs g' = 0 then teardown g' else g')"

record snapState =
  sn_ref :: "nat \<Rightarrow> segRef"
  sn_segs :: "nat list"
  sn_snap :: "nat list"

definition publishSnapshotLocked :: "snapState \<Rightarrow> snapState" where
  "publishSnapshotLocked s = s\<lparr>sn_snap := sn_segs s\<rparr>"

definition addRef :: "nat \<Rightarrow> snapState \<Rightarrow> snapState" where
  "addRef i s = s\<lparr>sn_ref := (sn_ref s)(i := (sn_ref s i)\<lparr>r_refs := r_refs (sn_ref s i) + 1\<rparr>)\<rparr>"

definition acquireSnapshotLocked :: "snapState \<Rightarrow> nat list \<times> snapState" where
  "acquireSnapshotLocked s = (let segs = sn_snap s in (segs, fold addRef segs s))"

definition segsByIdsLocked :: "nat list \<Rightarrow> snapState \<Rightarrow> nat list \<times> snapState" where
  "segsByIdsLocked ids s = (let out = filter (\<lambda>i. i \<in> set ids) (sn_segs s) in (sort out, fold addRef out s))"

definition releaseOne :: "nat \<Rightarrow> snapState \<Rightarrow> snapState" where
  "releaseOne i s = s\<lparr>sn_ref := (sn_ref s)(i := segRelease (sn_ref s i))\<rparr>"

definition releaseSnapshot :: "nat list \<Rightarrow> snapState \<Rightarrow> snapState" where
  "releaseSnapshot segs s = fold releaseOne segs s"

text \<open>The references of an installation: the new segment gets the published one, the snapshot is
  replaced, and what it no longer has is to be retired.\<close>

definition newRef :: segRef where
  "newRef = \<lparr>r_refs = 1, r_retired = False, r_keepFile = False, r_tornDown = False, r_open = True, r_file = True\<rparr>"

definition swapSegs :: "nat list \<Rightarrow> nat \<Rightarrow> snapState \<Rightarrow> nat list \<times> snapState" where
  "swapSegs inputIds out s =
     (let retired = filter (\<lambda>i. i \<in> set inputIds) (sn_segs s);
          live = sort (filter (\<lambda>i. i \<notin> set inputIds) (sn_segs s) @ [out])
      in (retired, publishSnapshotLocked (s\<lparr>sn_ref := (sn_ref s)(out := newRef), sn_segs := live\<rparr>)))"

definition closeSegs :: "snapState \<Rightarrow> nat list \<times> snapState" where
  "closeSegs s = (sn_segs s, s\<lparr>sn_segs := [], sn_snap := []\<rparr>)"

definition retireOne :: "bool \<Rightarrow> nat \<Rightarrow> snapState \<Rightarrow> snapState" where
  "retireOne keep i s = s\<lparr>sn_ref := (sn_ref s)(i := (if keep then retireKeepFile else retire) (sn_ref s i))\<rparr>"

subsection \<open>Steps\<close>

text \<open>The state of all goroutines: what the readers and merge plans still hold, what the worker has
  still to retire, and the ids used so far.\<close>

record refSys =
  y_snap :: snapState
  y_held :: "nat list list"
  y_pending :: "(bool \<times> nat) list"
  y_used :: "nat set"

inductive refStep :: "refSys \<Rightarrow> refSys \<Rightarrow> bool" where
  acquire: "acquireSnapshotLocked (y_snap y) = (segs, s') \<Longrightarrow> refStep y (y\<lparr>y_snap := s', y_held := segs # y_held y\<rparr>)"
| plan: "segsByIdsLocked ids (y_snap y) = (segs, s') \<Longrightarrow> refStep y (y\<lparr>y_snap := s', y_held := segs # y_held y\<rparr>)"
| release: "y_held y = hs1 @ (is1 @ i # is2) # hs2 \<Longrightarrow>
    refStep y (y\<lparr>y_snap := releaseOne i (y_snap y), y_held := hs1 @ (is1 @ is2) # hs2\<rparr>)"
| swap: "y_pending y = [] \<Longrightarrow> out \<notin> y_used y \<Longrightarrow> swapSegs inputIds out (y_snap y) = (retired, s') \<Longrightarrow>
    refStep y (y\<lparr>y_snap := s', y_pending := map (Pair False) retired, y_used := insert out (y_used y)\<rparr>)"
| close: "y_pending y = [] \<Longrightarrow> closeSegs (y_snap y) = (segs, s') \<Longrightarrow>
    refStep y (y\<lparr>y_snap := s', y_pending := map (Pair True) segs\<rparr>)"
| retires: "y_pending y = (keep, i) # ps \<Longrightarrow> refStep y (y\<lparr>y_snap := retireOne keep i (y_snap y), y_pending := ps\<rparr>)"

definition refStart :: refSys where
  "refStart = \<lparr>y_snap = \<lparr>sn_ref = (\<lambda>_. newRef\<lparr>r_refs := 0\<rparr>), sn_segs = [], sn_snap = []\<rparr>, y_held = [], y_pending = [], y_used = {}\<rparr>"

inductive refReach :: "refSys \<Rightarrow> bool" where
  "refReach refStart"
| "refReach y \<Longrightarrow> refStep y y' \<Longrightarrow> refReach y'"

subsection \<open>The invariant\<close>

text \<open>Who refers to a segment.\<close>

definition heldCount :: "nat \<Rightarrow> refSys \<Rightarrow> nat" where
  "heldCount i y = sum_list (map (\<lambda>h. count_list h i) (y_held y))"

definition ownCount :: "nat \<Rightarrow> refSys \<Rightarrow> nat" where
  "ownCount i y = count_list (sn_segs (y_snap y)) i + count_list (map snd (y_pending y)) i"

definition refOk :: "nat \<Rightarrow> nat \<Rightarrow> bool \<Rightarrow> segRef \<Rightarrow> bool" where
  "refOk own held used g \<longleftrightarrow> r_refs g = int (own + held) \<and> own \<le> 1 \<and>
     (r_tornDown g \<longleftrightarrow> r_retired g \<and> own + held = 0) \<and> (r_open g \<longleftrightarrow> \<not> r_tornDown g) \<and> (r_file g \<longleftrightarrow> r_open g \<or> r_keepFile g) \<and>
     (if used then r_retired g \<longleftrightarrow> own = 0 else own + held = 0 \<and> \<not> r_retired g)"

lemma refOk_addRef: "refOk own held u g \<Longrightarrow> 0 < n \<longrightarrow> 0 < own \<Longrightarrow> refOk own (n + held) u (g\<lparr>r_refs := r_refs g + int n\<rparr>)"
  by (cases u) (auto simp: refOk_def)

lemma refOk_release: "refOk own (Suc held) u g \<Longrightarrow> refOk own held u (segRelease g)"
  by (cases "own + held = 0"; cases u) (auto simp: refOk_def segRelease_def teardown_def Let_def)

lemma refOk_retire: "refOk (Suc own) held u g \<Longrightarrow> refOk own held u ((if keep then retireKeepFile else retire) g)"
  by (cases "own + held = 0"; cases u; cases keep) (auto simp: refOk_def retire_def retireKeepFile_def teardown_def Let_def)

definition refsOk :: "refSys \<Rightarrow> bool" where
  "refsOk y \<longleftrightarrow> sn_snap (y_snap y) = sn_segs (y_snap y) \<and> 
     (\<forall>i. refOk (ownCount i y) (heldCount i y) (i \<in> y_used y) (sn_ref (y_snap y) i))"

lemma addRefs_ref:
  "sn_ref (fold addRef is s) i = (sn_ref s i)\<lparr>r_refs := r_refs (sn_ref s i) + int (count_list is i)\<rparr>"
  "sn_segs (fold addRef is s) = sn_segs s" "sn_snap (fold addRef is s) = sn_snap s"
  by (induction "is" arbitrary: s) (simp_all add: addRef_def)

lemma count_list_sort [simp]: "count_list (sort xs) (x :: nat) = count_list xs x"
  by (simp add: count_list_eq_length_filter filter_sort)

lemma count_list_filter_if: "count_list (filter P xs) x = (if P x then count_list xs x else 0)"
  by (induction xs) auto

lemma refsOkI:
  "sn_snap (y_snap y) = sn_segs (y_snap y) \<Longrightarrow> (\<And>i. refOk (ownCount i y) (heldCount i y) (i \<in> y_used y) (sn_ref (y_snap y) i)) \<Longrightarrow> refsOk y"
  by (simp add: refsOk_def)

lemma acquire_ok:
  assumes "refsOk y" "segs = sort out \<or> segs = out" "\<forall>i. count_list out i \<le> count_list (sn_segs (y_snap y)) i"
  shows "refsOk (y\<lparr>y_snap := fold addRef out (y_snap y), y_held := segs # y_held y\<rparr>)"
proof (rule refsOkI)
  let ?y = "y\<lparr>y_snap := fold addRef out (y_snap y), y_held := segs # y_held y\<rparr>"
  show "sn_snap (y_snap ?y) = sn_segs (y_snap ?y)" using assms(1) by (simp add: refsOk_def addRefs_ref)
  fix i
  have h: "heldCount i ?y = count_list out i + heldCount i y" using assms(2) by (auto simp: heldCount_def)
  have o: "ownCount i ?y = ownCount i y" by (simp add: ownCount_def addRefs_ref)
  have "count_list out i \<le> ownCount i y" using assms(3) [rule_format, of i] by (simp add: ownCount_def)
  moreover have "refOk (ownCount i y) (heldCount i y) (i \<in> y_used y) (sn_ref (y_snap y) i)" using assms(1) by (simp add: refsOk_def)
  ultimately show "refOk (ownCount i ?y) (heldCount i ?y) (i \<in> y_used ?y) (sn_ref (y_snap ?y) i)"
    unfolding h o using refOk_addRef by (simp add: addRefs_ref)
qed

lemma release_ok:
  assumes "refsOk y" "y_held y = hs1 @ (is1 @ i # is2) # hs2"
  shows "refsOk (y\<lparr>y_snap := releaseOne i (y_snap y), y_held := hs1 @ (is1 @ is2) # hs2\<rparr>)"
proof (rule refsOkI)
  let ?y = "y\<lparr>y_snap := releaseOne i (y_snap y), y_held := hs1 @ (is1 @ is2) # hs2\<rparr>"
  show "sn_snap (y_snap ?y) = sn_segs (y_snap ?y)" using assms(1) by (simp add: refsOk_def releaseOne_def)
  fix j
  have h: "heldCount j y = (if j = i then Suc (heldCount j ?y) else heldCount j ?y)" using assms(2) by (simp add: heldCount_def)
  have o: "ownCount j ?y = ownCount j y" by (simp add: ownCount_def releaseOne_def)
  have "refOk (ownCount j y) (heldCount j y) (j \<in> y_used y) (sn_ref (y_snap y) j)" using assms(1) by (simp add: refsOk_def)
  then show "refOk (ownCount j ?y) (heldCount j ?y) (j \<in> y_used ?y) (sn_ref (y_snap ?y) j)"
    unfolding o h by (cases "j = i") (simp_all add: refOk_release releaseOne_def)
qed

lemma retire_ok:
  assumes "refsOk y" "y_pending y = (keep, i) # ps"
  shows "refsOk (y\<lparr>y_snap := retireOne keep i (y_snap y), y_pending := ps\<rparr>)"
proof (rule refsOkI)
  let ?y = "y\<lparr>y_snap := retireOne keep i (y_snap y), y_pending := ps\<rparr>"
  show "sn_snap (y_snap ?y) = sn_segs (y_snap ?y)" using assms(1) by (simp add: refsOk_def retireOne_def)
  fix j
  have o: "ownCount j y = (if j = i then Suc (ownCount j ?y) else ownCount j ?y)" using assms(2) by (simp add: ownCount_def retireOne_def)
  have h: "heldCount j ?y = heldCount j y" by (simp add: heldCount_def)
  have "refOk (ownCount j y) (heldCount j y) (j \<in> y_used y) (sn_ref (y_snap y) j)" using assms(1) by (simp add: refsOk_def)
  then show "refOk (ownCount j ?y) (heldCount j ?y) (j \<in> y_used ?y) (sn_ref (y_snap ?y) j)"
    unfolding o h using refOk_retire [of "ownCount j ?y" _ _ _ keep] by (cases "j = i") (simp_all add: retireOne_def)
qed

lemma swap_ok:
  assumes y: "refsOk y" "y_pending y = []" "out \<notin> y_used y" "swapSegs inputIds out (y_snap y) = (retired, s')"
  shows "refsOk (y\<lparr>y_snap := s', y_pending := map (Pair False) retired, y_used := insert out (y_used y)\<rparr>)"
proof (rule refsOkI)
  let ?y = "y\<lparr>y_snap := s', y_pending := map (Pair False) retired, y_used := insert out (y_used y)\<rparr>"
  have s': "sn_segs s' = sort (filter (\<lambda>i. i \<notin> set inputIds) (sn_segs (y_snap y)) @ [out])" "sn_snap s' = sn_segs s'"
    "sn_ref s' = (sn_ref (y_snap y))(out := newRef)" "retired = filter (\<lambda>i. i \<in> set inputIds) (sn_segs (y_snap y))"
    using y(4) by (auto simp: swapSegs_def Let_def publishSnapshotLocked_def)
  show "sn_snap (y_snap ?y) = sn_segs (y_snap ?y)" by (simp add: s'(2))
  fix j
  have k: "refOk (ownCount j y) (heldCount j y) (j \<in> y_used y) (sn_ref (y_snap y) j)" using y(1) by (simp add: refsOk_def)
  have o: "ownCount j ?y = ownCount j y + (if j = out then 1 else 0)"
    using y(2) by (simp add: ownCount_def s'(1,4) count_list_filter_if comp_def)
  have h: "heldCount j ?y = heldCount j y" by (simp add: heldCount_def)
  show "refOk (ownCount j ?y) (heldCount j ?y) (j \<in> y_used ?y) (sn_ref (y_snap ?y) j)"
  proof (cases "j = out")
    case True
    then have "ownCount j y = 0" "heldCount j y = 0" using k y(3) by (simp_all add: refOk_def)
    then show ?thesis unfolding o h using True by (simp add: s'(3) refOk_def newRef_def)
  next
    case False
    then show ?thesis unfolding o h using k by (simp add: s'(3))
  qed
qed

lemma close_segs_ok:
  assumes y: "refsOk y" "y_pending y = []" "closeSegs (y_snap y) = (segs, s')"
  shows "refsOk (y\<lparr>y_snap := s', y_pending := map (Pair True) segs\<rparr>)"
proof (rule refsOkI)
  let ?y = "y\<lparr>y_snap := s', y_pending := map (Pair True) segs\<rparr>"
  have s': "s' = (y_snap y)\<lparr>sn_segs := [], sn_snap := []\<rparr>" "segs = sn_segs (y_snap y)" using y(3) by (simp_all add: closeSegs_def)
  show "sn_snap (y_snap ?y) = sn_segs (y_snap ?y)" by (simp add: s')
  fix j
  have "ownCount j ?y = ownCount j y" using y(2) by (simp add: ownCount_def s' comp_def)
  moreover have "heldCount j ?y = heldCount j y" by (simp add: heldCount_def)
  moreover have "refOk (ownCount j y) (heldCount j y) (j \<in> y_used y) (sn_ref (y_snap y) j)" using y(1) by (simp add: refsOk_def)
  ultimately show "refOk (ownCount j ?y) (heldCount j ?y) (j \<in> y_used ?y) (sn_ref (y_snap ?y) j)" by (simp add: s')
qed

lemma refStep_ok: "refStep y y' \<Longrightarrow> refsOk y \<Longrightarrow> refsOk y'"
proof (induction rule: refStep.induct)
  case (acquire y segs s')
  then show ?case using acquire_ok [of y segs "sn_snap (y_snap y)"] by (auto simp: acquireSnapshotLocked_def refsOk_def Let_def)
next
  case (plan ids y segs s')
  have "\<forall>i. count_list (filter (\<lambda>i. i \<in> set ids) (sn_segs (y_snap y))) i \<le> count_list (sn_segs (y_snap y)) i"
    by (simp add: count_list_filter_if)
  then show ?case using plan acquire_ok [of y segs "filter (\<lambda>i. i \<in> set ids) (sn_segs (y_snap y))"]
    by (auto simp: segsByIdsLocked_def Let_def)
qed (simp_all add: release_ok swap_ok close_segs_ok retire_ok)

lemma refReach_ok: "refReach y \<Longrightarrow> refsOk y"
proof (induction rule: refReach.induct)
  case 1
  show ?case by (simp add: refsOk_def refOk_def refStart_def ownCount_def heldCount_def newRef_def)
qed (rule refStep_ok)

lemma heldCount_0: "heldCount i y = 0 \<longleftrightarrow> (\<forall>h\<in>set (y_held y). i \<notin> set h)"
  by (simp add: heldCount_def sum_list_eq_0_iff count_list_0_iff)

lemma example_refs:
  "\<exists>y. refReach y \<and> sn_snap (y_snap y) = [2] \<and> y_held y = [[1]] \<and> y_pending y = [] \<and> y_used y = {1, 2}"
proof -
  have 1: "refReach refStart" by (rule refReach.intros)
  obtain s1 where s1: "swapSegs [] 1 (y_snap refStart) = ([], s1)" "sn_segs s1 = [1]" "sn_snap s1 = [1]"
    by (simp add: swapSegs_def Let_def refStart_def publishSnapshotLocked_def)
  define y1 where "y1 = refStart\<lparr>y_snap := s1, y_pending := [], y_used := {1}\<rparr>"
  have 2: "refReach y1" using refReach.intros(2) [OF 1 refStep.swap [OF _ _ s1(1)]] by (simp add: refStart_def y1_def)
  obtain s2 where s2: "acquireSnapshotLocked (y_snap y1) = ([1], s2)" "sn_segs s2 = [1]" "sn_snap s2 = [1]"
    using s1 by (simp add: acquireSnapshotLocked_def y1_def addRef_def)
  define y2 where "y2 = y1\<lparr>y_snap := s2, y_held := [[1]]\<rparr>"
  have 3: "refReach y2" using refReach.intros(2) [OF 2 refStep.acquire [OF s2(1)]] by (simp add: y1_def y2_def refStart_def)
  obtain s3 where s3: "swapSegs [1] 2 (y_snap y2) = ([1], s3)" "sn_snap s3 = [2]"
    using s2 by (simp add: swapSegs_def Let_def y2_def publishSnapshotLocked_def)
  define y3 where "y3 = y2\<lparr>y_snap := s3, y_pending := [(False, 1)], y_used := {1, 2}\<rparr>"
  have 4: "refReach y3" using refReach.intros(2) [OF 3 refStep.swap [OF _ _ s3(1)]]
    by (simp add: y1_def y2_def y3_def refStart_def insert_commute)
  have "refReach (y3\<lparr>y_snap := retireOne False 1 s3, y_pending := []\<rparr>)"
    using refReach.intros(2) [OF 4 refStep.retires [of y3 False 1 "[]"]] by (simp add: y3_def)
  then show ?thesis using s3(2)
    by (intro exI [of _ "y3\<lparr>y_snap := retireOne False 1 s3, y_pending := []\<rparr>"]) (simp add: y3_def y2_def retireOne_def)
qed



end
