(* ===== verification/StCompact.thy ===== *)
theory StCompact
  imports StStore
begin

text \<open>
  Merging, opening and closing the segment store (\<^verbatim>\<open>packages/core/invertedstore\<close>: the scheduling half of
  \<^verbatim>\<open>merge.go\<close>, \<^verbatim>\<open>store.go\<close>, the recomputations of \<^verbatim>\<open>reconcile.go\<close>). A merge is planned on the worker,
  computed beside it and installed on the worker; a plan holds the segments it read. Input files are
  unlinked when the last reader lets go of them: the argument \<open>held\<close> of an installation are the inputs
  that a reader still has.

  The fraction of dead postings is compared with its threshold in exact arithmetic, where Go divides
  floating-point numbers.
\<close>

subsection \<open>Plans\<close>

record mergePlan =
  mp_inputIds :: "nat list"
  mp_segs :: "segment list"
  mp_outId :: nat
  mp_level :: int
  mp_dataCodec :: char
  mp_covering :: bool
  mp_liveTables :: "int list option"

definition metasAt :: "segMeta list \<Rightarrow> int \<Rightarrow> segMeta list" where
  "metasAt sms l = filter (\<lambda>sm. sm_Level sm = l) sms"

definition sortSegMetasById :: "segMeta list \<Rightarrow> segMeta list" where
  "sortSegMetasById metas = sort_key sm_Id metas"

definition pickLowestQualifyingLevelLocked :: "store \<Rightarrow> (int \<times> segMeta list) option" where
  "pickLowestQualifyingLevelLocked s =
     (let sms = mf_Segments (st_man s); maxL = fold (\<lambda>sm m. max m (sm_Level sm)) sms 0 in
      case find (\<lambda>l. o_Fanout (st_opts s) \<le> int (length (metasAt sms l))) [0..maxL] of
        None \<Rightarrow> None
      | Some l \<Rightarrow> Some (l, sortSegMetasById (metasAt sms l)))"

definition segsByIds :: "nat list \<Rightarrow> store \<Rightarrow> segment list" where
  "segsByIds ids s = sort_key sg_id (filter (\<lambda>seg. sg_id seg \<in> set ids) (st_segs s))"

definition nextSegId :: "store \<Rightarrow> nat \<times> store" where
  "nextSegId s = (let i = mf_NextSegId (st_man s) in (i, s\<lparr>st_man := (st_man s)\<lparr>mf_NextSegId := i + 1\<rparr>\<rparr>))"

definition selectTieredMergePlan :: "store \<Rightarrow> mergePlan option \<times> store" where
  "selectTieredMergePlan s =
     (case pickLowestQualifyingLevelLocked s of
        None \<Rightarrow> (None, s)
      | Some (level, metas) \<Rightarrow>
          let ids = map sm_Id metas; segs = segsByIds ids s; (i, s') = nextSegId s
          in (Some \<lparr>mp_inputIds = ids, mp_segs = segs, mp_outId = i, mp_level = level + 1,
                    mp_dataCodec = o_DataCodecMerged (st_opts s), mp_covering = False, mp_liveTables = None\<rparr>, s'))"

definition deadFractionReaches :: "store \<Rightarrow> bool" where
  "deadFractionReaches s =
     (let written = sum_list (map sm_Postings (mf_Segments (st_man s)));
          live = sum_list (map snd (filter (\<lambda>(t, n). t \<in> fst ` set (mf_Tables (st_man s))) (st_liveByTable s)))
      in 0 < written \<and> written \<le> 4 * (written - live))"

definition maxLevel :: "segMeta list \<Rightarrow> int" where
  "maxLevel sms = fold (\<lambda>sm l. if l < sm_Level sm then sm_Level sm else l) sms 0"

definition selectCoveringMergePlan :: "bool \<Rightarrow> store \<Rightarrow> mergePlan option \<times> store" where
  "selectCoveringMergePlan force s =
     (let sms = mf_Segments (st_man s) in
      if sms = [] then (None, s)
      else if \<not> force \<and> (length sms < 2 \<or> \<not> deadFractionReaches s) then (None, s)
      else
        let ids = map sm_Id sms; segs = segsByIds ids s; (i, s') = nextSegId s
        in (Some \<lparr>mp_inputIds = ids, mp_segs = segs, mp_outId = i, mp_level = maxLevel sms,
                  mp_dataCodec = o_DataCodecMerged (st_opts s), mp_covering = True,
                  mp_liveTables = Some (map fst (mf_Tables (st_man s)))\<rparr>, s'))"

subsection \<open>Installing a merge\<close>

definition installMerge ::
  "wresult \<Rightarrow> nat list \<Rightarrow> nat list \<Rightarrow> segment \<times> segMeta \<Rightarrow> store \<times> disk \<Rightarrow> bool \<times> store \<times> disk" where
  "installMerge r held inputIds res sd =
     (case sd of (s, d) \<Rightarrow>
        let m = (st_man s)\<lparr>mf_Segments := filter (\<lambda>sm. sm_Id sm \<notin> set inputIds) (mf_Segments (st_man s)) @ [snd res]\<rparr>;
            (ok, d1) = writeManifestBytes r m d
        in if \<not> ok then (False, s, d1\<lparr>dk_segs := AList.delete (sg_id (fst res)) (dk_segs d1)\<rparr>)
           else
             let retired = filter (\<lambda>seg. sg_id seg \<in> set inputIds) (st_segs s);
                 live = sortSegmentsById (filter (\<lambda>seg. sg_id seg \<notin> set inputIds) (st_segs s) @ [fst res]);
                 c = fold (\<lambda>seg. purge (sg_id seg)) retired (st_dictCache s);
                 gone = filter (\<lambda>i. i \<notin> set held) (map sg_id retired)
             in (True, s\<lparr>st_man := m, st_segs := live, st_dictCache := c\<rparr>,
                 d1\<lparr>dk_segs := fold AList.delete gone (dk_segs d1)\<rparr>))"

text \<open>The computation writes the output file; then the installation.\<close>

definition runMergePlan ::
  "compressors \<Rightarrow> wresult \<Rightarrow> nat list \<Rightarrow> mergePlan \<Rightarrow> store \<times> disk \<Rightarrow> (bool \<times> store \<times> disk) option" where
  "runMergePlan cs r held p sd =
     (case sd of (s, d) \<Rightarrow>
        do {
          res \<leftarrow> mergeSegments cs (st_opts s) (mp_segs p) (mp_outId p) (mp_level p) (mp_dataCodec p) (mp_covering p) (mp_liveTables p);
          Some (installMerge r held (mp_inputIds p) res (s, d\<lparr>dk_segs := AList.update (mp_outId p) (sg_file (fst res)) (dk_segs d)\<rparr>))
        })"

definition mergeOneLevel :: "compressors \<Rightarrow> wresult \<Rightarrow> nat list \<Rightarrow> store \<times> disk \<Rightarrow> (bool \<times> bool \<times> store \<times> disk) option" where
  "mergeOneLevel cs r held sd =
     (case pickLowestQualifyingLevelLocked (fst sd) of
        None \<Rightarrow> Some (False, True, sd)
      | Some (level, metas) \<Rightarrow>
          let ids = map sm_Id metas; segs = segsByIds ids (fst sd); (i, s') = nextSegId (fst sd)
          in map_option (Pair True)
               (runMergePlan cs r held
                 \<lparr>mp_inputIds = ids, mp_segs = segs, mp_outId = i, mp_level = level + 1,
                  mp_dataCodec = o_DataCodecMerged (st_opts s'), mp_covering = False, mp_liveTables = None\<rparr> (s', snd sd)))"

definition coveringMerge :: "compressors \<Rightarrow> wresult \<Rightarrow> nat list \<Rightarrow> store \<times> disk \<Rightarrow> (bool \<times> store \<times> disk) option" where
  "coveringMerge cs r held sd =
     (let sms = mf_Segments (st_man (fst sd)) in
      if sms = [] then Some (True, sd)
      else
        let ids = map sm_Id (sortSegMetasById sms); segs = segsByIds ids (fst sd); (i, s') = nextSegId (fst sd)
        in runMergePlan cs r held
             \<lparr>mp_inputIds = ids, mp_segs = segs, mp_outId = i, mp_level = maxLevel sms,
              mp_dataCodec = o_DataCodecMerged (st_opts s'), mp_covering = True,
              mp_liveTables = Some (map fst (mf_Tables (st_man (fst sd))))\<rparr> (s', snd sd))"

subsection \<open>Opening\<close>

definition sweepOrphanSegments :: "manifest \<Rightarrow> disk \<Rightarrow> disk" where
  "sweepOrphanSegments m d =
     d\<lparr>dk_temps := [], dk_segs := filter (\<lambda>(i, f). i \<in> sm_Id ` set (mf_Segments m)) (dk_segs d)\<rparr>"

fun openSegments :: "disk \<Rightarrow> segMeta list \<Rightarrow> segment list option" where
  "openSegments d [] = Some []"
| "openSegments d (sm # sms) =
     do {
       f \<leftarrow> map_of (dk_segs d) (sm_Id sm);
       seg \<leftarrow> openSegment f;
       segs \<leftarrow> openSegments d sms;
       Some (seg\<lparr>sg_id := sm_Id sm, sg_minDocid := sm_MinDocid sm, sg_maxDocid := sm_MaxDocid sm\<rparr> # segs)
     }"

definition forwardRange :: "compressors \<Rightarrow> segment \<Rightarrow> (docid \<times> docid) option" where
  "forwardRange cs seg =
     (let lo = [ktForward] in
      scanPrefix_st cs seg lo (prefixUpper lo)
        (\<lambda>r key _. map_option (\<lambda>d. noteDocid d r) (Uint64 (take 8 (drop 5 key)))) emptyDocidRange)"

fun forwardRanges :: "compressors \<Rightarrow> segment list \<Rightarrow> (docid \<times> docid) list option" where
  "forwardRanges cs [] = Some []"
| "forwardRanges cs (seg # segs) = do { r \<leftarrow> forwardRange cs seg; rs \<leftarrow> forwardRanges cs segs; Some (r # rs) }"

definition upgradeMeta :: "(nat \<times> docid \<times> docid) list \<Rightarrow> segMeta \<Rightarrow> segMeta" where
  "upgradeMeta rs sm = (case map_of rs (sm_Id sm) of None \<Rightarrow> sm | Some r \<Rightarrow> sm\<lparr>sm_MinDocid := fst r, sm_MaxDocid := snd r\<rparr>)"

definition upgradeSegmentRanges :: "compressors \<Rightarrow> wresult \<Rightarrow> store \<times> disk \<Rightarrow> (bool \<times> store \<times> disk) option" where
  "upgradeSegmentRanges cs r sd =
     (case sd of (s, d) \<Rightarrow>
        map_option (\<lambda>rs.
          let segs = map2 (\<lambda>seg rg. seg\<lparr>sg_minDocid := fst rg, sg_maxDocid := snd rg\<rparr>) (st_segs s) rs;
              m = (st_man s)\<lparr>mf_Segments := map (upgradeMeta (rev (zip (map sg_id (st_segs s)) rs))) (mf_Segments (st_man s)),
                             mf_FormatVersion := 3\<rparr>;
              (ok, d') = writeManifestBytes r m d
          in (ok, s\<lparr>st_segs := segs, st_man := m\<rparr>, d')) (forwardRanges cs (st_segs s)))"

text \<open>The forward records of a table in the segments, the newest of each document; \<open>visit\<close> returns False
  to stop. The state of the scan has the documents that are decided, the caller's state, and whether to
  stop.\<close>

definition visitForward ::
  "(docid \<Rightarrow> ord list \<Rightarrow> bool \<Rightarrow> 'a \<Rightarrow> 'a \<times> bool) \<Rightarrow> docid list \<times> 'a \<times> bool \<Rightarrow> bytes \<Rightarrow> bytes \<Rightarrow> (docid list \<times> 'a \<times> bool) option" where
  "visitForward visit st key value =
     (case st of (decided, a, stop) \<Rightarrow>
        if stop then Some st
        else do {
          docid \<leftarrow> Uint64 (take 8 (drop 5 key));
          if docid \<in> set decided then Some st
          else do {
            (ords, del) \<leftarrow> decodeForward value;
            let (a', go) = visit docid ords del a;
            Some (docid # decided, a', \<not> go)
          }
        })"

fun forEachLiveSegmentForward ::
  "compressors \<Rightarrow> tid \<Rightarrow> (docid \<Rightarrow> ord list \<Rightarrow> bool \<Rightarrow> 'a \<Rightarrow> 'a \<times> bool) \<Rightarrow> segment list \<Rightarrow> docid list \<Rightarrow> 'a \<Rightarrow> 'a option" where
  "forEachLiveSegmentForward cs t visit [] decided a = Some a"
| "forEachLiveSegmentForward cs t visit (seg # segs) decided a =
     (let lo = forwardKeyPrefix t in
      do {
        (decided', a', stop) \<leftarrow> scanPrefix_st cs seg lo (prefixUpper lo) (visitForward visit) (decided, a, False);
        if stop then Some a' else forEachLiveSegmentForward cs t visit segs decided' a'
      })"

definition distinctOrds :: "ord list \<Rightarrow> ord list" where
  "distinctOrds ords = remdups_adj ords"

definition addLive :: "int \<Rightarrow> docid \<Rightarrow> ord list \<Rightarrow> bool \<Rightarrow> (int \<times> int) list \<Rightarrow> (int \<times> int) list \<times> bool" where
  "addLive t d ords del lv =
     (if del then lv
      else AList.update t ((case map_of lv t of None \<Rightarrow> 0 | Some n \<Rightarrow> n) + int (length (distinctOrds ords))) lv, True)"

fun recomputeTables :: "compressors \<Rightarrow> segment list \<Rightarrow> int list \<Rightarrow> (int \<times> int) list \<Rightarrow> (int \<times> int) list option" where
  "recomputeTables cs segs [] lv = Some lv"
| "recomputeTables cs segs (t # ts) lv =
     do {
       lv' \<leftarrow> forEachLiveSegmentForward cs (word_of_int t) (addLive t) segs [] lv;
       recomputeTables cs segs ts lv'
     }"

definition recomputeLive :: "compressors \<Rightarrow> store \<Rightarrow> store option" where
  "recomputeLive cs s =
     map_option (\<lambda>lv. s\<lparr>st_liveByTable := lv\<rparr>)
       (recomputeTables cs (rev (st_segs s)) (map fst (mf_Tables (st_man s))) [])"

definition orphanTables :: "manifest \<Rightarrow> bool" where
  "orphanTables m \<longleftrightarrow>
     list_ex (\<lambda>sm. sm_Postings sm \<noteq> 0 \<and>
       list_ex (\<lambda>t. t \<notin> fst ` set (mf_Tables m)) [uint (sm_MinTable sm)..uint (sm_MaxTable sm)]) (mf_Segments m)"

definition reclaimOrphanTables :: "compressors \<Rightarrow> wresult \<Rightarrow> nat list \<Rightarrow> store \<times> disk \<Rightarrow> (store \<times> disk) option" where
  "reclaimOrphanTables cs r held sd =
     (if orphanTables (st_man (fst sd)) then map_option snd (coveringMerge cs r held sd) else Some sd)"

text \<open>Opening a store that a current version wrote, or an older one, whose ranges are recomputed. \<open>None\<close>
  is a panic on a missing or damaged segment file; the first component is False when the MANIFEST of
  the upgrade cannot be written.\<close>

definition Open :: "compressors \<Rightarrow> storeOptions \<Rightarrow> wresult \<Rightarrow> wresult \<Rightarrow> disk \<Rightarrow> (bool \<times> store \<times> disk) option" where
  "Open cs opts r1 r2 d =
     (let m = readManifest d; o' = withDefaults opts; d1 = sweepOrphanSegments m d in
      do {
        segs \<leftarrow> openSegments d1 (mf_Segments m);
        let s = \<lparr>st_opts = o', st_man = m, st_head = [], st_segs = segs, st_spilling = [], st_spillInFlight = False,
                 st_blockProducer = False, st_spillTempCtr = 0, st_liveByTable = [],
                 st_dictCache = newChunkLRU (o_ChunkCacheBytes o')\<rparr>;
        (ok, sd) \<leftarrow> (if mf_FormatVersion m < 3 then upgradeSegmentRanges cs r1 (s, d1) else Some (True, s, d1));
        if \<not> ok then Some (False, sd)
        else do {
          s' \<leftarrow> recomputeLive cs (fst sd);
          sd' \<leftarrow> reclaimOrphanTables cs r2 [] (s', snd sd);
          Some (True, sd')
        }
      })"

subsection \<open>Closing\<close>

fun spillAll :: "compressors \<Rightarrow> wresult list \<Rightarrow> int list \<Rightarrow> store \<times> disk \<Rightarrow> (bool \<times> store \<times> disk) option" where
  "spillAll cs rs [] sd = Some (True, sd)"
| "spillAll cs rs (t # ts) sd =
     do {
       (ok, sd') \<leftarrow> spill cs (case rs of [] \<Rightarrow> Written | r # _ \<Rightarrow> r) t sd;
       if ok then spillAll cs (tl rs) ts sd' else Some (False, sd')
     }"

text \<open>What is left to do once the spills in flight have been installed: seal every head that has
  something in it. The segments are closed, their files stay.\<close>

definition CloseAndWait_st :: "compressors \<Rightarrow> wresult list \<Rightarrow> store \<times> disk \<Rightarrow> (bool \<times> store \<times> disk) option" where
  "CloseAndWait_st cs rs sd =
     do {
       (ok, s, d) \<leftarrow> spillAll cs rs (map fst (filter (\<lambda>(t, h). \<not> headEmpty h) (st_head (fst sd)))) sd;
       Some (ok, s\<lparr>st_blockProducer := False, st_segs := []\<rparr>, d)
     }"

end
