(* ===== verification/StSearch.thy ===== *)
theory StSearch
  imports StCompact GoUtf8
begin

text \<open>
  Reading the segment store (\<^verbatim>\<open>packages/core/invertedstore/search.go\<close> and \<open>ForwardDocids\<close> of
  \<^verbatim>\<open>reconcile.go\<close>): the documents of a keyword, of all keywords with a prefix, and the documents a table
  has. A read takes the head, the detached heads and the segments at one point; the newest source that
  mentions a keyword and a document decides.
\<close>

subsection \<open>The newest source decides\<close>

text \<open>The documents that are decided and those that are live, for one keyword.\<close>

type_synonym resolution = "docid list \<times> docid list"

definition mergeDocs :: "docid list \<Rightarrow> docid list \<Rightarrow> resolution \<Rightarrow> resolution" where
  "mergeDocs adds dels st =
     (let seen = fold (\<lambda>d seen. if d \<in> set seen then seen else d # seen) dels (fst st)
      in fold (\<lambda>d (seen, live). if d \<in> set seen then (seen, live) else (d # seen, List.insert d live)) adds (seen, snd st))"

definition splitDocs :: "bytes \<Rightarrow> (docid list \<times> docid list) option" where
  "splitDocs value = map_option (\<lambda>(ab, db). (decodeDocs ab, decodeDocs db)) (splitInvertedValue value)"

subsection \<open>One keyword\<close>

text \<open>The heads of a table, newest first: the head, then the detached ones.\<close>

definition headsOf :: "int \<Rightarrow> store \<Rightarrow> headTable list" where
  "headsOf tableId s =
     (case map_of (st_head s) tableId of None \<Rightarrow> [] | Some h \<Rightarrow> [h]) @
     map se_head (filter (\<lambda>e. se_tableId e = tableId) (rev (st_spilling s)))"

definition mergeHead :: "bytes \<Rightarrow> headTable \<Rightarrow> resolution \<Rightarrow> resolution" where
  "mergeHead key h st =
     (case map_of (h_inv h) key of None \<Rightarrow> st
      | Some pd \<Rightarrow> (case resolveOps pd of (adds, dels) \<Rightarrow> mergeDocs adds dels st))"

fun mergeSegs :: "compressors \<Rightarrow> bytes \<Rightarrow> segment list \<Rightarrow> resolution \<Rightarrow> resolution option" where
  "mergeSegs cs want [] st = Some st"
| "mergeSegs cs want (seg # segs) st =
     do {
       st' \<leftarrow> scanPrefix_st cs seg want (prefixUpper want)
         (\<lambda>st key value. if key \<noteq> want then Some st
            else map_option (\<lambda>(adds, dels). mergeDocs adds dels st) (splitDocs value)) st;
       mergeSegs cs want segs st'
     }"

definition GetDocs_st :: "compressors \<Rightarrow> store \<Rightarrow> int \<Rightarrow> bytes \<Rightarrow> docid list option" where
  "GetDocs_st cs s tableId key =
     (case tableInfo s tableId of None \<Rightarrow> Some []
      | Some _ \<Rightarrow>
          map_option snd
            (mergeSegs cs (invertedKey (word_of_int tableId) key) (rev (st_segs s))
              (fold (mergeHead key) (headsOf tableId s) ([], []))))"

subsection \<open>All keywords with a prefix\<close>

type_synonym resolutions = "(bytes \<times> resolution) list"

definition mergeKw :: "(bytes \<Rightarrow> bool) option \<Rightarrow> bytes \<Rightarrow> docid list \<Rightarrow> docid list \<Rightarrow> resolutions \<Rightarrow> resolutions" where
  "mergeKw filterKeyword kw adds dels m =
     (if (case filterKeyword of None \<Rightarrow> False | Some f \<Rightarrow> \<not> f kw) then m
      else AList.update kw (mergeDocs adds dels (case map_of m kw of None \<Rightarrow> ([], []) | Some st \<Rightarrow> st)) m)"

definition mergeHeadKws :: "(bytes \<Rightarrow> bool) option \<Rightarrow> bytes \<Rightarrow> headTable \<Rightarrow> resolutions \<Rightarrow> resolutions" where
  "mergeHeadKws filterKeyword q h m =
     fold (\<lambda>(kw, pd) m. case resolveOps pd of (adds, dels) \<Rightarrow> mergeKw filterKeyword kw adds dels m)
       (filter (\<lambda>(kw, pd). HasPrefix kw q) (h_inv h)) m"

fun mergeSegKws :: "compressors \<Rightarrow> (bytes \<Rightarrow> bool) option \<Rightarrow> bytes \<Rightarrow> segment list \<Rightarrow> resolutions \<Rightarrow> resolutions option" where
  "mergeSegKws cs filterKeyword lo [] m = Some m"
| "mergeSegKws cs filterKeyword lo (seg # segs) m =
     do {
       m' \<leftarrow> scanPrefix_st cs seg lo (prefixUpper lo)
         (\<lambda>m key value. map_option (\<lambda>(adds, dels). mergeKw filterKeyword (drop 5 key) adds dels m) (splitDocs value)) m;
       mergeSegKws cs filterKeyword lo segs m'
     }"

text \<open>The union, up to the limit; the loop ends at the first document beyond it. The order of the
  documents is that of Go's maps.\<close>

fun limitDocs :: "int \<Rightarrow> docid list \<Rightarrow> docid list \<Rightarrow> docid list" where
  "limitDocs limit [] res = res"
| "limitDocs limit (d # ds) res =
     (if 0 < limit \<and> limit \<le> int (length res) then if d \<in> set res then limitDocs limit ds res else res
      else limitDocs limit ds (List.insert d res))"

definition Search_st ::
  "unicode \<Rightarrow> (resolutions \<Rightarrow> docid list) \<Rightarrow> compressors \<Rightarrow> store \<Rightarrow> int \<Rightarrow> bytes \<Rightarrow> int \<Rightarrow> (bytes \<Rightarrow> bool) option \<Rightarrow>
   docid list option" where
  "Search_st uc iter cs s tableId query limit filterKeyword =
     (case tableInfo s tableId of None \<Rightarrow> Some []
      | Some _ \<Rightarrow>
          let q = ToLower uc query in
          map_option (\<lambda>m. limitDocs limit (iter m) [])
            (mergeSegKws cs filterKeyword (invertedKey (word_of_int tableId) q) (rev (st_segs s))
              (fold (mergeHeadKws filterKeyword q) (headsOf tableId s) [])))"

subsection \<open>The documents of a table\<close>

definition headDocs :: "headTable \<Rightarrow> docid list \<times> docid list \<Rightarrow> docid list \<times> docid list" where
  "headDocs h st =
     (let decided = fold List.insert (h_delForward h) (fst st)
      in fold (\<lambda>d (decided, live). if d \<in> set decided then (decided, live) else (d # decided, live @ [d]))
           (map fst (h_fwd h)) (decided, snd st))"

fun offer :: "('a \<Rightarrow> docid \<Rightarrow> 'a \<times> bool) \<Rightarrow> docid list \<Rightarrow> 'a \<Rightarrow> 'a \<times> bool" where
  "offer fn [] a = (a, True)"
| "offer fn (d # ds) a = (case fn a d of (a', go) \<Rightarrow> if go then offer fn ds a' else (a', False))"

definition ForwardDocids :: "compressors \<Rightarrow> store \<Rightarrow> int \<Rightarrow> ('a \<Rightarrow> docid \<Rightarrow> 'a \<times> bool) \<Rightarrow> 'a \<Rightarrow> 'a option" where
  "ForwardDocids cs s tableId fn a =
     (case tableInfo s tableId of None \<Rightarrow> Some a
      | Some _ \<Rightarrow>
          case fold headDocs (headsOf tableId s) ([], []) of (decided, live) \<Rightarrow>
          (case offer fn live a of (a', go) \<Rightarrow>
             if \<not> go then Some a'
             else forEachLiveSegmentForward cs (word_of_int tableId)
                    (\<lambda>d ords del a. if del then (a, True) else fn a d) (rev (st_segs s)) decided a'))"

end
