(* ===== verification/StRead.thy ===== *)
theory StRead
  imports StSearch
begin

text \<open>
  The reads of the segment store see the stack of its layers: the head on top, then the detached heads,
  the newest first, then the segments, the newest first.
\<close>

subsection \<open>The layers of a table\<close>

definition segOk :: "compressors \<Rightarrow> segment \<Rightarrow> recs \<Rightarrow> bool" where
  "segOk cs s es \<longleftrightarrow> holds cs s es \<and> wfRecs es \<and> (\<forall>t d. map_of es (forwardKey t d) \<noteq> None \<longrightarrow> coversDocid s d)"

definition headLayers :: "int \<Rightarrow> store \<Rightarrow> layer list" where
  "headLayers t s = map headLayer (headsOf t s)"

definition segLayers :: "int \<Rightarrow> recs list \<Rightarrow> layer list" where
  "segLayers t srcs = rev (map (\<lambda>es. segLayer es (word_of_int t)) srcs)"

definition tableStack :: "int \<Rightarrow> store \<Rightarrow> recs list \<Rightarrow> layer" where
  "tableStack t s srcs = stack (headLayers t s @ segLayers t srcs)"

subsection \<open>Resolving one keyword\<close>

definition decision :: "resolution \<Rightarrow> docid \<Rightarrow> bool option" where
  "decision st d = (if d \<in> set (snd st) then Some True else if d \<in> set (fst st) then Some False else None)"

definition resOk :: "resolution \<Rightarrow> bool" where
  "resOk st \<longleftrightarrow> set (snd st) \<subseteq> set (fst st) \<and> distinct (snd st)"

definition overd :: "bool option \<Rightarrow> bool option \<Rightarrow> bool option" where
  "overd x y = (case x of None \<Rightarrow> y | Some z \<Rightarrow> Some z)"

lemma overd_simps [simp]: "overd None y = y" "overd x None = x" "overd (overd x y) z = overd x (overd y z)"
  by (simp_all add: overd_def split: option.splits)

lemma delsLoop: "set (fold (\<lambda>d seen. if d \<in> set seen then seen else d # seen) dels seen) = set seen \<union> set dels"
  by (induction dels arbitrary: seen) auto

lemma addsLoop:
  "resOk (seen, live) \<Longrightarrow>
   resOk (fold (\<lambda>d (seen, live). if d \<in> set seen then (seen, live) else (d # seen, List.insert d live)) adds (seen, live)) \<and>
   (\<forall>d. decision (fold (\<lambda>d (seen, live). if d \<in> set seen then (seen, live) else (d # seen, List.insert d live)) adds (seen, live)) d =
     overd (decision (seen, live) d) (if d \<in> set adds then Some True else None))"
proof (induction adds arbitrary: seen live)
  case (Cons a adds)
  show ?case
  proof (cases "a \<in> set seen")
    case True
    then have "overd (decision (seen, live) a) y = decision (seen, live) a" for y by (simp add: overd_def decision_def)
    then show ?thesis using Cons.IH [OF Cons.prems] True by (auto simp: split: if_splits)
  next
    case False
    then have l: "a \<notin> set live" using Cons.prems by (auto simp: resOk_def)
    have "resOk (a # seen, List.insert a live)" using Cons.prems by (auto simp: resOk_def)
    note ih = Cons.IH [OF this]
    have "overd (decision (a # seen, List.insert a live) d) (if d \<in> set adds then Some True else None) =
        overd (decision (seen, live) d) (if d \<in> set (a # adds) then Some True else None)" for d
      using False l by (auto simp: overd_def decision_def)
    then show ?thesis using ih False by simp
  qed
qed simp

lemma mergeDocs_ok:
  assumes "resOk st"
  shows "resOk (mergeDocs adds dels st)"
    and "decision (mergeDocs adds dels st) d =
      overd (decision st d) (if d \<in> set dels then Some False else if d \<in> set adds then Some True else None)"
proof -
  obtain seen live where st: "st = (seen, live)" by (cases st)
  let ?seen = "fold (\<lambda>d seen. if d \<in> set seen then seen else d # seen) dels seen"
  have r: "resOk (?seen, live)" using assms by (auto simp: st resOk_def delsLoop)
  note a = addsLoop [OF r, of adds]
  show "resOk (mergeDocs adds dels st)" using a by (simp add: mergeDocs_def st)
  have "decision (?seen, live) d = overd (decision (seen, live) d) (if d \<in> set dels then Some False else None)"
    by (simp add: decision_def delsLoop overd_def)
  then show "decision (mergeDocs adds dels st) d =
      overd (decision st d) (if d \<in> set dels then Some False else if d \<in> set adds then Some True else None)"
    using a by (simp add: mergeDocs_def st) (simp add: overd_def)
qed

lemma mergeHead_ok:
  assumes "resOk st"
  shows "resOk (mergeHead kw h st)" "decision (mergeHead kw h st) d = overd (decision st d) (l_inv (headLayer h) kw d)"
proof -
  have "resOk (mergeHead kw h st) \<and> decision (mergeHead kw h st) d = overd (decision st d) (l_inv (headLayer h) kw d)"
  proof (cases "map_of (h_inv h) kw")
    case None
    then show ?thesis using assms by (simp add: mergeHead_def headLayer_def)
  next
    case (Some pd)
    obtain adds dels where r: "resolveOps pd = (adds, dels)" by (cases "resolveOps pd")
    have "(if d \<in> set dels then Some False else if d \<in> set adds then Some True else None) = map_of (rev (pdOps pd)) d"
      using resolveOps_spec [of d pd] r by (cases "map_of (rev (pdOps pd)) d") auto
    then show ?thesis using Some mergeDocs_ok [OF assms, of adds dels] by (simp add: mergeHead_def r headLayer_def)
  qed
  then show "resOk (mergeHead kw h st)" "decision (mergeHead kw h st) d = overd (decision st d) (l_inv (headLayer h) kw d)"
    by simp_all
qed

lemma over_inv_overd: "l_inv (over a b) kw d = overd (l_inv a kw d) (l_inv b kw d)"
  by (simp add: over_inv overd_def)

lemma mergeHeads_ok:
  "resOk st \<Longrightarrow> resOk (fold (mergeHead kw) hs st) \<and>
   (\<forall>d. decision (fold (mergeHead kw) hs st) d = overd (decision st d) (l_inv (stack (map headLayer hs)) kw d))"
proof (induction hs arbitrary: st)
  case (Cons h hs)
  show ?case using Cons.IH [OF mergeHead_ok(1) [OF Cons.prems]] mergeHead_ok(2) [OF Cons.prems] by (simp add: over_inv_overd)
qed (simp add: emptyLayer_def)

lemma scanFold_single:
  assumes "distinct (map fst es)" "\<And>st k v. k \<noteq> want \<Longrightarrow> fn st k v = Some st"
  shows "scanFold fn (filter (\<lambda>kv. prefix want (fst kv)) es) st = (case map_of es want of None \<Rightarrow> Some st | Some v \<Rightarrow> fn st want v)"
  using assms(1)
proof (induction es arbitrary: st)
  case (Cons e es)
  obtain k v where e: "e = (k, v)" by (cases e)
  have skip: "scanFold fn xs st' = Some st'" if "\<forall>kv\<in>set xs. fst kv \<noteq> want" for xs st'
    using that by (induction xs) (auto simp: assms(2))
  show ?case
  proof (cases "k = want")
    case True
    have "\<forall>kv\<in>set (filter (\<lambda>kv. prefix want (fst kv)) es). fst kv \<noteq> want" using Cons.prems True by (force simp: e)
    then have "scanFold fn (filter (\<lambda>kv. prefix want (fst kv)) es) = Some" by (intro ext skip)
    then show ?thesis by (simp add: e True bind_runit)
  next
    case False
    then show ?thesis using Cons by (simp add: e assms(2))
  qed
qed simp

lemma splitDocs_ok:
  assumes "invVal v"
  shows "\<exists>adds dels. splitDocs v = Some (adds, dels) \<and>
    (\<forall>d. invAt v d = (if d \<in> set dels then Some False else if d \<in> set adds then Some True else None))"
proof -
  obtain adds dels where v: "v = encodeInvertedValue_st adds dels" "fits64 (length (encodeDocs adds))"
    using assms by (auto simp: invVal_def)
  have "splitInvertedValue v = Some (encodeDocs adds, encodeDocs dels)"
    using splitInvertedValue_encode [of adds dels] v by (simp add: fits64_def)
  then show ?thesis by (simp add: splitDocs_def v(1) invAt_encode [OF v(2)])
qed

lemma segOk_invVal: "segOk cs s es \<Longrightarrow> map_of es (invertedKey t kw) = Some v \<Longrightarrow> invVal v"
  using map_of_SomeD [of es "invertedKey t kw" v] by (fastforce simp: segOk_def wfRecs_def recOk_def)

lemma segOk_distinct: "segOk cs s es \<Longrightarrow> distinct (map fst es)"
  using ordered_distinct by (auto simp: segOk_def wfRecs_def)

lemma mergeSegs_ok:
  assumes "codec_ok cs"
  shows "list_all2 (segOk cs) segs srcs \<Longrightarrow> resOk st \<Longrightarrow>
    \<exists>st'. mergeSegs cs (invertedKey t kw) segs st = Some st' \<and> resOk st' \<and>
      (\<forall>d. decision st' d = overd (decision st d) (l_inv (stack (map (\<lambda>es. segLayer es t) srcs)) kw d))"
proof (induction arbitrary: st rule: list_all2_induct)
  case (Cons s segs es srcs)
  let ?k = "invertedKey t kw"
  let ?fn = "\<lambda>st key value. if key \<noteq> ?k then Some st else map_option (\<lambda>(adds, dels). mergeDocs adds dels st) (splitDocs value)"
  have h: "holds cs s es" using Cons.hyps(1) by (simp add: segOk_def)
  have sc: "scanPrefix_st cs s ?k (prefixUpper ?k) ?fn st = (case map_of es ?k of None \<Rightarrow> Some st | Some v \<Rightarrow> ?fn st ?k v)"
    unfolding holds_scan [OF assms h] by (rule scanFold_single [OF segOk_distinct [OF Cons.hyps(1)]]) simp
  have "\<exists>st1. scanPrefix_st cs s ?k (prefixUpper ?k) ?fn st = Some st1 \<and> resOk st1 \<and>
      (\<forall>d. decision st1 d = overd (decision st d) (l_inv (segLayer es t) kw d))"
  proof (cases "map_of es ?k")
    case None
    then show ?thesis using Cons.prems by (simp add: sc segLayer_def)
  next
    case (Some v)
    obtain adds dels where v: "splitDocs v = Some (adds, dels)"
      "\<forall>d. invAt v d = (if d \<in> set dels then Some False else if d \<in> set adds then Some True else None)"
      using splitDocs_ok [OF segOk_invVal [OF Cons.hyps(1) Some]] by blast
    then show ?thesis using mergeDocs_ok [OF Cons.prems, of adds dels] Some by (simp add: sc segLayer_def)
  qed
  then obtain st1 where st1: "scanPrefix_st cs s ?k (prefixUpper ?k) ?fn st = Some st1" "resOk st1"
    "\<forall>d. decision st1 d = overd (decision st d) (l_inv (segLayer es t) kw d)" by blast
  from Cons.IH [OF st1(2)] show ?case using st1(1,3) by (auto simp: over_inv_overd)
qed (simp add: emptyLayer_def)

theorem GetDocs_stack:
  assumes "codec_ok cs" "list_all2 (segOk cs) (st_segs s) srcs"
  shows "\<exists>ds. GetDocs_st cs s t kw = Some ds \<and> distinct ds \<and>
    set ds = (if tableInfo s t = None then {} else postings (tableStack t s srcs) kw)"
proof (cases "tableInfo s t")
  case None
  then show ?thesis by (simp add: GetDocs_st_def)
next
  case (Some i)
  let ?st = "fold (mergeHead kw) (headsOf t s) ([], [])"
  have h: "resOk ?st" "\<forall>d. decision ?st d = l_inv (stack (headLayers t s)) kw d"
    using mergeHeads_ok [of "([], [])" kw "headsOf t s"] by (auto simp: resOk_def decision_def headLayers_def)
  have "list_all2 (segOk cs) (rev (st_segs s)) (rev srcs)" using assms(2) by (simp add: list_all2_rev)
  from mergeSegs_ok [OF assms(1) this h(1), of "word_of_int t" kw] obtain st' where
    st': "mergeSegs cs (invertedKey (word_of_int t) kw) (rev (st_segs s)) ?st = Some st'" "resOk st'"
    "\<forall>d. decision st' d = overd (decision ?st d) (l_inv (stack (segLayers t srcs)) kw d)"
    by (auto simp: segLayers_def rev_map)
  have "decision st' d = l_inv (tableStack t s srcs) kw d" for d
    using st'(3) h(2) by (simp add: tableStack_def stack_append over_inv_overd)
  then have "set (snd st') = postings (tableStack t s srcs) kw"
    by (auto simp: postings_def) (metis (full_types) decision_def option.inject option.distinct(1))+
  then show ?thesis using Some st'(1,2) by (simp add: GetDocs_st_def resOk_def)
qed


subsection \<open>The keywords of a document\<close>

fun firstSome :: "('a \<Rightarrow> 'b option) \<Rightarrow> 'a list \<Rightarrow> 'b option" where
  "firstSome f [] = None"
| "firstSome f (x # xs) = (case f x of None \<Rightarrow> firstSome f xs | Some y \<Rightarrow> Some y)"

lemma headLookup_layer: "l_fwd (headLayer h) d = map_option (map_option set) (headForwardLookup (Some h) d)"
  by (simp add: headForwardLookup_def headLayer_def split: option.splits)

lemma headsLookup_layer:
  "l_fwd (stack (map headLayer hs)) d = map_option (map_option set) (firstSome (\<lambda>h. headForwardLookup (Some h) d) hs)"
  by (induction hs) (auto simp: emptyLayer_def over_fwd headLookup_layer split: option.splits)

lemma spillingForward_eq:
  "spillingForward t d es = firstSome (\<lambda>h. headForwardLookup (Some h) d) (map se_head (filter (\<lambda>e. se_tableId e = t) es))"
  by (induction t d es rule: spillingForward.induct) (auto split: option.split)

lemma headsForward_eq:
  "(case headForwardLookup (map_of (st_head s) t) d of Some r \<Rightarrow> Some r
    | None \<Rightarrow> spillingForward t d (rev (st_spilling s))) = firstSome (\<lambda>h. headForwardLookup (Some h) d) (headsOf t s)"
  by (auto simp: headsOf_def spillingForward_eq headForwardLookup_def split: option.split)

lemma lookupForward_holds:
  assumes "codec_ok cs" "segOk cs s es"
  shows "lookupForward cs s (forwardKey t d) = Some (map_of es (forwardKey t d))"
proof -
  let ?k = "forwardKey t d"
  have h: "holds cs s es" using assms(2) by (simp add: segOk_def)
  have w: "\<forall>kv\<in>set es. wfKey (fst kv)" using assms(2) by (intro wfRecs_wfKey) (simp add: segOk_def)
  have "filter (\<lambda>kv. prefix ?k (fst kv)) es = filter (\<lambda>kv. fst kv = ?k) es"
  proof (rule filter_cong [OF refl])
    fix kv assume "kv \<in> set es"
    then show "prefix ?k (fst kv) \<longleftrightarrow> fst kv = ?k" using w by (auto simp: wfKey_def)
  qed
  moreover have "scanFold (\<lambda>st k v. Some (Some v)) (filter (\<lambda>kv. fst kv = ?k) es) None = Some (map_of es ?k)"
    using segOk_distinct [OF assms(2)]
  proof (induction es)
    case (Cons e es)
    show ?case
    proof (cases "fst e = ?k")
      case True
      then have "filter (\<lambda>kv. fst kv = ?k) es = []" using Cons.prems by (force simp: filter_empty_conv)
      then show ?thesis using True by (cases e) simp
    next
      case False
      then show ?thesis using Cons by (cases e) simp
    qed
  qed simp
  ultimately show ?thesis unfolding lookupForward_def holds_scan [OF assms(1) h] by simp
qed

definition cacheOk :: "compressors \<Rightarrow> segment list \<Rightarrow> chunkLRU \<Rightarrow> bool" where
  "cacheOk cs segs c \<longleftrightarrow> lruOk c \<and> (\<forall>seg\<in>set segs. coherent cs seg c) \<and> (\<forall>e\<in>set (cl_ll c). fst (fst e) \<in> sg_id ` set segs)"

lemma resolveCached_ok:
  assumes cs: "codec_ok cs" "segOk cs s es" and c: "cacheOk cs segs c" "s \<in> set segs" "distinct (map sg_id segs)"
    and need: "\<forall>o'\<in>set need. unat o' < length (invKws es)"
  shows "\<exists>m c'. resolveOrdsCached cs s need c = Some (m, c') \<and> (\<forall>o'\<in>set need. m o' = Some (invKws es ! unat o')) \<and> cacheOk cs segs c'"
proof -
  have h: "holds cs s es" using cs(2) by (simp add: segOk_def)
  let ?m = "\<lambda>o'. if o' \<in> set need then Some (invKws es ! unat o') else None"
  have r: "resolveOrds cs s need = Some ?m" by (rule holds_resolve [OF cs(1) h need])
  have co: "coherent cs s c" "lruOk c" using c by (auto simp: cacheOk_def)
  from resolveOrdsCached_eq [OF co r] obtain c' where c': "resolveOrdsCached cs s need c = Some (?m, c')" "coherent cs s c'" "lruOk c'"
    "\<forall>e\<in>set (cl_ll c'). e \<in> set (cl_ll c) \<or> fst (fst e) = sg_id s" by blast
  have "coherent cs seg c'" if seg: "seg \<in> set segs" for seg
  proof (cases "seg = s")
    case False
    then have "sg_id seg \<noteq> sg_id s" using c(2,3) seg by (auto simp: distinct_map inj_on_def)
    then show ?thesis using c'(4) c(1) seg unfolding coherent_def cacheOk_def by (metis fst_conv)
  qed (simp add: c'(2))
  then have "cacheOk cs segs c'" using c'(3,4) c(1,2) by (auto simp: cacheOk_def)
  then show ?thesis using c'(1) by (intro exI [of _ ?m] exI [of _ c']) simp
qed

lemma lookupAll_map: "\<forall>o'\<in>set os. m o' = Some (f o') \<Longrightarrow> lookupAll m os = Some (map f os)"
  by (induction os) auto

definition answers :: "bytes list \<times> bool \<Rightarrow> bytes set option option \<Rightarrow> bool" where
  "answers a x \<longleftrightarrow> (case x of None \<Rightarrow> a = ([], False) | Some None \<Rightarrow> a = ([], True) | Some (Some W) \<Rightarrow> set (fst a) = W \<and> \<not> snd a)"

lemma segmentsForward_ok:
  assumes cs: "codec_ok cs" and all: "distinct (map sg_id allsegs)"
  shows "list_all2 (segOk cs) segs srcs \<Longrightarrow> set segs \<subseteq> set allsegs \<Longrightarrow> cacheOk cs allsegs c \<Longrightarrow>
    \<exists>a c'. segmentsForward cs t d segs c = Some (a, c') \<and> cacheOk cs allsegs c' \<and>
      answers a (l_fwd (stack (map (\<lambda>es. segLayer es t) srcs)) d)"
proof (induction rule: list_all2_induct)
  case Nil
  then show ?case by (simp add: answers_def emptyLayer_def)
next
  case (Cons s segs es srcs)
  note ih = Cons.IH [OF _ Cons.prems(2)]
  have sub: "set segs \<subseteq> set allsegs" "s \<in> set allsegs" using Cons.prems(1) by auto
  show ?case
  proof (cases "map_of es (forwardKey t d)")
    case None
    then have "segmentsForward cs t d (s # segs) c = segmentsForward cs t d segs c"
      by (simp add: lookupForward_holds [OF cs Cons.hyps(1)])
    moreover have "l_fwd (segLayer es t) d = None" using None by (simp add: segLayer_def)
    ultimately show ?thesis using ih [OF sub(1)] by (simp add: over_fwd del: segmentsForward.simps)
  next
    case (Some v)
    have cov: "coversDocid s d" using Cons.hyps(1) Some by (auto simp: segOk_def)
    have "recOk (invKeys es) (forwardKey t d, v)"
      using Cons.hyps(1) map_of_SomeD [OF Some] by (auto simp: segOk_def wfRecs_def)
    then obtain ords where ords: "v = encodeForward ords" "fits64 (length ords)" "\<forall>o'\<in>set ords. unat o' < length (invKws es)"
      by (auto simp: recOk_def fwdVal_def invKws_invKeys)
    have dec: "decodeForward (encodeForward ords) = Some (sort ords, ords = [])"
      using decodeForward_encodeForward [of ords] ords(2) by (simp add: fits64_def)
    have lay: "l_fwd (segLayer es t) d = Some (if ords = [] then None else Some ((\<lambda>o'. invKws es ! unat o') ` set ords))"
      using Some ords(1) by (simp add: segLayer_def fwdAt_encode [OF ords(2)])
    show ?thesis
    proof (cases "ords = []")
      case True
      then show ?thesis using Cons.prems(2) dec cov Some lay
        by (simp add: lookupForward_holds [OF cs Cons.hyps(1)] ords(1) answers_def over_fwd)
    next
      case False
      have "\<forall>o'\<in>set (remdups (sort ords)). unat o' < length (invKws es)" using ords(3) by simp
      from resolveCached_ok [OF cs Cons.hyps(1) Cons.prems(2) sub(2) all this] obtain m c' where
        m: "resolveOrdsCached cs s (remdups (sort ords)) c = Some (m, c')" "\<forall>o'\<in>set (sort ords). m o' = Some (invKws es ! unat o')"
        "cacheOk cs allsegs c'" by auto
      have "segmentsForward cs t d (s # segs) c = Some ((map (\<lambda>o'. invKws es ! unat o') (sort ords), False), c')"
        using dec cov Some False m(1) lookupAll_map [OF m(2)]
        by (simp add: lookupForward_holds [OF cs Cons.hyps(1)] ords(1))
      then show ?thesis using m(3) lay False by (auto simp: answers_def over_fwd simp del: segmentsForward.simps)
    qed
  qed
qed

theorem forwardKeywords_stack:
  assumes "codec_ok cs" "list_all2 (segOk cs) (st_segs s) srcs" "distinct (map sg_id (st_segs s))" "cacheOk cs (st_segs s) (st_dictCache s)"
  shows "\<exists>ws del c. forwardKeywords cs t d s = Some ((ws, del), s\<lparr>st_dictCache := c\<rparr>) \<and> cacheOk cs (st_segs s) c \<and>
    set ws = priorWords (tableStack t s srcs) d"
proof -
  let ?hs = "firstSome (\<lambda>h. headForwardLookup (Some h) d) (headsOf t s)"
  have st: "l_fwd (tableStack t s srcs) d = (case map_option (map_option set) ?hs of
      None \<Rightarrow> l_fwd (stack (segLayers t srcs)) d | Some x \<Rightarrow> Some x)"
    by (simp add: tableStack_def stack_append over_fwd headLayers_def headsLookup_layer)
  have fk: "forwardKeywords cs t d s = (case ?hs of Some r \<Rightarrow> Some (forwardAnswer r, s)
     | None \<Rightarrow> do { (ans, c) \<leftarrow> segmentsForward cs (word_of_int t) d (rev (st_segs s)) (st_dictCache s); Some (ans, s\<lparr>st_dictCache := c\<rparr>) })"
    unfolding forwardKeywords_def headsForward_eq [symmetric] by (simp split: option.split)
  show ?thesis
  proof (cases ?hs)
    case (Some r)
    then have "forwardKeywords cs t d s = Some ((fst (forwardAnswer r), snd (forwardAnswer r)), s\<lparr>st_dictCache := st_dictCache s\<rparr>)"
      by (simp add: fk)
    moreover have "set (fst (forwardAnswer r)) = priorWords (tableStack t s srcs) d"
      using Some by (simp add: priorWords_def content_def st forwardAnswer_def split: option.splits)
    ultimately show ?thesis using assms(4) by blast
  next
    case None
    have "list_all2 (segOk cs) (rev (st_segs s)) (rev srcs)" using assms(2) by (simp add: list_all2_rev)
    from segmentsForward_ok [OF assms(1,3) this _ assms(4), of "word_of_int t" d] obtain a c where
      a: "segmentsForward cs (word_of_int t) d (rev (st_segs s)) (st_dictCache s) = Some (a, c)" "cacheOk cs (st_segs s) c"
      "answers a (l_fwd (stack (segLayers t srcs)) d)" by (auto simp: segLayers_def rev_map)
    have "set (fst a) = priorWords (tableStack t s srcs) d"
      using a(3) None by (simp add: priorWords_def content_def st answers_def split: option.splits)
    moreover have "forwardKeywords cs t d s = Some ((fst a, snd a), s\<lparr>st_dictCache := c\<rparr>)" using a(1) None by (simp add: fk)
    ultimately show ?thesis using a(2) by blast
  qed
qed


subsection \<open>All keywords with a prefix\<close>

definition decisionOf :: "resolutions \<Rightarrow> bytes \<Rightarrow> docid \<Rightarrow> bool option" where
  "decisionOf m kw d = decision (case map_of m kw of None \<Rightarrow> ([], []) | Some st \<Rightarrow> st) d"

definition ressOk :: "resolutions \<Rightarrow> bool" where
  "ressOk m \<longleftrightarrow> distinct (map fst m) \<and> (\<forall>kw st. map_of m kw = Some st \<longrightarrow> resOk st)"

definition wanted :: "(bytes \<Rightarrow> bool) option \<Rightarrow> bytes \<Rightarrow> bytes \<Rightarrow> bool" where
  "wanted f q kw \<longleftrightarrow> prefix q kw \<and> (case f of None \<Rightarrow> True | Some g \<Rightarrow> g kw)"

lemma mergeKw_ok:
  assumes "ressOk m" "prefix q kw"
  shows "ressOk (mergeKw f kw adds dels m)"
    and "decisionOf (mergeKw f kw adds dels m) kw' d = (if kw' = kw \<and> wanted f q kw
      then overd (decisionOf m kw d) (if d \<in> set dels then Some False else if d \<in> set adds then Some True else None)
      else decisionOf m kw' d)"
proof -
  let ?st = "case map_of m kw of None \<Rightarrow> ([], []) | Some st \<Rightarrow> st"
  have r: "resOk ?st" using assms(1) by (auto simp: ressOk_def resOk_def split: option.split)
  show "ressOk (mergeKw f kw adds dels m)"
    using assms(1) mergeDocs_ok(1) [OF r] by (simp add: mergeKw_def ressOk_def distinct_update update_conv' del: map_of_eq_Some_iff split_paired_All)
  show "decisionOf (mergeKw f kw adds dels m) kw' d = (if kw' = kw \<and> wanted f q kw
      then overd (decisionOf m kw d) (if d \<in> set dels then Some False else if d \<in> set adds then Some True else None)
      else decisionOf m kw' d)"
    using assms(2) mergeDocs_ok(2) [OF r]
    by (auto simp: mergeKw_def decisionOf_def wanted_def update_conv' split: option.splits)
qed

lemma mergeHeadKws_aux:
  "distinct (map fst ps) \<Longrightarrow> \<forall>p\<in>set ps. prefix q (fst p) \<Longrightarrow> ressOk m \<Longrightarrow>
   ressOk (fold (\<lambda>(kw, pd) m. case resolveOps pd of (adds, dels) \<Rightarrow> mergeKw f kw adds dels m) ps m) \<and>
   (\<forall>kw d. decisionOf (fold (\<lambda>(kw, pd) m. case resolveOps pd of (adds, dels) \<Rightarrow> mergeKw f kw adds dels m) ps m) kw d =
      (if wanted f q kw then overd (decisionOf m kw d) (case map_of ps kw of None \<Rightarrow> None | Some pd \<Rightarrow> map_of (rev (pdOps pd)) d)
       else decisionOf m kw d))"
proof (induction ps arbitrary: m)
  case (Cons p ps)
  obtain k pd where p: "p = (k, pd)" by (cases p)
  obtain adds dels where r: "resolveOps pd = (adds, dels)" by (cases "resolveOps pd")
  have e: "(if d \<in> set dels then Some False else if d \<in> set adds then Some True else None) = map_of (rev (pdOps pd)) d" for d
    using resolveOps_spec [of d pd] r by (cases "map_of (rev (pdOps pd)) d") auto
  have q: "prefix q k" using Cons.prems(2) by (simp add: p)
  have n: "map_of ps k = None" using Cons.prems(1) by (simp add: p map_of_eq_None_iff)
  note mk = mergeKw_ok [OF Cons.prems(3) q, of f adds dels]
  from Cons.IH [OF _ _ mk(1)] Cons.prems(1,2) show ?case by (auto simp: p r mk(2) e n)
qed simp

lemma mergeHeadKws_ok:
  assumes "headOk h" "ressOk m"
  shows "ressOk (mergeHeadKws f q h m)"
    "decisionOf (mergeHeadKws f q h m) kw d =
      (if wanted f q kw then overd (decisionOf m kw d) (l_inv (headLayer h) kw d) else decisionOf m kw d)"
proof -
  let ?ps = "filter (\<lambda>(kw, pd). prefix q kw) (h_inv h)"
  have d: "distinct (map fst ?ps)" using assms(1) by (simp add: headOk_def headInvOk_def distinct_map_filter)
  have p: "\<forall>p\<in>set ?ps. prefix q (fst p)" by auto
  have "prefix q kw \<Longrightarrow> map_of (filter (\<lambda>(kw, pd). prefix q kw) xs) kw = map_of xs kw" for kw and xs :: "(bytes \<times> postingDelta) list"
    by (induction xs) auto
  then have mo: "map_of ?ps kw = map_of (h_inv h) kw" if "wanted f q kw" for kw using that by (simp add: wanted_def)
  note a = mergeHeadKws_aux [OF d p assms(2), of f]
  show "ressOk (mergeHeadKws f q h m)" using a by (simp add: mergeHeadKws_def)
  show "decisionOf (mergeHeadKws f q h m) kw d =
      (if wanted f q kw then overd (decisionOf m kw d) (l_inv (headLayer h) kw d) else decisionOf m kw d)"
    using a mo [of kw] by (simp add: mergeHeadKws_def headLayer_def)
qed


lemma mergeHeadsKws_ok:
  "\<forall>h\<in>set hs. headOk h \<Longrightarrow> ressOk m \<Longrightarrow> ressOk (fold (mergeHeadKws f q) hs m) \<and>
   (\<forall>kw d. decisionOf (fold (mergeHeadKws f q) hs m) kw d =
      (if wanted f q kw then overd (decisionOf m kw d) (l_inv (stack (map headLayer hs)) kw d) else decisionOf m kw d))"
proof (induction hs arbitrary: m)
  case (Cons h hs)
  have h: "headOk h" using Cons.prems(1) by simp
  note mh = mergeHeadKws_ok [OF h Cons.prems(2), of f q]
  from Cons.IH [OF _ mh(1)] Cons.prems(1) show ?case by (simp add: mh(2) over_inv_overd)
qed (simp add: emptyLayer_def)

lemma scanKws_aux:
  assumes "t' = t"
  shows "distinct (map fst es) \<Longrightarrow> \<forall>kv\<in>set es. \<exists>kw. fst kv = invertedKey t kw \<and> prefix q kw \<and> invVal (snd kv) \<Longrightarrow> ressOk m \<Longrightarrow>
   \<exists>m'. scanFold (\<lambda>m key value. map_option (\<lambda>(adds, dels). mergeKw f (drop 5 key) adds dels m) (splitDocs value)) es m = Some m' \<and> ressOk m' \<and>
    (\<forall>kw d. decisionOf m' kw d = (if wanted f q kw then overd (decisionOf m kw d)
        (case map_of es (invertedKey t' kw) of None \<Rightarrow> None | Some v \<Rightarrow> invAt v d) else decisionOf m kw d))"
proof (induction es arbitrary: m)
  case (Cons e es)
  obtain kw v where e: "e = (invertedKey t kw, v)" "prefix q kw" "invVal v" using Cons.prems(2) by (cases e) auto
  obtain adds dels where v: "splitDocs v = Some (adds, dels)"
    "\<And>d. invAt v d = (if d \<in> set dels then Some False else if d \<in> set adds then Some True else None)"
    using splitDocs_ok [OF e(3)] by blast
  have n: "map_of es (invertedKey t kw) = None" using Cons.prems(1) by (simp add: e(1) map_of_eq_None_iff)
  have dr: "drop 5 (invertedKey t kw) = kw" by (simp add: invertedKey_def)
  note mk = mergeKw_ok [OF Cons.prems(3) e(2), of f adds dels]
  from Cons.IH [OF _ _ mk(1)] Cons.prems(1,2) obtain m' where m':
    "scanFold (\<lambda>m key value. map_option (\<lambda>(adds, dels). mergeKw f (drop 5 key) adds dels m) (splitDocs value)) es (mergeKw f kw adds dels m) = Some m'"
    "ressOk m'" "\<forall>kw' d. decisionOf m' kw' d = (if wanted f q kw' then overd (decisionOf (mergeKw f kw adds dels m) kw' d)
        (case map_of es (invertedKey t' kw') of None \<Rightarrow> None | Some v \<Rightarrow> invAt v d) else decisionOf (mergeKw f kw adds dels m) kw' d)"
    by auto
  show ?case using m' n by (intro exI [of _ m']) (auto simp: e(1) dr v mk(2) assms)
qed simp

lemma mergeSegKws_ok:
  assumes "codec_ok cs"
  shows "list_all2 (segOk cs) segs srcs \<Longrightarrow> ressOk m \<Longrightarrow>
    \<exists>m'. mergeSegKws cs f (invertedKey t q) segs m = Some m' \<and> ressOk m' \<and>
      (\<forall>kw d. decisionOf m' kw d = (if wanted f q kw
         then overd (decisionOf m kw d) (l_inv (stack (map (\<lambda>es. segLayer es t) srcs)) kw d) else decisionOf m kw d))"
proof (induction arbitrary: m rule: list_all2_induct)
  case (Cons s segs es srcs)
  let ?fn = "\<lambda>m key value. map_option (\<lambda>(adds, dels). mergeKw f (drop 5 key) adds dels m) (splitDocs value)"
  let ?es = "filter (\<lambda>kv. prefix (invertedKey t q) (fst kv)) es"
  have h: "holds cs s es" using Cons.hyps(1) by (simp add: segOk_def)
  have d: "distinct (map fst ?es)" using segOk_distinct [OF Cons.hyps(1)] by (rule distinct_map_filter)
  have "\<exists>kw. fst kv = invertedKey t kw \<and> prefix q kw \<and> invVal (snd kv)" if "kv \<in> set ?es" for kv
  proof -
    have "recOk (invKeys es) kv" using Cons.hyps(1) that by (auto simp: segOk_def wfRecs_def)
    then show ?thesis using that by (auto simp: recOk_def)
  qed
  then obtain m1 where m1: "scanFold ?fn ?es m = Some m1" "ressOk m1"
    "\<forall>kw d. decisionOf m1 kw d = (if wanted f q kw then overd (decisionOf m kw d)
      (case map_of ?es (invertedKey t kw) of None \<Rightarrow> None | Some v \<Rightarrow> invAt v d) else decisionOf m kw d)"
    using scanKws_aux [OF refl d _ Cons.prems, of t q f] by blast
  have mo: "map_of ?es (invertedKey t kw) = map_of es (invertedKey t kw)" if "wanted f q kw" for kw
  proof -
    have "prefix (invertedKey t q) (invertedKey t kw)" using that by (simp add: wanted_def)
    then show ?thesis by (induction es) (auto simp del: prefix_invertedKey)
  qed
  from Cons.IH [OF m1(2)] obtain m' where "mergeSegKws cs f (invertedKey t q) segs m1 = Some m'" "ressOk m'"
    "\<forall>kw d. decisionOf m' kw d = (if wanted f q kw
         then overd (decisionOf m1 kw d) (l_inv (stack (map (\<lambda>es. segLayer es t) srcs)) kw d) else decisionOf m1 kw d)" by blast
  then show ?case using m1(1,3) mo by (auto simp: holds_scan [OF assms h] over_inv_overd segLayer_def)
qed (simp add: emptyLayer_def)

text \<open>The order of Go's maps is any order of the live documents of all keywords.\<close>

definition iterOk :: "(resolutions \<Rightarrow> docid list) \<Rightarrow> bool" where
  "iterOk iter \<longleftrightarrow> (\<forall>m. set (iter m) = (\<Union>p\<in>set m. set (snd (snd p))))"

lemma limitDocs_all: "limit \<le> 0 \<Longrightarrow> set (limitDocs limit ds res) = set res \<union> set ds"
  by (induction limit ds res rule: limitDocs.induct) auto

lemma limitDocs_some:
  "0 < limit \<Longrightarrow> distinct res \<Longrightarrow> int (length res) \<le> limit \<Longrightarrow>
   distinct (limitDocs limit ds res) \<and> set (limitDocs limit ds res) \<subseteq> set res \<union> set ds \<and>
   int (length (limitDocs limit ds res)) = min limit (int (card (set res \<union> set ds)))"
proof (induction limit ds res rule: limitDocs.induct)
  case (2 limit d ds res)
  have c: "length res = card (set res)" using "2.prems"(2) by (simp add: distinct_card)
  show ?case
  proof (cases "limit \<le> int (length res)")
    case True
    have "card (set res) \<le> card (set res \<union> set (d # ds))" by (rule card_mono) auto
    then show ?thesis using "2.IH"(1) "2.prems" True c by (auto simp: insert_absorb)
  next
    case False
    then have "int (length (List.insert d res)) \<le> limit" by (simp add: List.insert_def)
    then show ?thesis using "2.IH"(2) "2.prems" False by auto
  qed
next
  case (1 limit res)
  then show ?case by (simp add: distinct_card)
qed

theorem Search_stack:
  assumes "codec_ok cs" "list_all2 (segOk cs) (st_segs s) srcs" "\<forall>h\<in>set (headsOf t s). headOk h" "iterOk iter"
  shows "\<exists>ds. Search_st uc iter cs s t query limit f = Some ds \<and>
    (let all = (if tableInfo s t = None then {} else
         \<Union>kw\<in>{kw. wanted f (ToLower uc query) kw}. postings (tableStack t s srcs) kw)
     in set ds \<subseteq> all \<and> (if limit \<le> 0 then set ds = all else int (length ds) = min limit (int (card all)) \<and> distinct ds))"
proof (cases "tableInfo s t")
  case None
  then show ?thesis by (auto simp: Search_st_def)
next
  case (Some i)
  let ?q = "ToLower uc query" and ?m = "fold (mergeHeadKws f (ToLower uc query)) (headsOf t s) []"
  have "ressOk []" by (simp add: ressOk_def)
  from mergeHeadsKws_ok [OF assms(3) this, of f ?q] have h: "ressOk ?m"
    "\<And>kw d. decisionOf ?m kw d = (if wanted f ?q kw then l_inv (stack (headLayers t s)) kw d else None)"
    by (auto simp: decisionOf_def decision_def headLayers_def)
  have "list_all2 (segOk cs) (rev (st_segs s)) (rev srcs)" using assms(2) by (simp add: list_all2_rev)
  from mergeSegKws_ok [OF assms(1) this h(1), of f "word_of_int t" ?q] obtain m where
    m: "mergeSegKws cs f (invertedKey (word_of_int t) ?q) (rev (st_segs s)) ?m = Some m" "ressOk m"
    "\<And>kw d. decisionOf m kw d = (if wanted f ?q kw then overd (decisionOf ?m kw d) (l_inv (stack (segLayers t srcs)) kw d) else decisionOf ?m kw d)"
    by (auto simp: segLayers_def rev_map)
  have dm: "decisionOf m kw d = (if wanted f ?q kw then l_inv (tableStack t s srcs) kw d else None)" for kw d
    by (simp add: m(3) h(2) tableStack_def stack_append over_inv_overd)
  define all where "all = (\<Union>kw\<in>{kw. wanted f ?q kw}. postings (tableStack t s srcs) kw)"
  have "set (iter m) = all"
  proof (rule set_eqI)
    fix d
    have live: "decisionOf m kw d = Some True \<longleftrightarrow> (\<exists>st. map_of m kw = Some st \<and> d \<in> set (snd st))" for kw
      by (auto simp: decisionOf_def decision_def split: option.splits)
    have "d \<in> set (iter m) \<longleftrightarrow> (\<exists>kw st. map_of m kw = Some st \<and> d \<in> set (snd st))"
      using assms(4) m(2) by (force simp: iterOk_def ressOk_def)
    also have "\<dots> \<longleftrightarrow> (\<exists>kw. decisionOf m kw d = Some True)" by (auto simp: live)
    finally show "d \<in> set (iter m) \<longleftrightarrow> d \<in> all" by (auto simp: dm all_def postings_def split: if_splits)
  qed
  moreover have "Search_st uc iter cs s t query limit f = Some (limitDocs limit (iter m) [])"
    using Some m(1) by (simp add: Search_st_def)
  ultimately show ?thesis
    using Some limitDocs_all [of limit "iter m" "[]"] limitDocs_some [of limit "[]" "iter m"]
    by (simp add: Let_def flip: all_def)
qed

end
