(* ===== verification/StForward.thy ===== *)
theory StForward
  imports StRead
begin

text \<open>
  The enumeration of a table's documents yields every document the stack of layers has keywords for,
  once, and nothing else.
\<close>

definition collectDoc :: "docid list \<Rightarrow> docid \<Rightarrow> docid list \<times> bool" where
  "collectDoc a d = (a @ [d], True)"

abbreviation collectLive :: "docid \<Rightarrow> ord list \<Rightarrow> bool \<Rightarrow> docid list \<Rightarrow> docid list \<times> bool" where
  "collectLive \<equiv> \<lambda>d ords del a. if del then (a, True) else collectDoc a d"

lemma Uint64_key: "Uint64 (take 8 (drop 5 (forwardKey t d))) = Some d"
  using Uint64_PutUint64 [of d "[]"] by (simp add: forwardKey_def)

lemma fwdAt_Nil: "fwdAt kws (encodeForward []) = Some None"
  using fwdAt_encode [of "[]" kws] by (simp add: fits64_def)

text \<open>The records a table's forward prefix selects.\<close>

lemma scanForward_aux:
  "distinct (map fst es) \<Longrightarrow> \<forall>kv\<in>set es. \<exists>d ords. fst kv = forwardKey t d \<and> snd kv = encodeForward ords \<and> fits64 (length ords) \<Longrightarrow>
   set a \<subseteq> set decided \<Longrightarrow> distinct a \<Longrightarrow>
   \<exists>decided' a'. scanFold (visitForward collectLive) es (decided, a, False) = Some (decided', a', False) \<and>
     set decided' = set decided \<union> {d. map_of es (forwardKey t d) \<noteq> None} \<and> set a' \<subseteq> set decided' \<and> distinct a' \<and>
     set a' = set a \<union> {d. d \<notin> set decided \<and> (\<exists>W. (case map_of es (forwardKey t d) of None \<Rightarrow> None | Some v \<Rightarrow> fwdAt kws v) = Some (Some W))}"
proof (induction es arbitrary: decided a)
  case (Cons e es)
  obtain d ords where e: "e = (forwardKey t d, encodeForward ords)" "fits64 (length ords)" using Cons.prems(2) by (cases e) auto
  have n: "map_of es (forwardKey t d) = None" using Cons.prems(1) by (simp add: e(1) map_of_eq_None_iff)
  have dec: "decodeForward (encodeForward ords) = Some (sort ords, ords = [])"
    using decodeForward_encodeForward [of ords] e(2) by (simp add: fits64_def)
  let ?a = "if d \<in> set decided \<or> ords = [] then a else a @ [d]" and ?decided = "if d \<in> set decided then decided else d # decided"
  have step: "visitForward collectLive (decided, a, False) (forwardKey t d) (encodeForward ords) = Some (?decided, ?a, False)"
    by (simp add: visitForward_def Uint64_key dec collectDoc_def)
  have pre: "set ?a \<subseteq> set ?decided" "distinct ?a" using Cons.prems(3,4) by auto
  from Cons.IH [OF _ _ pre] Cons.prems(1,2) obtain decided' a' where
    ih: "scanFold (visitForward collectLive) es (?decided, ?a, False) = Some (decided', a', False)"
    "set decided' = set ?decided \<union> {d. map_of es (forwardKey t d) \<noteq> None}" "set a' \<subseteq> set decided'" "distinct a'"
    "set a' = set ?a \<union> {d. d \<notin> set ?decided \<and> (\<exists>W. (case map_of es (forwardKey t d) of None \<Rightarrow> None | Some v \<Rightarrow> fwdAt kws v) = Some (Some W))}"
    by auto
  have "set decided' = set decided \<union> {d. map_of (e # es) (forwardKey t d) \<noteq> None}" by (auto simp: ih(2) e(1))
  moreover have "set a' = set a \<union> {d. d \<notin> set decided \<and>
      (\<exists>W. (case map_of (e # es) (forwardKey t d) of None \<Rightarrow> None | Some v \<Rightarrow> fwdAt kws v) = Some (Some W))}"
    using n by (auto simp: ih(5) e(1) fwdAt_Nil fwdAt_encode [OF e(2)] split: if_splits)
  ultimately show ?case using ih(1,3,4) step by (auto simp: e(1))
qed auto

lemma forEach_ok:
  assumes "codec_ok cs"
  shows "list_all2 (segOk cs) segs srcs \<Longrightarrow> set a \<subseteq> set decided \<Longrightarrow> distinct a \<Longrightarrow>
    \<exists>a'. forEachLiveSegmentForward cs t collectLive segs decided a = Some a' \<and> distinct a' \<and>
      set a' = set a \<union> {d. d \<notin> set decided \<and> (\<exists>W. l_fwd (stack (map (\<lambda>es. segLayer es t) srcs)) d = Some (Some W))}"
proof (induction arbitrary: decided a rule: list_all2_induct)
  case Nil
  then show ?case by (simp add: emptyLayer_def)
next
  case (Cons s segs es srcs)
  let ?es = "filter (\<lambda>kv. prefix (forwardKeyPrefix t) (fst kv)) es"
  have h: "holds cs s es" using Cons.hyps(1) by (simp add: segOk_def)
  have d: "distinct (map fst ?es)" using segOk_distinct [OF Cons.hyps(1)] by (rule distinct_map_filter)
  have "\<exists>d ords. fst kv = forwardKey t d \<and> snd kv = encodeForward ords \<and> fits64 (length ords)" if "kv \<in> set ?es" for kv
  proof -
    have "recOk (invKeys es) kv" using Cons.hyps(1) that by (auto simp: segOk_def wfRecs_def)
    then show ?thesis using that by (auto simp: recOk_def fwdVal_def)
  qed
  then obtain decided' a' where s: "scanFold (visitForward collectLive) ?es (decided, a, False) = Some (decided', a', False)"
    "set decided' = set decided \<union> {d. map_of ?es (forwardKey t d) \<noteq> None}" "set a' \<subseteq> set decided'" "distinct a'"
    "set a' = set a \<union> {d. d \<notin> set decided \<and> (\<exists>W. (case map_of ?es (forwardKey t d) of None \<Rightarrow> None | Some v \<Rightarrow> fwdAt (invKws es) v) = Some (Some W))}"
    using scanForward_aux [OF d _ Cons.prems, of t "invKws es"] by blast
  have mo: "map_of ?es (forwardKey t d) = map_of es (forwardKey t d)" for d
  proof -
    have "prefix (forwardKeyPrefix t) (forwardKey t d)" by simp
    then show ?thesis by (induction es) (auto simp del: prefix_forwardKey)
  qed
  have some: "fwdAt (invKws es) v \<noteq> None" if "map_of es (forwardKey t d) = Some v" for d v
  proof -
    have "recOk (invKeys es) (forwardKey t d, v)" using Cons.hyps(1) map_of_SomeD [OF that] by (auto simp: segOk_def wfRecs_def)
    then show ?thesis by (auto simp: recOk_def fwdVal_def fwdAt_encode)
  qed
  from Cons.IH [OF s(3,4)] obtain b where b: "forEachLiveSegmentForward cs t collectLive segs decided' a' = Some b" "distinct b"
    "set b = set a' \<union> {d. d \<notin> set decided' \<and> (\<exists>W. l_fwd (stack (map (\<lambda>es. segLayer es t) srcs)) d = Some (Some W))}" by blast
  have l: "(case map_of es (forwardKey t d) of None \<Rightarrow> None | Some v \<Rightarrow> fwdAt (invKws es) v) = l_fwd (segLayer es t) d" for d
    by (simp add: segLayer_def)
  have n: "map_of es (forwardKey t d) \<noteq> None \<longleftrightarrow> l_fwd (segLayer es t) d \<noteq> None" for d
    using some [of d] by (cases "map_of es (forwardKey t d)") (simp_all add: segLayer_def)
  have "set b = set a \<union> {d. d \<notin> set decided \<and> (\<exists>W. l_fwd (stack (map (\<lambda>es. segLayer es t) (es # srcs))) d = Some (Some W))}"
    unfolding b(3) s(2,5) mo l n
  proof (rule set_eqI)
    fix d
    show "d \<in> set a \<union> {d. d \<notin> set decided \<and> (\<exists>W. l_fwd (segLayer es t) d = Some (Some W))} \<union>
        {d. d \<notin> set decided \<union> {d. l_fwd (segLayer es t) d \<noteq> None} \<and> (\<exists>W. l_fwd (stack (map (\<lambda>es. segLayer es t) srcs)) d = Some (Some W))} \<longleftrightarrow>
      d \<in> set a \<union> {d. d \<notin> set decided \<and> (\<exists>W. l_fwd (stack (map (\<lambda>es. segLayer es t) (es # srcs))) d = Some (Some W))}"
      by (cases "l_fwd (segLayer es t) d") (auto simp: over_fwd)
  qed
  then show ?case using b(1,2) s(1) by (auto simp: holds_scan [OF assms h])
qed

subsection \<open>The heads\<close>

lemma headDocs_loop:
  "set live \<subseteq> set dec \<Longrightarrow> distinct live \<Longrightarrow>
   (case fold (\<lambda>d (decided, live). if d \<in> set decided then (decided, live) else (d # decided, live @ [d])) ds (dec, live) of (dec', live') \<Rightarrow>
     set dec' = set dec \<union> set ds \<and> set live' = set live \<union> (set ds - set dec) \<and> distinct live' \<and> set live' \<subseteq> set dec')"
proof (induction ds arbitrary: dec live)
  case (Cons d ds)
  show ?case
  proof (cases "d \<in> set dec")
    case True
    then show ?thesis using Cons.IH [OF Cons.prems] by (auto simp: case_prod_beta)
  next
    case False
    have "set (live @ [d]) \<subseteq> set (d # dec)" "distinct (live @ [d])" using Cons.prems False by auto
    from Cons.IH [OF this] False show ?thesis by (auto simp: case_prod_beta)
  qed
qed auto

lemma headsDocs_ok:
  "set live \<subseteq> set dec \<Longrightarrow> distinct live \<Longrightarrow>
   (case fold headDocs hs (dec, live) of (dec', live') \<Rightarrow> distinct live' \<and> set live' \<subseteq> set dec' \<and>
     set dec' = set dec \<union> {d. l_fwd (stack (map headLayer hs)) d \<noteq> None} \<and>
     set live' = set live \<union> {d. d \<notin> set dec \<and> (\<exists>W. l_fwd (stack (map headLayer hs)) d = Some (Some W))})"
proof (induction hs arbitrary: dec live)
  case Nil
  then show ?case by (simp add: emptyLayer_def)
next
  case (Cons h hs)
  let ?dec = "fold List.insert (h_delForward h) dec"
  obtain dec1 live1 where 1: "headDocs h (dec, live) = (dec1, live1)" by (cases "headDocs h (dec, live)")
  have "set live \<subseteq> set ?dec" using Cons.prems(1) by auto
  from headDocs_loop [OF this Cons.prems(2), of "map fst (h_fwd h)"]
  have l: "set dec1 = set dec \<union> set (h_delForward h) \<union> fst ` set (h_fwd h)"
    "set live1 = set live \<union> (fst ` set (h_fwd h) - (set dec \<union> set (h_delForward h)))" "distinct live1" "set live1 \<subseteq> set dec1"
    using 1 by (auto simp: headDocs_def case_prod_beta)
  have m: "d \<in> fst ` set (h_fwd h) \<longleftrightarrow> map_of (h_fwd h) d \<noteq> None" for d by (simp add: map_of_eq_None_iff)
  have f: "d \<in> set (h_delForward h) \<or> d \<in> fst ` set (h_fwd h) \<longleftrightarrow> l_fwd (headLayer h) d \<noteq> None"
    "d \<in> fst ` set (h_fwd h) \<and> d \<notin> set (h_delForward h) \<longleftrightarrow> (\<exists>W. l_fwd (headLayer h) d = Some (Some W))" for d
    unfolding m by (auto simp: headLayer_def)
  let ?S = "stack (map headLayer hs)"
  obtain dec' live' where 2: "fold headDocs hs (dec1, live1) = (dec', live')" by (cases "fold headDocs hs (dec1, live1)")
  have ih: "distinct live'" "set live' \<subseteq> set dec'" "set dec' = set dec1 \<union> {d. l_fwd ?S d \<noteq> None}"
    "set live' = set live1 \<union> {d. d \<notin> set dec1 \<and> (\<exists>W. l_fwd ?S d = Some (Some W))}"
    using Cons.IH [OF l(4,3)] unfolding 2 prod.case by blast+
  have "d \<in> set dec' \<longleftrightarrow> d \<in> set dec \<or> l_fwd (over (headLayer h) ?S) d \<noteq> None"
    "d \<in> set live' \<longleftrightarrow> d \<in> set live \<or> d \<notin> set dec \<and> (\<exists>W. l_fwd (over (headLayer h) ?S) d = Some (Some W))" for d
    using f [of d] unfolding ih(3,4) l(1,2) by (cases "l_fwd (headLayer h) d"; auto simp: over_fwd)+
  then show ?case using ih(1,2) by (auto simp: 1 2)
qed

lemma offer_collect: "offer collectDoc ds a = (a @ ds, True)"
  by (induction ds arbitrary: a) (simp_all add: collectDoc_def)

theorem ForwardDocids_stack:
  assumes "codec_ok cs" "list_all2 (segOk cs) (st_segs s) srcs"
  shows "\<exists>ds. ForwardDocids cs s t collectDoc [] = Some ds \<and> distinct ds \<and>
    set ds = (if tableInfo s t = None then {} else {d. content (tableStack t s srcs) d \<noteq> None})"
proof (cases "tableInfo s t")
  case None
  then show ?thesis by (simp add: ForwardDocids_def)
next
  case (Some i)
  obtain dec live where dl: "fold headDocs (headsOf t s) ([], []) = (dec, live)" by (cases "fold headDocs (headsOf t s) ([], [])")
  then have h: "distinct live" "set live \<subseteq> set dec" "set dec = {d. l_fwd (stack (headLayers t s)) d \<noteq> None}"
    "set live = {d. \<exists>W. l_fwd (stack (headLayers t s)) d = Some (Some W)}"
    using headsDocs_ok [of "[]" "[]" "headsOf t s"] by (auto simp: headLayers_def)
  have "list_all2 (segOk cs) (rev (st_segs s)) (rev srcs)" using assms(2) by (simp add: list_all2_rev)
  from forEach_ok [OF assms(1) this h(2,1), of "word_of_int t"] obtain ds where
    ds: "forEachLiveSegmentForward cs (word_of_int t) collectLive (rev (st_segs s)) dec live = Some ds" "distinct ds"
    "set ds = set live \<union> {d. d \<notin> set dec \<and> (\<exists>W. l_fwd (stack (segLayers t srcs)) d = Some (Some W))}"
    by (auto simp: segLayers_def rev_map)
  have "d \<in> set ds \<longleftrightarrow> content (tableStack t s srcs) d \<noteq> None" for d
    unfolding ds(3) h(3,4) content_def tableStack_def stack_append over_fwd
    by (cases "l_fwd (stack (headLayers t s)) d") (auto split: option.splits)
  then have "set ds = {d. content (tableStack t s srcs) d \<noteq> None}" by blast
  then show ?thesis using Some ds(1,2) by (simp add: ForwardDocids_def dl offer_collect)
qed

end
