(* ===== verification/StInv.thy ===== *)
theory StInv
  imports StForward
begin

text \<open>
  The invariant of the segment store and what every operation of the worker does to the contents of the
  tables. The content of a table is a map from documents to keywords: the \<open>live\<close> one that reads see, the
  one without the head, and the \<open>durable\<close> one that the segments have.
\<close>

subsection \<open>The records of a segment\<close>

definition recsOf :: "compressors \<Rightarrow> segment \<Rightarrow> recs" where
  "recsOf cs seg =
     (case scanPrefix_st cs seg [] (prefixUpper []) (\<lambda>acc k v. Some (acc @ [(k, v)])) [] of None \<Rightarrow> [] | Some es \<Rightarrow> es)"

lemma recsOf_eq: "codec_ok cs \<Longrightarrow> holds cs seg es \<Longrightarrow> recsOf cs seg = es"
  by (simp add: recsOf_def holds_scan scanFold_collect)

lemma recsOf_update [simp]: "recsOf cs (seg\<lparr>sg_id := i, sg_minDocid := a, sg_maxDocid := b\<rparr>) = recsOf cs seg" if "codec_ok cs" "holds cs seg es"
  using that recsOf_eq [of cs seg es] recsOf_eq [of cs "seg\<lparr>sg_id := i, sg_minDocid := a, sg_maxDocid := b\<rparr>" es] by simp

subsection \<open>Layers and contents of a table\<close>

definition frontHead :: "int \<Rightarrow> store \<Rightarrow> headTable" where
  "frontHead t s = (case map_of (st_head s) t of None \<Rightarrow> newHeadTable | Some h \<Rightarrow> h)"

definition detachedLayers :: "int \<Rightarrow> store \<Rightarrow> layer list" where
  "detachedLayers t s = map (headLayer \<circ> se_head) (filter (\<lambda>e. se_tableId e = t) (rev (st_spilling s)))"

definition diskLayers :: "compressors \<Rightarrow> int \<Rightarrow> segment list \<Rightarrow> layer list" where
  "diskLayers cs t segs = segLayers t (map (recsOf cs) segs)"

definition tableLayers :: "compressors \<Rightarrow> int \<Rightarrow> store \<Rightarrow> layer list" where
  "tableLayers cs t s = headLayer (frontHead t s) # detachedLayers t s @ diskLayers cs t (st_segs s)"

definition liveOf :: "compressors \<Rightarrow> store \<Rightarrow> int \<Rightarrow> docid \<Rightarrow> bytes set option" where
  "liveOf cs s t = content (stack (tableLayers cs t s))"

definition pendOf :: "compressors \<Rightarrow> store \<Rightarrow> int \<Rightarrow> docid \<Rightarrow> bytes set option" where
  "pendOf cs s t = content (stack (detachedLayers t s @ diskLayers cs t (st_segs s)))"

definition durOf :: "compressors \<Rightarrow> store \<Rightarrow> int \<Rightarrow> docid \<Rightarrow> bytes set option" where
  "durOf cs s t = content (stack (diskLayers cs t (st_segs s)))"

lemma tableLayers_stack: "stack (tableLayers cs t s) = tableStack t s (map (recsOf cs) (st_segs s))"
  by (simp add: tableLayers_def tableStack_def headLayers_def headsOf_def frontHead_def detachedLayers_def diskLayers_def
    comp_def split: option.split)

abbreviation tableRange :: "int \<Rightarrow> bool" where
  "tableRange t \<equiv> 0 \<le> t \<and> t < 2 ^ 32"

subsection \<open>The invariant\<close>

definition segsOk :: "compressors \<Rightarrow> store \<Rightarrow> bool" where
  "segsOk cs s \<longleftrightarrow> (\<forall>seg\<in>set (st_segs s). segOk cs seg (recsOf cs seg)) \<and> sorted_wrt (<) (map sg_id (st_segs s)) \<and>
     (\<forall>seg\<in>set (st_segs s). sg_id seg < mf_NextSegId (st_man s)) \<and> cacheOk cs (st_segs s) (st_dictCache s)"

definition headsOk :: "store \<Rightarrow> bool" where
  "headsOk s \<longleftrightarrow> distinct (map fst (st_head s)) \<and> (\<forall>h\<in>snd ` set (st_head s). headOk h) \<and>
     (\<forall>e\<in>set (st_spilling s). headOk (se_head e)) \<and> length (st_spilling s) \<le> 1 \<and>
     (st_spillInFlight s \<longleftrightarrow> st_spilling s \<noteq> []) \<and> (\<forall>t\<in>fst ` set (st_head s) \<union> se_tableId ` set (st_spilling s). tableRange t)"

definition layersOk :: "compressors \<Rightarrow> store \<Rightarrow> bool" where
  "layersOk cs s \<longleftrightarrow> (\<forall>t. tableRange t \<longrightarrow> good (tableLayers cs t s))"

text \<open>Tables that do not exist yet have no data.\<close>

definition freshOk :: "compressors \<Rightarrow> store \<Rightarrow> bool" where
  "freshOk cs s \<longleftrightarrow> 0 < mf_NextTableId (st_man s) \<and> mf_NextTableId (st_man s) \<le> 2 ^ 32 \<and>
     (\<forall>t\<in>fst ` set (mf_Tables (st_man s)). 0 < t \<and> t < mf_NextTableId (st_man s)) \<and>
     (\<forall>t. mf_NextTableId (st_man s) \<le> t \<and> t < 2 ^ 32 \<longrightarrow> set (tableLayers cs t s) \<subseteq> {emptyLayer})"

definition storeOk :: "compressors \<Rightarrow> store \<Rightarrow> bool" where
  "storeOk cs s \<longleftrightarrow> segsOk cs s \<and> headsOk s \<and> layersOk cs s \<and> freshOk cs s \<and> 0 < o_Chunk (st_opts s)"

lemma segsOk_all2: "segsOk cs s \<Longrightarrow> list_all2 (segOk cs) (st_segs s) (map (recsOf cs) (st_segs s))"
  by (simp add: segsOk_def list.rel_map list.rel_refl_strong)

lemma segsOk_distinct: "segsOk cs s \<Longrightarrow> distinct (map sg_id (st_segs s))"
  by (simp add: segsOk_def strict_sorted_iff)

lemma frontHead_ok: "headsOk s \<Longrightarrow> headOk (frontHead t s)"
  using map_of_SomeD [of "st_head s" t] by (force simp: frontHead_def headsOk_def split: option.split)

text \<open>What the reads return, by the invariant.\<close>

lemma forwardKeywords_ok:
  assumes "codec_ok cs" "storeOk cs s"
  shows "\<exists>ws del c. forwardKeywords cs t d s = Some ((ws, del), s\<lparr>st_dictCache := c\<rparr>) \<and> cacheOk cs (st_segs s) c \<and>
    set ws = priorWords (stack (tableLayers cs t s)) d"
proof -
  have s: "segsOk cs s" using assms(2) by (simp add: storeOk_def)
  then have "cacheOk cs (st_segs s) (st_dictCache s)" by (simp add: segsOk_def)
  from forwardKeywords_stack [OF assms(1) segsOk_all2 [OF s] segsOk_distinct [OF s] this, of t d] show ?thesis
    unfolding tableLayers_stack .
qed

lemma postings_live:
  "storeOk cs s \<Longrightarrow> tableRange t \<Longrightarrow>
   postings (stack (tableLayers cs t s)) kw = {d. \<exists>W. liveOf cs s t d = Some W \<and> kw \<in> W}"
  by (simp add: consistentD good_consistent storeOk_def layersOk_def liveOf_def)

end
