(* ===== verification/StUpd.thy ===== *)
theory StUpd
  imports StInv
begin

text \<open>
  Updates of the segment store: a batch changes the live content of its tables one document after the
  other, whatever heads it detaches on the way, and nothing durable.
\<close>

subsection \<open>The head of one table\<close>

lemma frontHead_update [simp]:
  "frontHead t' (s\<lparr>st_head := AList.update t h (st_head s)\<rparr>) = (if t' = t then h else frontHead t' s)"
  by (simp add: frontHead_def update_conv')

lemma headsOk_update:
  assumes "headsOk s" "headOk h" "tableRange t"
  shows "headsOk (s\<lparr>st_head := AList.update t h (st_head s)\<rparr>)"
proof -
  have h: "\<forall>x\<in>snd ` set (st_head s). headOk x" using assms(1) by (simp add: headsOk_def)
  have "snd ` set (AList.update t h (st_head s)) \<subseteq> insert h (snd ` set (st_head s))"
    using set_update_subset [of t h "st_head s"] by auto
  then have "\<forall>x\<in>snd ` set (AList.update t h (st_head s)). headOk x" using h assms(2) by blast
  moreover have "fst ` set (AList.update t h (st_head s)) = insert t (fst ` set (st_head s))"
    by (simp add: dom_update)
  ultimately show ?thesis using assms(1,3) by (simp add: headsOk_def distinct_update)
qed

text \<open>Detaching a head puts an empty one in its place; every layer stays.\<close>

lemma detachHeadLocked_ok:
  assumes "headsOk s" "st_spilling s = []" "detachHeadLocked t s = (e, s')" "tableRange t"
  shows "headsOk s'" "tableLayers cs t' s' = (if t' = t then emptyLayer # tableLayers cs t s else tableLayers cs t' s)"
    "se_tableId e = t" "se_head e = frontHead t s" "st_spilling s' = [e]"
    "s' = s\<lparr>st_head := st_head s', st_spilling := [e], st_spillInFlight := True, st_spillTempCtr := st_spillTempCtr s'\<rparr>"
proof -
  obtain mn mx where r: "headForwardRange (frontHead t s) = (mn, mx)" by (cases "headForwardRange (frontHead t s)")
  have e: "e = \<lparr>se_tableId = t, se_head = frontHead t s, se_tempN = st_spillTempCtr s + 1, se_minDocid = mn, se_maxDocid = mx\<rparr>"
    and s': "s' = s\<lparr>st_head := AList.update t newHeadTable (st_head s), st_spillTempCtr := st_spillTempCtr s + 1,
      st_spilling := [e], st_spillInFlight := True\<rparr>"
    using assms(2,3) r by (auto simp: detachHeadLocked_def Let_def frontHead_def)
  have u: "headsOk (s\<lparr>st_head := AList.update t newHeadTable (st_head s)\<rparr>)"
    by (rule headsOk_update [OF assms(1) _ assms(4)]) simp
  show "headsOk s'" using u frontHead_ok [OF assms(1), of t] assms(4) by (simp add: s' headsOk_def e)
  have f: "frontHead t' s' = (if t' = t then newHeadTable else frontHead t' s)" by (simp add: s' frontHead_def update_conv')
  show "tableLayers cs t' s' = (if t' = t then emptyLayer # tableLayers cs t s else tableLayers cs t' s)"
    unfolding tableLayers_def f by (simp add: s' detachedLayers_def assms(2) e)
  show "se_tableId e = t" "se_head e = frontHead t s" "st_spilling s' = [e]"
    "s' = s\<lparr>st_head := st_head s', st_spilling := [e], st_spillInFlight := True, st_spillTempCtr := st_spillTempCtr s'\<rparr>"
    by (simp_all add: e s')
qed

subsection \<open>What an operation on heads has to keep\<close>

text \<open>The part of the state that updates leave alone.\<close>

definition sameDisk :: "store \<Rightarrow> store \<Rightarrow> bool" where
  "sameDisk s s' \<longleftrightarrow> st_segs s' = st_segs s \<and> st_man s' = st_man s \<and> st_opts s' = st_opts s"

lemma sameDisk_refl [simp]: "sameDisk s s"
  by (simp add: sameDisk_def)

lemma sameDisk_trans: "sameDisk s s1 \<Longrightarrow> sameDisk s1 s2 \<Longrightarrow> sameDisk s s2"
  by (simp add: sameDisk_def)

lemma sameDisk_durOf: "sameDisk s s' \<Longrightarrow> durOf cs s' = durOf cs s"
  by (simp add: sameDisk_def durOf_def fun_eq_iff)

lemma storeOk_heads:
  assumes "storeOk cs s" "sameDisk s s'" "cacheOk cs (st_segs s) (st_dictCache s')" "headsOk s'"
    and "\<And>t. tableRange t \<Longrightarrow> good (tableLayers cs t s) \<Longrightarrow> good (tableLayers cs t s')"
    and "\<And>t. mf_NextTableId (st_man s) \<le> t \<Longrightarrow> set (tableLayers cs t s') \<subseteq> insert emptyLayer (set (tableLayers cs t s))"
  shows "storeOk cs s'"
proof -
  have d: "st_segs s' = st_segs s" "st_man s' = st_man s" "st_opts s' = st_opts s"
    using assms(2) by (simp_all add: sameDisk_def)
  have "segsOk cs s'" using assms(1,3) by (simp add: storeOk_def segsOk_def d)
  moreover have "layersOk cs s'" using assms(1,5) by (simp add: storeOk_def layersOk_def)
  moreover have f: "freshOk cs s" using assms(1) by (simp add: storeOk_def)
  have "set (tableLayers cs t s') \<subseteq> {emptyLayer}" if "mf_NextTableId (st_man s) \<le> t" "t < 2 ^ 32" for t
  proof -
    have "set (tableLayers cs t s) \<subseteq> {emptyLayer}" using f that by (simp add: freshOk_def)
    with assms(6) [OF that(1)] show ?thesis by blast
  qed
  then have "freshOk cs s'" using f by (simp add: freshOk_def d)
  ultimately show ?thesis using assms(1,4) by (simp add: storeOk_def d)
qed

lemma tableLayers_cache [simp]:
  "tableLayers cs t (s\<lparr>st_dictCache := c\<rparr>) = tableLayers cs t s"
  "detachedLayers t (s\<lparr>st_dictCache := c\<rparr>) = detachedLayers t s"
  by (simp_all add: tableLayers_def detachedLayers_def frontHead_def)

lemma storeOk_cache: "storeOk cs s \<Longrightarrow> cacheOk cs (st_segs s) c \<Longrightarrow> storeOk cs (s\<lparr>st_dictCache := c\<rparr>)"
  by (rule storeOk_heads [of cs s]) (auto simp: sameDisk_def storeOk_def headsOk_def)

subsection \<open>One update\<close>

text \<open>The guards of an update: the table was created, and the document id is not negative.\<close>

definition opOk :: "store \<Rightarrow> updateOp \<Rightarrow> bool" where
  "opOk s op \<longleftrightarrow> 0 < uo_tableId op \<and> uo_tableId op < mf_NextTableId (st_man s) \<and> 0 \<le> sint (uo_docid op)"

definition specOp :: "updateOp \<Rightarrow> (int \<Rightarrow> docid \<Rightarrow> bytes set option) \<Rightarrow> int \<Rightarrow> docid \<Rightarrow> bytes set option" where
  "specOp op c = c(uo_tableId op := (c (uo_tableId op))(uo_docid op :=
     if uo_keywords op = [] then None else Some (set (uo_keywords op))))"

lemma opOk_range: "storeOk cs s \<Longrightarrow> opOk s op \<Longrightarrow> tableRange (uo_tableId op)"
  by (simp add: opOk_def storeOk_def freshOk_def)

lemma headStep_ok:
  fixes s op cs old
  defines "t \<equiv> uo_tableId op" and "d \<equiv> uo_docid op" and "kws \<equiv> uo_keywords op"
  assumes s: "storeOk cs s" "opOk s op" and old: "set old = priorWords (stack (tableLayers cs t s)) d"
    and s': "st_head s' = AList.update t (repost d kws old (frontHead t s)) (st_head s)"
      "st_spilling s' = st_spilling s" "st_spillInFlight s' = st_spillInFlight s" "st_dictCache s' = st_dictCache s" "sameDisk s s'"
  shows "storeOk cs s'" "liveOf cs s' = specOp op (liveOf cs s)" "pendOf cs s' = pendOf cs s"
proof -
  have h: "headsOk s" "headOk (frontHead t s)" using s(1) frontHead_ok by (auto simp: storeOk_def)
  have d0: "0 \<le> sint d" using s(2) by (simp add: opOk_def d_def)
  have r: "tableRange t" using opOk_range [OF s] by (simp add: t_def)
  note rp = repost_layer [OF h(2) d0, of kws old]
  have lay: "tableLayers cs t' s' = (if t' = t then setDoc d (set kws) (set old) (headLayer (frontHead t s)) # tl (tableLayers cs t s)
      else tableLayers cs t' s)" for t'
    using s'(2,5) rp(2) by (simp add: tableLayers_def frontHead_def s'(1) update_conv' detachedLayers_def sameDisk_def)
  have g: "good (tableLayers cs t s)" using s(1) r by (simp add: storeOk_def layersOk_def)
  have tl: "tableLayers cs t s = headLayer (frontHead t s) # tl (tableLayers cs t s)" by (simp add: tableLayers_def)
  have gd: "good (headLayer (frontHead t s) # tl (tableLayers cs t s))"
    and old': "set old = priorWords (stack (headLayer (frontHead t s) # tl (tableLayers cs t s))) d"
    using g old unfolding tl [symmetric] by simp_all
  note sd = good_setDoc [OF gd old', of "set kws"]
  have "headsOk (s\<lparr>st_head := st_head s'\<rparr>)" unfolding s'(1) by (rule headsOk_update [OF h(1) rp(1) r])
  then have hk: "headsOk s'" using s'(2,3) by (simp add: headsOk_def)
  show "storeOk cs s'"
  proof (rule storeOk_heads [OF s(1) s'(5) _ hk])
    show "cacheOk cs (st_segs s) (st_dictCache s')" using s(1) by (simp add: storeOk_def segsOk_def s'(4))
    show "good (tableLayers cs t' s')" if "good (tableLayers cs t' s)" for t' using that sd(1) by (simp add: lay)
    show "set (tableLayers cs t' s') \<subseteq> insert emptyLayer (set (tableLayers cs t' s))" if "mf_NextTableId (st_man s) \<le> t'" for t'
      using that s(2) by (auto simp: lay opOk_def t_def)
  qed
  have live: "liveOf cs s' t' = (if t' = t then (liveOf cs s t)(d := if kws = [] then None else Some (set kws)) else liveOf cs s t')" for t'
    using sd(2) unfolding tl [symmetric] liveOf_def lay by simp
  show "liveOf cs s' = specOp op (liveOf cs s)"
    by (rule ext) (simp add: live specOp_def t_def d_def kws_def)
  show "pendOf cs s' = pendOf cs s" using s'(2,5) by (simp add: fun_eq_iff pendOf_def detachedLayers_def sameDisk_def)
qed

lemma detach_ok:
  assumes s: "storeOk cs s" "st_spilling s = []" and r: "tableRange t" and e: "detachHeadLocked t s = (e, s')"
  shows "storeOk cs s'" "liveOf cs s' = liveOf cs s" "pendOf cs s' = (durOf cs s)(t := liveOf cs s t)" "sameDisk s s'"
    "st_liveByTable s' = st_liveByTable s"
proof -
  have "headsOk s" using s(1) by (simp add: storeOk_def)
  note dt = detachHeadLocked_ok [OF this s(2) e r]
  have same: "st_segs s' = st_segs s" "st_man s' = st_man s" "st_opts s' = st_opts s" "st_dictCache s' = st_dictCache s" "st_liveByTable s' = st_liveByTable s"
    by (subst dt(6), simp)+
  then show sd: "sameDisk s s'" "st_liveByTable s' = st_liveByTable s" by (simp_all add: sameDisk_def)
  show "storeOk cs s'"
  proof (rule storeOk_heads [OF s(1) sd(1) _ dt(1)])
    show "cacheOk cs (st_segs s) (st_dictCache s')" using s(1) by (simp add: storeOk_def segsOk_def same)
    show "good (tableLayers cs t' s')" if "good (tableLayers cs t' s)" for t'
      using that good_consistent [OF that] by (auto simp: dt(2))
    show "set (tableLayers cs t' s') \<subseteq> insert emptyLayer (set (tableLayers cs t' s))" for t' by (auto simp: dt(2))
  qed
  show "liveOf cs s' = liveOf cs s" by (simp add: fun_eq_iff liveOf_def dt(2))
  show "pendOf cs s' = (durOf cs s)(t := liveOf cs s t)"
    by (simp add: fun_eq_iff pendOf_def durOf_def liveOf_def tableLayers_def detachedLayers_def dt(3,4,5) s(2) same(1))
qed

subsection \<open>The counter of live postings\<close>

text \<open>The counter of a table is the number of pairs of a document and a keyword of the document. Updates
  change both alike.\<close>

definition wordsOf :: "bytes set option \<Rightarrow> bytes set" where
  "wordsOf x = (case x of None \<Rightarrow> {} | Some W \<Rightarrow> W)"

lemma priorWords_live: "priorWords (stack (tableLayers cs t s)) d = wordsOf (liveOf cs s t d)"
  by (simp add: priorWords_def wordsOf_def liveOf_def)

definition countOf :: "(docid \<Rightarrow> bytes set option) \<Rightarrow> int" where
  "countOf c = (\<Sum>d\<in>UNIV. int (card (wordsOf (c d))))"

definition countFor :: "(int \<times> int) list \<Rightarrow> int \<Rightarrow> int" where
  "countFor lv t = (case map_of lv t of None \<Rightarrow> 0 | Some n \<Rightarrow> n)"

lemma countFor_update [simp]: "countFor (AList.update t n lv) t' = (if t' = t then n else countFor lv t')"
  by (simp add: countFor_def update_conv')

lemma countOf_fun_upd: "countOf (c(d := x)) = countOf c - int (card (wordsOf (c d))) + int (card (wordsOf x))"
proof -
  have "countOf c = int (card (wordsOf (c d))) + (\<Sum>d\<in>UNIV - {d}. int (card (wordsOf (c d))))"
    unfolding countOf_def by (rule sum.remove) simp_all
  moreover have "countOf (c(d := x)) = int (card (wordsOf x)) + (\<Sum>d\<in>UNIV - {d}. int (card (wordsOf (c d))))"
    unfolding countOf_def by (subst sum.remove [of _ d]) (auto intro!: sum.cong)
  ultimately show ?thesis by simp
qed

definition countDelta :: "compressors \<Rightarrow> store \<Rightarrow> store \<Rightarrow> bool" where
  "countDelta cs s s' \<longleftrightarrow> (\<forall>t. countFor (st_liveByTable s') t - countOf (liveOf cs s' t) =
     countFor (st_liveByTable s) t - countOf (liveOf cs s t))"

lemma countDelta_trans: "countDelta cs s s1 \<Longrightarrow> countDelta cs s1 s2 \<Longrightarrow> countDelta cs s s2"
  by (simp add: countDelta_def)

lemma countDelta_specOp:
  assumes "liveOf cs s' = specOp op (liveOf cs s)" "set old = wordsOf (liveOf cs s (uo_tableId op) (uo_docid op))"
    and "lv = countFor (st_liveByTable s) (uo_tableId op)"
    and "st_liveByTable s' = AList.update (uo_tableId op) (if uo_keywords op = [] then lv - distinctStrings old
        else lv + (int (length (remdups (uo_keywords op))) - distinctStrings old)) (st_liveByTable s)"
  shows "countDelta cs s s'"
proof -
  have c: "distinctStrings old = int (card (wordsOf (liveOf cs s (uo_tableId op) (uo_docid op))))"
    using assms(2) by (simp add: distinctStrings_def length_remdups_card_conv)
  have "countOf (specOp op (liveOf cs s) (uo_tableId op)) = countOf (liveOf cs s (uo_tableId op)) - distinctStrings old +
      int (length (remdups (uo_keywords op)))"
    by (auto simp: specOp_def countOf_fun_upd c wordsOf_def length_remdups_card_conv)
  then show ?thesis unfolding countDelta_def assms(1,3,4) by (auto simp: specOp_def)
qed

text \<open>One operation: it may detach the head of its table.\<close>

lemma spillInFlight_iff: "storeOk cs s \<Longrightarrow> st_spillInFlight s \<longleftrightarrow> st_spilling s \<noteq> []"
  by (simp add: storeOk_def headsOk_def)

lemma applyOneOp_ok:
  assumes s: "storeOk cs s" "opOk s op" and old: "set old = priorWords (stack (tableLayers cs (uo_tableId op) s)) (uo_docid op)"
    and a: "applyOneOp op old s = (e, s')"
  shows "storeOk cs s' \<and> liveOf cs s' = specOp op (liveOf cs s) \<and> sameDisk s s' \<and> countDelta cs s s' \<and>
    (case e of None \<Rightarrow> st_spilling s' = st_spilling s \<and> pendOf cs s' = pendOf cs s
     | Some x \<Rightarrow> st_spilling s = [] \<and> st_spilling s' = [x] \<and> se_tableId x = uo_tableId op \<and>
         pendOf cs s' = (durOf cs s)(uo_tableId op := liveOf cs s' (uo_tableId op)))"
proof -
  let ?t = "uo_tableId op"
  define h' where "h' = repost (uo_docid op) (uo_keywords op) old (frontHead ?t s)"
  define lv where "lv = (case map_of (st_liveByTable s) ?t of None \<Rightarrow> 0 | Some n \<Rightarrow> n)"
  define s1 where "s1 = s\<lparr>st_head := AList.update ?t h' (st_head s), st_liveByTable := AList.update ?t
    (if uo_keywords op = [] then lv - distinctStrings old
     else lv + (int (length (remdups (uo_keywords op))) - distinctStrings old)) (st_liveByTable s)\<rparr>"
  have eq: "applyOneOp op old s =
      (if o_CapBytes (st_opts s) \<le> h_bytes h' then
         if \<not> st_spillInFlight s1 then case detachHeadLocked ?t s1 of (e, s'') \<Rightarrow> (Some e, s'')
         else (None, s1\<lparr>st_blockProducer := True\<rparr>)
       else (None, s1))"
    by (simp add: applyOneOp_def Let_def s1_def h'_def lv_def frontHead_def)
  have stp: "storeOk cs s2 \<and> liveOf cs s2 = specOp op (liveOf cs s) \<and> pendOf cs s2 = pendOf cs s \<and> sameDisk s s2 \<and>
      countDelta cs s s2 \<and> st_spilling s2 = st_spilling s"
    if "s2 = s1 \<or> s2 = s1\<lparr>st_blockProducer := True\<rparr>" for s2
  proof -
    have f: "st_head s2 = AList.update ?t h' (st_head s)" "st_spilling s2 = st_spilling s" "st_spillInFlight s2 = st_spillInFlight s"
      "st_dictCache s2 = st_dictCache s" "sameDisk s s2" using that by (auto simp: s1_def sameDisk_def)
    note k = headStep_ok [OF s old f [unfolded h'_def]]
    have "countDelta cs s s2"
      by (rule countDelta_specOp [OF k(2)]) (use that old in \<open>auto simp: s1_def lv_def countFor_def priorWords_live\<close>)
    with k f(2,5) show ?thesis by simp
  qed
  have k1: "storeOk cs s1" "liveOf cs s1 = specOp op (liveOf cs s)" "pendOf cs s1 = pendOf cs s" "sameDisk s s1"
    "countDelta cs s s1" "st_spilling s1 = st_spilling s" using stp [of s1] by simp_all
  show ?thesis
  proof (cases "o_CapBytes (st_opts s) \<le> h_bytes h' \<and> \<not> st_spillInFlight s1")
    case True
    obtain x s2 where d: "detachHeadLocked ?t s1 = (x, s2)" by (cases "detachHeadLocked ?t s1")
    have es: "e = Some x" "s' = s2" using a True by (simp_all add: eq d)
    have sp: "st_spilling s1 = []" using True spillInFlight_iff [OF k1(1)] by simp
    have "headsOk s1" using k1(1) by (simp add: storeOk_def)
    note x = detachHeadLocked_ok(3,5) [OF this sp d opOk_range [OF s]] and k2 = detach_ok [OF k1(1) sp opOk_range [OF s] d]
    have "countDelta cs s s2" using k1(5) k2(2,5) by (simp add: countDelta_def)
    then show ?thesis
      using k2 x k1 sp sameDisk_trans [OF k1(4) k2(4)] sameDisk_durOf [OF k1(4), of cs] by (simp add: es)
  next
    case False
    then have "e = None \<and> (s' = s1 \<or> s' = s1\<lparr>st_blockProducer := True\<rparr>)" using a by (auto simp: eq split: if_splits)
    then show ?thesis using stp [of s'] by auto
  qed
qed

subsection \<open>A batch\<close>

definition seenOk :: "compressors \<Rightarrow> ((int \<times> docid) \<times> bytes list) list \<Rightarrow> store \<Rightarrow> bool" where
  "seenOk cs seen s \<longleftrightarrow> (\<forall>t d w. map_of seen (t, d) = Some w \<longrightarrow> set w = wordsOf (liveOf cs s t d))"

lemma seenOk_step:
  "seenOk cs seen s \<Longrightarrow> liveOf cs s' = specOp op (liveOf cs s) \<Longrightarrow>
   seenOk cs (AList.update (uo_tableId op, uo_docid op) (uo_keywords op) seen) s'"
  by (auto simp: seenOk_def update_conv' specOp_def wordsOf_def split: if_splits)

text \<open>What a batch leaves detached: nothing new, or the content of one table after some operations.\<close>

definition detachedBy :: "compressors \<Rightarrow> updateOp list \<Rightarrow> spillEntry list \<Rightarrow> store \<Rightarrow> store \<Rightarrow> bool" where
  "detachedBy cs ops es s s' \<longleftrightarrow>
     (es = [] \<and> st_spilling s' = st_spilling s \<and> pendOf cs s' = pendOf cs s) \<or>
     (\<exists>x n. es = [x] \<and> st_spilling s = [] \<and> st_spilling s' = [x] \<and> n \<le> length ops \<and>
        pendOf cs s' = (durOf cs s)(se_tableId x := fold specOp (take n ops) (liveOf cs s) (se_tableId x)))"

lemma detachedBy_Cons:
  assumes "case e of None \<Rightarrow> st_spilling s1 = st_spilling s \<and> pendOf cs s1 = pendOf cs s
     | Some x \<Rightarrow> st_spilling s = [] \<and> st_spilling s1 = [x] \<and> se_tableId x = uo_tableId op \<and>
         pendOf cs s1 = (durOf cs s)(uo_tableId op := liveOf cs s1 (uo_tableId op))"
    and l: "liveOf cs s1 = specOp op (liveOf cs s)" and d: "durOf cs s1 = durOf cs s" and r: "detachedBy cs ops es s1 s'"
  shows "detachedBy cs (op # ops) (case e of None \<Rightarrow> es | Some x \<Rightarrow> x # es) s s'"
proof (cases e)
  case None
  then have n: "st_spilling s1 = st_spilling s" "pendOf cs s1 = pendOf cs s" using assms(1) by simp_all
  from r consider "es = []" "st_spilling s' = st_spilling s1" "pendOf cs s' = pendOf cs s1"
    | x n where "es = [x]" "st_spilling s1 = []" "st_spilling s' = [x]" "n \<le> length ops"
      "pendOf cs s' = (durOf cs s1)(se_tableId x := fold specOp (take n ops) (liveOf cs s1) (se_tableId x))"
    unfolding detachedBy_def by blast
  then show ?thesis
  proof cases
    case 1
    then show ?thesis using n by (simp add: None detachedBy_def)
  next
    case 2
    then have "Suc n \<le> length (op # ops)" "pendOf cs s' = (durOf cs s)(se_tableId x :=
      fold specOp (take (Suc n) (op # ops)) (liveOf cs s) (se_tableId x))" by (simp_all add: l d)
    then show ?thesis using 2 n unfolding None detachedBy_def by auto
  qed
next
  case (Some x)
  then have n: "st_spilling s = []" "st_spilling s1 = [x]" "se_tableId x = uo_tableId op"
    "pendOf cs s1 = (durOf cs s)(uo_tableId op := liveOf cs s1 (uo_tableId op))" using assms(1) by simp_all
  have e: "es = []" "st_spilling s' = [x]" "pendOf cs s' = pendOf cs s1" using r n(2) by (auto simp: detachedBy_def)
  have "pendOf cs s' = (durOf cs s)(se_tableId x := fold specOp (take (Suc 0) (op # ops)) (liveOf cs s) (se_tableId x))"
    using e n by (simp add: l)
  then show ?thesis using e n unfolding Some detachedBy_def by force
qed

lemma applyOps_ok:
  assumes cs: "codec_ok cs"
  shows "storeOk cs s \<Longrightarrow> \<forall>op\<in>set ops. opOk s op \<Longrightarrow> seenOk cs seen s \<Longrightarrow>
    \<exists>es s'. applyOps cs ops seen s = Some (es, s') \<and> storeOk cs s' \<and> sameDisk s s' \<and> countDelta cs s s' \<and>
      liveOf cs s' = fold specOp ops (liveOf cs s) \<and> detachedBy cs ops es s s'"
proof (induction ops arbitrary: seen s)
  case Nil
  then show ?case by (simp add: detachedBy_def countDelta_def)
next
  case (Cons op ops)
  let ?k = "(uo_tableId op, uo_docid op)"
  define rd where "rd = (case map_of seen ?k of Some w \<Rightarrow> Some (w, s)
      | None \<Rightarrow> map_option (\<lambda>((w, _), s'). (w, s')) (forwardKeywords cs (uo_tableId op) (uo_docid op) s))"
  have "\<exists>old c. rd = Some (old, s\<lparr>st_dictCache := c\<rparr>) \<and> cacheOk cs (st_segs s) c \<and>
      set old = wordsOf (liveOf cs s (uo_tableId op) (uo_docid op))"
  proof (cases "map_of seen ?k")
    case None
    then show ?thesis using forwardKeywords_ok [OF cs Cons.prems(1), of "uo_tableId op" "uo_docid op"]
      by (auto simp: rd_def priorWords_live)
  next
    case (Some w)
    have "cacheOk cs (st_segs s) (st_dictCache s)" using Cons.prems(1) by (simp add: storeOk_def segsOk_def)
    then show ?thesis using Some Cons.prems(3) unfolding seenOk_def rd_def
      by (intro exI [of _ w] exI [of _ "st_dictCache s"]) simp
  qed
  then obtain old c where rd: "rd = Some (old, s\<lparr>st_dictCache := c\<rparr>)" "cacheOk cs (st_segs s) c"
    "set old = wordsOf (liveOf cs s (uo_tableId op) (uo_docid op))" by blast
  let ?s1 = "s\<lparr>st_dictCache := c\<rparr>"
  have k1: "storeOk cs ?s1" by (rule storeOk_cache [OF Cons.prems(1) rd(2)])
  have eq1: "liveOf cs ?s1 = liveOf cs s" "durOf cs ?s1 = durOf cs s" "pendOf cs ?s1 = pendOf cs s" "sameDisk s ?s1"
    by (simp_all add: fun_eq_iff liveOf_def durOf_def pendOf_def sameDisk_def)
  have o1: "opOk ?s1 op" using Cons.prems(2) by (simp add: opOk_def)
  obtain e s2 where a: "applyOneOp op old ?s1 = (e, s2)" by (cases "applyOneOp op old ?s1")
  have old: "set old = priorWords (stack (tableLayers cs (uo_tableId op) ?s1)) (uo_docid op)"
    by (simp add: rd(3) priorWords_live eq1(1))
  note k2 = applyOneOp_ok [OF k1 o1 old a]
  have sd: "sameDisk s s2" using k2 eq1(4) sameDisk_trans by blast
  have l2: "liveOf cs s2 = specOp op (liveOf cs s)" using k2 eq1 by simp
  have "\<forall>op\<in>set ops. opOk s2 op" using Cons.prems(2) sd by (simp add: opOk_def sameDisk_def)
  from Cons.IH [OF _ this seenOk_step [OF Cons.prems(3) l2]] k2 obtain es s' where
    r: "applyOps cs ops (AList.update ?k (uo_keywords op) seen) s2 = Some (es, s')" "storeOk cs s'" "sameDisk s2 s'" "countDelta cs s2 s'"
      "liveOf cs s' = fold specOp ops (liveOf cs s2)" "detachedBy cs ops es s2 s'" by blast
  have "applyOps cs (op # ops) seen s = Some (case e of None \<Rightarrow> es | Some x \<Rightarrow> x # es, s')"
    unfolding applyOps.simps Let_def rd_def [symmetric] rd(1) by (simp add: a r(1))
  moreover have "st_spilling ?s1 = st_spilling s" by simp
  note dt = conjunct2 [OF conjunct2 [OF conjunct2 [OF conjunct2 [OF k2]]], unfolded this eq1]
  have "detachedBy cs (op # ops) (case e of None \<Rightarrow> es | Some x \<Rightarrow> x # es) s s'"
    by (rule detachedBy_Cons [OF dt l2 sameDisk_durOf [OF sd] r(6)])
  moreover have "countDelta cs s s'"
  proof (rule countDelta_trans [OF _ r(4)])
    have "countDelta cs ?s1 s2" using k2 by blast
    then show "countDelta cs s s2" unfolding countDelta_def eq1(1) by simp
  qed
  ultimately show ?case using r sameDisk_trans [OF sd r(3)] l2 by simp
qed

theorem applyBatch_ok:
  assumes cs: "codec_ok cs" and s: "storeOk cs s" "\<forall>op\<in>set ops. opOk s op"
  shows "\<exists>es s'. applyBatch cs ops s = Some (es, s') \<and> storeOk cs s' \<and> sameDisk s s' \<and> countDelta cs s s' \<and>
      liveOf cs s' = fold specOp ops (liveOf cs s) \<and> detachedBy cs ops es s s'"
proof -
  have "seenOk cs [] s" by (simp add: seenOk_def)
  note r = applyOps_ok [OF cs s this]
  have "applyBatch cs [op] s = applyOps cs [op] [] s" for op
    by (simp add: applyBatch_def Let_def split: option.splits prod.splits bind_splits)
  then have "applyBatch cs ops s = applyOps cs ops [] s"
    by (cases ops rule: remdups_adj.cases) (simp_all add: applyBatch_def)
  with r show ?thesis by simp
qed

end
