(* ===== verification/StDisk.thy ===== *)
theory StDisk
  imports StUpd
begin

text \<open>
  New segments and the disk. A spilled head and a merge give segments that satisfy the invariant; the
  MANIFEST and the segment files agree with the segments in memory. The installation of a spill makes
  durable what was pending.
\<close>

subsection \<open>Document ranges\<close>

lemma noteDocid_fold:
  "sint (fst (fold noteDocid ds r)) \<le> sint (fst r) \<and> sint (snd r) \<le> sint (snd (fold noteDocid ds r)) \<and>
   (\<forall>d\<in>set ds. sint (fst (fold noteDocid ds r)) \<le> sint d \<and> sint d \<le> sint (snd (fold noteDocid ds r)))"
proof (induction ds arbitrary: r)
  case (Cons d ds)
  have "sint (fst (noteDocid d r)) \<le> sint d" "sint d \<le> sint (snd (noteDocid d r))"
    "sint (fst (noteDocid d r)) \<le> sint (fst r)" "sint (snd r) \<le> sint (snd (noteDocid d r))"
    by (simp_all add: noteDocid_def)
  then show ?case using Cons.IH [of "noteDocid d r"] by fastforce
qed simp

lemma rangeOf_covers:
  assumes "map_of es (forwardKey t d) \<noteq> None" "(sg_minDocid seg, sg_maxDocid seg) = rangeOf es"
  shows "coversDocid seg d"
proof -
  obtain v where "(forwardKey t d, v) \<in> set es" using assms(1) by (auto dest: map_of_SomeD)
  then have "d \<in> set (map (docidOf \<circ> fst) (filter (\<lambda>kv. keyType (fst kv) = Some ktForward) es))"
    by (force simp: image_iff)
  then show ?thesis using noteDocid_fold [of "map (docidOf \<circ> fst) (filter (\<lambda>kv. keyType (fst kv) = Some ktForward) es)" emptyDocidRange]
    assms(2) by (metis coversDocid_def fst_conv rangeOf_def snd_conv)
qed

lemma headRange_covers:
  assumes h: "headOk h" and d: "map_of (headEntries h t) (forwardKey t' d) \<noteq> None"
    and r: "(sg_minDocid seg, sg_maxDocid seg) = headRange h"
  shows "coversDocid seg d"
proof -
  have "d \<in> set (h_delForward h) \<or> map_of (h_fwd h) d \<noteq> None"
    using d by (auto simp: headEntries_forward [OF h] headFwdVal_def split: if_splits)
  then have "\<exists>x\<in>set (headFwdRecs h). fr_docid x = d"
    by (force simp: headFwdRecs_ex dest!: map_of_SomeD)
  then obtain x where x: "x \<in> set (headFwdRecs h)" "fr_docid x = d" by blast
  have srt: "sorted (map (\<lambda>r. sint (fr_docid r)) (headFwdRecs h))" by (simp add: headFwdRecs_def)
  have ne: "headFwdRecs h \<noteq> []" using x(1) by auto
  have "sint (fr_docid (hd (headFwdRecs h))) \<le> sint d"
    using srt x ne by (cases "headFwdRecs h") auto
  moreover have "sint d \<le> sint (fr_docid (last (headFwdRecs h)))"
  proof -
    obtain i where i: "i < length (headFwdRecs h)" "headFwdRecs h ! i = x" using x(1) by (metis in_set_conv_nth)
    then show ?thesis using sorted_nth_mono [OF srt, of i "length (headFwdRecs h) - 1"] x(2) ne by (simp add: last_conv_nth)
  qed
  ultimately show ?thesis using r ne by (simp add: coversDocid_def headRange_def Let_def)
qed

subsection \<open>Segments that were opened from their files\<close>

definition opened :: "segment \<Rightarrow> bool" where
  "opened seg \<longleftrightarrow> (\<exists>seg0. openSegment (sg_file seg) = Some seg0 \<and>
     seg = seg0\<lparr>sg_id := sg_id seg, sg_minDocid := sg_minDocid seg, sg_maxDocid := sg_maxDocid seg\<rparr>)"

lemma openSegment_file: "openSegment f = Some seg \<Longrightarrow> sg_file seg = f"
  by (auto simp: openSegment_def Let_def split: bind_split_asm)

lemma opened_finish: "finish cs w = Some seg \<Longrightarrow> opened (seg\<lparr>sg_id := i, sg_minDocid := a, sg_maxDocid := b\<rparr>)"
  using openSegment_file by (fastforce simp: finish_def opened_def)

lemma opened_merge: "mergeSegments cs o' segs outId level c cov L = Some (seg, sm) \<Longrightarrow> opened seg"
  by (auto simp: mergeSegments_def opened_finish split: bind_split_asm)

text \<open>What a detached head is encoded to.\<close>

definition spillFits :: "compressors \<Rightarrow> storeOptions \<Rightarrow> headTable \<Rightarrow> int \<Rightarrow> bool" where
  "spillFits cs o' h t \<longleftrightarrow> headFits h (word_of_int t) \<and>
     segFits cs (segWriterFor o' (o_DataCodecL0 o')) (headEntries h (word_of_int t))"

lemma encodeHeadToFile_ok:
  assumes "codec_ok cs" "headOk h" "0 < o_Chunk o'" "spillFits cs o' h t"
  shows "\<exists>r. encodeHeadToFile cs o' h t = Some r \<and> opened (spilledSegment r i) \<and> sg_id (spilledSegment r i) = i \<and>
    segOk cs (spilledSegment r i) (headEntries h (word_of_int t)) \<and> (sr_minD r, sr_maxD r) = headRange h"
proof -
  let ?es = "headEntries h (word_of_int t)"
  have f: "headFits h (word_of_int t)" "segFits cs (segWriterFor o' (o_DataCodecL0 o')) ?es" using assms(4) by (simp_all add: spillFits_def)
  have wf: "wfRecs ?es" by (rule headEntries_wf [OF assms(2) f(1)])
  from write_holds [OF assms(1,3) _ wfRecs_wfKey [OF wf] f(2) [unfolded segWriterFor_def]] wf obtain w s where
    w: "addEntries cs ?es (segWriterFor o' (o_DataCodecL0 o')) = Some w" "finish cs w = Some s" "holds cs s ?es"
    unfolding segWriterFor_def wfRecs_def by blast
  let ?r = "\<lparr>sr_seg = s, sr_minD = fst (headRange h), sr_maxD = snd (headRange h), sr_postings = headPostings h\<rparr>"
  have e: "encodeHeadToFile cs o' h t = Some ?r" by (simp add: encodeHeadToFile_def w)
  have "segOk cs (spilledSegment ?r i) ?es"
    using wf w(3) headRange_covers [OF assms(2), of "word_of_int t"] by (simp add: segOk_def spilledSegment_def)
  then show ?thesis using e opened_finish [OF w(2)] by (simp add: spilledSegment_def)
qed

subsection \<open>The MANIFEST and the files\<close>

definition metasOk :: "segMeta list \<Rightarrow> segment list \<Rightarrow> bool" where
  "metasOk sms segs \<longleftrightarrow> distinct (map sm_Id sms) \<and> set (map sm_Id sms) = set (map sg_id segs) \<and>
     (\<forall>sm\<in>set sms. \<forall>seg\<in>set segs. sm_Id sm = sg_id seg \<longrightarrow>
        sm_MinDocid sm = sg_minDocid seg \<and> sm_MaxDocid sm = sg_maxDocid seg)"

definition manOk :: "store \<Rightarrow> bool" where
  "manOk s \<longleftrightarrow> metasOk (mf_Segments (st_man s)) (st_segs s) \<and> mf_FormatVersion (st_man s) = 3 \<and>
     (\<forall>seg\<in>set (st_segs s). opened seg) \<and> distinct (map fst (mf_Tables (st_man s)))"

text \<open>What a crash would leave: the MANIFEST of the last write, with the files it names.\<close>

definition diskOk :: "compressors \<Rightarrow> store \<Rightarrow> disk \<Rightarrow> bool" where
  "diskOk cs s d \<longleftrightarrow> (let m = readManifest d in
     mf_Segments m = mf_Segments (st_man s) \<and> mf_FormatVersion m = 3 \<and> distinct (map fst (mf_Tables m)) \<and>
     (\<forall>seg\<in>set (st_segs s). map_of (dk_segs d) (sg_id seg) = Some (sg_file seg) \<and> sg_id seg < mf_NextSegId m) \<and>
     0 < mf_NextTableId m \<and> mf_NextTableId m \<le> mf_NextTableId (st_man s) \<and> (\<forall>t\<in>fst ` set (mf_Tables m). 0 < t \<and> t < mf_NextTableId m) \<and>
     (\<forall>t. mf_NextTableId m \<le> t \<and> t < 2 ^ 32 \<longrightarrow> set (diskLayers cs t (st_segs s)) \<subseteq> {emptyLayer}))"

definition sysOk :: "compressors \<Rightarrow> store \<Rightarrow> disk \<Rightarrow> bool" where
  "sysOk cs s d \<longleftrightarrow> storeOk cs s \<and> manOk s \<and> diskOk cs s d"

text \<open>After a successful write the disk has the manifest in memory.\<close>

lemma diskOk_written:
  assumes "storeOk cs s" "manOk s" "readManifest d = st_man s"
    and "\<forall>seg\<in>set (st_segs s). map_of (dk_segs d) (sg_id seg) = Some (sg_file seg)"
  shows "diskOk cs s d"
proof -
  have f: "freshOk cs s" and g: "segsOk cs s" using assms(1) by (simp_all add: storeOk_def)
  have "set (diskLayers cs t (st_segs s)) \<subseteq> {emptyLayer}" if "mf_NextTableId (st_man s) \<le> t" "t < 2 ^ 32" for t
  proof -
    have "set (tableLayers cs t s) \<subseteq> {emptyLayer}" using f that by (simp add: freshOk_def)
    then show ?thesis by (simp add: tableLayers_def)
  qed
  then show ?thesis using assms(2,4) f g by (simp add: diskOk_def assms(3) Let_def manOk_def freshOk_def segsOk_def)
qed

lemma readManifest_write [simp]: "readManifest (d\<lparr>dk_MANIFEST := Some m\<rparr>) = m"
  "readManifest (d\<lparr>dk_segs := x\<rparr>) = readManifest d" "readManifest (d\<lparr>dk_temps := y\<rparr>) = readManifest d"
  by (simp_all add: readManifest_def)

text \<open>The disk does not know about the heads.\<close>

lemma sysOk_sameDisk: "sysOk cs s d \<Longrightarrow> storeOk cs s' \<Longrightarrow> sameDisk s s' \<Longrightarrow> sysOk cs s' d"
  by (simp add: sysOk_def manOk_def diskOk_def sameDisk_def)

subsection \<open>A new segment on top\<close>

lemma segsOk_snoc:
  assumes s: "segsOk cs s" and g: "codec_ok cs" "segOk cs seg es" "sg_id seg = mf_NextSegId (st_man s)"
    and s': "st_segs s' = st_segs s @ [seg]" "mf_NextSegId (st_man s') = mf_NextSegId (st_man s) + 1" "st_dictCache s' = st_dictCache s"
  shows "segsOk cs s'"
proof -
  have es: "recsOf cs seg = es" using g by (simp add: segOk_def recsOf_eq)
  have ids: "\<forall>x\<in>set (st_segs s). sg_id x < mf_NextSegId (st_man s)" and c: "cacheOk cs (st_segs s) (st_dictCache s)"
    using s by (simp_all add: segsOk_def)
  have "\<forall>e\<in>set (cl_ll (st_dictCache s)). fst (fst e) \<noteq> sg_id seg"
    using c ids g(3) by (fastforce simp: cacheOk_def)
  then have "coherent cs seg (st_dictCache s)" by (force simp: coherent_def)
  then have "cacheOk cs (st_segs s @ [seg]) (st_dictCache s)" using c by (auto simp: cacheOk_def)
  then show ?thesis using s g(2,3) ids by (auto simp: segsOk_def s' sorted_wrt_append es less_Suc_eq)
qed

lemma uint_table: "tableRange t \<Longrightarrow> uint (word_of_int t :: tid) = t"
  by (simp add: uint_word_of_int)

lemma word_of_int_inj: "tableRange t \<Longrightarrow> tableRange t' \<Longrightarrow> (word_of_int t :: tid) = word_of_int t' \<longleftrightarrow> t = t'"
  by (metis uint_table)

lemma diskLayers_spill:
  assumes "codec_ok cs" "headOk h" "headFits h (word_of_int t)" "segOk cs seg (headEntries h (word_of_int t))"
    and "tableRange t" "tableRange t'"
  shows "diskLayers cs t' (segs @ [seg]) = (if t' = t then headLayer h else emptyLayer) # diskLayers cs t' segs"
proof -
  have "recsOf cs seg = headEntries h (word_of_int t)" using assms(1,4) by (simp add: segOk_def recsOf_eq)
  then show ?thesis
    using headEntries_layer [OF assms(2,3), of "word_of_int t'"] word_of_int_inj [OF assms(5,6)]
    by (auto simp: diskLayers_def segLayers_def)
qed

lemma metasOk_snoc:
  assumes "metasOk sms segs" "sm_Id sm = sg_id seg" "\<forall>x\<in>set segs. sg_id x \<noteq> sg_id seg"
    and "sm_MinDocid sm = sg_minDocid seg" "sm_MaxDocid sm = sg_maxDocid seg"
  shows "metasOk (sms @ [sm]) (segs @ [seg])"
proof -
  have "sm_Id x \<noteq> sg_id seg" if "x \<in> set sms" for x
    using assms(1,3) that unfolding metasOk_def by (metis (no_types, lifting) image_eqI image_iff list.set_map)
  then show ?thesis using assms by (auto simp: metasOk_def)
qed

text \<open>The common part of the two ways to install a spilled head.\<close>

lemma newSegment_ok:
  fixes s :: store and seg :: segment
  defines "i \<equiv> mf_NextSegId (st_man s)"
  assumes cs: "codec_ok cs" and s: "sysOk cs s d"
    and g: "segOk cs seg es" "opened seg" "sg_id seg = i"
    and sm: "sm_Id sm = i" "sm_MinDocid sm = sg_minDocid seg" "sm_MaxDocid sm = sg_maxDocid seg"
    and s1: "st_segs s1 = st_segs s @ [seg]" "st_man s1 = appendSegment sm (st_man s)" "st_dictCache s1 = st_dictCache s"
      "st_opts s1 = st_opts s" "headsOk s1"
    and lay: "\<And>t. tableRange t \<Longrightarrow> good (tableLayers cs t s) \<Longrightarrow> good (tableLayers cs t s1)"
      "\<And>t. tableRange t \<Longrightarrow> mf_NextTableId (st_man s) \<le> t \<Longrightarrow> set (tableLayers cs t s) \<subseteq> {emptyLayer} \<Longrightarrow> set (tableLayers cs t s1) \<subseteq> {emptyLayer}"
    and d1: "readManifest d1 = st_man s1" "map_of (dk_segs d1) = (map_of (dk_segs d))(i \<mapsto> sg_file seg)"
  shows "sysOk cs s1 d1"
proof -
  have st: "storeOk cs s" "manOk s" "diskOk cs s d" using s by (simp_all add: sysOk_def)
  have k: "segsOk cs s" "layersOk cs s" "freshOk cs s" "0 < o_Chunk (st_opts s)" using st(1) by (simp_all add: storeOk_def)
  have m1: "mf_NextTableId (st_man s1) = mf_NextTableId (st_man s)" "mf_Tables (st_man s1) = mf_Tables (st_man s)"
    "mf_NextSegId (st_man s1) = i + 1" "mf_Segments (st_man s1) = mf_Segments (st_man s) @ [sm]"
    "mf_FormatVersion (st_man s1) = mf_FormatVersion (st_man s)"
    by (simp_all add: s1(2) appendSegment_def i_def)
  have "segsOk cs s1" by (rule segsOk_snoc [OF k(1) cs g(1) _ s1(1) _ s1(3)]) (simp_all add: g(3) m1(3) i_def)
  moreover have "layersOk cs s1" using k(2) lay(1) by (simp add: layersOk_def)
  moreover have "freshOk cs s1"
  proof -
    have "set (tableLayers cs t s1) \<subseteq> {emptyLayer}" if t: "mf_NextTableId (st_man s) \<le> t" "t < 2 ^ 32" for t
    proof -
      have "set (tableLayers cs t s) \<subseteq> {emptyLayer}" "0 < mf_NextTableId (st_man s)" using k(3) t by (simp_all add: freshOk_def)
      with lay(2) [of t] t show ?thesis by simp
    qed
    then show ?thesis using k(3) by (simp add: freshOk_def m1)
  qed
  ultimately have ok: "storeOk cs s1" using s1(4,5) k(4) by (simp add: storeOk_def)
  have ne: "\<forall>x\<in>set (st_segs s). sg_id x \<noteq> i" using k(1) by (auto simp: segsOk_def i_def)
  have "metasOk (mf_Segments (st_man s1)) (st_segs s1)"
    unfolding m1(4) s1(1) by (rule metasOk_snoc) (use st(2) ne sm g(3) in \<open>simp_all add: manOk_def\<close>)
  then have mo: "manOk s1" using st(2) g(2) by (simp add: manOk_def m1 s1(1))
  have "\<forall>x\<in>set (st_segs s1). map_of (dk_segs d1) (sg_id x) = Some (sg_file x)"
    using st(3) ne by (auto simp: s1(1) d1(2) g(3) diskOk_def Let_def)
  then show ?thesis using ok mo diskOk_written [OF ok mo d1(1)] by (simp add: sysOk_def)
qed

text \<open>Contents of the tables that can exist.\<close>

definition sameOn :: "(int \<Rightarrow> bool) \<Rightarrow> (int \<Rightarrow> 'a) \<Rightarrow> (int \<Rightarrow> 'a) \<Rightarrow> bool" where
  "sameOn P f g \<longleftrightarrow> (\<forall>t. P t \<longrightarrow> f t = g t)"

lemma findOverCap_ok:
  assumes s: "storeOk cs s" "st_spilling s = []" and iter: "\<forall>hs. set (iter hs) = set hs" and f: "findOverCapHeadLocked iter s = (nxt, s')"
  shows "storeOk cs s' \<and> sameDisk s s' \<and> liveOf cs s' = liveOf cs s \<and> st_liveByTable s' = st_liveByTable s \<and>
    (case nxt of None \<Rightarrow> s' = s | Some e \<Rightarrow> st_spilling s' = [e] \<and> tableRange (se_tableId e) \<and>
      pendOf cs s' = (durOf cs s)(se_tableId e := liveOf cs s (se_tableId e)))"
proof (cases "find (\<lambda>(t, h). o_CapBytes (st_opts s) \<le> h_bytes h) (iter (st_head s))")
  case None
  then show ?thesis using f s(1) by (auto simp: findOverCapHeadLocked_def split: if_splits)
next
  case (Some p)
  obtain t h where p: "p = (t, h)" by (cases p)
  have fl: "\<not> st_spillInFlight s" using s spillInFlight_iff by blast
  obtain e s2 where e: "detachHeadLocked t s = (e, s2)" by (cases "detachHeadLocked t s")
  have n: "nxt = Some e" "s' = s2" using f fl by (simp_all add: findOverCapHeadLocked_def Some p e)
  have "p \<in> set (iter (st_head s))" using Some unfolding find_Some_iff by (metis nth_mem)
  then have "t \<in> fst ` set (st_head s)" using iter p by force
  then have "tableRange t" using s(1) unfolding storeOk_def headsOk_def by blast
  note k = detach_ok [OF s this e] and x = detachHeadLocked_ok [OF _ s(2) e this]
  have "headsOk s" using s(1) by (simp only: storeOk_def)
  then have "se_tableId e = t" "st_spilling s2 = [e]" using x(3,5) by blast+
  then show ?thesis using k \<open>tableRange t\<close> unfolding n option.case by simp
qed

end
