(* ===== verification/StInstall.thy ===== *)
theory StInstall
  imports StDisk
begin

text \<open>
  The operations of the worker that write the MANIFEST for a spilled head, and those of the catalog. The
  installation of a spill makes durable what was pending and leaves the live contents alone; a MANIFEST
  that cannot be written leaves everything as it was.
\<close>

subsection \<open>Installing a detached head\<close>

lemma tableLayers_installed:
  assumes "st_spilling s = [e]" "st_spilling s1 = []" "st_head s1 = st_head s" "st_segs s1 = st_segs s @ [seg]"
    and cs: "codec_ok cs" and h: "headOk (se_head e)" "headFits (se_head e) (word_of_int (se_tableId e))"
      "segOk cs seg (headEntries (se_head e) (word_of_int (se_tableId e)))"
    and t: "tableRange (se_tableId e)" "tableRange t"
  shows "tableLayers cs t s1 = (if t = se_tableId e then tableLayers cs t s
      else headLayer (frontHead t s) # emptyLayer # tl (tableLayers cs t s))"
    and "diskLayers cs t (st_segs s1) = (if t = se_tableId e then [] else [emptyLayer]) @ detachedLayers t s @ diskLayers cs t (st_segs s)"
  using diskLayers_spill [OF cs h t, of "st_segs s"] assms(1-4)
  by (auto simp: tableLayers_def detachedLayers_def frontHead_def)

lemma installSpill_step:
  assumes cs: "codec_ok cs" and s: "sysOk cs s d" "st_spilling s = [e]" and fits: "spillFits cs (st_opts s) (se_head e) (se_tableId e)"
    and res: "encodeHeadToFile cs (st_opts s) (se_head e) (se_tableId e) = Some res"
    and i: "i = mf_NextSegId (st_man s)" and sm: "sm = spillSegMeta (st_opts s) res i (se_tableId e)"
    and s1: "s1 = s\<lparr>st_man := appendSegment sm (st_man s), st_segs := st_segs s @ [spilledSegment res i],
      st_spilling := [], st_spillInFlight := False, st_blockProducer := False\<rparr>"
    and d1: "readManifest d1 = appendSegment sm (st_man s)" "map_of (dk_segs d1) = (map_of (dk_segs d))(i \<mapsto> sg_file (spilledSegment res i))"
  shows "sysOk cs s1 d1" "sameOn tableRange (liveOf cs s1) (liveOf cs s)" "sameOn tableRange (durOf cs s1) (pendOf cs s)"
proof -
  let ?t = "se_tableId e" and ?seg = "spilledSegment res i"
  have st: "storeOk cs s" "headsOk s" "0 < o_Chunk (st_opts s)" using s(1) by (simp_all add: sysOk_def storeOk_def)
  have h: "headOk (se_head e)" "tableRange ?t" using st(2) s(2) by (simp_all add: headsOk_def)
  from encodeHeadToFile_ok [OF cs h(1) st(3) fits, of i] res have
    g: "opened ?seg" "sg_id ?seg = i" "segOk cs ?seg (headEntries (se_head e) (word_of_int ?t))" by auto
  have hf: "headFits (se_head e) (word_of_int ?t)" using fits by (simp add: spillFits_def)
  have f1: "st_spilling s1 = []" "st_head s1 = st_head s" "st_segs s1 = st_segs s @ [?seg]" by (simp_all add: s1)
  note lay = tableLayers_installed [OF s(2) f1 cs h(1) hf g(3) h(2)]
  have hs: "headsOk s1" using st(2) s(2) by (simp add: headsOk_def s1)
  show "sysOk cs s1 d1"
  proof (rule newSegment_ok [OF cs s(1) g(3,1), where sm = sm])
    show "good (tableLayers cs t s1)" if "tableRange t" "good (tableLayers cs t s)" for t
      using that(2) good_emptyI [of "[headLayer (frontHead t s)]" "tl (tableLayers cs t s)"] unfolding lay(1) [OF that(1)]
      by (cases "t = ?t") (simp_all add: tableLayers_def)
    show "set (tableLayers cs t s1) \<subseteq> {emptyLayer}" if "tableRange t" "set (tableLayers cs t s) \<subseteq> {emptyLayer}" for t
      using that(2) unfolding lay(1) [OF that(1)] by (cases "t = ?t") (simp_all add: tableLayers_def)
  qed (use g(2) d1 hs in \<open>simp_all add: i sm s1 spillSegMeta_def spilledSegment_def\<close>)
  show "sameOn tableRange (liveOf cs s1) (liveOf cs s)"
    unfolding sameOn_def liveOf_def using lay(1) by (simp add: tableLayers_def)
  show "sameOn tableRange (durOf cs s1) (pendOf cs s)"
    unfolding sameOn_def durOf_def pendOf_def using lay(2) by simp
qed

lemma diskOk_files:
  "diskOk cs s d \<Longrightarrow> readManifest d' = readManifest d \<Longrightarrow>
   \<forall>seg\<in>set (st_segs s). map_of (dk_segs d') (sg_id seg) = map_of (dk_segs d) (sg_id seg) \<Longrightarrow> diskOk cs s d'"
  by (simp add: diskOk_def Let_def)

lemma sysOk_fresh_id: "sysOk cs s d \<Longrightarrow> seg \<in> set (st_segs s) \<Longrightarrow> sg_id seg \<noteq> mf_NextSegId (st_man s)"
  by (auto simp: sysOk_def storeOk_def segsOk_def)

lemma sortSegmentsById_id: "sorted_wrt (<) (map sg_id segs) \<Longrightarrow> sortSegmentsById segs = segs"
  by (simp add: sortSegmentsById_def sort_key_id_if_sorted strict_sorted_iff)

text \<open>The contents after a successful installation: the pending ones are durable, and another head may
  have been detached.\<close>

definition nextDetached :: "compressors \<Rightarrow> spillEntry option \<Rightarrow> store \<Rightarrow> bool" where
  "nextDetached cs nxt s' \<longleftrightarrow> (case nxt of None \<Rightarrow> st_spilling s' = []
     | Some x \<Rightarrow> st_spilling s' = [x] \<and> tableRange (se_tableId x) \<and>
         pendOf cs s' = (durOf cs s')(se_tableId x := liveOf cs s' (se_tableId x)))"

text \<open>New segments only come on top of the others, and the MANIFEST on disk is the one in memory or stays
  behind it.\<close>

definition grown :: "store \<times> disk \<Rightarrow> store \<times> disk \<Rightarrow> bool" where
  "grown sd sd' \<longleftrightarrow> (case (sd, sd') of ((s, d), (s', d')) \<Rightarrow>
     (\<exists>new. st_segs s' = st_segs s @ new \<and> (\<forall>x\<in>set new. mf_NextSegId (st_man s) \<le> sg_id x)) \<and>
     mf_NextSegId (st_man s) \<le> mf_NextSegId (st_man s') \<and> mf_Tables (st_man s') = mf_Tables (st_man s) \<and>
     mf_NextTableId (st_man s') = mf_NextTableId (st_man s) \<and> st_opts s' = st_opts s \<and>
     (readManifest d' = st_man s' \<or> st_man s' = st_man s \<and> readManifest d' = readManifest d))"

lemma grown_refl: "readManifest d' = readManifest d \<Longrightarrow> grown (s, d) (s, d')"
  by (simp add: grown_def)

lemma grown_trans: "grown (s, d) (s1, d1) \<Longrightarrow> grown (s1, d1) (s2, d2) \<Longrightarrow> grown (s, d) (s2, d2)"
  unfolding grown_def by (clarsimp, intro conjI) (fastforce, auto)

lemma installSpill_fails:
  assumes "\<not> (rn \<and> r = Written)" "r \<noteq> NotSynced"
  shows "fst (installSpill iter rn r e res (s, d)) = False \<and> fst (snd (installSpill iter rn r e res (s, d))) = None \<and>
      fst (snd (snd (installSpill iter rn r e res (s, d)))) = s"
    and "readManifest (snd (snd (snd (installSpill iter rn r e res (s, d))))) = readManifest d"
    and "j \<noteq> mf_NextSegId (st_man s) \<Longrightarrow> map_of (dk_segs (snd (snd (snd (installSpill iter rn r e res (s, d)))))) j = map_of (dk_segs d) j"
  using assms
  by (cases rn; cases r; simp add: installSpill_def Let_def writeManifestBytes_def update_conv' delete_conv' readManifest_def)+

theorem installSpill_ok:
  assumes cs: "codec_ok cs" and s: "sysOk cs s d" "st_spilling s = [e]" and fits: "spillFits cs (st_opts s) (se_head e) (se_tableId e)"
    and res: "encodeHeadToFile cs (st_opts s) (se_head e) (se_tableId e) = Some res" and iter: "\<forall>hs. set (iter hs) = set hs"
    and r: "r \<noteq> NotSynced" and o: "installSpill iter rn r e res (s, d) = (ok, nxt, s', d')"
  shows "sysOk cs s' d' \<and> sameOn tableRange (liveOf cs s') (liveOf cs s) \<and> st_liveByTable s' = st_liveByTable s \<and>
    (if rn \<and> r = Written then ok \<and> sameOn tableRange (durOf cs s') (pendOf cs s) \<and> nextDetached cs nxt s'
     else \<not> ok \<and> nxt = None \<and> s' = s) \<and> grown (s, d) (s', d')"
proof -
  define i where "i = mf_NextSegId (st_man s)"
  define seg where "seg = spilledSegment res i"
  define sm where "sm = spillSegMeta (st_opts s) res i (se_tableId e)"
  define m where "m = appendSegment sm (st_man s)"
  define d1 where "d1 = d\<lparr>dk_temps := AList.delete (se_tempN e) (dk_temps d), dk_segs := AList.update i (sg_file seg) (dk_segs d)\<rparr>"
  show ?thesis
  proof (cases "rn \<and> r = Written")
    case False
    note f = installSpill_fails [OF False r, where iter = iter and e = e and res = res and s = s and d = d]
    have "diskOk cs s d'"
    proof (rule diskOk_files [of cs s d])
      show "diskOk cs s d" using s(1) by (simp add: sysOk_def)
      show "readManifest d' = readManifest d" using f(2) o by simp
      show "\<forall>seg\<in>set (st_segs s). map_of (dk_segs d') (sg_id seg) = map_of (dk_segs d) (sg_id seg)"
        using f(3) sysOk_fresh_id [OF s(1)] o by simp
    qed
    then show ?thesis using s(1) f(1,2) o False by (simp add: sysOk_def sameOn_def grown_refl)
  next
    case True
    define s1 where "s1 = s\<lparr>st_man := m, st_segs := st_segs s @ [seg], st_spilling := [], st_spillInFlight := False, st_blockProducer := False\<rparr>"
    let ?d2 = "d1\<lparr>dk_MANIFEST := Some m\<rparr>"
    have k: "sysOk cs s1 ?d2" "sameOn tableRange (liveOf cs s1) (liveOf cs s)" "sameOn tableRange (durOf cs s1) (pendOf cs s)"
      by (rule installSpill_step [OF cs s fits res i_def sm_def, of s1 ?d2];
          simp add: s1_def m_def seg_def d1_def update_conv')+
    have "sorted_wrt (<) (map sg_id (st_segs s1))" using k(1) by (simp add: sysOk_def storeOk_def segsOk_def)
    then have srt: "sortSegmentsById (st_segs s @ [seg]) = st_segs s @ [seg]" by (simp add: sortSegmentsById_id s1_def)
    have eq: "installSpill iter rn r e res (s, d) = (case findOverCapHeadLocked iter s1 of (nxt, s3) \<Rightarrow> (True, nxt, s3, ?d2))"
      using True s(2) srt
      by (simp add: installSpill_def Let_def writeManifestBytes_def removeSpillingLocked_def clearBlockProducerLocked_def
          s1_def m_def seg_def sm_def i_def d1_def)
    obtain n3 s3 where fo: "findOverCapHeadLocked iter s1 = (n3, s3)" by (cases "findOverCapHeadLocked iter s1")
    have ee: "ok" "nxt = n3" "s' = s3" "d' = ?d2" using o by (simp_all add: eq fo)
    have "storeOk cs s1" "st_spilling s1 = []" using k(1) by (simp_all add: sysOk_def s1_def)
    note f = findOverCap_ok [OF this iter fo]
    have "sysOk cs s3 ?d2" using sysOk_sameDisk [OF k(1)] f by blast
    moreover have "durOf cs s3 = durOf cs s1" using f sameDisk_durOf by blast
    moreover have "nextDetached cs n3 s3" using f \<open>st_spilling s1 = []\<close> \<open>durOf cs s3 = durOf cs s1\<close>
      by (cases n3) (simp_all add: nextDetached_def)
    moreover have "st_liveByTable s3 = st_liveByTable s" using f by (simp add: s1_def)
    moreover have "grown (s, d) (s3, ?d2)"
      using f by (auto simp: grown_def sameDisk_def s1_def m_def appendSegment_def seg_def spilledSegment_def i_def)
    ultimately show ?thesis using k f True by (simp add: ee)
  qed
qed

subsection \<open>The spill of a close\<close>

lemma headEmpty_layer: "headEmpty h \<Longrightarrow> headLayer h = emptyLayer"
  by (simp add: headEmpty_def headLayer_def emptyLayer_def)

lemma spill_step:
  assumes cs: "codec_ok cs" and s: "sysOk cs s d" "st_spilling s = []" and t: "map_of (st_head s) t = Some h"
    and fits: "spillFits cs (st_opts s) h t" and res: "encodeHeadToFile cs (st_opts s) h t = Some res"
    and i: "i = mf_NextSegId (st_man s)" and sm: "sm = spillSegMeta (st_opts s) res i t"
    and s1: "s1 = s\<lparr>st_man := appendSegment sm (st_man s), st_segs := st_segs s @ [spilledSegment res i],
      st_head := AList.update t newHeadTable (st_head s)\<rparr>"
    and d1: "readManifest d1 = appendSegment sm (st_man s)" "map_of (dk_segs d1) = (map_of (dk_segs d))(i \<mapsto> sg_file (spilledSegment res i))"
  shows "sysOk cs s1 d1" "sameOn tableRange (liveOf cs s1) (liveOf cs s)" "sameOn tableRange (durOf cs s1) ((durOf cs s)(t := liveOf cs s t))"
proof -
  let ?seg = "spilledSegment res i"
  have st: "headsOk s" "0 < o_Chunk (st_opts s)" using s(1) by (simp_all add: sysOk_def storeOk_def)
  have f: "frontHead t s = h" using t by (simp add: frontHead_def)
  have "t \<in> fst ` set (st_head s)" using t by (force dest: map_of_SomeD)
  then have r: "tableRange t" using st(1) unfolding headsOk_def by blast
  have h: "headOk h" using frontHead_ok [OF st(1), of t] f by simp
  from encodeHeadToFile_ok [OF cs h st(2) fits, of i] res have
    g: "opened ?seg" "sg_id ?seg = i" "segOk cs ?seg (headEntries h (word_of_int t))" by auto
  have hf: "headFits h (word_of_int t)" using fits by (simp add: spillFits_def)
  have dl: "diskLayers cs t' (st_segs s1) = (if t' = t then headLayer h else emptyLayer) # diskLayers cs t' (st_segs s)" if "tableRange t'" for t'
    using diskLayers_spill [OF cs h hf g(3) r that, of "st_segs s"] by (simp add: s1)
  have lay: "tableLayers cs t' s1 = headLayer (if t' = t then newHeadTable else frontHead t' s) #
      (if t' = t then headLayer h else emptyLayer) # diskLayers cs t' (st_segs s)" if "tableRange t'" for t'
    unfolding tableLayers_def dl [OF that] by (simp add: detachedLayers_def s1 s(2) frontHead_def update_conv')
  have lay0: "tableLayers cs t' s = headLayer (frontHead t' s) # diskLayers cs t' (st_segs s)" for t'
    by (simp add: tableLayers_def detachedLayers_def s(2))
  have "headsOk (s\<lparr>st_head := AList.update t newHeadTable (st_head s)\<rparr>)" by (rule headsOk_update [OF st(1) _ r]) simp
  then have hs: "headsOk s1" by (simp add: headsOk_def s1)
  show "sysOk cs s1 d1"
  proof (rule newSegment_ok [OF cs s(1) g(3,1), where sm = sm])
    show "good (tableLayers cs t' s1)" if "tableRange t'" "good (tableLayers cs t' s)" for t'
      using that(2) good_emptyI [of "[headLayer (frontHead t' s)]" "diskLayers cs t' (st_segs s)"]
        good_consistent [OF that(2)] unfolding lay [OF that(1)] lay0 by (cases "t' = t") (simp_all add: f)
    show "set (tableLayers cs t' s1) \<subseteq> {emptyLayer}" if "tableRange t'" "set (tableLayers cs t' s) \<subseteq> {emptyLayer}" for t'
      using that(2) unfolding lay [OF that(1)] lay0 by (cases "t' = t") (simp_all add: f)
  qed (use g(2) d1 hs in \<open>simp_all add: i sm s1 spillSegMeta_def spilledSegment_def\<close>)
  show "sameOn tableRange (liveOf cs s1) (liveOf cs s)"
    unfolding sameOn_def liveOf_def using lay by (simp add: lay0 f)
  show "sameOn tableRange (durOf cs s1) ((durOf cs s)(t := liveOf cs s t))"
    unfolding sameOn_def durOf_def liveOf_def using dl by (simp add: lay0 f)
qed

text \<open>Sealing the head of one table.\<close>

theorem spill_ok:
  assumes cs: "codec_ok cs" and s: "sysOk cs s d" "st_spilling s = []"
    and fits: "\<And>h. map_of (st_head s) t = Some h \<Longrightarrow> spillFits cs (st_opts s) h t" and r: "r \<noteq> NotSynced"
  shows "\<exists>ok s' d'. spill cs r t (s, d) = Some (ok, s', d') \<and> sysOk cs s' d' \<and> st_spilling s' = [] \<and> st_opts s' = st_opts s \<and>
    sameOn tableRange (liveOf cs s') (liveOf cs s) \<and> (r = Written \<longrightarrow> ok) \<and>
    (\<forall>t'. t' \<noteq> t \<longrightarrow> map_of (st_head s') t' = map_of (st_head s) t') \<and>
    (if ok then sameOn tableRange (durOf cs s') ((durOf cs s)(t := liveOf cs s t)) else s' = s) \<and> grown (s, d) (s', d')"
proof -
  have triv: "durOf cs s t = liveOf cs s t" if "headLayer (frontHead t s) = emptyLayer"
    by (simp add: durOf_def liveOf_def tableLayers_def detachedLayers_def s(2) that)
  show ?thesis
  proof (cases "map_of (st_head s) t")
    case None
    then show ?thesis using s triv by (intro exI [of _ True]) (simp add: spill_def sameOn_def frontHead_def grown_refl)
  next
    case (Some h)
    show ?thesis
    proof (cases "headEmpty h")
      case True
      then show ?thesis using s Some triv headEmpty_layer [OF True]
        by (intro exI [of _ True]) (simp add: spill_def sameOn_def frontHead_def grown_refl)
    next
      case False
      have st: "headsOk s" "0 < o_Chunk (st_opts s)" using s(1) by (simp_all add: sysOk_def storeOk_def)
      have "headOk h" using frontHead_ok [OF st(1), of t] Some by (simp add: frontHead_def)
      from encodeHeadToFile_ok [OF cs this st(2) fits [OF Some]] obtain res where
        res: "encodeHeadToFile cs (st_opts s) h t = Some res" by blast
      define i where "i = mf_NextSegId (st_man s)"
      define sm where "sm = spillSegMeta (st_opts s) res i t"
      define d1 where "d1 = d\<lparr>dk_segs := AList.update i (sg_file (spilledSegment res i)) (dk_segs d)\<rparr>"
      define s1 where "s1 = s\<lparr>st_man := appendSegment sm (st_man s), st_segs := st_segs s @ [spilledSegment res i],
        st_head := AList.update t newHeadTable (st_head s)\<rparr>"
      have eq: "spill cs r t (s, d) = Some (if r = Written then (True, s1, d1\<lparr>dk_MANIFEST := Some (appendSegment sm (st_man s))\<rparr>) else (False, s, d1))"
        using r Some False
        by (cases r) (simp_all add: spill_def res Let_def writeManifestBytes_def i_def sm_def d1_def s1_def)
      show ?thesis
      proof (cases "r = Written")
        case True
        have "map_of (dk_segs d1) = (map_of (dk_segs d))(i \<mapsto> sg_file (spilledSegment res i))" by (simp add: d1_def update_conv')
        then have "sysOk cs s1 (d1\<lparr>dk_MANIFEST := Some (appendSegment sm (st_man s))\<rparr>)" "sameOn tableRange (liveOf cs s1) (liveOf cs s)"
          "sameOn tableRange (durOf cs s1) ((durOf cs s)(t := liveOf cs s t))"
          using spill_step [OF cs s Some fits [OF Some] res i_def sm_def s1_def, of "d1\<lparr>dk_MANIFEST := Some (appendSegment sm (st_man s))\<rparr>"] by simp_all
        moreover have "st_spilling s1 = []" "st_opts s1 = st_opts s" "\<forall>t'. t' \<noteq> t \<longrightarrow> map_of (st_head s1) t' = map_of (st_head s) t'"
          using s(2) by (simp_all add: s1_def update_conv')
        moreover have "grown (s, d) (s1, d1\<lparr>dk_MANIFEST := Some (appendSegment sm (st_man s))\<rparr>)"
          by (simp add: grown_def s1_def appendSegment_def spilledSegment_def i_def)
        ultimately show ?thesis unfolding eq if_P [OF True]
          by (intro exI [of _ True] exI [of _ s1] exI [of _ "d1\<lparr>dk_MANIFEST := Some (appendSegment sm (st_man s))\<rparr>"]) simp
      next
        case False
        have "diskOk cs s d" using s(1) by (simp add: sysOk_def)
        then have "diskOk cs s d1"
          by (rule diskOk_files) (use sysOk_fresh_id [OF s(1)] in \<open>simp_all add: d1_def i_def update_conv'\<close>)
        then have "sysOk cs s d1" using s(1) by (simp add: sysOk_def)
        then show ?thesis using False s(2) unfolding eq if_not_P [OF False]
          by (intro exI [of _ False] exI [of _ s] exI [of _ d1]) (simp add: sameOn_def d1_def grown_refl)
      qed
    qed
  qed
qed

subsection \<open>The catalog\<close>

lemma stack_empties: "set ls \<subseteq> {emptyLayer} \<Longrightarrow> stack ls = emptyLayer"
  by (induction ls) auto

lemma content_empty [simp]: "content emptyLayer = (\<lambda>_. None)"
  by (simp add: fun_eq_iff content_def emptyLayer_def)

lemma tableLayers_man [simp]: "tableLayers cs t (s\<lparr>st_man := m\<rparr>) = tableLayers cs t s" "detachedLayers t (s\<lparr>st_man := m\<rparr>) = detachedLayers t s"
  by (simp_all add: tableLayers_def frontHead_def detachedLayers_def)

theorem CreateTable_st_ok:
  assumes s: "sysOk cs s d" "mf_NextTableId (st_man s) < 2 ^ 32" and r: "r \<noteq> NotSynced"
    and c: "CreateTable_st r desc (s, d) = (i, ok, s', d')"
  shows "sysOk cs s' d' \<and> (ok \<longleftrightarrow> r = Written) \<and> liveOf cs s' = liveOf cs s \<and> pendOf cs s' = pendOf cs s \<and> durOf cs s' = durOf cs s \<and>
    0 < i \<and> tableRange i \<and> tableInfo s i = None \<and> tableInfo s' = (tableInfo s)(i \<mapsto> desc) \<and> liveOf cs s' i = (\<lambda>_. None) \<and>
    st_spilling s' = st_spilling s \<and> st_opts s' = st_opts s \<and> st_liveByTable s' = st_liveByTable s"
proof -
  define m where "m = (st_man s)\<lparr>mf_NextTableId := i + 1, mf_Tables := AList.update i desc (mf_Tables (st_man s))\<rparr>"
  have i: "i = mf_NextTableId (st_man s)" and s': "s' = s\<lparr>st_man := m\<rparr>"
    and d': "d' = (if r = Written then d\<lparr>dk_MANIFEST := Some m\<rparr> else d)" "ok \<longleftrightarrow> r = Written"
    using c r by (cases r; simp add: CreateTable_st_def Let_def writeManifestBytes_def m_def)+
  have st: "storeOk cs s" "manOk s" "diskOk cs s d" using s(1) by (simp_all add: sysOk_def)
  have k: "segsOk cs s" "headsOk s" "layersOk cs s" "freshOk cs s" "0 < o_Chunk (st_opts s)" using st(1) by (simp_all add: storeOk_def)
  have fr: "0 < i" "i < 2 ^ 32" "\<forall>t\<in>fst ` set (mf_Tables (st_man s)). 0 < t \<and> t < i"
    "\<And>t. i \<le> t \<Longrightarrow> t < 2 ^ 32 \<Longrightarrow> set (tableLayers cs t s) \<subseteq> {emptyLayer}"
    using k(4) s(2) by (simp_all add: freshOk_def i)
  have ni: "i \<notin> fst ` set (mf_Tables (st_man s))" using fr(3) by blast
  have "freshOk cs s'" using fr by (auto simp: freshOk_def s' m_def dom_update)
  moreover have "segsOk cs s'" "headsOk s'" "layersOk cs s'" using k(1-3) by (simp_all add: segsOk_def headsOk_def layersOk_def s' m_def)
  ultimately have ok: "storeOk cs s'" using k(5) by (simp add: storeOk_def s')
  have mo: "manOk s'" using st(2) by (simp add: manOk_def s' m_def distinct_update)
  have "diskOk cs s' d'"
  proof (cases "r = Written")
    case True
    show ?thesis by (rule diskOk_written [OF ok mo]) (use True st(3) in \<open>simp_all add: d' s' diskOk_def Let_def\<close>)
  next
    case False
    then show ?thesis using st(3) by (simp add: d'(1) diskOk_def Let_def s' m_def i)
  qed
  moreover have "liveOf cs s' i = (\<lambda>_. None)"
    using stack_empties [OF fr(4) [OF order_refl fr(2)]] by (simp add: liveOf_def s')
  moreover have "tableInfo s i = None" using ni by (simp add: tableInfo_def map_of_eq_None_iff)
  ultimately show ?thesis using ok mo fr(1,2) d'(2)
    by (simp add: sysOk_def fun_eq_iff) (simp add: s' m_def liveOf_def pendOf_def durOf_def tableInfo_def update_conv')
qed

theorem DeleteTable_st_ok:
  assumes s: "sysOk cs s d" and r: "r \<noteq> NotSynced" and c: "DeleteTable_st r i (s, d) = (ok, s', d')"
  shows "sysOk cs s' d' \<and> (ok \<longleftrightarrow> r = Written) \<and> sameOn (\<lambda>t. t \<noteq> i) (liveOf cs s') (liveOf cs s) \<and> pendOf cs s' = pendOf cs s \<and>
    durOf cs s' = durOf cs s \<and> tableInfo s' = (tableInfo s)(i := None) \<and> st_spilling s' = st_spilling s \<and> st_opts s' = st_opts s \<and>
    st_liveByTable s' = AList.delete i (st_liveByTable s)"
proof -
  define m where "m = (st_man s)\<lparr>mf_Tables := AList.delete i (mf_Tables (st_man s))\<rparr>"
  have s': "s' = s\<lparr>st_man := m, st_head := AList.delete i (st_head s), st_liveByTable := AList.delete i (st_liveByTable s)\<rparr>"
    and d': "d' = (if r = Written then d\<lparr>dk_MANIFEST := Some m\<rparr> else d)" "ok \<longleftrightarrow> r = Written"
    using c r by (cases r; simp add: DeleteTable_st_def Let_def writeManifestBytes_def m_def)+
  have st: "storeOk cs s" "manOk s" "diskOk cs s d" using s(1) by (simp_all add: sysOk_def)
  have k: "segsOk cs s" "headsOk s" "layersOk cs s" "freshOk cs s" "0 < o_Chunk (st_opts s)" using st(1) by (simp_all add: storeOk_def)
  have lay: "tableLayers cs t s' = (if t = i then emptyLayer else headLayer (frontHead t s)) # tl (tableLayers cs t s)" for t
    by (simp add: tableLayers_def s' frontHead_def delete_conv' detachedLayers_def)
  have lay0: "tableLayers cs t s = headLayer (frontHead t s) # tl (tableLayers cs t s)" for t by (simp add: tableLayers_def)
  have sub: "set (AList.delete i ps) \<subseteq> set ps" "fst ` set (AList.delete i ps) \<subseteq> fst ` set ps" for ps :: "(int \<times> 'z) list"
    by (auto simp: AList.delete_eq)
  have "\<forall>h\<in>snd ` set (AList.delete i (st_head s)). headOk h"
    "\<forall>t\<in>fst ` set (AList.delete i (st_head s)) \<union> se_tableId ` set (st_spilling s). tableRange t"
    using k(2) sub [of "st_head s"] unfolding headsOk_def by blast+
  then have "headsOk s'" using k(2) by (simp add: headsOk_def s' distinct_delete)
  moreover have "segsOk cs s'" using k(1) by (simp add: segsOk_def s' m_def)
  moreover have "layersOk cs s'"
    unfolding layersOk_def
  proof (intro allI impI)
    fix t assume "tableRange t"
    then have "good (headLayer (frontHead t s) # tl (tableLayers cs t s))" using k(3) lay0 by (metis layersOk_def)
    then show "good (tableLayers cs t s')" using good_consistent [of "tl (tableLayers cs t s)"] unfolding lay by (cases "t = i") simp_all
  qed
  moreover have "freshOk cs s'"
  proof -
    have "set (tableLayers cs t s') \<subseteq> {emptyLayer}" if "mf_NextTableId (st_man s) \<le> t" "t < 2 ^ 32" for t
    proof -
      have "set (headLayer (frontHead t s) # tl (tableLayers cs t s)) \<subseteq> {emptyLayer}"
        using k(4) that lay0 unfolding freshOk_def by metis
      then show ?thesis by (simp add: lay)
    qed
    moreover have "\<forall>t\<in>fst ` set (AList.delete i (mf_Tables (st_man s))). 0 < t \<and> t < mf_NextTableId (st_man s)"
      using k(4) sub(2) [of "mf_Tables (st_man s)"] unfolding freshOk_def by blast
    ultimately show ?thesis using k(4) by (simp add: freshOk_def) (simp add: s' m_def)
  qed
  ultimately have ok: "storeOk cs s'" using k(5) by (simp add: storeOk_def s')
  have mo: "manOk s'" using st(2) by (simp add: manOk_def s' m_def distinct_delete)
  have "diskOk cs s' d'"
  proof (cases "r = Written")
    case True
    show ?thesis by (rule diskOk_written [OF ok mo]) (use True st(3) in \<open>simp_all add: d' s' diskOk_def Let_def\<close>)
  next
    case False
    then show ?thesis using st(3) by (simp add: d'(1) diskOk_def Let_def s' m_def)
  qed
  moreover have "sameOn (\<lambda>t. t \<noteq> i) (liveOf cs s') (liveOf cs s)" using lay0 by (simp add: sameOn_def liveOf_def lay)
  ultimately show ?thesis using ok mo d'(2)
    by (simp add: sysOk_def fun_eq_iff) (simp add: s' m_def pendOf_def durOf_def tableInfo_def delete_conv' detachedLayers_def)
qed

end
