(* ===== verification/StMergeInst.thy ===== *)
theory StMergeInst
  imports StInstall "HOL-Library.Multiset"
begin

text \<open>
  Installing a merge. The output takes the place of its inputs when no segment in between is left out:
  then the contents of the tables in the catalog stay as they are, the live and the durable ones, also
  when spills were installed while the merge was computed.
\<close>

subsection \<open>Plans\<close>

definition planOk :: "compressors \<Rightarrow> mergePlan \<Rightarrow> store \<Rightarrow> bool" where
  "planOk cs p s \<longleftrightarrow> (\<exists>pre post. st_segs s = pre @ mp_segs p @ post \<and>
     (\<forall>x\<in>set (pre @ mp_segs p). sg_id x < mp_outId p) \<and> (\<forall>x\<in>set post. mp_outId p < sg_id x) \<and> (mp_covering p \<longrightarrow> pre = [])) \<and>
     set (mp_inputIds p) = sg_id ` set (mp_segs p) \<and> mp_outId p < mf_NextSegId (st_man s) \<and>
     (if mp_covering p
      then \<exists>L. mp_liveTables p = Some L \<and> (\<forall>t\<in>fst ` set (mf_Tables (st_man s)). t \<in> set L \<or> set (diskLayers cs t (mp_segs p)) \<subseteq> {emptyLayer})
      else mp_liveTables p = None)"

definition planFits :: "compressors \<Rightarrow> storeOptions \<Rightarrow> mergePlan \<Rightarrow> bool" where
  "planFits cs o' p \<longleftrightarrow> mergeFits (mp_covering p) (mp_liveTables p) (map (recsOf cs) (mp_segs p)) \<and>
     segFits cs (segWriterFor o' (mp_dataCodec p)) (mergeOut (mp_covering p) (mp_liveTables p) (map (recsOf cs) (mp_segs p)))"

lemma diskLayers_append: "diskLayers cs t (xs @ ys) = diskLayers cs t ys @ diskLayers cs t xs"
  by (simp add: diskLayers_def segLayers_def)

lemma stackOf_diskLayers: "stackOf (map (recsOf cs) segs) (word_of_int t) = stack (diskLayers cs t segs)"
  by (simp add: stackOf_def diskLayers_def segLayers_def comp_def)

text \<open>The layer of the output in place of those of the inputs.\<close>

lemma merged_layer:
  assumes p: "mergeFits (mp_covering p) (mp_liveTables p) (map (recsOf cs) (mp_segs p))" "tableRange t"
    and L: "if mp_covering p then pre = [] \<and> mp_liveTables p = Some L else mp_liveTables p = None"
    and g: "good (xs @ diskLayers cs t (mp_segs p) @ pre)"
  defines "out \<equiv> segLayer (mergeOut (mp_covering p) (mp_liveTables p) (map (recsOf cs) (mp_segs p))) (word_of_int t)"
  shows "good (xs @ out # pre)"
    and "mp_covering p \<Longrightarrow> t \<in> set L \<or> set (diskLayers cs t (mp_segs p)) \<subseteq> {emptyLayer} \<Longrightarrow>
      content (stack (xs @ out # pre)) = content (stack (xs @ diskLayers cs t (mp_segs p) @ pre))"
    and "\<not> mp_covering p \<Longrightarrow> content (stack (xs @ out # pre)) = content (stack (xs @ diskLayers cs t (mp_segs p) @ pre))"
    and "set (diskLayers cs t (mp_segs p)) \<subseteq> {emptyLayer} \<Longrightarrow> out = emptyLayer"
proof -
  let ?ins = "diskLayers cs t (mp_segs p)"
  have "good (xs @ out # pre) \<and>
    (mp_covering p \<longrightarrow> t \<in> set L \<or> set ?ins \<subseteq> {emptyLayer} \<longrightarrow> content (stack (xs @ out # pre)) = content (stack (xs @ ?ins @ pre))) \<and>
    (\<not> mp_covering p \<longrightarrow> content (stack (xs @ out # pre)) = content (stack (xs @ ?ins @ pre))) \<and>
    (set ?ins \<subseteq> {emptyLayer} \<longrightarrow> out = emptyLayer)"
  proof (cases "mp_covering p")
    case False
    then have "out = stack ?ins" using p(1) mergeOut_tiered by (simp add: out_def stackOf_diskLayers)
    then show ?thesis using good_merge [OF g] False stack_empties by (simp add: stack_merge)
  next
    case True
    then have pre: "pre = []" "mp_liveTables p = Some L" using L by simp_all
    have f: "mergeFits True (Some L) (map (recsOf cs) (mp_segs p))" using p(1) True pre(2) by simp
    have gi: "good (xs @ ?ins)" using g pre(1) by simp
    have "complete (stack ?ins)" by (rule complete_stack [OF good_complete [OF good_append [OF gi]]])
    then have o: "out = (if t \<in> set L then compact (stack ?ins) else emptyLayer)"
      using mergeOut_covering [OF f, of "word_of_int t"] uint_table [OF p(2)] True pre(2)
      by (simp add: out_def stackOf_diskLayers liveTable_def)
    show ?thesis
    proof (cases "t \<in> set L")
      case True
      then show ?thesis using good_compact [OF gi] o pre stack_empties [of ?ins] \<open>mp_covering p\<close> by simp
    next
      case False
      then show ?thesis using good_drop_lower [OF gi] o pre stack_empties [of ?ins] \<open>mp_covering p\<close> by (auto simp: stack_append)
    qed
  qed
  then show "good (xs @ out # pre)"
    "mp_covering p \<Longrightarrow> t \<in> set L \<or> set ?ins \<subseteq> {emptyLayer} \<Longrightarrow> content (stack (xs @ out # pre)) = content (stack (xs @ ?ins @ pre))"
    "\<not> mp_covering p \<Longrightarrow> content (stack (xs @ out # pre)) = content (stack (xs @ ?ins @ pre))"
    "set ?ins \<subseteq> {emptyLayer} \<Longrightarrow> out = emptyLayer" by blast+
qed

text \<open>The computation of a planned merge succeeds.\<close>

lemma mergeSegments_planned:
  assumes cs: "codec_ok cs" and s: "storeOk cs s" and p: "set (mp_segs p) \<subseteq> set (st_segs s)" "planFits cs (st_opts s) p"
  shows "\<exists>seg sm. mergeSegments cs (st_opts s) (mp_segs p) (mp_outId p) (mp_level p) (mp_dataCodec p) (mp_covering p) (mp_liveTables p) = Some (seg, sm) \<and>
    segOk cs seg (mergeOut (mp_covering p) (mp_liveTables p) (map (recsOf cs) (mp_segs p))) \<and> opened seg \<and> sg_id seg = mp_outId p \<and>
    sm_Id sm = mp_outId p \<and> sm_MinDocid sm = sg_minDocid seg \<and> sm_MaxDocid sm = sg_maxDocid seg"
proof -
  let ?srcs = "map (recsOf cs) (mp_segs p)" and ?es = "mergeOut (mp_covering p) (mp_liveTables p) (map (recsOf cs) (mp_segs p))"
  have g: "\<forall>x\<in>set (mp_segs p). segOk cs x (recsOf cs x)" using s p(1) unfolding storeOk_def segsOk_def by blast
  then have h: "list_all2 (holds cs) (mp_segs p) ?srcs" by (simp add: list.rel_map segOk_def list.rel_refl_strong)
  have f: "mergeFits (mp_covering p) (mp_liveTables p) ?srcs" "segFits cs (segWriterFor (st_opts s) (mp_dataCodec p)) ?es"
    using p(2) by (simp_all add: planFits_def)
  have "mergeable (mp_covering p) (mp_liveTables p) ?srcs" "0 < o_Chunk (st_opts s)" using f(1) s by (simp_all add: mergeFits_def storeOk_def)
  from mergeSegments_holds [OF cs h this f(2), of "mp_outId p" "mp_level p"] obtain seg sm where
    m: "mergeSegments cs (st_opts s) (mp_segs p) (mp_outId p) (mp_level p) (mp_dataCodec p) (mp_covering p) (mp_liveTables p) = Some (seg, sm)"
      "holds cs seg ?es" "sg_id seg = mp_outId p" "(sg_minDocid seg, sg_maxDocid seg) = rangeOf ?es" "sm_Id sm = mp_outId p"
      "(sm_MinDocid sm, sm_MaxDocid sm) = rangeOf ?es" by blast
  have "segOk cs seg ?es" using m(2) mergeOut_wf [OF f(1)] rangeOf_covers [OF _ m(4)] by (simp add: segOk_def)
  then show ?thesis using m opened_merge [OF m(1)] by (metis prod.inject)
qed

subsection \<open>The pieces of an installation\<close>

text \<open>What planned inputs mean for the list of segments.\<close>

lemma filter_inputs:
  assumes "distinct (map sg_id (pre @ ins @ post))" "set ids = sg_id ` set ins"
  shows "filter (\<lambda>x. sg_id x \<notin> set ids) (pre @ ins @ post) = pre @ post"
    and "filter (\<lambda>x. sg_id x \<in> set ids) (pre @ ins @ post) = ins"
proof -
  have n: "sg_id x \<notin> set ids" if "x \<in> set pre \<union> set post" for x
    using assms that by auto
  then show "filter (\<lambda>x. sg_id x \<notin> set ids) (pre @ ins @ post) = pre @ post"
    using assms(2) by (simp add: filter_id_conv filter_empty_conv)
  show "filter (\<lambda>x. sg_id x \<in> set ids) (pre @ ins @ post) = ins"
    using n assms(2) by (simp add: filter_id_conv filter_empty_conv)
qed

lemma sort_out:
  assumes "sorted_wrt (<) (map sg_id (pre @ out # post))"
  shows "sortSegmentsById ((pre @ post) @ [out]) = pre @ out # post"
  unfolding sortSegmentsById_def
proof (rule sort_key_inj_key_eq)
  show "mset ((pre @ post) @ [out]) = mset (pre @ out # post)" by simp
  have s: "sorted (map sg_id (pre @ out # post))" "distinct (map sg_id (pre @ out # post))"
    using assms by (simp_all only: strict_sorted_iff)
  have "set ((pre @ post) @ [out]) = set (pre @ out # post)" by auto
  then show "inj_on sg_id (set ((pre @ post) @ [out]))" using s(2) unfolding distinct_map by metis
  show "sorted (map sg_id (pre @ out # post))" by (rule s(1))
qed

lemma purge_all:
  "lruOk c \<Longrightarrow> lruOk (fold (\<lambda>x. purge (sg_id x)) xs c) \<and>
   set (cl_ll (fold (\<lambda>x. purge (sg_id x)) xs c)) = {e \<in> set (cl_ll c). fst (fst e) \<notin> sg_id ` set xs}"
proof (induction xs arbitrary: c)
  case (Cons x xs)
  show ?case using Cons.IH [OF purge_ok(1) [OF Cons.prems], of "sg_id x"] by (auto simp: purge_ok(3) [OF Cons.prems])
qed simp

lemma cacheOk_replace:
  assumes c: "cacheOk cs (pre @ ins @ post) c" and out: "\<forall>x\<in>set (pre @ ins @ post). sg_id x \<noteq> sg_id out"
  shows "cacheOk cs (pre @ out # post) (fold (\<lambda>x. purge (sg_id x)) ins c)"
proof -
  let ?c = "fold (\<lambda>x. purge (sg_id x)) ins c"
  have l: "lruOk c" using c by (simp add: cacheOk_def)
  have p: "lruOk ?c" "set (cl_ll ?c) = {e \<in> set (cl_ll c). fst (fst e) \<notin> sg_id ` set ins}" using purge_all [OF l, of ins] by simp_all
  have e: "fst (fst e) \<in> sg_id ` set (pre @ ins @ post)" if "e \<in> set (cl_ll c)" for e using c that by (simp add: cacheOk_def)
  have "coherent cs x ?c" if "x \<in> set (pre @ post)" for x
    using c that p(2) unfolding cacheOk_def coherent_def by auto
  moreover have "coherent cs out ?c"
    using e out p(2) unfolding coherent_def by (metis (no_types, lifting) fst_conv imageE mem_Collect_eq)
  moreover have "fst (fst x) \<in> sg_id ` set (pre @ out # post)" if "x \<in> set (cl_ll ?c)" for x
    using e [of x] that p(2) by auto
  ultimately show ?thesis using p(1) by (simp add: cacheOk_def)
qed

lemma metasOk_replace:
  assumes m: "metasOk sms (pre @ ins @ post)" and d: "distinct (map sg_id (pre @ ins @ post))" and ids: "set ids = sg_id ` set ins"
    and out: "\<forall>x\<in>set (pre @ ins @ post). sg_id x \<noteq> sg_id out" "sm_Id sm = sg_id out"
      "sm_MinDocid sm = sg_minDocid out" "sm_MaxDocid sm = sg_maxDocid out"
  shows "metasOk (filter (\<lambda>x. sm_Id x \<notin> set ids) sms @ [sm]) (pre @ out # post)"
proof -
  let ?f = "filter (\<lambda>x. sm_Id x \<notin> set ids) sms"
  have st: "set (map sm_Id sms) = set (map sg_id (pre @ ins @ post))" using m by (simp add: metasOk_def)
  have "set (map sm_Id ?f) = set (map sm_Id sms) - set ids" by auto
  also have "\<dots> = set (map sg_id (pre @ post))" unfolding st ids using d by auto
  finally have f: "set (map sm_Id ?f) = set (map sg_id (pre @ post))" .
  then have "sg_id out \<notin> set (map sm_Id ?f)" using out(1) by auto
  then have "distinct (map sm_Id (?f @ [sm]))" using m out(2) by (auto simp: metasOk_def distinct_map_filter)
  moreover have "set (map sm_Id (?f @ [sm])) = set (map sg_id (pre @ out # post))" using f out(2) by auto
  moreover have "sm_MinDocid x = sg_minDocid y \<and> sm_MaxDocid x = sg_maxDocid y"
    if "x \<in> set (?f @ [sm])" "y \<in> set (pre @ out # post)" "sm_Id x = sg_id y" for x y
  proof (cases "y = out")
    case True
    then have "sm_Id x \<notin> sm_Id ` set ?f" using that(3) \<open>sg_id out \<notin> set (map sm_Id ?f)\<close> by simp
    then have "x = sm" using that(1) by (metis Un_iff image_eqI list.set(1,2) set_append singletonD)
    then show ?thesis using True out by simp
  next
    case False
    then have y: "y \<in> set (pre @ ins @ post)" using that(2) by auto
    then have "x \<noteq> sm" using out that(3) by auto
    then have "x \<in> set sms" using that(1) by auto
    then show ?thesis using m y that(3) unfolding metasOk_def by blast
  qed
  ultimately show ?thesis unfolding metasOk_def by blast
qed

subsection \<open>The installation\<close>

definition inCatalog :: "store \<Rightarrow> int \<Rightarrow> bool" where
  "inCatalog s t \<longleftrightarrow> tableInfo s t \<noteq> None"

lemma inCatalog_iff: "inCatalog s t \<longleftrightarrow> t \<in> fst ` set (mf_Tables (st_man s))"
  by (simp add: inCatalog_def tableInfo_def map_of_eq_None_iff)

lemma inCatalog_range: "storeOk cs s \<Longrightarrow> inCatalog s t \<Longrightarrow> 0 < t \<and> tableRange t"
  unfolding inCatalog_iff storeOk_def freshOk_def by fastforce

lemma replaceSegs_layers:
  assumes cs: "codec_ok cs" and segs: "st_segs s = pre @ mp_segs p @ post" "st_segs s1 = pre @ out # post"
    and h: "st_head s1 = st_head s" "st_spilling s1 = st_spilling s"
    and out: "segOk cs out (mergeOut (mp_covering p) (mp_liveTables p) (map (recsOf cs) (mp_segs p)))"
    and f: "mergeFits (mp_covering p) (mp_liveTables p) (map (recsOf cs) (mp_segs p))"
    and L: "if mp_covering p then pre = [] \<and> mp_liveTables p = Some L else mp_liveTables p = None"
    and t: "tableRange t" and g: "good (tableLayers cs t s)"
  shows "good (tableLayers cs t s1)"
    and "set (tableLayers cs t s) \<subseteq> {emptyLayer} \<Longrightarrow> set (tableLayers cs t s1) \<subseteq> {emptyLayer}"
    and "mp_covering p \<longrightarrow> t \<in> set L \<or> set (diskLayers cs t (mp_segs p)) \<subseteq> {emptyLayer} \<Longrightarrow>
      liveOf cs s1 t = liveOf cs s t \<and> pendOf cs s1 t = pendOf cs s t \<and> durOf cs s1 t = durOf cs s t"
proof -
  define A where "A = headLayer (frontHead t s) # detachedLayers t s"
  let ?ins = "diskLayers cs t (mp_segs p)" and ?pre = "diskLayers cs t pre" and ?post = "diskLayers cs t post"
  define o' where "o' = segLayer (mergeOut (mp_covering p) (mp_liveTables p) (map (recsOf cs) (mp_segs p))) (word_of_int t)"
  have "recsOf cs out = mergeOut (mp_covering p) (mp_liveTables p) (map (recsOf cs) (mp_segs p))"
    using cs out by (simp add: segOk_def recsOf_eq)
  then have "diskLayers cs t [out] = [o']" by (simp add: diskLayers_def segLayers_def o'_def)
  then have d1: "diskLayers cs t (st_segs s1) = ?post @ o' # ?pre"
    using diskLayers_append [of cs t "[out]" post] by (simp add: segs(2) diskLayers_append)
  have d0: "diskLayers cs t (st_segs s) = ?post @ ?ins @ ?pre" by (simp add: segs(1) diskLayers_append)
  have fr: "frontHead t s1 = frontHead t s" "detachedLayers t s1 = detachedLayers t s" by (simp_all add: frontHead_def detachedLayers_def h)
  have lay: "tableLayers cs t s1 = (A @ ?post) @ o' # ?pre" "tableLayers cs t s = (A @ ?post) @ ?ins @ ?pre"
    by (simp_all add: tableLayers_def A_def d0 d1 fr)
  have pre: "if mp_covering p then ?pre = [] \<and> mp_liveTables p = Some L else mp_liveTables p = None"
    using L by (auto simp: diskLayers_def segLayers_def)
  have gA: "good ((A @ ?post) @ ?ins @ ?pre)" using g by (simp add: lay)
  note m = merged_layer [OF f t pre, folded o'_def]
  show "good (tableLayers cs t s1)" unfolding lay(1) by (rule m(1) [OF gA])
  show "set (tableLayers cs t s1) \<subseteq> {emptyLayer}" if "set (tableLayers cs t s) \<subseteq> {emptyLayer}"
    using m(4) [OF gA] that unfolding lay by auto
  assume c: "mp_covering p \<longrightarrow> t \<in> set L \<or> set ?ins \<subseteq> {emptyLayer}"
  have eq: "content (stack (xs @ o' # ?pre)) = content (stack (xs @ ?ins @ ?pre))" if "good (xs @ ?ins @ ?pre)" for xs
    using m(2,3) [OF that] c by blast
  have "good ((detachedLayers t s @ ?post) @ ?ins @ ?pre)" using gA by (simp add: A_def)
  moreover from this have "good (?post @ ?ins @ ?pre)" using good_append [of "detachedLayers t s"] by simp
  ultimately show "liveOf cs s1 t = liveOf cs s t \<and> pendOf cs s1 t = pendOf cs s t \<and> durOf cs s1 t = durOf cs s t"
    using eq [of "A @ ?post"] eq [of "detachedLayers t s @ ?post"] eq [of ?post] gA
    by (simp add: liveOf_def pendOf_def durOf_def lay d0 d1 fr)
qed

lemma planOk_cases:
  assumes "planOk cs p s"
  obtains pre post L where "st_segs s = pre @ mp_segs p @ post" "\<forall>x\<in>set (pre @ mp_segs p). sg_id x < mp_outId p"
    "\<forall>x\<in>set post. mp_outId p < sg_id x" "if mp_covering p then pre = [] \<and> mp_liveTables p = Some L else mp_liveTables p = None"
    "\<forall>t. inCatalog s t \<longrightarrow> mp_covering p \<longrightarrow> t \<in> set L \<or> set (diskLayers cs t (mp_segs p)) \<subseteq> {emptyLayer}"
proof (cases "mp_covering p")
  case True
  with assms obtain pre post L where "st_segs s = pre @ mp_segs p @ post" "\<forall>x\<in>set (pre @ mp_segs p). sg_id x < mp_outId p"
    "\<forall>x\<in>set post. mp_outId p < sg_id x" "pre = []" "mp_liveTables p = Some L"
    "\<forall>t\<in>fst ` set (mf_Tables (st_man s)). t \<in> set L \<or> set (diskLayers cs t (mp_segs p)) \<subseteq> {emptyLayer}"
    unfolding planOk_def by auto
  with that [of pre post L] show thesis using True by (auto simp: inCatalog_iff)
next
  case False
  with assms obtain pre post where "st_segs s = pre @ mp_segs p @ post" "\<forall>x\<in>set (pre @ mp_segs p). sg_id x < mp_outId p"
    "\<forall>x\<in>set post. mp_outId p < sg_id x" "mp_liveTables p = None" unfolding planOk_def by auto
  with that [of pre post] show thesis using False by auto
qed

lemma map_of_deletes: "k \<notin> set ks \<Longrightarrow> map_of (fold AList.delete ks al) k = map_of al k"
  by (induction ks arbitrary: al) (simp_all add: delete_conv')

text \<open>What the worker and the readers find after a merge, apart from its segments.\<close>

definition sameHeads :: "store \<Rightarrow> store \<Rightarrow> bool" where
  "sameHeads s s' \<longleftrightarrow> st_head s' = st_head s \<and> st_spilling s' = st_spilling s \<and> st_spillInFlight s' = st_spillInFlight s \<and>
     st_opts s' = st_opts s \<and> mf_Tables (st_man s') = mf_Tables (st_man s) \<and> mf_NextTableId (st_man s') = mf_NextTableId (st_man s) \<and>
     st_liveByTable s' = st_liveByTable s"

definition sameContents :: "compressors \<Rightarrow> store \<Rightarrow> store \<Rightarrow> bool" where
  "sameContents cs s s' \<longleftrightarrow> sameOn (inCatalog s) (liveOf cs s') (liveOf cs s) \<and> sameOn (inCatalog s) (pendOf cs s') (pendOf cs s) \<and>
     sameOn (inCatalog s) (durOf cs s') (durOf cs s)"

lemma replaceSegs_ok:
  assumes cs: "codec_ok cs" and s: "sysOk cs s d" and p: "planOk cs p s" and f: "planFits cs (st_opts s) p"
    and out: "segOk cs out (mergeOut (mp_covering p) (mp_liveTables p) (map (recsOf cs) (mp_segs p)))" "opened out" "sg_id out = mp_outId p"
    and sm: "sm_Id sm = mp_outId p" "sm_MinDocid sm = sg_minDocid out" "sm_MaxDocid sm = sg_maxDocid out"
    and o: "installMerge Written held (mp_inputIds p) (out, sm) (s, d\<lparr>dk_segs := AList.update (mp_outId p) (sg_file out) (dk_segs d)\<rparr>) = (ok, s', d')"
  shows "ok \<and> sysOk cs s' d' \<and> sameHeads s s' \<and> sameContents cs s s' \<and> mf_Tables (readManifest d') = mf_Tables (st_man s')"
proof -
  from planOk_cases [OF p] obtain pre post L where
    segs: "st_segs s = pre @ mp_segs p @ post" "\<forall>x\<in>set (pre @ mp_segs p). sg_id x < mp_outId p" "\<forall>x\<in>set post. mp_outId p < sg_id x"
    and L: "if mp_covering p then pre = [] \<and> mp_liveTables p = Some L else mp_liveTables p = None"
    and cat: "\<forall>t. inCatalog s t \<longrightarrow> mp_covering p \<longrightarrow> t \<in> set L \<or> set (diskLayers cs t (mp_segs p)) \<subseteq> {emptyLayer}" .
  have ids: "set (mp_inputIds p) = sg_id ` set (mp_segs p)" "mp_outId p < mf_NextSegId (st_man s)" using p by (simp_all add: planOk_def)
  have st: "storeOk cs s" "manOk s" "diskOk cs s d" using s by (simp_all add: sysOk_def)
  have k: "segsOk cs s" "headsOk s" "layersOk cs s" "freshOk cs s" "0 < o_Chunk (st_opts s)" using st(1) by (simp_all add: storeOk_def)
  have di: "distinct (map sg_id (pre @ mp_segs p @ post))" using segsOk_distinct [OF k(1)] by (simp add: segs(1))
  have ne: "\<forall>x\<in>set (pre @ mp_segs p @ post). sg_id x \<noteq> sg_id out" using segs(2,3) unfolding out(3) set_append by (metis Un_iff less_irrefl)
  have srt: "sorted_wrt (<) (map sg_id (pre @ out # post))"
    using k(1) segs(2,3) by (auto simp: segsOk_def segs(1) out(3) sorted_wrt_append)
  note fl = filter_inputs [OF di ids(1)]
  define m where "m = (st_man s)\<lparr>mf_Segments := filter (\<lambda>x. sm_Id x \<notin> set (mp_inputIds p)) (mf_Segments (st_man s)) @ [sm]\<rparr>"
  define s1 where "s1 = s\<lparr>st_man := m, st_segs := pre @ out # post, st_dictCache := fold (\<lambda>x. purge (sg_id x)) (mp_segs p) (st_dictCache s)\<rparr>"
  define d1 where "d1 = d\<lparr>dk_MANIFEST := Some m, dk_segs := fold AList.delete (filter (\<lambda>i. i \<notin> set held) (map sg_id (mp_segs p)))
    (AList.update (mp_outId p) (sg_file out) (dk_segs d))\<rparr>"
  have eq: "ok" "s' = s1" "d' = d1"
    using o by (simp_all add: installMerge_def Let_def writeManifestBytes_def segs(1) fl sort_out [OF srt] m_def s1_def d1_def del: filter_append append_assoc)
  have ff: "mergeFits (mp_covering p) (mp_liveTables p) (map (recsOf cs) (mp_segs p))" using f by (simp add: planFits_def)
  have sel: "st_segs s1 = pre @ out # post" "st_head s1 = st_head s" "st_spilling s1 = st_spilling s" by (simp_all add: s1_def)
  note lay = replaceSegs_layers [OF cs segs(1) sel out(1) ff L]
  have "segsOk cs s1"
  proof -
    have "recsOf cs out = mergeOut (mp_covering p) (mp_liveTables p) (map (recsOf cs) (mp_segs p))"
      using cs out(1) by (simp add: segOk_def recsOf_eq)
    then have "\<forall>x\<in>set (pre @ out # post). segOk cs x (recsOf cs x)" using k(1) out(1) by (auto simp: segsOk_def segs(1))
    moreover have "\<forall>x\<in>set (pre @ out # post). sg_id x < mf_NextSegId (st_man s)" using k(1) ids(2) by (auto simp: segsOk_def segs(1) out(3))
    moreover have "cacheOk cs (pre @ mp_segs p @ post) (st_dictCache s)" using k(1) by (simp add: segsOk_def segs(1))
    from cacheOk_replace [OF this ne] have "cacheOk cs (st_segs s1) (st_dictCache s1)" by (simp add: s1_def)
    ultimately show ?thesis using srt unfolding segsOk_def by (simp add: s1_def m_def)
  qed
  moreover have "headsOk s1" using k(2) by (simp add: headsOk_def s1_def)
  moreover have "layersOk cs s1" using k(3) lay(1) unfolding layersOk_def by blast
  moreover have "freshOk cs s1"
  proof -
    have "set (tableLayers cs t s1) \<subseteq> {emptyLayer}" if t: "mf_NextTableId (st_man s) \<le> t" "t < 2 ^ 32" for t
    proof -
      have r: "tableRange t" using t k(4) by (simp add: freshOk_def)
      have "set (tableLayers cs t s) \<subseteq> {emptyLayer}" "good (tableLayers cs t s)" using k(3,4) t r by (simp_all add: freshOk_def layersOk_def)
      then show ?thesis using lay(2) [OF r] by blast
    qed
    then show ?thesis using k(4) unfolding freshOk_def by (simp add: s1_def m_def)
  qed
  ultimately have ok: "storeOk cs s1" using k(5) by (simp add: storeOk_def s1_def)
  have "metasOk (mf_Segments (st_man s)) (pre @ mp_segs p @ post)" using st(2) by (simp add: manOk_def segs(1))
  from metasOk_replace [OF this di ids(1) ne, of sm] sm out(3)
  have "metasOk (mf_Segments (st_man s1)) (st_segs s1)" by (simp add: s1_def m_def)
  then have mo: "manOk s1" using st(2) out(2) by (auto simp: manOk_def segs(1) s1_def m_def)
  have "map_of (dk_segs d1) (sg_id x) = Some (sg_file x)" if "x \<in> set (pre @ out # post)" for x
  proof -
    have "sg_id x \<notin> sg_id ` set (mp_segs p)" using that di ne by auto
    then have "map_of (dk_segs d1) (sg_id x) = ((map_of (dk_segs d))(mp_outId p \<mapsto> sg_file out)) (sg_id x)"
      by (simp add: d1_def map_of_deletes update_conv')
    then show ?thesis using that st(3) ne by (auto simp: out(3) diskOk_def Let_def segs(1))
  qed
  then have "diskOk cs s1 d1" by (intro diskOk_written [OF ok mo]) (simp_all add: s1_def d1_def readManifest_def)
  moreover have "liveOf cs s1 t = liveOf cs s t \<and> pendOf cs s1 t = pendOf cs s t \<and> durOf cs s1 t = durOf cs s t" if "inCatalog s t" for t
  proof -
    have "tableRange t" using inCatalog_range [OF st(1) that] by blast
    moreover from this have "good (tableLayers cs t s)" using k(3) by (simp add: layersOk_def)
    ultimately show ?thesis using lay(3) cat that by blast
  qed
  then have "sameContents cs s s1" unfolding sameContents_def sameOn_def by blast
  moreover have "sameHeads s s1" by (simp add: sameHeads_def s1_def m_def)
  moreover have "mf_Tables (readManifest d1) = mf_Tables (st_man s1)" by (simp add: d1_def s1_def m_def readManifest_def)
  ultimately show ?thesis using ok mo eq(1) unfolding eq(2,3) sysOk_def by simp
qed

theorem runMergePlan_ok:
  assumes cs: "codec_ok cs" and s: "sysOk cs s d" and p: "planOk cs p s" and f: "planFits cs (st_opts s) p" and r: "r \<noteq> NotSynced"
  shows "\<exists>ok s' d'. runMergePlan cs r held p (s, d) = Some (ok, s', d') \<and> (ok \<longleftrightarrow> r = Written) \<and> sysOk cs s' d' \<and>
    sameHeads s s' \<and> sameContents cs s s' \<and> (if ok then mf_Tables (readManifest d') = mf_Tables (st_man s')
      else s' = s \<and> readManifest d' = readManifest d)"
proof -
  have st: "storeOk cs s" "diskOk cs s d" using s by (simp_all add: sysOk_def)
  have sub: "set (mp_segs p) \<subseteq> set (st_segs s)" using p by (auto simp: planOk_def)
  from mergeSegments_planned [OF cs st(1) sub f] obtain out sm where
    m: "mergeSegments cs (st_opts s) (mp_segs p) (mp_outId p) (mp_level p) (mp_dataCodec p) (mp_covering p) (mp_liveTables p) = Some (out, sm)"
    and o: "segOk cs out (mergeOut (mp_covering p) (mp_liveTables p) (map (recsOf cs) (mp_segs p)))" "opened out" "sg_id out = mp_outId p"
      "sm_Id sm = mp_outId p" "sm_MinDocid sm = sg_minDocid out" "sm_MaxDocid sm = sg_maxDocid out" by blast
  let ?d0 = "d\<lparr>dk_segs := AList.update (mp_outId p) (sg_file out) (dk_segs d)\<rparr>"
  have eq: "runMergePlan cs r held p (s, d) = Some (installMerge r held (mp_inputIds p) (out, sm) (s, ?d0))"
    by (simp add: runMergePlan_def m)
  show ?thesis
  proof (cases "r = Written")
    case True
    obtain ok s' d' where i: "installMerge Written held (mp_inputIds p) (out, sm) (s, ?d0) = (ok, s', d')"
      by (cases "installMerge Written held (mp_inputIds p) (out, sm) (s, ?d0)")
    note k = replaceSegs_ok [OF cs s p f o i]
    then show ?thesis unfolding True eq [unfolded True] i by (intro exI [of _ ok] exI [of _ s'] exI [of _ d']) simp
  next
    case False
    let ?d1 = "?d0\<lparr>dk_segs := AList.delete (mp_outId p) (dk_segs ?d0)\<rparr>"
    have i: "installMerge r held (mp_inputIds p) (out, sm) (s, ?d0) = (False, s, ?d1)"
      using False r by (cases r) (simp_all add: installMerge_def Let_def writeManifestBytes_def o(3))
    have n: "sg_id x \<noteq> mp_outId p" if "x \<in> set (st_segs s)" for x
    proof -
      from planOk_cases [OF p] obtain pre post L where "st_segs s = pre @ mp_segs p @ post"
        "\<forall>x\<in>set (pre @ mp_segs p). sg_id x < mp_outId p" "\<forall>x\<in>set post. mp_outId p < sg_id x" .
      then show ?thesis using that by (metis Un_iff less_irrefl set_append)
    qed
    have "diskOk cs s ?d1" by (rule diskOk_files [OF st(2)]) (use n in \<open>simp_all add: update_conv' delete_conv'\<close>)
    then have "sysOk cs s ?d1" using s by (simp add: sysOk_def)
    moreover have "sameHeads s s" "sameContents cs s s" by (simp_all add: sameHeads_def sameContents_def sameOn_def)
    ultimately show ?thesis unfolding eq i using False by (intro exI [of _ False] exI [of _ s] exI [of _ ?d1]) simp
  qed
qed

end
