(* ===== verification/StLive.thy ===== *)
theory StLive
  imports StMergeInst
begin

text \<open>
  Recomputing the counter of live postings (\<^verbatim>\<open>recomputeLive\<close> of \<^verbatim>\<open>reconcile.go\<close> and the bookkeeping of \<^verbatim>\<open>update.go\<close>),
  which triggers covering merges: for every table it is the number of pairs of a document and a keyword
  of the document.
\<close>

subsection \<open>Recomputing\<close>

lemma distinct_remdups_adj: "sorted xs \<Longrightarrow> distinct (remdups_adj (xs :: 'a :: linorder list))"
  by (induction xs rule: remdups_adj.induct) auto

lemma distinctOrds_card: "length (distinctOrds (sort ords)) = card (set ords)"
proof -
  have "distinct (remdups_adj (sort ords))" by (simp add: distinct_remdups_adj)
  then show ?thesis using distinct_card [of "remdups_adj (sort ords)"] by (simp add: distinctOrds_def)
qed

lemma fwd_words_card:
  assumes "distinct ks" "\<forall>o'\<in>set ords. unat o' < length ks \<and> (\<exists>kw. ks ! unat o' = invertedKey t kw)"
  shows "card ((\<lambda>o'. map (drop 5) ks ! unat o') ` set ords) = card (set ords)"
proof (rule card_image, rule inj_onI)
  fix a b assume ab: "a \<in> set ords" "b \<in> set ords" "map (drop 5) ks ! unat a = map (drop 5) ks ! unat b"
  obtain x y where k: "ks ! unat a = invertedKey t x" "ks ! unat b = invertedKey t y" "unat a < length ks" "unat b < length ks"
    using assms(2) ab(1,2) by blast
  then have "x = y" using ab(3) by (simp add: invertedKey_def)
  then have "unat a = unat b" using k assms(1) by (metis nth_eq_iff_index_eq)
  then show "a = b" by (rule unsigned_word_eqI)
qed

text \<open>The count of one forward record is that of its document's keywords.\<close>

lemma record_count:
  assumes "wfRecs es" "map_of es (forwardKey t d) = Some v"
  shows "\<exists>ords. v = encodeForward ords \<and> decodeForward v = Some (sort ords, ords = []) \<and>
    (\<exists>W. l_fwd (segLayer es t) d = Some W \<and> card (wordsOf W) = card (set ords))"
proof -
  have "(forwardKey t d, v) \<in> set es" using assms(2) by (rule map_of_SomeD)
  then have "recOk (invKeys es) (forwardKey t d, v)" using assms(1) by (auto simp: wfRecs_def)
  then obtain ords where o: "v = encodeForward ords" "fits64 (length ords)"
    "\<forall>o'\<in>set ords. unat o' < length (invKeys es) \<and> (\<exists>kw. invKeys es ! unat o' = invertedKey t kw)"
    by (auto simp: recOk_def fwdVal_def)
  have "ordered es" using assms(1) by (simp add: wfRecs_def)
  then have d: "distinct (invKeys es)" using invKeys_sorted strict_sorted_iff by blast
  have "l_fwd (segLayer es t) d = Some (if ords = [] then None else Some ((\<lambda>o'. invKws es ! unat o') ` set ords))"
    using assms(2) by (simp add: segLayer_def o(1) fwdAt_encode [OF o(2)])
  moreover have "decodeForward v = Some (sort ords, ords = [])" using decodeForward_encodeForward [of ords] o(1,2) by (simp add: fits64_def)
  ultimately show ?thesis using fwd_words_card [OF d o(3)] o(1) by (auto simp: wordsOf_def invKws_invKeys)
qed

lemma scanCount:
  "distinct (map fst es) \<Longrightarrow> \<forall>kv\<in>set es. \<exists>d ords. fst kv = forwardKey t d \<and> snd kv = encodeForward ords \<and>
      decodeForward (snd kv) = Some (sort ords, ords = []) \<and> f d = card (set ords) \<Longrightarrow>
   \<exists>decided' lv'. scanFold (visitForward (addLive t')) es (decided, lv, False) = Some (decided', lv', False) \<and>
     set decided' = set decided \<union> {d. map_of es (forwardKey t d) \<noteq> None} \<and>
     countFor lv' t' = countFor lv t' + (\<Sum>d\<in>{d. d \<notin> set decided \<and> map_of es (forwardKey t d) \<noteq> None}. int (f d)) \<and>
     (\<forall>x. x \<noteq> t' \<longrightarrow> map_of lv' x = map_of lv x)"
proof (induction es arbitrary: decided lv)
  case (Cons e es)
  obtain d ords where e: "e = (forwardKey t d, encodeForward ords)" "decodeForward (encodeForward ords) = Some (sort ords, ords = [])"
    "f d = card (set ords)" using Cons.prems(2) by (cases e) auto
  have n: "map_of es (forwardKey t d) = None" using Cons.prems(1) by (simp add: e(1) map_of_eq_None_iff)
  let ?lv = "if d \<in> set decided \<or> ords = [] then lv else AList.update t' (countFor lv t' + int (f d)) lv"
  let ?decided = "if d \<in> set decided then decided else d # decided"
  have step: "visitForward (addLive t') (decided, lv, False) (forwardKey t d) (encodeForward ords) = Some (?decided, ?lv, False)"
    using distinctOrds_card [of ords] by (simp add: visitForward_def Uint64_key e(2,3) addLive_def countFor_def)
  from Cons.IH [of ?decided ?lv] Cons.prems obtain decided' lv' where
    ih: "scanFold (visitForward (addLive t')) es (?decided, ?lv, False) = Some (decided', lv', False)"
    "set decided' = set ?decided \<union> {d. map_of es (forwardKey t d) \<noteq> None}"
    "countFor lv' t' = countFor ?lv t' + (\<Sum>d\<in>{x. x \<notin> set ?decided \<and> map_of es (forwardKey t x) \<noteq> None}. int (f d))"
    "\<forall>x. x \<noteq> t' \<longrightarrow> map_of lv' x = map_of ?lv x" by auto
  have dec: "set decided' = set decided \<union> {d. map_of (e # es) (forwardKey t d) \<noteq> None}" by (auto simp: ih(2) e(1))
  have "{x. x \<notin> set decided \<and> map_of (e # es) (forwardKey t x) \<noteq> None} =
      (if d \<in> set decided then {} else {d}) \<union> {x. x \<notin> set ?decided \<and> map_of es (forwardKey t x) \<noteq> None}"
    using n by (auto simp: e(1))
  then have "(\<Sum>x\<in>{x. x \<notin> set decided \<and> map_of (e # es) (forwardKey t x) \<noteq> None}. int (f x)) =
      (if d \<in> set decided then 0 else int (f d)) + (\<Sum>x\<in>{x. x \<notin> set ?decided \<and> map_of es (forwardKey t x) \<noteq> None}. int (f x))"
    by simp
  then have "countFor lv' t' = countFor lv t' + (\<Sum>x\<in>{x. x \<notin> set decided \<and> map_of (e # es) (forwardKey t x) \<noteq> None}. int (f x))"
    using ih(3) e(3) by auto
  moreover have "\<forall>x. x \<noteq> t' \<longrightarrow> map_of lv' x = map_of lv x" using ih(4) by (simp add: update_conv')
  ultimately show ?case using ih(1) dec step by (simp add: e(1))
qed simp

lemma forEachCount:
  assumes "codec_ok cs"
  shows "list_all2 (segOk cs) segs srcs \<Longrightarrow>
    \<exists>lv'. forEachLiveSegmentForward cs t (addLive t') segs decided lv = Some lv' \<and>
      countFor lv' t' = countFor lv t' + (\<Sum>d\<in>- set decided. int (card (wordsOf (content (stack (map (\<lambda>es. segLayer es t) srcs)) d)))) \<and>
      (\<forall>x. x \<noteq> t' \<longrightarrow> map_of lv' x = map_of lv x)"
proof (induction arbitrary: decided lv rule: list_all2_induct)
  case Nil
  then show ?case by (simp add: content_def emptyLayer_def wordsOf_def)
next
  case (Cons s segs es srcs)
  let ?es = "filter (\<lambda>kv. prefix (forwardKeyPrefix t) (fst kv)) es"
  have wf: "wfRecs es" and h: "holds cs s es" using Cons.hyps(1) by (simp_all add: segOk_def)
  have d: "distinct (map fst es)" "distinct (map fst ?es)" using segOk_distinct [OF Cons.hyps(1)] distinct_map_filter by blast+
  let ?l = "l_fwd (segLayer es t)"
  let ?f = "\<lambda>d. card (wordsOf (case ?l d of None \<Rightarrow> None | Some W \<Rightarrow> W))"
  have mo: "map_of ?es (forwardKey t d) = map_of es (forwardKey t d)" for d
  proof -
    have "prefix (forwardKeyPrefix t) (forwardKey t d)" by simp
    then show ?thesis by (induction es) (auto simp del: prefix_forwardKey)
  qed
  have "\<exists>d ords. fst kv = forwardKey t d \<and> snd kv = encodeForward ords \<and>
      decodeForward (snd kv) = Some (sort ords, ords = []) \<and> ?f d = card (set ords)" if kv: "kv \<in> set ?es" for kv
  proof -
    have "recOk (invKeys es) kv" using wf kv by (auto simp: wfRecs_def)
    then obtain d where k: "fst kv = forwardKey t d" using kv by (auto simp: recOk_def)
    then have "map_of es (forwardKey t d) = Some (snd kv)" using kv d(1) by (auto intro!: map_of_is_SomeI simp flip: k)
    from record_count [OF wf this] k show ?thesis by auto
  qed
  then obtain decided' lv1 where s: "scanFold (visitForward (addLive t')) ?es (decided, lv, False) = Some (decided', lv1, False)"
    "set decided' = set decided \<union> {d. map_of es (forwardKey t d) \<noteq> None}"
    "countFor lv1 t' = countFor lv t' + (\<Sum>d\<in>{d. d \<notin> set decided \<and> map_of es (forwardKey t d) \<noteq> None}. int (?f d))"
    "\<forall>x. x \<noteq> t' \<longrightarrow> map_of lv1 x = map_of lv x"
    using scanCount [OF d(2), of t ?f t' decided lv] unfolding mo by blast
  from Cons.IH [of decided' lv1] obtain lv' where b: "forEachLiveSegmentForward cs t (addLive t') segs decided' lv1 = Some lv'"
    "countFor lv' t' = countFor lv1 t' + (\<Sum>d\<in>- set decided'. int (card (wordsOf (content (stack (map (\<lambda>es. segLayer es t) srcs)) d))))"
    "\<forall>x. x \<noteq> t' \<longrightarrow> map_of lv' x = map_of lv1 x" by blast
  let ?g = "\<lambda>d. int (card (wordsOf (content (stack (map (\<lambda>es. segLayer es t) (es # srcs))) d)))"
  have some: "?l d \<noteq> None \<longleftrightarrow> map_of es (forwardKey t d) \<noteq> None" for d
  proof (cases "map_of es (forwardKey t d)")
    case (Some v)
    then show ?thesis using record_count [OF wf Some] by auto
  qed (simp add: segLayer_def)
  have g: "?g d = (if map_of es (forwardKey t d) \<noteq> None then int (?f d) else int (card (wordsOf (content (stack (map (\<lambda>es. segLayer es t) srcs)) d))))" for d
    using some [of d] by (auto simp: content_over split: option.splits)
  have "- set decided = {d. d \<notin> set decided \<and> map_of es (forwardKey t d) \<noteq> None} \<union> - set decided'" by (auto simp: s(2))
  moreover have "{d. d \<notin> set decided \<and> map_of es (forwardKey t d) \<noteq> None} \<inter> - set decided' = {}" by (auto simp: s(2))
  ultimately have "(\<Sum>d\<in>- set decided. ?g d) = (\<Sum>d\<in>{d. d \<notin> set decided \<and> map_of es (forwardKey t d) \<noteq> None}. ?g d) + (\<Sum>d\<in>- set decided'. ?g d)"
    by (simp only: sum.union_disjoint [OF finite finite])
  also have "(\<Sum>d\<in>{d. d \<notin> set decided \<and> map_of es (forwardKey t d) \<noteq> None}. ?g d) = (\<Sum>d\<in>{d. d \<notin> set decided \<and> map_of es (forwardKey t d) \<noteq> None}. int (?f d))"
    by (rule sum.cong) (simp_all only: g mem_Collect_eq if_True simp_thms)
  also have "(\<Sum>d\<in>- set decided'. ?g d) = (\<Sum>d\<in>- set decided'. int (card (wordsOf (content (stack (map (\<lambda>es. segLayer es t) srcs)) d))))"
    by (rule sum.cong) (auto simp: g s(2) simp del: list.map stack_simps)
  finally have "countFor lv' t' = countFor lv t' + (\<Sum>d\<in>- set decided. ?g d)" using b(2) s(3) by simp
  then show ?case using b(1,3) s(1,4) by (simp add: holds_scan [OF assms h] del: list.map stack_simps)
qed

lemma recomputeTables_ok:
  assumes "codec_ok cs" "\<forall>seg\<in>set segs. segOk cs seg (recsOf cs seg)"
  shows "distinct ts \<Longrightarrow> \<exists>lv'. recomputeTables cs (rev segs) ts lv = Some lv' \<and>
    (\<forall>t. countFor lv' t = countFor lv t + (if t \<in> set ts then countOf (content (stack (diskLayers cs t segs))) else 0))"
proof (induction ts arbitrary: lv)
  case (Cons t ts)
  have "list_all2 (segOk cs) (rev segs) (rev (map (recsOf cs) segs))"
    using assms(2) by (simp add: rev_map list.rel_map list.rel_refl_strong)
  from forEachCount [OF assms(1) this, of "word_of_int t" t "[]" lv] obtain lv1 where
    l: "forEachLiveSegmentForward cs (word_of_int t) (addLive t) (rev segs) [] lv = Some lv1"
    "countFor lv1 t = countFor lv t + countOf (content (stack (diskLayers cs t segs)))" "\<forall>x. x \<noteq> t \<longrightarrow> map_of lv1 x = map_of lv x"
    by (auto simp: countOf_def diskLayers_def segLayers_def rev_map comp_def)
  from Cons.IH [of lv1] Cons.prems obtain lv' where r: "recomputeTables cs (rev segs) ts lv1 = Some lv'"
    "\<forall>x. countFor lv' x = countFor lv1 x + (if x \<in> set ts then countOf (content (stack (diskLayers cs x segs))) else 0)" by auto
  have o: "countFor lv1 x = countFor lv x" if "x \<noteq> t" for x using l(3) that by (simp add: countFor_def)
  have "countFor lv' x = countFor lv x + (if x \<in> set (t # ts) then countOf (content (stack (diskLayers cs x segs))) else 0)" for x
    using r(2) l(2) o [of x] Cons.prems by (cases "x = t") auto
  then show ?case using l(1) r(1) by simp
qed simp

theorem recomputeLive_ok:
  assumes "codec_ok cs" "segsOk cs s" "distinct (map fst (mf_Tables (st_man s)))"
  shows "\<exists>lv. recomputeLive cs s = Some (s\<lparr>st_liveByTable := lv\<rparr>) \<and> (\<forall>t. countFor lv t = (if inCatalog s t then countOf (durOf cs s t) else 0))"
proof -
  have "\<forall>seg\<in>set (st_segs s). segOk cs seg (recsOf cs seg)" using assms(2) by (simp add: segsOk_def)
  from recomputeTables_ok [OF assms(1) this assms(3), of "[]"] obtain lv where
    "recomputeTables cs (rev (st_segs s)) (map fst (mf_Tables (st_man s))) [] = Some lv"
    "\<forall>t. countFor lv t = (if t \<in> set (map fst (mf_Tables (st_man s))) then countOf (content (stack (diskLayers cs t (st_segs s)))) else 0)"
    by (auto simp: countFor_def)
  then show ?thesis by (intro exI [of _ lv]) (simp add: recomputeLive_def inCatalog_iff durOf_def)
qed

end
