(* ===== verification/StOpen.thy ===== *)
theory StOpen
  imports StLive
begin

text \<open>
  Planning a merge and opening the store. A covering plan is always in order; a tiered plan is
  when its inputs are the newest segments. Opening after a crash gives the tables the content that was
  durable.
\<close>

subsection \<open>Plans\<close>

lemma nextSegId_ok: "sysOk cs s d \<Longrightarrow> sysOk cs (snd (nextSegId s)) d"
  by (auto simp: sysOk_def storeOk_def segsOk_def headsOk_def layersOk_def freshOk_def manOk_def diskOk_def nextSegId_def Let_def less_Suc_eq)

lemma segsByIds_all:
  assumes "segsOk cs s" "set ids = sg_id ` set (st_segs s)"
  shows "segsByIds ids s = st_segs s"
proof -
  have "filter (\<lambda>seg. sg_id seg \<in> set ids) (st_segs s) = st_segs s" using assms(2) by (simp add: filter_id_conv)
  then show ?thesis using assms(1) sortSegmentsById_id [of "st_segs s"] by (simp add: segsByIds_def segsOk_def sortSegmentsById_def)
qed

lemma image_selected: "A \<subseteq> f ` B \<Longrightarrow> f ` {x \<in> B. f x \<in> A} = A"
  by auto

lemma metas_ids: "manOk s \<Longrightarrow> sm_Id ` set (mf_Segments (st_man s)) = sg_id ` set (st_segs s)"
  by (simp add: manOk_def metasOk_def)

lemma covering_planOk:
  assumes s: "sysOk cs s d" and p: "mp_inputIds p = map sm_Id sms" "set sms = set (mf_Segments (st_man s))" "mp_segs p = segsByIds (mp_inputIds p) s"
    "mp_outId p = fst (nextSegId s)" "mp_covering p" "mp_liveTables p = Some (map fst (mf_Tables (st_man s)))"
  shows "planOk cs p (snd (nextSegId s))"
proof -
  have k: "segsOk cs s" "manOk s" using s by (simp_all add: sysOk_def storeOk_def)
  have i: "set (mp_inputIds p) = sg_id ` set (st_segs s)" using metas_ids [OF k(2)] by (simp add: p(1,2))
  have g: "mp_segs p = st_segs s" using segsByIds_all [OF k(1) i] by (simp add: p(3))
  have "\<forall>x\<in>set (st_segs s). sg_id x < mp_outId p" using k(1) by (simp add: segsOk_def p(4) nextSegId_def Let_def)
  then show ?thesis unfolding planOk_def using p(5,6) i g
    by (auto simp: nextSegId_def Let_def p(4))
qed

theorem selectCovering_ok:
  assumes s: "sysOk cs s d" and p: "selectCoveringMergePlan force s = (Some p, s')"
  shows "sysOk cs s' d \<and> planOk cs p s' \<and> sameHeads s s' \<and> st_segs s' = st_segs s"
proof -
  let ?sms = "mf_Segments (st_man s)"
  obtain i s1 where n: "nextSegId s = (i, s1)" by (cases "nextSegId s")
  have e: "p = \<lparr>mp_inputIds = map sm_Id ?sms, mp_segs = segsByIds (map sm_Id ?sms) s, mp_outId = i, mp_level = maxLevel ?sms,
      mp_dataCodec = o_DataCodecMerged (st_opts s), mp_covering = True, mp_liveTables = Some (map fst (mf_Tables (st_man s)))\<rparr>" "s' = s1"
    using p by (auto simp: selectCoveringMergePlan_def Let_def n split: if_splits)
  have "planOk cs p (snd (nextSegId s))" by (rule covering_planOk [OF s, of p ?sms]) (simp_all add: e n)
  moreover have "sameHeads s s1" "st_segs s1 = st_segs s" using n by (auto simp: nextSegId_def Let_def sameHeads_def)
  ultimately show ?thesis using nextSegId_ok [OF s] by (simp add: e(2) n)
qed

text \<open>The inputs of a tiered plan are neighbours and the newest.\<close>

definition newestInputs :: "mergePlan \<Rightarrow> store \<Rightarrow> bool" where
  "newestInputs p s \<longleftrightarrow> mp_segs p = drop (length (st_segs s) - length (mp_segs p)) (st_segs s)"

theorem selectTiered_ok:
  assumes s: "sysOk cs s d" and p: "selectTieredMergePlan s = (Some p, s')" and nw: "newestInputs p s"
  shows "sysOk cs s' d \<and> planOk cs p s' \<and> sameHeads s s' \<and> st_segs s' = st_segs s"
proof -
  obtain i s1 where n: "nextSegId s = (i, s1)" by (cases "nextSegId s")
  obtain l metas where pk: "pickLowestQualifyingLevelLocked s = Some (l, metas)"
    using p by (cases "pickLowestQualifyingLevelLocked s") (auto simp: selectTieredMergePlan_def)
  have e: "p = \<lparr>mp_inputIds = map sm_Id metas, mp_segs = segsByIds (map sm_Id metas) s, mp_outId = i, mp_level = l + 1,
      mp_dataCodec = o_DataCodecMerged (st_opts s), mp_covering = False, mp_liveTables = None\<rparr>" "s' = s1"
    using p by (auto simp: selectTieredMergePlan_def Let_def n pk)
  have k: "segsOk cs s" "manOk s" using s by (simp_all add: sysOk_def storeOk_def)
  have "set metas \<subseteq> set (mf_Segments (st_man s))"
    using pk by (auto simp: pickLowestQualifyingLevelLocked_def Let_def sortSegMetasById_def metasAt_def split: option.splits)
  then have "set (mp_inputIds p) \<subseteq> sg_id ` set (st_segs s)" using metas_ids [OF k(2)] by (auto simp: e(1))
  then have ids: "set (mp_inputIds p) = sg_id ` set (mp_segs p)"
    using image_selected [of "set (mp_inputIds p)" sg_id "set (st_segs s)"] by (simp add: e(1) segsByIds_def)
  have sp: "st_segs s = take (length (st_segs s) - length (mp_segs p)) (st_segs s) @ mp_segs p"
    using nw by (metis append_take_drop_id newestInputs_def)
  have i: "i = mf_NextSegId (st_man s)" "s1 = s\<lparr>st_man := (st_man s)\<lparr>mf_NextSegId := i + 1\<rparr>\<rparr>"
    using n by (auto simp: nextSegId_def Let_def)
  have lt: "\<forall>x\<in>set (st_segs s). sg_id x < i" using k(1) by (simp add: segsOk_def i(1))
  have "planOk cs p s1"
    unfolding planOk_def
  proof (intro conjI exI)
    show "st_segs s1 = take (length (st_segs s) - length (mp_segs p)) (st_segs s) @ mp_segs p @ []" using sp by (simp add: i(2))
    show "\<forall>x\<in>set (take (length (st_segs s) - length (mp_segs p)) (st_segs s) @ mp_segs p). sg_id x < mp_outId p"
      using lt sp by (simp add: e(1))
  qed (use ids in \<open>simp_all add: e(1) i(2)\<close>)
  moreover have "sameHeads s s1" "st_segs s1 = st_segs s" by (simp_all add: i(2) sameHeads_def)
  ultimately show ?thesis using nextSegId_ok [OF s] by (simp add: e(2) n)
qed

text \<open>A plan stays in order while batches run, heads are installed and tables come and go.\<close>

lemma planOk_mono:
  assumes p: "planOk cs p s" and f: "freshOk cs s"
    and segs: "st_segs s' = st_segs s @ new" "\<forall>x\<in>set new. mf_NextSegId (st_man s) \<le> sg_id x" "mf_NextSegId (st_man s) \<le> mf_NextSegId (st_man s')"
    and tabs: "\<forall>t\<in>fst ` set (mf_Tables (st_man s')). t \<in> fst ` set (mf_Tables (st_man s)) \<or> mf_NextTableId (st_man s) \<le> t \<and> t < 2 ^ 32"
  shows "planOk cs p s'"
proof -
  from planOk_cases [OF p] obtain pre post L where
    g: "st_segs s = pre @ mp_segs p @ post" "\<forall>x\<in>set (pre @ mp_segs p). sg_id x < mp_outId p" "\<forall>x\<in>set post. mp_outId p < sg_id x"
    and L: "if mp_covering p then pre = [] \<and> mp_liveTables p = Some L else mp_liveTables p = None"
    and c: "\<forall>t. inCatalog s t \<longrightarrow> mp_covering p \<longrightarrow> t \<in> set L \<or> set (diskLayers cs t (mp_segs p)) \<subseteq> {emptyLayer}" .
  have ids: "set (mp_inputIds p) = sg_id ` set (mp_segs p)" "mp_outId p < mf_NextSegId (st_man s)" using p by (simp_all add: planOk_def)
  have "set (diskLayers cs t (mp_segs p)) \<subseteq> {emptyLayer}" if "mf_NextTableId (st_man s) \<le> t" "t < 2 ^ 32" for t
  proof -
    have "set (tableLayers cs t s) \<subseteq> {emptyLayer}" using f that by (simp add: freshOk_def)
    then show ?thesis by (simp add: tableLayers_def g(1) diskLayers_append)
  qed
  then have "\<forall>t\<in>fst ` set (mf_Tables (st_man s')). mp_covering p \<longrightarrow> t \<in> set L \<or> set (diskLayers cs t (mp_segs p)) \<subseteq> {emptyLayer}"
    using tabs c unfolding inCatalog_iff by blast
  moreover have "st_segs s' = pre @ mp_segs p @ (post @ new)" by (simp add: segs(1) g(1))
  moreover have "\<forall>x\<in>set (post @ new). mp_outId p < sg_id x" using g(3) segs(2) ids(2) by auto
  moreover have "mp_covering p \<longrightarrow> pre = []" using L by simp
  ultimately have "\<exists>pre post. st_segs s' = pre @ mp_segs p @ post \<and> (\<forall>x\<in>set (pre @ mp_segs p). sg_id x < mp_outId p) \<and>
      (\<forall>x\<in>set post. mp_outId p < sg_id x) \<and> (mp_covering p \<longrightarrow> pre = [])" using g(2) by blast
  moreover note \<open>\<forall>t\<in>fst ` set (mf_Tables (st_man s')). mp_covering p \<longrightarrow> t \<in> set L \<or> set (diskLayers cs t (mp_segs p)) \<subseteq> {emptyLayer}\<close>
  ultimately show ?thesis using L ids segs(3) unfolding planOk_def by (cases "mp_covering p") simp_all
qed

subsection \<open>Opening\<close>

text \<open>The MANIFEST lists the segments by age.\<close>

definition manifestSorted :: "disk \<Rightarrow> bool" where
  "manifestSorted d \<longleftrightarrow> sorted (map sm_Id (mf_Segments (readManifest d)))"

lemma openSegments_ok:
  assumes "map sm_Id sms = map sg_id segs" "\<forall>seg\<in>set segs. opened seg \<and> map_of (dk_segs d) (sg_id seg) = Some (sg_file seg)"
    and "\<forall>sm\<in>set sms. \<forall>seg\<in>set segs. sm_Id sm = sg_id seg \<longrightarrow> sm_MinDocid sm = sg_minDocid seg \<and> sm_MaxDocid sm = sg_maxDocid seg"
  shows "openSegments d sms = Some segs"
  using assms
proof (induction sms arbitrary: segs)
  case (Cons sm sms)
  obtain seg segs' where g: "segs = seg # segs'" "sm_Id sm = sg_id seg" "map sm_Id sms = map sg_id segs'"
    using Cons.prems(1) by (cases segs) auto
  have o: "opened seg" "map_of (dk_segs d) (sg_id seg) = Some (sg_file seg)" "sm_MinDocid sm = sg_minDocid seg" "sm_MaxDocid sm = sg_maxDocid seg"
    using Cons.prems(2,3) g(1,2) by simp_all
  obtain seg0 where s0: "openSegment (sg_file seg) = Some seg0"
    "seg = seg0\<lparr>sg_id := sg_id seg, sg_minDocid := sg_minDocid seg, sg_maxDocid := sg_maxDocid seg\<rparr>" using o(1) by (auto simp: opened_def)
  have "openSegments d sms = Some segs'" by (rule Cons.IH [OF g(3)]) (use Cons.prems(2,3) g(1) in auto)
  then show ?case using s0(1) o(2-4) s0(2) [symmetric] by (simp add: g(1,2))
qed simp

lemma map_of_filter_keys: "k \<in> A \<Longrightarrow> map_of (filter (\<lambda>p. fst p \<in> A) al) k = map_of al k"
  by (induction al) auto

lemma opened_store_ok:
  assumes cs: "codec_ok cs" and s: "sysOk cs s d" and d1: "d1 = sweepOrphanSegments (readManifest d) d"
    and s0: "s0 = \<lparr>st_opts = withDefaults opts, st_man = readManifest d, st_head = [], st_segs = st_segs s, st_spilling = [],
      st_spillInFlight = False, st_blockProducer = False, st_spillTempCtr = 0, st_liveByTable = lv,
      st_dictCache = newChunkLRU (o_ChunkCacheBytes (withDefaults opts))\<rparr>"
  shows "sysOk cs s0 d1" "liveOf cs s0 = durOf cs s" "durOf cs s0 = durOf cs s" "readManifest d1 = readManifest d"
proof -
  have st: "storeOk cs s" "manOk s" "diskOk cs s d" using s by (simp_all add: sysOk_def)
  have k: "segsOk cs s" "layersOk cs s" "freshOk cs s" using st(1) by (simp_all add: storeOk_def)
  let ?m = "readManifest d"
  have m: "mf_Segments ?m = mf_Segments (st_man s)" "mf_FormatVersion ?m = 3" "distinct (map fst (mf_Tables ?m))"
    "\<forall>seg\<in>set (st_segs s). map_of (dk_segs d) (sg_id seg) = Some (sg_file seg) \<and> sg_id seg < mf_NextSegId ?m"
    "0 < mf_NextTableId ?m" "mf_NextTableId ?m \<le> mf_NextTableId (st_man s)" "\<forall>t\<in>fst ` set (mf_Tables ?m). 0 < t \<and> t < mf_NextTableId ?m"
    "\<And>t. mf_NextTableId ?m \<le> t \<Longrightarrow> t < 2 ^ 32 \<Longrightarrow> set (diskLayers cs t (st_segs s)) \<subseteq> {emptyLayer}"
    using st(3) by (simp_all add: diskOk_def Let_def)
  have lay: "tableLayers cs t s0 = emptyLayer # diskLayers cs t (st_segs s)" for t
    by (simp add: tableLayers_def frontHead_def detachedLayers_def s0)
  show "liveOf cs s0 = durOf cs s" by (simp add: fun_eq_iff liveOf_def durOf_def lay)
  show "durOf cs s0 = durOf cs s" by (simp add: fun_eq_iff durOf_def s0)
  show rd: "readManifest d1 = readManifest d" by (simp add: d1 sweepOrphanSegments_def)
  have "cacheOk cs (st_segs s) (newChunkLRU b)" for b
    using newChunkLRU_ok by (simp add: cacheOk_def coherent_def newChunkLRU_def)
  then have "segsOk cs s0" using k(1) m(4) by (simp add: segsOk_def s0)
  moreover have "headsOk s0" by (simp add: headsOk_def s0)
  moreover have "layersOk cs s0"
    unfolding layersOk_def lay
  proof (intro allI impI)
    fix t assume "tableRange t"
    then have "good (tableLayers cs t s)" using k(2) by (simp add: layersOk_def)
    then have "good (diskLayers cs t (st_segs s))"
      using good_append [of "headLayer (frontHead t s) # detachedLayers t s" "diskLayers cs t (st_segs s)"] by (simp add: tableLayers_def)
    then show "good (emptyLayer # diskLayers cs t (st_segs s))" using good_consistent by simp
  qed
  moreover have "freshOk cs s0" using m(5-8) k(3) by (simp add: freshOk_def lay) (simp add: s0)
  moreover have "0 < o_Chunk (st_opts s0)" by (simp add: s0 withDefaults_def Let_def)
  ultimately have ok: "storeOk cs s0" by (simp add: storeOk_def)
  have mo: "manOk s0" using st(2) m(1-3) by (simp add: manOk_def s0)
  have "\<forall>seg\<in>set (st_segs s). sg_id seg \<in> sm_Id ` set (mf_Segments ?m)" using metas_ids [OF st(2)] by (auto simp: m(1))
  then have "\<forall>seg\<in>set (st_segs s). map_of (dk_segs d1) (sg_id seg) = Some (sg_file seg)"
    using m(4) by (auto simp: d1 sweepOrphanSegments_def case_prod_unfold map_of_filter_keys)
  then have "diskOk cs s0 d1" by (intro diskOk_written [OF ok mo]) (simp_all add: rd s0)
  then show "sysOk cs s0 d1" using ok mo by (simp add: sysOk_def)
qed

text \<open>A covering merge of everything.\<close>

definition coveringFits :: "compressors \<Rightarrow> storeOptions \<Rightarrow> manifest \<Rightarrow> segment list \<Rightarrow> bool" where
  "coveringFits cs o' m segs \<longleftrightarrow> mergeFits True (Some (map fst (mf_Tables m))) (map (recsOf cs) segs) \<and>
     segFits cs (segWriterFor o' (o_DataCodecMerged o')) (mergeOut True (Some (map fst (mf_Tables m))) (map (recsOf cs) segs))"

theorem coveringMerge_ok:
  assumes cs: "codec_ok cs" and s: "sysOk cs s d" and f: "coveringFits cs (st_opts s) (st_man s) (st_segs s)" and r: "r \<noteq> NotSynced"
  shows "\<exists>ok s' d'. coveringMerge cs r held (s, d) = Some (ok, s', d') \<and> sysOk cs s' d' \<and> sameHeads s s' \<and> sameContents cs s s' \<and>
    (mf_Tables (readManifest d') = mf_Tables (st_man s) \<or> readManifest d' = readManifest d)"
proof (cases "mf_Segments (st_man s) = []")
  case True
  then have "coveringMerge cs r held (s, d) = Some (True, s, d)" by (simp add: coveringMerge_def)
  then show ?thesis using s by (intro exI [of _ True]) (simp add: sameHeads_def sameContents_def sameOn_def)
next
  case False
  obtain i s1 where n: "nextSegId s = (i, s1)" by (cases "nextSegId s")
  let ?ids = "map sm_Id (sortSegMetasById (mf_Segments (st_man s)))"
  define p where "p = \<lparr>mp_inputIds = ?ids, mp_segs = segsByIds ?ids s, mp_outId = i, mp_level = maxLevel (mf_Segments (st_man s)),
    mp_dataCodec = o_DataCodecMerged (st_opts s1), mp_covering = True, mp_liveTables = Some (map fst (mf_Tables (st_man s)))\<rparr>"
  have eq: "coveringMerge cs r held (s, d) = runMergePlan cs r held p (s1, d)"
    using False by (simp add: coveringMerge_def Let_def n p_def)
  have s1: "s1 = s\<lparr>st_man := (st_man s)\<lparr>mf_NextSegId := mf_NextSegId (st_man s) + 1\<rparr>\<rparr>" using n by (auto simp: nextSegId_def Let_def)
  have "planOk cs p (snd (nextSegId s))"
    by (rule covering_planOk [OF s, of p "sortSegMetasById (mf_Segments (st_man s))"]) (simp_all add: p_def n sortSegMetasById_def)
  then have pk: "planOk cs p s1" by (simp add: n)
  have k: "segsOk cs s" "manOk s" using s by (simp_all add: sysOk_def storeOk_def)
  have "segsByIds ?ids s = st_segs s"
    by (rule segsByIds_all [OF k(1)]) (use metas_ids [OF k(2)] in \<open>simp add: sortSegMetasById_def\<close>)
  then have pf: "planFits cs (st_opts s1) p" using f by (simp add: planFits_def coveringFits_def p_def s1)
  have "sysOk cs s1 d" using nextSegId_ok [OF s] by (simp add: n)
  from runMergePlan_ok [OF cs this pk pf r, of held] obtain ok s' d' where
    m: "runMergePlan cs r held p (s1, d) = Some (ok, s', d')" "sysOk cs s' d'" "sameHeads s1 s'" "sameContents cs s1 s'"
      "if ok then mf_Tables (readManifest d') = mf_Tables (st_man s') else s' = s1 \<and> readManifest d' = readManifest d" by blast
  have "liveOf cs s1 = liveOf cs s" "pendOf cs s1 = pendOf cs s" "durOf cs s1 = durOf cs s" "inCatalog s1 = inCatalog s"
    by (simp_all add: fun_eq_iff s1 liveOf_def pendOf_def durOf_def inCatalog_def tableInfo_def)
  then have "sameContents cs s s'" using m(4) by (simp add: sameContents_def)
  moreover have "sameHeads s s'" using m(3) by (simp add: sameHeads_def s1)
  moreover have "mf_Tables (readManifest d') = mf_Tables (st_man s) \<or> readManifest d' = readManifest d"
    using m(5) \<open>sameHeads s s'\<close> by (cases ok) (simp_all add: sameHeads_def)
  ultimately show ?thesis using m(1,2) unfolding eq by blast
qed

text \<open>Opening after a crash, or after a close. The merge that reclaims deleted tables must have room.\<close>

definition reopenFits :: "compressors \<Rightarrow> storeOptions \<Rightarrow> disk \<Rightarrow> bool" where
  "reopenFits cs opts d \<longleftrightarrow> (let m = readManifest d in
     orphanTables m \<longrightarrow> (case openSegments d (mf_Segments m) of None \<Rightarrow> False | Some segs \<Rightarrow> coveringFits cs (withDefaults opts) m segs))"

theorem Open_ok:
  assumes cs: "codec_ok cs" and s: "sysOk cs s d" and srt: "manifestSorted d" and r: "r2 \<noteq> NotSynced"
    and f: "reopenFits cs opts d"
  shows "\<exists>s' d'. Open cs opts r1 r2 d = Some (True, s', d') \<and> sysOk cs s' d' \<and> st_head s' = [] \<and> st_spilling s' = [] \<and>
    mf_Tables (st_man s') = mf_Tables (readManifest d) \<and> mf_Tables (readManifest d') = mf_Tables (readManifest d) \<and>
    mf_NextTableId (st_man s') = mf_NextTableId (readManifest d) \<and> st_opts s' = withDefaults opts \<and>
    sameOn (inCatalog s') (liveOf cs s') (durOf cs s) \<and> sameOn (inCatalog s') (durOf cs s') (durOf cs s) \<and>
    (\<forall>t. countFor (st_liveByTable s') t = (if inCatalog s' t then countOf (durOf cs s t) else 0))"
proof -
  let ?m = "readManifest d"
  define d1 where "d1 = sweepOrphanSegments ?m d"
  define S where "S lv = \<lparr>st_opts = withDefaults opts, st_man = ?m, st_head = [], st_segs = st_segs s, st_spilling = [],
      st_spillInFlight = False, st_blockProducer = False, st_spillTempCtr = 0, st_liveByTable = lv,
      st_dictCache = newChunkLRU (o_ChunkCacheBytes (withDefaults opts))\<rparr>" for lv
  note o = opened_store_ok [OF cs s d1_def S_def]
  have mo: "manOk s" "diskOk cs s d" "segsOk cs s" using s by (simp_all add: sysOk_def storeOk_def)
  have me: "mf_Segments ?m = mf_Segments (st_man s)" "mf_FormatVersion ?m = 3" using mo(2) by (simp_all add: diskOk_def Let_def)
  have mt: "metasOk (mf_Segments ?m) (st_segs s)" using mo(1) by (simp add: manOk_def me)
  have "map sm_Id (mf_Segments ?m) = map sg_id (st_segs s)"
  proof (rule sorted_distinct_set_unique)
    show "sorted (map sm_Id (mf_Segments ?m))" using srt by (simp add: manifestSorted_def)
    show "distinct (map sm_Id (mf_Segments ?m))" "set (map sm_Id (mf_Segments ?m)) = set (map sg_id (st_segs s))"
      using mt by (simp_all add: metasOk_def)
    show "sorted (map sg_id (st_segs s))" "distinct (map sg_id (st_segs s))" using mo(3) by (simp_all add: segsOk_def strict_sorted_iff)
  qed
  moreover have "\<forall>seg\<in>set (st_segs s). opened seg \<and> map_of (dk_segs d1) (sg_id seg) = Some (sg_file seg)"
    using mo(1) o(1) by (simp add: manOk_def sysOk_def diskOk_def Let_def S_def)
  moreover have "\<forall>seg\<in>set (st_segs s). opened seg \<and> map_of (dk_segs d) (sg_id seg) = Some (sg_file seg)"
    using mo(1,2) by (simp add: manOk_def diskOk_def Let_def)
  ultimately have os: "openSegments d1 (mf_Segments ?m) = Some (st_segs s)" "openSegments d (mf_Segments ?m) = Some (st_segs s)"
    using mt by (simp_all add: openSegments_ok metasOk_def)
  have "segsOk cs (S [])" "distinct (map fst (mf_Tables (st_man (S []))))" using o(1) by (simp_all add: sysOk_def storeOk_def manOk_def S_def)
  from recomputeLive_ok [OF cs this] obtain lv where lv: "recomputeLive cs (S []) = Some (S lv)"
    "\<forall>t. countFor lv t = (if inCatalog (S []) t then countOf (durOf cs (S []) t) else 0)" by (auto simp: S_def)
  have eq: "Open cs opts r1 r2 d = map_option (Pair True) (reclaimOrphanTables cs r2 [] (S lv, d1))"
    unfolding Open_def Let_def d1_def [symmetric] os(1)
    using me(2) lv(1) by (simp add: S_def [symmetric] map_conv_bind_option comp_def)
  have ic: "inCatalog (S x) = inCatalog (S lv)" for x by (simp add: fun_eq_iff inCatalog_def tableInfo_def S_def)
  have base: "mf_Tables (st_man (S lv)) = mf_Tables ?m" "mf_NextTableId (st_man (S lv)) = mf_NextTableId ?m" by (simp_all add: S_def)
  show ?thesis
  proof (cases "orphanTables (st_man (S lv))")
    case False
    then have "Open cs opts r1 r2 d = Some (True, S lv, d1)" by (simp add: eq reclaimOrphanTables_def)
    then show ?thesis using o(1-3) [of lv] o(4) lv(2) o(3) [of "[]"]
      by (intro exI [of _ "S lv"] exI [of _ d1]) (simp add: sameOn_def base ic [of "[]"], simp add: S_def)
  next
    case True
    have "coveringFits cs (st_opts (S lv)) (st_man (S lv)) (st_segs (S lv))" using f True by (simp add: S_def reopenFits_def os(2))
    from coveringMerge_ok [OF cs o(1) this r, of "[]"] obtain ok s' d' where
      c: "coveringMerge cs r2 [] (S lv, d1) = Some (ok, s', d')" "sysOk cs s' d'" "sameHeads (S lv) s'" "sameContents cs (S lv) s'"
        "mf_Tables (readManifest d') = mf_Tables (st_man (S lv)) \<or> readManifest d' = readManifest d1" by blast
    have "Open cs opts r1 r2 d = Some (True, s', d')" using True by (simp add: eq reclaimOrphanTables_def c(1))
    moreover have "inCatalog s' = inCatalog (S lv)" using c(3) by (simp add: fun_eq_iff sameHeads_def inCatalog_def tableInfo_def)
    moreover have "st_head s' = []" "st_spilling s' = []" "mf_Tables (st_man s') = mf_Tables ?m" "mf_NextTableId (st_man s') = mf_NextTableId ?m"
      "st_opts s' = withDefaults opts" "st_liveByTable s' = lv" using c(3) by (simp_all add: sameHeads_def S_def)
    moreover have "mf_Tables (readManifest d') = mf_Tables ?m" using c(5) base(1) o(4) by auto
    ultimately show ?thesis using c(2,4) o(2,3) [of lv] lv(2) o(3) [of "[]"]
      by (intro exI [of _ s'] exI [of _ d']) (simp add: sameContents_def ic [of "[]"])
  qed
qed

end
