(* ===== verification/StSteps.thy ===== *)
theory StSteps
  imports StOpen
begin

text \<open>
  The store as a transition system. A state is the store in memory, the directory, and the plan of a
  merge that is being computed. The steps are the tasks of the store: a committed batch, the catalog
  operations, the installation of a detached head, the selection and the installation of a merge, a
  restart after a close and one after a crash. They interleave freely, in particular a merge is
  computed while batches are applied and heads are installed.

  The view of a caller is the catalog, the documents of every table, and for every table the contents
  it has had since it was created or last reopened. Every step of the store is a step of the view
  (\<open>storeStep_simulates\<close>): a batch applies its operations in order, a crash goes back to one of the past
  contents of each table, a close loses nothing, and all other steps change nothing.
\<close>

type_synonym sys = "store \<times> disk \<times> mergePlan option"

datatype event = Applied "updateOp list" | Created int bytes | Deleted int | Crashed | Restarted | Internal

inductive storeStep :: "compressors \<Rightarrow> sys \<Rightarrow> event \<Rightarrow> sys \<Rightarrow> bool" for cs where
  batch: "\<forall>op\<in>set ops. opOk s op \<Longrightarrow> applyBatch cs ops s = Some (es, s') \<Longrightarrow>
    storeStep cs (s, d, p) (Applied ops) (s', d, p)"
| create: "mf_NextTableId (st_man s) < 2 ^ 32 \<Longrightarrow> CreateTable_st Written desc (s, d) = (i, True, s', d') \<Longrightarrow>
    storeStep cs (s, d, p) (Created i desc) (s', d', p)"
| delete: "DeleteTable_st Written i (s, d) = (True, s', d') \<Longrightarrow>
    storeStep cs (s, d, p) (Deleted i) (s', d', p)"
| install: "st_spilling s = [e] \<Longrightarrow> spillFits cs (st_opts s) (se_head e) (se_tableId e) \<Longrightarrow>
    encodeHeadToFile cs (st_opts s) (se_head e) (se_tableId e) = Some res \<Longrightarrow> \<forall>hs. set (iter hs) = set hs \<Longrightarrow>
    r \<noteq> NotSynced \<Longrightarrow> installSpill iter rn r e res (s, d) = (ok, nxt, s', d') \<Longrightarrow>
    storeStep cs (s, d, p) Internal (s', d', p)"
| tiered: "selectTieredMergePlan s = (Some q, s') \<Longrightarrow> newestInputs q s \<Longrightarrow>
    storeStep cs (s, d, None) Internal (s', d, Some q)"
| covering: "selectCoveringMergePlan force s = (Some q, s') \<Longrightarrow>
    storeStep cs (s, d, None) Internal (s', d, Some q)"
| merge: "planFits cs (st_opts s) q \<Longrightarrow> r \<noteq> NotSynced \<Longrightarrow> runMergePlan cs r held q (s, d) = Some (ok, s', d') \<Longrightarrow>
    storeStep cs (s, d, Some q) Internal (s', d', None)"
| crash: "manifestSorted d \<Longrightarrow> reopenFits cs opts d \<Longrightarrow> r2 \<noteq> NotSynced \<Longrightarrow> Open cs opts r1 r2 d = Some (ok, s', d') \<Longrightarrow>
    storeStep cs (s, d, p) Crashed (s', d', None)"
| restart: "st_spilling s = [] \<Longrightarrow> \<forall>t h. map_of (st_head s) t = Some h \<longrightarrow> spillFits cs (st_opts s) h t \<Longrightarrow>
    CloseAndWait_st cs [] (s, d) = Some (ok1, s1, d1) \<Longrightarrow> manifestSorted d1 \<Longrightarrow> reopenFits cs opts d1 \<Longrightarrow> r2 \<noteq> NotSynced \<Longrightarrow>
    Open cs opts r1 r2 d1 = Some (ok, s', d') \<Longrightarrow> storeStep cs (s, d, p) Restarted (s', d', None)"

subsection \<open>What a caller sees\<close>

record view =
  v_tables :: "int \<Rightarrow> bytes option"
  v_docs :: "int \<Rightarrow> docid \<Rightarrow> bytes set option"
  v_past :: "int \<Rightarrow> (docid \<Rightarrow> bytes set option) set"

inductive viewStep :: "view \<Rightarrow> event \<Rightarrow> view \<Rightarrow> bool" where
  "viewStep v Internal v"
| "viewStep v (Applied ops) (v\<lparr>v_docs := fold specOp ops (v_docs v),
     v_past := \<lambda>t. v_past v t \<union> (\<lambda>n. fold specOp (take n ops) (v_docs v) t) ` {..length ops}\<rparr>)"
| "v_tables v i = None \<Longrightarrow> viewStep v (Created i desc) (v\<lparr>v_tables := (v_tables v)(i \<mapsto> desc),
     v_docs := (v_docs v)(i := \<lambda>_. None), v_past := (v_past v)(i := {\<lambda>_. None})\<rparr>)"
| "viewStep v (Deleted i) (v\<lparr>v_tables := (v_tables v)(i := None)\<rparr>)"
| "\<forall>t. v_tables v t \<noteq> None \<longrightarrow> c t \<in> v_past v t \<Longrightarrow> viewStep v Crashed (v\<lparr>v_docs := c, v_past := \<lambda>t. {c t}\<rparr>)"
| "viewStep v Restarted (v\<lparr>v_past := \<lambda>t. {v_docs v t}\<rparr>)"

text \<open>The view of a state of the store.\<close>

definition seenAs :: "compressors \<Rightarrow> sys \<Rightarrow> view \<Rightarrow> bool" where
  "seenAs cs x v \<longleftrightarrow> (case x of (s, d, p) \<Rightarrow> v_tables v = tableInfo s \<and>
     (\<forall>t. inCatalog s t \<longrightarrow> v_docs v t = liveOf cs s t \<and> {liveOf cs s t, pendOf cs s t, durOf cs s t} \<subseteq> v_past v t))"

text \<open>The counter of live postings of every table, the empty ones included.\<close>

definition countOk :: "compressors \<Rightarrow> store \<Rightarrow> bool" where
  "countOk cs s \<longleftrightarrow> (\<forall>t. inCatalog s t \<or> mf_NextTableId (st_man s) \<le> t \<and> t < 2 ^ 32 \<longrightarrow>
     countFor (st_liveByTable s) t = countOf (liveOf cs s t))"

definition stepInv :: "compressors \<Rightarrow> sys \<Rightarrow> bool" where
  "stepInv cs x \<longleftrightarrow> (case x of (s, d, p) \<Rightarrow> sysOk cs s d \<and> mf_Tables (readManifest d) = mf_Tables (st_man s) \<and>
     countOk cs s \<and> (\<forall>q. p = Some q \<longrightarrow> planOk cs q s))"

subsection \<open>The steps one by one\<close>

lemma fold_specOp_at: "c t = c' t \<Longrightarrow> fold specOp ops c t = fold specOp ops c' t"
proof (induction ops arbitrary: c c')
  case (Cons op ops)
  have "specOp op c t = specOp op c' t" using Cons.prems by (cases "t = uo_tableId op") (simp_all add: specOp_def)
  then show ?case using Cons.IH [of "specOp op c" "specOp op c'"] by simp
qed simp

lemma inCatalog_tables: "mf_Tables (st_man s') = mf_Tables (st_man s) \<Longrightarrow> inCatalog s' = inCatalog s \<and> tableInfo s' = tableInfo s"
  by (simp add: fun_eq_iff inCatalog_def tableInfo_def)

lemma countOf_empty [simp]: "countOf (\<lambda>_. None) = 0"
  by (simp add: countOf_def wordsOf_def)

lemma fresh_live: "freshOk cs s \<Longrightarrow> mf_NextTableId (st_man s) \<le> t \<Longrightarrow> t < 2 ^ 32 \<Longrightarrow> liveOf cs s t = (\<lambda>_. None)"
  by (simp add: freshOk_def liveOf_def stack_empties)

lemma planOk_sameDisk: "st_segs s' = st_segs s \<Longrightarrow> st_man s' = st_man s \<Longrightarrow> planOk cs q s' = planOk cs q s"
  by (simp only: planOk_def)

lemma batch_simulates:
  assumes cs: "codec_ok cs" and i: "stepInv cs (s, d, p)" and v: "seenAs cs (s, d, p) v"
    and b: "\<forall>op\<in>set ops. opOk s op" "applyBatch cs ops s = Some (es, s')"
  shows "stepInv cs (s', d, p) \<and> (\<exists>v'. viewStep v (Applied ops) v' \<and> seenAs cs (s', d, p) v')"
proof -
  have k: "sysOk cs s d" "storeOk cs s" using i by (simp_all add: stepInv_def sysOk_def)
  from applyBatch_ok [OF cs k(2) b(1)] b(2) have
    a: "storeOk cs s'" "sameDisk s s'" "countDelta cs s s'" "liveOf cs s' = fold specOp ops (liveOf cs s)" "detachedBy cs ops es s s'" by auto
  have man: "st_man s' = st_man s" and segs: "st_segs s' = st_segs s" using a(2) by (simp_all add: sameDisk_def)
  have cat: "inCatalog s' = inCatalog s" "tableInfo s' = tableInfo s" using inCatalog_tables [of s' s] man by simp_all
  have "sysOk cs s' d" using sysOk_sameDisk [OF k(1) a(1,2)] .
  moreover have "countFor (st_liveByTable s') t = countOf (liveOf cs s' t) \<longleftrightarrow> countFor (st_liveByTable s) t = countOf (liveOf cs s t)" for t
    using spec [OF a(3) [unfolded countDelta_def], of t] by linarith
  then have "countOk cs s'" using i by (simp add: stepInv_def countOk_def man cat)
  moreover have "planOk cs q s'" if "p = Some q" for q
    using i that planOk_sameDisk [OF segs man] by (simp add: stepInv_def)
  ultimately have inv: "stepInv cs (s', d, p)" using i by (simp add: stepInv_def man)
  define v' where "v' = v\<lparr>v_docs := fold specOp ops (v_docs v),
     v_past := \<lambda>t. v_past v t \<union> (\<lambda>n. fold specOp (take n ops) (v_docs v) t) ` {..length ops}\<rparr>"
  have "v_docs v' t = liveOf cs s' t \<and> {liveOf cs s' t, pendOf cs s' t, durOf cs s' t} \<subseteq> v_past v' t" if t: "inCatalog s t" for t
  proof -
    have o: "v_docs v t = liveOf cs s t" "pendOf cs s t \<in> v_past v t" "durOf cs s t \<in> v_past v t" using v t by (simp_all add: seenAs_def)
    have f: "fold specOp (take n ops) (v_docs v) t = fold specOp (take n ops) (liveOf cs s) t" for n using fold_specOp_at [of "v_docs v" t "liveOf cs s"] o(1) by simp
    have l: "v_docs v' t = liveOf cs s' t" using f [of "length ops"] by (simp add: v'_def a(4))
    have "v_docs v' t \<in> v_past v' t" by (auto simp: v'_def intro: rev_image_eqI [of "length ops"])
    moreover have "durOf cs s' t \<in> v_past v' t" using o(3) by (simp add: v'_def durOf_def segs)
    moreover have "pendOf cs s' t \<in> v_past v' t"
      using a(5) o(2,3) f [symmetric] unfolding detachedBy_def by (auto simp: v'_def)
    ultimately show ?thesis using l by simp
  qed
  then have "seenAs cs (s', d, p) v'" using v cat by (simp add: seenAs_def v'_def)
  then show ?thesis using inv viewStep.intros(2) [of v ops] unfolding v'_def by blast
qed

lemma create_simulates:
  assumes i: "stepInv cs (s, d, p)" and v: "seenAs cs (s, d, p) v"
    and b: "mf_NextTableId (st_man s) < 2 ^ 32" "CreateTable_st Written desc (s, d) = (i, True, s', d')"
  shows "stepInv cs (s', d', p) \<and> (\<exists>v'. viewStep v (Created i desc) v' \<and> seenAs cs (s', d', p) v')"
proof -
  have k: "sysOk cs s d" "countOk cs s" "freshOk cs s" using i by (simp_all add: stepInv_def sysOk_def storeOk_def)
  have c: "sysOk cs s' d'" "liveOf cs s' = liveOf cs s" "pendOf cs s' = pendOf cs s" "durOf cs s' = durOf cs s" "tableRange i"
    "tableInfo s i = None" "tableInfo s' = (tableInfo s)(i \<mapsto> desc)" "liveOf cs s' i = (\<lambda>_. None)" "st_liveByTable s' = st_liveByTable s"
    using CreateTable_st_ok [OF k(1) b(1) _ b(2)] by auto
  have e: "i = mf_NextTableId (st_man s)" "mf_NextTableId (st_man s') = i + 1" "st_segs s' = st_segs s" "mf_NextSegId (st_man s') = mf_NextSegId (st_man s)"
    "mf_Tables (st_man s') = AList.update i desc (mf_Tables (st_man s))" "readManifest d' = st_man s'"
    "detachedLayers i s' = detachedLayers i s" using b(2) by (auto simp: CreateTable_st_def Let_def writeManifestBytes_def)
  have cat: "inCatalog s' t \<longleftrightarrow> t = i \<or> inCatalog s t" for t by (simp add: inCatalog_def c(7))
  have "countOk cs s'" using k(2) c(5) by (auto simp: countOk_def cat c(2,9) e(1,2))
  moreover have "planOk cs q s'" if "p = Some q" for q
  proof (rule planOk_mono [OF _ k(3), where new = "[]"])
    show "planOk cs q s" using i that by (simp add: stepInv_def)
    show "\<forall>t\<in>fst ` set (mf_Tables (st_man s')). t \<in> fst ` set (mf_Tables (st_man s)) \<or> mf_NextTableId (st_man s) \<le> t \<and> t < 2 ^ 32"
      using c(5) by (simp add: e(5) dom_update flip: e(1))
  qed (simp_all add: e)
  ultimately have inv: "stepInv cs (s', d', p)" using c(1) by (simp add: stepInv_def e(6))
  have "set (tableLayers cs i s) \<subseteq> {emptyLayer}" using k(3) c(5) by (simp add: freshOk_def e(1))
  then have "set (detachedLayers i s @ diskLayers cs i (st_segs s)) \<subseteq> {emptyLayer}" "set (diskLayers cs i (st_segs s)) \<subseteq> {emptyLayer}"
    by (simp_all add: tableLayers_def)
  then have pd: "pendOf cs s i = (\<lambda>_. None)" "durOf cs s i = (\<lambda>_. None)"
    unfolding pendOf_def durOf_def by (simp_all only: stack_empties content_empty)
  have l: "liveOf cs s i = (\<lambda>_. None)" using c(2,8) by simp
  have "seenAs cs (s', d', p) (v\<lparr>v_tables := (v_tables v)(i \<mapsto> desc), v_docs := (v_docs v)(i := \<lambda>_. None), v_past := (v_past v)(i := {\<lambda>_. None})\<rparr>)"
    using v by (simp add: seenAs_def c(2-4,7) cat pd l)
  moreover have "v_tables v i = None" using v c(6) by (simp add: seenAs_def)
  ultimately show ?thesis using inv viewStep.intros(3) [of v i desc] by blast
qed

lemma delete_simulates:
  assumes i: "stepInv cs (s, d, p)" and v: "seenAs cs (s, d, p) v" and b: "DeleteTable_st Written i (s, d) = (True, s', d')"
  shows "stepInv cs (s', d', p) \<and> (\<exists>v'. viewStep v (Deleted i) v' \<and> seenAs cs (s', d', p) v')"
proof -
  have k: "sysOk cs s d" "countOk cs s" "freshOk cs s" using i by (simp_all add: stepInv_def sysOk_def storeOk_def)
  have c: "sysOk cs s' d'" "sameOn (\<lambda>t. t \<noteq> i) (liveOf cs s') (liveOf cs s)" "pendOf cs s' = pendOf cs s" "durOf cs s' = durOf cs s"
    "tableInfo s' = (tableInfo s)(i := None)" "st_liveByTable s' = AList.delete i (st_liveByTable s)"
    using DeleteTable_st_ok [OF k(1) _ b] by simp_all
  have e: "mf_NextTableId (st_man s') = mf_NextTableId (st_man s)" "st_segs s' = st_segs s" "mf_NextSegId (st_man s') = mf_NextSegId (st_man s)"
    "mf_Tables (st_man s') = AList.delete i (mf_Tables (st_man s))" "readManifest d' = st_man s'"
    using b by (auto simp: DeleteTable_st_def Let_def writeManifestBytes_def)
  have cat: "inCatalog s' t \<longleftrightarrow> t \<noteq> i \<and> inCatalog s t" for t by (simp add: inCatalog_def c(5))
  have "countFor (st_liveByTable s') t = countOf (liveOf cs s' t)" if t: "inCatalog s' t \<or> mf_NextTableId (st_man s') \<le> t \<and> t < 2 ^ 32" for t
  proof (cases "t = i")
    case True
    then have r: "mf_NextTableId (st_man s') \<le> i" "i < 2 ^ 32" using t by (simp_all add: cat)
    have "freshOk cs s'" using c(1) by (simp add: sysOk_def storeOk_def)
    then show ?thesis using fresh_live r by (simp add: True c(6) countFor_def delete_conv')
  next
    case False
    then have "countFor (st_liveByTable s) t = countOf (liveOf cs s t)" using t k(2) by (auto simp: countOk_def cat e(1))
    then show ?thesis using False c(2) by (simp add: sameOn_def c(6) countFor_def delete_conv')
  qed
  then have "countOk cs s'" by (simp add: countOk_def)
  moreover have "planOk cs q s'" if "p = Some q" for q
  proof (rule planOk_mono [OF _ k(3), where new = "[]"])
    show "planOk cs q s" using i that by (simp add: stepInv_def)
    show "\<forall>t\<in>fst ` set (mf_Tables (st_man s')). t \<in> fst ` set (mf_Tables (st_man s)) \<or> mf_NextTableId (st_man s) \<le> t \<and> t < 2 ^ 32"
      using dom_delete_subset [of i "mf_Tables (st_man s)"] unfolding e(4) by blast
  qed (simp_all add: e)
  ultimately have inv: "stepInv cs (s', d', p)" using c(1) by (simp add: stepInv_def e(5))
  have "seenAs cs (s', d', p) (v\<lparr>v_tables := (v_tables v)(i := None)\<rparr>)"
    using v c(2) by (simp add: seenAs_def c(3-5) cat sameOn_def)
  then show ?thesis using inv viewStep.intros(4) [of v i] by blast
qed

text \<open>The steps a caller does not notice.\<close>

lemma internal_simulates:
  assumes i: "stepInv cs (s, d, p)" and v: "seenAs cs (s, d, p) v" and ok: "sysOk cs s' d'" "\<forall>q. p' = Some q \<longrightarrow> planOk cs q s'"
    and t: "mf_Tables (readManifest d') = mf_Tables (st_man s)" "mf_Tables (st_man s') = mf_Tables (st_man s)"
      "mf_NextTableId (st_man s') = mf_NextTableId (st_man s)" "st_liveByTable s' = st_liveByTable s"
    and c: "sameOn (inCatalog s) (liveOf cs s') (liveOf cs s)"
      "\<forall>t. inCatalog s t \<longrightarrow> {pendOf cs s' t, durOf cs s' t} \<subseteq> {liveOf cs s t, pendOf cs s t, durOf cs s t}"
  shows "stepInv cs (s', d', p') \<and> (\<exists>v'. viewStep v Internal v' \<and> seenAs cs (s', d', p') v')"
proof -
  have cat: "inCatalog s' = inCatalog s" "tableInfo s' = tableInfo s" using inCatalog_tables [OF t(2)] by simp_all
  have k: "freshOk cs s" "freshOk cs s'" "countOk cs s" using i ok(1) by (simp_all add: stepInv_def sysOk_def storeOk_def)
  have "liveOf cs s' u = liveOf cs s u" if "inCatalog s u \<or> mf_NextTableId (st_man s) \<le> u \<and> u < 2 ^ 32" for u
    using that c(1) fresh_live [OF k(1), of u] fresh_live [OF k(2), of u] by (auto simp: sameOn_def t(3))
  then have "countOk cs s'" using k(3) by (simp add: countOk_def cat t(3,4))
  then have "stepInv cs (s', d', p')" using ok by (simp add: stepInv_def t)
  moreover have "{pendOf cs s' u, durOf cs s' u} \<subseteq> v_past v u" if "inCatalog s u" for u
    by (rule subset_trans [of _ "{liveOf cs s u, pendOf cs s u, durOf cs s u}"]) (use c(2) v that in \<open>simp_all add: seenAs_def\<close>)
  then have "seenAs cs (s', d', p') v" using v c(1) by (simp add: seenAs_def cat sameOn_def)
  ultimately show ?thesis using viewStep.intros(1) by blast
qed

lemma inCatalog_tableRange: "sysOk cs s d \<Longrightarrow> inCatalog s t \<Longrightarrow> tableRange t"
  using inCatalog_range by (auto simp: sysOk_def storeOk_def)

lemma sameOn_inCatalog: "sysOk cs s d \<Longrightarrow> sameOn tableRange f g \<Longrightarrow> sameOn (inCatalog s) f g"
  using inCatalog_tableRange by (simp add: sameOn_def)

lemma install_simulates:
  assumes cs: "codec_ok cs" and i: "stepInv cs (s, d, p)" and v: "seenAs cs (s, d, p) v"
    and b: "st_spilling s = [e]" "spillFits cs (st_opts s) (se_head e) (se_tableId e)"
      "encodeHeadToFile cs (st_opts s) (se_head e) (se_tableId e) = Some res" "\<forall>hs. set (iter hs) = set hs" "r \<noteq> NotSynced"
      "installSpill iter rn r e res (s, d) = (ok, nxt, s', d')"
  shows "stepInv cs (s', d', p) \<and> (\<exists>v'. viewStep v Internal v' \<and> seenAs cs (s', d', p) v')"
proof -
  have k: "sysOk cs s d" "freshOk cs s" using i by (simp_all add: stepInv_def sysOk_def storeOk_def)
  note o = installSpill_ok [OF cs k(1) b]
  have g: "grown (s, d) (s', d')" and ok: "sysOk cs s' d'" and l: "sameOn tableRange (liveOf cs s') (liveOf cs s)" using o by simp_all
  obtain new where n: "st_segs s' = st_segs s @ new" "\<forall>x\<in>set new. mf_NextSegId (st_man s) \<le> sg_id x"
    "mf_NextSegId (st_man s) \<le> mf_NextSegId (st_man s')" "mf_Tables (st_man s') = mf_Tables (st_man s)"
    "mf_NextTableId (st_man s') = mf_NextTableId (st_man s)" using g by (auto simp: grown_def)
  show ?thesis
  proof (rule internal_simulates [OF i v ok])
    show "\<forall>q. p = Some q \<longrightarrow> planOk cs q s'" using i planOk_mono [OF _ k(2) n(1-3)] by (simp add: stepInv_def n(4))
    show "mf_Tables (readManifest d') = mf_Tables (st_man s)" using g i by (auto simp: grown_def stepInv_def)
    show "sameOn (inCatalog s) (liveOf cs s') (liveOf cs s)" using sameOn_inCatalog [OF k(1) l] .
    have "{pendOf cs s' t, durOf cs s' t} \<subseteq> {liveOf cs s t, pendOf cs s t, durOf cs s t}" if t: "tableRange t" for t
    proof (cases "rn \<and> r = Written")
      case True
      then have x: "durOf cs s' t = pendOf cs s t" "nextDetached cs nxt s'" using o t by (simp_all add: sameOn_def)
      have "liveOf cs s' t = liveOf cs s t" using l t by (simp add: sameOn_def)
      moreover have "pendOf cs s' t \<in> {durOf cs s' t, liveOf cs s' t}"
        using x(2) by (cases nxt) (auto simp: nextDetached_def pendOf_def durOf_def detachedLayers_def)
      ultimately show ?thesis using x(1) by auto
    next
      case False
      then show ?thesis using o by auto
    qed
    then show "\<forall>t. inCatalog s t \<longrightarrow> {pendOf cs s' t, durOf cs s' t} \<subseteq> {liveOf cs s t, pendOf cs s t, durOf cs s t}"
      using inCatalog_tableRange [OF k(1)] by blast
  qed (use n o in simp_all)
qed

lemma merge_simulates:
  assumes cs: "codec_ok cs" and i: "stepInv cs (s, d, Some q)" and v: "seenAs cs (s, d, Some q) v"
    and b: "planFits cs (st_opts s) q" "r \<noteq> NotSynced" "runMergePlan cs r held q (s, d) = Some (ok, s', d')"
  shows "stepInv cs (s', d', None) \<and> (\<exists>v'. viewStep v Internal v' \<and> seenAs cs (s', d', None) v')"
proof -
  have k: "sysOk cs s d" "planOk cs q s" using i by (simp_all add: stepInv_def)
  from runMergePlan_ok [OF cs k b(1,2), of held] b(3) have
    o: "sysOk cs s' d'" "sameHeads s s'" "sameContents cs s s'"
      "if ok then mf_Tables (readManifest d') = mf_Tables (st_man s') else s' = s \<and> readManifest d' = readManifest d" by auto
  show ?thesis
    by (rule internal_simulates [OF i v o(1)])
      (use o(2-4) i in \<open>auto simp: sameHeads_def sameContents_def sameOn_def stepInv_def split: if_splits\<close>)
qed

lemma select_simulates:
  assumes i: "stepInv cs (s, d, None)" and v: "seenAs cs (s, d, None) v"
    and b: "sysOk cs s' d" "planOk cs q s'" "sameHeads s s'" "st_segs s' = st_segs s"
  shows "stepInv cs (s', d, Some q) \<and> (\<exists>v'. viewStep v Internal v' \<and> seenAs cs (s', d, Some q) v')"
proof (rule internal_simulates [OF i v b(1)])
  have "tableLayers cs t s' = tableLayers cs t s" "detachedLayers t s' = detachedLayers t s" for t
    using b(3,4) by (simp_all add: tableLayers_def frontHead_def detachedLayers_def sameHeads_def)
  then show "sameOn (inCatalog s) (liveOf cs s') (liveOf cs s)"
    "\<forall>t. inCatalog s t \<longrightarrow> {pendOf cs s' t, durOf cs s' t} \<subseteq> {liveOf cs s t, pendOf cs s t, durOf cs s t}"
    by (simp_all add: sameOn_def liveOf_def pendOf_def durOf_def b(4))
qed (use b(2,3) i in \<open>simp_all add: sameHeads_def stepInv_def\<close>)

subsection \<open>Restarts\<close>

lemma opened_simulates:
  assumes cs: "codec_ok cs" and s: "sysOk cs s d" and t: "mf_Tables (readManifest d) = mf_Tables (st_man s)"
    and b: "manifestSorted d" "reopenFits cs opts d" "r2 \<noteq> NotSynced" "Open cs opts r1 r2 d = Some (ok, s', d')"
  shows "ok" "stepInv cs (s', d', None)" "tableInfo s' = tableInfo s"
    "\<forall>t. inCatalog s t \<longrightarrow> liveOf cs s' t = durOf cs s t \<and> pendOf cs s' t = durOf cs s t \<and> durOf cs s' t = durOf cs s t"
proof -
  from Open_ok [OF cs s b(1,3,2), of r1] b(4) have
    o: "ok" "sysOk cs s' d'" "st_spilling s' = []" "mf_Tables (st_man s') = mf_Tables (readManifest d)"
      "mf_Tables (readManifest d') = mf_Tables (readManifest d)" "sameOn (inCatalog s') (liveOf cs s') (durOf cs s)"
      "sameOn (inCatalog s') (durOf cs s') (durOf cs s)"
      "\<forall>t. countFor (st_liveByTable s') t = (if inCatalog s' t then countOf (durOf cs s t) else 0)" by auto
  show "ok" by (rule o(1))
  have cat: "inCatalog s' = inCatalog s" "tableInfo s' = tableInfo s" using inCatalog_tables [of s' s] o(4) t by simp_all
  show "tableInfo s' = tableInfo s" by (rule cat(2))
  have "pendOf cs s' = durOf cs s'" by (simp add: fun_eq_iff pendOf_def durOf_def detachedLayers_def o(3))
  then show c: "\<forall>t. inCatalog s t \<longrightarrow> liveOf cs s' t = durOf cs s t \<and> pendOf cs s' t = durOf cs s t \<and> durOf cs s' t = durOf cs s t"
    using o(6,7) by (simp add: sameOn_def cat)
  have k: "freshOk cs s'" using o(2) by (simp add: sysOk_def storeOk_def)
  have "countFor (st_liveByTable s') u = countOf (liveOf cs s' u)" if "inCatalog s' u \<or> mf_NextTableId (st_man s') \<le> u \<and> u < 2 ^ 32" for u
  proof (cases "inCatalog s' u")
    case True
    then show ?thesis using o(8) c by (simp add: cat(1))
  next
    case False
    then show ?thesis using that o(8) fresh_live [OF k, of u] by simp
  qed
  then have "countOk cs s'" by (simp add: countOk_def)
  then show "stepInv cs (s', d', None)" using o(2,4,5) by (simp add: stepInv_def)
qed

lemma crash_simulates:
  assumes cs: "codec_ok cs" and i: "stepInv cs (s, d, p)" and v: "seenAs cs (s, d, p) v"
    and b: "manifestSorted d" "reopenFits cs opts d" "r2 \<noteq> NotSynced" "Open cs opts r1 r2 d = Some (ok, s', d')"
  shows "stepInv cs (s', d', None) \<and> (\<exists>v'. viewStep v Crashed v' \<and> seenAs cs (s', d', None) v')"
proof -
  have k: "sysOk cs s d" "mf_Tables (readManifest d) = mf_Tables (st_man s)" using i by (simp_all add: stepInv_def)
  note o = opened_simulates [OF cs k b]
  have ti: "v_tables v = tableInfo s" using v by (simp add: seenAs_def)
  have "\<forall>t. v_tables v t \<noteq> None \<longrightarrow> durOf cs s t \<in> v_past v t" using v by (simp add: seenAs_def inCatalog_def)
  then have "viewStep v Crashed (v\<lparr>v_docs := durOf cs s, v_past := \<lambda>t. {durOf cs s t}\<rparr>)" by (rule viewStep.intros(5))
  moreover have "seenAs cs (s', d', None) (v\<lparr>v_docs := durOf cs s, v_past := \<lambda>t. {durOf cs s t}\<rparr>)"
    using o(4) by (simp add: seenAs_def o(3) ti inCatalog_def)
  ultimately show ?thesis using o(2) by blast
qed

lemma spillAll_ok:
  assumes cs: "codec_ok cs" and "sysOk cs s d" "st_spilling s = []" "distinct ts"
    and "\<forall>t h. t \<in> set ts \<longrightarrow> map_of (st_head s) t = Some h \<longrightarrow> spillFits cs (st_opts s) h t"
  shows "\<exists>s' d'. spillAll cs [] ts (s, d) = Some (True, s', d') \<and> sysOk cs s' d' \<and> grown (s, d) (s', d') \<and>
    sameOn tableRange (durOf cs s') (\<lambda>t. if t \<in> set ts then liveOf cs s t else durOf cs s t)"
  using assms(2-)
proof (induction ts arbitrary: s d)
  case Nil
  then show ?case by (simp add: grown_refl sameOn_def)
next
  case (Cons t ts)
  from spill_ok [OF cs Cons.prems(1,2), of t Written] Cons.prems(4) obtain s1 d1 where
    s1: "spill cs Written t (s, d) = Some (True, s1, d1)" "sysOk cs s1 d1" "st_spilling s1 = []" "st_opts s1 = st_opts s"
      "sameOn tableRange (liveOf cs s1) (liveOf cs s)" "\<forall>t'. t' \<noteq> t \<longrightarrow> map_of (st_head s1) t' = map_of (st_head s) t'"
      "sameOn tableRange (durOf cs s1) ((durOf cs s)(t := liveOf cs s t))" "grown (s, d) (s1, d1)" by auto
  have "\<forall>t' h. t' \<in> set ts \<longrightarrow> map_of (st_head s1) t' = Some h \<longrightarrow> spillFits cs (st_opts s1) h t'"
    using Cons.prems(3,4) s1(4,6) by auto
  from Cons.IH [OF s1(2,3) _ this] Cons.prems(3) obtain s' d' where
    s': "spillAll cs [] ts (s1, d1) = Some (True, s', d')" "sysOk cs s' d'" "grown (s1, d1) (s', d')"
      "sameOn tableRange (durOf cs s') (\<lambda>t. if t \<in> set ts then liveOf cs s1 t else durOf cs s1 t)" by auto
  have "sameOn tableRange (durOf cs s') (\<lambda>u. if u \<in> set (t # ts) then liveOf cs s u else durOf cs s u)"
    using s'(4) s1(5,7) by (auto simp: sameOn_def)
  then show ?case using s1(1) s'(1,2) grown_trans [OF s1(8) s'(3)] by simp
qed

lemma close_ok:
  assumes cs: "codec_ok cs" and k: "sysOk cs s d"
    and c: "st_spilling s = []" "\<forall>t h. map_of (st_head s) t = Some h \<longrightarrow> spillFits cs (st_opts s) h t"
      "CloseAndWait_st cs [] (s, d) = Some (ok, s1, d1)"
  shows "ok \<and> (\<exists>s2. sysOk cs s2 d1 \<and> grown (s, d) (s2, d1) \<and> sameOn tableRange (durOf cs s2) (liveOf cs s))"
proof -
  define ts where "ts = map fst (filter (\<lambda>(t, h). \<not> headEmpty h) (st_head s))"
  have "distinct (map fst (st_head s))" using k by (simp add: sysOk_def storeOk_def headsOk_def)
  then have "distinct ts" unfolding ts_def by (rule distinct_map_filter)
  from spillAll_ok [OF cs k c(1) this] c(2) obtain s2 d2 where
    s2: "spillAll cs [] ts (s, d) = Some (True, s2, d2)" "sysOk cs s2 d2" "grown (s, d) (s2, d2)"
      "sameOn tableRange (durOf cs s2) (\<lambda>t. if t \<in> set ts then liveOf cs s t else durOf cs s t)" by auto
  have "d1 = d2" "ok" using c(3) s2(1) by (simp_all add: CloseAndWait_st_def ts_def)
  moreover have "durOf cs s t = liveOf cs s t" if "t \<notin> set ts" for t
  proof -
    have "headEmpty h" if "map_of (st_head s) t = Some h" for h
      using \<open>t \<notin> set ts\<close> map_of_SomeD [OF that] by (force simp: ts_def)
    then have "headLayer (frontHead t s) = emptyLayer" by (simp add: frontHead_def headEmpty_layer split: option.split)
    then show ?thesis by (simp add: durOf_def liveOf_def tableLayers_def detachedLayers_def c(1))
  qed
  then have "sameOn tableRange (durOf cs s2) (liveOf cs s)" using s2(4) by (simp add: sameOn_def)
  ultimately show ?thesis using s2(2,3) by blast
qed

lemma close_returns:
  assumes cs: "codec_ok cs" and k: "sysOk cs s d"
    and c: "st_spilling s = []" "\<forall>t h. map_of (st_head s) t = Some h \<longrightarrow> spillFits cs (st_opts s) h t"
  shows "\<exists>s' d'. CloseAndWait_st cs [] (s, d) = Some (True, s', d')"
proof -
  have "distinct (map fst (st_head s))" using k by (simp add: sysOk_def storeOk_def headsOk_def)
  then have "distinct (map fst (filter (\<lambda>(t, h). \<not> headEmpty h) (st_head s)))" by (rule distinct_map_filter)
  from spillAll_ok [OF cs k c(1) this] c(2) show ?thesis by (auto simp: CloseAndWait_st_def)
qed

lemma restart_simulates:
  assumes cs: "codec_ok cs" and i: "stepInv cs (s, d, p)" and v: "seenAs cs (s, d, p) v"
    and c: "st_spilling s = []" "\<forall>t h. map_of (st_head s) t = Some h \<longrightarrow> spillFits cs (st_opts s) h t"
      "CloseAndWait_st cs [] (s, d) = Some (ok1, s1, d1)"
    and b: "manifestSorted d1" "reopenFits cs opts d1" "r2 \<noteq> NotSynced" "Open cs opts r1 r2 d1 = Some (ok, s', d')"
  shows "stepInv cs (s', d', None) \<and> (\<exists>v'. viewStep v Restarted v' \<and> seenAs cs (s', d', None) v')"
proof -
  have k: "sysOk cs s d" "mf_Tables (readManifest d) = mf_Tables (st_man s)" using i by (simp_all add: stepInv_def)
  from close_ok [OF cs k(1) c] obtain s2 where
    s2: "sysOk cs s2 d1" "grown (s, d) (s2, d1)" "sameOn tableRange (durOf cs s2) (liveOf cs s)" by blast
  have g: "mf_Tables (st_man s2) = mf_Tables (st_man s)" "mf_Tables (readManifest d1) = mf_Tables (st_man s2)"
    using s2(2) k(2) by (auto simp: grown_def)
  note o = opened_simulates [OF cs s2(1) g(2) b]
  have cat: "inCatalog s2 = inCatalog s" "tableInfo s2 = tableInfo s" using inCatalog_tables [OF g(1)] by simp_all
  have ic: "inCatalog s' = inCatalog s" using o(3) cat by (simp add: fun_eq_iff inCatalog_def)
  have "seenAs cs (s', d', None) (v\<lparr>v_past := \<lambda>t. {v_docs v t}\<rparr>)"
    using v o(3,4) sameOn_inCatalog [OF k(1) s2(3)] by (simp add: seenAs_def ic cat sameOn_def)
  then show ?thesis using o(2) viewStep.intros(6) [of v] by blast
qed

theorem storeStep_simulates:
  assumes cs: "codec_ok cs" and "storeStep cs x e x'" "stepInv cs x" "seenAs cs x v"
  shows "stepInv cs x' \<and> (\<exists>v'. viewStep v e v' \<and> seenAs cs x' v')"
  using assms(2-)
proof cases
  case (batch ops s es s' d p)
  then show ?thesis using batch_simulates [OF cs] assms(3,4) by simp
next
  case (create s desc d i s' d' p)
  then show ?thesis using create_simulates assms(3,4) by simp
next
  case (delete i s d s' d' p)
  then show ?thesis using delete_simulates assms(3,4) by simp
next
  case (install s e res iter r rn d ok nxt s' d' p)
  then show ?thesis using install_simulates [OF cs] assms(3,4) by simp
next
  case (tiered s q s' d)
  have "sysOk cs s d" using assms(3) tiered by (simp add: stepInv_def)
  from selectTiered_ok [OF this tiered(4,5)] show ?thesis using select_simulates assms(3,4) tiered by simp
next
  case (covering force s q s' d)
  have "sysOk cs s d" using assms(3) covering by (simp add: stepInv_def)
  from selectCovering_ok [OF this covering(4)] show ?thesis using select_simulates assms(3,4) covering by simp
next
  case (merge s q r held d ok s' d')
  then show ?thesis using merge_simulates [OF cs] assms(3,4) by simp
next
  case (crash d opts r2 r1 ok s' d' s p)
  then show ?thesis using crash_simulates [OF cs] assms(3,4) by simp
next
  case (restart s d ok1 s1 d1 opts r2 r1 ok s' d' p)
  then show ?thesis using restart_simulates [OF cs] assms(3,4) by simp
qed

end
