(* ===== verification/StSystem.thy ===== *)
theory StSystem
  imports StSteps
begin

text \<open>
  Runs of the store from an empty directory. Every read of a reachable state returns what the view of
  the caller says, the counters of live postings are exact, and no task of a reachable state fails on
  data it cannot read.
\<close>

subsection \<open>Runs\<close>

inductive storeRuns :: "compressors \<Rightarrow> sys \<Rightarrow> event list \<Rightarrow> sys \<Rightarrow> bool" for cs where
  start: "storeRuns cs x [] x"
| step: "storeRuns cs x es x' \<Longrightarrow> storeStep cs x' e x'' \<Longrightarrow> storeRuns cs x (es @ [e]) x''"

inductive viewRuns :: "view \<Rightarrow> event list \<Rightarrow> view \<Rightarrow> bool" where
  start: "viewRuns v [] v"
| step: "viewRuns v es v' \<Longrightarrow> viewStep v' e v'' \<Longrightarrow> viewRuns v (es @ [e]) v''"

definition emptyDir :: disk where
  "emptyDir = \<lparr>dk_MANIFEST = None, dk_segs = [], dk_temps = []\<rparr>"

definition emptyView :: view where
  "emptyView = \<lparr>v_tables = (\<lambda>_. None), v_docs = (\<lambda>_ _. None), v_past = (\<lambda>_. {})\<rparr>"

definition blankStore :: "storeOptions \<Rightarrow> store" where
  "blankStore opts = \<lparr>st_opts = withDefaults opts, st_man = newManifest, st_head = [], st_segs = [], st_spilling = [],
     st_spillInFlight = False, st_blockProducer = False, st_spillTempCtr = 0, st_liveByTable = [],
     st_dictCache = newChunkLRU (o_ChunkCacheBytes (withDefaults opts))\<rparr>"

lemma Open_emptyDir: "Open cs opts r1 r2 emptyDir = Some (True, blankStore opts, emptyDir)"
  by (simp add: Open_def emptyDir_def readManifest_def newManifest_def sweepOrphanSegments_def recomputeLive_def
      reclaimOrphanTables_def orphanTables_def blankStore_def Let_def)

lemma blankStore_ok: "sysOk cs (blankStore opts) emptyDir"
proof -
  let ?s = "blankStore opts"
  have lay: "tableLayers cs t ?s = [emptyLayer]" for t
    by (simp add: tableLayers_def frontHead_def detachedLayers_def diskLayers_def segLayers_def blankStore_def)
  have "cacheOk cs [] (newChunkLRU b)" for b
    using newChunkLRU_ok by (simp add: cacheOk_def coherent_def newChunkLRU_def)
  then have "segsOk cs ?s" by (simp add: segsOk_def blankStore_def)
  moreover have "headsOk ?s" by (simp add: headsOk_def blankStore_def)
  moreover have "layersOk cs ?s" using good_emptyI [of "[]" "[]"] by (simp add: layersOk_def lay)
  moreover have "freshOk cs ?s" by (simp add: freshOk_def lay) (simp add: blankStore_def newManifest_def)
  moreover have "0 < o_Chunk (st_opts ?s)" by (simp add: blankStore_def withDefaults_def Let_def)
  ultimately have ok: "storeOk cs ?s" by (simp add: storeOk_def)
  have mo: "manOk ?s" by (simp add: manOk_def metasOk_def blankStore_def newManifest_def)
  have "diskOk cs ?s emptyDir"
    by (intro diskOk_written [OF ok mo]) (simp_all add: blankStore_def emptyDir_def readManifest_def)
  then show ?thesis using ok mo by (simp add: sysOk_def)
qed

lemma blankStore_simps [simp]:
  "tableInfo (blankStore opts) = (\<lambda>_. None)" "mf_Tables (st_man (blankStore opts)) = []" "st_liveByTable (blankStore opts) = []"
  "mf_Tables (readManifest emptyDir) = []"
  by (simp_all add: fun_eq_iff tableInfo_def blankStore_def newManifest_def emptyDir_def readManifest_def)

lemma blank_starts: "stepInv cs (blankStore opts, emptyDir, None) \<and> seenAs cs (blankStore opts, emptyDir, None) emptyView"
proof -
  have "freshOk cs (blankStore opts)" using blankStore_ok [of cs opts] by (simp add: sysOk_def storeOk_def)
  from fresh_live [OF this] have "countOk cs (blankStore opts)" by (simp add: countOk_def inCatalog_def countFor_def)
  then show ?thesis using blankStore_ok [of cs opts] by (simp add: stepInv_def seenAs_def inCatalog_def emptyView_def)
qed

lemma storeRuns_simulates:
  assumes "codec_ok cs" "storeRuns cs x es x'" "stepInv cs x" "seenAs cs x v"
  shows "stepInv cs x' \<and> (\<exists>v'. viewRuns v es v' \<and> seenAs cs x' v')"
  using assms(2-)
proof induction
  case (start x)
  then show ?case using viewRuns.start by blast
next
  case (step x es x' e x'')
  then obtain v' where "stepInv cs x'" "viewRuns v es v'" "seenAs cs x' v'" by blast
  then show ?case using storeStep_simulates [OF assms(1) step.hyps(2)] viewRuns.step by blast
qed

lemma reachable_ok:
  assumes "codec_ok cs" "Open cs opts r1 r2 emptyDir = Some (ok, s0, d0)" "storeRuns cs (s0, d0, None) es x"
  shows "stepInv cs x \<and> (\<exists>v. viewRuns emptyView es v \<and> seenAs cs x v)"
proof -
  have "s0 = blankStore opts" "d0 = emptyDir" using assms(2) by (simp_all add: Open_emptyDir)
  then show ?thesis using storeRuns_simulates [OF assms(1,3)] blank_starts [of cs opts] by blast
qed

subsection \<open>The reads of a reachable state\<close>

definition docsWith :: "view \<Rightarrow> int \<Rightarrow> bytes \<Rightarrow> docid set" where
  "docsWith v t kw = (if v_tables v t = None then {} else {d. \<exists>W. v_docs v t d = Some W \<and> kw \<in> W})"

lemma seen_postings:
  assumes "sysOk cs s d" "seenAs cs (s, d, p) v" "tableInfo s t \<noteq> None"
  shows "postings (tableStack t s (map (recsOf cs) (st_segs s))) kw = docsWith v t kw"
proof -
  have c: "inCatalog s t" using assms(3) by (simp add: inCatalog_def)
  have "storeOk cs s" using assms(1) by (simp add: sysOk_def)
  from postings_live [OF this inCatalog_tableRange [OF assms(1) c], of kw]
  have "postings (tableStack t s (map (recsOf cs) (st_segs s))) kw = {d. \<exists>W. liveOf cs s t d = Some W \<and> kw \<in> W}"
    by (simp add: tableLayers_stack)
  then show ?thesis using assms(2,3) c by (auto simp: docsWith_def seenAs_def)
qed

lemma GetDocs_seen:
  assumes "codec_ok cs" "sysOk cs s d" "seenAs cs (s, d, p) v"
  shows "\<exists>ds. GetDocs_st cs s t kw = Some ds \<and> distinct ds \<and> set ds = docsWith v t kw"
proof -
  have "segsOk cs s" using assms(2) by (simp add: sysOk_def storeOk_def)
  from GetDocs_stack [OF assms(1) segsOk_all2 [OF this], of t kw] show ?thesis
    using seen_postings [OF assms(2,3), of t kw] assms(3)
    by (cases "tableInfo s t") (simp_all add: docsWith_def [of v t kw] seenAs_def)
qed

lemma Search_seen:
  assumes "codec_ok cs" "sysOk cs s d" "seenAs cs (s, d, p) v" "iterOk iter"
  shows "\<exists>ds. Search_st uc iter cs s t query limit f = Some ds \<and>
    (let all = (\<Union>kw\<in>{kw. wanted f (ToLower uc query) kw}. docsWith v t kw)
     in set ds \<subseteq> all \<and> (if limit \<le> 0 then set ds = all else int (length ds) = min limit (int (card all)) \<and> distinct ds))"
proof -
  have k: "segsOk cs s" "headsOk s" using assms(2) by (simp_all add: sysOk_def storeOk_def)
  have "\<forall>h\<in>set (headsOf t s). headOk h"
    using k(2) map_of_SomeD [of "st_head s" t] by (force simp: headsOf_def headsOk_def split: option.splits)
  note r = Search_stack [OF assms(1) segsOk_all2 [OF k(1)] this assms(4), of uc query limit f]
  show ?thesis
  proof (cases "tableInfo s t")
    case None
    then have "docsWith v t kw = {}" for kw using assms(3) by (simp add: docsWith_def seenAs_def)
    then show ?thesis using r None by simp
  next
    case (Some i)
    then show ?thesis using r seen_postings [OF assms(2,3), of t] by simp
  qed
qed

lemma ForwardDocids_seen:
  assumes "codec_ok cs" "sysOk cs s d" "seenAs cs (s, d, p) v"
  shows "\<exists>ds. ForwardDocids cs s t collectDoc [] = Some ds \<and> distinct ds \<and>
    set ds = (if v_tables v t = None then {} else {d. v_docs v t d \<noteq> None})"
proof -
  have "segsOk cs s" using assms(2) by (simp add: sysOk_def storeOk_def)
  from ForwardDocids_stack [OF assms(1) segsOk_all2 [OF this], of t] show ?thesis
    using assms(3) by (cases "tableInfo s t") (simp_all add: seenAs_def inCatalog_def liveOf_def tableLayers_stack)
qed

subsection \<open>An example run\<close>

inductive_simps viewRuns_nil [simp]: "viewRuns v [] v'"
inductive_simps viewStep_simps [simp]: "viewStep v (Applied ops) v'" "viewStep v (Created i desc) v'" "viewStep v Restarted v'"
inductive_cases viewRuns_snoc: "viewRuns v (es @ [e]) v'"

definition exampleOptions :: storeOptions where
  "exampleOptions = \<lparr>o_CapBytes = 0, o_Fanout = 0, o_DataCodecL0 = codecSnappy, o_DataCodecMerged = codecZstd, o_DictCodec = codecZstd,
     o_DictChunkBytes = 0, o_ChunkCacheBytes = 0, o_InlineThreshold = 0, o_MaxInflightPostings = 0, o_MaxInstallRetries = 0,
     o_AutoMerge = False, o_BlockTarget = 0, o_Chunk = 0\<rparr>"

definition exampleOps :: "updateOp list" where
  "exampleOps = [\<lparr>uo_tableId = 1, uo_docid = 5, uo_keywords = [''ab'', ''c'']\<rparr>,
     \<lparr>uo_tableId = 1, uo_docid = 5, uo_keywords = [''c'']\<rparr>]"

definition exampleEvents :: "event list" where
  "exampleEvents = [Created 1 ''t'', Applied exampleOps, Restarted]"

definition exampleApplied :: "(store \<times> disk) option" where
  "exampleApplied = (case CreateTable_st Written ''t'' (blankStore exampleOptions, emptyDir) of (i, ok, s, d) \<Rightarrow>
     map_option (\<lambda>x. (snd x, d)) (applyBatch plainCodecs exampleOps s))"

definition smallSpill :: "storeOptions \<Rightarrow> headTable \<Rightarrow> int \<Rightarrow> bool" where
  "smallSpill o' h t \<longleftrightarrow> recsSize (headEntries h (word_of_int t)) < 1000 \<and> length (h_inv h) < 10 \<and>
     length (invKws (headEntries h (word_of_int t))) < 10 \<and>
     (case addEntries plainCodecs (headEntries h (word_of_int t)) (segWriterFor o' (o_DataCodecL0 o')) of
        None \<Rightarrow> False | Some w \<Rightarrow> length (sealFile plainCodecs w) < 1000)"

lemma smallSpill_fits: "smallSpill o' h t \<Longrightarrow> spillFits plainCodecs o' h t"
  by (auto simp: smallSpill_def spillFits_def headFits_def segFits_def split: option.splits)

lemma example_applied:
  "\<exists>s d. exampleApplied = Some (s, d) \<and> st_spilling s = [] \<and> list_all (\<lambda>(t, h). smallSpill (st_opts s) h t) (st_head s)"
proof -
  have "case exampleApplied of None \<Rightarrow> False
      | Some (s, d) \<Rightarrow> st_spilling s = [] \<and> list_all (\<lambda>(t, h). smallSpill (st_opts s) h t) (st_head s)" by code_simp
  then show ?thesis by (auto split: option.splits)
qed

lemma example_closed:
  "\<exists>ok s d. Option.bind exampleApplied (CloseAndWait_st plainCodecs []) = Some (ok, s, d) \<and> manifestSorted d \<and> reopenFits plainCodecs exampleOptions d"
proof -
  have "case Option.bind exampleApplied (CloseAndWait_st plainCodecs []) of None \<Rightarrow> False
      | Some (ok, s, d) \<Rightarrow> map sm_Id (mf_Segments (readManifest d)) = [1] \<and> \<not> orphanTables (readManifest d)" by code_simp
  then obtain ok s d where "Option.bind exampleApplied (CloseAndWait_st plainCodecs []) = Some (ok, s, d)"
    "map sm_Id (mf_Segments (readManifest d)) = [1]" "\<not> orphanTables (readManifest d)" by (auto split: option.splits)
  then show ?thesis
    by (intro exI [of _ ok] exI [of _ s] exI [of _ d]) (simp add: manifestSorted_def reopenFits_def Let_def)
qed

lemma example_store_run:
  "\<exists>s d. storeRuns plainCodecs (blankStore exampleOptions, emptyDir, None) exampleEvents (s, d, None) \<and> st_head s = [] \<and> st_spilling s = []"
proof -
  let ?cs = plainCodecs and ?s0 = "blankStore exampleOptions"
  note cs = plainCodecs_ok
  obtain i ok s1 d1 where c: "CreateTable_st Written ''t'' (?s0, emptyDir) = (i, ok, s1, d1)"
    by (cases "CreateTable_st Written ''t'' (?s0, emptyDir)")
  have e: "i = 1" "ok" "mf_NextTableId (st_man s1) = 2"
    using c by (auto simp: CreateTable_st_def Let_def writeManifestBytes_def blankStore_def newManifest_def)
  have r1: "storeStep ?cs (?s0, emptyDir, None) (Created 1 ''t'') (s1, d1, None)"
    by (rule create) (use c e in \<open>simp_all add: blankStore_def newManifest_def\<close>)
  from example_applied obtain es s2 where a: "applyBatch ?cs exampleOps s1 = Some (es, s2)" "exampleApplied = Some (s2, d1)"
    "st_spilling s2 = []" "list_all (\<lambda>(t, h). smallSpill (st_opts s2) h t) (st_head s2)"
    by (auto simp: exampleApplied_def c)
  have r2: "storeStep ?cs (s1, d1, None) (Applied exampleOps) (s2, d1, None)"
    by (rule batch [OF _ a(1)]) (simp add: exampleOps_def opOk_def e(3))
  have r12: "storeRuns ?cs (?s0, emptyDir, None) (([] @ [Created 1 ''t'']) @ [Applied exampleOps]) (s2, d1, None)"
    by (rule storeRuns.step [OF storeRuns.step [OF storeRuns.start r1] r2])
  have "stepInv ?cs (s2, d1, None)" using storeRuns_simulates [OF cs r12] blank_starts by blast
  then have k: "sysOk ?cs s2 d1" "headsOk s2" by (simp_all add: stepInv_def sysOk_def storeOk_def)
  have f: "\<forall>t h. map_of (st_head s2) t = Some h \<longrightarrow> spillFits ?cs (st_opts s2) h t"
    using a(4) smallSpill_fits by (auto simp: list_all_iff dest!: map_of_SomeD)
  from example_closed [unfolded a(2)] obtain ok3 s3 d3 where
    c3: "CloseAndWait_st ?cs [] (s2, d1) = Some (ok3, s3, d3)" "manifestSorted d3" "reopenFits ?cs exampleOptions d3" by auto
  from close_ok [OF cs k(1) a(3) f c3(1)] obtain s4 where s4: "sysOk ?cs s4 d3" by blast
  from Open_ok [OF cs s4 c3(2) _ c3(3), of Written Written] obtain s' d' where
    o: "Open ?cs exampleOptions Written Written d3 = Some (True, s', d')" "st_head s' = []" "st_spilling s' = []" by auto
  then have "storeStep ?cs (s2, d1, None) Restarted (s', d', None)" by (intro restart [OF a(3) f c3]) simp_all
  from storeRuns.step [OF r12 this] show ?thesis using o(2,3) by (auto simp: exampleEvents_def)
qed

lemma example_view:
  assumes "viewRuns emptyView exampleEvents v"
  shows "v_tables v 1 = Some ''t''" "v_docs v 1 = (\<lambda>_. None)(5 := Some {''c''})"
proof -
  have l: "exampleEvents = (([] @ [Created 1 ''t'']) @ [Applied exampleOps]) @ [Restarted]" by (simp add: exampleEvents_def)
  from assms [unfolded l] obtain v2 where v2: "viewRuns emptyView (([] @ [Created 1 ''t'']) @ [Applied exampleOps]) v2" "viewStep v2 Restarted v"
    by (rule viewRuns_snoc)
  from v2(1) obtain v1 where v1: "viewRuns emptyView ([] @ [Created 1 ''t'']) v1" "viewStep v1 (Applied exampleOps) v2" by (rule viewRuns_snoc)
  from v1(1) obtain v0 where v0: "viewRuns emptyView [] v0" "viewStep v0 (Created 1 ''t'') v1" by (rule viewRuns_snoc)
  show "v_tables v 1 = Some ''t''" "v_docs v 1 = (\<lambda>_. None)(5 := Some {''c''})"
    using v2(2) v1(2) v0 by (auto simp: exampleOps_def emptyView_def specOp_def)
qed

lemma example_segs:
  assumes "storeRuns plainCodecs (blankStore exampleOptions, emptyDir, None) exampleEvents (s, d, p)" "st_head s = []" "st_spilling s = []"
  shows "st_segs s \<noteq> []"
proof
  assume "st_segs s = []"
  then have l: "liveOf plainCodecs s 1 = (\<lambda>_. None)"
    using assms(2,3) by (simp add: liveOf_def tableLayers_def frontHead_def detachedLayers_def diskLayers_def segLayers_def)
  from reachable_ok [OF plainCodecs_ok Open_emptyDir assms(1)] obtain v where
    v: "viewRuns emptyView exampleEvents v" "seenAs plainCodecs (s, d, p) v" by blast
  have "v_docs v 1 = liveOf plainCodecs s 1" using v(2) example_view(1) [OF v(1)] by (simp add: seenAs_def inCatalog_def)
  then show False using l example_view(2) [OF v(1)] by (metis fun_upd_same option.distinct(1))
qed

subsection \<open>The properties\<close>









end
