(* ===== verification/StSched.thy ===== *)
theory StSched
  imports StSystem
begin

text \<open>
  Producers and background work of the segment store (\<^verbatim>\<open>packages/core/invertedstore\<close>: \<^verbatim>\<open>backpressure.go\<close>, the
  producer half of \<^verbatim>\<open>update.go\<close>, the scheduler of \<^verbatim>\<open>concurrency.go\<close>, \<^verbatim>\<open>dispatchSpill\<close> of \<^verbatim>\<open>head.go\<close>, and
  the file names of \<^verbatim>\<open>store.go\<close>). A call that has to wait is \<open>None\<close>; the producers and the merge
  goroutine are step relations over the atomic actions of the code. The counts of the budget are
  unbounded integers: they stay between zero and the capacity.
\<close>

subsection \<open>File names\<close>

definition padded :: "nat \<Rightarrow> bytes" where
  "padded n = (let ds = natStr n in replicate (6 - length ds) (CHR ''0'') @ ds)"

definition segFileName :: "nat \<Rightarrow> bytes" where
  "segFileName i = ''seg-'' @ padded i @ ''.dat''"

definition segTempFileName :: "nat \<Rightarrow> bytes" where
  "segTempFileName n = ''seg-tmp-'' @ padded n @ ''.dat''"

definition isSegTempFileName :: "bytes \<Rightarrow> bool" where
  "isSegTempFileName name \<longleftrightarrow> HasPrefix name ''seg-tmp-'' \<and> HasSuffix name ''.dat''"

definition parseSegFileName :: "bytes \<Rightarrow> nat option" where
  "parseSegFileName name =
     (if \<not> HasPrefix name ''seg-'' \<or> \<not> HasSuffix name ''.dat'' then None
      else case parseUnsigned (take (length name - 8) (drop 4 name)) of
             None \<Rightarrow> None
           | Some i \<Rightarrow> if i < 2 ^ 64 then Some i else None)"

lemma parseDigits_zeros: "parseDigits 0 (replicate k (CHR ''0'') @ ds) = parseDigits 0 ds"
  by (induction k) (simp_all add: digitVal_def)

lemma parse_padded: "parseUnsigned (padded n) = Some n"
  using parseDigits_natStr [of n] by (simp add: parseUnsigned_def padded_def Let_def parseDigits_zeros)

lemma padded_digits: "c \<in> set (padded n) \<Longrightarrow> isDigit c"
proof -
  have "isDigit (CHR ''0'')" by (simp add: isDigit_def digitVal_def)
  then show "c \<in> set (padded n) \<Longrightarrow> isDigit c" using natStr_digits [of c n] by (auto simp: padded_def Let_def)
qed

lemma padded_head: "\<exists>c cs. padded n = c # cs \<and> isDigit c"
proof -
  have "padded n \<noteq> []" by (simp add: padded_def Let_def)
  then obtain c cs where c: "padded n = c # cs" by (cases "padded n") auto
  then have "isDigit c" by (intro padded_digits [of c n]) simp
  then show ?thesis using c by blast
qed

text \<open>A sealed file and a temporary one are told apart, and the id is read back.\<close>

lemma parse_segFileName: "i < 2 ^ 64 \<Longrightarrow> parseSegFileName (segFileName i) = Some i"
  by (simp add: parseSegFileName_def segFileName_def parse_padded suffix_def)

lemma segFileName_not_temp: "\<not> isSegTempFileName (segFileName i)"
  using padded_head [of i] by (auto simp: isSegTempFileName_def segFileName_def isDigit_def digitVal_def)

lemma temp_recognised: "isSegTempFileName (segTempFileName n)" "parseSegFileName (segTempFileName n) = None"
  by (simp_all add: isSegTempFileName_def segTempFileName_def parseSegFileName_def suffix_def parseUnsigned_def digitVal_def)

subsection \<open>The posting budget\<close>

record postingBudget =
  pb_cap :: int
  pb_used :: int

definition newPostingBudget :: "int \<Rightarrow> postingBudget" where
  "newPostingBudget capacity = \<lparr>pb_cap = (if capacity \<le> 0 then 1 else capacity), pb_used = 0\<rparr>"

definition acquire :: "int \<Rightarrow> postingBudget \<Rightarrow> (int \<times> postingBudget) option" where
  "acquire n b =
     (if n \<le> 0 then Some (0, b)
      else let n' = (if pb_cap b < n then pb_cap b else n) in
        if pb_cap b < pb_used b + n' then None else Some (n', b\<lparr>pb_used := pb_used b + n'\<rparr>))"

definition releaseBudget :: "int \<Rightarrow> postingBudget \<Rightarrow> postingBudget" where
  "releaseBudget n b = (if n \<le> 0 then b else b\<lparr>pb_used := pb_used b - n\<rparr>)"

subsection \<open>Producers\<close>

type_synonym batch_st = "updateOp list"

definition NewBatch_st :: batch_st where
  "NewBatch_st = []"

definition Update_batch :: "int \<Rightarrow> docid \<Rightarrow> bytes list \<Rightarrow> batch_st \<Rightarrow> batch_st" where
  "Update_batch tableId docid keywords b = b @ [\<lparr>uo_tableId = tableId, uo_docid = docid, uo_keywords = keywords\<rparr>]"

record applyTask =
  at_got :: int
  at_ops :: "updateOp list"

text \<open>The two waits of a commit, in order: the budget, then the gate.\<close>

definition waitProducerGate :: "store \<Rightarrow> unit option" where
  "waitProducerGate s = (if st_blockProducer s then None else Some ())"

definition postingsOf :: "updateOp list \<Rightarrow> int" where
  "postingsOf ops = sum_list (map (\<lambda>op. int (length (uo_keywords op))) ops)"

definition Update_st :: "int \<Rightarrow> docid \<Rightarrow> bytes list \<Rightarrow> batch_st" where
  "Update_st tableId docid keywords = [\<lparr>uo_tableId = tableId, uo_docid = docid, uo_keywords = keywords\<rparr>]"

text \<open>The producers with a batch that waits for the budget, those that have their share and wait for the
  gate, and the queue of the worker.\<close>

record prodSys =
  p_store :: store
  p_budget :: postingBudget
  p_gate :: "applyTask list"
  p_queue :: "applyTask list"

inductive prodStep :: "compressors \<Rightarrow> prodSys \<Rightarrow> prodSys \<Rightarrow> bool" for cs where
  commit: "ops \<noteq> [] \<Longrightarrow> acquire (postingsOf ops) (p_budget x) = Some (got, b) \<Longrightarrow>
    prodStep cs x (x\<lparr>p_budget := b, p_gate := p_gate x @ [\<lparr>at_got = got, at_ops = ops\<rparr>]\<rparr>)"
| enqueue: "p_gate x = ts1 @ t # ts2 \<Longrightarrow> waitProducerGate (p_store x) = Some () \<Longrightarrow>
    prodStep cs x (x\<lparr>p_gate := ts1 @ ts2, p_queue := p_queue x @ [t]\<rparr>)"
| run: "p_queue x = t # ts \<Longrightarrow> applyBatch cs (at_ops t) (p_store x) = Some (es, s') \<Longrightarrow>
    prodStep cs x (x\<lparr>p_store := s', p_queue := ts, p_budget := releaseBudget (at_got t) (p_budget x)\<rparr>)"
| install: "e \<in> set (st_spilling (p_store x)) \<Longrightarrow> installSpill iter rn r e res (p_store x, d) = (ok, nxt, s', d') \<Longrightarrow>
    prodStep cs x (x\<lparr>p_store := s'\<rparr>)"
| giveUp: "e \<in> set (st_spilling (p_store x)) \<Longrightarrow> giveUpSpill iter e (p_store x, d) = (nxt, s', d') \<Longrightarrow>
    prodStep cs x (x\<lparr>p_store := s'\<rparr>)"

text \<open>What is reserved is what the waiting and queued batches will release.\<close>

definition reserved :: "prodSys \<Rightarrow> int" where
  "reserved x = sum_list (map at_got (p_gate x @ p_queue x))"

definition budgetOk :: "prodSys \<Rightarrow> bool" where
  "budgetOk x \<longleftrightarrow> pb_used (p_budget x) = reserved x \<and> reserved x \<le> pb_cap (p_budget x) \<and>
     (\<forall>t\<in>set (p_gate x @ p_queue x). 0 \<le> at_got t) \<and> 0 < pb_cap (p_budget x)"

text \<open>The gate is closed only while a spill is in flight.\<close>

definition gateOk :: "store \<Rightarrow> bool" where
  "gateOk s \<longleftrightarrow> (st_blockProducer s \<longrightarrow> st_spillInFlight s) \<and> (st_spillInFlight s \<longleftrightarrow> st_spilling s \<noteq> []) \<and> length (st_spilling s) \<le> 1"

lemma applyOneOp_gate: "gateOk s \<Longrightarrow> gateOk (snd (applyOneOp op old s))"
  by (auto simp: gateOk_def applyOneOp_def Let_def detachHeadLocked_def split: prod.splits)

lemma forwardKeywords_gate: "forwardKeywords cs t d s = Some (r, s') \<Longrightarrow> gateOk s' = gateOk s"
  by (auto simp: forwardKeywords_def gateOk_def split: option.splits bind_splits)

lemma applyOps_gate: "applyOps cs ops seen s = Some (es, s') \<Longrightarrow> gateOk s \<Longrightarrow> gateOk s'"
proof (induction ops arbitrary: seen s es)
  case (Cons op ops)
  let ?key = "(uo_tableId op, uo_docid op)"
  obtain old s1 where o: "(case map_of seen ?key of Some w \<Rightarrow> Some (w, s)
      | None \<Rightarrow> map_option (\<lambda>((w, _), s'). (w, s')) (forwardKeywords cs (uo_tableId op) (uo_docid op) s)) = Some (old, s1)"
    using Cons.prems(1) by (auto simp: Let_def split: bind_splits)
  then have "gateOk s1" using Cons.prems(2) forwardKeywords_gate by (auto split: option.splits)
  then have g: "gateOk (snd (applyOneOp op old s1))" by (rule applyOneOp_gate)
  from o Cons.prems(1) obtain es' where
    "applyOps cs ops (AList.update ?key (uo_keywords op) seen) (snd (applyOneOp op old s1)) = Some (es', s')"
    by (auto simp: Let_def case_prod_unfold split: bind_splits)
  then show ?case using Cons.IH g by blast
qed simp

lemma applyBatch_gate: "applyBatch cs ops s = Some (es, s') \<Longrightarrow> gateOk s \<Longrightarrow> gateOk s'"
proof (cases "\<exists>op. ops = [op]")
  case True
  assume a: "applyBatch cs ops s = Some (es, s')" "gateOk s"
  obtain op where "ops = [op]" using True by blast
  then obtain r s1 where "forwardKeywords cs (uo_tableId op) (uo_docid op) s = Some (r, s1)" "s' = snd (applyOneOp op (fst r) s1)"
    using a(1) by (auto simp: applyBatch_def Let_def case_prod_unfold split: bind_splits)
  then show ?thesis using a(2) forwardKeywords_gate applyOneOp_gate by metis
next
  case False
  then have "applyBatch cs ops s = applyOps cs ops [] s" by (simp add: applyBatch_def split: list.split)
  then show "applyBatch cs ops s = Some (es, s') \<Longrightarrow> gateOk s \<Longrightarrow> gateOk s'" using applyOps_gate by simp
qed

lemma findOverCap_gate:
  "st_spilling s = [] \<Longrightarrow> \<not> st_spillInFlight s \<Longrightarrow> \<not> st_blockProducer s \<Longrightarrow> gateOk (snd (findOverCapHeadLocked iter s))"
  by (auto simp: gateOk_def findOverCapHeadLocked_def detachHeadLocked_def Let_def split: option.splits prod.splits)

lemma only_entry: "gateOk s \<Longrightarrow> e \<in> set (st_spilling s) \<Longrightarrow> st_spilling s = [e]"
  by (cases "st_spilling s") (auto simp: gateOk_def)

lemma installSpill_gate:
  assumes "gateOk s" "e \<in> set (st_spilling s)" "installSpill iter rn r e res (s, d) = (ok, nxt, s', d')"
  shows "gateOk s'"
proof (cases ok)
  case True
  define s2 where "s2 = clearBlockProducerLocked ((removeSpillingLocked e (s\<lparr>st_man := appendSegment (spillSegMeta (st_opts s) res (mf_NextSegId (st_man s)) (se_tableId e)) (st_man s),
    st_segs := sortSegmentsById (st_segs s @ [spilledSegment res (mf_NextSegId (st_man s))])\<rparr>))\<lparr>st_spillInFlight := False\<rparr>)"
  have "s' = snd (findOverCapHeadLocked iter s2)"
    using assms(3) True by (auto simp: installSpill_def Let_def s2_def split: if_splits prod.splits)
  then show ?thesis using only_entry [OF assms(1,2)]
    by (simp add: findOverCap_gate s2_def clearBlockProducerLocked_def removeSpillingLocked_def)
next
  case False
  then have "s' = s" using assms(3) by (auto simp: installSpill_def Let_def split: if_splits prod.splits)
  then show ?thesis using assms(1) by simp
qed

lemma giveUpSpill_gate:
  assumes "gateOk s" "e \<in> set (st_spilling s)" "giveUpSpill iter e (s, d) = (nxt, s', d')"
  shows "gateOk s'"
proof -
  define s2 where "s2 = clearBlockProducerLocked ((removeSpillingLocked e s)\<lparr>st_spillInFlight := False\<rparr>)"
  have "s' = snd (findOverCapHeadLocked iter s2)" using assms(3) by (auto simp: giveUpSpill_def Let_def s2_def split: prod.splits)
  then show ?thesis using only_entry [OF assms(1,2)]
    by (simp add: findOverCap_gate s2_def clearBlockProducerLocked_def removeSpillingLocked_def)
qed

lemma acquire_bounds:
  assumes "acquire n b = Some (got, b')" "0 < pb_cap b"
  shows "0 \<le> got" "pb_used b' = pb_used b + got" "pb_used b \<le> pb_cap b \<Longrightarrow> pb_used b' \<le> pb_cap b" "pb_cap b' = pb_cap b"
  using assms by (auto simp: acquire_def Let_def split: if_splits)

lemma releaseBudget_simps [simp]:
  "0 \<le> n \<Longrightarrow> pb_used (releaseBudget n b) = pb_used b - n" "pb_cap (releaseBudget n b) = pb_cap b"
  by (simp_all add: releaseBudget_def)

lemma prodStep_budget: "prodStep cs x x' \<Longrightarrow> budgetOk x \<Longrightarrow> budgetOk x'"
proof (induction rule: prodStep.induct)
  case (commit ops x got b)
  have "0 < pb_cap (p_budget x)" using commit.prems by (simp add: budgetOk_def)
  from acquire_bounds [OF commit.hyps(2) this] show ?case using commit.prems by (auto simp: budgetOk_def reserved_def)
next
  case (enqueue x ts1 t ts2)
  then show ?case by (auto simp: budgetOk_def reserved_def)
next
  case (run x t ts es s')
  then show ?case by (auto simp: budgetOk_def reserved_def)
qed (simp_all add: budgetOk_def reserved_def)

lemma prodStep_gate: "prodStep cs x x' \<Longrightarrow> gateOk (p_store x) \<Longrightarrow> gateOk (p_store x')"
proof (induction rule: prodStep.induct)
  case (run x t ts es s')
  then show ?case using applyBatch_gate by simp
next
  case (install e x iter rn r res d ok nxt s' d')
  then show ?case using installSpill_gate by simp
next
  case (giveUp e x iter d nxt s' d')
  then show ?case using giveUpSpill_gate by simp
qed simp_all

inductive prodReach :: "compressors \<Rightarrow> storeOptions \<Rightarrow> prodSys \<Rightarrow> bool" for cs opts where
  "st_blockProducer s = False \<Longrightarrow> st_spillInFlight s = False \<Longrightarrow> st_spilling s = [] \<Longrightarrow>
   prodReach cs opts \<lparr>p_store = s, p_budget = newPostingBudget (o_MaxInflightPostings opts), p_gate = [], p_queue = []\<rparr>"
| "prodReach cs opts x \<Longrightarrow> prodStep cs x x' \<Longrightarrow> prodReach cs opts x'"

lemma prodReach_ok: "prodReach cs opts x \<Longrightarrow> budgetOk x \<and> gateOk (p_store x)"
proof (induction rule: prodReach.induct)
  case (1 s)
  then show ?case by (simp add: budgetOk_def gateOk_def reserved_def newPostingBudget_def)
next
  case (2 x x')
  then show ?case using prodStep_budget prodStep_gate by blast
qed

lemma example_producer:
  "\<exists>x. prodReach plainCodecs (exampleOptions\<lparr>o_MaxInflightPostings := 1\<rparr>) x \<and> acquire 1 (p_budget x) = None"
proof -
  let ?o = "exampleOptions\<lparr>o_MaxInflightPostings := 1\<rparr>"
  let ?x = "\<lparr>p_store = blankStore exampleOptions, p_budget = newPostingBudget (o_MaxInflightPostings ?o), p_gate = [], p_queue = []\<rparr>"
  let ?ops = "Update_st 1 5 [''c'']"
  have r: "prodReach plainCodecs ?o ?x" by (rule prodReach.intros) (simp_all add: blankStore_def)
  have a: "acquire (postingsOf ?ops) (p_budget ?x) = Some (1, \<lparr>pb_cap = 1, pb_used = 1\<rparr>)"
    by (simp add: acquire_def postingsOf_def Update_st_def newPostingBudget_def Let_def)
  have "prodStep plainCodecs ?x (?x\<lparr>p_budget := \<lparr>pb_cap = 1, pb_used = 1\<rparr>, p_gate := p_gate ?x @ [\<lparr>at_got = 1, at_ops = ?ops\<rparr>]\<rparr>)"
    by (rule commit [OF _ a]) (simp add: Update_st_def)
  from prodReach.intros(2) [OF r this] show ?thesis
    by (intro exI [of _ "?x\<lparr>p_budget := \<lparr>pb_cap = 1, pb_used = 1\<rparr>, p_gate := p_gate ?x @ [\<lparr>at_got = 1, at_ops = ?ops\<rparr>]\<rparr>"])
      (simp add: acquire_def)
qed



subsection \<open>Retries of an installation\<close>

text \<open>\<open>outs\<close> gives the outcome of the rename and of the MANIFEST write of each attempt.\<close>

function dispatchSpill ::
  "((int \<times> headTable) list \<Rightarrow> (int \<times> headTable) list) \<Rightarrow> (nat \<Rightarrow> bool \<times> wresult) \<Rightarrow> spillEntry \<Rightarrow> spillResult \<Rightarrow> nat \<Rightarrow>
   store \<times> disk \<Rightarrow> bool \<times> spillEntry option \<times> store \<times> disk" where
  "dispatchSpill iter outs e res attempt sd =
     (case installSpill iter (fst (outs attempt)) (snd (outs attempt)) e res sd of (ok, nxt, sd') \<Rightarrow>
        if ok then (True, nxt, sd')
        else if o_MaxInstallRetries (st_opts (fst sd)) \<le> int attempt + 1 then (False, giveUpSpill iter e sd')
        else dispatchSpill iter outs e res (attempt + 1) sd')"
  by auto

lemma installSpill_failed: "installSpill iter rn r e res sd = (False, nxt, sd') \<Longrightarrow> fst sd' = fst sd"
  by (auto simp: installSpill_def Let_def split: prod.splits if_splits)

termination dispatchSpill
  by (relation "measure (\<lambda>(iter, outs, e, res, attempt, sd). nat (o_MaxInstallRetries (st_opts (fst sd)) - int attempt))")
    (auto dest!: installSpill_failed [OF sym])

declare dispatchSpill.simps [simp del]

text \<open>The detached head is installed or given up: in both cases it is no longer in flight.\<close>

lemma dispatchSpill_gate:
  "gateOk (fst sd) \<Longrightarrow> e \<in> set (st_spilling (fst sd)) \<Longrightarrow> dispatchSpill iter outs e res attempt sd = (ok, nxt, s', d') \<Longrightarrow> gateOk s'"
proof (induction iter outs e res attempt sd rule: dispatchSpill.induct)
  case (1 iter outs e res attempt sd)
  obtain ok1 nxt1 s1 d1 where i: "installSpill iter (fst (outs attempt)) (snd (outs attempt)) e res sd = (ok1, nxt1, s1, d1)"
    by (metis prod_cases4)
  obtain s d where sd: "sd = (s, d)" by (cases sd)
  have g: "gateOk s1" using installSpill_gate [of s e] 1(2,3) i by (simp add: sd)
  have same: "s1 = s" if "\<not> ok1" using installSpill_failed [of iter _ _ e res sd nxt1 "(s1, d1)"] i that by (auto simp: sd)
  show ?case
  proof (cases "ok1 \<or> o_MaxInstallRetries (st_opts (fst sd)) \<le> int attempt + 1")
    case True
    then show ?thesis using 1(4) g i same 1(3) giveUpSpill_gate [of s1 e iter d1]
      by (auto simp: sd dispatchSpill.simps [of iter outs e res attempt] split: if_splits)
  next
    case False
    then have "dispatchSpill iter outs e res (attempt + 1) (s1, d1) = (ok, nxt, s', d')"
      using 1(4) i by (simp add: dispatchSpill.simps [of iter outs e res attempt sd])
    then show ?thesis using 1(1) [OF i [symmetric] refl] False g same 1(3) by (auto simp: sd)
  qed
qed

subsection \<open>The passes of a scheduled merge\<close>

text \<open>The fuel bounds the tiered passes; \<open>Some None\<close> is a panic in a merge. \<open>rs\<close> has the outcomes of the
  MANIFEST writes. An installation that fails ends the passes.\<close>

fun tieredPasses :: "nat \<Rightarrow> compressors \<Rightarrow> (nat \<Rightarrow> wresult) \<Rightarrow> nat list \<Rightarrow> store \<times> disk \<Rightarrow> (store \<times> disk) option option" where
  "tieredPasses 0 cs rs held sd = None"
| "tieredPasses (Suc n) cs rs held sd =
     (case selectTieredMergePlan (fst sd) of
        (None, s) \<Rightarrow> Some (Some (s, snd sd))
      | (Some p, s) \<Rightarrow>
          (case runMergePlan cs (rs n) held p (s, snd sd) of
             None \<Rightarrow> Some None
           | Some (ok, sd') \<Rightarrow> if ok then tieredPasses n cs rs held sd' else Some (Some sd')))"

definition runScheduledMerge ::
  "nat \<Rightarrow> compressors \<Rightarrow> (nat \<Rightarrow> wresult) \<Rightarrow> wresult \<Rightarrow> nat list \<Rightarrow> bool \<Rightarrow> store \<times> disk \<Rightarrow> (store \<times> disk) option option" where
  "runScheduledMerge fuel cs rs r held force sd =
     (case tieredPasses fuel cs rs held sd of
        None \<Rightarrow> None
      | Some None \<Rightarrow> Some None
      | Some (Some (s, d)) \<Rightarrow>
          (case selectCoveringMergePlan force s of
             (None, s') \<Rightarrow> Some (Some (s', d))
           | (Some p, s') \<Rightarrow> Some (map_option snd (runMergePlan cs r held p (s', d)))))"

definition drainMerge ::
  "nat \<Rightarrow> compressors \<Rightarrow> (nat \<Rightarrow> wresult) \<Rightarrow> wresult \<Rightarrow> nat list \<Rightarrow> bool \<Rightarrow> bool \<Rightarrow> store \<times> disk \<Rightarrow> (store \<times> disk) option option" where
  "drainMerge fuel cs rs r held signal force sd =
     (if signal then runScheduledMerge fuel cs rs r held force sd else Some (Some sd))"

text \<open>Every successful tiered pass leaves fewer segments, when the fan-out is at least two.\<close>

lemma filter_ids_length:
  "length (filter (\<lambda>sm. sm_Id sm \<notin> sm_Id ` set (metasAt sms l)) sms) + length (metasAt sms l) \<le> length sms"
proof -
  have "length (filter (\<lambda>sm. sm_Id sm \<notin> sm_Id ` set (metasAt sms l)) sms) \<le> length (filter (\<lambda>sm. sm_Level sm \<noteq> l) sms)"
    unfolding length_filter_conv_card by (intro card_mono) (auto simp: metasAt_def)
  moreover have "length (metasAt sms l) + length (filter (\<lambda>sm. sm_Level sm \<noteq> l) sms) = length sms"
    using sum_length_filter_compl [of "\<lambda>sm. sm_Level sm = l" sms] by (simp add: metasAt_def)
  ultimately show ?thesis by simp
qed

lemma tiered_pass_shrinks:
  assumes f: "2 \<le> o_Fanout (st_opts s)" and p: "selectTieredMergePlan s = (Some p, s1)"
    and m: "runMergePlan cs r held p (s1, d) = Some (True, s', d')"
  shows "length (mf_Segments (st_man s')) < length (mf_Segments (st_man s))" "st_opts s' = st_opts s"
proof -
  let ?sms = "mf_Segments (st_man s)"
  obtain l metas where pk: "pickLowestQualifyingLevelLocked s = Some (l, metas)"
    using p by (cases "pickLowestQualifyingLevelLocked s") (auto simp: selectTieredMergePlan_def)
  then have l: "o_Fanout (st_opts s) \<le> int (length (metasAt ?sms l))" "set metas = set (metasAt ?sms l)"
    by (auto simp: pickLowestQualifyingLevelLocked_def Let_def sortSegMetasById_def find_Some_iff split: option.splits)
  have e: "mp_inputIds p = map sm_Id metas" "mf_Segments (st_man s1) = ?sms" "st_opts s1 = st_opts s"
    using p pk by (auto simp: selectTieredMergePlan_def Let_def nextSegId_def)
  obtain res where "installMerge r held (mp_inputIds p) res (s1, d\<lparr>dk_segs := AList.update (mp_outId p) (sg_file (fst res)) (dk_segs d)\<rparr>) = (True, s', d')"
    using m by (auto simp: runMergePlan_def split: bind_splits)
  then have "mf_Segments (st_man s') = filter (\<lambda>sm. sm_Id sm \<notin> sm_Id ` set (metasAt ?sms l)) ?sms @ [snd res]" "st_opts s' = st_opts s"
    by (auto simp: installMerge_def Let_def e l(2) split: if_splits prod.splits)
  then show "length (mf_Segments (st_man s')) < length ?sms" "st_opts s' = st_opts s"
    using filter_ids_length [of ?sms l] l(1) f by simp_all
qed

theorem tieredPasses_end:
  assumes "2 \<le> o_Fanout (st_opts (fst sd))" "length (mf_Segments (st_man (fst sd))) < fuel"
  shows "tieredPasses fuel cs rs held sd \<noteq> None"
  using assms
proof (induction fuel arbitrary: sd)
  case (Suc n)
  obtain s d where sd: "sd = (s, d)" by (cases sd)
  obtain q s1 where q: "selectTieredMergePlan s = (q, s1)" by (cases "selectTieredMergePlan s")
  show ?case
  proof (cases "\<exists>p s' d'. q = Some p \<and> runMergePlan cs (rs n) held p (s1, d) = Some (True, s', d')")
    case True
    then obtain p s' d' where p: "q = Some p" "runMergePlan cs (rs n) held p (s1, d) = Some (True, s', d')" by blast
    from tiered_pass_shrinks [of s p s1 cs "rs n" held d s' d'] have
      "length (mf_Segments (st_man s')) < n" "st_opts s' = st_opts s" using Suc.prems q p by (simp_all add: sd)
    then show ?thesis using Suc.IH [of "(s', d')"] Suc.prems(1) q p by (simp add: sd)
  next
    case False
    then show ?thesis using q by (auto simp: sd split: option.splits)
  qed
qed simp

subsection \<open>Triggers\<close>

text \<open>The merge goroutine waits for the signal, reads the sequence number of the requests, takes the flag for a
  covering merge, runs the passes and acknowledges what it had read. A trigger sets the flag, counts the
  request and then sends the signal; other goroutines run between any two of these actions.\<close>

datatype loopPc = Waiting | Woken | HasReq nat | Running nat bool

datatype trigPc = Bump | Send

record mergeSig =
  g_force :: bool
  g_req :: nat
  g_ack :: nat
  g_signal :: bool
  g_loop :: loopPc
  g_trig :: "trigPc list"

inductive sigStep :: "mergeSig \<Rightarrow> mergeSig \<Rightarrow> bool" where
  trigStart: "sigStep g (g\<lparr>g_force := g_force g \<or> covering, g_trig := Bump # g_trig g\<rparr>)"
| trigBump: "g_trig g = ts1 @ Bump # ts2 \<Longrightarrow> sigStep g (g\<lparr>g_req := g_req g + 1, g_trig := ts1 @ Send # ts2\<rparr>)"
| trigSend: "g_trig g = ts1 @ Send # ts2 \<Longrightarrow> sigStep g (g\<lparr>g_signal := True, g_trig := ts1 @ ts2\<rparr>)"
| wake: "g_loop g = Waiting \<Longrightarrow> g_signal g \<Longrightarrow> sigStep g (g\<lparr>g_signal := False, g_loop := Woken\<rparr>)"
| load: "g_loop g = Woken \<Longrightarrow> sigStep g (g\<lparr>g_loop := HasReq (g_req g)\<rparr>)"
| take: "g_loop g = HasReq n \<Longrightarrow> sigStep g (g\<lparr>g_force := False, g_loop := Running n (g_force g)\<rparr>)"
| ack: "g_loop g = Running n f \<Longrightarrow> sigStep g (g\<lparr>g_ack := n, g_loop := Waiting\<rparr>)"

inductive sigReach :: "mergeSig \<Rightarrow> bool" where
  "sigReach \<lparr>g_force = False, g_req = 0, g_ack = 0, g_signal = False, g_loop = Waiting, g_trig = []\<rparr>"
| "sigReach g \<Longrightarrow> sigStep g g' \<Longrightarrow> sigReach g'"

definition sigOk :: "mergeSig \<Rightarrow> bool" where
  "sigOk g \<longleftrightarrow> g_signal g \<or> g_trig g \<noteq> [] \<or>
     (case g_loop g of Waiting \<Rightarrow> g_ack g = g_req g \<and> \<not> g_force g | Woken \<Rightarrow> True | HasReq n \<Rightarrow> n = g_req g
        | Running n f \<Rightarrow> n = g_req g \<and> \<not> g_force g)"

lemma sigReach_ok: "sigReach g \<Longrightarrow> sigOk g"
proof (induction rule: sigReach.induct)
  case (2 g g')
  from 2(2,3) show ?case by (induction rule: sigStep.induct) (auto simp: sigOk_def)
qed (simp add: sigOk_def)

text \<open>No trigger is lost: when the goroutine is idle and no signal is pending, every request has been served by a pass that
  started after it was counted, and no covering merge is owed.\<close>

theorem no_lost_trigger:
  assumes "sigReach g" "g_loop g = Waiting" "\<not> g_signal g" "g_trig g = []"
  shows "g_ack g = g_req g \<and> \<not> g_force g"
  using sigReach_ok [OF assms(1)] assms(2-4) by (simp add: sigOk_def)

end
