(* ===== verification/Spec2Isabelle.thy ===== *)
theory Spec2Isabelle
  imports IdAlloc InvCount Retrieval Queue StRefs StSched
begin

text \<open>
  Verification of the storage and text-processing core of haystack, a search service for source code. All paths
  below are under \<^verbatim>\<open>src/packages/core\<close>.

  \<^bold>\<open>The program.\<close> Documents are turned into keywords by a tokenizer (\<^verbatim>\<open>tokenizer\<close>) and stored as postings, keyword to
  document ids, with a forward map from documents to keywords that lets an update find what to remove. There are two such
  stores: \<^verbatim>\<open>invertedindex\<close> keeps rows in an ordered key-value store (\<^verbatim>\<open>kv\<close>, \<^verbatim>\<open>kv/pebblekv\<close>) behind write and delete caches,
  with a background merger of rows; \<^verbatim>\<open>invertedstore\<close> is a log-structured store of its own: a head per table in memory,
  immutable segment files, a MANIFEST, and tiered and covering merges. String keys get numbers from \<^verbatim>\<open>idtable\<close>. Every writer
  runs its tasks on the single consumer of \<^verbatim>\<open>queue\<close>.

  \<^bold>\<open>Conventions.\<close> \<^verbatim>\<open>Prelude\<close> says how Go values are represented. Bytes and strings are lists of characters; document ids are
  64-bit words compared as signed numbers, ordinals and table numbers in segment files 32-bit words. A call that returns an
  error is a sum or a Boolean beside the state; \<open>None\<close> is a panic, or a wait where a text says so. What comes from outside
  is an argument: faults of the storage engine, outcomes of file operations (\<open>wresult\<close>, renames), readings of the clock,
  the iteration order of Go maps, Unicode case mapping, the dictionary of the CJK segmenter, and the compression
  libraries (\<open>compressors\<close>, with the hypothesis \<open>codec_ok\<close> that decompression inverts compression).

  \<^bold>\<open>Library.\<close> \<^verbatim>\<open>GoStd\<close>, \<^verbatim>\<open>GoUtf8\<close> and \<^verbatim>\<open>GoJson\<close> hold what the code uses of the standard library, with round trips.

  \<^bold>\<open>Key-value store.\<close> \<^verbatim>\<open>KV\<close>: \<^verbatim>\<open>db.go\<close> and \<^verbatim>\<open>batch.go\<close> of \<^verbatim>\<open>pebblekv\<close> over an ordered map. Batches that commit themselves when
  they are full are transparent and leave a prefix when they fail, scans return exactly the entries with a prefix. The
  reader interface is the locale \<open>kv_reader\<close>, interpreted on the database and on its snapshots.

  \<^bold>\<open>Ids.\<close> \<^verbatim>\<open>IdTable\<close> (\<^verbatim>\<open>lru_cache.go\<close>, codec) and \<^verbatim>\<open>IdAlloc\<close> (\<^verbatim>\<open>idtable.go\<close>): the cache refines a bounded list ordered by use; ids are
  unique, stable across reopening, and consistent after a crash at any batch boundary.

  \<^bold>\<open>Inverted index.\<close> \<^verbatim>\<open>InvCodec\<close> has the keys and values, \<^verbatim>\<open>InvIndex\<close> the operations of the package, \<^verbatim>\<open>InvPosts\<close> the meaning of rows,
  \<^verbatim>\<open>InvFlush\<close> and \<^verbatim>\<open>InvDelete\<close> the two flushes, \<^verbatim>\<open>InvMerger\<close> the merger, \<^verbatim>\<open>InvSync\<close> the refinement to a map from documents to
  keywords with exact reads, \<^verbatim>\<open>InvCount\<close> the counters that bound the caches.

  \<^bold>\<open>Tokenizers.\<close> \<^verbatim>\<open>AsciiScan\<close> shows that the hand-written scanner equals the regular expression it replaced, \<^verbatim>\<open>AsciiTok\<close> splits
  identifiers, \<^verbatim>\<open>FstSeg\<close> and \<^verbatim>\<open>CjkTok\<close> segment CJK text (lossless and optimal), \<^verbatim>\<open>MixedTok\<close> and \<^verbatim>\<open>SuffixTok\<close> combine them. \<^verbatim>\<open>Tokens\<close>
  has the locale \<open>tokenizer\<close>: the words of a query are prefixes of keywords of every document they occur in. It is
  interpreted on the ASCII, CJK and mixed tokenizers. \<^verbatim>\<open>Retrieval\<close> composes tokenizers and index.

  \<^bold>\<open>Queue.\<close> \<^verbatim>\<open>Queue\<close>: \<^verbatim>\<open>mpsc.go\<close> as a step relation over its goroutines; order, errors, and that it comes to rest.

  \<^bold>\<open>Segment store.\<close> From the bytes upwards:
  \<^item> \<^verbatim>\<open>StKeys\<close> (\<^verbatim>\<open>keys.go\<close>), \<^verbatim>\<open>StSegment\<close>, \<^verbatim>\<open>StFile\<close>, \<^verbatim>\<open>StWrite\<close> (\<^verbatim>\<open>codec.go\<close>, \<^verbatim>\<open>segment.go\<close>): what is written to a segment file is read
    back. The predicate \<open>holds\<close> relates a file to its records.
  \<^item> \<^verbatim>\<open>StLayers\<close>: the specification, layers whose newest statement wins, and their algebra.
  \<^item> \<^verbatim>\<open>StHead\<close>, \<^verbatim>\<open>StRecs\<close> (\<^verbatim>\<open>head.go\<close>): heads, their encoding, and records as layers.
  \<^item> \<^verbatim>\<open>StMerge\<close>, \<^verbatim>\<open>StMergeOk\<close>, \<^verbatim>\<open>StMergeStep\<close>, \<^verbatim>\<open>StMergeLayer\<close> (\<^verbatim>\<open>merge.go\<close>): the streaming merge returns, and its output is the stack
    of its inputs.
  \<^item> \<^verbatim>\<open>StCache\<close> (\<^verbatim>\<open>dictcache.go\<close>), \<^verbatim>\<open>StStore\<close> (\<^verbatim>\<open>store.go\<close>, \<^verbatim>\<open>update.go\<close>, \<^verbatim>\<open>manifest.go\<close>, spills), \<^verbatim>\<open>StCompact\<close> (planning and installing
    merges, opening, closing, \<^verbatim>\<open>reconcile.go\<close>), \<^verbatim>\<open>StSearch\<close> (\<^verbatim>\<open>search.go\<close>): the operations.
  \<^item> \<^verbatim>\<open>StRead\<close>, \<^verbatim>\<open>StForward\<close>: the reads return what the stack says.
  \<^item> \<^verbatim>\<open>StInv\<close>, \<^verbatim>\<open>StUpd\<close>, \<^verbatim>\<open>StDisk\<close>, \<^verbatim>\<open>StInstall\<close>, \<^verbatim>\<open>StMergeInst\<close>, \<^verbatim>\<open>StLive\<close>, \<^verbatim>\<open>StOpen\<close>: the invariant of memory and directory, and what
    each operation does to the live, the pending and the durable contents.
  \<^item> \<^verbatim>\<open>StSteps\<close>, \<^verbatim>\<open>StSystem\<close>: the tasks as a step relation, a simulation to the view of a caller, and the properties of all
    reachable states.
  \<^item> \<^verbatim>\<open>StRefs\<close>, \<^verbatim>\<open>StSched\<close> (\<^verbatim>\<open>concurrency.go\<close>, \<^verbatim>\<open>backpressure.go\<close>, producers): reference counts, budget and gate, retries, merge passes
    and triggers, as step relations over the atomic actions.

  \<^bold>\<open>Guards of the step relation.\<close> The steps of \<^verbatim>\<open>StSteps\<close> exclude what is known to break the store, each of which is a
  recorded finding: negative document ids; a tiered merge whose inputs are not the newest segments (\<open>newestInputs\<close>); a
  restart with a MANIFEST that lists segments out of order (\<open>manifestSorted\<close>); a directory sync that fails after the rename
  (\<open>NotSynced\<close>); catalog operations whose MANIFEST write fails; a head that is given up after the last retry. Sizes below
  the 63-bit and 32-bit limits of the file format are guards too (\<open>segFits\<close>, \<open>headFits\<close>, \<open>mergeFits\<close>, \<open>planFits\<close>).

  \<^bold>\<open>Bounds and fuel.\<close> Loops are structural or have a termination proof. The only fuel is that of \<open>tieredPasses\<close>, whose
  loop ends when the fan-out is at least two: \<open>tieredPasses_end\<close> shows that more fuel than segments is enough. The budget
  of \<^verbatim>\<open>StSched\<close> and the fraction of dead postings are computed without overflow and rounding.

  \<^bold>\<open>Not modelled.\<close> The storage engine, the compression libraries and the Go runtime; \<^verbatim>\<open>third_party/vellum\<close> and the builder of the
  CJK dictionary, whose automaton is a lookup function here; \<^verbatim>\<open>vectorstore\<close>, an approximate search whose results depend on
  floating-point arithmetic and random levels; \<^verbatim>\<open>documents\<close>, \<^verbatim>\<open>collection\<close> and \<^verbatim>\<open>engine\<close>, the layer that combines the stores,
  and \<^verbatim>\<open>utils/git\<close>, which are outside the scope of this development; the server, client and HTTP packages, which are
  input and output. In \<^verbatim>\<open>invertedstore\<close> the hooks for tests and the marshalling of the MANIFEST to JSON are left out.
\<close>

end
